(* ===== verification/Prelude.thy ===== *)
theory Prelude
  imports "HOL-Library.Word" "HOL-Library.Monad_Syntax"
begin

text \<open>
  Types and generic facts every component shares. The kernel is built for 32-bit x86, so an
  unsigned C integer is a word of its width and its arithmetic wraps; a pointer is a
  \<open>u32\<close>. An operation that can run into \<open>kpanic\<close> (which never returns), or whose C text
  reads or writes outside its object, has an option as its result and \<open>None\<close> is that
  outcome. A loop whose end depends on memory is a \<open>partial_function\<close>, and \<open>None\<close>
  also stands for running forever.
\<close>

unbundle bit_operations_syntax

type_synonym u8 = "8 word"
type_synonym u16 = "16 word"
type_synonym u32 = "32 word"

text \<open>Flat, byte-addressed memory, and a C string without its terminator.\<close>

type_synonym mem = "u32 \<Rightarrow> u8"
type_synonym cstr = "u8 list"

named_theorems nowrap \<open>word arithmetic that does not wrap, read as naturals\<close>

subsection \<open>Words\<close>

lemma unat32_bound: "unat (w :: u32) < 4294967296"
  using unsigned_less [of w] by simp

lemma unat_add_nowrap [nowrap]:
  fixes a b :: u32
  assumes "unat a + unat b < 4294967296"
  shows "unat (a + b) = unat a + unat b"
  using assms by (simp add: unat_word_ariths)

lemma unat_diff_nowrap [nowrap]:
  fixes a b :: u32
  assumes "unat b \<le> unat a"
  shows "unat (a - b) = unat a - unat b"
  using assms by (simp add: unat_sub word_le_nat_alt)

lemma unat_of_nat32 [nowrap]:
  assumes "n < 4294967296"
  shows "unat (of_nat n :: u32) = n"
  using assms by (simp add: unat_of_nat take_bit_nat_eq_self)

lemma of_nat32_inj:
  assumes "a < 4294967296" and "b < 4294967296"
  shows "(of_nat a :: u32) = of_nat b \<longleftrightarrow> a = b"
proof
  assume "(of_nat a :: u32) = of_nat b"
  then have "unat (of_nat a :: u32) = unat (of_nat b :: u32)" by (rule arg_cong)
  then show "a = b" by (simp only: unat_of_nat32 [OF assms(1)] unat_of_nat32 [OF assms(2)])
qed (rule arg_cong)

lemma word_eq_by_unat: "(a :: u32) = b \<longleftrightarrow> unat a = unat b"
  by (simp add: word_unat_eq_iff)

lemma unat_add_of_nat [nowrap]:
  fixes a :: u32
  assumes "unat a + n < 4294967296"
  shows "unat (a + of_nat n) = unat a + n"
  using assms by (simp add: nowrap)

lemma of_nat_unat_diff:
  fixes a b :: u32
  assumes "unat b \<le> unat a"
  shows "b + of_nat (unat a - unat b) = a"
  using assms by (simp add: word_eq_by_unat nowrap)

lemma unat_less_induct32 [case_names less]:
  fixes w :: u32
  assumes "\<And>w. (\<And>v. unat v < unat w \<Longrightarrow> P v) \<Longrightarrow> P w"
  shows "P w"
  using assms by (rule measure_induct_rule [where f = unat])

lemma unat_pred:
  fixes w :: u32
  assumes "w \<noteq> 0"
  shows "unat (w - 1) = unat w - 1"
proof -
  from assms have "1 \<le> unat w"
    by (metis One_nat_def Suc_leI unat_gt_0)
  then show ?thesis by (simp add: unat_diff_nowrap)
qed

lemma unat_Suc_below:
  fixes i :: u32
  assumes "unat i < unat n"
  shows "unat (i + 1) = Suc (unat i) \<and> unat (i + 1) \<le> unat (n :: u32)"
  using assms unat32_bound [of n] unat_add_nowrap [of i 1] by simp

subsection \<open>Lists\<close>

lemma in_set_drop_nth:
  assumes "x \<in> set (drop k xs)"
  obtains i where "k \<le> i" "i < length xs" "x = xs ! i"
proof -
  from assms obtain j where "j < length xs - k" "x = drop k xs ! j"
    by (auto simp: in_set_conv_nth)
  then show ?thesis using that [of "k + j"] by simp
qed

lemma map_of_remove_nth:
  assumes "i < length xs" and "distinct (List.map fst xs)"
  shows "map_of (take i xs @ drop (Suc i) xs) = (map_of xs)(fst (xs ! i) := None)"
    and "distinct (List.map fst (take i xs @ drop (Suc i) xs))"
proof -
  show "map_of (take i xs @ drop (Suc i) xs) = (map_of xs)(fst (xs ! i) := None)"
    using assms
  proof (induction xs arbitrary: i)
    case (Cons x xs)
    show ?case
    proof (cases i)
      case 0
      have "map_of xs (fst x) = None" using Cons.prems by (simp add: map_of_eq_None_iff)
      then show ?thesis by (auto simp: 0 fun_eq_iff)
    next
      case (Suc j)
      then have "fst (xs ! j) \<noteq> fst x" using Cons.prems by (metis Suc_less_eq distinct.simps(2) image_eqI length_Cons list.simps(9) list.set_map nth_mem)
      then show ?thesis using Cons by (auto simp: Suc fun_eq_iff)
    qed
  qed simp
  have "List.map fst xs = List.map fst (take i xs) @ fst (xs ! i) # List.map fst (drop (Suc i) xs)"
    using assms(1) by (metis id_take_nth_drop list.simps(9) map_append)
  then show "distinct (List.map fst (take i xs @ drop (Suc i) xs))" using assms(2) by simp
qed

subsection \<open>Little-endian words in bytes\<close>

definition u32_bytes :: "u32 \<Rightarrow> u8 list" where
  "u32_bytes w = [ucast w, ucast (drop_bit 8 w), ucast (drop_bit 16 w), ucast (drop_bit 24 w)]"

definition bytes_u32 :: "u8 list \<Rightarrow> u32" where
  "bytes_u32 bs =
     ucast (bs ! 0) OR push_bit 8 (ucast (bs ! 1)) OR
     push_bit 16 (ucast (bs ! 2)) OR push_bit 24 (ucast (bs ! 3))"

lemma length_u32_bytes [simp]: "length (u32_bytes w) = 4"
  by (simp add: u32_bytes_def)

lemma bytes_u32_of_u32_bytes [simp]: "bytes_u32 (u32_bytes w) = w"
proof (rule bit_word_eqI)
  fix n
  assume "n < LENGTH(32)"
  then have n: "n < 32" by simp
  consider "n < 8" | "8 \<le> n" "n < 16" | "16 \<le> n" "n < 24" | "24 \<le> n" "n < 32"
    using n by linarith
  then show "bit (bytes_u32 (u32_bytes w)) n \<longleftrightarrow> bit w n"
    by cases (auto simp: bytes_u32_def u32_bytes_def bit_simps)
qed

end
