(* ===== verification/Util.thy ===== *)
theory Util
  imports Prelude
begin

text \<open>
  \<open>src/util.c\<close>: block moves, C strings, number formatting and binary search, over flat
  byte-addressed memory. The user library links the same file.
\<close>

subsection \<open>Block moves\<close>

text \<open>The loop bodies, with the indices in the order the loop visits them.\<close>

definition copy_loop :: "mem \<Rightarrow> u32 \<Rightarrow> u32 \<Rightarrow> nat list \<Rightarrow> mem" where
  "copy_loop m dest src is = fold (\<lambda>i m. m(dest + of_nat i := m (src + of_nat i))) is m"

definition memcpy :: "mem \<Rightarrow> u32 \<Rightarrow> u32 \<Rightarrow> u32 \<Rightarrow> mem" where
  "memcpy m dest src sz =
     (if sz = 0 then m
      else if dest < src then copy_loop m dest src [0..<unat sz]
      else if src < dest then copy_loop m dest src (rev [0..<unat sz])
      else m)"

definition memset :: "mem \<Rightarrow> u32 \<Rightarrow> u8 \<Rightarrow> u32 \<Rightarrow> mem" where
  "memset m dest v sz = fold (\<lambda>i m. m(dest + of_nat i := v)) [0..<unat sz] m"

text \<open>\<open>offset\<close> is an \<open>int32_t\<close>.\<close>

definition memshift :: "mem \<Rightarrow> u32 \<Rightarrow> u32 \<Rightarrow> u32 \<Rightarrow> mem" where
  "memshift m dest offset sz =
     (if sz = 0 then m
      else if 0 < sint offset then copy_loop m (dest + offset) dest (rev [0..<unat sz])
      else if sint offset < 0 then copy_loop m (dest + offset) dest [0..<unat sz]
      else m)"

definition min_u32 :: "u32 \<Rightarrow> u32 \<Rightarrow> u32" where
  "min_u32 a b = (if a > b then b else a)"

definition max_u32 :: "u32 \<Rightarrow> u32 \<Rightarrow> u32" where
  "max_u32 a b = (if a > b then a else b)"

definition strrev_step :: "u32 \<Rightarrow> u32 \<Rightarrow> nat \<Rightarrow> mem \<Rightarrow> mem" where
  "strrev_step p len i m =
     (let temp = m (p + of_nat i);
          m = m(p + of_nat i := m (p + len - of_nat i - 1))
      in m(p + len - of_nat i - 1 := temp))"

definition strrev :: "mem \<Rightarrow> u32 \<Rightarrow> u32 \<Rightarrow> mem" where
  "strrev m p len = fold (strrev_step p len) [0..<unat (len div 2)] m"

subsection \<open>C strings\<close>

partial_function (option) strlen_loop :: "mem \<Rightarrow> u32 \<Rightarrow> u32 \<Rightarrow> u32 option" where
  "strlen_loop m str len = (if m str \<noteq> 0 then strlen_loop m (str + 1) (len + 1) else Some len)"

definition strlen :: "mem \<Rightarrow> u32 \<Rightarrow> u32 option" where
  "strlen m str = strlen_loop m str 0"

text \<open>The terminator is not copied.\<close>

partial_function (option) strcpy_loop :: "mem \<Rightarrow> u32 \<Rightarrow> u32 \<Rightarrow> u32 \<Rightarrow> mem option" where
  "strcpy_loop m dest src i =
     (if m (src + i) \<noteq> 0 then strcpy_loop (m(dest + i := m (src + i))) dest src (i + 1) else Some m)"

definition strcpy :: "mem \<Rightarrow> u32 \<Rightarrow> u32 \<Rightarrow> mem option" where
  "strcpy m dest src = strcpy_loop m dest src 0"

text \<open>\<open>char\<close> is signed, so bytes compare by \<open>sint\<close>.\<close>

partial_function (option) strcmp_loop :: "mem \<Rightarrow> u32 \<Rightarrow> u32 \<Rightarrow> u32 \<Rightarrow> int option" where
  "strcmp_loop m str1 str2 i =
     (if m (str1 + i) \<noteq> 0 \<and> m (str2 + i) \<noteq> 0
      then if sint (m (str1 + i)) > sint (m (str2 + i)) then Some 1
           else if sint (m (str1 + i)) < sint (m (str2 + i)) then Some (-1)
           else strcmp_loop m str1 str2 (i + 1)
      else if m (str1 + i) \<noteq> 0 then Some 1
      else if m (str2 + i) \<noteq> 0 then Some (-1)
      else Some 0)"

definition strcmp :: "mem \<Rightarrow> u32 \<Rightarrow> u32 \<Rightarrow> int option" where
  "strcmp m str1 str2 = strcmp_loop m str1 str2 0"

subsection \<open>Numbers\<close>

function tostr_u_loop :: "mem \<Rightarrow> u32 \<Rightarrow> u32 \<Rightarrow> u32 \<Rightarrow> mem \<times> u32" where
  "tostr_u_loop m buffer i idx =
     (if i > 0 then tostr_u_loop (m(buffer + idx := 0x30 + ucast (i mod 10))) buffer (i div 10) (idx + 1)
      else (m, idx))"
  by pat_completeness auto
termination
  by (relation "measure (\<lambda>(m, buffer, i, idx). unat i)") (auto simp: unat_div unat_gt_0 word_gt_0)

definition tostr_u :: "mem \<Rightarrow> u32 \<Rightarrow> u32 \<Rightarrow> mem" where
  "tostr_u m buffer i =
     (if i = 0 then let m = m(buffer := 0x30); m = m(buffer + 1 := 0) in strrev m buffer 1
      else let (m, idx) = tostr_u_loop m buffer i 0; m = m(buffer + idx := 0)
           in strrev m buffer idx)"

definition dec_to_hex :: "u8 \<Rightarrow> u8" where
  "dec_to_hex d = (if d < 10 then 0x30 + d else 0x61 + d - 10)"

definition tostr_x :: "mem \<Rightarrow> u32 \<Rightarrow> u32 \<Rightarrow> mem" where
  "tostr_x m buffer h =
     (let m = m(buffer := 0x30);
          m = m(buffer + 1 := 0x78);
          m = m(buffer + 10 := 0)
      in fst (fold (\<lambda>i (m, h). (m(buffer + (9 - of_nat i) := dec_to_hex (ucast (h mod 16))), h div 16))
                [0..<8] (m, h)))"

text \<open>
  Binary search over an array of words. \<open>from\<close> and \<open>to\<close> are \<open>int32_t\<close>; a read outside
  the array is \<open>None\<close>. The comparison returns \<open>-1\<close>, \<open>0\<close> or \<open>1\<close>.
\<close>

function bin_search_from :: "u32 list \<Rightarrow> int \<Rightarrow> int \<Rightarrow> u32 \<Rightarrow> (u32 \<Rightarrow> u32 \<Rightarrow> int) \<Rightarrow> int option" where
  "bin_search_from ptr from to v cmp =
     (if to < from then Some (-1)
      else let mid = (from + to) div 2
           in if mid < 0 \<or> int (length ptr) \<le> mid then None
              else if cmp (ptr ! nat mid) v = 0 then Some mid
              else if cmp (ptr ! nat mid) v = 1 then bin_search_from ptr from (mid - 1) v cmp
              else bin_search_from ptr (mid + 1) to v cmp)"
  by pat_completeness auto
termination
  by (relation "measure (\<lambda>(ptr, from, to, v, cmp). nat (to - from + 1))") auto

definition bin_search :: "u32 list \<Rightarrow> int \<Rightarrow> u32 \<Rightarrow> (u32 \<Rightarrow> u32 \<Rightarrow> int) \<Rightarrow> int option" where
  "bin_search ptr len v cmp =
     (if len = 0 then Some (-1) else bin_search_from ptr 0 (len - 1) v cmp)"

declare tostr_u_loop.simps [simp del] bin_search_from.simps [simp del]

subsection \<open>Block moves are correct for overlapping blocks\<close>

text \<open>What a block move should do, whatever the overlap.\<close>

definition block_moved :: "mem \<Rightarrow> u32 \<Rightarrow> u32 \<Rightarrow> nat \<Rightarrow> mem" where
  "block_moved m dest src n =
     (\<lambda>a. if unat dest \<le> unat a \<and> unat a < unat dest + n then m (src + (a - dest)) else m a)"

lemma block_moved_0 [simp]: "block_moved m dest src 0 = m"
  by (auto simp: block_moved_def fun_eq_iff)

lemma block_moved_same [simp]: "block_moved m p p n = m"
  by (simp add: block_moved_def fun_eq_iff add_diff_eq)

lemma block_moved_Suc:
  assumes "unat dest + Suc n \<le> 4294967296"
  shows "block_moved m dest src (Suc n) = (block_moved m dest src n)(dest + of_nat n := m (src + of_nat n))"
proof -
  have d: "unat (dest + of_nat n) = unat dest + n"
    using assms by (auto simp: unat_add_of_nat)
  show ?thesis
  proof
    fix a
    show "block_moved m dest src (Suc n) a =
        ((block_moved m dest src n)(dest + of_nat n := m (src + of_nat n))) a"
    proof (cases "a = dest + of_nat n")
      case False
      then have "unat a \<noteq> unat dest + n" by (auto simp: word_eq_by_unat d)
      with False show ?thesis by (simp add: block_moved_def less_Suc_eq)
    qed (simp add: block_moved_def d)
  qed
qed

lemma block_moved_inside:
  assumes "unat dest + n \<le> 4294967296" "i < n"
  shows "block_moved m dest src n (dest + of_nat i) = m (src + of_nat i)"
  using assms by (simp add: block_moved_def unat_add_of_nat)

lemma block_moved_outside:
  "unat a < unat dest \<or> unat dest + n \<le> unat a \<Longrightarrow> block_moved m dest src n a = m a"
  by (auto simp: block_moved_def)

lemma copy_loop_up:
  assumes "unat dest + n \<le> 4294967296" "unat src + n \<le> 4294967296"
    and "unat dest \<le> unat src \<or> unat src + n \<le> unat dest"
  shows "copy_loop m dest src [0..<n] = block_moved m dest src n"
  using assms
proof (induction n)
  case 0
  then show ?case by (simp add: copy_loop_def)
next
  case (Suc n)
  have s: "unat (src + of_nat n) = unat src + n"
    using Suc.prems by (auto simp: unat_add_of_nat)
  have IH: "copy_loop m dest src [0..<n] = block_moved m dest src n"
    using Suc by auto
  have "block_moved m dest src n (src + of_nat n) = m (src + of_nat n)"
    using Suc.prems(3) by (cases "dest = src") (auto simp: s word_eq_by_unat intro!: block_moved_outside)
  then have "copy_loop m dest src [0..<Suc n] = (block_moved m dest src n)(dest + of_nat n := m (src + of_nat n))"
    unfolding copy_loop_def using IH by (simp add: copy_loop_def)
  with Suc.prems show ?case by (simp add: block_moved_Suc)
qed

lemma copy_loop_down:
  assumes "unat dest + n \<le> 4294967296" "unat src + n \<le> 4294967296" "unat src \<le> unat dest"
  shows "copy_loop m dest src (rev [0..<n]) = block_moved m dest src n"
  using assms(1,2)
proof (induction n arbitrary: m)
  case 0
  then show ?case by (simp add: copy_loop_def)
next
  case (Suc n)
  let ?m = "m(dest + of_nat n := m (src + of_nat n))"
  have d: "unat (dest + of_nat n) = unat dest + n"
    using Suc.prems by (auto simp: unat_add_of_nat)
  have inner: "src + (a - dest) \<noteq> dest + of_nat n"
    if "unat dest \<le> unat a" "unat a < unat dest + n" for a
  proof -
    have "unat (a - dest) = unat a - unat dest" using that by (simp add: nowrap)
    then have "unat (src + (a - dest)) = unat src + (unat a - unat dest)"
      using that Suc.prems by (simp add: nowrap)
    then show ?thesis using d that assms(3) by (auto simp: word_eq_by_unat)
  qed
  have out: "dest + of_nat n \<noteq> a" if "unat a < unat dest + n" for a
    using that d by (auto simp: word_eq_by_unat)
  have "copy_loop m dest src (rev [0..<Suc n]) = copy_loop ?m dest src (rev [0..<n])"
    by (simp add: copy_loop_def)
  also have "\<dots> = block_moved ?m dest src n"
    using Suc by simp
  also have "\<dots> = (block_moved m dest src n)(dest + of_nat n := m (src + of_nat n))"
    using inner out d by (auto simp: block_moved_def fun_eq_iff)
  finally show ?case
    using Suc.prems by (simp add: block_moved_Suc)
qed

text \<open>\<open>memcpy\<close> moves a block correctly whatever the overlap, and changes nothing else.\<close>

theorem memcpy_moves:
  assumes "unat dest + unat sz \<le> 4294967296" and "unat src + unat sz \<le> 4294967296"
  shows "memcpy m dest src sz = block_moved m dest src (unat sz)"
proof (cases "dest = src")
  case True
  then show ?thesis by (simp add: memcpy_def)
next
  case False
  with assms show ?thesis
    by (auto simp: memcpy_def copy_loop_up copy_loop_down word_less_nat_alt word_eq_by_unat)
qed

theorem memcpy_moves_witness:
  "memcpy (\<lambda>a. if unat a < 8 then ucast a else 0) 2 0 4 5 = 3"
proof -
  have "memcpy (\<lambda>a. if unat a < 8 then ucast a else 0) 2 0 4 =
      block_moved (\<lambda>a. if unat a < 8 then ucast a else 0) 2 0 4"
    using memcpy_moves [of 2 4 0] by simp
  then show ?thesis by (simp add: block_moved_def)
qed

lemma sint_add_unat:
  fixes dest offset :: u32
  assumes "0 \<le> uint dest + sint offset" "uint dest + sint offset < 4294967296"
  shows "uint (dest + offset) = uint dest + sint offset"
proof -
  have "uint (dest + offset) = (uint dest + uint offset) mod 4294967296"
    by (simp add: uint_word_ariths)
  also have "\<dots> = (uint dest + sint offset) mod 4294967296"
  proof -
    have "uint offset = sint offset mod 4294967296"
      using uint_sint [of offset] by (simp only: take_bit_eq_mod) simp
    then show ?thesis by (simp add: mod_add_right_eq)
  qed
  also have "\<dots> = uint dest + sint offset"
    using assms by (simp add: mod_pos_pos_trivial)
  finally show ?thesis .
qed

text \<open>\<open>memshift\<close> is \<open>memcpy\<close> onto the shifted place.\<close>

lemma memshift_moves:
  assumes "0 \<le> uint dest + sint offset" "uint dest + sint offset + uint sz \<le> 4294967296"
    and "unat dest + unat sz \<le> 4294967296"
  shows "memshift m dest offset sz = block_moved m (dest + offset) dest (unat sz)"
proof (cases "sz = 0")
  case False
  then have "0 < uint sz" using uint_0_iff [of sz] uint_ge_0 [of sz] by linarith
  then have u: "uint (dest + offset) = uint dest + sint offset"
    using assms by (intro sint_add_unat) linarith+
  then have d: "int (unat (dest + offset)) = int (unat dest) + sint offset" by simp
  have "unat (dest + offset) + unat sz \<le> 4294967296"
  proof -
    have "int (unat (dest + offset) + unat sz) \<le> 4294967296" using assms(2) u by simp
    then show ?thesis by linarith
  qed
  note bounds = this assms(3)
  consider "0 < sint offset" | "sint offset < 0" | "offset = 0"
    using signed_0 by (metis linorder_neqE_linordered_idom signed_word_eqI)
  then show ?thesis
  proof cases
    case 1
    with d have "unat dest \<le> unat (dest + offset)" by linarith
    with 1 bounds False show ?thesis by (simp add: memshift_def copy_loop_down)
  next
    case 2
    with d have "unat (dest + offset) \<le> unat dest" by linarith
    with 2 bounds False show ?thesis by (simp add: memshift_def copy_loop_up)
  qed (simp add: memshift_def)
qed (simp add: memshift_def)

subsection \<open>Memory blocks as byte lists\<close>

definition mem_bytes :: "mem \<Rightarrow> u32 \<Rightarrow> nat \<Rightarrow> u8 list" where
  "mem_bytes m p n = map (\<lambda>i. m (p + of_nat i)) [0..<n]"

text \<open>The C string \<open>s\<close> stands at \<open>p\<close>, terminator included.\<close>

definition cstr_at :: "mem \<Rightarrow> u32 \<Rightarrow> cstr \<Rightarrow> bool" where
  "cstr_at m p s \<longleftrightarrow> 0 \<notin> set s \<and> mem_bytes m p (length s) = s \<and> m (p + of_nat (length s)) = 0"

lemma length_mem_bytes [simp]: "length (mem_bytes m p n) = n"
  by (simp add: mem_bytes_def)

lemma nth_mem_bytes [simp]: "i < n \<Longrightarrow> mem_bytes m p n ! i = m (p + of_nat i)"
  by (simp add: mem_bytes_def)

lemma mem_bytes_0 [simp]: "mem_bytes m p 0 = []"
  by (simp add: mem_bytes_def)

lemma mem_bytes_Suc: "mem_bytes m p (Suc n) = m p # mem_bytes m (p + 1) n"
  by (rule nth_equalityI) (auto simp: nth_Cons algebra_simps split: nat.split)

lemma mem_bytes_cong:
  "(\<And>i. i < n \<Longrightarrow> m (p + of_nat i) = m' (p + of_nat i)) \<Longrightarrow> mem_bytes m p n = mem_bytes m' p n"
  by (simp add: mem_bytes_def)

lemma cstr_at_Nil [simp]: "cstr_at m p [] \<longleftrightarrow> m p = 0"
  by (simp add: cstr_at_def)

lemma cstr_at_Cons [simp]: "cstr_at m p (c # s) \<longleftrightarrow> c \<noteq> 0 \<and> m p = c \<and> cstr_at m (p + 1) s"
  by (auto simp: cstr_at_def mem_bytes_Suc algebra_simps)

lemma cstr_at_nth:
  assumes "cstr_at m p s" and "i < length s"
  shows "m (p + of_nat i) = s ! i" and "m (p + of_nat i) \<noteq> 0"
proof -
  show eq: "m (p + of_nat i) = s ! i"
    using assms nth_mem_bytes [of i "length s" m p] by (simp add: cstr_at_def)
  show "m (p + of_nat i) \<noteq> 0"
    using assms unfolding eq cstr_at_def by (metis nth_mem)
qed

lemma strlen_loop_cstr: "cstr_at m p s \<Longrightarrow> strlen_loop m p l = Some (l + of_nat (length s))"
proof (induction s arbitrary: p l)
  case Nil
  then show ?case by (simp add: strlen_loop.simps)
next
  case (Cons c s)
  then show ?case by (subst strlen_loop.simps) (simp add: algebra_simps)
qed

lemma strlen_cstr: "cstr_at m p s \<Longrightarrow> strlen m p = Some (of_nat (length s))"
  by (simp add: strlen_def strlen_loop_cstr)

text \<open>The order \<open>strcmp\<close> decides: lexicographic on signed characters.\<close>

fun cmp_cstr :: "cstr \<Rightarrow> cstr \<Rightarrow> int" where
  "cmp_cstr [] [] = 0"
| "cmp_cstr (c # s) [] = 1"
| "cmp_cstr [] (d # t) = -1"
| "cmp_cstr (c # s) (d # t) =
     (if sint c > sint d then 1 else if sint c < sint d then -1 else cmp_cstr s t)"

lemma cmp_cstr_0_iff [simp]: "cmp_cstr s t = 0 \<longleftrightarrow> s = t"
  by (induction s t rule: cmp_cstr.induct) (auto simp: not_less intro: signed_word_eqI)

lemma cmp_cstr_antisym: "cmp_cstr t s = - cmp_cstr s t"
  by (induction s t rule: cmp_cstr.induct) auto

lemma strcmp_loop_cstr:
  "cstr_at m (p + i) s \<Longrightarrow> cstr_at m (q + i) t \<Longrightarrow> strcmp_loop m p q i = Some (cmp_cstr s t)"
proof (induction s t arbitrary: i rule: cmp_cstr.induct)
  case (4 c s d t)
  then have "strcmp_loop m p q (i + 1) = Some (cmp_cstr s t)"
    if "\<not> sint d < sint c" "\<not> sint c < sint d"
    using that by (simp add: add.assoc)
  with "4.prems" show ?case by (subst strcmp_loop.simps) auto
qed (subst strcmp_loop.simps, simp)+

text \<open>On two C strings \<open>strcmp\<close> returns; the result is their lexicographic order on
  signed characters, so it is zero exactly for equal strings.\<close>

theorem strcmp_order:
  assumes "cstr_at m p s" and "cstr_at m q t"
  shows "strcmp m p q = Some (cmp_cstr s t) \<and> (strcmp m p q = Some 0 \<longleftrightarrow> s = t)"
  using assms by (simp add: strcmp_def strcmp_loop_cstr)

theorem strcmp_order_witness:
  "strcmp ((\<lambda>_. 0)(8 := 0x41, 16 := 0x80)) 8 16 = Some 1"
  using strcmp_order [of "(\<lambda>_. 0)(8 := 0x41, 16 := 0x80)" 8 "[0x41]" 16 "[0x80]"] by simp

lemma strcpy_loop_cstr:
  assumes src: "cstr_at m src s"
    and bounds: "unat dest + length s \<le> 4294967296" "unat src + length s < 4294967296"
    and apart: "unat dest \<le> unat src \<or> unat src + length s < unat dest"
    and i: "i \<le> length s"
  shows "strcpy_loop (block_moved m dest src i) dest src (of_nat i) = Some (block_moved m dest src (length s))"
  using i
proof (induction "length s - i" arbitrary: i)
  have s: "unat (src + of_nat j) = unat src + j" if "j \<le> length s" for j
    using bounds that by (simp add: unat_add_of_nat)
  have keep: "block_moved m dest src j (src + of_nat j) = m (src + of_nat j)" if "j \<le> length s" for j
    using apart that by (cases "dest = src") (auto simp: s intro!: block_moved_outside)
  {
    case 0
    then have "i = length s" by simp
    then have "block_moved m dest src i (src + of_nat i) = 0"
      using keep [of i] src by (simp add: cstr_at_def)
    with \<open>i = length s\<close> show ?case by (subst strcpy_loop.simps) simp
  next
    case (Suc n)
    then have i: "i < length s" by simp
    let ?m = "block_moved m dest src i"
    have ne: "?m (src + of_nat i) = m (src + of_nat i)" "m (src + of_nat i) \<noteq> 0"
      using keep [of i] cstr_at_nth [OF src i] i by simp_all
    have "?m(dest + of_nat i := ?m (src + of_nat i)) = block_moved m dest src (Suc i)"
      using bounds i ne(1) by (simp add: block_moved_Suc)
    moreover have "strcpy_loop (block_moved m dest src (Suc i)) dest src (of_nat (Suc i)) =
        Some (block_moved m dest src (length s))"
      using Suc i by (intro Suc.hyps) auto
    ultimately show ?case
      using ne by (subst strcpy_loop.simps) (simp add: add.commute)
  }
qed

text \<open>\<open>strcpy\<close> of a C string to a place that does not reach into its remainder returns, moves
  exactly its characters and, since the terminator is not copied, nothing else.\<close>

theorem strcpy_moves:
  assumes "cstr_at m src s"
    and "unat dest + length s \<le> 4294967296" and "unat src + length s < 4294967296"
    and "unat dest \<le> unat src \<or> unat src + length s < unat dest"
  shows "strcpy m dest src = Some (block_moved m dest src (length s))"
  using strcpy_loop_cstr [of m src s dest 0] assms by (simp add: strcpy_def)

theorem strcpy_moves_witness:
  "map_option (\<lambda>m. m 17) (strcpy ((\<lambda>_. 7)(8 := 0x41, 9 := 0)) 16 8) = Some 7"
  using strcpy_moves [of "(\<lambda>_. 7)(8 := 0x41, 9 := 0)" 8 "[0x41]" 16]
  by (simp add: block_moved_def)

subsection \<open>Reversal\<close>

lemma strrev_mirror:
  fixes p len :: u32
  assumes "k < unat len"
  shows "p + len - of_nat k - 1 = p + of_nat (unat len - 1 - k)"
proof -
  have "of_nat (unat len - 1 - k) = (of_nat (unat len) - of_nat k - 1 :: u32)"
    using assms by (simp add: of_nat_diff diff_diff_left)
  then show ?thesis by (simp add: algebra_simps ucast_id)
qed

lemma strrev_loop:
  fixes m :: mem and p len :: u32
  assumes "unat p + unat len \<le> 4294967296" and "k \<le> unat len div 2" and "j < unat len"
  shows "fold (strrev_step p len) [0..<k] m (p + of_nat j) =
      m (p + of_nat (if j < k \<or> unat len - k \<le> j then unat len - 1 - j else j))"
  using assms(2,3)
proof (induction k arbitrary: j)
  case 0
  then show ?case by simp
next
  case (Suc k)
  define n where "n = unat len"
  define f where "f i = p + of_nat i" for i :: nat
  let ?m = "fold (strrev_step p len) [0..<k] m"
  have k: "k < n - 1 - k" "n - 1 - k < n" using Suc.prems by (auto simp: n_def)
  have mirror: "p + len - of_nat k - 1 = f (n - 1 - k)"
    unfolding f_def n_def using k by (intro strrev_mirror) (simp add: n_def)
  have inj: "f a = f b \<longleftrightarrow> a = b" if "a < n" "b < n" for a b
    using that unat32_bound [of len] of_nat32_inj [of a b] by (auto simp: f_def n_def)
  have IH: "?m (f i) = m (f (if i < k \<or> n - k \<le> i then n - 1 - i else i))" if "i < n" for i
    using Suc.prems that unfolding f_def n_def by (intro Suc.IH) simp_all
  have "fold (strrev_step p len) [0..<Suc k] m = (?m(f k := ?m (f (n - 1 - k))))(f (n - 1 - k) := ?m (f k))"
    by (simp add: strrev_step_def Let_def mirror flip: f_def)
  moreover have "((?m(f k := ?m (f (n - 1 - k))))(f (n - 1 - k) := ?m (f k))) (f j) =
      m (f (if j < Suc k \<or> n - Suc k \<le> j then n - 1 - j else j))"
    using Suc.prems k by (auto simp: inj IH less_Suc_eq simp flip: n_def)
  ultimately show ?case by (simp add: f_def n_def)
qed

lemma mem_bytes_strrev:
  assumes "unat p + unat len \<le> 4294967296"
  shows "mem_bytes (strrev m p len) p (unat len) = rev (mem_bytes m p (unat len))"
proof (rule nth_equalityI)
  fix j assume "j < length (mem_bytes (strrev m p len) p (unat len))"
  then have j: "j < unat len" by simp
  then have "strrev m p len (p + of_nat j) =
      m (p + of_nat (if j < unat len div 2 \<or> unat len - unat len div 2 \<le> j then unat len - 1 - j else j))"
    using strrev_loop [OF assms _ j, of "unat len div 2" m] by (simp add: strrev_def unat_div)
  moreover have "(if j < unat len div 2 \<or> unat len - unat len div 2 \<le> j then unat len - 1 - j else j) = unat len - 1 - j"
    using j by auto
  ultimately show "mem_bytes (strrev m p len) p (unat len) ! j = rev (mem_bytes m p (unat len)) ! j"
    using j by (simp add: rev_nth)
qed simp

lemma strrev_outside:
  assumes "\<And>j. j < unat len \<Longrightarrow> a \<noteq> p + of_nat j"
  shows "strrev m p len a = m a"
proof -
  have "fold (strrev_step p len) [0..<k] m a = m a"
    if "k \<le> unat len div 2" for k
    using that
  proof (induction k)
    case (Suc k)
    then have "k < unat len" by simp
    with Suc assms [of k] assms [of "unat len - 1 - k"] show ?case
      by (simp add: strrev_step_def Let_def strrev_mirror)
  qed simp
  then show ?thesis by (simp add: strrev_def unat_div)
qed

subsection \<open>Decimal and hexadecimal\<close>

text \<open>Decimal digits, least significant first, and the number a digit string stands for.\<close>

fun digits_rev :: "nat \<Rightarrow> u8 list" where
  "digits_rev n = (if n = 0 then [] else (0x30 + of_nat (n mod 10)) # digits_rev (n div 10))"

declare digits_rev.simps [simp del]

definition decimal :: "nat \<Rightarrow> cstr" where
  "decimal n = (if n = 0 then [0x30] else rev (digits_rev n))"

fun decimal_value :: "nat \<Rightarrow> cstr \<Rightarrow> nat" where
  "decimal_value acc [] = acc"
| "decimal_value acc (c # s) = decimal_value (10 * acc + (unat c - 0x30)) s"

lemma decimal_value_append: "decimal_value acc (s @ t) = decimal_value (decimal_value acc s) t"
  by (induction s arbitrary: acc) auto

lemma digit_char: "d < 10 \<Longrightarrow> unat (0x30 + of_nat d :: u8) = 0x30 + d"
  by (simp add: unat_word_ariths unat_of_nat take_bit_nat_eq_self)

lemma digits_rev_value: "decimal_value 0 (rev (digits_rev n)) = n"
proof (induction n rule: digits_rev.induct)
  case (1 n)
  show ?case
  proof (cases "n = 0")
    case False
    with 1 have IH: "decimal_value 0 (rev (digits_rev (n div 10))) = n div 10" by simp
    from False show ?thesis
      by (subst digits_rev.simps) (simp add: decimal_value_append IH digit_char)
  qed (simp add: digits_rev.simps)
qed

lemma decimal_value_decimal [simp]: "decimal_value 0 (decimal n) = n"
  by (simp add: decimal_def digits_rev_value)

lemma length_digits_rev: "n < 10 ^ k \<Longrightarrow> length (digits_rev n) \<le> k"
proof (induction k arbitrary: n)
  case 0
  then show ?case by (simp add: digits_rev.simps)
next
  case (Suc k)
  show ?case
  proof (cases "n = 0")
    case False
    from Suc.prems have "n div 10 < 10 ^ k" by (simp add: less_mult_imp_div_less)
    then have "length (digits_rev (n div 10)) \<le> k" by (rule Suc.IH)
    with False show ?thesis by (subst digits_rev.simps) simp
  qed (simp add: digits_rev.simps)
qed

lemma digits_rev_nonzero: "0 \<notin> set (digits_rev n)"
proof (induction n rule: digits_rev.induct)
  case (1 n)
  have "(0x30 + of_nat (n mod 10) :: u8) \<noteq> 0"
    using digit_char [of "n mod 10"] by (metis add_is_0 mod_less_divisor unat_0 zero_less_numeral zero_neq_numeral)
  with 1 show ?case by (subst digits_rev.simps) auto
qed

lemma decimal_nonzero: "0 \<notin> set (decimal n)"
  by (simp add: decimal_def digits_rev_nonzero)

lemma length_decimal: "n < 4294967296 \<Longrightarrow> length (decimal n) \<le> 10"
  using length_digits_rev [of n 10] by (simp add: decimal_def)

text \<open>Writing a byte list to memory.\<close>

fun poke :: "mem \<Rightarrow> u32 \<Rightarrow> u8 list \<Rightarrow> mem" where
  "poke m p [] = m"
| "poke m p (c # cs) = poke (m(p := c)) (p + 1) cs"

lemma poke_outside: "(\<And>j. j < length cs \<Longrightarrow> a \<noteq> p + of_nat j) \<Longrightarrow> poke m p cs a = m a"
proof (induction cs arbitrary: m p)
  case (Cons c cs)
  from Cons.prems [of 0] have "a \<noteq> p" by simp
  moreover have "a \<noteq> p + 1 + of_nat j" if "j < length cs" for j
    using Cons.prems [of "Suc j"] that by (simp add: add.assoc)
  ultimately show ?case using Cons.IH by simp
qed simp

lemma mem_bytes_poke: "length cs \<le> 4294967296 \<Longrightarrow> mem_bytes (poke m p cs) p (length cs) = cs"
proof (induction cs arbitrary: m p)
  case (Cons c cs)
  have "poke (m(p := c)) (p + 1) cs p = c"
  proof (subst poke_outside)
    fix j assume "j < length cs"
    then have "unat (of_nat (Suc j) :: u32) = Suc j"
      using Cons.prems by (intro unat_of_nat32) simp
    then have "(of_nat (Suc j) :: u32) \<noteq> 0" by (metis nat.simps(3) unat_0)
    then show "p \<noteq> p + 1 + of_nat j" by (simp add: add.assoc)
  qed simp
  with Cons show ?case by (simp add: mem_bytes_Suc)
qed simp

lemma poke_at:
  assumes "length cs \<le> 4294967296"
  shows "poke m p cs a = (if unat (a - p) < length cs then cs ! unat (a - p) else m a)"
proof (cases "unat (a - p) < length cs")
  case True
  have "mem_bytes (poke m p cs) p (length cs) ! unat (a - p) = cs ! unat (a - p)"
    by (simp only: mem_bytes_poke [OF assms])
  then show ?thesis using True by simp
next
  case False
  have "a \<noteq> p + of_nat j" if "j < length cs" for j
  proof
    assume "a = p + of_nat j"
    moreover have "unat (of_nat j :: u32) = j" using that assms by (intro unat_of_nat32) simp
    ultimately show False using False that by simp
  qed
  then show ?thesis using False by (simp add: poke_outside)
qed

lemma tostr_u_loop_poke:
  "tostr_u_loop m buffer i idx =
     (poke m (buffer + idx) (digits_rev (unat i)), idx + of_nat (length (digits_rev (unat i))))"
proof (induction m buffer i idx rule: tostr_u_loop.induct)
  case (1 m buffer i idx)
  show ?case
  proof (cases "i > 0")
    case True
    then have "unat i \<noteq> 0" by (simp add: word_gt_0 unat_eq_zero)
    moreover have "(ucast (i mod 10) :: u8) = of_nat (unat (i mod 10))" by simp
    then have "(ucast (i mod 10) :: u8) = of_nat (unat i mod 10)" by (simp only: unat_mod) simp
    ultimately have "digits_rev (unat i) = (0x30 + ucast (i mod 10)) # digits_rev (unat (i div 10))"
      by (subst digits_rev.simps) (simp add: unat_div)
    with True "1.IH" [OF True] show ?thesis
      by (subst tostr_u_loop.simps) (simp add: fun_upd_def add.assoc)
  next
    case False
    then have "i = 0" by (simp add: word_gt_0)
    then show ?thesis by (simp add: tostr_u_loop.simps digits_rev.simps)
  qed
qed

lemma tostr_u_is_decimal:
  assumes "unat buffer + 11 \<le> 4294967296"
  shows "cstr_at (tostr_u m buffer i) buffer (decimal (unat i))
     \<and> (\<forall>a. (unat a < unat buffer \<or> unat buffer + 11 \<le> unat a) \<longrightarrow> tostr_u m buffer i a = m a)"
proof -
  let ?ds = "if i = 0 then [0x30] else digits_rev (unat i)"
  let ?n = "length ?ds"
  let ?m = "(poke m buffer ?ds)(buffer + of_nat ?n := 0)"
  have eq: "tostr_u m buffer i = strrev ?m buffer (of_nat ?n)"
    by (simp add: tostr_u_def Let_def tostr_u_loop_poke)
  have len: "?n \<le> 10" using length_decimal [OF unat32_bound [of i]] by (simp add: decimal_def unat_eq_zero split: if_splits)
  then have un: "unat (of_nat ?n :: u32) = ?n" by (intro unat_of_nat32) simp
  have place: "unat (buffer + of_nat j) = unat buffer + j" if "j \<le> 10" for j
    using assms that by (simp add: unat_add_of_nat)
  have distinct: "buffer + of_nat ?n \<noteq> buffer + of_nat j" if "j < ?n" for j
    using that len place [of j] place [of ?n] by (auto simp: word_eq_by_unat)
  have out: "tostr_u m buffer i a = m a" if "unat a < unat buffer \<or> unat buffer + 11 \<le> unat a" for a
  proof -
    have "a \<noteq> buffer + of_nat j" if "j \<le> 10" for j
      using place [OF that] \<open>unat a < unat buffer \<or> _\<close> that by (auto simp: word_eq_by_unat)
    with len show ?thesis
      unfolding eq by (subst strrev_outside) (auto simp: un poke_outside simp del: of_nat_Suc)
  qed
  have "mem_bytes ?m buffer ?n = ?ds"
  proof -
    have "mem_bytes ?m buffer ?n = mem_bytes (poke m buffer ?ds) buffer ?n"
      using distinct by (intro mem_bytes_cong) (metis fun_upd_other)
    then show ?thesis using len by (simp only: mem_bytes_poke)
  qed
  then have "mem_bytes (tostr_u m buffer i) buffer ?n = rev ?ds"
    using mem_bytes_strrev [of buffer "of_nat ?n" ?m] assms len by (simp only: eq un)
  moreover have "tostr_u m buffer i (buffer + of_nat ?n) = 0"
    unfolding eq using distinct by (subst strrev_outside) (auto simp: un)
  moreover have ds: "rev ?ds = decimal (unat i)" by (simp add: decimal_def unat_eq_zero)
  moreover have "?n = length (decimal (unat i))" by (simp flip: ds)
  ultimately have "cstr_at (tostr_u m buffer i) buffer (decimal (unat i))"
    using decimal_nonzero [of "unat i"] by (simp only: cstr_at_def) simp
  then show ?thesis using out by blast
qed

text \<open>\<open>tostr_u\<close> leaves a C string of at most ten decimal digits whose value is the number: with
  its terminator it fits the eleven-byte buffers of the callers.\<close>

theorem tostr_u_decimal:
  assumes "unat buffer + 11 \<le> 4294967296"
  shows "\<exists>s. cstr_at (tostr_u m buffer i) buffer s \<and> decimal_value 0 s = unat i \<and> length s \<le> 10
     \<and> (\<forall>a. (unat a < unat buffer \<or> unat buffer + 11 \<le> unat a) \<longrightarrow> tostr_u m buffer i a = m a)"
  using tostr_u_is_decimal [OF assms] length_decimal [OF unat32_bound [of i]] by (intro exI [of _ "decimal (unat i)"]) simp

theorem tostr_u_decimal_witness:
  "\<exists>s. cstr_at (tostr_u (\<lambda>_. 7) 100 65535) 100 s \<and> decimal_value 0 s = 65535"
  using tostr_u_decimal [of 100 "\<lambda>_. 7" 65535] by auto

text \<open>The number a run of hexadecimal digit characters stands for.\<close>

definition hex_digit_value :: "u8 \<Rightarrow> nat" where
  "hex_digit_value c = (if c < 0x3a then unat c - 0x30 else unat c - 0x57)"

definition hex_value :: "cstr \<Rightarrow> nat" where
  "hex_value s = foldl (\<lambda>acc c. 16 * acc + hex_digit_value c) 0 s"

lemma hex_digit_roundtrip: "unat d < 16 \<Longrightarrow> hex_digit_value (dec_to_hex d) = unat d"
proof -
  assume d: "unat d < 16"
  show "hex_digit_value (dec_to_hex d) = unat d"
  proof (cases "d < 10")
    case True
    then have "unat d < 10" by (simp add: word_less_nat_alt)
    then have "unat (0x30 + d) = 0x30 + unat d" by (simp add: unat_word_ariths)
    with \<open>unat d < 10\<close> True show ?thesis
      by (simp add: dec_to_hex_def hex_digit_value_def word_less_nat_alt)
  next
    case False
    then have "10 \<le> unat d" by (simp add: word_less_nat_alt)
    have "0x61 + d - 10 = 0x57 + d" by simp
    moreover have "unat (0x57 + d) = 0x57 + unat d" using d by (simp add: unat_word_ariths)
    ultimately show ?thesis
      using \<open>10 \<le> unat d\<close> False d by (simp add: dec_to_hex_def hex_digit_value_def word_less_nat_alt)
  qed
qed

text \<open>The digit of weight \<open>16 ^ k\<close>, as repeated division leaves it.\<close>

definition hex_char_at :: "u32 \<Rightarrow> nat \<Rightarrow> u8" where
  "hex_char_at h k = dec_to_hex (ucast (((\<lambda>h. h div 16) ^^ k) h mod 16))"

lemma unat_div_16: "unat (((\<lambda>h :: u32. h div 16) ^^ k) h) = unat h div 16 ^ k"
  by (induction k) (simp_all add: unat_div div_mult2_eq [symmetric] mult.commute)

lemma unat_hex_digit:
  "unat (ucast (((\<lambda>h :: u32. h div 16) ^^ k) h mod 16) :: u8) = unat h div 16 ^ k mod 16"
proof -
  let ?d = "((\<lambda>h. h div 16) ^^ k) h mod 16"
  have d: "unat ?d = unat h div 16 ^ k mod 16"
    by (simp add: unat_mod unat_div_16)
  have "unat (ucast ?d :: u8) = take_bit 8 (unat ?d)"
    by (simp add: unsigned_ucast_eq)
  also have "\<dots> = unat ?d"
    by (rule take_bit_nat_eq_self) (simp add: d order.strict_trans2 [OF mod_less_divisor])
  finally show ?thesis by (simp only: d)
qed

lemma hex_char_value: "hex_digit_value (hex_char_at h k) = unat h div 16 ^ k mod 16"
  using hex_digit_roundtrip [of "ucast (((\<lambda>h. h div 16) ^^ k) h mod 16)"] unat_hex_digit [of k h]
  by (simp add: hex_char_at_def)

lemma dec_to_hex_nonzero: "unat d < 16 \<Longrightarrow> dec_to_hex d \<noteq> 0"
proof (cases "d < 10")
  case True
  then have "unat (0x30 + d) = 0x30 + unat d" by (simp add: unat_word_ariths word_less_nat_alt)
  then have "0x30 + d \<noteq> 0" by (metis add_is_0 unat_0 zero_neq_numeral)
  with True show ?thesis by (simp add: dec_to_hex_def)
next
  case False
  assume "unat d < 16"
  then have "unat (0x57 + d) = 0x57 + unat d" by (simp add: unat_word_ariths)
  then have "0x57 + d \<noteq> 0" by (metis add_is_0 unat_0 zero_neq_numeral)
  with False show ?thesis by (simp add: dec_to_hex_def)
qed

lemma hex_char_nonzero: "hex_char_at h k \<noteq> 0"
  using dec_to_hex_nonzero [of "ucast (((\<lambda>h. h div 16) ^^ k) h mod 16)"] unat_hex_digit [of k h]
  by (simp add: hex_char_at_def)

lemma hex_value_chars:
  "hex_value (map (hex_char_at h) [7, 6, 5, 4, 3, 2, 1, 0]) = unat h"
proof -
  have split: "n div 16 ^ k mod 16 + 16 * (n div 16 ^ Suc k) = n div 16 ^ k" for n k :: nat
    using mod_mult_div_eq [of "n div 16 ^ k" 16] by (simp add: div_mult2_eq [symmetric] mult.commute)
  have "unat h div 16 ^ 8 = 0" using unat32_bound [of h] by simp
  then show ?thesis
    using split [of "unat h" 0] split [of "unat h" 1] split [of "unat h" 2] split [of "unat h" 3]
      split [of "unat h" 4] split [of "unat h" 5] split [of "unat h" 6] split [of "unat h" 7]
    by (simp add: hex_value_def hex_char_value)
      (use mult_div_mod_eq [of 16 "unat h"] in linarith)
qed

lemma funpow_unrolled:
  "(f ^^ 2) x = f (f x)" "(f ^^ 3) x = f (f (f x))" "(f ^^ 4) x = f (f (f (f x)))"
  "(f ^^ 5) x = f (f (f (f (f x))))" "(f ^^ 6) x = f (f (f (f (f (f x)))))"
  "(f ^^ 7) x = f (f (f (f (f (f (f x))))))"
  by (simp_all add: eval_nat_numeral)

lemma tostr_x_cells:
  "tostr_x m buffer h buffer = 0x30" "tostr_x m buffer h (buffer + 1) = 0x78"
  "tostr_x m buffer h (buffer + 10) = 0"
  "tostr_x m buffer h (buffer + 2) = hex_char_at h 7" "tostr_x m buffer h (buffer + 3) = hex_char_at h 6"
  "tostr_x m buffer h (buffer + 4) = hex_char_at h 5" "tostr_x m buffer h (buffer + 5) = hex_char_at h 4"
  "tostr_x m buffer h (buffer + 6) = hex_char_at h 3" "tostr_x m buffer h (buffer + 7) = hex_char_at h 2"
  "tostr_x m buffer h (buffer + 8) = hex_char_at h 1" "tostr_x m buffer h (buffer + 9) = hex_char_at h 0"
  by (simp_all add: tostr_x_def hex_char_at_def Let_def upt_rec funpow_unrolled)

text \<open>\<open>tostr_x\<close> leaves \<open>0x\<close> and eight digits, a C string of ten characters whose value is the
  number, at any place.\<close>

theorem tostr_x_hex:
  "\<exists>ds. cstr_at (tostr_x m buffer h) buffer ([0x30, 0x78] @ ds) \<and> length ds = 8 \<and> hex_value ds = unat h"
proof (intro exI conjI)
  show "cstr_at (tostr_x m buffer h) buffer ([0x30, 0x78] @ map (hex_char_at h) [7, 6, 5, 4, 3, 2, 1, 0])"
    by (simp add: tostr_x_cells hex_char_nonzero add.assoc)
  show "hex_value (map (hex_char_at h) [7, 6, 5, 4, 3, 2, 1, 0]) = unat h"
    by (rule hex_value_chars)
qed simp

subsection \<open>Binary search\<close>

text \<open>The comparison with \<open>v\<close> does not decrease along the array.\<close>

definition search_sorted :: "u32 list \<Rightarrow> u32 \<Rightarrow> (u32 \<Rightarrow> u32 \<Rightarrow> int) \<Rightarrow> bool" where
  "search_sorted ptr v cmp \<longleftrightarrow>
     (\<forall>i j. i \<le> j \<longrightarrow> j < length ptr \<longrightarrow> cmp (ptr ! i) v \<le> cmp (ptr ! j) v) \<and>
     (\<forall>i < length ptr. cmp (ptr ! i) v \<in> {-1, 0, 1})"

text \<open>What a correct answer is: a position of the value, or \<open>-1\<close> when it is nowhere in the range.\<close>

definition search_answer :: "u32 list \<Rightarrow> int \<Rightarrow> int \<Rightarrow> u32 \<Rightarrow> (u32 \<Rightarrow> u32 \<Rightarrow> int) \<Rightarrow> int \<Rightarrow> bool" where
  "search_answer ptr from to v cmp r \<longleftrightarrow>
     (if r = -1 then \<forall>i. from \<le> int i \<longrightarrow> int i \<le> to \<longrightarrow> cmp (ptr ! i) v \<noteq> 0
      else from \<le> r \<and> r \<le> to \<and> cmp (ptr ! nat r) v = 0)"

lemma search_sorted_below:
  assumes "search_sorted ptr v cmp" "j < length ptr" "cmp (ptr ! j) v \<noteq> 0" "cmp (ptr ! j) v \<noteq> 1" "i \<le> j"
  shows "cmp (ptr ! i) v \<noteq> 0"
proof -
  have "cmp (ptr ! j) v = -1" using assms unfolding search_sorted_def by blast
  moreover have "cmp (ptr ! i) v \<le> cmp (ptr ! j) v" using assms unfolding search_sorted_def by blast
  ultimately show ?thesis by linarith
qed

lemma search_sorted_above:
  assumes "search_sorted ptr v cmp" "i < length ptr" "cmp (ptr ! j) v = 1" "j \<le> i"
  shows "cmp (ptr ! i) v \<noteq> 0"
proof -
  have "cmp (ptr ! j) v \<le> cmp (ptr ! i) v" using assms unfolding search_sorted_def by blast
  with assms(3) show ?thesis by linarith
qed

lemma bin_search_from_answer:
  assumes "search_sorted ptr v cmp" "0 \<le> from" "to < int (length ptr)"
  shows "\<exists>r. bin_search_from ptr from to v cmp = Some r \<and> search_answer ptr from to v cmp r"
  using assms
proof (induction ptr "from" to v cmp rule: bin_search_from.induct)
  case (1 ptr "from" to v cmp)
  define mid where "mid = (from + to) div 2"
  show ?case
  proof (cases "to < from")
    case True
    then show ?thesis by (subst bin_search_from.simps) (auto simp: search_answer_def)
  next
    case False
    then have mid: "from \<le> mid" "mid \<le> to" "0 \<le> mid" "mid < int (length ptr)"
      using "1.prems" by (auto simp: mid_def)
    consider "cmp (ptr ! nat mid) v = 0" | "cmp (ptr ! nat mid) v = 1"
      | "cmp (ptr ! nat mid) v \<noteq> 0" "cmp (ptr ! nat mid) v \<noteq> 1" by blast
    then show ?thesis
    proof cases
      case 1
      with mid False show ?thesis
        by (subst bin_search_from.simps) (auto simp: search_answer_def mid_def [symmetric] Let_def)
    next
      case 2
      obtain r where r: "bin_search_from ptr from (mid - 1) v cmp = Some r" "search_answer ptr from (mid - 1) v cmp r"
        using "1.IH"(1) [OF False mid_def] "1.prems" 2 mid by auto
      have "cmp (ptr ! i) v \<noteq> 0" if "mid \<le> int i" "int i \<le> to" for i
        using search_sorted_above [OF "1.prems"(1) _ 2, of i] that mid "1.prems" by linarith
      with r mid have "search_answer ptr from to v cmp r"
        by (auto simp: search_answer_def split: if_splits)
      with r 2 mid False show ?thesis
        by (subst bin_search_from.simps) (simp add: mid_def [symmetric] Let_def)
    next
      case 3
      obtain r where r: "bin_search_from ptr (mid + 1) to v cmp = Some r" "search_answer ptr (mid + 1) to v cmp r"
        using "1.IH"(2) [OF False mid_def] "1.prems" 3 mid by auto
      have "cmp (ptr ! i) v \<noteq> 0" if "int i \<le> mid" for i
        using search_sorted_below [OF "1.prems"(1) _ 3, of i] that mid by linarith
      with r mid have "search_answer ptr from to v cmp r"
        by (auto simp: search_answer_def split: if_splits) (metis linorder_not_le zless_add1_eq order_le_less)
      with r 3 mid False show ?thesis
        by (subst bin_search_from.simps) (simp add: mid_def [symmetric] Let_def)
    qed
  qed
qed

text \<open>On a sorted array binary search ends, never reads outside the array, finds a position of
  the value when there is one and answers \<open>-1\<close> when there is none.\<close>

theorem bin_search_correct:
  assumes "search_sorted ptr v cmp"
  shows "\<exists>r. bin_search ptr (int (length ptr)) v cmp = Some r
     \<and> search_answer ptr 0 (int (length ptr) - 1) v cmp r"
proof (cases "ptr = []")
  case True
  then show ?thesis by (simp add: bin_search_def search_answer_def)
next
  case False
  then show ?thesis
    using bin_search_from_answer [OF assms, of 0 "int (length ptr) - 1"] by (simp add: bin_search_def)
qed

theorem bin_search_correct_witness:
  "\<exists>r. bin_search [3, 5, 9] 3 5 (\<lambda>a b. sgn (int (unat a) - int (unat b))) = Some r
     \<and> search_answer [3, 5, 9] 0 2 5 (\<lambda>a b. sgn (int (unat a) - int (unat b))) r"
proof -
  have "search_sorted [3, 5, 9] 5 (\<lambda>a b. sgn (int (unat a) - int (unat b)))"
    unfolding search_sorted_def by (auto simp: less_Suc_eq nth_Cons split: nat.splits)
  from bin_search_correct [OF this] show ?thesis by simp
qed

end
