(* ===== verification/Bitset.thy ===== *)
theory Bitset
  imports Prelude
begin

text \<open>
  \<open>src/bitset.c\<close>: a set of small numbers as a bit array in memory, most significant bit of a
  byte first. The paging code keeps its free physical frames in one.
\<close>

record bitset =
  bs_start :: u32
  bs_len :: u32

definition bitset_init :: "mem \<Rightarrow> u32 \<Rightarrow> u32 \<Rightarrow> bitset \<times> mem" where
  "bitset_init m start len =
     (\<lparr>bs_start = start, bs_len = len\<rparr>,
      fold (\<lambda>i m. m(start + of_nat i := 0)) [0..<unat (len div 8)] m)"

definition bitset_get :: "mem \<Rightarrow> bitset \<Rightarrow> u32 \<Rightarrow> u8" where
  "bitset_get m bs index =
     (if m (bs_start bs + index div 8) AND drop_bit (unat (index mod 8)) 0x80 \<noteq> 0 then 1 else 0)"

text \<open>\<open>val * 0x80\<close> is an \<open>int\<close>, shifted before \<open>|=\<close> truncates it to a byte.\<close>

definition bitset_set :: "mem \<Rightarrow> bitset \<Rightarrow> u32 \<Rightarrow> u8 \<Rightarrow> mem" where
  "bitset_set m bs index v =
     (let a = bs_start bs + index div 8
      in m(a := m a OR ucast (drop_bit (unat (index mod 8)) (ucast v * 0x80 :: u32))))"

fun first_unset_bit :: "mem \<Rightarrow> bitset \<Rightarrow> u32 \<Rightarrow> nat list \<Rightarrow> u32 option" where
  "first_unset_bit m bs i [] = None"
| "first_unset_bit m bs i (j # js) =
     (let idx = i * 8 + of_nat j
      in if bitset_get m bs idx = 0 then Some idx else first_unset_bit m bs i js)"

fun first_unset_byte :: "mem \<Rightarrow> bitset \<Rightarrow> nat list \<Rightarrow> u32 option" where
  "first_unset_byte m bs [] = None"
| "first_unset_byte m bs (i # is) =
     (if m (bs_start bs + of_nat i) = 0xff then first_unset_byte m bs is
      else case first_unset_bit m bs (of_nat i) [0..<8] of
             Some idx \<Rightarrow> Some idx
           | None \<Rightarrow> first_unset_byte m bs is)"

text \<open>The result is an \<open>int32_t\<close>; \<open>-1\<close> is all ones.\<close>

definition bitset_first_unset :: "mem \<Rightarrow> bitset \<Rightarrow> u32" where
  "bitset_first_unset m bs =
     (case first_unset_byte m bs [0..<unat (bs_len bs div 8)] of Some idx \<Rightarrow> idx | None \<Rightarrow> -1)"

subsection \<open>The abstract set, and single bits\<close>

text \<open>The numbers the bit array holds.\<close>

definition bitset_members :: "mem \<Rightarrow> bitset \<Rightarrow> u32 set" where
  "bitset_members m bs = {i. bitset_get m bs i = 1}"

definition bitset_bound :: "bitset \<Rightarrow> nat" where
  "bitset_bound bs = 8 * (unat (bs_len bs) div 8)"

lemma bit_mask_drop: "bit (drop_bit k (0x80 :: u8)) n \<longleftrightarrow> k + n = 7"
proof -
  have "(0x80 :: u8) = 2 ^ 7" by simp
  then have "bit (drop_bit k (0x80 :: u8)) n \<longleftrightarrow> bit (2 ^ 7 :: u8) (k + n)"
    by (simp only: bit_drop_bit_eq o_def)
  then show ?thesis
    by (simp only: bit_exp_iff) auto
qed

lemma index_mod_8: "unat ((index :: u32) mod 8) < 8"
  by (simp add: unat_mod)

lemma mask_bit:
  fixes x :: u8
  assumes "k < 8"
  shows "x AND drop_bit k 0x80 \<noteq> 0 \<longleftrightarrow> bit x (7 - k)"
proof
  assume "x AND drop_bit k 0x80 \<noteq> 0"
  then obtain n where "bit (x AND drop_bit k 0x80) n"
    by (metis bit_eqI bit_0_eq bot_apply bot_bool_def)
  then have n: "bit x n" "k + n = 7"
    by (simp_all only: bit_and_iff bit_mask_drop)
  then have "n = 7 - k" by simp
  with n(1) show "bit x (7 - k)" by simp
next
  assume "bit x (7 - k)"
  moreover have "bit (drop_bit k (0x80 :: u8)) (7 - k)"
    unfolding bit_mask_drop using assms by simp
  ultimately have "bit (x AND drop_bit k 0x80) (7 - k)"
    by (simp only: bit_and_iff)
  then show "x AND drop_bit k 0x80 \<noteq> 0" by auto
qed

lemma bitset_get_bit:
  "bitset_get m bs index =
     (if bit (m (bs_start bs + index div 8)) (7 - unat (index mod 8)) then 1 else 0)"
  unfolding bitset_get_def by (simp only: mask_bit [OF index_mod_8])

lemma bitset_get_cases: "bitset_get m bs i = 0 \<or> bitset_get m bs i = 1"
  by (simp add: bitset_get_bit)

lemma index_eqI:
  fixes i j :: u32
  assumes "i div 8 = j div 8" and "unat (i mod 8) = unat (j mod 8)"
  shows "i = j"
  using assms by (metis word_unat_eq_iff word_mod_div_equality)

subsection \<open>Setting a bit\<close>

lemma bitset_set_one:
  "bitset_set m bs i 1 =
     m(bs_start bs + i div 8 := m (bs_start bs + i div 8) OR drop_bit (unat (i mod 8)) 0x80)"
proof -
  have "bit (0x80 :: u32) n \<longleftrightarrow> n = 7" for n
    using bit_exp_iff [where ?'a = u32, of 7 n] by auto
  then have "ucast (drop_bit k (0x80 :: u32)) = drop_bit k (0x80 :: u8)" for k
    by (intro bit_word_eqI)
      (simp only: bit_ucast_iff bit_mask_drop, auto simp: bit_drop_bit_eq)
  then show ?thesis by (simp add: bitset_set_def Let_def)
qed

lemma bitset_set_zero: "bitset_set m bs i 0 = m"
  by (simp add: bitset_set_def Let_def)

lemma bitset_get_set:
  "bitset_get (bitset_set m bs i 1) bs j = (if j = i then 1 else bitset_get m bs j)"
proof (cases "j div 8 = i div 8")
  case False
  then have "j \<noteq> i" and "bs_start bs + j div 8 \<noteq> bs_start bs + i div 8" by auto
  then show ?thesis by (simp add: bitset_set_one bitset_get_bit)
next
  case True
  have "unat (i mod 8) + (7 - unat (j mod 8)) = 7 \<longleftrightarrow> unat (i mod 8) = unat (j mod 8)"
    using index_mod_8 [of i] index_mod_8 [of j] by arith
  moreover have "unat (i mod 8) = unat (j mod 8) \<longleftrightarrow> i = j"
    using True index_eqI by metis
  ultimately show ?thesis
    using True by (auto simp: bitset_set_one bitset_get_bit bit_or_iff bit_mask_drop)
qed

subsection \<open>Searching\<close>

lemma full_byte: "m (bs_start bs + i div 8) = 0xff \<Longrightarrow> bitset_get m bs i = 1"
proof -
  assume "m (bs_start bs + i div 8) = 0xff"
  moreover have "bit (0xff :: u8) n" if "n < 8" for n
  proof -
    have "(0xff :: u8) = mask 8" by (simp add: mask_eq_exp_minus_1)
    with that show ?thesis by (simp only: bit_mask_iff) simp
  qed
  ultimately show ?thesis by (simp add: bitset_get_bit)
qed

lemma first_unset_bit_find:
  "first_unset_bit m bs i js =
     find (\<lambda>idx. bitset_get m bs idx = 0) (map (\<lambda>j. i * 8 + of_nat j) js)"
  by (induction js) (auto simp: Let_def)

lemma byte_index:
  assumes "k < 4294967296"
  shows "(of_nat k :: u32) div 8 = of_nat (k div 8)"
  using assms by (simp add: word_eq_by_unat unat_div unat_of_nat32)

lemma first_unset_byte_find:
  assumes "\<forall>i \<in> set is. i < 536870912"
  shows "first_unset_byte m bs is =
     find (\<lambda>idx. bitset_get m bs idx = 0)
       (concat (map (\<lambda>i. map (\<lambda>j. of_nat (8 * i + j)) [0..<8]) is))"
  using assms
proof (induction "is")
  case Nil
  show ?case by simp
next
  case (Cons i "is")
  let ?P = "\<lambda>idx. bitset_get m bs idx = 0"
  have eq: "(of_nat i * 8 + of_nat j :: u32) = of_nat (8 * i + j)" for j
    by simp
  have find_append: "find ?P (xs @ ys) = (case find ?P xs of None \<Rightarrow> find ?P ys | Some x \<Rightarrow> Some x)" for xs ys
    by (induction xs) auto
  have full: "find ?P (map (\<lambda>j. of_nat (8 * i + j)) [0..<8]) = None"
    if "m (bs_start bs + of_nat i) = 0xff"
  proof -
    have "bitset_get m bs (of_nat (8 * i + j)) = 1" if "j < 8" for j
    proof (rule full_byte)
      have "(of_nat (8 * i + j) :: u32) div 8 = of_nat i"
        using Cons.prems that by (subst byte_index) auto
      then show "m (bs_start bs + of_nat (8 * i + j) div 8) = 0xff"
        using \<open>m (bs_start bs + of_nat i) = 0xff\<close> by simp
    qed
    then show ?thesis by (auto simp: find_None_iff)
  qed
  have IH: "first_unset_byte m bs is = find ?P (concat (map (\<lambda>i. map (\<lambda>j. of_nat (8 * i + j)) [0..<8]) is))"
    using Cons by simp
  show ?case
    unfolding first_unset_byte.simps first_unset_bit_find eq IH list.map concat.simps find_append
    using full by (auto split: option.split)
qed

lemma concat_bytes: "concat (map (\<lambda>i. map (\<lambda>j. 8 * i + j) [0..<8]) [0..<n]) = [0..<8 * n]"
proof (induction n)
  case 0
  show ?case by simp
next
  case (Suc n)
  have "map (\<lambda>j. 8 * n + j) [0..<8] = [8 * n..<8 * Suc n]"
    using map_add_upt [of "8 * n" 8] by (simp add: add.commute)
  then show ?case
    using Suc upt_add_eq_append [of 0 "8 * n" 8] by (simp add: add.commute)
qed

lemma first_unset_find:
  "first_unset_byte m bs [0..<unat (bs_len bs div 8)] =
     find (\<lambda>idx. bitset_get m bs idx = 0) (map of_nat [0..<bitset_bound bs])"
proof -
  have "\<forall>i \<in> set [0..<unat (bs_len bs div 8)]. i < 536870912"
    using unat32_bound [of "bs_len bs"] by (auto simp: unat_div)
  then show ?thesis
    unfolding bitset_bound_def concat_bytes [symmetric]
    by (simp only: first_unset_byte_find map_concat map_map o_def unat_div) simp
qed

lemma first_unset_SomeD:
  assumes "first_unset_byte m bs [0..<unat (bs_len bs div 8)] = Some idx"
  shows "bitset_get m bs idx = 0" and "unat idx < bitset_bound bs"
    and "\<And>j. unat j < unat idx \<Longrightarrow> bitset_get m bs j = 1"
proof -
  let ?xs = "map of_nat [0..<bitset_bound bs] :: u32 list"
  have bound: "bitset_bound bs < 4294967296"
    using unat32_bound [of "bs_len bs"] unfolding bitset_bound_def by arith
  from assms obtain k where k: "k < bitset_bound bs" "idx = of_nat k" "bitset_get m bs idx = 0"
    and before: "\<And>j. j < k \<Longrightarrow> bitset_get m bs (of_nat j) \<noteq> 0"
    unfolding first_unset_find find_Some_iff by auto
  have idx: "unat idx = k" using k bound by (simp add: unat_of_nat32)
  show "bitset_get m bs idx = 0" and "unat idx < bitset_bound bs" using k idx by auto
  fix j :: u32
  assume "unat j < unat idx"
  then have "bitset_get m bs (of_nat (unat j)) \<noteq> 0" using idx by (intro before) simp
  then show "bitset_get m bs j = 1" using bitset_get_cases [of m bs j] by simp
qed

lemma first_unset_NoneD:
  assumes "first_unset_byte m bs [0..<unat (bs_len bs div 8)] = None" and "unat j < bitset_bound bs"
  shows "bitset_get m bs j = 1"
proof -
  have "bitset_get m bs (of_nat (unat j)) \<noteq> 0"
    using assms unfolding first_unset_find find_None_iff set_map set_upt
    by (metis (mono_tags) atLeastLessThan_iff imageI le0)
  then show ?thesis using bitset_get_cases [of m bs j] by simp
qed

subsection \<open>Initialisation\<close>

lemma fold_clear:
  "fold (\<lambda>i m. m(start + of_nat i := 0)) is m a =
     (if \<exists>i \<in> set is. a = start + of_nat i then 0 else m a)"
  by (induction "is" arbitrary: m) auto

lemma bitset_init_clear:
  assumes "unat i < bitset_bound (fst (bitset_init m start len))"
  shows "i \<notin> bitset_members (snd (bitset_init m start len)) (fst (bitset_init m start len))"
proof -
  have "unat (i div 8) < unat (len div 8)"
    using assms by (simp add: bitset_init_def bitset_bound_def unat_div less_mult_imp_div_less mult.commute)
  then have "\<exists>k \<in> set [0..<unat (len div 8)]. start + i div 8 = start + of_nat k"
    by (intro bexI [of _ "unat (i div 8)"]) auto
  then show ?thesis
    by (simp only: bitset_init_def bitset_members_def bitset_get_bit mem_Collect_eq
        fst_conv snd_conv bitset.simps fold_clear if_True) simp
qed

text \<open>Setting a bit adds exactly that number to the set the array holds.\<close>

theorem bitset_set_members:
  "bitset_members (bitset_set m bs i 1) bs = insert i (bitset_members m bs)"
  by (auto simp: bitset_members_def bitset_get_set)

lemma bitset_first_unset_min:
  "bitset_first_unset m bs =
     (let free = {i. unat i < bitset_bound bs \<and> i \<notin> bitset_members m bs}
      in if free = {} then -1 else Min free)"
proof (cases "first_unset_byte m bs [0..<unat (bs_len bs div 8)]")
  case None
  then have "{i. unat i < bitset_bound bs \<and> i \<notin> bitset_members m bs} = {}"
    by (auto simp: bitset_members_def first_unset_NoneD)
  with None show ?thesis by (simp add: bitset_first_unset_def)
next
  case (Some idx)
  let ?free = "{i. unat i < bitset_bound bs \<and> i \<notin> bitset_members m bs}"
  note idx = first_unset_SomeD [OF Some]
  have free: "idx \<in> ?free" using idx by (simp add: bitset_members_def)
  moreover have "idx \<le> j" if "j \<in> ?free" for j
    using that idx(3) [of j] by (auto simp: bitset_members_def word_le_nat_alt not_less [symmetric])
  ultimately have "Min ?free = idx" by (intro Min_eqI) auto
  then show ?thesis using Some free by (auto simp: bitset_first_unset_def)
qed

text \<open>The search returns the least number below the array's length that is not in the set,
  and \<open>-1\<close> exactly when there is none.\<close>

theorem bitset_first_unset_least:
  "bitset_first_unset m bs =
     (let free = {i. unat i < bitset_bound bs \<and> i \<notin> bitset_members m bs}
      in if free = {} then -1 else Min free)"
  by (rule bitset_first_unset_min)

end
