(* ===== verification/Ordlist.thy ===== *)
theory Ordlist
  imports Prelude "HOL-Library.Multiset"
begin

text \<open>
  \<open>src/ordlist.c\<close>: a list kept ordered by insertion, in a caller's array of pointers. The
  kernel heap indexes its holes with one. The array is raw memory: a function from \<open>u32\<close>
  indices, of which the first \<open>ol_size\<close> are the list. The comparison is an argument of the
  operations, since it reads the memory the elements point to.
\<close>

datatype order_t = ORDER_ASCENDING | ORDER_DESCENDING

record 'a ordlist =
  ol_size :: u32
  ol_max_size :: u32
  ol_array :: "u32 \<Rightarrow> 'a"
  ol_order :: order_t

text \<open>The loop that opens a place for the element, from the end.\<close>

function ordlist_insert_loop ::
  "('a \<Rightarrow> 'a \<Rightarrow> int) \<Rightarrow> order_t \<Rightarrow> 'a \<Rightarrow> (u32 \<Rightarrow> 'a) \<Rightarrow> u32 \<Rightarrow> (u32 \<Rightarrow> 'a) \<times> u32" where
  "ordlist_insert_loop cmp ord elem array idx =
     (if idx > 0 \<and> ((cmp (array (idx - 1)) elem = 1 \<and> ord = ORDER_ASCENDING) \<or>
                    (cmp (array (idx - 1)) elem = -1 \<and> ord = ORDER_DESCENDING))
      then ordlist_insert_loop cmp ord elem (array(idx := array (idx - 1))) (idx - 1)
      else (array, idx))"
  by pat_completeness auto
termination
  by (relation "measure (\<lambda>(cmp, ord, elem, array, idx). unat idx)")
    (auto simp: unat_pred word_gt_0 unat_gt_0)

definition ordlist_insert :: "('a \<Rightarrow> 'a \<Rightarrow> int) \<Rightarrow> 'a ordlist \<Rightarrow> 'a \<Rightarrow> 'a ordlist \<times> u32" where
  "ordlist_insert cmp ol elem =
     (let (array, idx) = ordlist_insert_loop cmp (ol_order ol) elem (ol_array ol) (ol_size ol)
      in (ol\<lparr>ol_array := array(idx := elem), ol_size := ol_size ol + 1\<rparr>, idx))"

text \<open>The loop that closes the gap; its last step reads the cell past the list.\<close>

function ordlist_remove_loop :: "(u32 \<Rightarrow> 'a) \<Rightarrow> u32 \<Rightarrow> u32 \<Rightarrow> (u32 \<Rightarrow> 'a)" where
  "ordlist_remove_loop array sz i =
     (if i < sz then ordlist_remove_loop (array(i := array (i + 1))) sz (i + 1) else array)"
  by pat_completeness auto
termination
proof (relation "measure (\<lambda>(array, sz, i). unat sz - unat i)")
  show "wf (measure (\<lambda>(array, sz, i). unat sz - unat i))" by simp
next
  fix array :: "u32 \<Rightarrow> 'a" and sz i :: u32
  assume "i < sz"
  then have "unat i < unat sz" by (simp add: word_less_nat_alt)
  moreover from this have "unat (i + 1) = unat i + 1"
    using unat32_bound [of sz] unat_add_nowrap [of i 1] by simp
  ultimately show "((array(i := array (i + 1)), sz, i + 1), array, sz, i)
      \<in> measure (\<lambda>(array, sz, i). unat sz - unat i)"
    by simp
qed

definition ordlist_remove :: "'a ordlist \<Rightarrow> u32 \<Rightarrow> 'a ordlist \<times> 'a" where
  "ordlist_remove ol idx =
     (ol\<lparr>ol_array := ordlist_remove_loop (ol_array ol) (ol_size ol) idx, ol_size := ol_size ol - 1\<rparr>,
      ol_array ol idx)"

definition ordlist_get :: "'a ordlist \<Rightarrow> u32 \<Rightarrow> 'a" where
  "ordlist_get ol idx = ol_array ol idx"

definition ordlist_place :: "(u32 \<Rightarrow> 'a) \<Rightarrow> u32 \<Rightarrow> order_t \<Rightarrow> 'a ordlist" where
  "ordlist_place arr max_size ord =
     \<lparr>ol_size = 0, ol_max_size = max_size, ol_array = arr, ol_order = ord\<rparr>"

definition ordlist_clear :: "'a ordlist \<Rightarrow> 'a ordlist" where
  "ordlist_clear ol = ol\<lparr>ol_size := 0\<rparr>"

declare ordlist_insert_loop.simps [simp del] ordlist_remove_loop.simps [simp del]

subsection \<open>The list an array holds\<close>

definition ol_elems :: "'a ordlist \<Rightarrow> 'a list" where
  "ol_elems ol = map (\<lambda>i. ol_array ol (of_nat i)) [0..<unat (ol_size ol)]"

lemma length_ol_elems [simp]: "length (ol_elems ol) = unat (ol_size ol)"
  by (simp add: ol_elems_def)

lemma nth_ol_elems: "i < unat (ol_size ol) \<Longrightarrow> ol_elems ol ! i = ol_array ol (of_nat i)"
  by (simp add: ol_elems_def)

lemma ol_elems_place [simp]: "ol_elems (ordlist_place arr k ord) = []"
  by (simp add: ol_elems_def ordlist_place_def)

lemma ol_elems_clear [simp]: "ol_elems (ordlist_clear ol) = []"
  by (simp add: ol_elems_def ordlist_clear_def)

subsection \<open>Insertion puts the element at one place of the list\<close>

text \<open>Whether the insertion loop moves \<open>a\<close> up to make room for \<open>b\<close> before it.\<close>

definition moves_up :: "('a \<Rightarrow> 'a \<Rightarrow> int) \<Rightarrow> order_t \<Rightarrow> 'a \<Rightarrow> 'a \<Rightarrow> bool" where
  "moves_up cmp ord a b \<longleftrightarrow>
     cmp a b = 1 \<and> ord = ORDER_ASCENDING \<or> cmp a b = -1 \<and> ord = ORDER_DESCENDING"

lemma insert_loop_result:
  assumes "ordlist_insert_loop cmp ord elem array idx = (array', idx')"
  shows "idx' \<le> idx \<and> array' = (\<lambda>j. if idx' < j \<and> j \<le> idx then array (j - 1) else array j)
    \<and> (\<forall>j. idx' \<le> j \<and> j < idx \<longrightarrow> moves_up cmp ord (array j) elem)
    \<and> (idx' = 0 \<or> \<not> moves_up cmp ord (array (idx' - 1)) elem)"
  using assms
proof (induction cmp ord elem array idx rule: ordlist_insert_loop.induct)
  case (1 cmp ord elem array idx)
  show ?case
  proof (cases "idx > 0 \<and> moves_up cmp ord (array (idx - 1)) elem")
    case False
    with "1.prems" show ?thesis
      by (subst (asm) ordlist_insert_loop.simps) (auto simp: moves_up_def word_gt_0 fun_eq_iff)
  next
    case True
    let ?a = "array(idx := array (idx - 1))"
    from True have "ordlist_insert_loop cmp ord elem ?a (idx - 1) = (array', idx')"
      using "1.prems" by (subst (asm) ordlist_insert_loop.simps) (auto simp: moves_up_def)
    then have IH: "idx' \<le> idx - 1" "array' = (\<lambda>j. if idx' < j \<and> j \<le> idx - 1 then ?a (j - 1) else ?a j)"
      "\<And>j. idx' \<le> j \<Longrightarrow> j < idx - 1 \<Longrightarrow> moves_up cmp ord (?a j) elem"
      "idx' = 0 \<or> \<not> moves_up cmp ord (?a (idx' - 1)) elem"
      using "1.IH" True unfolding moves_up_def by blast+
    have p: "unat (idx - 1) = unat idx - 1" "0 < unat idx"
      using True by (auto simp: unat_pred word_gt_0 unat_gt_0)
    have below: "unat (j - 1) < unat idx" if "0 < unat j" "unat j \<le> unat idx" for j :: u32
    proof -
      from that have "j \<noteq> 0" by auto
      then have "unat (j - 1) = unat j - 1" by (rule unat_pred)
      with that show ?thesis by linarith
    qed
    have "array' j = (if idx' < j \<and> j \<le> idx then array (j - 1) else array j)" for j
    proof (cases "j = idx")
      case True
      then show ?thesis using IH(1,2) p by (auto simp: word_less_nat_alt word_le_nat_alt)
    next
      case False
      then have "unat j \<noteq> unat idx" by (simp add: word_eq_by_unat)
      then show ?thesis using IH(1,2) p below [of j] False
        by (auto simp: word_less_nat_alt word_le_nat_alt)
    qed
    moreover have "moves_up cmp ord (array j) elem" if "idx' \<le> j" "j < idx" for j
    proof (cases "j = idx - 1")
      case False
      then have "unat j \<noteq> unat idx - 1" using p by (auto simp: word_eq_by_unat)
      then have "j < idx - 1" "j \<noteq> idx" using that p by (auto simp: word_less_nat_alt)
      then show ?thesis using IH(3) [of j] that by simp
    qed (use True in simp)
    moreover have "idx' = 0 \<or> \<not> moves_up cmp ord (array (idx' - 1)) elem"
    proof (cases "idx' = 0")
      case False
      then have "unat (idx' - 1) = unat idx' - 1" "0 < unat idx'"
        by (auto simp: unat_pred unat_gt_0)
      moreover have "unat idx' \<le> unat idx - 1" using IH(1) p by (simp add: word_le_nat_alt)
      ultimately have "unat (idx' - 1) \<noteq> unat idx" by linarith
      then have "idx' - 1 \<noteq> idx" by auto
      with IH(4) False show ?thesis by simp
    qed simp
    moreover have "idx' \<le> idx" using IH(1) p by (simp add: word_le_nat_alt)
    ultimately show ?thesis by (auto simp: fun_eq_iff)
  qed
qed

definition insert_at :: "nat \<Rightarrow> 'a \<Rightarrow> 'a list \<Rightarrow> 'a list" where
  "insert_at k x xs = take k xs @ x # drop k xs"

lemma mset_insert_at [simp]: "mset (insert_at k x xs) = add_mset x (mset xs)"
  by (simp add: insert_at_def) (metis append_take_drop_id mset_append)

lemma set_insert_at [simp]: "set (insert_at k x xs) = insert x (set xs)"
  by (metis mset_insert_at set_mset_add_mset_insert set_mset_mset)

lemma distinct_insert_at [simp]: "distinct (insert_at k x xs) \<longleftrightarrow> x \<notin> set xs \<and> distinct xs"
proof -
  have "distinct (insert_at k x xs) \<longleftrightarrow> distinct (x # take k xs @ drop k xs)"
    unfolding insert_at_def distinct_append distinct.simps set_append by auto
  then show ?thesis by simp
qed

lemma ordlist_insert_elems:
  assumes "unat (ol_size ol) < 4294967295" and "ordlist_insert cmp ol elem = (ol', idx)"
  shows "unat (ol_size ol') = Suc (unat (ol_size ol))"
    and "unat idx \<le> unat (ol_size ol)"
    and "ol_elems ol' = insert_at (unat idx) elem (ol_elems ol)"
proof -
  obtain array where loop: "ordlist_insert_loop cmp (ol_order ol) elem (ol_array ol) (ol_size ol) = (array, idx)"
    and ol': "ol' = ol\<lparr>ol_array := array(idx := elem), ol_size := ol_size ol + 1\<rparr>"
    using assms(2) by (auto simp: ordlist_insert_def split: prod.splits)
  note res = insert_loop_result [OF loop]
  show len: "unat (ol_size ol') = Suc (unat (ol_size ol))"
    using assms(1) unat_add_nowrap [of "ol_size ol" 1] by (simp add: ol')
  show le: "unat idx \<le> unat (ol_size ol)" using res by (simp add: word_le_nat_alt)
  show "ol_elems ol' = insert_at (unat idx) elem (ol_elems ol)"
  proof (rule nth_equalityI)
    show "length (ol_elems ol') = length (insert_at (unat idx) elem (ol_elems ol))"
      using le by (simp add: insert_at_def len)
  next
    fix j assume "j < length (ol_elems ol')"
    then have j: "j \<le> unat (ol_size ol)" by (simp add: len)
    then have un: "unat (of_nat j :: u32) = j" using assms(1) by (intro unat_of_nat32) simp
    have "(of_nat j :: u32) - 1 = of_nat (j - 1)" if "0 < j" using that by (simp add: of_nat_diff)
    moreover have "ol_elems ol' ! j = ol_array ol' (of_nat j)"
      using j by (simp add: nth_ol_elems len)
    ultimately have cell: "ol_elems ol' ! j =
        (if j = unat idx then elem
         else if unat idx < j then ol_array ol (of_nat (j - 1)) else ol_array ol (of_nat j))"
      using j res un le by (auto simp: ol' word_less_nat_alt word_le_nat_alt word_eq_by_unat)
    show "ol_elems ol' ! j = insert_at (unat idx) elem (ol_elems ol) ! j"
      unfolding cell using j le
      by (auto simp: insert_at_def nth_append nth_Cons' nth_ol_elems min_def)
  qed
qed

subsection \<open>Insertion keeps an ordered list ordered\<close>

text \<open>The list is in the order's direction for a key the comparison reads.\<close>

definition ordered_by :: "('a \<Rightarrow> int) \<Rightarrow> order_t \<Rightarrow> 'a list \<Rightarrow> bool" where
  "ordered_by key ord xs \<longleftrightarrow>
     sorted_wrt (\<lambda>a b. case ord of ORDER_ASCENDING \<Rightarrow> key a \<le> key b | ORDER_DESCENDING \<Rightarrow> key b \<le> key a) xs"

lemma moves_up_key:
  "moves_up (\<lambda>a b. sgn (key a - key b)) ord a b \<longleftrightarrow>
     (case ord of ORDER_ASCENDING \<Rightarrow> key b < key a | ORDER_DESCENDING \<Rightarrow> key a < key b)"
  for key :: "'a \<Rightarrow> int"
  by (auto simp: moves_up_def sgn_if split: order_t.split)

text \<open>Insertion into an ordered list gives an ordered list that holds the element once more,
  at the returned index.\<close>

theorem ordlist_insert_sorted:
  assumes "unat (ol_size ol) < 4294967295"
    and "ordered_by key (ol_order ol) (ol_elems ol)"
    and "ordlist_insert (\<lambda>a b. sgn (key a - key b)) ol elem = (ol', idx)"
  shows "ordered_by key (ol_order ol') (ol_elems ol') \<and> mset (ol_elems ol') = add_mset elem (mset (ol_elems ol))
    \<and> ol_elems ol' ! unat idx = elem"
proof -
  let ?cmp = "\<lambda>a b. sgn (key a - key b)"
  let ?xs = "ol_elems ol" and ?k = "unat idx"
  let ?le = "\<lambda>a b. case ol_order ol of ORDER_ASCENDING \<Rightarrow> key a \<le> key b | ORDER_DESCENDING \<Rightarrow> key b \<le> key a"
  obtain array where loop: "ordlist_insert_loop ?cmp (ol_order ol) elem (ol_array ol) (ol_size ol) = (array, idx)"
    and ord: "ol_order ol' = ol_order ol"
    using assms(3) by (auto simp: ordlist_insert_def split: prod.splits)
  note res = insert_loop_result [OF loop]
  note ins = ordlist_insert_elems [OF assms(1,3)]
  have cellx: "?xs ! i = ol_array ol (of_nat i)" "unat (of_nat i :: u32) = i" if "i < unat (ol_size ol)" for i
    using that unat32_bound [of "ol_size ol"] by (auto simp: nth_ol_elems unat_of_nat32)
  have after: "?le elem x" if x: "x \<in> set (drop ?k ?xs)" for x
  proof -
    obtain i where i: "i < unat (ol_size ol)" "?k \<le> i" "x = ?xs ! i"
      using x by (rule in_set_drop_nth) auto
    then have "idx \<le> of_nat i" "of_nat i < ol_size ol" using cellx(2) by (auto simp: word_le_nat_alt word_less_nat_alt)
    then have "moves_up ?cmp (ol_order ol) x elem" using res i cellx(1) by simp
    then show ?thesis by (auto simp: moves_up_key split: order_t.splits)
  qed
  have before: "?le x elem" if x: "x \<in> set (take ?k ?xs)" for x
  proof -
    obtain i where i: "i < ?k" "i < unat (ol_size ol)" "x = ?xs ! i"
      using x by (auto simp: in_set_conv_nth)
    let ?l = "unat (idx - 1)"
    have idx0: "idx \<noteq> 0" using i(1) by auto
    then have l: "?l = ?k - 1" by (rule unat_pred)
    with i ins(2) have il: "i \<le> ?l" "?l < unat (ol_size ol)" by auto
    have "\<not> moves_up ?cmp (ol_order ol) (?xs ! ?l) elem"
      using res idx0 cellx(1) [OF il(2)] by simp
    then have le: "?le (?xs ! ?l) elem" by (auto simp: moves_up_key split: order_t.splits)
    have "?le (?xs ! i) (?xs ! j)" if "i < j" "j < length ?xs" for j
      using sorted_wrt_nth_less [OF assms(2) [unfolded ordered_by_def] that] .
    note earlier = this
    have "i = ?l \<or> i < ?l" using il(1) by linarith
    then have "i = ?l \<or> ?le x (?xs ! ?l)"
      using earlier [of ?l] il(2) unfolding i(3) length_ol_elems by blast
    with le i(3) show ?thesis by (auto split: order_t.splits)
  qed
  have "sorted_wrt ?le (take ?k ?xs @ drop ?k ?xs)" using assms(2) by (simp add: ordered_by_def)
  then have "sorted_wrt ?le (take ?k ?xs @ elem # drop ?k ?xs)"
    using before after unfolding sorted_wrt_append by auto
  then have "ordered_by key (ol_order ol') (ol_elems ol')"
    by (simp only: ordered_by_def ord ins(3) insert_at_def)
  moreover have "ol_elems ol' ! ?k = elem"
    using ins(2) by (simp add: ins(3) insert_at_def nth_append min_def)
  ultimately show ?thesis by (simp add: ins(3))
qed

theorem ordlist_insert_sorted_witness:
  "let ol = fst (ordlist_insert (\<lambda>a b. sgn (a - b)) (fst (ordlist_insert (\<lambda>a b. sgn (a - b))
       (ordlist_place (\<lambda>_. 0 :: int) 8 ORDER_ASCENDING) 7)) 5)
   in ordered_by (\<lambda>a. a) ORDER_ASCENDING (ol_elems ol) \<and> mset (ol_elems ol) = {#5, 7#}"
proof -
  let ?c = "\<lambda>a b :: int. sgn (a - b)"
  let ?o0 = "ordlist_place (\<lambda>_. 0 :: int) 8 ORDER_ASCENDING"
  obtain o1 i1 where 1: "ordlist_insert ?c ?o0 7 = (o1, i1)" by fastforce
  obtain o2 i2 where 2: "ordlist_insert ?c o1 5 = (o2, i2)" by fastforce
  have s0: "unat (ol_size ?o0) = 0" "ol_order ?o0 = ORDER_ASCENDING" by (simp_all add: ordlist_place_def)
  have r1: "ordered_by (\<lambda>a. a) (ol_order o1) (ol_elems o1)" "mset (ol_elems o1) = {#7#}"
    using ordlist_insert_sorted [of ?o0 "\<lambda>a. a" 7 o1 i1] 1 s0 by (simp_all add: ordered_by_def)
  have ord: "ol_order o1 = ORDER_ASCENDING" "ol_order o2 = ORDER_ASCENDING"
    using 1 2 s0 by (auto simp: ordlist_insert_def split: prod.splits)
  have "unat (ol_size o1) = 1" using ordlist_insert_elems(1) [of ?o0 ?c 7 o1 i1] 1 s0 by simp
  then show ?thesis
    using ordlist_insert_sorted [of o1 "\<lambda>a. a" 5 o2 i2] 1 2 r1 ord by (simp add: Let_def)
qed

subsection \<open>Removal\<close>

lemma remove_loop_result:
  "ordlist_remove_loop array sz i = (\<lambda>j. if i \<le> j \<and> j < sz then array (j + 1) else array j)"
proof (induction array sz i rule: ordlist_remove_loop.induct)
  case (1 array sz i)
  show ?case
  proof (cases "i < sz")
    case False
    then show ?thesis by (subst ordlist_remove_loop.simps) (auto simp: fun_eq_iff)
  next
    case True
    then have i1: "unat (i + 1) = unat i + 1"
      using unat32_bound [of sz] unat_add_nowrap [of i 1] by (simp add: word_less_nat_alt)
    have "ordlist_remove_loop array sz i j = (if i \<le> j \<and> j < sz then array (j + 1) else array j)" for j
    proof (cases "j = i")
      case True
      then show ?thesis using "1.IH" [OF \<open>i < sz\<close>] \<open>i < sz\<close> i1
        by (subst ordlist_remove_loop.simps) (simp add: word_le_nat_alt fun_upd_def)
    next
      case False
      then have "unat j \<noteq> unat i" by (simp add: word_eq_by_unat)
      moreover have "j + 1 \<noteq> i" if "i \<le> j" "j < sz"
      proof -
        have "unat (j + 1) = unat j + 1"
          using that unat32_bound [of sz] unat_add_nowrap [of j 1] by (simp add: word_less_nat_alt)
        with that show ?thesis by (auto simp: word_le_nat_alt)
      qed
      ultimately show ?thesis using "1.IH" [OF \<open>i < sz\<close>] \<open>i < sz\<close> i1 False
        by (subst ordlist_remove_loop.simps) (auto simp: word_le_nat_alt fun_upd_def)
    qed
    then show ?thesis by (rule ext)
  qed
qed

lemma ordlist_remove_elems:
  assumes "unat idx < unat (ol_size ol)" and "ordlist_remove ol idx = (ol', x)"
  shows "x = ol_elems ol ! unat idx" and "unat (ol_size ol') = unat (ol_size ol) - 1"
    and "ol_elems ol' = take (unat idx) (ol_elems ol) @ drop (Suc (unat idx)) (ol_elems ol)"
proof -
  have ol': "ol' = ol\<lparr>ol_array := ordlist_remove_loop (ol_array ol) (ol_size ol) idx, ol_size := ol_size ol - 1\<rparr>"
    and x: "x = ol_array ol idx"
    using assms(2) by (auto simp: ordlist_remove_def)
  show "x = ol_elems ol ! unat idx" using assms(1) by (simp add: x nth_ol_elems)
  have "ol_size ol \<noteq> 0" using assms(1) by auto
  then show len: "unat (ol_size ol') = unat (ol_size ol) - 1" by (simp add: ol' unat_pred)
  show "ol_elems ol' = take (unat idx) (ol_elems ol) @ drop (Suc (unat idx)) (ol_elems ol)"
  proof (rule nth_equalityI)
    show "length (ol_elems ol') = length (take (unat idx) (ol_elems ol) @ drop (Suc (unat idx)) (ol_elems ol))"
      using assms(1) by (simp add: len)
  next
    fix j assume "j < length (ol_elems ol')"
    then have j: "j < unat (ol_size ol) - 1" by (simp add: len)
    then have un: "unat (of_nat j :: u32) = j"
      using unat32_bound [of "ol_size ol"] by (intro unat_of_nat32) simp
    have "ol_elems ol' ! j = ol_array ol' (of_nat j)" using j by (simp add: nth_ol_elems len)
    also have "\<dots> = (if unat idx \<le> j then ol_array ol (of_nat (Suc j)) else ol_array ol (of_nat j))"
      using j un by (auto simp: ol' remove_loop_result word_le_nat_alt word_less_nat_alt add.commute)
    finally show "ol_elems ol' ! j = (take (unat idx) (ol_elems ol) @ drop (Suc (unat idx)) (ol_elems ol)) ! j"
      using j assms(1) by (auto simp: nth_append nth_ol_elems min_def)
  qed
qed

subsection \<open>The contract of an index\<close>

text \<open>What a client that keeps a set of elements in a list relies on: an insertion adds one
  element and a removal takes the element at its place, wherever the list puts them.\<close>

locale index_list =
  fixes elems :: "'s \<Rightarrow> 'a list"
    and full :: "'s \<Rightarrow> bool"
    and ins :: "'s \<Rightarrow> 'a \<Rightarrow> 's"
    and del :: "'s \<Rightarrow> nat \<Rightarrow> 's"
  assumes mset_ins: "\<not> full s \<Longrightarrow> mset (elems (ins s x)) = add_mset x (mset (elems s))"
    and mset_del: "i < length (elems s) \<Longrightarrow> mset (elems (del s i)) = mset (elems s) - {#elems s ! i#}"
begin

lemma length_ins: "\<not> full s \<Longrightarrow> length (elems (ins s x)) = Suc (length (elems s))"
  using mset_ins [of s x] by (metis size_add_mset size_mset)

lemma distinct_ins:
  assumes "\<not> full s" and "distinct (elems s)" and "x \<notin> set (elems s)"
  shows "distinct (elems (ins s x)) \<and> set (elems (ins s x)) = insert x (set (elems s))"
proof -
  have m: "mset (elems (ins s x)) = mset (x # elems s)" using mset_ins [OF assms(1)] by simp
  then have "distinct (elems (ins s x)) = distinct (x # elems s)" by (rule mset_eq_imp_distinct_iff)
  moreover have "set (elems (ins s x)) = set (x # elems s)" using m by (rule mset_eq_setD)
  ultimately show ?thesis using assms by simp
qed

lemma del_found:
  assumes "mset (elems s) = add_mset x X" and "i < length (elems s)" and "elems s ! i = x"
  shows "mset (elems (del s i)) = X"
  using mset_del [OF assms(2)] assms(1,3) by simp

end

interpretation ol: index_list ol_elems "\<lambda>ol. unat (ol_size ol) = 4294967295"
  "\<lambda>ol x. fst (ordlist_insert cmp ol x)" "\<lambda>ol i. fst (ordlist_remove ol (of_nat i))" for cmp
proof
  fix s :: "'a ordlist" and x
  assume "unat (ol_size s) \<noteq> 4294967295"
  then have "unat (ol_size s) < 4294967295" using unat32_bound [of "ol_size s"] by linarith
  then show "mset (ol_elems (fst (ordlist_insert cmp s x))) = add_mset x (mset (ol_elems s))"
    using ordlist_insert_elems(3) [of s cmp x] by (cases "ordlist_insert cmp s x") simp
next
  fix i and s :: "'a ordlist"
  assume i: "i < length (ol_elems s)"
  then have "unat (of_nat i :: u32) = i"
    using unat32_bound [of "ol_size s"] by (intro unat_of_nat32) simp
  then have "ol_elems (fst (ordlist_remove s (of_nat i))) = take i (ol_elems s) @ drop (Suc i) (ol_elems s)"
    using i ordlist_remove_elems(3) [of "of_nat i" s] by (cases "ordlist_remove s (of_nat i)") simp
  moreover have "mset (ol_elems s) = mset (take i (ol_elems s) @ ol_elems s ! i # drop (Suc i) (ol_elems s))"
    using i by (simp add: id_take_nth_drop [symmetric])
  ultimately show "mset (ol_elems (fst (ordlist_remove s (of_nat i)))) = mset (ol_elems s) - {#ol_elems s ! i#}"
    by simp
qed

end
