(* ===== verification/Heapmem.thy ===== *)
theory Heapmem
  imports Ordlist
begin

text \<open>
  The data of \<open>src/kheap.h\<close>: the packed block header that precedes every block of the
  kernel heap, read from and written to byte memory field by field, and the heap descriptor.
  The array of the hole index is an object of its own beside the memory.
\<close>

subsection \<open>Words in byte memory\<close>

definition load_u32 :: "mem \<Rightarrow> u32 \<Rightarrow> u32" where
  "load_u32 m a = bytes_u32 [m a, m (a + 1), m (a + 2), m (a + 3)]"

definition store_u32 :: "mem \<Rightarrow> u32 \<Rightarrow> u32 \<Rightarrow> mem" where
  "store_u32 m a v = (\<lambda>x. if unat (x - a) < 4 then u32_bytes v ! unat (x - a) else m x)"

lemma load_store_same: "load_u32 (store_u32 m a v) a = v"
proof -
  have "[store_u32 m a v a, store_u32 m a v (a + 1), store_u32 m a v (a + 2), store_u32 m a v (a + 3)]
      = u32_bytes v"
    by (simp add: store_u32_def u32_bytes_def)
  then show ?thesis by (simp add: load_u32_def)
qed

lemma load_u32_cong:
  assumes "\<And>i. i < 4 \<Longrightarrow> m (a + i) = m' (a + i)"
  shows "load_u32 m a = load_u32 m' a"
  using assms [of 0] assms [of 1] assms [of 2] assms [of 3] by (simp add: load_u32_def)

subsection \<open>Block headers\<close>

record hheader =
  is_hole :: u8
  h_size :: u32
  prev :: u32

text \<open>\<open>sizeof(hheader_t)\<close> of the packed structure.\<close>

definition HDR :: u32 where
  "HDR = 9"

definition hdr :: "mem \<Rightarrow> u32 \<Rightarrow> hheader" where
  "hdr m p = \<lparr>is_hole = m p, h_size = load_u32 m (p + 1), prev = load_u32 m (p + 5)\<rparr>"

definition set_is_hole :: "mem \<Rightarrow> u32 \<Rightarrow> u8 \<Rightarrow> mem" where
  "set_is_hole m p v = m(p := v)"

definition set_h_size :: "mem \<Rightarrow> u32 \<Rightarrow> u32 \<Rightarrow> mem" where
  "set_h_size m p v = store_u32 m (p + 1) v"

definition set_prev :: "mem \<Rightarrow> u32 \<Rightarrow> u32 \<Rightarrow> mem" where
  "set_prev m p v = store_u32 m (p + 5) v"

definition put_hdr :: "mem \<Rightarrow> u32 \<Rightarrow> hheader \<Rightarrow> mem" where
  "put_hdr m p h = set_prev (set_h_size (set_is_hole m p (is_hole h)) p (h_size h)) p (prev h)"

record heap_t =
  index :: "u32 ordlist"
  start :: u32
  hp_size :: u32
  readonly :: u8
  supervisor :: u8

subsection \<open>Headers that lie apart do not disturb each other\<close>

text \<open>Two headers, or a header and a byte, that do not overlap.\<close>

definition outside :: "u32 \<Rightarrow> u32 \<Rightarrow> bool" where
  "outside p x \<longleftrightarrow> 9 \<le> unat (x - p)"

definition apart :: "u32 \<Rightarrow> u32 \<Rightarrow> bool" where
  "apart p q \<longleftrightarrow> outside p q \<and> outside q p"

lemma set_is_hole_outside: "outside p x \<Longrightarrow> set_is_hole m p v x = m x"
  by (auto simp: outside_def set_is_hole_def)

lemma store_outside:
  assumes "outside p x" and "unat k \<le> 5"
  shows "store_u32 m (p + k) v x = m x"
proof -
  have "unat ((x - p) - k) = unat (x - p) - unat k"
    using assms by (intro unat_diff_nowrap) (simp add: outside_def)
  then have "unat (x - (p + k)) = unat (x - p) - unat k" by (simp add: diff_diff_eq)
  then have "\<not> unat (x - (p + k)) < 4" using assms by (simp add: outside_def)
  then show ?thesis by (simp add: store_u32_def)
qed

lemma set_outside:
  assumes "outside p x"
  shows "set_is_hole m p b x = m x" and "set_h_size m p v x = m x" and "set_prev m p v x = m x"
    and "put_hdr m p h x = m x"
  using store_outside [OF assms, of 1] store_outside [OF assms, of 5] set_is_hole_outside [OF assms]
  by (simp_all add: set_h_size_def set_prev_def put_hdr_def)

lemma apart_cell:
  assumes "apart p q" and "unat i < 9"
  shows "outside p (q + i)"
proof (rule ccontr)
  assume "\<not> outside p (q + i)"
  then have near: "unat (q + i - p) < 9" by (simp add: outside_def)
  let ?j = "q + i - p"
  have qp: "q - p = ?j - i" and pq: "p - q = i - ?j" by simp_all
  show False
  proof (cases "unat i \<le> unat ?j")
    case True
    then have "unat (?j - i) = unat ?j - unat i" by (rule unat_diff_nowrap)
    with near assms(1) show False unfolding apart_def outside_def qp by linarith
  next
    case False
    then have "unat (i - ?j) = unat i - unat ?j" by (intro unat_diff_nowrap) simp
    with assms show False unfolding apart_def outside_def pq by linarith
  qed
qed

lemma hdr_cong:
  assumes "\<And>i. unat i < 9 \<Longrightarrow> m (q + i) = m' (q + i)"
  shows "hdr m q = hdr m' q"
proof -
  have le: "unat (k + i) < 9" if "i < 4" "k = 1 \<or> k = 5" for i k :: u32
    using that unat_add_nowrap [of k i] by (auto simp: word_less_nat_alt)
  have "load_u32 m (q + 1) = load_u32 m' (q + 1)" "load_u32 m (q + 5) = load_u32 m' (q + 5)"
    using assms [OF le] by (auto intro!: load_u32_cong simp: add.assoc)
  moreover have "m q = m' q" using assms [of 0] by simp
  ultimately show ?thesis by (simp add: hdr_def)
qed

lemma hdr_set_apart:
  assumes "apart p q"
  shows "hdr (set_is_hole m p b) q = hdr m q" and "hdr (set_h_size m p v) q = hdr m q"
    and "hdr (set_prev m p v) q = hdr m q" and "hdr (put_hdr m p h) q = hdr m q"
  by (rule hdr_cong, simp add: set_outside [OF apart_cell [OF assms]])+

lemma hdr_set_same [simp]:
  "hdr (set_is_hole m p b) p = (hdr m p)\<lparr>is_hole := b\<rparr>"
  "hdr (set_h_size m p v) p = (hdr m p)\<lparr>h_size := v\<rparr>"
  "hdr (set_prev m p v) p = (hdr m p)\<lparr>prev := v\<rparr>"
proof -
  have a: "store_u32 m (p + k) v p = m p" if "k = 1 \<or> k = 5" for k
    using that by (auto simp: store_u32_def unsigned_minus_1_eq_mask mask_eq_exp_minus_1)
  have b: "load_u32 (store_u32 m (p + 1) v) (p + 5) = load_u32 m (p + 5)"
    "load_u32 (store_u32 m (p + 5) v) (p + 1) = load_u32 m (p + 1)"
    by (simp_all add: load_u32_def store_u32_def unsigned_minus_1_eq_mask mask_eq_exp_minus_1)
  have c: "load_u32 (m(p := b)) (p + k) = load_u32 m (p + k)" if "k = 1 \<or> k = 5" for k
    using that by (auto simp: load_u32_def)
  show "hdr (set_is_hole m p b) p = (hdr m p)\<lparr>is_hole := b\<rparr>"
    by (simp add: hdr_def set_is_hole_def c)
  show "hdr (set_h_size m p v) p = (hdr m p)\<lparr>h_size := v\<rparr>"
    by (simp add: hdr_def set_h_size_def a b load_store_same)
  show "hdr (set_prev m p v) p = (hdr m p)\<lparr>prev := v\<rparr>"
    by (simp add: hdr_def set_prev_def a b load_store_same)
qed

lemma hdr_put_same [simp]: "hdr (put_hdr m p h) p = h"
  by (simp add: put_hdr_def)

lemma apart_of_nat:
  assumes "p + 9 \<le> q" and "q + 9 \<le> 4294967296"
  shows "apart (of_nat p) (of_nat q)" and "apart (of_nat q) (of_nat p)"
proof -
  let ?p = "of_nat p :: u32" and ?q = "of_nat q :: u32"
  have u: "unat ?p = p" "unat ?q = q" using assms by (simp_all add: unat_of_nat32)
  have "unat (?q - ?p) = q - p" using assms u by (simp add: unat_diff_nowrap)
  moreover have "9 \<le> unat (?p - ?q)"
  proof -
    have "unat ((?p - ?q) + (?q - ?p)) = 0" by simp
    then have "\<not> unat (?p - ?q) + unat (?q - ?p) < 4294967296"
      using unat_add_nowrap [of "?p - ?q" "?q - ?p"] \<open>unat (?q - ?p) = q - p\<close> assms(1) by auto
    then show ?thesis using \<open>unat (?q - ?p) = q - p\<close> assms by linarith
  qed
  ultimately show "apart (of_nat p) (of_nat q)" "apart (of_nat q) (of_nat p)"
    using assms by (auto simp: apart_def outside_def)
qed

lemma outside_of_nat:
  assumes "p + 9 \<le> q" and "q < 4294967296"
  shows "outside (of_nat p) (of_nat q)"
proof -
  have "unat (of_nat p :: u32) = p" "unat (of_nat q :: u32) = q"
    using assms by (simp_all add: unat_of_nat32)
  then show ?thesis using assms by (simp add: outside_def unat_diff_nowrap)
qed

lemma outside_below:
  assumes "x < p" and "p + 9 \<le> 4294967296"
  shows "outside (of_nat p) (of_nat x)"
proof -
  let ?p = "of_nat p :: u32" and ?x = "of_nat x :: u32"
  have u: "unat ?p = p" "unat ?x = x" using assms by (simp_all add: unat_of_nat32)
  then have d: "unat (?p - ?x) = p - x" using assms by (simp add: unat_diff_nowrap)
  have "unat ((?x - ?p) + (?p - ?x)) = 0" by simp
  then have "\<not> unat (?x - ?p) + unat (?p - ?x) < 4294967296"
    using unat_add_nowrap [of "?x - ?p" "?p - ?x"] d assms(1) by auto
  then show ?thesis using d assms by (simp add: outside_def)
qed

end
