(* ===== verification/Heapwatch.thy ===== *)
theory Heapwatch
  imports Heapmem
begin

text \<open>
  \<open>src/heapwatch.c\<close>: the allocation log that traps overlapping allocations and double frees,
  and the consistency walk over the heap. The list of records is the first \<open>index\<close> records
  of the C array; a record with pointer 0 is free. \<open>None\<close> is \<open>kpanic\<close>.
\<close>

record watchrec =
  wptr :: u32
  wsize :: u32

type_synonym heapwatch = "watchrec list"

definition heapwatch_init :: "heapwatch \<Rightarrow> heapwatch" where
  "heapwatch_init watch = []"

definition watch_overlap :: "u32 \<Rightarrow> u32 \<Rightarrow> watchrec \<Rightarrow> bool" where
  "watch_overlap ptr sz rec =
     (let s = ptr; e = ptr + sz - 1; rec_start = wptr rec; rec_end = wptr rec + wsize rec - 1
      in s \<ge> rec_start \<and> s \<le> rec_end \<or> e \<ge> rec_start \<and> e \<le> rec_end)"

text \<open>The scan of the log: \<open>None\<close> is the panic, otherwise the last free record, if any.\<close>

fun watch_scan :: "u32 \<Rightarrow> u32 \<Rightarrow> nat \<Rightarrow> nat option \<Rightarrow> heapwatch \<Rightarrow> nat option option" where
  "watch_scan ptr sz i free [] = Some free"
| "watch_scan ptr sz i free (rec # recs) =
     (if wptr rec = 0 then watch_scan ptr sz (Suc i) (Some i) recs
      else if watch_overlap ptr sz rec then None
      else watch_scan ptr sz (Suc i) free recs)"

definition heapwatch_alloc :: "heapwatch \<Rightarrow> u32 \<Rightarrow> u32 \<Rightarrow> heapwatch option" where
  "heapwatch_alloc watch ptr sz =
     (if sz = 0 \<or> ptr = 0 then Some watch
      else do {
        free_index \<leftarrow> watch_scan ptr sz 0 None watch;
        (case free_index of
           Some i \<Rightarrow> Some (watch[i := \<lparr>wptr = ptr, wsize = sz\<rparr>])
         | None \<Rightarrow> if length watch = 1024 then None else Some (watch @ [\<lparr>wptr = ptr, wsize = sz\<rparr>]))
      })"

fun watch_clear :: "heapwatch \<Rightarrow> u32 \<Rightarrow> heapwatch option" where
  "watch_clear [] ptr = None"
| "watch_clear (rec # recs) ptr =
     (if wptr rec = ptr then Some (\<lparr>wptr = 0, wsize = 0\<rparr> # recs)
      else do { recs' \<leftarrow> watch_clear recs ptr; Some (rec # recs') })"

definition heapwatch_free :: "heapwatch \<Rightarrow> u32 \<Rightarrow> heapwatch option" where
  "heapwatch_free watch ptr = (if ptr = 0 then Some watch else watch_clear watch ptr)"

text \<open>The walk over the blocks from the start of the heap. It does not end when a block of size
  \<open>-9\<close> makes a cycle.\<close>

partial_function (option) heap_check_from :: "mem \<Rightarrow> heap_t \<Rightarrow> u32 \<Rightarrow> unit option" where
  "heap_check_from m heap cur =
     (let endp = start heap + hp_size heap; pr = prev (hdr m cur); next = cur + HDR + h_size (hdr m cur)
      in if is_hole (hdr m cur) > 1 \<or> pr > cur then None
         else if pr \<ge> start heap \<and>
                 (pr + HDR + h_size (hdr m pr) \<noteq> cur \<or> is_hole (hdr m pr) \<noteq> 0 \<and> is_hole (hdr m cur) \<noteq> 0)
         then None
         else if next \<ge> endp then Some ()
         else if prev (hdr m next) \<noteq> cur then None
         else if is_hole (hdr m cur) \<noteq> 0 \<and> is_hole (hdr m next) \<noteq> 0 then None
         else heap_check_from m heap next)"

definition heap_check :: "mem \<Rightarrow> heap_t \<Rightarrow> unit option" where
  "heap_check m heap = heap_check_from m heap (start heap)"

subsection \<open>The log as a map\<close>

text \<open>The allocations the log holds: address to requested size.\<close>

fun logged :: "heapwatch \<Rightarrow> u32 \<rightharpoonup> u32" where
  "logged [] = Map.empty"
| "logged (rec # recs) = (if wptr rec = 0 then logged recs else (logged recs)(wptr rec \<mapsto> wsize rec))"

text \<open>A log of distinct allocations.\<close>

definition log_ok :: "heapwatch \<Rightarrow> bool" where
  "log_ok w \<longleftrightarrow> length w \<le> 1024 \<and> distinct (filter (\<lambda>p. p \<noteq> 0) (List.map wptr w))"

lemma logged_eq_Some:
  assumes "distinct (filter (\<lambda>p. p \<noteq> 0) (List.map wptr w))"
  shows "logged w p = Some s \<longleftrightarrow> p \<noteq> 0 \<and> \<lparr>wptr = p, wsize = s\<rparr> \<in> set w"
  using assms
proof (induction w)
  case (Cons r w)
  then show ?case by (cases r) (auto split: if_splits dest: imageI [of _ _ wptr])
qed simp

lemma dom_logged: "dom (logged w) = wptr ` set w - {0}"
  by (induction w) auto

lemma watch_scan_None:
  "watch_scan ptr sz i free w = None \<longleftrightarrow> (\<exists>r\<in>set w. wptr r \<noteq> 0 \<and> watch_overlap ptr sz r)"
  by (induction ptr sz i free w rule: watch_scan.induct) auto

lemma watch_scan_Some:
  assumes "watch_scan ptr sz i free w = Some res"
  shows "(res = free \<and> (\<forall>r\<in>set w. wptr r \<noteq> 0)) \<or>
         (\<exists>j < length w. res = Some (i + j) \<and> wptr (w ! j) = 0)"
  using assms
proof (induction ptr sz i free w rule: watch_scan.induct)
  case (2 ptr sz i free r recs)
  show ?case
  proof (cases "wptr r = 0")
    case True
    with 2 have "res = Some i \<or> (\<exists>j<length recs. res = Some (Suc i + j) \<and> wptr (recs ! j) = 0)" by auto
    then show ?thesis
    proof
      assume "res = Some i"
      with True show ?thesis by (intro disjI2 exI [of _ 0]) simp
    next
      assume "\<exists>j<length recs. res = Some (Suc i + j) \<and> wptr (recs ! j) = 0"
      then obtain j where "j < length recs" "res = Some (Suc i + j)" "wptr (recs ! j) = 0" by blast
      then show ?thesis by (intro disjI2 exI [of _ "Suc j"]) simp
    qed
  next
    case False
    with 2 have "(res = free \<and> (\<forall>r\<in>set recs. wptr r \<noteq> 0)) \<or>
        (\<exists>j<length recs. res = Some (Suc i + j) \<and> wptr (recs ! j) = 0)" by (auto split: if_splits)
    then show ?thesis
    proof (elim disjE exE conjE)
      fix j assume "j < length recs" "res = Some (Suc i + j)" "wptr (recs ! j) = 0"
      then show ?thesis by (intro disjI2 exI [of _ "Suc j"]) simp
    qed (use False in simp)
  qed
qed simp

lemma logged_append: "logged (v @ w) = logged w ++ logged v"
  by (induction v) (auto simp: fun_eq_iff map_add_def split: option.splits)

lemma logged_fill:
  assumes "j < length w" and "wptr (w ! j) = 0" and "p \<noteq> 0" and "p \<notin> dom (logged w)"
  shows "logged (w[j := \<lparr>wptr = p, wsize = s\<rparr>]) = (logged w)(p \<mapsto> s)"
proof -
  have w: "w = take j w @ w ! j # drop (Suc j) w" using assms(1) by (simp add: id_take_nth_drop)
  have "logged w = logged (drop (Suc j) w) ++ logged (take j w)"
    by (subst w) (simp add: logged_append assms(2))
  moreover have "w[j := \<lparr>wptr = p, wsize = s\<rparr>] = take j w @ \<lparr>wptr = p, wsize = s\<rparr> # drop (Suc j) w"
    using assms(1) by (rule upd_conv_take_nth_drop)
  moreover have "logged (take j w) p = None"
  proof -
    have "p \<notin> wptr ` set w" using assms(3,4) by (simp add: dom_logged)
    then have "p \<notin> dom (logged (take j w))" using set_take_subset [of j w] by (auto simp: dom_logged)
    then show ?thesis by (simp add: domIff)
  qed
  ultimately show ?thesis
    using assms(3) by (auto simp: logged_append fun_eq_iff map_add_def split: option.splits)
qed

text \<open>A log with a free place, and what recording and erasing an allocation do.\<close>

lemma heapwatch_alloc_logs:
  assumes "log_ok w" and "ptr \<noteq> 0" and "sz \<noteq> 0" and "ptr \<notin> dom (logged w)"
    and "\<And>r. r \<in> set w \<Longrightarrow> wptr r \<noteq> 0 \<Longrightarrow> \<not> watch_overlap ptr sz r"
    and "card (dom (logged w)) < 1024"
  shows "\<exists>w'. heapwatch_alloc w ptr sz = Some w' \<and> log_ok w' \<and> logged w' = (logged w)(ptr \<mapsto> sz)"
proof -
  let ?r = "\<lparr>wptr = ptr, wsize = sz\<rparr>"
  obtain res where scan: "watch_scan ptr sz 0 None w = Some res"
    using watch_scan_None [of ptr sz 0 None w] assms(5) by (cases "watch_scan ptr sz 0 None w") auto
  consider "res = None" "\<forall>r\<in>set w. wptr r \<noteq> 0" | j where "j < length w" "res = Some j" "wptr (w ! j) = 0"
    using watch_scan_Some [OF scan] by auto
  then show ?thesis
  proof cases
    case 1
    have "filter (\<lambda>p. p \<noteq> 0) (List.map wptr w) = List.map wptr w" using 1(2) by (simp add: filter_id_conv)
    then have "card (wptr ` set w) = length w"
      using assms(1) distinct_card [of "List.map wptr w"] by (simp add: log_ok_def)
    moreover have "dom (logged w) = wptr ` set w" using 1(2) by (auto simp: dom_logged)
    ultimately have "length w < 1024" using assms(6) by simp
    then have "heapwatch_alloc w ptr sz = Some (w @ [?r])"
      using scan 1 assms(2,3) by (simp add: heapwatch_alloc_def)
    moreover have "logged (w @ [?r]) = (logged w)(ptr \<mapsto> sz)"
      using assms(2,4) by (auto simp: logged_append fun_eq_iff map_add_def split: option.splits)
    moreover have "log_ok (w @ [?r])"
      using assms(1,2,4) \<open>length w < 1024\<close> by (auto simp: log_ok_def dom_logged)
    ultimately show ?thesis by blast
  next
    case 2
    have "heapwatch_alloc w ptr sz = Some (w[j := ?r])"
      using scan 2 assms(2,3) by (simp add: heapwatch_alloc_def)
    moreover have "logged (w[j := ?r]) = (logged w)(ptr \<mapsto> sz)"
      using 2(1,3) assms(2,4) by (rule logged_fill)
    moreover have "log_ok (w[j := ?r])"
    proof -
      have w: "w = take j w @ w ! j # drop (Suc j) w" using 2(1) by (simp add: id_take_nth_drop)
      have u: "w[j := ?r] = take j w @ ?r # drop (Suc j) w" using 2(1) by (rule upd_conv_take_nth_drop)
      have "ptr \<notin> wptr ` set w" using assms(2,4) by (simp add: dom_logged)
      then have "ptr \<notin> wptr ` set (take j w)" "ptr \<notin> wptr ` set (drop (Suc j) w)"
        using set_take_subset [of j w] set_drop_subset [of "Suc j" w] by blast+
      moreover have "filter (\<lambda>p. p \<noteq> 0) (List.map wptr w)
          = filter (\<lambda>p. p \<noteq> 0) (List.map wptr (take j w @ drop (Suc j) w))"
        using 2(3) by (subst w) simp
      then have "distinct (filter (\<lambda>p. p \<noteq> 0) (List.map wptr (take j w @ drop (Suc j) w)))"
        using assms(1) by (simp only: log_ok_def)
      ultimately have "distinct (filter (\<lambda>p. p \<noteq> 0) (List.map wptr (w[j := ?r])))"
        unfolding u using assms(2) by auto
      then show ?thesis using assms(1) by (simp add: log_ok_def)
    qed
    ultimately show ?thesis by blast
  qed
qed

lemma watch_clear_Some:
  assumes "ptr \<noteq> 0" and "ptr \<in> dom (logged w)" and "distinct (filter (\<lambda>p. p \<noteq> 0) (List.map wptr w))"
  shows "\<exists>w'. watch_clear w ptr = Some w' \<and> length w' = length w \<and> logged w' = (logged w)(ptr := None)
    \<and> filter (\<lambda>p. p \<noteq> 0) (List.map wptr w') = remove1 ptr (filter (\<lambda>p. p \<noteq> 0) (List.map wptr w))"
  using assms
proof (induction w)
  case (Cons r w)
  show ?case
  proof (cases "wptr r = ptr")
    case True
    with Cons.prems have "ptr \<notin> dom (logged w)" by (auto simp: dom_logged)
    with True Cons.prems show ?thesis by (auto simp: fun_eq_iff domIff)
  next
    case False
    then have "ptr \<in> dom (logged w)" "distinct (filter (\<lambda>p. p \<noteq> 0) (List.map wptr w))"
      using Cons.prems by (auto split: if_splits)
    with Cons.IH [OF Cons.prems(1)] obtain w' where "watch_clear w ptr = Some w'" "length w' = length w"
      "logged w' = (logged w)(ptr := None)"
      "filter (\<lambda>p. p \<noteq> 0) (List.map wptr w') = remove1 ptr (filter (\<lambda>p. p \<noteq> 0) (List.map wptr w))"
      by blast
    with False show ?thesis by (auto simp: fun_eq_iff)
  qed
qed simp

lemma heapwatch_free_logs:
  assumes "log_ok w" and "ptr \<in> dom (logged w)"
  shows "\<exists>w'. heapwatch_free w ptr = Some w' \<and> log_ok w' \<and> logged w' = (logged w)(ptr := None)"
proof -
  have "ptr \<noteq> 0" using assms(2) by (auto simp: dom_logged)
  moreover from this obtain w' where "watch_clear w ptr = Some w'" "length w' = length w"
    "logged w' = (logged w)(ptr := None)"
    "filter (\<lambda>p. p \<noteq> 0) (List.map wptr w') = remove1 ptr (filter (\<lambda>p. p \<noteq> 0) (List.map wptr w))"
    using watch_clear_Some [of ptr w] assms by (auto simp: log_ok_def)
  ultimately show ?thesis using assms(1) by (auto simp: heapwatch_free_def log_ok_def)
qed

lemma heapwatch_free_unknown:
  assumes "ptr \<noteq> 0" and "ptr \<notin> dom (logged w)"
  shows "heapwatch_free w ptr = None"
proof -
  have "ptr \<notin> wptr ` set w" using assms by (simp add: dom_logged)
  then have "watch_clear w ptr = None" by (induction w) auto
  with assms(1) show ?thesis by (simp add: heapwatch_free_def)
qed

end
