(* ===== verification/Kheap.thy ===== *)
theory Kheap
  imports Heapwatch
begin

text \<open>
  \<open>src/kheap.c\<close>: the kernel heap, a best-fit allocator over a chain of blocks with a
  header each, and an ordered index of the holes. The state is the memory, the heap descriptor
  and the allocation log. Every operation runs the consistency walk; its result is \<open>None\<close>
  where the C code panics.
\<close>

record heap_st =
  hmem :: mem
  heap :: heap_t
  watcher :: heapwatch

definition compare_headers :: "mem \<Rightarrow> u32 \<Rightarrow> u32 \<Rightarrow> int" where
  "compare_headers m a b =
     (let as = h_size (hdr m a); bs = h_size (hdr m b)
      in if as = bs then 0 else if as > bs then 1 else -1)"

text \<open>Inserting into the index of the holes, the comparison reading the present memory.\<close>

definition index_insert :: "mem \<Rightarrow> heap_t \<Rightarrow> u32 \<Rightarrow> heap_t" where
  "index_insert m h p = h\<lparr>index := fst (ordlist_insert (compare_headers m) (index h) p)\<rparr>"

definition heap_init ::
  "mem \<Rightarrow> heapwatch \<Rightarrow> (u32 \<Rightarrow> u32) \<Rightarrow> u32 \<Rightarrow> u32 \<Rightarrow> u32 \<Rightarrow> u8 \<Rightarrow> u8 \<Rightarrow> heap_st" where
  "heap_init m watch array s sz index_size ro supv =
     (let watch = heapwatch_init watch;
          index = ordlist_place array index_size ORDER_ASCENDING;
          s = s + index_size;
          s = (if s mod 1000 \<noteq> 0 then (s AND 0xFFFFF000) + 0x1000 else s);
          h = \<lparr>index = index, start = s, hp_size = sz, readonly = ro, supervisor = supv\<rparr>;
          m = set_prev (set_h_size (set_is_hole m s 1) s sz) s 0
      in \<lparr>hmem = m, heap = index_insert m h s, watcher = watch\<rparr>)"

definition alignment :: "u32 \<Rightarrow> u32" where
  "alignment x = (if x mod 0x1000 \<noteq> 0 then (x AND 0xFFFFF000) + 0x1000 else x)"

definition alignment_o :: "u32 \<Rightarrow> u32 \<Rightarrow> u32" where
  "alignment_o x offset =
     (if x mod 0x1000 > offset then (x AND 0xFFFFF000) + (0x1000 + offset) else (x AND 0xFFFFF000) + offset)"

definition heap_low_split :: "mem \<Rightarrow> heap_t \<Rightarrow> u32 \<Rightarrow> u32 \<Rightarrow> mem \<times> heap_t" where
  "heap_low_split m h hole sz =
     (let newhole = hole - sz;
          m = set_h_size m newhole (sz - HDR);
          m = set_h_size m hole (h_size (hdr m hole) - sz);
          m = set_prev m newhole (prev (hdr m hole));
          m = set_prev m hole newhole;
          h = index_insert m h newhole
      in (set_is_hole m newhole 1, h))"

definition hheader_next :: "mem \<Rightarrow> u32 \<Rightarrow> u32" where
  "hheader_next m p = p + HDR + h_size (hdr m p)"

definition hheader_isvalid :: "u32 \<Rightarrow> heap_t \<Rightarrow> bool" where
  "hheader_isvalid p h \<longleftrightarrow> p < start h + hp_size h"

definition heap_high_split :: "mem \<Rightarrow> heap_t \<Rightarrow> u32 \<Rightarrow> u32 \<Rightarrow> mem \<times> heap_t" where
  "heap_high_split m h hole sz =
     (let next = hole + HDR + h_size (hdr m hole);
          newhole = next - sz;
          m = set_h_size m newhole (sz - HDR);
          m = set_h_size m hole (h_size (hdr m hole) - sz);
          m = set_prev m newhole hole;
          m = (if hheader_isvalid next h then set_prev m next newhole else m);
          h = index_insert m h newhole
      in (set_is_hole m newhole 1, h))"

text \<open>The search for a hole in the index, \<open>-1\<close> when it is not there.\<close>

function hole_index_from :: "u32 ordlist \<Rightarrow> u32 \<Rightarrow> u32 \<Rightarrow> u32" where
  "hole_index_from ol p i =
     (if i < ol_size ol then if ol_array ol i = p then i else hole_index_from ol p (i + 1) else -1)"
  by pat_completeness auto
termination
proof (relation "measure (\<lambda>(ol, p, i). unat (ol_size ol) - unat i)", simp)
  fix ol :: "u32 ordlist" and p i :: u32
  assume "i < ol_size ol"
  then show "((ol, p, i + 1), ol, p, i) \<in> measure (\<lambda>(ol, p, i). unat (ol_size ol) - unat i)"
    by (auto simp: word_less_nat_alt intro: diff_less_mono2 dest!: unat_Suc_below)
qed

definition heap_hole_index :: "heap_t \<Rightarrow> u32 \<Rightarrow> u32" where
  "heap_hole_index h p = hole_index_from (index h) p 0"

definition heap_merge :: "mem \<Rightarrow> heap_t \<Rightarrow> u32 \<Rightarrow> mem \<times> heap_t" where
  "heap_merge m h hole =
     (let next = hheader_next m hole
      in if hheader_isvalid next h \<and> is_hole (hdr m next) \<noteq> 0 then
           (let next_next = hheader_next m next;
                m = (if hheader_isvalid next_next h then set_prev m next_next hole else m);
                h = h\<lparr>index := fst (ordlist_remove (index h) (heap_hole_index h next))\<rparr>
            in (set_h_size m hole (h_size (hdr m hole) + (h_size (hdr m next) + HDR)), h))
         else (m, h))"

text \<open>The test of one hole in the search of \<open>heap_alloc\<close>, and the search: the first index
  that fits, or the size of the index.\<close>

definition aligned_addr :: "u32 \<Rightarrow> u32" where
  "aligned_addr hole = alignment_o hole (0x1000 - HDR)"

definition hole_fits :: "mem \<Rightarrow> u32 \<Rightarrow> bool \<Rightarrow> u32 \<Rightarrow> bool" where
  "hole_fits m sz align hole =
     (if align then
        let extrasize = aligned_addr hole - hole
        in h_size (hdr m hole) > extrasize \<and> h_size (hdr m hole) - extrasize \<ge> sz
      else h_size (hdr m hole) \<ge> sz)"

function best_index_from :: "mem \<Rightarrow> u32 ordlist \<Rightarrow> u32 \<Rightarrow> bool \<Rightarrow> u32 \<Rightarrow> u32" where
  "best_index_from m ol sz align i =
     (if i < ol_size ol then
        if hole_fits m sz align (ordlist_get ol i) then i else best_index_from m ol sz align (i + 1)
      else i)"
  by pat_completeness auto
termination
proof (relation "measure (\<lambda>(m, ol, sz, align, i). unat (ol_size ol) - unat i)", simp)
  fix m :: mem and ol :: "u32 ordlist" and sz i :: u32 and align :: bool
  assume "i < ol_size ol"
  then show "((m, ol, sz, align, i + 1), m, ol, sz, align, i)
      \<in> measure (\<lambda>(m, ol, sz, align, i). unat (ol_size ol) - unat i)"
    by (auto simp: word_less_nat_alt intro: diff_less_mono2 dest!: unat_Suc_below)
qed

declare hole_index_from.simps [simp del] best_index_from.simps [simp del]

text \<open>The moving of the header of a hole to an aligned address, as \<open>heap_alloc\<close> does.\<close>

definition heap_align :: "mem \<Rightarrow> heap_t \<Rightarrow> u32 \<Rightarrow> mem \<times> heap_t \<times> u32" where
  "heap_align m h best_hole =
     (let newaddr = aligned_addr best_hole;
          extrasize = newaddr - best_hole;
          m = put_hdr m newaddr (hdr m best_hole);
          best_hole = newaddr;
          p = prev (hdr m best_hole)
      in if extrasize > HDR then
           (let (m, h) = heap_low_split m h best_hole extrasize in (m, h, best_hole))
         else if p \<noteq> 0 then (set_h_size m p (h_size (hdr m p) + extrasize), h, best_hole)
         else (set_prev m best_hole 1, h, best_hole))"

definition heap_alloc :: "heap_st \<Rightarrow> u32 \<Rightarrow> bool \<Rightarrow> (heap_st \<times> u32) option" where
  "heap_alloc st sz align = do {
     _ \<leftarrow> heap_check (hmem st) (heap st);
     if sz = 0 then Some (st, 0) else
     let m = hmem st; h = heap st; best_index = best_index_from m (index h) sz align 0 in
     if best_index = ol_size (index h) then Some (st, 0) else
     let best_hole = ordlist_get (index h) best_index;
         m = set_is_hole m best_hole 0;
         h = h\<lparr>index := fst (ordlist_remove (index h) best_index)\<rparr>;
         (m, h, best_hole) = (if align then heap_align m h best_hole else (m, h, best_hole));
         (m, h) = (if h_size (hdr m best_hole) - sz > HDR
                   then heap_high_split m h best_hole (h_size (hdr m best_hole) - sz) else (m, h))
     in do {
       w \<leftarrow> heapwatch_alloc (watcher st) (best_hole + HDR) sz;
       _ \<leftarrow> heap_check m h;
       Some (\<lparr>hmem = m, heap = h, watcher = w\<rparr>, best_hole + HDR)
     }
   }"

text \<open>The end of \<open>heap_free\<close>: the block joins a hole before it. The address 1 in \<open>prev\<close>
  marks an aligned block at the start of the heap whose own header was moved.\<close>

definition heap_merge_prev :: "mem \<Rightarrow> heap_t \<Rightarrow> u32 \<Rightarrow> mem \<times> heap_t" where
  "heap_merge_prev m h block =
     (let p = prev (hdr m block)
      in if p \<noteq> 0 \<and> is_hole (hdr m p) \<noteq> 0 then
           if p = 1 then
             (let rep = start h;
                  m = put_hdr m rep (hdr m block)
              in (set_h_size m rep (h_size (hdr m rep) + (block - start h)), h))
           else heap_merge m h p
         else (m, h))"

definition heap_free :: "heap_st \<Rightarrow> u32 \<Rightarrow> heap_st option" where
  "heap_free st ptr = do {
     _ \<leftarrow> heap_check (hmem st) (heap st);
     w \<leftarrow> heapwatch_free (watcher st) ptr;
     if ptr = 0 then Some (st\<lparr>watcher := w\<rparr>) else
     let block = ptr - HDR;
         m = set_is_hole (hmem st) block 1;
         h = index_insert m (heap st) block;
         (m, h) = heap_merge m h block;
         (m, h) = heap_merge_prev m h block
     in do {
       _ \<leftarrow> heap_check m h;
       Some \<lparr>hmem = m, heap = h, watcher = w\<rparr>
     }
   }"

text \<open>\<open>src/kutil.c\<close>: the kernel's allocation calls.\<close>

definition kmalloc :: "heap_st \<Rightarrow> u32 \<Rightarrow> (heap_st \<times> u32) option" where
  "kmalloc st sz = heap_alloc st sz False"

definition kmalloc_a :: "heap_st \<Rightarrow> u32 \<Rightarrow> (heap_st \<times> u32) option" where
  "kmalloc_a st sz = heap_alloc st sz True"

definition kfree :: "heap_st \<Rightarrow> u32 \<Rightarrow> heap_st option" where
  "kfree st ptr = heap_free st ptr"

end
