(* ===== verification/Kheapinv.thy ===== *)
theory Kheapinv
  imports Kheap
begin

text \<open>
  What the kernel heap promises when no aligned block has been asked for: the invariant of its
  block chain, that every call keeps it, that the consistency walk never panics on it, and that
  the blocks handed out are disjoint and stay untouched until they are freed.
\<close>

subsection \<open>The chain of blocks\<close>

text \<open>A block: the address of its header, the size of its payload, and whether it is a hole.\<close>

type_synonym block = "nat \<times> nat \<times> bool"

fun tiles :: "nat \<Rightarrow> block list \<Rightarrow> nat \<Rightarrow> bool" where
  "tiles a [] e = (a = e)"
| "tiles a ((p, s, g) # bs) e = (p = a \<and> 1 \<le> s \<and> tiles (a + 9 + s) bs e)"

definition header_of :: "nat \<Rightarrow> nat \<Rightarrow> bool \<Rightarrow> hheader" where
  "header_of pr s g = \<lparr>is_hole = (if g then 1 else 0), h_size = of_nat s, prev = of_nat pr\<rparr>"

fun linked :: "mem \<Rightarrow> nat \<Rightarrow> block list \<Rightarrow> bool" where
  "linked m pr [] = True"
| "linked m pr ((p, s, g) # bs) = (hdr m (of_nat p) = header_of pr s g \<and> linked m p bs)"

fun last_addr :: "nat \<Rightarrow> block list \<Rightarrow> nat" where
  "last_addr pr [] = pr"
| "last_addr pr ((p, s, g) # bs) = last_addr p bs"

definition no_adjacent :: "block list \<Rightarrow> bool" where
  "no_adjacent = successively (\<lambda>(p, s, g) (q, t, k). \<not> (g \<and> k))"

definition hole_addrs :: "block list \<Rightarrow> u32 list" where
  "hole_addrs bs = [of_nat p. (p, s, g) \<leftarrow> bs, g]"

text \<open>Where the blocks end. The code takes \<open>start + size\<close> for the end of the heap, in
  \<open>hheader_isvalid\<close> and in \<open>heap_check\<close>, but \<open>heap_init\<close> gives the payload of the first hole the whole
  size without its header, so the blocks reach nine bytes further. The whole must not wrap around
  the address space. An address of 1 is excluded: the code uses it as a mark in \<open>prev\<close>.\<close>

definition blocks_end :: "heap_t \<Rightarrow> nat" where
  "blocks_end h = unat (start h) + unat (hp_size h) + 9"

definition links :: "heap_t \<Rightarrow> mem \<Rightarrow> block list \<Rightarrow> bool" where
  "links h m bs \<longleftrightarrow> 1 < unat (start h) \<and> blocks_end h < 4294967296 \<and>
     tiles (unat (start h)) bs (blocks_end h) \<and> linked m 0 bs"

definition chain :: "heap_t \<Rightarrow> mem \<Rightarrow> block list \<Rightarrow> bool" where
  "chain h m bs \<longleftrightarrow> links h m bs \<and> mset (ol_elems (index h)) = mset (hole_addrs bs)"

text \<open>The log records exactly the blocks in use, with sizes they can hold.\<close>

definition used :: "block list \<Rightarrow> (nat \<times> nat) set" where
  "used bs = {(p, s). (p, s, False) \<in> set bs}"

definition recorded :: "heapwatch \<Rightarrow> block list \<Rightarrow> bool" where
  "recorded w bs \<longleftrightarrow> log_ok w \<and> dom (logged w) = (\<lambda>(p, s). of_nat (p + 9)) ` used bs \<and>
     (\<forall>(p, s) \<in> used bs. \<forall>r. logged w (of_nat (p + 9)) = Some r \<longrightarrow> 1 \<le> unat r \<and> unat r \<le> s)"

definition heap_inv :: "heap_st \<Rightarrow> bool" where
  "heap_inv st \<longleftrightarrow> (\<exists>bs. chain (heap st) (hmem st) bs \<and> no_adjacent bs \<and> recorded (watcher st) bs)"

text \<open>The allocations in force: address to requested size.\<close>

definition allocations :: "heap_st \<Rightarrow> u32 \<rightharpoonup> u32" where
  "allocations st = logged (watcher st)"

subsection \<open>Facts about tilings and links\<close>

lemma tiles_le: "tiles a bs e \<Longrightarrow> a \<le> e"
  by (induction a bs e rule: tiles.induct) auto

lemma tiles_append: "tiles a (xs @ ys) e \<longleftrightarrow> (\<exists>k. tiles a xs k \<and> tiles k ys e)"
  by (induction a xs e rule: tiles.induct) auto

lemma tiles_mem: "tiles a bs e \<Longrightarrow> (p, s, g) \<in> set bs \<Longrightarrow> a \<le> p \<and> 1 \<le> s \<and> p + 9 + s \<le> e"
proof (induction a bs e rule: tiles.induct)
  case (2 a q t k bs e)
  then have "tiles (a + 9 + t) bs e" by simp
  then have "a + 9 + t \<le> e" by (rule tiles_le)
  with 2 show ?case by auto
qed simp

lemma tiles_length: "tiles a bs e \<Longrightarrow> a + 10 * length bs \<le> e"
  by (induction a bs e rule: tiles.induct) auto

lemma tiles_around:
  assumes "tiles a (xs @ (p, s, g) # ys) e"
  shows "a \<le> p" and "1 \<le> s" and "p + 9 + s \<le> e" and "tiles a xs p" and "tiles (p + 9 + s) ys e"
    and "(q, t, k) \<in> set xs \<Longrightarrow> q + 9 + t \<le> p" and "(q, t, k) \<in> set ys \<Longrightarrow> p + 9 + s \<le> q \<and> q + 9 + t \<le> e"
proof -
  from assms show x: "tiles a xs p" and s: "1 \<le> s" and y: "tiles (p + 9 + s) ys e"
    by (auto simp: tiles_append)
  from tiles_le [OF x] show "a \<le> p" .
  from tiles_le [OF y] show "p + 9 + s \<le> e" .
  show "(q, t, k) \<in> set xs \<Longrightarrow> q + 9 + t \<le> p" using tiles_mem [OF x] by blast
  show "(q, t, k) \<in> set ys \<Longrightarrow> p + 9 + s \<le> q \<and> q + 9 + t \<le> e" using tiles_mem [OF y] by blast
qed

lemma tiles_inj:
  assumes "tiles a bs e" and "(p, s, g) \<in> set bs" and "(p, t, k) \<in> set bs"
  shows "s = t \<and> g = k"
proof -
  obtain xs ys where bs: "bs = xs @ (p, s, g) # ys" using assms(2) by (meson split_list)
  note ar = tiles_around [OF assms(1) [unfolded bs]]
  show ?thesis using assms(3) ar(6) [of p t k] ar(7) [of p t k] ar(2) unfolding bs by auto
qed

lemma linked_append: "linked m pr (xs @ ys) \<longleftrightarrow> linked m pr xs \<and> linked m (last_addr pr xs) ys"
  by (induction m pr xs rule: linked.induct) auto

lemma linked_mem: "linked m pr bs \<Longrightarrow> (p, s, g) \<in> set bs \<Longrightarrow> \<exists>r. hdr m (of_nat p) = header_of r s g"
  by (induction m pr bs rule: linked.induct) auto

lemma linked_frame:
  assumes "\<And>p s g. (p, s, g) \<in> set bs \<Longrightarrow> hdr m' (of_nat p) = hdr m (of_nat p)"
  shows "linked m' pr bs = linked m pr bs"
  using assms
proof (induction bs arbitrary: pr)
  case (Cons b bs)
  obtain p s g where b: "b = (p, s, g)" by (cases b)
  then have "hdr m' (of_nat p) = hdr m (of_nat p)" using Cons.prems [of p s g] by simp
  moreover have "linked m' p bs = linked m p bs" using Cons.prems by (intro Cons.IH) auto
  ultimately show ?case by (simp add: b)
qed simp

lemma last_addr_append [simp]: "last_addr pr (xs @ ys) = last_addr (last_addr pr xs) ys"
  by (induction pr xs rule: last_addr.induct) auto

lemma last_addr_cases:
  assumes "tiles a xs p"
  obtains "xs = []" "last_addr pr xs = pr"
  | ws q t k where "xs = ws @ [(q, t, k)]" "last_addr pr xs = q" "q + 9 + t = p" "a \<le> q" "1 \<le> t"
proof (cases xs rule: rev_cases)
  case (snoc ws b)
  obtain q t k where b: "b = (q, t, k)" by (cases b)
  have "tiles a (ws @ (q, t, k) # []) p" using assms snoc b by simp
  from tiles_around(1,2,5) [OF this] snoc b show ?thesis using that(2) by simp
qed (use that in simp)

lemma hole_addrs_simps [simp]:
  "hole_addrs [] = []"
  "hole_addrs (xs @ ys) = hole_addrs xs @ hole_addrs ys"
  "hole_addrs ((p, s, g) # bs) = (if g then of_nat p # hole_addrs bs else hole_addrs bs)"
  by (simp_all add: hole_addrs_def)

lemma set_hole_addrs: "set (hole_addrs bs) = {of_nat p | p s. (p, s, True) \<in> set bs}"
  by (force simp: hole_addrs_def split: if_splits)

lemma length_hole_addrs: "length (hole_addrs bs) \<le> length bs"
  by (induction bs) auto

lemma chain_room:
  assumes "chain h m bs"
  shows "10 * unat (ol_size (index h)) < 4294967296"
proof -
  have "mset (ol_elems (index h)) = mset (hole_addrs bs)" using assms by (simp add: chain_def)
  then have "unat (ol_size (index h)) = length (hole_addrs bs)"
    by (metis length_ol_elems size_mset)
  moreover have "10 * length bs < 4294967296"
    using assms tiles_length [of "unat (start h)" bs "blocks_end h"] by (simp add: chain_def links_def)
  ultimately show ?thesis using length_hole_addrs [of bs] by linarith
qed

text \<open>Headers of different blocks lie apart.\<close>

lemma tiles_apart:
  assumes "tiles a (xs @ (p, s, g) # ys) e" and "e \<le> 4294967296"
    and "(q, t, k) \<in> set xs \<or> (q, t, k) \<in> set ys"
  shows "apart (of_nat p) (of_nat q)"
proof -
  note ar = tiles_around [OF assms(1)]
  consider "q + 9 + t \<le> p" | "p + 9 + s \<le> q" "q + 9 + t \<le> e" using ar(6,7) assms(3) by blast
  then show ?thesis
  proof cases
    case 1
    then show ?thesis using ar(3) assms(2) by (intro apart_of_nat(2)) linarith+
  next
    case 2
    then show ?thesis using assms(2) by (intro apart_of_nat(1)) linarith+
  qed
qed

lemma links_last:
  assumes "links h m bs"
  shows "start h + hp_size h = of_nat (blocks_end h - 9)" and "unat (start h + hp_size h) = blocks_end h - 9"
proof -
  have "unat (start h + hp_size h) = blocks_end h - 9"
    using assms unat_add_nowrap [of "start h" "hp_size h"] by (simp add: links_def blocks_end_def)
  then show "unat (start h + hp_size h) = blocks_end h - 9" .
  then show "start h + hp_size h = of_nat (blocks_end h - 9)" by (metis of_nat_unat ucast_id)
qed

subsection \<open>The walk accepts the chain\<close>

lemma header_of_sel [simp]:
  "is_hole (header_of pr s g) = (if g then 1 else 0)" "h_size (header_of pr s g) = of_nat s"
  "prev (header_of pr s g) = of_nat pr"
  by (simp_all add: header_of_def)

lemma header_of_eqI: "is_hole r = (if g then 1 else 0) \<Longrightarrow> h_size r = of_nat s \<Longrightarrow> prev r = of_nat pr \<Longrightarrow> r = header_of pr s g"
  by (cases r) (simp add: header_of_def)

lemma no_adjacent_mid:
  assumes "no_adjacent (xs @ (p, s, g) # (q, t, k) # ys)"
  shows "\<not> (g \<and> k)"
  using assms by (simp add: no_adjacent_def successively_append_iff)

lemma heap_check_step:
  assumes ch: "chain h m (xs @ (p, s, g) # ys)" and na: "no_adjacent (xs @ (p, s, g) # ys)"
  shows "heap_check_from m h (of_nat p)
    = (case ys of [] \<Rightarrow> Some () | b # _ \<Rightarrow> heap_check_from m h (of_nat (fst b)))"
proof -
  let ?e = "blocks_end h" and ?pr = "last_addr 0 xs"
  have e: "?e < 4294967296" and a0: "1 < unat (start h)"
    and tl: "tiles (unat (start h)) (xs @ (p, s, g) # ys) ?e"
    and lk: "linked m 0 (xs @ (p, s, g) # ys)" using ch by (simp_all add: chain_def links_def)
  note ar = tiles_around [OF tl]
  have H: "hdr m (of_nat p) = header_of ?pr s g" using lk by (simp add: linked_append)
  have un: "unat (of_nat x :: u32) = x" if "x \<le> ?e" for x using that e by (simp add: unat_of_nat32)
  have nxt: "of_nat p + HDR + of_nat s = (of_nat (p + 9 + s) :: u32)" by (simp add: HDR_def)
  have prle: "?pr \<le> p" using ar(4) by (cases rule: last_addr_cases [of _ xs p 0]) auto
  have prev_ok: "of_nat ?pr + HDR + h_size (hdr m (of_nat ?pr)) = (of_nat p :: u32) \<and>
      \<not> (is_hole (hdr m (of_nat ?pr)) \<noteq> 0 \<and> g)" if "start h \<le> of_nat ?pr"
    using ar(4)
  proof (cases rule: last_addr_cases [of _ xs p 0])
    case 1
    then show ?thesis using that a0 by (simp add: word_le_nat_alt)
  next
    case (2 ws q t k)
    then have "linked m 0 (ws @ [(q, t, k)])" using lk by (simp add: linked_append)
    then have "hdr m (of_nat q) = header_of (last_addr 0 ws) t k" by (simp add: linked_append)
    moreover have "\<not> (k \<and> g)" using na 2 by (intro no_adjacent_mid [of ws q t k p s g ys]) simp
    ultimately show ?thesis using 2 by (auto simp: HDR_def)
  qed
  have first: "\<not> (is_hole (hdr m (of_nat p)) > 1 \<or> prev (hdr m (of_nat p)) > of_nat p)"
    using prle ar(3) by (auto simp: H word_less_nat_alt un)
  show ?thesis
  proof (cases ys)
    case Nil
    then have "p + 9 + s = ?e" using ar(5) by simp
    then have "start h + hp_size h \<le> of_nat (p + 9 + s)"
      using links_last(2) [of h m "xs @ (p, s, g) # ys"] ch by (simp add: chain_def word_le_nat_alt un del: of_nat_add)
    then show ?thesis
      by (subst heap_check_from.simps) (use Nil first prev_ok in \<open>auto simp: Let_def H nxt simp del: of_nat_add\<close>)
  next
    case (Cons b ys')
    obtain t k where b: "b = (p + 9 + s, t, k)" using ar(5) Cons by (cases b) auto
    have H2: "hdr m (of_nat (p + 9 + s)) = header_of p t k" using lk by (simp add: Cons b linked_append)
    have "p + 9 + s + 9 + t \<le> ?e" "1 \<le> t" using ar(5) tiles_le by (auto simp: Cons b)
    then have below: "\<not> start h + hp_size h \<le> of_nat (p + 9 + s)"
      using links_last(2) [of h m "xs @ (p, s, g) # ys"] ch un [of "p + 9 + s"] by (simp add: chain_def word_le_nat_alt del: of_nat_add)
    have "\<not> (g \<and> k)" using na by (intro no_adjacent_mid [of xs p s g "p + 9 + s" t k ys']) (simp add: Cons b)
    then show ?thesis
      by (subst heap_check_from.simps)
        (use first prev_ok H2 below in \<open>auto simp: Let_def H nxt Cons b simp del: of_nat_add\<close>)
  qed
qed

lemma heap_check_from_chain:
  assumes "chain h m (xs @ (p, s, g) # ys)" and "no_adjacent (xs @ (p, s, g) # ys)"
  shows "heap_check_from m h (of_nat p) = Some ()"
  using assms
proof (induction ys arbitrary: xs p s g)
  case Nil
  then show ?case using heap_check_step [of h m xs p s g "[]"] by simp
next
  case (Cons b ys)
  obtain q t k where b: "b = (q, t, k)" by (cases b)
  show ?case
    using heap_check_step [OF Cons.prems] Cons.prems Cons.IH [of "xs @ [(p, s, g)]" q t k] by (simp add: b)
qed

lemma heap_check_chain:
  assumes "chain h m bs" and "no_adjacent bs"
  shows "heap_check m h = Some ()"
proof -
  have "tiles (unat (start h)) bs (blocks_end h)" using assms(1) by (simp add: chain_def links_def)
  then obtain s g ys where "bs = (unat (start h), s, g) # ys"
    by (cases bs) (auto simp: blocks_end_def)
  then show ?thesis
    using assms heap_check_from_chain [of h m "[]" "unat (start h)" s g ys] by (simp add: heap_check_def)
qed

subsection \<open>What the steps of the operations do to the chain\<close>

text \<open>The payloads of some blocks have the same bytes in two memories.\<close>

definition keeps :: "mem \<Rightarrow> mem \<Rightarrow> block list \<Rightarrow> bool" where
  "keeps m m' bs \<longleftrightarrow> (\<forall>(r, t, g) \<in> set bs. \<forall>x. r + 9 \<le> x \<and> x < r + 9 + t \<longrightarrow> m' (of_nat x) = m (of_nat x))"

lemma keepsI:
  assumes "\<And>r t g x. (r, t, g) \<in> set bs \<Longrightarrow> r + 9 \<le> x \<Longrightarrow> x < r + 9 + t \<Longrightarrow> m' (of_nat x) = m (of_nat x)"
  shows "keeps m m' bs"
  using assms by (auto simp: keeps_def)

lemma keeps_sub: "keeps m m' bs \<Longrightarrow> set cs \<subseteq> set bs \<Longrightarrow> keeps m m' cs"
  unfolding keeps_def by blast

lemma keeps_trans: "keeps m m' bs \<Longrightarrow> keeps m' m'' bs \<Longrightarrow> keeps m m'' bs"
  by (rule keepsI) (fastforce simp: keeps_def)

lemma payload_outside:
  assumes "tiles a bs e" and "e < 4294967296" and "(p, s, g) \<in> set bs" and "(r, t, k) \<in> set bs"
    and "r + 9 \<le> x" and "x < r + 9 + t"
  shows "outside (of_nat p) (of_nat x)"
proof -
  obtain xs ys where bs: "bs = xs @ (p, s, g) # ys" using assms(3) by (meson split_list)
  note ar = tiles_around [OF assms(1) [unfolded bs]]
  have "x < e" using tiles_mem [OF assms(1,4)] assms(6) by simp
  have "(r, t, k) \<in> set xs \<or> (r, t, k) = (p, s, g) \<or> (r, t, k) \<in> set ys" using assms(4) bs by auto
  then have "x < p \<or> p + 9 \<le> x" using ar(6) [of r t k] ar(7) [of r t k] assms(5,6) by fastforce
  then show ?thesis
  proof
    assume "x < p"
    then show ?thesis using ar(3) assms(2) by (intro outside_below) simp_all
  next
    assume "p + 9 \<le> x"
    then show ?thesis using \<open>x < e\<close> assms(2) by (intro outside_of_nat) simp_all
  qed
qed

text \<open>Writing a header away from a list of blocks leaves their headers as they were.\<close>

definition clear_of :: "nat \<Rightarrow> block list \<Rightarrow> bool" where
  "clear_of p bs \<longleftrightarrow> (\<forall>(q, t, k) \<in> set bs. apart (of_nat p) (of_nat q))"

lemma linked_clear:
  assumes "clear_of p bs"
  shows "linked (set_is_hole m (of_nat p) b) pr bs = linked m pr bs"
    and "linked (set_h_size m (of_nat p) v) pr bs = linked m pr bs"
    and "linked (set_prev m (of_nat p) v) pr bs = linked m pr bs"
proof -
  have "apart (of_nat p) (of_nat q)" if "(q, t, k) \<in> set bs" for q t k
    using assms that by (auto simp: clear_of_def)
  note ap = hdr_set_apart [OF this]
  show "linked (set_is_hole m (of_nat p) b) pr bs = linked m pr bs" by (rule linked_frame) (rule ap)
  show "linked (set_h_size m (of_nat p) v) pr bs = linked m pr bs" by (rule linked_frame) (rule ap)
  show "linked (set_prev m (of_nat p) v) pr bs = linked m pr bs" by (rule linked_frame) (rule ap)
qed

lemma clear_of_simps [simp]:
  "clear_of p []" "clear_of p (xs @ ys) \<longleftrightarrow> clear_of p xs \<and> clear_of p ys"
  "clear_of p ((q, t, k) # bs) \<longleftrightarrow> apart (of_nat p) (of_nat q) \<and> clear_of p bs"
  by (auto simp: clear_of_def)

lemma tiles_clear:
  assumes "tiles a (xs @ (p, s, g) # ys) e" and "e < 4294967296"
  shows "clear_of p (xs @ ys)"
  unfolding clear_of_def using tiles_apart [OF assms(1)] assms(2) by fastforce

lemma links_mark:
  assumes "links h m (xs @ (p, s, g) # ys)"
  shows "links h (set_is_hole m (of_nat p) (if k then 1 else 0)) (xs @ (p, s, k) # ys)"
    and "keeps m (set_is_hole m (of_nat p) (if k then 1 else 0)) (xs @ (p, s, g) # ys)"
proof -
  let ?m = "set_is_hole m (of_nat p) (if k then 1 else 0)"
  have tl: "tiles (unat (start h)) (xs @ (p, s, g) # ys) (blocks_end h)" and e: "blocks_end h < 4294967296"
    and lk: "linked m 0 (xs @ (p, s, g) # ys)" using assms by (simp_all add: links_def)
  have "clear_of p (xs @ ys)" using tl e by (rule tiles_clear)
  then have "linked ?m pr xs = linked m pr xs" "linked ?m pr ys = linked m pr ys" for pr
    by (simp_all add: linked_clear)
  moreover have "hdr ?m (of_nat p) = header_of (last_addr 0 xs) s k"
    using lk by (auto simp: linked_append header_of_def)
  ultimately have "linked ?m 0 (xs @ (p, s, k) # ys)" using lk by (simp add: linked_append)
  moreover have "tiles (unat (start h)) (xs @ (p, s, k) # ys) (blocks_end h)"
    using tl by (auto simp: tiles_append)
  ultimately show "links h ?m (xs @ (p, s, k) # ys)" using assms by (simp add: links_def)
  show "keeps m ?m (xs @ (p, s, g) # ys)"
    using payload_outside [OF tl e, of p s g] by (auto intro!: keepsI simp: set_outside)
qed

lemma isvalid_of_nat:
  assumes "links h m bs" and "x \<le> blocks_end h"
  shows "hheader_isvalid (of_nat x) h \<longleftrightarrow> x < blocks_end h - 9"
  using assms links_last(2) [OF assms(1)]
  by (simp add: hheader_isvalid_def word_less_nat_alt links_def unat_of_nat32)

lemma links_split:
  assumes "links h m (xs @ (p, s, g) # ys)" and "1 \<le> sz" and "sz + 9 < s"
    and "unat (ol_size (index h)) \<noteq> 4294967295"
    and "heap_high_split m h (of_nat p) (of_nat (s - sz)) = (m', h')"
  shows "links h' m' (xs @ (p, sz, g) # (p + 9 + sz, s - sz - 9, True) # ys)"
    and "keeps m m' (xs @ (p, sz, g) # ys)"
    and "mset (ol_elems (index h')) = add_mset (of_nat (p + 9 + sz)) (mset (ol_elems (index h)))"
    and "start h' = start h" and "hp_size h' = hp_size h"
proof -
  let ?n = "p + 9 + sz" and ?q = "p + 9 + s"
  let ?bs = "xs @ (p, sz, g) # (?n, s - sz - 9, True) # ys"
  have tl: "tiles (unat (start h)) (xs @ (p, s, g) # ys) (blocks_end h)" and e: "blocks_end h < 4294967296"
    and lk: "linked m 0 (xs @ (p, s, g) # ys)" using assms(1) by (simp_all add: links_def)
  note ar = tiles_around [OF tl]
  have rest: "?n + 9 + (s - sz - 9) = ?q" using assms(3) by simp
  have "tiles p ((p, sz, g) # (?n, s - sz - 9, True) # ys) (blocks_end h)"
    unfolding tiles.simps rest using ar(5) assms(2,3) by simp
  then have tl': "tiles (unat (start h)) ?bs (blocks_end h)" using ar(4) unfolding tiles_append by blast
  then have tln: "tiles (unat (start h)) ((xs @ [(p, sz, g)]) @ (?n, s - sz - 9, True) # ys) (blocks_end h)" by simp
  have cp: "clear_of p (xs @ (?n, s - sz - 9, True) # ys)" using tl' e by (rule tiles_clear)
  have cn: "clear_of ?n ((xs @ [(p, sz, g)]) @ ys)" using tln e by (rule tiles_clear)
  have H: "hdr m (of_nat p) = header_of (last_addr 0 xs) s g" using lk by (simp add: linked_append)
  have hs: "h_size (hdr m (of_nat p)) = of_nat s" by (simp add: H)
  have next_w: "of_nat p + HDR + of_nat s = (of_nat ?q :: u32)" by (simp add: HDR_def)
  have "(of_nat ?q :: u32) - of_nat (s - sz) = of_nat (?q - (s - sz))"
    using assms(3) by (intro of_nat_diff [symmetric]) simp
  moreover have "?q - (s - sz) = ?n" using assms(3) by simp
  ultimately have new_w: "(of_nat ?q :: u32) - of_nat (s - sz) = of_nat ?n" by simp
  have sizes: "(of_nat (s - sz) :: u32) - HDR = of_nat (s - sz - 9)" "(of_nat s :: u32) - of_nat (s - sz) = of_nat sz"
    using assms(3) of_nat_diff [of 9 "s - sz", where 'a = u32] of_nat_diff [of "s - sz" s, where 'a = u32]
    by (simp_all add: HDR_def)
  let ?m1 = "set_h_size m (of_nat ?n) (of_nat (s - sz - 9))"
  let ?m2 = "set_h_size ?m1 (of_nat p) (of_nat sz)"
  let ?m3 = "set_prev ?m2 (of_nat ?n) (of_nat p)"
  let ?m4 = "if hheader_isvalid (of_nat ?q) h then set_prev ?m3 (of_nat ?q) (of_nat ?n) else ?m3"
  have ap: "apart (of_nat ?n) (of_nat p)" "apart (of_nat p) (of_nat ?n)" using cn cp by simp_all
  have "(m', h') = (set_is_hole ?m4 (of_nat ?n) 1, index_insert ?m4 h (of_nat ?n))"
    using assms(5) [symmetric]
    by (simp only: heap_high_split_def Let_def hs next_w new_w sizes hdr_set_apart(2) [OF ap(1)])
  then have m': "m' = set_is_hole ?m4 (of_nat ?n) 1" and h': "h' = index_insert ?m4 h (of_nat ?n)"
    by (simp_all only: prod.inject)
  show "start h' = start h" "hp_size h' = hp_size h" by (simp_all add: h' index_insert_def)
  show "mset (ol_elems (index h')) = add_mset (of_nat ?n) (mset (ol_elems (index h)))"
    using ol.mset_ins [OF assms(4)] by (simp add: h' index_insert_def)
  have valid: "hheader_isvalid (of_nat ?q) h \<longleftrightarrow> ys \<noteq> []"
  proof (cases ys)
    case Nil
    then show ?thesis using ar(3,5) isvalid_of_nat [OF assms(1), of ?q] by simp
  next
    case (Cons b ys')
    obtain t k where "b = (?q, t, k)" using ar(5) Cons by (cases b) auto
    then have "?q + 9 + t \<le> blocks_end h" "1 \<le> t" using ar(5) tiles_le Cons by auto
    then show ?thesis using Cons isvalid_of_nat [OF assms(1), of ?q] by simp
  qed
  have "linked m' 0 ?bs"
  proof (cases ys)
    case Nil
    then have "m' = set_is_hole ?m3 (of_nat ?n) 1" using valid by (simp add: m')
    then show ?thesis
      using lk cp cn ap Nil by (auto simp: linked_append linked_clear hdr_set_apart H intro!: header_of_eqI simp del: of_nat_add)
  next
    case (Cons b ys')
    obtain t k where b: "b = (?q, t, k)" using ar(5) Cons by (cases b) auto
    have eq: "m' = set_is_hole (set_prev ?m3 (of_nat ?q) (of_nat ?n)) (of_nat ?n) 1"
      using valid Cons by (simp add: m')
    have "tiles (unat (start h)) ((xs @ [(p, sz, g), (?n, s - sz - 9, True)]) @ (?q, t, k) # ys') (blocks_end h)"
      using tl' by (simp add: Cons b)
    then have cq: "clear_of ?q ((xs @ [(p, sz, g), (?n, s - sz - 9, True)]) @ ys')" using e by (rule tiles_clear)
    show ?thesis
      using lk cp cn cq ap unfolding eq
      by (auto simp: Cons b linked_append linked_clear hdr_set_apart H intro!: header_of_eqI simp del: of_nat_add)
  qed
  then show "links h' m' ?bs" using tl' assms(1) by (simp add: links_def h' index_insert_def blocks_end_def)
  have "outside (of_nat r) (of_nat x)"
    if "r = ?n \<or> r = p \<or> ys \<noteq> [] \<and> r = ?q" "(w, t, k) \<in> set (xs @ (p, sz, g) # ys)" "w + 9 \<le> x" "x < w + 9 + t"
    for r w t k x
  proof -
    have "\<exists>t k. (?q, t, k) \<in> set ys" if "ys \<noteq> []" using that ar(5) by (cases ys) (auto, blast)
    then have "\<exists>t k. (r, t, k) \<in> set ?bs" using that(1) unfolding set_append list.set by blast
    moreover have "(w, t, k) \<in> set ?bs" using that(2) by auto
    ultimately show ?thesis using payload_outside [OF tl' e] that(3,4) by blast
  qed
  then show "keeps m m' (xs @ (p, sz, g) # ys)"
    by (auto intro!: keepsI simp: m' valid set_outside simp del: of_nat_add)
qed

lemma hole_index_from_found:
  assumes "x \<in> set (drop (unat i) (ol_elems l))"
  shows "unat (hole_index_from l x i) < unat (ol_size l) \<and> ol_array l (hole_index_from l x i) = x"
  using assms
proof (induction l x i rule: hole_index_from.induct)
  case (1 l x i)
  from "1.prems" have i: "unat i < unat (ol_size l)" by (cases "unat i < length (ol_elems l)") auto
  show ?case
  proof (cases "ol_array l i = x")
    case True
    with i show ?thesis by (subst hole_index_from.simps, subst hole_index_from.simps) (simp add: word_less_nat_alt)
  next
    case False
    have "drop (unat i) (ol_elems l) = ol_array l i # drop (unat (i + 1)) (ol_elems l)"
      using i unat_Suc_below [OF i] by (simp add: Cons_nth_drop_Suc [symmetric] nth_ol_elems ucast_id)
    with "1.prems" False have "x \<in> set (drop (unat (i + 1)) (ol_elems l))" by simp
    with "1.IH" i False have "unat (hole_index_from l x (i + 1)) < unat (ol_size l) \<and>
        ol_array l (hole_index_from l x (i + 1)) = x" by (simp add: word_less_nat_alt)
    then show ?thesis using i False by (subst hole_index_from.simps, subst hole_index_from.simps) (simp add: word_less_nat_alt)
  qed
qed

lemma heap_hole_index_found:
  assumes "x \<in> set (ol_elems (index h))"
  shows "unat (heap_hole_index h x) < length (ol_elems (index h))"
    and "ol_elems (index h) ! unat (heap_hole_index h x) = x"
  using hole_index_from_found [of x 0 "index h"] assms
  by (simp_all add: heap_hole_index_def nth_ol_elems ucast_id)

lemma links_next:
  assumes "links h m (xs @ (p, s, g) # ys)"
  shows "hheader_next m (of_nat p) = of_nat (p + 9 + s)"
    and "hheader_isvalid (of_nat (p + 9 + s)) h \<longleftrightarrow> ys \<noteq> []"
proof -
  have tl: "tiles (unat (start h)) (xs @ (p, s, g) # ys) (blocks_end h)"
    and lk: "linked m 0 (xs @ (p, s, g) # ys)" using assms(1) by (simp_all add: links_def)
  note ar = tiles_around [OF tl]
  show "hheader_next m (of_nat p) = of_nat (p + 9 + s)"
    using lk by (simp add: linked_append hheader_next_def HDR_def)
  show "hheader_isvalid (of_nat (p + 9 + s)) h \<longleftrightarrow> ys \<noteq> []"
  proof (cases ys)
    case Nil
    then show ?thesis using ar(3,5) isvalid_of_nat [OF assms(1), of "p + 9 + s"] by simp
  next
    case (Cons b ys')
    obtain t k where "b = (p + 9 + s, t, k)" using ar(5) Cons by (cases b) auto
    then have "p + 9 + s + 9 + t \<le> blocks_end h" "1 \<le> t" using ar(5) tiles_le Cons by auto
    then show ?thesis using Cons isvalid_of_nat [OF assms(1), of "p + 9 + s"] by simp
  qed
qed

lemma heap_merge_none:
  assumes "links h m (xs @ (p, s, g) # ys)" and "\<And>q t ys'. ys \<noteq> (q, t, True) # ys'"
  shows "heap_merge m h (of_nat p) = (m, h)"
proof (cases ys)
  case Nil
  then show ?thesis
    unfolding heap_merge_def Let_def links_next(1) [OF assms(1)] using links_next(2) [OF assms(1)] by simp
next
  case (Cons b ys')
  obtain q t k where b: "b = (q, t, k)" by (cases b)
  then have k: "k = False" using assms(2) [of q t ys'] Cons by simp
  have "q = p + 9 + s" "hdr m (of_nat q) = header_of p t k"
    using assms(1) by (auto simp: links_def tiles_append linked_append Cons b)
  then show ?thesis
    unfolding heap_merge_def Let_def links_next(1) [OF assms(1)] by (simp add: k del: of_nat_add)
qed

lemma links_merge:
  assumes "links h m (xs @ (p, s, g) # (q, t, True) # ys)" and "of_nat q \<in> set (ol_elems (index h))"
    and "heap_merge m h (of_nat p) = (m', h')"
  shows "links h' m' (xs @ (p, s + 9 + t, g) # ys)"
    and "keeps m m' (xs @ (p, s, g) # (q, t, True) # ys)"
    and "mset (ol_elems (index h')) = mset (ol_elems (index h)) - {#of_nat q#}"
    and "start h' = start h" and "hp_size h' = hp_size h"
proof -
  let ?bs = "xs @ (p, s, g) # (q, t, True) # ys" and ?r = "q + 9 + t"
  have tl: "tiles (unat (start h)) ?bs (blocks_end h)" and e: "blocks_end h < 4294967296"
    and lk: "linked m 0 ?bs" using assms(1) by (simp_all add: links_def)
  have q: "q = p + 9 + s" using tl by (auto simp: tiles_append)
  have l2: "links h m ((xs @ [(p, s, g)]) @ (q, t, True) # ys)" using assms(1) by simp
  have H: "hdr m (of_nat p) = header_of (last_addr 0 xs) s g" "hdr m (of_nat q) = header_of p t True"
    using lk by (simp_all add: linked_append)
  have cp: "clear_of p (xs @ (q, t, True) # ys)" using tl e by (rule tiles_clear)
  have nx: "hheader_next m (of_nat p) = of_nat q" using links_next(1) [OF assms(1)] by (simp add: q)
  have vx: "hheader_isvalid (of_nat q) h" using links_next(2) [OF assms(1)] by (simp only: q) simp
  let ?h = "h\<lparr>index := fst (ordlist_remove (index h) (heap_hole_index h (of_nat q)))\<rparr>"
  let ?m1 = "if ys \<noteq> [] then set_prev m (of_nat ?r) (of_nat p) else m"
  have hs1: "h_size (hdr ?m1 (of_nat p)) = of_nat s" "h_size (hdr ?m1 (of_nat q)) = of_nat t"
    if "ys \<noteq> [] \<Longrightarrow> apart (of_nat ?r) (of_nat p) \<and> apart (of_nat ?r) (of_nat q)"
    using that by (auto simp: hdr_set_apart H simp del: of_nat_add)
  have cr: "clear_of ?r ((xs @ [(p, s, g), (q, t, True)]) @ ys')" "hdr m (of_nat ?r) = header_of q w k"
    if "ys = (?r, w, k) # ys'" for w k ys'
  proof -
    have "tiles (unat (start h)) ((xs @ [(p, s, g), (q, t, True)]) @ (?r, w, k) # ys') (blocks_end h)"
      using tl that by simp
    then show "clear_of ?r ((xs @ [(p, s, g), (q, t, True)]) @ ys')" using e by (rule tiles_clear)
    show "hdr m (of_nat ?r) = header_of q w k" using lk by (simp add: that linked_append)
  qed
  have ys: "\<exists>w k ys'. ys = (?r, w, k) # ys'" if "ys \<noteq> []"
    using tl that by (cases ys) (auto simp: tiles_append)
  have far: "apart (of_nat ?r) (of_nat p) \<and> apart (of_nat ?r) (of_nat q)" if "ys \<noteq> []"
    using cr(1) ys [OF that] by auto
  have "of_nat s + (of_nat t + HDR) = (of_nat (s + 9 + t) :: u32)" by (simp add: HDR_def)
  then have res: "m' = set_h_size ?m1 (of_nat p) (of_nat (s + 9 + t))" "h' = ?h"
    using assms(3) vx links_next [OF l2] hs1 [OF far]
    unfolding heap_merge_def Let_def nx by (auto simp: H simp del: of_nat_add)
  show "start h' = start h" "hp_size h' = hp_size h" by (simp_all add: res)
  have "mset (ol_elems (fst (ordlist_remove (index h) (of_nat (unat (heap_hole_index h (of_nat q)))))))
      = mset (ol_elems (index h)) - {#of_nat q#}"
    using ol.mset_del [OF heap_hole_index_found(1) [OF assms(2)]] heap_hole_index_found(2) [OF assms(2)] by simp
  then show "mset (ol_elems (index h')) = mset (ol_elems (index h)) - {#of_nat q#}"
    by (simp add: res ucast_id)
  have rest: "p + 9 + (s + 9 + t) = ?r" by (simp add: q)
  have "tiles ?r ys (blocks_end h)" "tiles (unat (start h)) xs p"
    using tl by (auto simp: tiles_append q)
  moreover from this(1) have "tiles p ((p, s + 9 + t, g) # ys) (blocks_end h)"
    unfolding tiles.simps rest by simp
  ultimately have tl': "tiles (unat (start h)) (xs @ (p, s + 9 + t, g) # ys) (blocks_end h)"
    unfolding tiles_append by blast
  have "linked m' 0 (xs @ (p, s + 9 + t, g) # ys)"
  proof (cases "ys = []")
    case True
    then show ?thesis
      using lk cp by (auto simp: res linked_append linked_clear H intro!: header_of_eqI simp del: of_nat_add)
  next
    case False
    then obtain w k ys' where y: "ys = (?r, w, k) # ys'" using ys by blast
    show ?thesis
      using lk cp cr [OF y]
      by (auto simp: res y linked_append linked_clear hdr_set_apart H intro!: header_of_eqI simp del: of_nat_add)
  qed
  then show "links h' m' (xs @ (p, s + 9 + t, g) # ys)" using tl' assms(1) by (simp add: links_def res blocks_end_def)
  have "outside (of_nat r) (of_nat x)"
    if "r = p \<or> ys \<noteq> [] \<and> r = ?r" "(v, w, k) \<in> set ?bs" "v + 9 \<le> x" "x < v + 9 + w" for r v w k x
  proof -
    have "\<exists>w k. (?r, w, k) \<in> set ys" if "ys \<noteq> []"
      using ys [OF that] by (metis list.set_intros(1))
    then have "\<exists>w k. (r, w, k) \<in> set ?bs" using that(1) unfolding set_append list.set by blast
    then show ?thesis using payload_outside [OF tl e] that(2,3,4) by blast
  qed
  then show "keeps m m' ?bs"
    by (auto intro!: keepsI simp: res set_outside simp del: of_nat_add)
qed

subsection \<open>Allocation\<close>

lemma best_index_from_result:
  assumes "unat i \<le> unat (ol_size l)"
  shows "let j = best_index_from m l sz al i in unat i \<le> unat j \<and> unat j \<le> unat (ol_size l) \<and>
     (\<forall>k. unat i \<le> k \<and> k < unat j \<longrightarrow> \<not> hole_fits m sz al (ol_elems l ! k)) \<and>
     (unat j < unat (ol_size l) \<longrightarrow> hole_fits m sz al (ol_elems l ! unat j))"
  using assms
proof (induction m l sz al i rule: best_index_from.induct)
  case (1 m l sz al i)
  show ?case
  proof (cases "unat i < unat (ol_size l) \<and> \<not> hole_fits m sz al (ol_array l i)")
    case True
    then have step: "best_index_from m l sz al i = best_index_from m l sz al (i + 1)"
      by (subst best_index_from.simps) (simp add: word_less_nat_alt ordlist_get_def)
    have e: "ol_elems l ! unat i = ol_array l i" using True by (simp add: nth_ol_elems ucast_id)
    note sf = unat_Suc_below [of i "ol_size l"]
    let ?j = "best_index_from m l sz al (i + 1)"
    have IH: "unat (i + 1) \<le> unat ?j" "unat ?j \<le> unat (ol_size l)"
      "\<And>k. unat (i + 1) \<le> k \<Longrightarrow> k < unat ?j \<Longrightarrow> \<not> hole_fits m sz al (ol_elems l ! k)"
      "unat ?j < unat (ol_size l) \<Longrightarrow> hole_fits m sz al (ol_elems l ! unat ?j)"
      using "1.IH" True sf by (simp_all add: Let_def word_less_nat_alt ordlist_get_def)
    have "\<not> hole_fits m sz al (ol_elems l ! k)" if "unat i \<le> k" "k < unat ?j" for k
      using that IH(3) [of k] e True sf by (cases "k = unat i") simp_all
    then show ?thesis using IH sf True unfolding step by (simp add: Let_def)
  next
    case False
    then have "best_index_from m l sz al i = i"
      by (subst best_index_from.simps) (auto simp: word_less_nat_alt ordlist_get_def)
    then show ?thesis using False "1.prems" by (auto simp: Let_def nth_ol_elems ucast_id)
  qed
qed

text \<open>The bytes of the allocations in a map are the same in two states.\<close>

definition same_contents :: "(u32 \<rightharpoonup> u32) \<Rightarrow> mem \<Rightarrow> mem \<Rightarrow> bool" where
  "same_contents A m m' \<longleftrightarrow> (\<forall>q r i. A q = Some r \<longrightarrow> i < unat r \<longrightarrow> m' (q + of_nat i) = m (q + of_nat i))"

lemma used_simps [simp]:
  "used [] = {}" "used (xs @ ys) = used xs \<union> used ys"
  "used ((p, s, g) # bs) = (if g then used bs else insert (p, s) (used bs))"
  by (auto simp: used_def)

lemma recorded_insert:
  assumes rc: "recorded w bs" and "log_ok w'" and lg: "logged w' = (logged w)(of_nat (p + 9) \<mapsto> sz)"
    and fresh: "of_nat (p + 9) \<notin> dom (logged w)" and us: "used cs = insert (p, s') (used bs)"
    and "1 \<le> unat sz" and "unat sz \<le> s'"
  shows "recorded w' cs"
proof -
  have "logged w' (of_nat (a + 9)) = logged w (of_nat (a + 9))" if "(a, b) \<in> used bs" for a b
  proof -
    have "of_nat (a + 9) \<in> dom (logged w)" using rc that by (force simp: recorded_def simp del: of_nat_add)
    then have "(of_nat (a + 9) :: u32) \<noteq> of_nat (p + 9)" using fresh by metis
    then show ?thesis by (simp add: lg del: of_nat_add)
  qed
  then have "1 \<le> unat r \<and> unat r \<le> b" if "(a, b) \<in> used bs" "logged w' (of_nat (a + 9)) = Some r" for a b r
    using rc that by (auto simp: recorded_def simp del: of_nat_add)
  moreover have "logged w' (of_nat (p + 9)) = Some sz" by (simp add: lg del: of_nat_add)
  ultimately have "\<forall>(a, b) \<in> used cs. \<forall>r. logged w' (of_nat (a + 9)) = Some r \<longrightarrow> 1 \<le> unat r \<and> unat r \<le> b"
    using assms(6,7) unfolding us by (auto simp del: of_nat_add)
  moreover have "dom (logged w') = (\<lambda>(p, s). of_nat (p + 9)) ` used cs"
    using rc by (simp add: lg us recorded_def del: of_nat_add)
  ultimately show ?thesis using assms(2) by (simp add: recorded_def)
qed

lemma recorded_remove:
  assumes rc: "recorded w bs" and "log_ok w'" and lg: "logged w' = (logged w)(of_nat (p + 9) := None)"
    and us: "used bs = insert (p, s) (used cs)"
    and sep: "\<And>q t. (q, t) \<in> used cs \<Longrightarrow> (of_nat (q + 9) :: u32) \<noteq> of_nat (p + 9)"
  shows "recorded w' cs"
proof -
  have "dom (logged w') = (\<lambda>(p, s). of_nat (p + 9)) ` used cs"
    using rc sep unfolding lg recorded_def us by (auto simp del: of_nat_add)
  moreover have "1 \<le> unat r \<and> unat r \<le> b" if "(a, b) \<in> used cs" "logged w' (of_nat (a + 9)) = Some r" for a b r
  proof -
    have "logged w (of_nat (a + 9)) = Some r" using that(2) by (simp add: lg split: if_splits del: of_nat_add)
    then show ?thesis using rc that(1) unfolding recorded_def us by (auto simp del: of_nat_add)
  qed
  ultimately show ?thesis using assms(2) by (auto simp: recorded_def simp del: of_nat_add)
qed

lemma recorded_keeps:
  assumes "recorded w bs" and "keeps m m' cs" and "used bs \<subseteq> used cs"
  shows "same_contents (logged w) m m'"
  unfolding same_contents_def
proof (intro allI impI)
  fix q r i assume q: "logged w q = Some r" and i: "i < unat r"
  from q have "q \<in> dom (logged w)" by auto
  then obtain p s where p: "(p, s) \<in> used bs" "q = of_nat (p + 9)"
    using assms(1) by (auto simp: recorded_def simp del: of_nat_add)
  then have "unat r \<le> s" using assms(1) q by (auto simp: recorded_def simp del: of_nat_add)
  then have ran: "p + 9 \<le> p + 9 + i \<and> p + 9 + i < p + 9 + s" using i by simp
  have "(p, s, False) \<in> set cs" using p(1) assms(3) by (auto simp: used_def)
  then have "\<forall>x. p + 9 \<le> x \<and> x < p + 9 + s \<longrightarrow> m' (of_nat x) = m (of_nat x)"
    using assms(2) unfolding keeps_def by blast
  then have "m' (of_nat (p + 9 + i)) = m (of_nat (p + 9 + i))" using ran by blast
  then show "m' (q + of_nat i) = m (q + of_nat i)" by (simp add: p(2))
qed

lemma no_adjacent_used:
  "no_adjacent (xs @ (p, s, False) # ys) \<longleftrightarrow> no_adjacent xs \<and> no_adjacent ys"
  by (cases ys) (auto simp: no_adjacent_def successively_append_iff split: prod.splits)

lemma no_adjacent_around:
  assumes "no_adjacent (xs @ (p, s, True) # ys)"
  shows "no_adjacent xs" and "no_adjacent ys" and "ys \<noteq> [] \<Longrightarrow> \<not> snd (snd (hd ys))"
    and "xs \<noteq> [] \<Longrightarrow> \<not> snd (snd (last xs))"
  using assms by (cases ys; auto simp: no_adjacent_def successively_append_iff split: prod.splits)+

lemma no_adjacent_hole:
  assumes "no_adjacent xs" and "no_adjacent ys" and "ys \<noteq> [] \<Longrightarrow> \<not> snd (snd (hd ys))"
    and "xs \<noteq> [] \<Longrightarrow> \<not> snd (snd (last xs))"
  shows "no_adjacent (xs @ (p, s, True) # ys)"
  using assms by (cases ys) (auto simp: no_adjacent_def successively_append_iff split: prod.splits)

text \<open>Taking a hole and splitting off what is not needed.\<close>

definition take_hole :: "mem \<Rightarrow> heap_t \<Rightarrow> u32 \<Rightarrow> u32 \<Rightarrow> u32 \<Rightarrow> mem \<times> heap_t" where
  "take_hole m h i best sz =
     (let m1 = set_is_hole m best 0; h1 = h\<lparr>index := fst (ordlist_remove (index h) i)\<rparr>
      in if h_size (hdr m1 best) - sz > HDR
         then heap_high_split m1 h1 best (h_size (hdr m1 best) - sz) else (m1, h1))"

lemma take_hole_chain:
  assumes ch: "chain h m bs" and na: "no_adjacent bs" and "sz \<noteq> 0"
    and i: "unat i < unat (ol_size (index h))" and fits: "sz \<le> h_size (hdr m (ol_elems (index h) ! unat i))"
  obtains xs p s ys s' zs m' h' where "bs = xs @ (p, s, True) # ys" "ol_elems (index h) ! unat i = of_nat p"
    "take_hole m h i (of_nat p) sz = (m', h')"
    "chain h' m' (xs @ (p, s', False) # zs)" "no_adjacent (xs @ (p, s', False) # zs)" "used zs = used ys"
    "unat sz \<le> s'" "keeps m m' (xs @ ys)"
proof -
  let ?best = "ol_elems (index h) ! unat i"
  have ms: "mset (ol_elems (index h)) = mset (hole_addrs bs)" and lk: "links h m bs"
    using ch by (simp_all add: chain_def)
  have "?best \<in> set (ol_elems (index h))" using i by simp
  then have "?best \<in> set (hole_addrs bs)" using mset_eq_setD [OF ms] by simp
  then obtain p s where p: "(p, s, True) \<in> set bs" "?best = of_nat p" by (auto simp: set_hole_addrs)
  then obtain xs ys where bs: "bs = xs @ (p, s, True) # ys" by (meson split_list)
  have lk0: "links h m (xs @ (p, s, True) # ys)" using lk bs by simp
  let ?m1 = "set_is_hole m (of_nat p) 0" and ?h1 = "h\<lparr>index := fst (ordlist_remove (index h) i)\<rparr>"
  have lk1: "links ?h1 ?m1 (xs @ (p, s, False) # ys)"
    using links_mark(1) [OF lk0, of False] by (simp add: links_def blocks_end_def)
  have k1: "keeps m ?m1 (xs @ (p, s, True) # ys)" using links_mark(2) [OF lk0, of False] by simp
  have "mset (ol_elems (fst (ordlist_remove (index h) (of_nat (unat i))))) = mset (ol_elems (index h)) - {#?best#}"
    using i by (intro ol.mset_del) simp
  then have ms1: "mset (ol_elems (index ?h1)) = mset (hole_addrs (xs @ ys))"
    by (simp add: ms bs p(2) ucast_id)
  have e: "blocks_end h < 4294967296" and tl: "tiles (unat (start h)) bs (blocks_end h)"
    using lk by (simp_all add: links_def)
  have sle: "p + 9 + s \<le> blocks_end h" using tiles_mem [OF tl p(1)] by simp
  have hs: "h_size (hdr m (of_nat p)) = of_nat s" "h_size (hdr ?m1 (of_nat p)) = of_nat s"
    using linked_mem [of m 0 bs p s True] lk p(1) by (auto simp: links_def)
  have un: "unat (of_nat s :: u32) = s" using sle e by (simp add: unat_of_nat32)
  have szs: "unat sz \<le> s" "1 \<le> unat sz"
    using fits assms(3) by (simp_all add: p(2) hs word_le_nat_alt un Suc_le_eq unat_gt_0)
  have rem: "of_nat s - sz = of_nat (s - unat sz)"
    using of_nat_diff [OF szs(1), where 'a = u32] by (simp only: of_nat_unat ucast_id)
  have remu: "unat (of_nat (s - unat sz) :: u32) = s - unat sz" using sle e by (intro unat_of_nat32) linarith
  have tst: "of_nat s - sz > HDR \<longleftrightarrow> unat sz + 9 < s"
    unfolding rem word_less_nat_alt remu using szs by (auto simp: HDR_def)
  have nas: "no_adjacent xs" "no_adjacent ys" "ys \<noteq> [] \<Longrightarrow> \<not> snd (snd (hd ys))"
    using no_adjacent_around [of xs p s ys] na bs by simp_all
  show ?thesis
  proof (cases "unat sz + 9 < s")
    case False
    then have "take_hole m h i (of_nat p) sz = (?m1, ?h1)" using tst by (simp add: take_hole_def Let_def hs)
    moreover have "keeps m ?m1 (xs @ ys)" using k1 by (rule keeps_sub) auto
    moreover have "chain ?h1 ?m1 (xs @ (p, s, False) # ys)" using lk1 ms1 by (simp add: chain_def)
    ultimately show ?thesis using that [OF bs p(2)] szs nas by (simp add: no_adjacent_used)
  next
    case True
    obtain m' h' where hsp: "heap_high_split ?m1 ?h1 (of_nat p) (of_nat (s - unat sz)) = (m', h')"
      by fastforce
    have "unat (ol_size (index ?h1)) \<noteq> 4294967295"
    proof -
      have "unat (ol_size (index h)) \<noteq> 0" using i by simp
      then have "ol_size (index h) \<noteq> 0" by auto
      then have "unat (ol_size (index ?h1)) = unat (ol_size (index h)) - 1"
        by (simp add: ordlist_remove_def unat_pred)
      then show ?thesis using chain_room [OF ch] by simp
    qed
    note sp = links_split [OF lk1 szs(2) True this hsp]
    let ?zs = "(p + 9 + unat sz, s - unat sz - 9, True) # ys"
    have gt: "of_nat s - sz > HDR" using tst True by (rule iffD2)
    have "take_hole m h i (of_nat p) sz = (m', h')"
      unfolding take_hole_def Let_def hs if_P [OF gt] unfolding rem by (rule hsp)
    moreover have "keeps m m' (xs @ ys)"
      by (rule keeps_trans [OF keeps_sub [OF k1] keeps_sub [OF sp(2)]]) auto
    moreover have "chain h' m' (xs @ (p, unat sz, False) # ?zs)"
      using sp(1,3) ms1 by (simp add: chain_def)
    moreover have "no_adjacent ?zs" using no_adjacent_hole [of "[]" ys] nas by (simp add: no_adjacent_def)
    ultimately show ?thesis using that [OF bs p(2)] nas by (simp add: no_adjacent_used)
  qed
qed

lemma block_fits_32:
  assumes "tiles a bs e" and "e < 4294967296" and "(p, s, g) \<in> set bs" and "j \<le> s"
  shows "unat (of_nat (p + 9 + j) :: u32) = p + 9 + j"
  using tiles_mem [OF assms(1,3)] assms(2,4) by (intro unat_of_nat32) linarith

lemma payloads_disjoint:
  assumes "tiles a bs e" and "(p, s, g) \<in> set bs" and "(q, t, k) \<in> set bs" and "p \<noteq> q"
  shows "p + 9 + s \<le> q \<or> q + 9 + t \<le> p"
proof -
  obtain xs ys where bs: "bs = xs @ (p, s, g) # ys" using assms(2) by (meson split_list)
  show ?thesis using tiles_around(6,7) [OF assms(1) [unfolded bs]] assms(3,4) bs by fastforce
qed

lemma no_overlap:
  assumes tl: "tiles a bs e" "e < 4294967296" and p: "(p, s, g) \<in> set bs" and q: "(q, t, k) \<in> set bs"
    and "p \<noteq> q" and sz: "1 \<le> unat sz" "unat sz \<le> s"
    and r: "wptr r = of_nat (q + 9)" "1 \<le> unat (wsize r)" "unat (wsize r) \<le> t"
  shows "\<not> watch_overlap (of_nat (p + 9)) sz r"
proof -
  have last: "unat (of_nat (c + 9) + n - 1) = c + 9 + unat n - 1"
    if "(c, u, j) \<in> set bs" "1 \<le> unat n" "unat n \<le> u" for c u j and n :: u32
  proof -
    have "unat (of_nat (c + 9) :: u32) = c + 9" using block_fits_32 [OF tl that(1), of 0] by simp
    moreover have "c + 9 + unat n < 4294967296" using tiles_mem [OF tl(1) that(1)] tl(2) that(3) by linarith
    ultimately have u: "unat (of_nat (c + 9) + n) = c + 9 + unat n" using unat_add_nowrap by metis
    with that(2) have "of_nat (c + 9) + n \<noteq> 0" by (metis add_is_0 not_one_le_zero unsigned_0)
    from unat_pred [OF this] show ?thesis by (simp only: u)
  qed
  have base: "unat (of_nat (c + 9) :: u32) = c + 9" if "(c, u, j) \<in> set bs" for c u j
    using block_fits_32 [OF tl that, of 0] by simp
  show ?thesis
    using payloads_disjoint [OF tl(1) p q assms(5)] sz r(2,3)
    unfolding watch_overlap_def Let_def word_le_nat_alt r(1) last [OF p sz] last [OF q r(2,3)] base [OF p] base [OF q]
    by linarith
qed

text \<open>The outcome of an allocation on a consistent heap.\<close>

lemma heap_alloc_cases:
  assumes inv: "heap_inv st" and cap: "card (dom (allocations st)) < 1024"
  shows "\<exists>st' ptr. heap_alloc st sz False = Some (st', ptr) \<and> heap_inv st' \<and>
    (if sz = 0 \<or> (\<forall>p \<in> set (ol_elems (index (heap st))). h_size (hdr (hmem st) p) < sz) then ptr = 0 \<and> st' = st
     else ptr \<noteq> 0 \<and> ptr \<notin> dom (allocations st) \<and> allocations st' = (allocations st)(ptr \<mapsto> sz) \<and>
       same_contents (allocations st) (hmem st) (hmem st'))"
proof -
  let ?m = "hmem st" and ?h = "heap st" and ?w = "watcher st"
  obtain bs where ch: "chain ?h ?m bs" and na: "no_adjacent bs" and rc: "recorded ?w bs"
    using inv by (auto simp: heap_inv_def)
  note ok = heap_check_chain [OF ch na]
  let ?j = "best_index_from ?m (index ?h) sz False 0"
  have best: "unat ?j \<le> unat (ol_size (index ?h))"
    "\<And>k. k < unat ?j \<Longrightarrow> \<not> sz \<le> h_size (hdr ?m (ol_elems (index ?h) ! k))"
    "unat ?j < unat (ol_size (index ?h)) \<Longrightarrow> sz \<le> h_size (hdr ?m (ol_elems (index ?h) ! unat ?j))"
    using best_index_from_result [of 0 "index ?h" ?m sz False] by (simp_all add: Let_def hole_fits_def)
  consider "sz = 0" | "sz \<noteq> 0" "?j = ol_size (index ?h)" | "sz \<noteq> 0" "unat ?j < unat (ol_size (index ?h))"
    using best(1) by (fastforce simp: word_eq_by_unat)
  then show ?thesis
  proof cases
    case 1
    then show ?thesis using ok inv by (simp add: heap_alloc_def)
  next
    case 2
    then have "\<forall>p \<in> set (ol_elems (index ?h)). h_size (hdr ?m p) < sz"
      using best(2) by (fastforce simp: in_set_conv_nth not_le)
    then show ?thesis using 2 ok inv by (simp add: heap_alloc_def)
  next
    case 3
    obtain xs p s ys s' zs m' h' where bs: "bs = xs @ (p, s, True) # ys"
      and bp: "ol_elems (index ?h) ! unat ?j = of_nat p"
      and tk: "take_hole ?m ?h ?j (of_nat p) sz = (m', h')"
      and ch': "chain h' m' (xs @ (p, s', False) # zs)" and na': "no_adjacent (xs @ (p, s', False) # zs)"
      and us: "used zs = used ys" and s': "unat sz \<le> s'" and kp: "keeps ?m m' (xs @ ys)"
      using take_hole_chain [OF ch na 3(1,2) best(3) [OF 3(2)]] by metis
    let ?p = "of_nat (p + 9) :: u32" and ?cs = "xs @ (p, s', False) # zs"
    have tl: "tiles (unat (start ?h)) bs (blocks_end ?h)" "blocks_end ?h < 4294967296"
      using ch by (simp_all add: chain_def links_def)
    have tl': "tiles (unat (start h')) ?cs (blocks_end h')" "blocks_end h' < 4294967296"
      using ch' by (simp_all add: chain_def links_def)
    have sz1: "1 \<le> unat sz" using 3(1) by (simp add: Suc_le_eq unat_gt_0)
    have usub: "used bs = used (xs @ ys)" "used ?cs = insert (p, s') (used bs)" by (simp_all add: bs us)
    have p0: "unat ?p = p + 9" using block_fits_32 [OF tl'(1,2), of p s' False 0] by simp
    then have pn: "?p \<noteq> 0" by auto
    have other: "(q, t, False) \<in> set ?cs" "q \<noteq> p" if "(q, t) \<in> used bs" for q t
    proof -
      have "(q, t) \<in> used ?cs" using that usub(2) by blast
      then show "(q, t, False) \<in> set ?cs" by (simp add: used_def)
      have "(q, t, False) \<in> set xs \<or> (q, t, False) \<in> set ys" using that bs by (auto simp: used_def)
      then show "q \<noteq> p" using tiles_around(6,7) [OF tl(1) [unfolded bs]] by fastforce
    qed
    have fresh: "?p \<notin> dom (logged ?w)"
    proof
      assume "?p \<in> dom (logged ?w)"
      then obtain q t where q: "(q, t) \<in> used bs" "?p = of_nat (q + 9)" using rc by (auto simp: recorded_def simp del: of_nat_add)
      then have "p + 9 = q + 9" using p0 block_fits_32 [OF tl'(1,2) other(1) [OF q(1)], of 0] by (metis add.right_neutral le0)
      then show False using other(2) [OF q(1)] by simp
    qed
    have "\<not> watch_overlap ?p sz r" if r: "r \<in> set ?w" "wptr r \<noteq> 0" for r
    proof -
      have lg: "logged ?w (wptr r) = Some (wsize r)"
        using logged_eq_Some [of ?w "wptr r" "wsize r"] r rc by (cases r) (simp add: recorded_def log_ok_def)
      then have "wptr r \<in> dom (logged ?w)" by auto
      then obtain q t where q: "(q, t) \<in> used bs" "wptr r = of_nat (q + 9)" using rc by (auto simp: recorded_def simp del: of_nat_add)
      then have "1 \<le> unat (wsize r) \<and> unat (wsize r) \<le> t" using rc lg by (auto simp: recorded_def simp del: of_nat_add)
      then show ?thesis using no_overlap [OF tl'(1,2), of p s' False q t False sz r] other [OF q(1)] sz1 s' q(2) by simp
    qed
    then obtain w' where w': "heapwatch_alloc ?w ?p sz = Some w'" "log_ok w'" "logged w' = (logged ?w)(?p \<mapsto> sz)"
      using heapwatch_alloc_logs [of ?w ?p sz] rc pn 3(1) fresh cap by (auto simp: recorded_def allocations_def)
    let ?st' = "\<lparr>hmem = m', heap = h', watcher = w'\<rparr>"
    have "of_nat p + HDR = ?p" by (simp add: HDR_def)
    then have run: "heap_alloc st sz False = Some (?st', ?p)"
      using 3 ok heap_check_chain [OF ch' na'] w'(1) tk bp
      by (auto simp: heap_alloc_def take_hole_def Let_def ordlist_get_def nth_ol_elems ucast_id split: prod.splits)
    have "recorded w' ?cs"
      using rc w'(2,3) fresh usub(2) sz1 s' by (rule recorded_insert)
    then have "heap_inv ?st'" using ch' na' by (auto simp: heap_inv_def)
    moreover have "same_contents (allocations st) ?m m'"
      using recorded_keeps [OF rc kp] usub(1) by (simp add: allocations_def)
    moreover have "\<not> (\<forall>p \<in> set (ol_elems (index ?h)). h_size (hdr ?m p) < sz)"
      using best(3) [OF 3(2)] 3(2) by (metis length_ol_elems linorder_not_less nth_mem)
    ultimately show ?thesis using run 3(1) pn fresh w'(3) by (auto simp: allocations_def)
  qed
qed

subsection \<open>Freeing\<close>

lemma chain_merge:
  assumes "chain h m (xs @ (p, s, g) # (q, t, True) # ys)" and "heap_merge m h (of_nat p) = (m', h')"
  shows "chain h' m' (xs @ (p, s + 9 + t, g) # ys)" and "keeps m m' (xs @ (p, s, g) # (q, t, True) # ys)"
proof -
  have lk: "links h m (xs @ (p, s, g) # (q, t, True) # ys)"
    and ms: "mset (ol_elems (index h)) = mset (hole_addrs (xs @ (p, s, g) # (q, t, True) # ys))"
    using assms(1) by (simp_all add: chain_def)
  have "of_nat q \<in> set (ol_elems (index h))" using mset_eq_setD [OF ms] by simp
  note mg = links_merge [OF lk this assms(2)]
  show "chain h' m' (xs @ (p, s + 9 + t, g) # ys)" using mg(1,3) ms by (simp add: chain_def)
  show "keeps m m' (xs @ (p, s, g) # (q, t, True) # ys)" by (rule mg(2))
qed

text \<open>Marking a block in use as a hole and merging it with the hole after it.\<close>

lemma free_forward:
  assumes ch: "chain h m (xs @ (p, s, False) # ys)" and na: "no_adjacent (xs @ (p, s, False) # ys)"
    and mg: "heap_merge (set_is_hole m (of_nat p) 1) (index_insert (set_is_hole m (of_nat p) 1) h (of_nat p)) (of_nat p) = (m', h')"
  obtains s' zs where "chain h' m' (xs @ (p, s', True) # zs)" "no_adjacent xs" "no_adjacent zs"
    "zs \<noteq> [] \<Longrightarrow> \<not> snd (snd (hd zs))" "used zs = used ys" "keeps m m' (xs @ ys)"
proof -
  let ?m1 = "set_is_hole m (of_nat p) 1" let ?h1 = "index_insert ?m1 h (of_nat p)"
  have lk: "links h m (xs @ (p, s, False) # ys)" using ch by (simp add: chain_def)
  have "unat (ol_size (index h)) \<noteq> 4294967295" using chain_room [OF ch] by simp
  then have ms1: "mset (ol_elems (index ?h1)) = add_mset (of_nat p) (mset (hole_addrs (xs @ (p, s, False) # ys)))"
    using ch by (simp add: index_insert_def ol.mset_ins chain_def)
  have ch1: "chain ?h1 ?m1 (xs @ (p, s, True) # ys)"
    using links_mark(1) [OF lk, of True] ms1 by (simp add: chain_def links_def index_insert_def blocks_end_def)
  have k1: "keeps m ?m1 (xs @ ys)" using links_mark(2) [OF lk, of True] by (auto intro: keeps_sub)
  have nas: "no_adjacent xs" "no_adjacent ys" using na by (simp_all add: no_adjacent_used)
  show ?thesis
  proof (cases "\<exists>q t ys'. ys = (q, t, True) # ys'")
    case True
    then obtain q t ys' where ys: "ys = (q, t, True) # ys'" by blast
    have ch1': "chain ?h1 ?m1 (xs @ (p, s, True) # (q, t, True) # ys')" using ch1 ys by simp
    note cm = chain_merge [OF ch1' mg]
    have "no_adjacent ([] @ (q, t, True) # ys')" using nas(2) ys by simp
    note ar = no_adjacent_around [OF this]
    have "keeps m m' (xs @ ys)"
      by (rule keeps_trans [OF k1 keeps_sub [OF cm(2)]]) (auto simp: ys)
    then show ?thesis using that [OF cm(1)] nas(1) ar by (simp add: ys)
  next
    case False
    then have nh: "ys \<noteq> [] \<Longrightarrow> \<not> snd (snd (hd ys))" by (cases ys) auto
    have "heap_merge ?m1 ?h1 (of_nat p) = (?m1, ?h1)"
      using ch1 False by (intro heap_merge_none) (auto simp: chain_def)
    then have "m' = ?m1" "h' = ?h1" using mg by simp_all
    then show ?thesis using that [OF _ _ _ nh] ch1 nas k1 by simp
  qed
qed

lemma heap_free_cases:
  assumes inv: "heap_inv st" and live: "ptr \<in> dom (allocations st)"
  shows "\<exists>st'. heap_free st ptr = Some st' \<and> heap_inv st' \<and> allocations st' = (allocations st)(ptr := None) \<and>
    same_contents (allocations st') (hmem st) (hmem st')"
proof -
  let ?m = "hmem st" and ?h = "heap st" and ?w = "watcher st"
  obtain bs where ch: "chain ?h ?m bs" and na: "no_adjacent bs" and rc: "recorded ?w bs"
    using inv by (auto simp: heap_inv_def)
  obtain p s where p: "(p, s) \<in> used bs" "ptr = of_nat (p + 9)"
    using live rc by (auto simp: recorded_def allocations_def simp del: of_nat_add)
  then obtain xs ys where bs: "bs = xs @ (p, s, False) # ys" by (auto simp: used_def dest: split_list)
  have tl: "tiles (unat (start ?h)) bs (blocks_end ?h)" "blocks_end ?h < 4294967296"
    using ch by (simp_all add: chain_def links_def)
  obtain w' where w': "heapwatch_free ?w ptr = Some w'" "log_ok w'" "logged w' = (logged ?w)(ptr := None)"
    using heapwatch_free_logs [of ?w ptr] rc live by (auto simp: recorded_def allocations_def)
  let ?m1 = "set_is_hole ?m (of_nat p) 1" let ?h1 = "index_insert ?m1 ?h (of_nat p)"
  obtain m2 h2 where mg: "heap_merge ?m1 ?h1 (of_nat p) = (m2, h2)" by fastforce
  obtain s2 zs where ch2: "chain h2 m2 (xs @ (p, s2, True) # zs)" and nas: "no_adjacent xs" "no_adjacent zs"
    "zs \<noteq> [] \<Longrightarrow> \<not> snd (snd (hd zs))" and us: "used zs = used ys" and k2: "keeps ?m m2 (xs @ ys)"
    using free_forward [OF ch [unfolded bs] na [unfolded bs] mg] by metis
  have tl2: "tiles (unat (start h2)) (xs @ (p, s2, True) # zs) (blocks_end h2)" "1 < unat (start h2)"
    "blocks_end h2 < 4294967296" and lk2: "linked m2 0 (xs @ (p, s2, True) # zs)"
    using ch2 by (simp_all add: chain_def links_def)
  have pr: "prev (hdr m2 (of_nat p)) = of_nat (last_addr 0 xs)" using lk2 by (simp add: linked_append)
  let ?joined = "heap_merge_prev m2 h2 (of_nat p)"
  have "\<exists>m' h' cs. ?joined = (m', h') \<and> chain h' m' cs \<and> no_adjacent cs \<and> used cs = used (xs @ ys) \<and> keeps m2 m' (xs @ zs)"
    using tiles_around(4) [OF tl2(1)]
  proof (cases rule: last_addr_cases [of _ xs p 0])
    case 1
    then have "?joined = (m2, h2)" by (simp add: heap_merge_prev_def pr)
    moreover have "no_adjacent (xs @ (p, s2, True) # zs)" using nas 1 by (intro no_adjacent_hole) simp_all
    ultimately show ?thesis using ch2 us by (auto simp: keeps_def)
  next
    case (2 ws q t k)
    have H: "hdr m2 (of_nat q) = header_of (last_addr 0 ws) t k" using lk2 2 by (simp add: linked_append)
    have "q < 4294967296" using 2 tiles_around(3) [OF tl2(1)] tl2(3) by linarith
    then have "unat (of_nat q :: u32) = q" by (rule unat_of_nat32)
    then have q01: "(of_nat q :: u32) \<noteq> 0" "(of_nat q :: u32) \<noteq> 1" using 2 tl2(2) by fastforce+
    show ?thesis
    proof (cases k)
      case False
      then have "?joined = (m2, h2)" by (simp add: heap_merge_prev_def pr 2(2) H)
      moreover have "no_adjacent (xs @ (p, s2, True) # zs)"
        using nas False by (intro no_adjacent_hole) (simp_all add: 2(1))
      ultimately show ?thesis using ch2 us by (auto simp: keeps_def)
    next
      case True
      obtain m' h' where mg': "heap_merge m2 h2 (of_nat q) = (m', h')" by fastforce
      then have "?joined = (m', h')" using q01 True by (simp add: heap_merge_prev_def pr 2(2) H)
      have "chain h2 m2 (ws @ (q, t, True) # (p, s2, True) # zs)" using ch2 2(1) True by simp
      note cm = chain_merge [OF this mg']
      have "no_adjacent (ws @ (q, t, True) # [])" using nas(1) 2(1) True by simp
      then have "no_adjacent (ws @ (q, t + 9 + s2, True) # zs)"
        using no_adjacent_around(1,4) nas(2,3) by (intro no_adjacent_hole)
      moreover have "keeps m2 m' (xs @ zs)" using cm(2) by (rule keeps_sub) (auto simp: 2(1) True)
      moreover have "used (ws @ (q, t + 9 + s2, True) # zs) = used (xs @ ys)" by (simp add: 2(1) us True)
      ultimately show ?thesis using cm(1) \<open>?joined = (m', h')\<close> by blast
    qed
  qed
  then obtain m' h' cs where bk: "?joined = (m', h')" and ch': "chain h' m' cs" and na': "no_adjacent cs"
    and ucs: "used cs = used (xs @ ys)" and k': "keeps m2 m' (xs @ zs)" by blast
  let ?st' = "\<lparr>hmem = m', heap = h', watcher = w'\<rparr>"
  have blk: "ptr - HDR = of_nat p" and pn: "ptr \<noteq> 0"
    using p(2) live by (auto simp: HDR_def allocations_def dom_logged)
  have run: "heap_free st ptr = Some ?st'"
    using heap_check_chain [OF ch na] w'(1) pn mg bk heap_check_chain [OF ch' na']
    by (simp add: heap_free_def blk Let_def)
  have sep: "(of_nat (q + 9) :: u32) \<noteq> of_nat (p + 9)" "(q, t) \<in> used bs" if q: "(q, t) \<in> used (xs @ ys)" for q t
  proof -
    show qb: "(q, t) \<in> used bs" using that by (auto simp: bs)
    have "(q, t, False) \<in> set xs \<or> (q, t, False) \<in> set ys" using q by (auto simp: used_def)
    then have "q \<noteq> p" using tiles_around(6,7) [OF tl(1) [unfolded bs]] by fastforce
    moreover have "unat (of_nat (q + 9) :: u32) = q + 9" "unat (of_nat (p + 9) :: u32) = p + 9"
      using block_fits_32 [OF tl, of q t False 0] block_fits_32 [OF tl, of p s False 0] qb p(1)
      by (simp_all add: used_def del: of_nat_add)
    ultimately show "(of_nat (q + 9) :: u32) \<noteq> of_nat (p + 9)" by (metis add_right_cancel)
  qed
  have rc': "recorded w' cs"
  proof (rule recorded_remove [OF rc w'(2)])
    show "logged w' = (logged ?w)(of_nat (p + 9) := None)" using w'(3) p(2) by simp
    show "used bs = insert (p, s) (used cs)" by (simp add: ucs bs)
    show "(of_nat (q + 9) :: u32) \<noteq> of_nat (p + 9)" if "(q, t) \<in> used cs" for q t
      using sep(1) that ucs by blast
  qed
  let ?us = "filter (\<lambda>(q, t, g). \<not> g) (xs @ ys)"
  have "set ?us \<subseteq> set (xs @ ys)" "set ?us \<subseteq> set (xs @ zs)"
    using us by (auto simp: used_def set_eq_iff)
  then have "keeps ?m m' ?us"
    using keeps_trans [OF keeps_sub [OF k2] keeps_sub [OF k']] by blast
  moreover have "used cs \<subseteq> used ?us" by (auto simp: ucs) (auto simp: used_def)
  ultimately have "same_contents (logged w') ?m m'" using recorded_keeps [OF rc'] by blast
  then show ?thesis
    using run rc' ch' na' w'(3) by (auto simp: heap_inv_def allocations_def)
qed

lemma heap_free_unknown:
  assumes "heap_inv st" and "ptr \<noteq> 0" and "ptr \<notin> dom (allocations st)"
  shows "heap_free st ptr = None"
  using assms heapwatch_free_unknown [of ptr "watcher st"] heap_check_chain
  by (auto simp: heap_free_def heap_inv_def allocations_def)

subsection \<open>The contract of the allocator\<close>

text \<open>What the kernel relies on when it calls \<open>kmalloc\<close> and \<open>kfree\<close>: from a consistent state, with
  room in the allocation log, an allocation does not panic, gives a new block or the null pointer,
  and no call disturbs the bytes of the allocations in force.\<close>

locale allocator =
  fixes ok :: "'s \<Rightarrow> bool"
    and live :: "'s \<Rightarrow> u32 \<rightharpoonup> u32"
    and bytes :: "'s \<Rightarrow> mem"
    and alloc :: "'s \<Rightarrow> u32 \<Rightarrow> ('s \<times> u32) option"
    and free :: "'s \<Rightarrow> u32 \<Rightarrow> 's option"
  assumes alloc_law: "ok s \<Longrightarrow> card (dom (live s)) < 1024 \<Longrightarrow> \<exists>s' p. alloc s n = Some (s', p) \<and> ok s' \<and>
      (p = 0 \<and> live s' = live s \<or> p \<noteq> 0 \<and> p \<notin> dom (live s) \<and> live s' = (live s)(p \<mapsto> n)) \<and>
      same_contents (live s) (bytes s) (bytes s')"
    and free_law: "ok s \<Longrightarrow> p \<in> dom (live s) \<Longrightarrow> \<exists>s'. free s p = Some s' \<and> ok s' \<and>
      live s' = (live s)(p := None) \<and> same_contents (live s') (bytes s) (bytes s')"

text \<open>A client of the allocator: it asks for blocks and gives back the one at some place of the list
  of those it holds. \<open>None\<close> is a panic.\<close>

datatype request = Get u32 | Give_back nat

fun run_client ::
  "('s \<Rightarrow> u32 \<Rightarrow> ('s \<times> u32) option) \<Rightarrow> ('s \<Rightarrow> u32 \<Rightarrow> 's option) \<Rightarrow> 's \<Rightarrow> (u32 \<times> u32) list \<Rightarrow> request list
     \<Rightarrow> ('s \<times> (u32 \<times> u32) list) option" where
  "run_client alloc free s held [] = Some (s, held)"
| "run_client alloc free s held (Get n # rs) = do {
     (s, p) \<leftarrow> alloc s n;
     run_client alloc free s (if p = 0 then held else (p, n) # held) rs
   }"
| "run_client alloc free s held (Give_back i # rs) =
     (if i < length held then do {
        s \<leftarrow> free s (fst (held ! i));
        run_client alloc free s (take i held @ drop (Suc i) held) rs
      } else run_client alloc free s held rs)"

text \<open>The most blocks the client can hold at once.\<close>

definition requests_fit :: "(u32 \<times> u32) list \<Rightarrow> request list \<Rightarrow> bool" where
  "requests_fit held rs \<longleftrightarrow> length held + length (filter (\<lambda>r. case r of Get _ \<Rightarrow> True | _ \<Rightarrow> False) rs) \<le> 1024"

lemma run_client_keeps:
  assumes "\<And>s n s' p. P s \<Longrightarrow> alloc s n = Some (s', p) \<Longrightarrow> P s'" and "\<And>s p s'. P s \<Longrightarrow> free s p = Some s' \<Longrightarrow> P s'"
  shows "run_client alloc free s held rs = Some (s', held') \<Longrightarrow> P s \<Longrightarrow> P s'"
proof (induction rs arbitrary: s held)
  case (Cons r rs)
  show ?case
  proof (cases r)
    case (Get n)
    then obtain s1 p where a: "alloc s n = Some (s1, p)" "run_client alloc free s1 (if p = 0 then held else (p, n) # held) rs = Some (s', held')"
      using Cons.prems(1) by (auto simp: Option.bind_eq_Some_conv)
    from Cons.IH [OF a(2) assms(1) [OF Cons.prems(2) a(1)]] show ?thesis .
  next
    case (Give_back i)
    then show ?thesis
      using Cons.IH Cons.prems assms(2) by (cases "i < length held") (auto simp: Option.bind_eq_Some_conv)
  qed
qed simp

context allocator begin

lemma run_client_law:
  assumes "ok s" and "live s = map_of held" and "distinct (List.map fst held)" and "requests_fit held rs"
  shows "\<exists>s' held'. run_client alloc free s held rs = Some (s', held') \<and> ok s' \<and>
    live s' = map_of held' \<and> distinct (List.map fst held')"
  using assms
proof (induction rs arbitrary: s held)
  case (Cons r rs)
  show ?case
  proof (cases r)
    case (Get n)
    have "card (dom (live s)) \<le> length held"
      using card_length [of "List.map fst held"] by (simp add: Cons.prems(2) dom_map_of_conv_image_fst)
    then have "card (dom (live s)) < 1024" using Cons.prems(4) by (simp add: requests_fit_def Get)
    then obtain s' p where al: "alloc s n = Some (s', p)" "ok s'"
      "p = 0 \<and> live s' = live s \<or> p \<noteq> 0 \<and> p \<notin> dom (live s) \<and> live s' = (live s)(p \<mapsto> n)"
      using alloc_law [OF Cons.prems(1)] by blast
    let ?held = "if p = 0 then held else (p, n) # held"
    have "live s' = map_of ?held" "distinct (List.map fst ?held)"
      using al(3) Cons.prems(2,3) by (auto simp: dom_map_of_conv_image_fst)
    moreover have "requests_fit ?held rs" using Cons.prems(4) by (simp add: requests_fit_def Get)
    ultimately show ?thesis using Cons.IH [OF al(2), of ?held] by (simp add: Get al(1))
  next
    case (Give_back i)
    show ?thesis
    proof (cases "i < length held")
      case False
      then show ?thesis using Cons.IH [OF Cons.prems(1-3)] Cons.prems(4) by (simp add: Give_back requests_fit_def)
    next
      case True
      let ?held = "take i held @ drop (Suc i) held"
      note rem = map_of_remove_nth [OF True Cons.prems(3)]
      have "fst (held ! i) \<in> dom (live s)"
        using True by (simp add: Cons.prems(2) dom_map_of_conv_image_fst)
      then obtain s' where s': "free s (fst (held ! i)) = Some s'" "ok s'"
        "live s' = (live s)(fst (held ! i) := None)"
        using free_law [OF Cons.prems(1)] by blast
      have "requests_fit ?held rs" using Cons.prems(4) True by (auto simp: Give_back requests_fit_def)
      moreover have "live s' = map_of ?held" using s'(3) rem(1) Cons.prems(2) by simp
      ultimately show ?thesis using Cons.IH [OF s'(2), of ?held] rem(2) s'(1) True by (simp add: Give_back)
    qed
  qed
qed simp

end

interpretation km: allocator heap_inv allocations hmem kmalloc kfree
proof
  fix s n
  assume "heap_inv s" and "card (dom (allocations s)) < 1024"
  from heap_alloc_cases [OF this, of n] obtain s' p where r: "heap_alloc s n False = Some (s', p)" "heap_inv s'"
    "if n = 0 \<or> (\<forall>p \<in> set (ol_elems (index (heap s))). h_size (hdr (hmem s) p) < n) then p = 0 \<and> s' = s
     else p \<noteq> 0 \<and> p \<notin> dom (allocations s) \<and> allocations s' = (allocations s)(p \<mapsto> n) \<and>
       same_contents (allocations s) (hmem s) (hmem s')"
    by blast
  then have "(p = 0 \<and> allocations s' = allocations s \<or>
       p \<noteq> 0 \<and> p \<notin> dom (allocations s) \<and> allocations s' = (allocations s)(p \<mapsto> n)) \<and>
      same_contents (allocations s) (hmem s) (hmem s')"
    by (auto simp: same_contents_def split: if_splits)
  with r(1,2) show "\<exists>s' p. kmalloc s n = Some (s', p) \<and> heap_inv s' \<and>
      (p = 0 \<and> allocations s' = allocations s \<or>
       p \<noteq> 0 \<and> p \<notin> dom (allocations s) \<and> allocations s' = (allocations s)(p \<mapsto> n)) \<and>
      same_contents (allocations s) (hmem s) (hmem s')"
    by (auto simp: kmalloc_def)
next
  fix s p
  assume "heap_inv s" and "p \<in> dom (allocations s)"
  from heap_free_cases [OF this] show "\<exists>s'. kfree s p = Some s' \<and> heap_inv s' \<and>
      allocations s' = (allocations s)(p := None) \<and> same_contents (allocations s') (hmem s) (hmem s')"
    by (simp add: kfree_def)
qed

end
