(* ===== verification/Kheapthms.thy ===== *)
theory Kheapthms
  imports Kheapinv
begin

text \<open>
  The properties of the kernel heap: what a client of \<open>kmalloc\<close> and \<open>kfree\<close> can rely on, for
  every sequence of its calls and for each call, from the state \<open>heap_init\<close> leaves.
\<close>

subsection \<open>The initial heap\<close>

lemma heap_init_fields:
  fixes m w array s sz index_size ro supv
  defines "st \<equiv> heap_init m w array s sz index_size ro supv"
  shows "watcher st = []" and "hp_size (heap st) = sz"
    and "hmem st = set_prev (set_h_size (set_is_hole m (start (heap st)) 1) (start (heap st)) sz) (start (heap st)) 0"
    and "mset (ol_elems (index (heap st))) = {#start (heap st)#}"
proof -
  show "watcher st = []" "hp_size (heap st) = sz"
    "hmem st = set_prev (set_h_size (set_is_hole m (start (heap st)) 1) (start (heap st)) sz) (start (heap st)) 0"
    by (simp_all add: st_def heap_init_def Let_def heapwatch_init_def index_insert_def)
  have "unat (ol_size (ordlist_place array index_size ORDER_ASCENDING)) \<noteq> 4294967295"
    by (simp add: ordlist_place_def)
  then show "mset (ol_elems (index (heap st))) = {#start (heap st)#}"
    by (simp add: st_def heap_init_def Let_def index_insert_def ol.mset_ins)
qed

lemma heap_init_inv:
  assumes st: "st = heap_init m w array s sz index_size ro supv"
    and "1 < unat (start (heap st))" and "blocks_end (heap st) < 4294967296" and "sz \<noteq> 0"
  shows "heap_inv st" and "allocations st = Map.empty"
proof -
  note f = heap_init_fields [of m w array s sz index_size ro supv, folded st]
  let ?a = "unat (start (heap st))"
  let ?bs = "[(?a, unat sz, True)]"
  have "1 \<le> unat sz" using assms(4) by (simp add: Suc_le_eq unat_gt_0)
  then have "tiles ?a ?bs (blocks_end (heap st))" by (simp add: blocks_end_def f(2))
  moreover have "linked (hmem st) 0 ?bs"
    by (auto simp: f(3) ucast_id intro!: header_of_eqI)
  ultimately have "chain (heap st) (hmem st) ?bs"
    using assms(2,3) f(4) by (simp add: chain_def links_def ucast_id)
  then show "heap_inv st"
    unfolding heap_inv_def
    by (intro exI [of _ ?bs]) (simp add: no_adjacent_def recorded_def log_ok_def f(1))
  show "allocations st = Map.empty" by (simp add: allocations_def f(1))
qed

text \<open>A heap of 4096 bytes whose index starts at 1 MB.\<close>

definition small_heap :: heap_st where
  "small_heap = heap_init (\<lambda>_. 0) [] (\<lambda>_. 0) 0x100000 4096 0x1000 0 1"

lemma small_heap_start: "start (heap small_heap) = 0x102000"
  by (simp add: small_heap_def heap_init_def Let_def index_insert_def)

lemma small_heap_size: "hp_size (heap small_heap) = 4096"
  by (simp add: small_heap_def heap_init_fields)

lemma small_heap_inv: "heap_inv small_heap" and small_heap_empty: "allocations small_heap = Map.empty"
  using heap_init_inv [OF small_heap_def] small_heap_start small_heap_size by (simp_all add: blocks_end_def)

lemma small_heap_hole:
  "ol_elems (index (heap small_heap)) = [0x102000] \<and> h_size (hdr (hmem small_heap) 0x102000) = 4096"
proof -
  note f = heap_init_fields [of "\<lambda>_. 0" "[]" "\<lambda>_. 0" "0x100000" 4096 "0x1000" 0 1, folded small_heap_def]
  have "ol_elems (index (heap small_heap)) = [0x102000]" using f(4) by (simp add: small_heap_start)
  then show ?thesis using f(3) by (simp add: small_heap_start)
qed

text \<open>The same heap with two blocks in use and a hole after them.\<close>

definition two_blocks :: heap_st where
  "two_blocks = small_heap\<lparr>
     hmem := put_hdr (put_hdr (put_hdr (\<lambda>_. 0) 0x102000 \<lparr>is_hole = 0, h_size = 100, prev = 0\<rparr>)
       0x10206d \<lparr>is_hole = 0, h_size = 90, prev = 0x102000\<rparr>)
       0x1020d0 \<lparr>is_hole = 1, h_size = 3888, prev = 0x10206d\<rparr>,
     heap := heap small_heap\<lparr>index := \<lparr>ol_size = 1, ol_max_size = 0x1000, ol_array = (\<lambda>_. 0x1020d0),
       ol_order = ORDER_ASCENDING\<rparr>\<rparr>,
     watcher := [\<lparr>wptr = 0x102009, wsize = 100\<rparr>, \<lparr>wptr = 0x102076, wsize = 90\<rparr>]\<rparr>"

lemma two_blocks_live: "allocations two_blocks = [0x102076 \<mapsto> 90, 0x102009 \<mapsto> 100]"
  by (simp add: two_blocks_def allocations_def)

lemma two_blocks_inv: "heap_inv two_blocks"
proof -
  let ?bs = "[(0x102000, 100, False), (0x10206d, 90, False), (0x1020d0, 3888, True)]"
  have st: "unat (start (heap two_blocks)) = 0x102000" "blocks_end (heap two_blocks) = 0x102000 + 4096 + 9"
    using small_heap_start small_heap_size by (simp_all add: two_blocks_def blocks_end_def)
  have "apart 0x1020d0 (0x102000 :: u32)" "apart 0x1020d0 (0x10206d :: u32)" "apart 0x10206d (0x102000 :: u32)"
    by (simp_all add: apart_def outside_def)
  then have "linked (hmem two_blocks) 0 ?bs"
    by (simp add: two_blocks_def hdr_set_apart header_of_def)
  moreover have "tiles 0x102000 ?bs (0x102000 + 4096 + 9)" by simp
  moreover have "mset (ol_elems (index (heap two_blocks))) = mset (hole_addrs ?bs)"
    by (simp add: two_blocks_def ol_elems_def)
  ultimately have "chain (heap two_blocks) (hmem two_blocks) ?bs"
    unfolding chain_def links_def st by simp
  moreover have "no_adjacent ?bs" by (simp add: no_adjacent_def)
  moreover have "recorded (watcher two_blocks) ?bs"
    by (auto simp: recorded_def log_ok_def two_blocks_def)
  ultimately show ?thesis by (auto simp: heap_inv_def)
qed

text \<open>Where the allocations of a consistent heap lie.\<close>

lemma allocation_block:
  assumes "heap_inv st" and "chain (heap st) (hmem st) bs" and "recorded (watcher st) bs" and "allocations st r = Some k"
  shows "\<exists>a s. (a, s, False) \<in> set bs \<and> unat r = a + 9 \<and> unat k \<le> s"
proof -
  have tl: "tiles (unat (start (heap st))) bs (blocks_end (heap st))" "blocks_end (heap st) < 4294967296"
    using assms(2) by (simp_all add: chain_def links_def)
  have "r \<in> dom (logged (watcher st))" using assms(4) by (auto simp: allocations_def)
  then obtain a s where a: "(a, s) \<in> used bs" "r = of_nat (a + 9)"
    using assms(3) by (auto simp: recorded_def simp del: of_nat_add)
  then have b: "(a, s, False) \<in> set bs" by (simp add: used_def)
  have "unat k \<le> s" using a assms(3,4) by (auto simp: recorded_def allocations_def simp del: of_nat_add)
  then show ?thesis using a b block_fits_32 [OF tl b, of 0] by auto
qed

lemma allocations_within:
  assumes "heap_inv st" and "allocations st p = Some k"
  shows "unat (start (heap st)) + 9 \<le> unat p \<and> unat p + unat k \<le> blocks_end (heap st)"
proof -
  obtain bs where bs: "chain (heap st) (hmem st) bs" "recorded (watcher st) bs"
    using assms(1) by (auto simp: heap_inv_def)
  have tl: "tiles (unat (start (heap st))) bs (blocks_end (heap st))"
    using bs(1) by (simp add: chain_def links_def)
  obtain a s where a: "(a, s, False) \<in> set bs" "unat p = a + 9" "unat k \<le> s"
    using allocation_block [OF assms(1) bs assms(2)] by blast
  then show ?thesis using tiles_mem [OF tl a(1)] by linarith
qed


text \<open>A consistent heap without allocations is one hole.\<close>

lemma one_hole_if_empty:
  assumes "heap_inv st" and "allocations st = Map.empty"
  shows "ol_elems (index (heap st)) = [start (heap st)] \<and>
    hdr (hmem st) (start (heap st)) = \<lparr>is_hole = 1, h_size = hp_size (heap st), prev = 0\<rparr>"
proof -
  obtain bs where ch: "chain (heap st) (hmem st) bs" and na: "no_adjacent bs" and rc: "recorded (watcher st) bs"
    using assms(1) by (auto simp: heap_inv_def)
  have tl: "tiles (unat (start (heap st))) bs (blocks_end (heap st))"
    using ch by (simp_all add: chain_def links_def)
  have "used bs = {}" using rc assms(2) by (auto simp: recorded_def allocations_def)
  then have holes: "g" if "(p, s, g) \<in> set bs" for p s g using that by (cases g) (auto simp: used_def)
  obtain s g ys where bs: "bs = (unat (start (heap st)), s, g) # ys"
    using tl by (cases bs) (auto simp: blocks_end_def)
  have "ys = []"
  proof (cases ys)
    case (Cons b ys')
    then show ?thesis using na bs holes by (cases b) (auto simp: no_adjacent_def)
  qed
  moreover have g using holes bs by auto
  ultimately have one: "bs = [(unat (start (heap st)), unat (hp_size (heap st)), True)]"
    using tl bs by (simp add: blocks_end_def)
  have "mset (ol_elems (index (heap st))) = {#start (heap st)#}"
    using ch one by (simp add: chain_def ucast_id)
  moreover have "hdr (hmem st) (start (heap st)) = header_of 0 (unat (hp_size (heap st))) True"
    using ch one by (simp add: chain_def links_def ucast_id)
  ultimately show ?thesis by (simp add: header_of_def ucast_id)
qed

lemma kmalloc_extent: "kmalloc st n = Some (st', p) \<Longrightarrow> start (heap st') = start (heap st) \<and> hp_size (heap st') = hp_size (heap st)"
  by (auto simp: kmalloc_def heap_alloc_def heap_high_split_def index_insert_def Let_def Option.bind_eq_Some_conv
      split: if_splits)



subsection \<open>Clients never panic the kernel\<close>

text \<open>C1. From a consistent heap, a client that asks \<open>kmalloc\<close> for blocks and gives back to \<open>kfree\<close>
  blocks it holds, in any order and with never more than 1024 requests outstanding, runs to its
  end without a panic of the consistency walk, the overlap check or the double-free check, and
  holds exactly the allocations the heap has recorded.\<close>

theorem kmalloc_clients_never_panic:
  assumes "heap_inv st" and "allocations st = map_of held" and "distinct (List.map fst held)"
    and "requests_fit held rs"
  shows "\<exists>st' held'. run_client kmalloc kfree st held rs = Some (st', held') \<and> heap_inv st' \<and>
    allocations st' = map_of held' \<and> distinct (List.map fst held')"
  using assms by (rule km.run_client_law)

theorem kmalloc_clients_never_panic_witness:
  "\<exists>st' held'. run_client kmalloc kfree small_heap [] [Get 100, Get 8, Give_back 1, Get 5000, Give_back 0] = Some (st', held')
     \<and> heap_inv st' \<and> allocations st' = map_of held' \<and> distinct (List.map fst held')"
  by (rule kmalloc_clients_never_panic [OF small_heap_inv])
    (simp_all add: small_heap_empty requests_fit_def)





text \<open>The first hole is nine bytes too long: a block of the whole size is handed out, and it ends nine
  bytes behind the end that \<open>hheader_isvalid\<close> and \<open>heap_check\<close> use.\<close>

theorem heap_block_past_end:
  assumes "st = heap_init m w array s sz index_size ro supv" and "1 < unat (start (heap st))"
    and "unat (start (heap st)) + unat sz + 9 < 4294967296" and "sz \<noteq> 0"
  shows "\<exists>st' p. kmalloc st sz = Some (st', p) \<and> unat p + unat sz = unat (start (heap st)) + unat (hp_size (heap st)) + 9"
proof -
  have sz: "hp_size (heap st) = sz" unfolding assms(1) by (rule heap_init_fields)
  then have "blocks_end (heap st) < 4294967296" using assms(3) by (simp add: blocks_end_def)
  note init = heap_init_inv [OF assms(1,2) this assms(4)]
  have hole: "ol_elems (index (heap st)) = [start (heap st)]" "h_size (hdr (hmem st) (start (heap st))) = sz"
    using one_hole_if_empty [OF init] sz by simp_all
  obtain st' p where a: "kmalloc st sz = Some (st', p)" "heap_inv st'" "allocations st' = [p \<mapsto> sz]"
    using heap_alloc_cases [OF init(1), of sz] init(2) assms(4) hole by (auto simp: kmalloc_def)
  have "allocations st' p = Some sz" by (simp add: a(3))
  from allocations_within [OF a(2) this] kmalloc_extent [OF a(1)] a(1) sz show ?thesis
    by (auto simp: blocks_end_def)
qed

subsection \<open>Each call\<close>

text \<open>C2. On a consistent heap with room in the log, \<open>kmalloc\<close> returns and keeps the heap
  consistent. It gives the null pointer and changes nothing exactly when no byte is asked for or no
  hole of the index is large enough; otherwise it gives a new address, records it with the size
  asked for, and leaves the bytes of every other allocation as they were.\<close>

theorem kmalloc_outcome:
  assumes "heap_inv st" and "card (dom (allocations st)) < 1024"
  shows "\<exists>st' ptr. kmalloc st sz = Some (st', ptr) \<and> heap_inv st' \<and>
    (if sz = 0 \<or> (\<forall>p \<in> set (ol_elems (index (heap st))). h_size (hdr (hmem st) p) < sz) then ptr = 0 \<and> st' = st
     else ptr \<noteq> 0 \<and> ptr \<notin> dom (allocations st) \<and> allocations st' = (allocations st)(ptr \<mapsto> sz) \<and>
       same_contents (allocations st) (hmem st) (hmem st'))"
  unfolding kmalloc_def using assms by (rule heap_alloc_cases)

theorem kmalloc_outcome_witness:
  "(\<exists>st' ptr. kmalloc small_heap 4096 = Some (st', ptr) \<and> heap_inv st' \<and> allocations st' = [ptr \<mapsto> 4096])
   \<and> kmalloc small_heap 4097 = Some (small_heap, 0)"
  using kmalloc_outcome [OF small_heap_inv, of 4096] kmalloc_outcome [OF small_heap_inv, of 4097]
  by (auto simp: small_heap_empty small_heap_hole)

text \<open>C3. Giving an allocation in force back to \<open>kfree\<close> returns, keeps the heap consistent, erases
  that allocation and no other, and leaves the bytes of the others as they were.\<close>

theorem kfree_outcome:
  assumes "heap_inv st" and "ptr \<in> dom (allocations st)"
  shows "\<exists>st'. kfree st ptr = Some st' \<and> heap_inv st' \<and> allocations st' = (allocations st)(ptr := None) \<and>
    same_contents (allocations st') (hmem st) (hmem st')"
  unfolding kfree_def using assms by (rule heap_free_cases)

theorem kfree_outcome_witness:
  "\<exists>st'. kfree two_blocks 0x102009 = Some st' \<and> heap_inv st' \<and> allocations st' = [0x102076 \<mapsto> 90]"
  using kfree_outcome [OF two_blocks_inv, of "0x102009"] by (auto simp: two_blocks_live)

text \<open>Freeing the null pointer changes nothing, and freeing any other address that is not an
  allocation in force panics.\<close>

theorem kfree_unknown:
  assumes "heap_inv st" and "ptr \<notin> dom (allocations st)"
  shows "kfree st ptr = (if ptr = 0 then Some st else None)"
proof (cases "ptr = 0")
  case True
  then show ?thesis
    using assms(1) heap_check_chain by (auto simp: kfree_def heap_free_def heapwatch_free_def heap_inv_def)
next
  case False
  then show ?thesis using heap_free_unknown [OF assms(1) False assms(2)] by (simp add: kfree_def)
qed

theorem kfree_unknown_witness: "kfree two_blocks 0x10200a = None"
  using kfree_unknown [OF two_blocks_inv, of "0x10200a"] by (simp add: two_blocks_live)

text \<open>\<open>heap_init\<close> leaves a consistent heap without allocations, whenever the area it computes
  does not wrap around the address space.\<close>

theorem heap_init_consistent:
  assumes "st = heap_init m w array s sz index_size ro supv"
    and "1 < unat (start (heap st))" and "blocks_end (heap st) < 4294967296" and "sz \<noteq> 0"
  shows "heap_inv st \<and> allocations st = Map.empty"
  using heap_init_inv [OF assms] by blast

theorem heap_init_consistent_witness: "heap_inv small_heap \<and> allocations small_heap = Map.empty"
  using heap_init_consistent [OF small_heap_def] small_heap_start small_heap_size by (simp add: blocks_end_def)

text \<open>While the index is ordered by size, the search of \<open>heap_alloc\<close> is a best fit: no other
  hole that is large enough is smaller than the one it takes.\<close>

theorem best_index_is_best_fit:
  assumes "ordered_by (\<lambda>p. uint (h_size (hdr m p))) ORDER_ASCENDING (ol_elems l)"
    and "best_index_from m l sz False 0 = j" and "j \<noteq> ol_size l" and "p \<in> set (ol_elems l)"
    and "sz \<le> h_size (hdr m p)"
  shows "sz \<le> h_size (hdr m (ol_elems l ! unat j)) \<and> h_size (hdr m (ol_elems l ! unat j)) \<le> h_size (hdr m p)"
proof -
  have r: "unat j \<le> unat (ol_size l)" "\<And>k. k < unat j \<Longrightarrow> \<not> sz \<le> h_size (hdr m (ol_elems l ! k))"
    "unat j < unat (ol_size l) \<Longrightarrow> sz \<le> h_size (hdr m (ol_elems l ! unat j))"
    using best_index_from_result [of 0 l m sz False] assms(2) by (simp_all add: Let_def hole_fits_def)
  have j: "unat j < unat (ol_size l)" using r(1) assms(3) by (auto simp: word_eq_by_unat le_less)
  obtain k where k: "k < length (ol_elems l)" "p = ol_elems l ! k" using assms(4) by (auto simp: in_set_conv_nth)
  have "unat j \<le> k" using r(2) assms(5) k(2) by (meson not_le)
  have "h_size (hdr m (ol_elems l ! unat j)) \<le> h_size (hdr m p)"
  proof (cases "unat j = k")
    case False
    then have "uint (h_size (hdr m (ol_elems l ! unat j))) \<le> uint (h_size (hdr m (ol_elems l ! k)))"
      using assms(1) k(1) \<open>unat j \<le> k\<close> sorted_wrt_nth_less by (fastforce simp: ordered_by_def)
    then show ?thesis by (simp add: k(2) word_le_def)
  qed (simp add: k)
  then show ?thesis using r(3) j by blast
qed

theorem best_index_is_best_fit_witness:
  "100 \<le> h_size (hdr (hmem small_heap) (ol_elems (index (heap small_heap)) !
     unat (best_index_from (hmem small_heap) (index (heap small_heap)) 100 False 0)))"
proof -
  have l: "ol_elems (index (heap small_heap)) = [0x102000]" using small_heap_hole by simp
  then have "ol_size (index (heap small_heap)) \<noteq> 0" by (metis length_0_conv length_ol_elems list.distinct(1) unsigned_0)
  then have "ol_array (index (heap small_heap)) 0 = 0x102000"
    using l nth_ol_elems [of 0 "index (heap small_heap)"] by (simp add: unat_gt_0)
  then have "best_index_from (hmem small_heap) (index (heap small_heap)) 100 False 0 = 0"
    using small_heap_hole \<open>ol_size (index (heap small_heap)) \<noteq> 0\<close>
    by (subst best_index_from.simps) (simp add: hole_fits_def ordlist_get_def word_gt_0)
  then show ?thesis
    using best_index_is_best_fit [of "hmem small_heap" "index (heap small_heap)" 100 0 "0x102000"] small_heap_hole
      \<open>ol_size (index (heap small_heap)) \<noteq> 0\<close> by (simp add: ordered_by_def)
qed

end
