(* ===== verification/Kqueue.thy ===== *)
theory Kqueue
  imports Prelude
begin

text \<open>
  \<open>src/kqueue.c\<close>: a linked queue. The store maps the address of each element that is
  allocated to its fields; an operation that allocates takes the address the heap gave it.
  Following a pointer to no element, or freeing one twice, is \<open>None\<close>.
\<close>

record 'a kqueue_ele =
  nxt :: u32
  val :: 'a

type_synonym 'a qstore = "u32 \<rightharpoonup> 'a kqueue_ele"

record kqueue =
  head :: u32
  tail :: u32
  qsize :: u32

definition kqueue_new :: kqueue where
  "kqueue_new = \<lparr>head = 0, tail = 0, qsize = 0\<rparr>"

definition kqueue_push :: "'a qstore \<Rightarrow> kqueue \<Rightarrow> u32 \<Rightarrow> 'a \<Rightarrow> ('a qstore \<times> kqueue) option" where
  "kqueue_push st q ele v =
     (let st = st(ele \<mapsto> \<lparr>nxt = 0, val = v\<rparr>)
      in if qsize q \<noteq> 0 then do {
           t \<leftarrow> st (tail q);
           Some (st(tail q \<mapsto> t\<lparr>nxt := ele\<rparr>), q\<lparr>tail := ele, qsize := qsize q + 1\<rparr>)
         }
         else Some (st, q\<lparr>head := ele, tail := ele, qsize := qsize q + 1\<rparr>))"

definition kqueue_pop :: "'a qstore \<Rightarrow> kqueue \<Rightarrow> (('a qstore \<times> kqueue) \<times> 'a) option" where
  "kqueue_pop st q = do {
     ele \<leftarrow> st (head q);
     let st = st(head q := None);
     let q = q\<lparr>head := nxt ele\<rparr>;
     let q = (if nxt ele = 0 then q\<lparr>tail := 0\<rparr> else q);
     Some ((st, q\<lparr>qsize := qsize q - 1\<rparr>), val ele)
   }"

definition kqueue_peek :: "'a qstore \<Rightarrow> kqueue \<Rightarrow> 'a option" where
  "kqueue_peek st q = do { ele \<leftarrow> st (head q); Some (val ele) }"

text \<open>The loop of \<open>kqueue_clear\<close>: the element after the freed one is taken to be that element.\<close>

partial_function (option) clear_loop :: "'a qstore \<Rightarrow> u32 \<Rightarrow> 'a qstore option" where
  "clear_loop st ele =
     (if ele = 0 then Some st
      else do {
        let n = ele;
        _ \<leftarrow> st ele;
        clear_loop (st(ele := None)) n
      })"

definition kqueue_clear :: "'a qstore \<Rightarrow> kqueue \<Rightarrow> ('a qstore \<times> kqueue) option" where
  "kqueue_clear st q = do {
     st \<leftarrow> clear_loop st (head q);
     Some (st, q\<lparr>head := 0, tail := 0, qsize := 0\<rparr>)
   }"

subsection \<open>The list a queue holds\<close>

fun nodes :: "'a qstore \<Rightarrow> u32 \<Rightarrow> u32 list \<Rightarrow> 'a list \<Rightarrow> bool" where
  "nodes st a [] [] = (a = 0)"
| "nodes st a (p # ps) (x # xs) = (a = p \<and> p \<noteq> 0 \<and> (\<exists>n. st p = Some \<lparr>nxt = n, val = x\<rparr> \<and> nodes st n ps xs))"
| "nodes st a _ _ = False"

definition queue_is :: "'a qstore \<Rightarrow> kqueue \<Rightarrow> 'a list \<Rightarrow> bool" where
  "queue_is st q xs \<longleftrightarrow> (\<exists>ps. nodes st (head q) ps xs \<and> distinct ps \<and>
     tail q = (if ps = [] then 0 else last ps) \<and> unat (qsize q) = length xs)"

lemma nodes_length: "nodes st a ps xs \<Longrightarrow> length ps = length xs"
  by (induction st a ps xs rule: nodes.induct) auto

lemma nodes_dom: "nodes st a ps xs \<Longrightarrow> set ps \<subseteq> dom st"
  by (induction st a ps xs rule: nodes.induct) auto

lemma nodes_frame: "nodes st a ps xs \<Longrightarrow> (\<And>p. p \<in> set ps \<Longrightarrow> st' p = st p) \<Longrightarrow> nodes st' a ps xs"
  by (induction st a ps xs rule: nodes.induct) auto

lemma nodes_extend:
  assumes "nodes st a ps xs" and "distinct ps" and "ps \<noteq> []" and "p \<noteq> 0" and "p \<notin> set ps"
    and "st p = Some \<lparr>nxt = 0, val = x\<rparr>" and "st (last ps) = Some t"
  shows "nodes (st(last ps \<mapsto> t\<lparr>nxt := p\<rparr>)) a (ps @ [p]) (xs @ [x])"
  using assms
proof (induction ps arbitrary: a xs)
  case (Cons q qs)
  then obtain y ys n where xs: "xs = y # ys" and n: "st q = Some \<lparr>nxt = n, val = y\<rparr>" "nodes st n qs ys" "a = q" "q \<noteq> 0"
    by (cases xs) auto
  show ?case
  proof (cases "qs = []")
    case True
    then have "ys = []" "n = 0" using n(2) by (cases ys; simp)+
    then show ?thesis using Cons.prems True n xs by auto
  next
    case False
    have "nodes (st(last qs \<mapsto> t\<lparr>nxt := p\<rparr>)) n (qs @ [p]) (ys @ [x])"
      using Cons.prems False n(2) by (intro Cons.IH) auto
    moreover have "last qs \<noteq> q" using Cons.prems(2) False by (metis distinct.simps(2) last_in_set)
    ultimately show ?thesis using n False xs by (simp add: fun_upd_def)
  qed
qed simp

lemma kqueue_new_is: "queue_is st kqueue_new []"
  by (auto simp: queue_is_def kqueue_new_def intro: exI [of _ "[]"])

lemma kqueue_push_is:
  assumes "queue_is st q xs" and "ele \<noteq> 0" and "ele \<notin> dom st" and "length xs < 4294967295"
  shows "\<exists>st' q'. kqueue_push st q ele v = Some (st', q') \<and> queue_is st' q' (xs @ [v]) \<and>
    dom st' = insert ele (dom st) \<and> (\<forall>p. p \<in> dom st \<longrightarrow> map_option val (st' p) = map_option val (st p))"
proof -
  obtain ps where ps: "nodes st (head q) ps xs" "distinct ps" "tail q = (if ps = [] then 0 else last ps)"
    "unat (qsize q) = length xs" using assms(1) by (auto simp: queue_is_def)
  have new: "ele \<notin> set ps" using nodes_dom [OF ps(1)] assms(3) by blast
  let ?st = "st(ele \<mapsto> \<lparr>nxt = 0, val = v\<rparr>)"
  have old: "nodes ?st (head q) ps xs" using ps(1) new by (auto intro: nodes_frame)
  have sz: "unat (qsize q + 1) = length (xs @ [v])"
    using ps(4) assms(4) unat_add_nowrap [of "qsize q" 1] by simp
  show ?thesis
  proof (cases "ps = []")
    case True
    then have "xs = []" using nodes_length [OF ps(1)] by simp
    then have "qsize q = 0" using ps(4) by (simp add: unat_eq_0)
    then have "kqueue_push st q ele v = Some (?st, q\<lparr>head := ele, tail := ele, qsize := qsize q + 1\<rparr>)"
      by (simp add: kqueue_push_def)
    moreover have "queue_is ?st (q\<lparr>head := ele, tail := ele, qsize := qsize q + 1\<rparr>) (xs @ [v])"
      unfolding queue_is_def using assms(2) sz by (intro exI [of _ "[ele]"]) (simp add: \<open>xs = []\<close>)
    ultimately show ?thesis using assms(3) by auto
  next
    case False
    then have "xs \<noteq> []" using nodes_length [OF ps(1)] by auto
    then have q0: "qsize q \<noteq> 0" using ps(4) by auto
    obtain t where t: "?st (last ps) = Some t" "st (last ps) = Some t"
      using False nodes_dom [OF ps(1)] new by (metis domD fun_upd_other last_in_set subsetD)
    let ?st' = "?st(last ps \<mapsto> t\<lparr>nxt := ele\<rparr>)" and ?q' = "q\<lparr>tail := ele, qsize := qsize q + 1\<rparr>"
    have "kqueue_push st q ele v = Some (?st', ?q')"
      using q0 ps(3) False t(1) by (simp add: kqueue_push_def Let_def)
    moreover have "nodes ?st' (head q) (ps @ [ele]) (xs @ [v])"
      using old ps(2) False assms(2) new t(1) by (intro nodes_extend) simp_all
    then have "queue_is ?st' ?q' (xs @ [v])"
      unfolding queue_is_def using ps(2) new sz by (intro exI [of _ "ps @ [ele]"]) simp
    moreover have "last ps \<in> dom st" using t(2) by auto
    ultimately show ?thesis using t(2) assms(3) by auto
  qed
qed

lemma kqueue_pop_is:
  assumes "queue_is st q (x # xs)"
  shows "\<exists>st' q'. kqueue_pop st q = Some ((st', q'), x) \<and> queue_is st' q' xs \<and> dom st' = dom st - {head q}
    \<and> kqueue_peek st q = Some x"
proof -
  obtain ps where ps: "nodes st (head q) ps (x # xs)" "distinct ps" "tail q = (if ps = [] then 0 else last ps)"
    "unat (qsize q) = Suc (length xs)" using assms by (auto simp: queue_is_def)
  then obtain p qs where p: "ps = p # qs" by (cases ps) auto
  then obtain n where n: "st p = Some \<lparr>nxt = n, val = x\<rparr>" "nodes st n qs xs" "head q = p" "p \<noteq> 0"
    using ps(1) by auto
  have rest: "nodes (st(p := None)) n qs xs" using n(2) ps(2) p by (auto intro: nodes_frame)
  have n0: "n = 0 \<longleftrightarrow> qs = []" using n(2) by (cases qs; cases xs) auto
  have "qsize q \<noteq> 0" using ps(4) by auto
  then have sz: "unat (qsize q - 1) = length xs" using ps(4) by (simp add: unat_pred)
  let ?q = "q\<lparr>head := n, tail := (if n = 0 then 0 else tail q), qsize := qsize q - 1\<rparr>"
  have "kqueue_pop st q = Some ((st(p := None), ?q), x)" using n by (simp add: kqueue_pop_def Let_def)
  moreover have "queue_is (st(p := None)) ?q xs"
    unfolding queue_is_def using rest ps(2,3) p n0 sz by (intro exI [of _ qs]) simp
  moreover have "kqueue_peek st q = Some x" using n by (simp add: kqueue_peek_def)
  ultimately show ?thesis using n(3) by auto
qed

text \<open>Clearing a queue that holds anything never succeeds: the loop frees the first element, takes
  it for the next one, and frees it again, which the heap watcher answers with a panic.\<close>

theorem kqueue_clear_double_frees:
  assumes "queue_is st q xs"
  shows "kqueue_clear st q = (if xs = [] then Some (st, q\<lparr>head := 0, tail := 0, qsize := 0\<rparr>) else None)"
proof (cases xs)
  case Nil
  then have "head q = 0" using assms by (auto simp: queue_is_def elim: nodes.elims)
  then show ?thesis using Nil by (simp add: kqueue_clear_def clear_loop.simps)
next
  case (Cons y ys)
  then have "head q \<noteq> 0" using assms by (auto simp: queue_is_def elim: nodes.elims)
  moreover have "clear_loop (st(p := None)) p = None" if "p \<noteq> 0" for p
    using that by (simp add: clear_loop.simps)
  ultimately have "clear_loop st (head q) = None"
    by (subst clear_loop.simps) (simp add: Let_def bind_eq_None_conv)
  then show ?thesis using Cons by (simp add: kqueue_clear_def)
qed

theorem kqueue_clear_double_frees_witness:
  "kqueue_clear [8 \<mapsto> \<lparr>nxt = 0, val = 3 :: nat\<rparr>] \<lparr>head = 8, tail = 8, qsize = 1\<rparr> = None"
proof -
  have "queue_is [8 \<mapsto> \<lparr>nxt = 0, val = 3 :: nat\<rparr>] \<lparr>head = 8, tail = 8, qsize = 1\<rparr> [3]"
    unfolding queue_is_def by (intro exI [of _ "[8]"]) simp
  then show ?thesis using kqueue_clear_double_frees by fastforce
qed

subsection \<open>The contract of a queue\<close>

text \<open>What the locks and pipes rely on: what goes in comes out in the same order. \<open>avail s p\<close>: the
  heap can give the address \<open>p\<close> for one more element.\<close>

locale fifo =
  fixes holdsq :: "'s \<Rightarrow> 'x list \<Rightarrow> bool"
    and avail :: "'s \<Rightarrow> 'p \<Rightarrow> bool"
    and enq :: "'s \<Rightarrow> 'p \<Rightarrow> 'x \<Rightarrow> 's option"
    and deq :: "'s \<Rightarrow> ('s \<times> 'x) option"
  assumes enq_law: "holdsq s xs \<Longrightarrow> avail s p \<Longrightarrow> length xs < 4294967295 \<Longrightarrow> \<exists>s'. enq s p x = Some s' \<and> holdsq s' (xs @ [x])
      \<and> (\<forall>p'. avail s p' \<longrightarrow> p' \<noteq> p \<longrightarrow> avail s' p')"
    and deq_law: "holdsq s (x # xs) \<Longrightarrow> \<exists>s'. deq s = Some (s', x) \<and> holdsq s' xs"

fun enq_all :: "('s \<Rightarrow> 'p \<Rightarrow> 'x \<Rightarrow> 's option) \<Rightarrow> 's \<Rightarrow> ('p \<times> 'x) list \<Rightarrow> 's option" where
  "enq_all enq s [] = Some s"
| "enq_all enq s ((p, x) # pxs) = do { s \<leftarrow> enq s p x; enq_all enq s pxs }"

fun deq_many :: "('s \<Rightarrow> ('s \<times> 'x) option) \<Rightarrow> 's \<Rightarrow> nat \<Rightarrow> ('s \<times> 'x list) option" where
  "deq_many deq s 0 = Some (s, [])"
| "deq_many deq s (Suc n) = do { (s, x) \<leftarrow> deq s; (s, xs) \<leftarrow> deq_many deq s n; Some (s, x # xs) }"

context fifo begin

lemma enq_all_law:
  assumes "holdsq s xs" and "\<And>p. p \<in> fst ` set pxs \<Longrightarrow> avail s p" and "distinct (List.map fst pxs)"
    and "length xs + length pxs < 4294967295"
  shows "\<exists>s'. enq_all enq s pxs = Some s' \<and> holdsq s' (xs @ List.map snd pxs)"
  using assms
proof (induction pxs arbitrary: s xs)
  case (Cons px pxs)
  obtain p x where px: "px = (p, x)" by (cases px)
  obtain s1 where s1: "enq s p x = Some s1" "holdsq s1 (xs @ [x])" "\<And>p'. avail s p' \<Longrightarrow> p' \<noteq> p \<Longrightarrow> avail s1 p'"
    using enq_law [OF Cons.prems(1), of p x] Cons.prems(2,4) px by auto
  have "avail s1 p'" if "p' \<in> fst ` set pxs" for p'
    using that s1(3) Cons.prems(2,3) px by auto
  then show ?case using Cons.IH [OF s1(2)] Cons.prems(3,4) s1(1) px by auto
qed simp

lemma deq_many_law: "holdsq s (xs @ ys) \<Longrightarrow> \<exists>s'. deq_many deq s (length xs) = Some (s', xs) \<and> holdsq s' ys"
proof (induction xs arbitrary: s)
  case (Cons x xs)
  then obtain s1 where "deq s = Some (s1, x)" "holdsq s1 (xs @ ys)" using deq_law by fastforce
  then show ?case using Cons.IH [of s1] by auto
qed simp

lemma first_in_first_out:
  assumes "holdsq s []" and "\<And>p. p \<in> fst ` set pxs \<Longrightarrow> avail s p" and "distinct (List.map fst pxs)"
    and "length pxs < 4294967295"
  shows "\<exists>s1 s2. enq_all enq s pxs = Some s1 \<and> deq_many deq s1 (length pxs) = Some (s2, List.map snd pxs) \<and> holdsq s2 []"
  using enq_all_law [OF assms(1-3)] assms(4) deq_many_law [of _ "List.map snd pxs" "[]"] by fastforce

end

text \<open>The queue with its store as one state.\<close>

fun kq_holds :: "'a qstore \<times> kqueue \<Rightarrow> 'a list \<Rightarrow> bool" where
  "kq_holds (st, q) xs = queue_is st q xs"

fun kq_avail :: "'a qstore \<times> kqueue \<Rightarrow> u32 \<Rightarrow> bool" where
  "kq_avail (st, q) p = (p \<noteq> 0 \<and> p \<notin> dom st)"

fun kq_push :: "'a qstore \<times> kqueue \<Rightarrow> u32 \<Rightarrow> 'a \<Rightarrow> ('a qstore \<times> kqueue) option" where
  "kq_push (st, q) p x = kqueue_push st q p x"

fun kq_pop :: "'a qstore \<times> kqueue \<Rightarrow> (('a qstore \<times> kqueue) \<times> 'a) option" where
  "kq_pop (st, q) = kqueue_pop st q"

interpretation kq: fifo kq_holds kq_avail kq_push kq_pop
proof
  fix s :: "'a qstore \<times> kqueue" and xs p x
  assume s: "kq_holds s xs" "kq_avail s p" "length xs < 4294967295"
  obtain st q where sq: "s = (st, q)" by (cases s)
  obtain st' q' where r: "kqueue_push st q p x = Some (st', q')" "queue_is st' q' (xs @ [x])" "dom st' = insert p (dom st)"
    using kqueue_push_is [of st q xs p x] s sq by auto
  have "kq_avail (st', q') p'" if "kq_avail s p'" "p' \<noteq> p" for p' using that r(3) sq by auto
  then show "\<exists>s'. kq_push s p x = Some s' \<and> kq_holds s' (xs @ [x]) \<and> (\<forall>p'. kq_avail s p' \<longrightarrow> p' \<noteq> p \<longrightarrow> kq_avail s' p')"
    using r sq by (intro exI [of _ "(st', q')"]) simp
next
  fix s :: "'a qstore \<times> kqueue" and x xs
  assume s: "kq_holds s (x # xs)"
  obtain st q where sq: "s = (st, q)" by (cases s)
  then show "\<exists>s'. kq_pop s = Some (s', x) \<and> kq_holds s' xs"
    using kqueue_pop_is [of st q x xs] s by fastforce
qed

text \<open>Values pushed to an empty queue, at addresses the heap gives, are popped in the order they were
  pushed, and then the queue is empty again.\<close>

theorem kqueue_first_in_first_out:
  assumes "queue_is st q []" and "distinct (List.map fst pxs)" and "fst ` set pxs \<inter> insert 0 (dom st) = {}"
    and "length pxs < 4294967295"
  shows "\<exists>s1 s2. enq_all kq_push (st, q) pxs = Some s1 \<and>
    deq_many kq_pop s1 (length pxs) = Some (s2, List.map snd pxs) \<and> kq_holds s2 []"
  using assms by (intro kq.first_in_first_out) auto

theorem kqueue_first_in_first_out_witness:
  "\<exists>s1 s2. enq_all kq_push (Map.empty, kqueue_new) [(8, 5 :: nat), (24, 6)] = Some s1 \<and>
    deq_many kq_pop s1 (length [(8 :: u32, 5 :: nat), (24, 6)]) = Some (s2, List.map snd [(8 :: u32, 5 :: nat), (24, 6)]) \<and> kq_holds s2 []"
  by (rule kqueue_first_in_first_out [OF kqueue_new_is]) simp_all

end
