(* ===== verification/Cells.thy ===== *)
theory Cells
  imports Prelude
begin

text \<open>
  Buffers from the kernel heap as the containers use them: a list of cells, \<open>None\<close> in a cell
  that has not been written since it was allocated. Access outside a buffer, or to a cell
  without a value, has no result. The kernel code takes it that its allocations succeed.
\<close>

type_synonym 'a cells = "'a option list"

definition fresh :: "nat \<Rightarrow> 'a cells" where
  "fresh n = replicate n None"

definition rd :: "'a cells \<Rightarrow> nat \<Rightarrow> 'a option" where
  "rd c i = (if i < length c then c ! i else None)"

definition wr :: "'a cells \<Rightarrow> nat \<Rightarrow> 'a \<Rightarrow> 'a cells option" where
  "wr c i x = (if i < length c then Some (c[i := Some x]) else None)"

text \<open>\<open>memcpy\<close> between two buffers, to a place in the second, and a move inside one buffer, which is
  \<open>memshift\<close>.\<close>

definition copy_cells :: "'a cells \<Rightarrow> 'a cells \<Rightarrow> nat \<Rightarrow> nat \<Rightarrow> 'a cells option" where
  "copy_cells dst src at n =
     (if n \<le> length src \<and> at + n \<le> length dst then Some (take at dst @ take n src @ drop (at + n) dst) else None)"

definition move_cells :: "'a cells \<Rightarrow> nat \<Rightarrow> nat \<Rightarrow> nat \<Rightarrow> 'a cells option" where
  "move_cells c src dst n =
     (if src + n \<le> length c \<and> dst + n \<le> length c
      then Some (take dst c @ take n (drop src c) @ drop (dst + n) c) else None)"

text \<open>A buffer whose first cells hold a list.\<close>

definition holds :: "'a cells \<Rightarrow> 'a list \<Rightarrow> bool" where
  "holds c xs \<longleftrightarrow> length xs \<le> length c \<and> take (length xs) c = List.map Some xs"

lemma length_fresh [simp]: "length (fresh n) = n"
  by (simp add: fresh_def)

lemma holds_Nil [simp]: "holds c []"
  by (simp add: holds_def)

lemma holds_iff: "holds c xs \<longleftrightarrow> (\<exists>rest. c = List.map Some xs @ rest)"
proof
  assume "holds c xs"
  then have "c = List.map Some xs @ drop (length xs) c"
    unfolding holds_def by (metis append_take_drop_id)
  then show "\<exists>rest. c = List.map Some xs @ rest" ..
qed (auto simp: holds_def)

lemma holds_rd: "holds c xs \<Longrightarrow> i < length xs \<Longrightarrow> rd c i = Some (xs ! i)"
  by (auto simp: holds_iff rd_def nth_append)

lemma holds_length: "holds c xs \<Longrightarrow> length xs \<le> length c"
  by (simp add: holds_def)

lemma holds_wr_end:
  assumes "holds c xs" and "length xs < length c"
  shows "\<exists>c'. wr c (length xs) x = Some c' \<and> holds c' (xs @ [x]) \<and> length c' = length c"
proof -
  obtain rest where c: "c = List.map Some xs @ rest" using assms(1) by (auto simp: holds_iff)
  then obtain r rs where "rest = r # rs" using assms(2) by (cases rest) auto
  then have "c[length xs := Some x] = List.map Some (xs @ [x]) @ rs"
    by (simp add: c list_update_append)
  then have "holds (c[length xs := Some x]) (xs @ [x])" unfolding holds_iff by blast
  then show ?thesis using assms(2) by (simp add: wr_def)
qed

lemma holds_wr:
  assumes "holds c xs" and "i < length xs"
  shows "\<exists>c'. wr c i x = Some c' \<and> holds c' (xs[i := x]) \<and> length c' = length c"
proof -
  obtain rest where c: "c = List.map Some xs @ rest" using assms(1) by (auto simp: holds_iff)
  then have "c[i := Some x] = List.map Some (xs[i := x]) @ rest"
    using assms(2) by (simp add: list_update_append map_update)
  then show ?thesis using assms(2) by (auto simp: wr_def c holds_iff)
qed

lemma holds_take: "holds c xs \<Longrightarrow> holds c (take n xs)"
proof -
  assume "holds c xs"
  then obtain rest where "c = List.map Some xs @ rest" by (auto simp: holds_iff)
  then have "c = List.map Some (take n xs) @ (List.map Some (drop n xs) @ rest)"
    by (metis append.assoc append_take_drop_id map_append)
  then show ?thesis by (auto simp: holds_iff)
qed

lemma holds_append_fst: "holds c (xs @ ys) \<Longrightarrow> holds c xs"
  using holds_take [of c "xs @ ys" "length xs"] by simp

lemma copy_cells_holds:
  assumes "holds src ys" and "holds dst xs" and "length xs + length ys \<le> length dst"
  shows "\<exists>c. copy_cells dst src (length xs) (length ys) = Some c \<and> holds c (xs @ ys) \<and> length c = length dst"
proof -
  obtain r where s: "src = List.map Some ys @ r" using assms(1) by (auto simp: holds_iff)
  obtain r' where d: "dst = List.map Some xs @ r'" using assms(2) by (auto simp: holds_iff)
  let ?c = "List.map Some (xs @ ys) @ drop (length ys) r'"
  have "copy_cells dst src (length xs) (length ys) = Some ?c"
    using assms(3) by (simp add: copy_cells_def s d)
  moreover have "length ?c = length dst" using assms(3) by (simp add: d)
  ultimately show ?thesis by (auto simp: holds_iff)
qed

lemma move_cells_up:
  assumes "holds c (xs @ ys)" and "length xs + length zs + length ys \<le> length c"
  shows "\<exists>c'. move_cells c (length xs) (length xs + length zs) (length ys) = Some c' \<and> length c' = length c \<and>
    (\<forall>zs'. length zs' = length zs \<longrightarrow> holds (take (length xs) c' @ List.map Some zs' @ drop (length xs + length zs) c') (xs @ zs' @ ys))
    \<and> holds c' xs"
proof -
  obtain r where c: "c = List.map Some xs @ List.map Some ys @ r" using assms(1) by (auto simp: holds_iff)
  let ?c = "take (length xs + length zs) c @ List.map Some ys @ drop (length xs + length zs + length ys) c"
  have "move_cells c (length xs) (length xs + length zs) (length ys) = Some ?c"
    using assms(2) by (simp add: move_cells_def c)
  moreover have "length ?c = length c" using assms(2) by simp
  moreover have "take (length xs) ?c = List.map Some xs" using assms(2) by (simp add: c)
  moreover have "drop (length xs + length zs) ?c = List.map Some ys @ drop (length xs + length zs + length ys) c"
    using assms(2) by simp
  moreover have "holds ?c xs" by (simp add: holds_iff c)
  ultimately show ?thesis by (auto simp: holds_iff)
qed

lemma move_cells_down:
  assumes "holds c (xs @ zs @ ys)"
  shows "\<exists>c'. move_cells c (length xs + length zs) (length xs) (length ys) = Some c' \<and> length c' = length c \<and>
    holds c' (xs @ ys)"
proof -
  obtain r where c: "c = List.map Some xs @ List.map Some zs @ List.map Some ys @ r" using assms by (auto simp: holds_iff)
  let ?c = "List.map Some xs @ List.map Some ys @ drop (length xs + length ys) c"
  have "move_cells c (length xs + length zs) (length xs) (length ys) = Some ?c"
    by (simp add: move_cells_def c)
  moreover have "length ?c = length c" by (simp add: c)
  ultimately show ?thesis by (auto simp: holds_iff)
qed

end
