(* ===== verification/Vec.thy ===== *)
theory Vec
  imports Cells
begin

text \<open>
  \<open>src/vec.c\<close>: the growing array of 32-bit values. Its cells are the buffer from the heap; the
  number of bytes of an allocation is computed in 32 bits, as the code does. The heap the buffer
  lives in is not part of the value.
\<close>

record 'a vec =
  buffer :: "'a cells"
  size_v :: u32
  cap :: u32

definition VEC_INIT_CAP :: u32 where
  "VEC_INIT_CAP = 4"

text \<open>\<open>size * sizeof(uint32_t)\<close> bytes.\<close>

definition vec_alloc :: "u32 \<Rightarrow> 'a cells" where
  "vec_alloc sz = fresh (unat (sz * 4) div 4)"

definition vec_new_sh :: "u32 \<Rightarrow> 'a vec" where
  "vec_new_sh sz = (let c = max 1 sz in \<lparr>buffer = vec_alloc c, size_v = 0, cap = c\<rparr>)"

definition vec_new_s :: "u32 \<Rightarrow> 'a vec" where
  "vec_new_s sz = vec_new_sh sz"

definition vec_new :: "'a vec" where
  "vec_new = vec_new_sh VEC_INIT_CAP"

definition vec_resize :: "'a vec \<Rightarrow> u32 \<Rightarrow> 'a vec option" where
  "vec_resize v sz =
     (if sz \<ge> size_v v then do {
        newbuffer \<leftarrow> copy_cells (vec_alloc sz) (buffer v) 0 (unat (size_v v * 4) div 4);
        Some (v\<lparr>buffer := newbuffer, cap := sz\<rparr>)
      } else Some v)"

definition vec_push :: "'a vec \<Rightarrow> 'a \<Rightarrow> 'a vec option" where
  "vec_push v val = do {
     v \<leftarrow> (if size_v v = cap v then vec_resize v (cap v * 2) else Some v);
     b \<leftarrow> wr (buffer v) (unat (size_v v)) val;
     Some (v\<lparr>buffer := b, size_v := size_v v + 1\<rparr>)
   }"

definition vec_pop :: "'a vec \<Rightarrow> ('a vec \<times> 'a) option" where
  "vec_pop v = do {
     x \<leftarrow> rd (buffer v) (unat (size_v v - 1));
     Some (v\<lparr>size_v := size_v v - 1\<rparr>, x)
   }"

definition vec_erase :: "'a vec \<Rightarrow> u32 \<Rightarrow> u32 \<Rightarrow> 'a vec option" where
  "vec_erase v pos len =
     (if pos + len \<ge> size_v v then
        Some (if pos < size_v v then v\<lparr>size_v := pos\<rparr> else v)
      else do {
        b \<leftarrow> move_cells (buffer v) (unat (pos + len)) (unat pos) (unat ((size_v v - pos - len) * 4) div 4);
        Some (v\<lparr>buffer := b, size_v := size_v v - len\<rparr>)
      })"

definition vec_insert :: "'a vec \<Rightarrow> u32 \<Rightarrow> 'a \<Rightarrow> 'a vec option" where
  "vec_insert v pos val =
     (if pos \<ge> size_v v then vec_push v val
      else do {
        v \<leftarrow> (if size_v v = cap v then vec_resize v (cap v * 2) else Some v);
        b \<leftarrow> move_cells (buffer v) (unat pos) (unat pos + 1) (unat ((size_v v - pos) * 4) div 4);
        b \<leftarrow> wr b (unat pos) val;
        Some (v\<lparr>buffer := b, size_v := size_v v + 1\<rparr>)
      })"

definition vec_copy :: "'a vec \<Rightarrow> 'a vec option" where
  "vec_copy v = do {
     b \<leftarrow> copy_cells (vec_alloc (cap v)) (buffer v) 0 (unat (size_v v * 4) div 4);
     Some (v\<lparr>buffer := b\<rparr>)
   }"

definition vec_fit :: "'a vec \<Rightarrow> 'a vec option" where
  "vec_fit v = vec_resize v (size_v v)"

definition vec_clear :: "'a vec \<Rightarrow> 'a vec" where
  "vec_clear v = v\<lparr>size_v := 0\<rparr>"

definition vec_get :: "'a vec \<Rightarrow> nat \<Rightarrow> 'a option" where
  "vec_get v i = rd (buffer v) i"

subsection \<open>The list a vector holds\<close>

definition vec_list :: "'a vec \<Rightarrow> 'a list" where
  "vec_list v = List.map the (take (unat (size_v v)) (buffer v))"

text \<open>A vector as the operations leave it; the capacity is that of a buffer whose bytes can be counted
  in 32 bits.\<close>

definition vec_ok :: "'a vec \<Rightarrow> bool" where
  "vec_ok v \<longleftrightarrow> length (buffer v) = unat (cap v) \<and> 0 < unat (cap v) \<and> unat (cap v) < 1073741824 \<and>
     size_v v \<le> cap v \<and> (\<forall>x \<in> set (take (unat (size_v v)) (buffer v)). x \<noteq> None)"

text \<open>Room for one more, growing if needed.\<close>

definition vec_room :: "'a vec \<Rightarrow> bool" where
  "vec_room v \<longleftrightarrow> unat (size_v v) < 536870912"

lemma unat_times_4: "unat (w :: u32) < 1073741824 \<Longrightarrow> unat (w * 4) div 4 = unat w"
  by (simp add: unat_word_ariths)

lemma vec_ok_iff:
  "vec_ok v \<longleftrightarrow> length (buffer v) = unat (cap v) \<and> 0 < unat (cap v) \<and> unat (cap v) < 1073741824 \<and>
     unat (size_v v) = length (vec_list v) \<and> holds (buffer v) (vec_list v)"
proof
  assume ok: "vec_ok v"
  then have le: "unat (size_v v) \<le> length (buffer v)" by (simp add: vec_ok_def word_le_nat_alt)
  have "List.map Some (List.map the (take (unat (size_v v)) (buffer v))) = take (unat (size_v v)) (buffer v)"
    using ok by (auto simp: vec_ok_def intro!: map_idI)
  then show "length (buffer v) = unat (cap v) \<and> 0 < unat (cap v) \<and> unat (cap v) < 1073741824 \<and>
     unat (size_v v) = length (vec_list v) \<and> holds (buffer v) (vec_list v)"
    using ok le by (simp add: vec_ok_def holds_def vec_list_def min_absorb1)
next
  assume r: "length (buffer v) = unat (cap v) \<and> 0 < unat (cap v) \<and> unat (cap v) < 1073741824 \<and>
     unat (size_v v) = length (vec_list v) \<and> holds (buffer v) (vec_list v)"
  then have "take (unat (size_v v)) (buffer v) = List.map Some (vec_list v)"
    by (simp add: holds_def)
  then show "vec_ok v" using r by (auto simp: vec_ok_def word_le_nat_alt holds_def)
qed

lemma vec_listI: "holds b xs \<Longrightarrow> unat sz = length xs \<Longrightarrow> vec_list \<lparr>buffer = b, size_v = sz, cap = c\<rparr> = xs"
  by (auto simp: vec_list_def holds_def comp_def)

text \<open>A vector from its parts.\<close>

lemma vec_okI:
  assumes "holds b xs" and "unat sz = length xs" and "length b = unat c" and "0 < unat c" and "unat c < 1073741824"
  shows "vec_ok \<lparr>buffer = b, size_v = sz, cap = c\<rparr> \<and> vec_list \<lparr>buffer = b, size_v = sz, cap = c\<rparr> = xs"
  using assms vec_listI [OF assms(1,2)] by (simp add: vec_ok_iff)

lemma vec_okE:
  assumes "vec_ok v"
  obtains b sz c where "v = \<lparr>buffer = b, size_v = sz, cap = c\<rparr>" "holds b (vec_list v)" "unat sz = length (vec_list v)"
    "length b = unat c" "0 < unat c" "unat c < 1073741824"
  using assms that by (cases v) (auto simp: vec_ok_iff)

subsection \<open>The operations on the list\<close>

lemma vec_new_list: "vec_ok (vec_new :: 'a vec) \<and> vec_list (vec_new :: 'a vec) = []"
  unfolding vec_new_def vec_new_sh_def Let_def
  by (rule vec_okI) (simp_all add: VEC_INIT_CAP_def vec_alloc_def max_def)

lemma vec_new_room: "vec_room (vec_new :: 'a vec)"
  by (simp add: vec_room_def vec_new_def vec_new_sh_def Let_def)

lemma vec_new_s_list:
  assumes "unat sz < 1073741824"
  shows "vec_ok (vec_new_s sz :: 'a vec) \<and> vec_list (vec_new_s sz :: 'a vec) = []"
proof -
  have "unat (max 1 sz) < 1073741824 \<and> 0 < unat (max 1 sz)"
    using assms by (auto simp: max_def unat_gt_0 word_le_nat_alt)
  note bound = this
  show ?thesis
    unfolding vec_new_s_def vec_new_sh_def Let_def
    by (rule vec_okI) (use bound in \<open>simp_all add: vec_alloc_def unat_times_4\<close>)
qed

lemma vec_resize_list:
  assumes "vec_ok v" and "size_v v \<le> sz" and "0 < unat sz" and "unat sz < 1073741824"
  shows "\<exists>v'. vec_resize v sz = Some v' \<and> vec_ok v' \<and> vec_list v' = vec_list v \<and> cap v' = sz \<and> size_v v' = size_v v"
  using assms(1)
proof (cases rule: vec_okE)
  case (1 b n c)
  have n: "unat (n * 4) div 4 = length (vec_list v)"
    using 1 assms(2,4) by (simp add: unat_times_4 word_le_nat_alt)
  have "length ([] :: 'a list) + length (vec_list v) \<le> length (vec_alloc sz :: 'a cells)"
    using 1 assms(2,4) by (simp add: vec_alloc_def unat_times_4 word_le_nat_alt)
  from copy_cells_holds [OF 1(2) holds_Nil this] obtain b' where
    "copy_cells (vec_alloc sz) b 0 (length (vec_list v)) = Some b'" "holds b' (vec_list v)"
    "length b' = length (vec_alloc sz :: 'a cells)" by auto
  moreover have "length b' = unat sz" using calculation(3) assms(4) by (simp add: vec_alloc_def unat_times_4)
  ultimately show ?thesis
    using 1(1) assms(2) vec_okI [of b' "vec_list v" n sz] 1(3) assms(3,4) by (simp add: vec_resize_def n)
qed

lemma vec_grow:
  assumes "vec_ok v" and "vec_room v"
  shows "\<exists>v'. (if size_v v = cap v then vec_resize v (cap v * 2) else Some v) = Some v' \<and> vec_ok v' \<and>
    vec_list v' = vec_list v \<and> size_v v' = size_v v \<and> unat (size_v v') < unat (cap v')"
proof (cases "size_v v = cap v")
  case False
  have "size_v v \<le> cap v" using assms(1) by (simp add: vec_ok_def)
  with False have "unat (size_v v) < unat (cap v)"
    by (simp add: word_le_nat_alt word_eq_by_unat)
  then show ?thesis using False assms(1) by simp
next
  case True
  have "unat (cap v * 2) = 2 * unat (cap v)"
    using assms(2) True by (simp add: vec_room_def unat_word_ariths)
  then show ?thesis
    using vec_resize_list [OF assms(1), of "cap v * 2"] True assms
    by (auto simp: vec_room_def vec_ok_def word_le_nat_alt)
qed

lemma vec_push_list:
  assumes "vec_ok v" and "vec_room v"
  shows "\<exists>v'. vec_push v x = Some v' \<and> vec_ok v' \<and> vec_list v' = vec_list v @ [x]"
proof -
  obtain w where w: "(if size_v v = cap v then vec_resize v (cap v * 2) else Some v) = Some w"
    "vec_ok w" "vec_list w = vec_list v" "size_v w = size_v v" "unat (size_v w) < unat (cap w)"
    using vec_grow [OF assms] by blast
  from w(2) show ?thesis
  proof (cases rule: vec_okE)
    case (1 b n c)
    have lt: "length (vec_list w) < length b" using 1 w(5) by simp
    from holds_wr_end [OF 1(2) lt] obtain b' where b': "wr b (length (vec_list w)) x = Some b'"
      "holds b' (vec_list w @ [x])" "length b' = length b" by blast
    have "unat (n + 1) = length (vec_list w @ [x])" using 1 lt unat_add_nowrap [of n 1] by simp
    then show ?thesis
      using w(1,3) b' 1(2-6) vec_okI [OF b'(2), of "n + 1" c] unfolding 1(1) by (simp add: vec_push_def)
  qed
qed

lemma vec_pop_list:
  assumes "vec_ok v" and "vec_list v \<noteq> []"
  shows "\<exists>v'. vec_pop v = Some (v', last (vec_list v)) \<and> vec_ok v' \<and> vec_list v' = butlast (vec_list v)"
  using assms(1)
proof (cases rule: vec_okE)
  case (1 b n c)
  then have "n \<noteq> 0" using assms(2) by auto
  then have n: "unat (n - 1) = length (vec_list v) - 1" using 1 by (simp add: unat_pred)
  have "rd b (unat (n - 1)) = Some (last (vec_list v))"
    using holds_rd [OF 1(2), of "length (vec_list v) - 1"] assms(2) by (simp add: n last_conv_nth)
  moreover have "holds b (butlast (vec_list v))" using holds_take [OF 1(2)] by (simp add: butlast_conv_take)
  ultimately show ?thesis
    using 1 vec_okI [of b "butlast (vec_list v)" "n - 1" c] by (simp add: vec_pop_def n)
qed

lemma vec_pop_empty: "vec_ok v \<Longrightarrow> vec_list v = [] \<Longrightarrow> vec_pop v = None"
proof -
  assume ok: "vec_ok v" and e: "vec_list v = []"
  then have "unat (size_v v) = 0" and c: "length (buffer v) = unat (cap v)" by (simp_all add: vec_ok_iff)
  then have "unat (size_v v - 1) = 4294967295"
    by (simp add: unat_eq_0 unsigned_minus_1_eq_mask mask_eq_exp_minus_1)
  moreover have "unat (cap v) < 1073741824" using ok by (simp add: vec_ok_iff)
  ultimately show ?thesis by (simp add: vec_pop_def rd_def c)
qed

lemma vec_get_list: "vec_ok v \<Longrightarrow> i < length (vec_list v) \<Longrightarrow> vec_get v i = Some (vec_list v ! i)"
  by (simp add: vec_get_def vec_ok_iff holds_rd)

lemma vec_clear_list: "vec_ok v \<Longrightarrow> vec_ok (vec_clear v) \<and> vec_list (vec_clear v) = []"
  by (auto simp: vec_clear_def vec_ok_def vec_list_def)

text \<open>\<open>vec_insert\<close> puts the value before position \<open>pos\<close>, or at the end when there is no such
  position, and grows the buffer when it is full.\<close>

theorem vec_insert_list:
  assumes "vec_ok v" and "vec_room v"
  shows "\<exists>v'. vec_insert v pos x = Some v' \<and> vec_ok v' \<and>
    vec_list v' = take (unat pos) (vec_list v) @ x # drop (unat pos) (vec_list v)"
proof (cases "pos \<ge> size_v v")
  case True
  then have "length (vec_list v) \<le> unat pos" using assms(1) by (simp add: vec_ok_iff word_le_nat_alt)
  then show ?thesis using True vec_push_list [OF assms, of x] by (simp add: vec_insert_def)
next
  case False
  obtain w where w: "(if size_v v = cap v then vec_resize v (cap v * 2) else Some v) = Some w"
    "vec_ok w" "vec_list w = vec_list v" "size_v w = size_v v" "unat (size_v w) < unat (cap w)"
    using vec_grow [OF assms] by blast
  let ?xs = "take (unat pos) (vec_list v)" and ?ys = "drop (unat pos) (vec_list v)"
  from w(2) show ?thesis
  proof (cases rule: vec_okE)
    case (1 b n c)
    have nv: "n = size_v v" using 1 w(4) by simp
    have pos: "unat pos < length (vec_list v)" using False 1 w(3) by (simp add: nv word_le_nat_alt not_le)
    have lxs: "length ?xs = unat pos" using pos by simp
    have "unat (n - pos) = length (vec_list v) - unat pos" using pos 1(3) w(3) by (simp add: unat_diff_nowrap)
    moreover from this have "unat (n - pos) < 1073741824"
      using 1(4,6) holds_length [OF 1(2)] w(3) by simp
    ultimately have cnt: "unat ((n - pos) * 4) div 4 = length ?ys" by (simp only: unat_times_4 length_drop)
    have "holds b (?xs @ ?ys)" using 1(2) w(3) by simp
    moreover have "length ?xs + length [x] + length ?ys \<le> length b" using 1 w(3,5) pos by simp
    ultimately obtain b1 where b1: "move_cells b (unat pos) (unat pos + 1) (length ?ys) = Some b1" "length b1 = length b"
      "holds (take (unat pos) b1 @ [Some x] @ drop (unat pos + 1) b1) (?xs @ [x] @ ?ys)"
      using move_cells_up [of b ?xs ?ys "[x]"] unfolding lxs by fastforce
    have lt: "unat pos < length b1" using pos 1 holds_length [OF 1(2)] w(3) b1(2) by simp
    then have "wr b1 (unat pos) x = Some (take (unat pos) b1 @ [Some x] @ drop (unat pos + 1) b1)"
      by (simp add: wr_def upd_conv_take_nth_drop)
    moreover have "unat (n + 1) = length (?xs @ [x] @ ?ys)" using 1 w(3,5) pos unat_add_nowrap [of n 1] by simp
    ultimately show ?thesis
      using w(1) False b1 1 lt vec_okI [OF b1(3), of "n + 1" c] cnt by (simp add: vec_insert_def nv)
  qed
qed

text \<open>\<open>vec_erase\<close> removes the \<open>len\<close> values from position \<open>pos\<close> on, or all that are there, as
  long as the end of the range does not wrap.\<close>

theorem vec_erase_list:
  assumes "vec_ok v" and "unat pos + unat len < 4294967296"
  shows "\<exists>v'. vec_erase v pos len = Some v' \<and> vec_ok v' \<and>
    vec_list v' = take (unat pos) (vec_list v) @ drop (unat pos + unat len) (vec_list v)"
  using assms(1)
proof (cases rule: vec_okE)
  case (1 b n c)
  let ?l = "vec_list v"
  have pl: "unat (pos + len) = unat pos + unat len" using assms(2) by (rule unat_add_nowrap)
  show ?thesis
  proof (cases "pos + len \<ge> n")
    case True
    then have "length ?l \<le> unat pos + unat len" using 1(3) by (simp add: word_le_nat_alt pl)
    moreover have "holds b (take (unat pos) ?l)" using 1(2) by (rule holds_take)
    ultimately show ?thesis
      using True 1 vec_okI [of b "take (unat pos) ?l" pos c] assms(1)
      by (auto simp: vec_erase_def word_less_nat_alt)
  next
    case False
    then have lt: "unat pos + unat len < length ?l" using 1(3) by (simp add: word_le_nat_alt pl)
    let ?xs = "take (unat pos) ?l" and ?zs = "take (unat len) (drop (unat pos) ?l)" and ?ys = "drop (unat pos + unat len) ?l"
    have cat: "?l = ?xs @ ?zs @ ?ys"
      by (metis add.commute append_take_drop_id drop_drop)
    have lens: "length ?xs = unat pos" "length ?zs = unat len" using lt by simp_all
    have "holds b (?xs @ ?zs @ ?ys)" using 1(2) cat by simp
    from move_cells_down [OF this] obtain b' where b': "move_cells b (unat pos + unat len) (unat pos) (length ?ys) = Some b'"
      "length b' = length b" "holds b' (?xs @ ?ys)" unfolding lens by blast
    have "unat (n - pos) = length ?l - unat pos" using lt 1(3) by (simp add: unat_diff_nowrap)
    then have d: "unat (n - pos - len) = length ?ys" using lt by (simp add: unat_diff_nowrap)
    moreover from this have "unat (n - pos - len) < 1073741824"
      using 1(4,6) holds_length [OF 1(2)] by simp
    ultimately have "unat ((n - pos - len) * 4) div 4 = length ?ys" by (simp only: unat_times_4)
    moreover have "unat (n - len) = length (?xs @ ?ys)" using lt 1(3) by (simp add: unat_diff_nowrap)
    ultimately show ?thesis
      using False 1 b' vec_okI [OF b'(3), of "n - len" c] by (simp add: vec_erase_def pl)
  qed
qed

theorem vec_insert_list_witness:
  "\<exists>v v'. vec_push (vec_new :: nat vec) 5 = Some v \<and> vec_insert v 0 7 = Some v' \<and> vec_list v' = [7, 5]"
proof -
  obtain v where v: "vec_push (vec_new :: nat vec) 5 = Some v" "vec_ok v" "vec_list v = [5]"
    using vec_push_list [of "vec_new :: nat vec" 5] by (auto simp: vec_new_list vec_new_room)
  moreover from this have "vec_room v" by (simp add: vec_room_def vec_ok_iff)
  ultimately show ?thesis using vec_insert_list [of v 0 7] by auto
qed

theorem vec_erase_list_witness:
  "\<exists>v v'. vec_push (vec_new :: nat vec) 5 = Some v \<and> vec_erase v 0 9 = Some v' \<and> vec_list v' = []"
proof -
  obtain v where v: "vec_push (vec_new :: nat vec) 5 = Some v" "vec_ok v" "vec_list v = [5]"
    using vec_push_list [of "vec_new :: nat vec" 5] by (auto simp: vec_new_list vec_new_room)
  then show ?thesis using vec_erase_list [of v 0 9] by auto
qed

lemma vec_copy_list:
  assumes "vec_ok v"
  shows "\<exists>v'. vec_copy v = Some v' \<and> vec_ok v' \<and> vec_list v' = vec_list v"
proof -
  have le: "size_v v \<le> cap v" "0 < unat (cap v)" "unat (cap v) < 1073741824" using assms by (simp_all add: vec_ok_def)
  obtain w where "vec_resize v (cap v) = Some w" "vec_ok w" "vec_list w = vec_list v"
    using vec_resize_list [OF assms le] by blast
  then show ?thesis using le(1) by (auto simp: vec_resize_def vec_copy_def bind_eq_Some_conv)
qed

text \<open>Fitting an empty vector leaves it without a buffer, and since doubling a capacity of 0 gives 0,
  the next push writes outside its buffer.\<close>

theorem vec_fit_empty_breaks_push:
  "\<exists>v. vec_fit (vec_new :: nat vec) = Some v \<and> (\<forall>x. vec_push v x = None)"
  by (simp add: vec_fit_def vec_new_def vec_new_sh_def Let_def vec_resize_def vec_push_def vec_alloc_def
      copy_cells_def wr_def fresh_def)

subsection \<open>The contract of a stack\<close>

text \<open>What the path code relies on in \<open>vec_push\<close> and \<open>vec_pop\<close>; \<open>room s n\<close> is room for \<open>n\<close>
  more pushes.\<close>

locale stack =
  fixes ok :: "'s \<Rightarrow> bool"
    and room :: "'s \<Rightarrow> nat \<Rightarrow> bool"
    and items :: "'s \<Rightarrow> 'a list"
    and push :: "'s \<Rightarrow> 'a \<Rightarrow> 's option"
    and pop :: "'s \<Rightarrow> ('s \<times> 'a) option"
  assumes push_law: "ok s \<Longrightarrow> room s (Suc n) \<Longrightarrow>
      \<exists>s'. push s x = Some s' \<and> ok s' \<and> items s' = items s @ [x] \<and> room s' n"
    and pop_law: "ok s \<Longrightarrow> room s n \<Longrightarrow> items s \<noteq> [] \<Longrightarrow>
      \<exists>s'. pop s = Some (s', last (items s)) \<and> ok s' \<and> items s' = butlast (items s) \<and> room s' (Suc n)"
    and room_mono: "room s n \<Longrightarrow> k \<le> n \<Longrightarrow> room s k"

text \<open>The loop that pushes the values of a list in order.\<close>

fun push_all :: "('s \<Rightarrow> 'a \<Rightarrow> 's option) \<Rightarrow> 's \<Rightarrow> 'a list \<Rightarrow> 's option" where
  "push_all push s [] = Some s"
| "push_all push s (x # xs) = do { s \<leftarrow> push s x; push_all push s xs }"

context stack begin

lemma push_all_law:
  assumes "ok s" and "room s (length xs + n)"
  shows "\<exists>s'. push_all push s xs = Some s' \<and> ok s' \<and> items s' = items s @ xs \<and> room s' n"
  using assms
proof (induction xs arbitrary: s)
  case (Cons x xs)
  then obtain s' where s': "push s x = Some s'" "ok s'" "items s' = items s @ [x]" "room s' (length xs + n)"
    using push_law [of s "length xs + n" x] by auto
  then show ?case using Cons.IH [of s'] by auto
qed simp

lemma push_pop:
  assumes "ok s" and "room s (Suc n)"
  shows "\<exists>s1 s2. push s x = Some s1 \<and> pop s1 = Some (s2, x) \<and> ok s2 \<and> items s2 = items s \<and> room s2 (Suc n)"
proof -
  obtain s1 where s1: "push s x = Some s1" "ok s1" "items s1 = items s @ [x]" "room s1 n"
    using push_law [OF assms] by blast
  then show ?thesis using pop_law [of s1 n] by auto
qed

end

definition vec_room_for :: "'a vec \<Rightarrow> nat \<Rightarrow> bool" where
  "vec_room_for v n \<longleftrightarrow> unat (size_v v) + n \<le> 536870912"

interpretation vs: stack vec_ok vec_room_for vec_list vec_push vec_pop
proof
  fix s :: "'a vec" and n x
  assume ok: "vec_ok s" and r: "vec_room_for s (Suc n)"
  then have "vec_room s" by (simp add: vec_room_def vec_room_for_def)
  from vec_push_list [OF ok this, of x] obtain s' where
    s': "vec_push s x = Some s'" "vec_ok s'" "vec_list s' = vec_list s @ [x]" by blast
  moreover have "vec_room_for s' n" using r ok s'(2,3) by (simp add: vec_room_for_def vec_ok_iff)
  ultimately show "\<exists>s'. vec_push s x = Some s' \<and> vec_ok s' \<and> vec_list s' = vec_list s @ [x] \<and> vec_room_for s' n"
    by blast
next
  fix s :: "'a vec" and n
  assume ok: "vec_ok s" and r: "vec_room_for s n" and ne: "vec_list s \<noteq> []"
  from vec_pop_list [OF ok ne] obtain s' where
    s': "vec_pop s = Some (s', last (vec_list s))" "vec_ok s'" "vec_list s' = butlast (vec_list s)" by blast
  moreover have "unat (size_v s') = length (vec_list s) - 1" "unat (size_v s) = length (vec_list s)"
    using s'(2,3) ok by (simp_all add: vec_ok_iff)
  then have "vec_room_for s' (Suc n)" using r ne by (cases "vec_list s") (simp_all add: vec_room_for_def)
  ultimately show "\<exists>s'. vec_pop s = Some (s', last (vec_list s)) \<and> vec_ok s' \<and>
      vec_list s' = butlast (vec_list s) \<and> vec_room_for s' (Suc n)"
    by blast
qed (simp add: vec_room_for_def)

end
