(* ===== verification/Kstring.thy ===== *)
theory Kstring
  imports Cells
begin

text \<open>
  \<open>src/kstring.c\<close>: growing C strings. The buffer has one cell more than the capacity, for
  the terminator. A \<open>const char *\<close> argument is the list of its characters before the
  terminator; \<open>strcpy\<close> is that of \<open>src/util.c\<close>, which copies no terminator.
\<close>

record kstring =
  kbuf :: "u8 cells"
  kcap :: u32
  ksize :: u32

text \<open>The string that starts a buffer, up to its terminator.\<close>

fun read_str :: "u8 cells \<Rightarrow> cstr option" where
  "read_str [] = None"
| "read_str (None # cs) = None"
| "read_str (Some c # cs) = (if c = 0 then Some [] else do { s \<leftarrow> read_str cs; Some (c # s) })"

text \<open>\<open>strcpy\<close> to a place of a buffer.\<close>

definition put_str :: "u8 cells \<Rightarrow> nat \<Rightarrow> cstr \<Rightarrow> u8 cells option" where
  "put_str b at s = copy_cells b (List.map Some s) at (length s)"

definition kstring_INIT_CAP :: u32 where
  "kstring_INIT_CAP = 4"

definition kstring_alloc :: "u32 \<Rightarrow> u8 cells" where
  "kstring_alloc sz = fresh (unat (sz + 1))"

definition kstring_new_sh :: "u32 \<Rightarrow> kstring option" where
  "kstring_new_sh sz = do {
     b \<leftarrow> wr (kstring_alloc sz) 0 0;
     Some \<lparr>kbuf = b, kcap = sz, ksize = 0\<rparr>
   }"

definition kstring_new :: "kstring option" where
  "kstring_new = kstring_new_sh kstring_INIT_CAP"

definition kstring_resize :: "kstring \<Rightarrow> u32 \<Rightarrow> kstring option" where
  "kstring_resize k sz =
     (if sz \<ge> ksize k \<and> sz \<noteq> 0 then do {
        s \<leftarrow> read_str (kbuf k);
        b \<leftarrow> put_str (kstring_alloc sz) 0 s;
        b \<leftarrow> wr b (unat (ksize k)) 0;
        Some (k\<lparr>kbuf := b, kcap := sz\<rparr>)
      } else Some k)"

text \<open>The loop that doubles a capacity until it is enough; from 0 it never is.\<close>

partial_function (option) grow_cap :: "u32 \<Rightarrow> u32 \<Rightarrow> u32 option" where
  "grow_cap new_size c = (if new_size > c then grow_cap new_size (c * 2) else Some c)"

definition kstring_from :: "cstr \<Rightarrow> kstring option" where
  "kstring_from str = do {
     let sz = of_nat (length str);
     c \<leftarrow> grow_cap sz kstring_INIT_CAP;
     k \<leftarrow> kstring_new_sh c;
     b \<leftarrow> put_str (kbuf k) 0 str;
     b \<leftarrow> wr b (unat sz) 0;
     Some (k\<lparr>kbuf := b, ksize := sz\<rparr>)
   }"

definition kstring_push :: "kstring \<Rightarrow> u8 \<Rightarrow> kstring option" where
  "kstring_push k c = do {
     k \<leftarrow> (if ksize k = kcap k then kstring_resize k (kcap k * 2) else Some k);
     b \<leftarrow> wr (kbuf k) (unat (ksize k)) c;
     b \<leftarrow> wr b (unat (ksize k + 1)) 0;
     Some (k\<lparr>kbuf := b, ksize := ksize k + 1\<rparr>)
   }"

text \<open>The growing that \<open>kstring_append\<close> and \<open>kstring_insert\<close> share.\<close>

definition kstring_grow :: "kstring \<Rightarrow> u32 \<Rightarrow> kstring option" where
  "kstring_grow k new_size =
     (if new_size > kcap k then do {
        new_cap \<leftarrow> grow_cap new_size (kcap k);
        kstring_resize k new_cap
      } else Some k)"

definition kstring_append :: "kstring \<Rightarrow> cstr \<Rightarrow> kstring option" where
  "kstring_append k str = do {
     let new_size = ksize k + of_nat (length str);
     k \<leftarrow> kstring_grow k new_size;
     b \<leftarrow> put_str (kbuf k) (unat (ksize k)) str;
     b \<leftarrow> wr b (unat new_size) 0;
     Some (k\<lparr>kbuf := b, ksize := new_size\<rparr>)
   }"

definition kstring_erase :: "kstring \<Rightarrow> u32 \<Rightarrow> u32 \<Rightarrow> kstring option" where
  "kstring_erase k pos len =
     (if pos + len \<ge> ksize k then
        (if pos < ksize k then do {
           b \<leftarrow> wr (kbuf k) (unat pos) 0;
           Some (k\<lparr>kbuf := b, ksize := pos\<rparr>)
         } else Some k)
      else do {
        b \<leftarrow> move_cells (kbuf k) (unat (pos + len)) (unat pos) (unat (ksize k - pos - len));
        b \<leftarrow> wr b (unat (ksize k - len)) 0;
        Some (k\<lparr>kbuf := b, ksize := ksize k - len\<rparr>)
      })"

definition kstring_insert :: "kstring \<Rightarrow> u32 \<Rightarrow> cstr \<Rightarrow> kstring option" where
  "kstring_insert k pos str =
     (if pos \<ge> ksize k then kstring_append k str
      else do {
        let str_size = of_nat (length str);
        k \<leftarrow> kstring_grow k (ksize k + str_size);
        b \<leftarrow> move_cells (kbuf k) (unat pos) (unat pos + length str) (unat (ksize k - pos));
        b \<leftarrow> put_str b (unat pos) str;
        b \<leftarrow> wr b (unat (ksize k + str_size)) 0;
        Some (k\<lparr>kbuf := b, ksize := ksize k + str_size\<rparr>)
      })"

definition kstring_assign :: "kstring \<Rightarrow> cstr \<Rightarrow> kstring option" where
  "kstring_assign k str = kstring_from str"

text \<open>The copy has a buffer of its own, which nothing writes.\<close>

definition kstring_copy :: "kstring \<Rightarrow> kstring" where
  "kstring_copy k = k\<lparr>kbuf := kstring_alloc (kcap k)\<rparr>"

definition kstring_str :: "kstring \<Rightarrow> cstr option" where
  "kstring_str k = read_str (kbuf k)"

definition kstring_fit :: "kstring \<Rightarrow> kstring option" where
  "kstring_fit k = kstring_resize k (ksize k)"

definition kstring_clear :: "kstring \<Rightarrow> kstring option" where
  "kstring_clear k = do { b \<leftarrow> wr (kbuf k) 0 0; Some (k\<lparr>kbuf := b, ksize := 0\<rparr>) }"

subsection \<open>The string a value represents\<close>

definition kstring_is :: "kstring \<Rightarrow> cstr \<Rightarrow> bool" where
  "kstring_is k s \<longleftrightarrow> 0 \<notin> set s \<and> holds (kbuf k) (s @ [0]) \<and> unat (ksize k) = length s \<and>
     length (kbuf k) = unat (kcap k) + 1 \<and> 0 < unat (kcap k) \<and> unat (kcap k) \<le> 2147483648"

text \<open>Room for \<open>n\<close> more characters.\<close>

definition kstring_room :: "cstr \<Rightarrow> nat \<Rightarrow> bool" where
  "kstring_room s n \<longleftrightarrow> length s + n \<le> 1073741824"

lemma read_str_holds:
  assumes "0 \<notin> set s" and "holds b (s @ [0])"
  shows "read_str b = Some s"
proof -
  obtain r where "b = List.map Some s @ Some 0 # r" using assms(2) by (auto simp: holds_iff)
  then show ?thesis using assms(1) by (induction s arbitrary: b) auto
qed

lemma kstring_str_is: "kstring_is k s \<Longrightarrow> kstring_str k = Some s"
  by (simp add: kstring_str_def kstring_is_def read_str_holds)

lemma kstring_isI:
  assumes "0 \<notin> set s" and "holds b (s @ [0])" and "unat sz = length s" and "length b = unat c + 1"
    and "0 < unat c" and "unat c \<le> 2147483648"
  shows "kstring_is \<lparr>kbuf = b, kcap = c, ksize = sz\<rparr> s"
  using assms by (simp add: kstring_is_def)

lemma kstring_isE:
  assumes "kstring_is k s"
  obtains b c sz where "k = \<lparr>kbuf = b, kcap = c, ksize = sz\<rparr>" "0 \<notin> set s" "holds b (s @ [0])"
    "unat sz = length s" "length b = unat c + 1" "0 < unat c" "unat c \<le> 2147483648" "length s \<le> unat c"
proof -
  have "length (s @ [0]) \<le> length (kbuf k)" using assms by (intro holds_length) (simp add: kstring_is_def)
  then show ?thesis using assms that by (cases k) (auto simp: kstring_is_def)
qed

lemma put_str_holds:
  assumes "holds b xs" and "length xs + length s \<le> length b"
  shows "\<exists>b'. put_str b (length xs) s = Some b' \<and> holds b' (xs @ s) \<and> length b' = length b"
proof -
  have "holds (List.map Some s) s" by (simp add: holds_def)
  from copy_cells_holds [OF this assms] show ?thesis by (simp add: put_str_def)
qed

text \<open>Writing a string after the characters \<open>xs\<close> of a buffer, and the terminator after it.\<close>

lemma put_str_end:
  assumes "holds b xs" and "length xs + length s < length b"
  shows "\<exists>b1 b2. put_str b (length xs) s = Some b1 \<and> wr b1 (length xs + length s) 0 = Some b2 \<and>
    holds b2 ((xs @ s) @ [0]) \<and> length b2 = length b"
proof -
  obtain b1 where b1: "put_str b (length xs) s = Some b1" "holds b1 (xs @ s)" "length b1 = length b"
    using put_str_holds [OF assms(1), of s] assms(2) by auto
  then show ?thesis using holds_wr_end [OF b1(2), of 0] assms(2) by auto
qed

lemma grow_cap_enough:
  assumes "0 < unat c" and "unat n \<le> 1073741824" and "unat c \<le> 2147483648"
  shows "\<exists>c'. grow_cap n c = Some c' \<and> n \<le> c' \<and> unat c \<le> unat c' \<and> unat c' \<le> 2147483648"
  using assms
proof (induction "unat n - unat c" arbitrary: c rule: less_induct)
  case less
  show ?case
  proof (cases "n > c")
    case False
    then show ?thesis using less.prems by (subst grow_cap.simps) (subst if_not_P, simp_all)
  next
    case True
    then have lt: "unat c < unat n" by (simp add: word_less_nat_alt)
    then have d: "unat (c * 2) = 2 * unat c" using less.prems by (simp add: unat_word_ariths)
    have "\<exists>c'. grow_cap n (c * 2) = Some c' \<and> n \<le> c' \<and> unat (c * 2) \<le> unat c' \<and> unat c' \<le> 2147483648"
      using less.prems lt d by (intro less.hyps) linarith+
    then show ?thesis using True d by (subst grow_cap.simps) auto
  qed
qed

lemma kstring_new_sh_is:
  assumes "0 < unat c" and "unat c \<le> 2147483648"
  shows "\<exists>k. kstring_new_sh c = Some k \<and> kstring_is k [] \<and> kcap k = c"
proof -
  have l: "length (kstring_alloc c) = unat c + 1"
    using assms(2) unat_add_nowrap [of c 1] by (simp add: kstring_alloc_def)
  then obtain b where b: "wr (kstring_alloc c) 0 0 = Some b" "holds b [0]" "length b = unat c + 1"
    using holds_wr_end [OF holds_Nil, of "kstring_alloc c" 0] by auto
  then show ?thesis using kstring_isI [of "[]" b 0 c] assms by (simp add: kstring_new_sh_def)
qed

lemma kstring_resize_is:
  assumes "kstring_is k s" and "ksize k \<le> sz" and "0 < unat sz" and "unat sz \<le> 2147483648"
  shows "\<exists>k'. kstring_resize k sz = Some k' \<and> kstring_is k' s \<and> kcap k' = sz"
  using assms(1)
proof (cases rule: kstring_isE)
  case (1 b c n)
  have "length (kstring_alloc sz) = unat sz + 1"
    using assms(4) unat_add_nowrap [of sz 1] by (simp add: kstring_alloc_def)
  moreover have "length s \<le> unat sz" using 1 assms(2) by (simp add: word_le_nat_alt)
  ultimately obtain b1 b2 where "put_str (kstring_alloc sz) 0 s = Some b1" "wr b1 (length s) 0 = Some b2"
    "holds b2 (s @ [0])" "length b2 = unat sz + 1"
    using put_str_end [OF holds_Nil, of s "kstring_alloc sz"] by auto
  moreover have "sz \<noteq> 0" using assms(3) by auto
  ultimately show ?thesis
    using 1 assms kstring_isI [of s b2 n sz] read_str_holds [OF 1(2,3)] by (simp add: kstring_resize_def)
qed

lemma kstring_grow_is:
  assumes "kstring_is k s" and "unat n \<le> 1073741824"
  shows "\<exists>k'. kstring_grow k n = Some k' \<and> kstring_is k' s \<and> ksize k' = ksize k \<and> n \<le> kcap k'"
proof (cases "n > kcap k")
  case False
  then have "kstring_grow k n = Some k" by (simp add: kstring_grow_def if_not_P)
  moreover have "n \<le> kcap k" using False by simp
  ultimately show ?thesis using assms(1) by blast
next
  case True
  obtain c where c: "grow_cap n (kcap k) = Some c" "n \<le> c" "unat (kcap k) \<le> unat c" "unat c \<le> 2147483648"
    using grow_cap_enough [of "kcap k" n] assms by (auto simp: kstring_is_def)
  have "ksize k \<le> c" "0 < unat c"
    using assms(1) c(3) by (cases rule: kstring_isE; simp add: word_le_nat_alt)+
  from kstring_resize_is [OF assms(1) this c(4)] obtain k' where
    "kstring_resize k c = Some k'" "kstring_is k' s" "kcap k' = c" by blast
  moreover from this assms(1) have "ksize k' = ksize k"
    by (simp add: kstring_is_def word_eq_by_unat)
  ultimately show ?thesis using True c by (simp add: kstring_grow_def)
qed

subsection \<open>The operations on the string\<close>

lemma kstring_new_is: "\<exists>k. kstring_new = Some k \<and> kstring_is k []"
  unfolding kstring_new_def using kstring_new_sh_is [of kstring_INIT_CAP] by (auto simp: kstring_INIT_CAP_def)

lemma kstring_from_is:
  assumes "0 \<notin> set s" and "length s \<le> 1073741824"
  shows "\<exists>k. kstring_from s = Some k \<and> kstring_is k s"
proof -
  let ?n = "of_nat (length s) :: u32"
  have n: "unat ?n = length s" using assms(2) by (simp add: unat_of_nat32)
  obtain c where c: "grow_cap ?n kstring_INIT_CAP = Some c" "?n \<le> c" "4 \<le> unat c" "unat c \<le> 2147483648"
    using grow_cap_enough [of kstring_INIT_CAP ?n] assms(2) n by (auto simp: kstring_INIT_CAP_def)
  then obtain k where k: "kstring_new_sh c = Some k" "kstring_is k []" "kcap k = c"
    using kstring_new_sh_is [of c] by auto
  have "length s < length (kbuf k)" using k c(2) n by (simp add: kstring_is_def word_le_nat_alt)
  then obtain b1 b2 where "put_str (kbuf k) 0 s = Some b1" "wr b1 (length s) 0 = Some b2"
    "holds b2 (s @ [0])" "length b2 = length (kbuf k)"
    using put_str_end [OF holds_Nil, of s "kbuf k"] by auto
  then show ?thesis
    using c k assms(1) n by (simp add: kstring_from_def kstring_is_def)
qed

lemma kstring_push_is:
  assumes "kstring_is k s" and "c \<noteq> 0" and "kstring_room s 1"
  shows "\<exists>k'. kstring_push k c = Some k' \<and> kstring_is k' (s @ [c])"
proof -
  have "\<exists>k1. (if ksize k = kcap k then kstring_resize k (kcap k * 2) else Some k) = Some k1 \<and> kstring_is k1 s \<and>
      length s < unat (kcap k1)"
  proof (cases "ksize k = kcap k")
    case False
    then have "length s \<noteq> unat (kcap k)" "unat (ksize k) = length s"
      using assms(1) by (simp_all add: kstring_is_def word_eq_by_unat)
    then show ?thesis using False assms(1) by (cases rule: kstring_isE [OF assms(1)]) simp
  next
    case True
    then have l: "unat (kcap k) = length s" using assms(1) by (simp add: kstring_is_def)
    have "0 < unat (kcap k)" using assms(1) by (simp add: kstring_is_def)
    note l = l this [unfolded l]
    then have d: "unat (kcap k * 2) = 2 * length s"
      using assms(3) by (simp add: kstring_room_def unat_word_ariths)
    then have "ksize k \<le> kcap k * 2" using True l by (simp add: word_le_nat_alt)
    from kstring_resize_is [OF assms(1) this] show ?thesis
      using True d l assms(3) by (auto simp: kstring_room_def)
  qed
  then obtain k1 where k1: "(if ksize k = kcap k then kstring_resize k (kcap k * 2) else Some k) = Some k1"
    "kstring_is k1 s" "length s < unat (kcap k1)" by blast
  from k1(2) show ?thesis
  proof (cases rule: kstring_isE)
    case (1 b q n)
    have b: "holds b s" using 1(3) by (rule holds_append_fst)
    have l: "length s < length b" using 1 by simp
    obtain b1 where b1: "wr b (length s) c = Some b1" "holds b1 (s @ [c])" "length b1 = length b"
      using holds_wr_end [OF b l] by blast
    then obtain b2 where b2: "wr b1 (length (s @ [c])) 0 = Some b2" "holds b2 ((s @ [c]) @ [0])" "length b2 = length b"
      using holds_wr_end [OF b1(2), of 0] 1(1,5) k1(3) by auto
    have n1: "unat (n + 1) = length (s @ [c])" using 1 unat_add_nowrap [of n 1] by simp
    have "0 \<notin> set (s @ [c])" using 1(2) assms(2) by simp
    from kstring_isI [OF this b2(2) n1] show ?thesis
      using k1(1) 1 b1 b2 n1 by (simp add: kstring_push_def)
  qed
qed

lemma kstring_append_is:
  assumes "kstring_is k s" and "0 \<notin> set t" and "kstring_room s (length t)"
  shows "\<exists>k'. kstring_append k t = Some k' \<and> kstring_is k' (s @ t)"
proof -
  let ?n = "ksize k + of_nat (length t)"
  have n: "unat ?n = length s + length t"
    using assms(1,3) by (simp add: kstring_is_def kstring_room_def unat_add_of_nat)
  have "unat ?n \<le> 1073741824" using n assms(3) by (simp add: kstring_room_def)
  then obtain k1 where k1: "kstring_grow k ?n = Some k1" "kstring_is k1 s" "ksize k1 = ksize k" "?n \<le> kcap k1"
    using kstring_grow_is [OF assms(1)] by blast
  from k1(2) show ?thesis
  proof (cases rule: kstring_isE)
    case (1 b q m)
    have "holds b s" using 1(3) by (rule holds_append_fst)
    moreover have "length s + length t < length b" using k1(4) 1 n by (simp add: word_le_nat_alt)
    ultimately obtain b1 b2 where b: "put_str b (length s) t = Some b1" "wr b1 (length s + length t) 0 = Some b2"
      "holds b2 ((s @ t) @ [0])" "length b2 = length b" using put_str_end by blast
    have "kstring_is \<lparr>kbuf = b2, kcap = q, ksize = ?n\<rparr> (s @ t)"
      using 1 b n assms(2) by (intro kstring_isI) simp_all
    then show ?thesis using k1(1,3) 1 b n by (simp add: kstring_append_def Let_def)
  qed
qed

text \<open>\<open>kstring_insert\<close> puts a string before position \<open>pos\<close>, or at the end when there is no such
  position, growing the buffer to a sufficient power of two times its capacity; the result is
  terminated and reads back as the expected string.\<close>

theorem kstring_insert_string:
  assumes "kstring_is k s" and "0 \<notin> set t" and "kstring_room s (length t)"
  shows "\<exists>k'. kstring_insert k pos t = Some k' \<and> kstring_is k' (take (unat pos) s @ t @ drop (unat pos) s) \<and>
    kstring_str k' = Some (take (unat pos) s @ t @ drop (unat pos) s)"
proof (cases "pos \<ge> ksize k")
  case True
  then have "length s \<le> unat pos" using assms(1) by (simp add: kstring_is_def word_le_nat_alt)
  then show ?thesis using kstring_append_is [OF assms] True by (auto simp: kstring_insert_def kstring_str_is)
next
  case False
  let ?n = "ksize k + of_nat (length t)"
  have n: "unat ?n = length s + length t"
    using assms(1,3) by (simp add: kstring_is_def kstring_room_def unat_add_of_nat)
  have "unat ?n \<le> 1073741824" using n assms(3) by (simp add: kstring_room_def)
  then obtain k1 where k1: "kstring_grow k ?n = Some k1" "kstring_is k1 s" "ksize k1 = ksize k" "?n \<le> kcap k1"
    using kstring_grow_is [OF assms(1)] by blast
  let ?xs = "take (unat pos) s" and ?ys = "drop (unat pos) s"
  from k1(2) show ?thesis
  proof (cases rule: kstring_isE)
    case (1 b q m)
    have pos: "unat pos < length s" using False 1 k1(3) by (simp add: word_le_nat_alt not_le)
    have lx: "length ?xs = unat pos" using pos by simp
    have d: "unat (ksize k - pos) = length ?ys" using pos 1(1,4) k1(3) by (simp add: unat_diff_nowrap)
    have len: "length s + length t < length b" using k1(4) 1 n by (simp add: word_le_nat_alt)
    have "holds b (?xs @ ?ys)" using holds_append_fst [OF 1(3)] by simp
    moreover have "length ?xs + length t + length ?ys \<le> length b" using len pos by simp
    ultimately obtain b1 where b1: "move_cells b (unat pos) (unat pos + length t) (length ?ys) = Some b1"
      "length b1 = length b"
      "holds (take (unat pos) b1 @ List.map Some t @ drop (unat pos + length t) b1) (?xs @ t @ ?ys)"
      using move_cells_up [of b ?xs ?ys t] unfolding lx by blast
    let ?b2 = "take (unat pos) b1 @ List.map Some t @ drop (unat pos + length t) b1"
    have p: "put_str b1 (unat pos) t = Some ?b2"
      using pos len b1(2) by (simp add: put_str_def copy_cells_def)
    have lb: "length ?b2 = length b" using pos len b1(2) by simp
    have ln: "length (?xs @ t @ ?ys) = length s + length t" using pos by simp
    have "length (?xs @ t @ ?ys) < length ?b2" unfolding ln lb by (rule len)
    from holds_wr_end [OF b1(3) this, of 0] obtain b3 where
      b3: "wr ?b2 (length s + length t) 0 = Some b3" "holds b3 ((?xs @ t @ ?ys) @ [0])" "length b3 = length b"
      unfolding ln lb by blast
    have "0 \<notin> set (?xs @ t @ ?ys)" using 1(2) assms(2) by (auto dest: in_set_takeD in_set_dropD)
    then have "kstring_is \<lparr>kbuf = b3, kcap = q, ksize = ?n\<rparr> (?xs @ t @ ?ys)"
      using 1 b3 n pos by (intro kstring_isI) simp_all
    moreover have "kstring_insert k pos t = Some \<lparr>kbuf = b3, kcap = q, ksize = ?n\<rparr>"
      using False k1(1,3) 1(1) b1(1) d p b3(1) n by (simp add: kstring_insert_def Let_def)
    ultimately show ?thesis by (simp add: kstring_str_is)
  qed
qed

theorem kstring_insert_string_witness:
  "\<exists>k k'. kstring_from [1, 2, 3] = Some k \<and> kstring_insert k 1 [9, 8] = Some k' \<and> kstring_str k' = Some [1, 9, 8, 2, 3]"
proof -
  obtain k where "kstring_from [1, 2, 3] = Some k" "kstring_is k [1, 2, 3]"
    using kstring_from_is [of "[1, 2, 3]"] by auto
  then show ?thesis using kstring_insert_string [of k "[1, 2, 3]" "[9, 8]" 1] by (auto simp: kstring_room_def)
qed

text \<open>\<open>kstring_erase\<close> removes the \<open>len\<close> characters from position \<open>pos\<close> on, or all that are
  there, and terminates what is left.\<close>

theorem kstring_erase_string:
  assumes "kstring_is k s" and "unat pos + unat len < 4294967296"
  shows "\<exists>k'. kstring_erase k pos len = Some k' \<and> kstring_is k' (take (unat pos) s @ drop (unat pos + unat len) s)"
  using assms(1)
proof (cases rule: kstring_isE)
  case (1 b c n)
  have pl: "unat (pos + len) = unat pos + unat len" using assms(2) by (rule unat_add_nowrap)
  have hs: "holds b s" using 1(3) by (rule holds_append_fst)
  show ?thesis
  proof (cases "pos + len \<ge> n")
    case True
    then have e: "drop (unat pos + unat len) s = []" using 1(4) by (simp add: word_le_nat_alt pl)
    show ?thesis
    proof (cases "pos < n")
      case False
      then have "length s \<le> unat pos" using 1(4) by (simp add: word_less_nat_alt)
      then show ?thesis using True False 1(1) assms(1) e by (simp add: kstring_erase_def)
    next
      case pn: True
      then have lt: "unat pos < length s" using 1(4) by (simp add: word_less_nat_alt)
      let ?s = "take (unat pos) s"
      have ls: "length ?s = unat pos" using lt by simp
      have "length ?s < length b" using lt 1 by simp
      from holds_wr_end [OF holds_take [OF hs] this, of 0] obtain b' where
        b': "wr b (unat pos) 0 = Some b'" "holds b' (?s @ [0])" "length b' = length b" unfolding ls by blast
      have "0 \<notin> set ?s" using 1(2) by (auto dest: in_set_takeD)
      then have "kstring_is \<lparr>kbuf = b', kcap = c, ksize = pos\<rparr> ?s"
        using b' 1 lt by (intro kstring_isI) simp_all
      then show ?thesis using True pn 1(1) b'(1) e by (simp add: kstring_erase_def)
    qed
  next
    case False
    then have lt: "unat pos + unat len < length s" using 1(4) by (simp add: word_le_nat_alt pl)
    let ?xs = "take (unat pos) s" and ?zs = "take (unat len) (drop (unat pos) s)" and ?ys = "drop (unat pos + unat len) s"
    have cat: "s = ?xs @ ?zs @ ?ys" by (metis add.commute append_take_drop_id drop_drop)
    have lens: "length ?xs = unat pos" "length ?zs = unat len" using lt by simp_all
    have "holds b (?xs @ ?zs @ ?ys)" using hs cat by simp
    from move_cells_down [OF this] obtain b1 where b1: "move_cells b (unat pos + unat len) (unat pos) (length ?ys) = Some b1"
      "length b1 = length b" "holds b1 (?xs @ ?ys)" unfolding lens by blast
    have "unat (n - pos) = length s - unat pos" using lt 1(4) by (simp add: unat_diff_nowrap)
    then have d: "unat (n - pos - len) = length ?ys" using lt by (simp add: unat_diff_nowrap)
    have m: "unat (n - len) = length (?xs @ ?ys)" using lt 1(4) by (simp add: unat_diff_nowrap)
    have "length (?xs @ ?ys) < length b1" using b1(2) 1(5,8) lt by simp
    from holds_wr_end [OF b1(3) this, of 0] obtain b2 where
      b2: "wr b1 (unat (n - len)) 0 = Some b2" "holds b2 ((?xs @ ?ys) @ [0])" "length b2 = length b"
      unfolding m b1(2) by blast
    have "0 \<notin> set (?xs @ ?ys)" using 1(2) by (auto dest: in_set_takeD in_set_dropD)
    then have "kstring_is \<lparr>kbuf = b2, kcap = c, ksize = n - len\<rparr> (?xs @ ?ys)"
      using b2 1 m by (intro kstring_isI) simp_all
    then show ?thesis using False 1(1) b1(1) d b2(1) by (simp add: kstring_erase_def pl)
  qed
qed

theorem kstring_erase_string_witness:
  "\<exists>k k'. kstring_from [1, 2, 3] = Some k \<and> kstring_erase k 1 1 = Some k' \<and> kstring_is k' [1, 3]"
proof -
  obtain k where "kstring_from [1, 2, 3] = Some k" "kstring_is k [1, 2, 3]"
    using kstring_from_is [of "[1, 2, 3]"] by auto
  then show ?thesis using kstring_erase_string [of k "[1, 2, 3]" 1 1] by auto
qed

lemma kstring_fit_is:
  assumes "kstring_is k s"
  shows "\<exists>k'. kstring_fit k = Some k' \<and> kstring_is k' s"
proof (cases "ksize k = 0")
  case True
  then show ?thesis using assms by (auto simp: kstring_fit_def kstring_resize_def)
next
  case False
  have "unat (ksize k) \<le> 2147483648" using assms by (cases rule: kstring_isE) simp
  moreover have "0 < unat (ksize k)" using False by (simp add: unat_gt_0)
  ultimately show ?thesis using kstring_resize_is [OF assms, of "ksize k"] by (auto simp: kstring_fit_def)
qed

lemma kstring_clear_is:
  assumes "kstring_is k s"
  shows "\<exists>k'. kstring_clear k = Some k' \<and> kstring_is k' []"
  using assms
proof (cases rule: kstring_isE)
  case (1 b c n)
  obtain b' where "wr b 0 0 = Some b'" "holds b' [0]" "length b' = length b"
    using holds_wr_end [OF holds_Nil, of b 0] 1 by auto
  then show ?thesis using 1 kstring_isI [of "[]" b' 0 c] by (simp add: kstring_clear_def)
qed

text \<open>A copy of a string keeps its size and not its characters: the new buffer is never written, so
  reading the copy reads memory without a value.\<close>

theorem kstring_copy_loses_string:
  assumes "kstring_is k s"
  shows "ksize (kstring_copy k) = ksize k \<and> kstring_str (kstring_copy k) = None"
proof -
  have "unat (kcap k) < unat (kcap k + 1)"
    using assms unat_add_nowrap [of "kcap k" 1] by (simp add: kstring_is_def)
  then obtain m where "unat (kcap k + 1) = Suc m" by (metis gr0_conv_Suc gr_implies_not0 neq0_conv)
  then show ?thesis by (simp add: kstring_copy_def kstring_str_def kstring_alloc_def fresh_def)
qed

theorem kstring_copy_loses_string_witness:
  "\<exists>k. kstring_from [1, 2, 3] = Some k \<and> kstring_str k = Some [1, 2, 3] \<and> kstring_str (kstring_copy k) = None"
proof -
  obtain k where "kstring_from [1, 2, 3] = Some k" "kstring_is k [1, 2, 3]"
    using kstring_from_is [of "[1, 2, 3]"] by auto
  then show ?thesis using kstring_copy_loses_string kstring_str_is by blast
qed

end
