(* ===== verification/Pathbuf.thy ===== *)
theory Pathbuf
  imports Vec Kstring
begin

text \<open>
  \<open>src/pathbuf.c\<close>: parsed path names, the fields a vector of strings. Duplicated strings are
  values. \<open>is_expldir\<close> is \<open>None\<close> where the code leaves the byte as it was on the stack.
\<close>

record pathbuf =
  pfields :: "cstr vec"
  is_absolute :: u8
  is_expldir :: "u8 option"
  up :: u32

definition SLASH :: u8 where "SLASH = 47"
definition DOT :: u8 where "DOT = 46"

definition pathbuf_root :: pathbuf where
  "pathbuf_root = \<lparr>pfields = vec_new, is_absolute = 1, is_expldir = Some 1, up = 0\<rparr>"

text \<open>The loop that pushes copies of the first \<open>n\<close> fields.\<close>

definition copy_fields :: "cstr vec \<Rightarrow> cstr vec \<Rightarrow> nat \<Rightarrow> cstr vec option" where
  "copy_fields to v n = do { xs \<leftarrow> those (List.map (vec_get v) [0..<n]); push_all vec_push to xs }"

definition pathbuf_copy :: "pathbuf \<Rightarrow> pathbuf option" where
  "pathbuf_copy pb = do {
     fs \<leftarrow> copy_fields (vec_new_s (size_v (pfields pb))) (pfields pb) (unat (size_v (pfields pb)));
     Some (pb\<lparr>pfields := fs\<rparr>)
   }"

text \<open>One field of \<open>pathbuf_parse\<close>, ended by the character \<open>c\<close>, and the loop over the characters
  of the address and its terminator.\<close>

definition parse_field :: "u8 \<Rightarrow> pathbuf \<times> kstring \<Rightarrow> (pathbuf \<times> kstring) option" where
  "parse_field c = (\<lambda>(pb, b). do {
     b \<leftarrow> kstring_fit b;
     s \<leftarrow> kstring_str b;
     if s = [DOT, DOT] then do {
       pb \<leftarrow> (if size_v (pfields pb) > 0 then do { (fs, x) \<leftarrow> vec_pop (pfields pb); Some (pb\<lparr>pfields := fs\<rparr>) }
             else if is_absolute pb = 0 then Some (pb\<lparr>up := up pb + 1\<rparr>) else Some pb);
       b \<leftarrow> kstring_clear b;
       Some (pb\<lparr>is_expldir := Some 1\<rparr>, b)
     }
     else if s = [DOT] then do {
       b \<leftarrow> kstring_clear b;
       Some (pb\<lparr>is_expldir := Some 1\<rparr>, b)
     }
     else if ksize b \<noteq> 0 then do {
       fs \<leftarrow> vec_push (pfields pb) s;
       b \<leftarrow> kstring_new;
       Some (if c = 0 then pb\<lparr>pfields := fs, is_expldir := Some 0\<rparr> else pb\<lparr>pfields := fs\<rparr>, b)
     }
     else Some (pb, b)
   })"

fun parse_loop :: "u8 list \<Rightarrow> pathbuf \<times> kstring \<Rightarrow> (pathbuf \<times> kstring) option" where
  "parse_loop [] st = Some st"
| "parse_loop (c # cs) (pb, b) =
     (if c \<noteq> SLASH \<and> c \<noteq> 0 then do { b \<leftarrow> kstring_push b c; parse_loop cs (pb, b) }
      else do {
        st \<leftarrow> parse_field c (pb, b);
        if c = 0 then Some st else parse_loop cs st
      })"

definition pathbuf_parse :: "cstr \<Rightarrow> pathbuf option" where
  "pathbuf_parse address = do {
     b \<leftarrow> kstring_new;
     let pb = \<lparr>pfields = vec_new, is_absolute = (if hd (address @ [0]) = SLASH then 1 else 0), is_expldir = None, up = 0\<rparr>;
     (pb, b) \<leftarrow> parse_loop (address @ [0]) (pb, b);
     Some pb
   }"

text \<open>The loop of \<open>pathbuf_join\<close> that goes up.\<close>

fun go_up :: "pathbuf \<Rightarrow> nat \<Rightarrow> pathbuf option" where
  "go_up pb 0 = Some pb"
| "go_up pb (Suc n) = do {
     pb \<leftarrow> (if size_v (pfields pb) \<noteq> 0 then do { (fs, x) \<leftarrow> vec_pop (pfields pb); Some (pb\<lparr>pfields := fs\<rparr>) }
           else if is_absolute pb = 0 then Some (pb\<lparr>up := up pb + 1\<rparr>) else Some pb);
     go_up pb n
   }"

definition pathbuf_join :: "pathbuf \<Rightarrow> pathbuf \<Rightarrow> pathbuf option" where
  "pathbuf_join buf1 buf2 =
     (if is_absolute buf2 \<noteq> 0 then Some pathbuf_root
      else do {
        res \<leftarrow> pathbuf_copy buf1;
        res \<leftarrow> go_up res (unat (up buf2));
        fs \<leftarrow> copy_fields (pfields res) (pfields buf2) (unat (size_v (pfields buf2)));
        Some (res\<lparr>pfields := fs, is_expldir := is_expldir buf2\<rparr>)
      })"

definition pathbuf_field :: "pathbuf \<Rightarrow> nat \<Rightarrow> cstr option" where
  "pathbuf_field pb i = vec_get (pfields pb) i"

definition pathbuf_len :: "pathbuf \<Rightarrow> u32" where
  "pathbuf_len pb = size_v (pfields pb)"

text \<open>The comparison loop runs over the fields of the first path.\<close>

fun same_fields :: "pathbuf \<Rightarrow> pathbuf \<Rightarrow> nat list \<Rightarrow> bool option" where
  "same_fields p q [] = Some True"
| "same_fields p q (i # js) = do {
     a \<leftarrow> pathbuf_field p i;
     b \<leftarrow> pathbuf_field q i;
     if a \<noteq> b then Some False else same_fields p q js
   }"

definition pathbuf_cmp :: "pathbuf \<Rightarrow> pathbuf \<Rightarrow> bool option" where
  "pathbuf_cmp p q =
     (if pathbuf_len p \<noteq> pathbuf_len q \<or> is_absolute p \<noteq> is_absolute q \<or> up p \<noteq> up q then Some False
      else same_fields p q [0..<unat (pathbuf_len p)])"

text \<open>The null pointer is the inner \<open>None\<close>.\<close>

definition pathbuf_name :: "pathbuf \<Rightarrow> cstr option option" where
  "pathbuf_name pb =
     (if size_v (pfields pb) \<noteq> 0 then do { s \<leftarrow> vec_get (pfields pb) (unat (size_v (pfields pb) - 1)); Some (Some s) }
      else Some None)"

definition pathbuf_parent :: "pathbuf \<Rightarrow> pathbuf option" where
  "pathbuf_parent pb = do {
     fs \<leftarrow> copy_fields (vec_new_s (size_v (pfields pb))) (pfields pb) (unat (size_v (pfields pb) - 1));
     Some (pb\<lparr>pfields := fs, is_expldir := Some 1\<rparr>)
   }"

definition pathbuf_child :: "pathbuf \<Rightarrow> cstr \<Rightarrow> u8 \<Rightarrow> pathbuf option" where
  "pathbuf_child pb name expldir = do {
     fs \<leftarrow> copy_fields (vec_new_s (size_v (pfields pb) + 1)) (pfields pb) (unat (size_v (pfields pb)));
     fs \<leftarrow> vec_push fs name;
     Some (pb\<lparr>pfields := fs, is_expldir := Some expldir\<rparr>)
   }"

fun append_ups :: "kstring \<Rightarrow> nat \<Rightarrow> kstring option" where
  "append_ups k 0 = Some k"
| "append_ups k (Suc n) = do { k \<leftarrow> kstring_append k [DOT, DOT, SLASH]; append_ups k n }"

fun append_fields :: "pathbuf \<Rightarrow> kstring \<Rightarrow> nat list \<Rightarrow> kstring option" where
  "append_fields pb k [] = Some k"
| "append_fields pb k (i # js) = do {
     s \<leftarrow> pathbuf_field pb i;
     k \<leftarrow> kstring_append k s;
     k \<leftarrow> kstring_push k SLASH;
     append_fields pb k js
   }"

definition pathbuf_stringify :: "pathbuf \<Rightarrow> cstr option" where
  "pathbuf_stringify pb = do {
     k \<leftarrow> kstring_new;
     k \<leftarrow> (if is_absolute pb \<noteq> 0 then kstring_push k SLASH else Some k);
     k \<leftarrow> append_ups k (unat (up pb));
     k \<leftarrow> append_fields pb k [0..<unat (size_v (pfields pb))];
     k \<leftarrow> kstring_fit k;
     kstring_str k
   }"

subsection \<open>What parsing means\<close>

text \<open>A path as a value: absolute or not, the number of steps up, the fields, and the flag.\<close>

record path =
  absolute :: bool
  ups :: nat
  names :: "cstr list"
  explicit_dir :: "u8 option"

text \<open>One name of the address; \<open>final\<close> when the address ends after it.\<close>

definition path_step :: "cstr \<Rightarrow> bool \<Rightarrow> path \<Rightarrow> path" where
  "path_step s final p =
     (if s = [DOT, DOT] then
        (if names p \<noteq> [] then p\<lparr>names := butlast (names p), explicit_dir := Some 1\<rparr>
         else p\<lparr>ups := (if absolute p then ups p else Suc (ups p)), explicit_dir := Some 1\<rparr>)
      else if s = [DOT] then p\<lparr>explicit_dir := Some 1\<rparr>
      else if s = [] then p
      else p\<lparr>names := names p @ [s], explicit_dir := (if final then Some 0 else explicit_dir p)\<rparr>)"

text \<open>The names of an address between its slashes; \<open>cur\<close> is what has been read of the current one.\<close>

fun path_walk :: "cstr \<Rightarrow> cstr \<Rightarrow> path \<Rightarrow> path" where
  "path_walk cur [] p = path_step cur True p"
| "path_walk cur (c # cs) p =
     (if c = SLASH then path_walk [] cs (path_step cur False p) else path_walk (cur @ [c]) cs p)"

definition path_of :: "cstr \<Rightarrow> path" where
  "path_of s = path_walk [] s \<lparr>absolute = (s \<noteq> [] \<and> hd s = SLASH), ups = 0, names = [], explicit_dir = None\<rparr>"

text \<open>A path buffer that represents a path.\<close>

definition path_is :: "pathbuf \<Rightarrow> path \<Rightarrow> bool" where
  "path_is pb p \<longleftrightarrow> vec_ok (pfields pb) \<and> vec_list (pfields pb) = names p \<and> is_absolute pb = (if absolute p then 1 else 0) \<and>
     unat (up pb) = ups p \<and> is_expldir pb = explicit_dir p"

lemma path_is_size: "path_is pb p \<Longrightarrow> unat (size_v (pfields pb)) = length (names p)"
  by (simp add: path_is_def vec_ok_iff)

subsection \<open>Parsing computes the path\<close>

lemma size_v_names:
  assumes "path_is pb p"
  shows "size_v (pfields pb) > 0 \<longleftrightarrow> names p \<noteq> []" and "size_v (pfields pb) = 0 \<longleftrightarrow> names p = []"
  using path_is_size [OF assms] by (auto simp: word_gt_0 unat_eq_0)

text \<open>Going one step up, in parsing and in joining.\<close>

lemma up_step:
  assumes "path_is pb p" and "length (names p) + ups p < 268435456"
  shows "\<exists>pb'. (if size_v (pfields pb) > 0 then do { (fs, x) \<leftarrow> vec_pop (pfields pb); Some (pb\<lparr>pfields := fs\<rparr>) }
      else if is_absolute pb = 0 then Some (pb\<lparr>up := up pb + 1\<rparr>) else Some pb) = Some pb' \<and>
    path_is pb' (if names p \<noteq> [] then p\<lparr>names := butlast (names p)\<rparr>
      else p\<lparr>ups := (if absolute p then ups p else Suc (ups p))\<rparr>)"
proof (cases "names p = []")
  case False
  then have "vec_list (pfields pb) \<noteq> []" "vec_ok (pfields pb)" using assms(1) by (simp_all add: path_is_def)
  then obtain fs where "vec_pop (pfields pb) = Some (fs, last (names p))" "vec_ok fs" "vec_list fs = butlast (names p)"
    using vec_pop_list [of "pfields pb"] assms(1) by (auto simp: path_is_def)
  then show ?thesis using False size_v_names [OF assms(1)] assms(1) by (simp add: path_is_def)
next
  case True
  have "unat (up pb + 1) = Suc (ups p)"
    using assms unat_add_nowrap [of "up pb" 1] by (simp add: path_is_def)
  then show ?thesis using True size_v_names [OF assms(1)] assms(1) by (auto simp: path_is_def)
qed

lemma parse_field_step:
  assumes "path_is pb p" and "kstring_is b cur" and "length (names p) + ups p < 268435456"
  shows "\<exists>pb' b'. parse_field c (pb, b) = Some (pb', b') \<and> path_is pb' (path_step cur (c = 0) p) \<and> kstring_is b' []"
proof -
  obtain b1 where b1: "kstring_fit b = Some b1" "kstring_is b1 cur" using kstring_fit_is [OF assms(2)] by blast
  obtain b2 where b2: "kstring_clear b1 = Some b2" "kstring_is b2 []" using kstring_clear_is [OF b1(2)] by blast
  note str = kstring_str_is [OF b1(2)]
  have ks: "ksize b1 = 0 \<longleftrightarrow> cur = []" using b1(2) by (auto simp: kstring_is_def unat_eq_0)
  consider "cur = [DOT, DOT]" | "cur = [DOT]" | "cur = []" | "cur \<noteq> [DOT, DOT]" "cur \<noteq> [DOT]" "cur \<noteq> []" by blast
  then show ?thesis
  proof cases
    case 1
    from up_step [OF assms(1,3)] obtain pb' where u:
      "(if size_v (pfields pb) > 0 then do { (fs, x) \<leftarrow> vec_pop (pfields pb); Some (pb\<lparr>pfields := fs\<rparr>) }
      else if is_absolute pb = 0 then Some (pb\<lparr>up := up pb + 1\<rparr>) else Some pb) = Some pb'"
      "path_is pb' (if names p \<noteq> [] then p\<lparr>names := butlast (names p)\<rparr>
      else p\<lparr>ups := (if absolute p then ups p else Suc (ups p))\<rparr>)" by blast
    have "parse_field c (pb, b) = Some (pb'\<lparr>is_expldir := Some 1\<rparr>, b2)"
      unfolding parse_field_def prod.case b1(1) bind.bind_lunit str 1 if_True u(1) b2(1) by simp
    moreover have "path_is (pb'\<lparr>is_expldir := Some 1\<rparr>) (path_step cur (c = 0) p)"
      using u(2) by (auto simp: path_step_def 1 path_is_def)
    ultimately show ?thesis using b2(2) by blast
  next
    case 2
    then show ?thesis using b1(1) str b2 assms(1)
      by (auto simp: parse_field_def path_step_def path_is_def)
  next
    case 3
    then show ?thesis using b1 str ks assms(1)
      by (auto simp: parse_field_def path_step_def path_is_def)
  next
    case 4
    have "vec_room (pfields pb)" using path_is_size [OF assms(1)] assms(3) by (simp add: vec_room_def)
    then obtain fs where fs: "vec_push (pfields pb) cur = Some fs" "vec_ok fs" "vec_list fs = names p @ [cur]"
      using vec_push_list [of "pfields pb" cur] assms(1) by (auto simp: path_is_def)
    obtain k where k: "kstring_new = Some k" "kstring_is k []" using kstring_new_is by blast
    show ?thesis using 4 b1 str ks fs assms(1) k(2) unfolding parse_field_def k(1)
      by (auto simp: path_step_def path_is_def)
  qed
qed

lemma path_step_growth: "length (names (path_step s f p)) + ups (path_step s f p) \<le> Suc (length (names p) + ups p)"
  by (auto simp: path_step_def)

lemma parse_loop_walk:
  assumes "path_is pb p" and "kstring_is b cur" and "0 \<notin> set cs"
    and "length cur + length cs + length (names p) + ups p < 268435456"
  shows "\<exists>pb' b'. parse_loop (cs @ [0]) (pb, b) = Some (pb', b') \<and> path_is pb' (path_walk cur cs p)"
  using assms
proof (induction cs arbitrary: pb p b cur)
  case Nil
  obtain pb' b' where "parse_field 0 (pb, b) = Some (pb', b')" "path_is pb' (path_step cur True p)"
    using parse_field_step [OF Nil.prems(1,2), of 0] Nil.prems(4) by auto
  then show ?case by (simp add: SLASH_def)
next
  case (Cons c cs)
  have c0: "c \<noteq> 0" using Cons.prems(3) by simp
  show ?case
  proof (cases "c = SLASH")
    case True
    obtain pb' b' where f: "parse_field c (pb, b) = Some (pb', b')" "path_is pb' (path_step cur False p)" "kstring_is b' []"
      using parse_field_step [OF Cons.prems(1,2), of c] Cons.prems(4) c0 by auto
    have "\<exists>pb'' b''. parse_loop (cs @ [0]) (pb', b') = Some (pb'', b'') \<and> path_is pb'' (path_walk [] cs (path_step cur False p))"
      using Cons.prems(3,4) path_step_growth [of cur False p] by (intro Cons.IH [OF f(2,3)]) auto
    then show ?thesis using f(1) c0 True by (auto simp: SLASH_def)
  next
    case False
    have "kstring_room cur 1" using Cons.prems(4) by (simp add: kstring_room_def)
    from kstring_push_is [OF Cons.prems(2) c0 this] obtain b' where b': "kstring_push b c = Some b'" "kstring_is b' (cur @ [c])"
      by blast
    have "\<exists>pb'' b''. parse_loop (cs @ [0]) (pb, b') = Some (pb'', b'') \<and> path_is pb'' (path_walk (cur @ [c]) cs p)"
      using Cons.prems(3,4) by (intro Cons.IH [OF Cons.prems(1) b'(2)]) auto
    then show ?thesis using b'(1) False c0 by simp
  qed
qed

lemma pathbuf_parse_is:
  assumes "0 \<notin> set s" and "length s < 268435456"
  shows "\<exists>pb. pathbuf_parse s = Some pb \<and> path_is pb (path_of s)"
proof -
  obtain k where k: "kstring_new = Some k" "kstring_is k []" using kstring_new_is by blast
  let ?pb = "\<lparr>pfields = vec_new, is_absolute = (if hd (s @ [0]) = SLASH then 1 else 0), is_expldir = None, up = 0\<rparr>"
  let ?p = "\<lparr>absolute = (s \<noteq> [] \<and> hd s = SLASH), ups = 0, names = [], explicit_dir = None\<rparr>"
  have "path_is ?pb ?p" by (cases s) (auto simp: path_is_def vec_new_list SLASH_def)
  from parse_loop_walk [OF this k(2) assms(1)] obtain pb b where
    "parse_loop (s @ [0]) (?pb, k) = Some (pb, b)" "path_is pb (path_of s)"
    using assms(2) unfolding path_of_def by auto
  then show ?thesis unfolding pathbuf_parse_def Let_def k(1) by simp
qed

text \<open>The fields of a parsed path are names: none is empty, a dot or two dots, none has a slash; and an
  absolute path has no steps up.\<close>

definition proper_name :: "cstr \<Rightarrow> bool" where
  "proper_name s \<longleftrightarrow> s \<noteq> [] \<and> s \<noteq> [DOT] \<and> s \<noteq> [DOT, DOT] \<and> SLASH \<notin> set s"

definition normal_path :: "path \<Rightarrow> bool" where
  "normal_path p \<longleftrightarrow> (\<forall>s \<in> set (names p). proper_name s) \<and> (absolute p \<longrightarrow> ups p = 0)"

lemma path_step_normal:
  "normal_path p \<Longrightarrow> SLASH \<notin> set s \<Longrightarrow> normal_path (path_step s f p)"
  by (auto simp: normal_path_def path_step_def proper_name_def dest: in_set_butlastD)

lemma path_walk_normal:
  "normal_path p \<Longrightarrow> SLASH \<notin> set cur \<Longrightarrow> normal_path (path_walk cur cs p)"
  by (induction cur cs p rule: path_walk.induct) (auto simp: path_step_normal)

lemma path_of_normal: "normal_path (path_of s)"
  unfolding path_of_def by (rule path_walk_normal) (simp_all add: normal_path_def)

text \<open>C39. Parsing an address computes its path: the names between the slashes, without empty names and
  dots, each \<open>..\<close> taking back the name before it or counting a step up, none above the root. The
  fields left are proper names, and an absolute path has no steps up.\<close>

theorem pathbuf_parse_path:
  assumes "0 \<notin> set s" and "length s < 268435456"
  shows "\<exists>pb. pathbuf_parse s = Some pb \<and> path_is pb (path_of s) \<and> normal_path (path_of s)"
  using pathbuf_parse_is [OF assms] path_of_normal by blast

theorem pathbuf_parse_path_witness:
  "\<exists>pb. pathbuf_parse [SLASH, 97, SLASH, DOT, DOT, SLASH, 98] = Some pb \<and> vec_list (pfields pb) = [[98]] \<and>
     is_expldir pb = Some 0 \<and> up pb = 0"
  using pathbuf_parse_path [of "[SLASH, 97, SLASH, DOT, DOT, SLASH, 98]"]
  by (auto simp: SLASH_def DOT_def path_of_def path_step_def path_is_def unat_eq_0)

subsection \<open>Printing and parsing back\<close>

definition path_string :: "path \<Rightarrow> cstr" where
  "path_string p = (if absolute p then [SLASH] else []) @ concat (replicate (ups p) [DOT, DOT, SLASH]) @
     concat (List.map (\<lambda>s. s @ [SLASH]) (names p))"

lemma append_ups_is:
  assumes "kstring_is k s" and "length s + 3 * n \<le> 1073741824"
  shows "\<exists>k'. append_ups k n = Some k' \<and> kstring_is k' (s @ concat (replicate n [DOT, DOT, SLASH]))"
  using assms
proof (induction n arbitrary: k s)
  case (Suc n)
  have "0 \<notin> set [DOT, DOT, SLASH]" by (simp add: DOT_def SLASH_def)
  moreover have "kstring_room s (length [DOT, DOT, SLASH])" using Suc.prems(2) by (simp add: kstring_room_def)
  ultimately obtain k1 where k1: "kstring_append k [DOT, DOT, SLASH] = Some k1" "kstring_is k1 (s @ [DOT, DOT, SLASH])"
    using kstring_append_is [OF Suc.prems(1)] by blast
  have "\<exists>k'. append_ups k1 n = Some k' \<and> kstring_is k' ((s @ [DOT, DOT, SLASH]) @ concat (replicate n [DOT, DOT, SLASH]))"
    using Suc.prems(2) by (intro Suc.IH [OF k1(2)]) simp
  then show ?case using k1(1) by simp
qed auto

lemma append_fields_is:
  assumes "path_is pb p" and "kstring_is k s" and "\<forall>i \<in> set js. i < length (names p)" and "\<forall>f \<in> set (names p). 0 \<notin> set f"
    and "length s + length (concat (List.map (\<lambda>i. names p ! i @ [SLASH]) js)) \<le> 1073741824"
  shows "\<exists>k'. append_fields pb k js = Some k' \<and> kstring_is k' (s @ concat (List.map (\<lambda>i. names p ! i @ [SLASH]) js))"
  using assms(2-5)
proof (induction js arbitrary: k s)
  case (Cons j js)
  let ?f = "names p ! j"
  have f: "pathbuf_field pb j = Some ?f" "0 \<notin> set ?f"
    using assms(1) Cons.prems(2,3) vec_get_list [of "pfields pb" j] by (simp_all add: pathbuf_field_def path_is_def)
  have "kstring_room s (length ?f)" using Cons.prems(4) by (simp add: kstring_room_def)
  from kstring_append_is [OF Cons.prems(1) f(2) this] obtain k1 where
    k1: "kstring_append k ?f = Some k1" "kstring_is k1 (s @ ?f)" by blast
  have "kstring_room (s @ ?f) 1" "SLASH \<noteq> 0" using Cons.prems(4) by (simp_all add: kstring_room_def SLASH_def)
  then obtain k2 where k2: "kstring_push k1 SLASH = Some k2" "kstring_is k2 ((s @ ?f) @ [SLASH])"
    using kstring_push_is [OF k1(2)] by blast
  have "\<exists>k'. append_fields pb k2 js = Some k' \<and>
      kstring_is k' (((s @ ?f) @ [SLASH]) @ concat (List.map (\<lambda>i. names p ! i @ [SLASH]) js))"
    using Cons.prems by (intro Cons.IH [OF k2(2)]) auto
  then show ?case using f(1) k1(1) k2(1) by simp
qed auto

lemma map_nth_names: "List.map (\<lambda>i. xs ! i @ [c]) [0..<length xs] = List.map (\<lambda>s. s @ [c]) xs"
  by (rule nth_equalityI) simp_all

lemma pathbuf_stringify_is:
  assumes "path_is pb p" and "\<forall>f \<in> set (names p). 0 \<notin> set f" and "length (path_string p) \<le> 1073741824"
  shows "pathbuf_stringify pb = Some (path_string p)"
proof -
  obtain k0 where k0: "kstring_new = Some k0" "kstring_is k0 []" using kstring_new_is by blast
  let ?a = "if absolute p then [SLASH] else []"
  have "\<exists>k. (if is_absolute pb \<noteq> 0 then kstring_push k0 SLASH else Some k0) = Some k \<and> kstring_is k ?a"
    using kstring_push_is [OF k0(2), of SLASH] k0(2) assms(1) by (auto simp: path_is_def kstring_room_def SLASH_def)
  then obtain k1 where k1: "(if is_absolute pb \<noteq> 0 then kstring_push k0 SLASH else Some k0) = Some k1" "kstring_is k1 ?a" by blast
  have lens: "length ?a + 3 * ups p + length (concat (List.map (\<lambda>s. s @ [SLASH]) (names p))) = length (path_string p)"
    by (simp add: path_string_def length_concat map_replicate_const [symmetric] sum_list_replicate)
  have "length ?a + 3 * ups p \<le> 1073741824" using lens assms(3) by linarith
  from append_ups_is [OF k1(2) this] obtain k2 where k2: "append_ups k1 (ups p) = Some k2"
    "kstring_is k2 (?a @ concat (replicate (ups p) [DOT, DOT, SLASH]))" by blast
  have "\<exists>k'. append_fields pb k2 [0..<length (names p)] = Some k' \<and> kstring_is k' ((?a @ concat (replicate (ups p) [DOT, DOT, SLASH])) @
      concat (List.map (\<lambda>i. names p ! i @ [SLASH]) [0..<length (names p)]))"
    using assms(2,3) by (intro append_fields_is [OF assms(1) k2(2)]) (simp_all add: map_nth_names path_string_def)
  then obtain k3 where k3: "append_fields pb k2 [0..<length (names p)] = Some k3" "kstring_is k3 (path_string p)"
    by (auto simp: map_nth_names path_string_def)
  obtain k4 where k4: "kstring_fit k3 = Some k4" "kstring_is k4 (path_string p)" using kstring_fit_is [OF k3(2)] by blast
  have "unat (up pb) = ups p" using assms(1) by (simp add: path_is_def)
  then show ?thesis
    unfolding pathbuf_stringify_def k0(1) bind.bind_lunit k1(1) path_is_size [OF assms(1)]
    using k2(1) k3(1) k4(1) kstring_str_is [OF k4(2)] by simp
qed

lemma path_walk_name: "SLASH \<notin> set f \<Longrightarrow> path_walk cur (f @ SLASH # rest) p = path_walk [] rest (path_step (cur @ f) False p)"
  by (induction f arbitrary: cur) auto

lemma path_walk_names:
  assumes "\<forall>f \<in> set fs. SLASH \<notin> set f"
  shows "path_walk [] (concat (List.map (\<lambda>s. s @ [SLASH]) fs) @ rest) p = path_walk [] rest (foldl (\<lambda>p s. path_step s False p) p fs)"
  using assms by (induction fs arbitrary: p) (auto simp: path_walk_name)

lemma foldl_proper: "\<forall>f \<in> set fs. proper_name f \<Longrightarrow> foldl (\<lambda>p s. path_step s False p) p fs = p\<lparr>names := names p @ fs\<rparr>"
  by (induction fs arbitrary: p) (auto simp: path_step_def proper_name_def)

lemma foldl_ups:
  assumes "names p = []" and "\<not> absolute p"
  shows "foldl (\<lambda>p s. path_step s False p) p (replicate n [DOT, DOT])
    = p\<lparr>ups := ups p + n, explicit_dir := (if n = 0 then explicit_dir p else Some 1)\<rparr>"
  using assms by (induction n arbitrary: p) (auto simp: path_step_def)

lemma path_of_string:
  assumes "normal_path p"
  shows "absolute (path_of (path_string p)) = absolute p \<and> ups (path_of (path_string p)) = ups p \<and>
    names (path_of (path_string p)) = names p"
proof -
  let ?ns = "concat (List.map (\<lambda>s. s @ [SLASH]) (names p))"
  let ?us = "concat (replicate (ups p) [DOT, DOT, SLASH])"
  let ?p0 = "\<lparr>absolute = absolute p, ups = 0, names = [], explicit_dir = None\<rparr>"
  have nm: "\<forall>f \<in> set (names p). proper_name f" using assms by (simp add: normal_path_def)
  then have sl: "\<forall>f \<in> set (names p). SLASH \<notin> set f" by (simp add: proper_name_def)
  have start: "(path_string p \<noteq> [] \<and> hd (path_string p) = SLASH) = absolute p"
  proof (cases "absolute p \<or> ups p > 0 \<or> names p = []")
    case True
    then show ?thesis
      using assms by (cases "ups p") (auto simp: path_string_def normal_path_def DOT_def SLASH_def)
  next
    case False
    then obtain f fs where f: "names p = f # fs" by (cases "names p") auto
    then obtain c cs where "f = c # cs" using nm by (cases f) (auto simp: proper_name_def)
    then show ?thesis using False f sl by (auto simp: path_string_def)
  qed
  have us: "?us = concat (List.map (\<lambda>s. s @ [SLASH]) (replicate (ups p) [DOT, DOT]))"
    by (simp add: map_replicate)
  have "path_walk [] (?us @ ?ns) ?p0 = path_walk [] ?ns (foldl (\<lambda>p s. path_step s False p) ?p0 (replicate (ups p) [DOT, DOT]))"
    unfolding us by (rule path_walk_names) (simp add: DOT_def SLASH_def)
  also have "foldl (\<lambda>p s. path_step s False p) ?p0 (replicate (ups p) [DOT, DOT]) =
      ?p0\<lparr>ups := ups p, explicit_dir := (if ups p = 0 then None else Some 1)\<rparr>"
  proof (cases "absolute p")
    case True
    then have "ups p = 0" using assms by (simp add: normal_path_def)
    then show ?thesis by simp
  qed (simp add: foldl_ups)
  also have "path_walk [] ?ns \<dots> = path_step [] True (foldl (\<lambda>p s. path_step s False p) \<dots> (names p))"
    using path_walk_names [OF sl, of "[]"] by simp
  finally have w: "path_walk [] (?us @ ?ns) ?p0 = ?p0\<lparr>ups := ups p, explicit_dir := (if ups p = 0 then None else Some 1), names := names p\<rparr>"
    using foldl_proper [OF nm] by (simp add: path_step_def DOT_def)
  have "path_walk [] (path_string p) ?p0 = path_walk [] (?us @ ?ns) ?p0"
    by (simp add: path_string_def path_step_def DOT_def)
  then show ?thesis unfolding path_of_def start w by simp
qed

text \<open>C40. Printing a parsed path and parsing the result gives the same path: the same fields, steps up
  and root.\<close>

theorem pathbuf_roundtrip:
  assumes "path_is pb p" and "normal_path p" and "\<forall>f \<in> set (names p). 0 \<notin> set f"
    and "length (path_string p) < 268435456"
  shows "\<exists>s pb'. pathbuf_stringify pb = Some s \<and> pathbuf_parse s = Some pb' \<and> vec_list (pfields pb') = vec_list (pfields pb) \<and>
    up pb' = up pb \<and> is_absolute pb' = is_absolute pb"
proof -
  have s: "pathbuf_stringify pb = Some (path_string p)"
    using assms(1,3,4) by (intro pathbuf_stringify_is) simp_all
  have "0 \<notin> set (path_string p)" using assms(3) by (auto simp: path_string_def SLASH_def DOT_def)
  from pathbuf_parse_is [OF this assms(4)] obtain pb' where
    "pathbuf_parse (path_string p) = Some pb'" "path_is pb' (path_of (path_string p))" by blast
  then show ?thesis using s path_of_string [OF assms(2)] assms(1)
    by (auto simp: path_is_def word_eq_by_unat)
qed

theorem pathbuf_roundtrip_witness:
  "\<exists>pb s pb'. pathbuf_parse [DOT, DOT, SLASH, 97, SLASH, 98] = Some pb \<and> vec_list (pfields pb) = [[97], [98]] \<and>
     pathbuf_stringify pb = Some s \<and> pathbuf_parse s = Some pb' \<and> vec_list (pfields pb') = [[97], [98]] \<and> up pb' = 1"
proof -
  let ?s = "[DOT, DOT, SLASH, 97, SLASH, 98]"
  have e: "path_of ?s = \<lparr>absolute = False, ups = 1, names = [[97], [98]], explicit_dir = Some 0\<rparr>"
    by (simp add: path_of_def path_step_def DOT_def SLASH_def)
  obtain pb where pb: "pathbuf_parse ?s = Some pb" "path_is pb (path_of ?s)"
    using pathbuf_parse_is [of ?s] by (auto simp: DOT_def SLASH_def)
  have "length (path_string (path_of ?s)) < 268435456" unfolding e by (simp add: path_string_def)
  then obtain s pb' where "pathbuf_stringify pb = Some s" "pathbuf_parse s = Some pb'"
    "vec_list (pfields pb') = vec_list (pfields pb)" "up pb' = up pb"
    using pathbuf_roundtrip [OF pb(2) path_of_normal] e by auto
  then show ?thesis using pb unfolding e by (auto simp: path_is_def word_eq_by_unat)
qed

text \<open>A path that ends in a slash after a name leaves \<open>is_expldir\<close> without a value: the parser sets
  it only at a final name and at dots.\<close>

theorem pathbuf_parse_trailing_slash:
  assumes "proper_name f" and "0 \<notin> set f" and "length f < 1000"
  shows "\<exists>pb. pathbuf_parse (SLASH # f @ [SLASH]) = Some pb \<and> vec_list (pfields pb) = [f] \<and> is_expldir pb = None"
proof -
  have "SLASH \<notin> set f" using assms(1) by (simp add: proper_name_def)
  then have "path_of (SLASH # f @ [SLASH]) = \<lparr>absolute = True, ups = 0, names = [f], explicit_dir = None\<rparr>"
    using assms(1) by (simp add: path_of_def path_walk_name path_step_def proper_name_def DOT_def)
  then show ?thesis
    using pathbuf_parse_is [of "SLASH # f @ [SLASH]"] assms(2,3) by (auto simp: path_is_def SLASH_def)
qed

theorem pathbuf_parse_trailing_slash_witness:
  "\<exists>pb. pathbuf_parse (SLASH # [98, 105, 110] @ [SLASH]) = Some pb \<and> vec_list (pfields pb) = [[98, 105, 110]] \<and> is_expldir pb = None"
  by (rule pathbuf_parse_trailing_slash) (simp_all add: proper_name_def DOT_def SLASH_def)

subsection \<open>Joining and comparing\<close>

lemma those_map_Some: "\<forall>x \<in> set xs. f x = Some (g x) \<Longrightarrow> those (List.map f xs) = Some (List.map g xs)"
  by (induction xs) auto

lemma copy_fields_list:
  assumes "vec_ok v" and "n \<le> length (vec_list v)" and "vec_ok to" and "vec_room_for to (n + k)"
  shows "\<exists>to'. copy_fields to v n = Some to' \<and> vec_ok to' \<and> vec_list to' = vec_list to @ take n (vec_list v) \<and> vec_room_for to' k"
proof -
  have "those (List.map (vec_get v) [0..<n]) = Some (List.map (\<lambda>i. vec_list v ! i) [0..<n])"
    using assms(1,2) by (intro those_map_Some) (simp add: vec_get_list)
  also have "List.map (\<lambda>i. vec_list v ! i) [0..<n] = take n (vec_list v)"
    using assms(2) by (intro nth_equalityI) simp_all
  finally have "copy_fields to v n = push_all vec_push to (take n (vec_list v))" by (simp add: copy_fields_def)
  moreover have "vec_room_for to (length (take n (vec_list v)) + k)" using assms(2,4) by (simp add: min_absorb2)
  ultimately show ?thesis using vs.push_all_law [OF assms(3), of "take n (vec_list v)" k] by simp
qed

text \<open>Joining, on paths: the second path's steps up take back names of the first.\<close>

fun path_up :: "path \<Rightarrow> nat \<Rightarrow> path" where
  "path_up p 0 = p"
| "path_up p (Suc n) =
     path_up (if names p \<noteq> [] then p\<lparr>names := butlast (names p)\<rparr>
       else p\<lparr>ups := (if absolute p then ups p else Suc (ups p))\<rparr>) n"

definition path_join :: "path \<Rightarrow> path \<Rightarrow> path" where
  "path_join p q = (let r = path_up p (ups q) in r\<lparr>names := names r @ names q, explicit_dir := explicit_dir q\<rparr>)"

lemma go_up_is:
  assumes "path_is pb p" and "length (names p) + ups p + n < 268435456"
  shows "\<exists>pb'. go_up pb n = Some pb' \<and> path_is pb' (path_up p n)"
  using assms
proof (induction n arbitrary: pb p)
  case (Suc n)
  let ?p = "if names p \<noteq> [] then p\<lparr>names := butlast (names p)\<rparr>
      else p\<lparr>ups := (if absolute p then ups p else Suc (ups p))\<rparr>"
  have "length (names p) + ups p < 268435456" using Suc.prems(2) by simp
  from up_step [OF Suc.prems(1) this] obtain pb' where
    pb': "(if size_v (pfields pb) > 0 then do { (fs, x) \<leftarrow> vec_pop (pfields pb); Some (pb\<lparr>pfields := fs\<rparr>) }
      else if is_absolute pb = 0 then Some (pb\<lparr>up := up pb + 1\<rparr>) else Some pb) = Some pb'" "path_is pb' ?p" by blast
  have "length (names ?p) + ups ?p + n < 268435456" using Suc.prems(2) by auto
  from Suc.IH [OF pb'(2) this] show ?case using pb'(1) by (simp add: word_gt_0)
qed auto

lemma path_up_size: "length (names (path_up p n)) + ups (path_up p n) \<le> length (names p) + ups p + n"
  by (induction p n rule: path_up.induct) (fastforce split: if_splits)+

lemma pathbuf_copy_is:
  assumes "path_is pb p" and "length (names p) < 268435456"
  shows "\<exists>pb'. pathbuf_copy pb = Some pb' \<and> path_is pb' p"
proof -
  note sz = path_is_size [OF assms(1)]
  have new: "vec_ok (vec_new_s (size_v (pfields pb)) :: cstr vec)" "vec_list (vec_new_s (size_v (pfields pb)) :: cstr vec) = []"
    using vec_new_s_list [of "size_v (pfields pb)", where 'a = cstr] assms(2) sz by simp_all
  then have "unat (size_v (vec_new_s (size_v (pfields pb)) :: cstr vec)) = 0" by (simp add: vec_ok_iff)
  then have "vec_room_for (vec_new_s (size_v (pfields pb)) :: cstr vec) (length (names p) + 0)"
    using assms(2) by (simp add: vec_room_for_def)
  from copy_fields_list [OF _ _ new(1) this, of "pfields pb"] show ?thesis
    using assms(1) new(2) sz by (auto simp: pathbuf_copy_def path_is_def)
qed

text \<open>Joining a relative path to a path takes the second path's steps up from the end of the first,
  then appends its names. Joining an absolute path gives the root, whatever the path was.\<close>

theorem pathbuf_join_path:
  assumes "path_is b1 p" and "path_is b2 q"
    and "length (names p) + ups p + ups q + length (names q) < 268435456"
  shows "\<exists>b. pathbuf_join b1 b2 = Some b \<and> (if absolute q then b = pathbuf_root else path_is b (path_join p q))"
proof (cases "absolute q")
  case True
  then show ?thesis using assms(2) by (simp add: pathbuf_join_def path_is_def)
next
  case False
  obtain c where c: "pathbuf_copy b1 = Some c" "path_is c p" using pathbuf_copy_is [OF assms(1)] assms(3) by auto
  have "unat (up b2) = ups q" using assms(2) by (simp add: path_is_def)
  moreover obtain r where r: "go_up c (ups q) = Some r" "path_is r (path_up p (ups q))"
    using go_up_is [OF c(2), of "ups q"] assms(3) by auto
  have ok: "vec_ok (pfields b2)" "vec_ok (pfields r)" "vec_list (pfields b2) = names q"
    using assms(2) r(2) by (simp_all add: path_is_def)
  have "vec_room_for (pfields r) (length (names q) + 0)"
    using path_is_size [OF r(2)] path_up_size [of p "ups q"] assms(3) by (simp add: vec_room_for_def)
  then obtain fs where "copy_fields (pfields r) (pfields b2) (length (names q)) = Some fs" "vec_ok fs"
    "vec_list fs = names (path_up p (ups q)) @ names q"
    using copy_fields_list [OF ok(1) _ ok(2)] ok(3) r(2) by (fastforce simp: path_is_def)
  ultimately show ?thesis
    using False c(1) r assms(2) path_is_size [OF assms(2)] by (simp add: pathbuf_join_def path_is_def path_join_def Let_def)
qed

theorem pathbuf_join_path_witness:
  "\<exists>b1 b2 b. pathbuf_parse [SLASH, 97, SLASH, 98] = Some b1 \<and> pathbuf_parse [DOT, DOT, SLASH, 99] = Some b2 \<and>
     pathbuf_join b1 b2 = Some b \<and> vec_list (pfields b) = [[97], [99]]"
proof -
  let ?s = "[SLASH, 97, SLASH, 98]" and ?t = "[DOT, DOT, SLASH, 99]"
  have e: "path_of ?s = \<lparr>absolute = True, ups = 0, names = [[97], [98]], explicit_dir = Some 0\<rparr>"
    "path_of ?t = \<lparr>absolute = False, ups = 1, names = [[99]], explicit_dir = Some 0\<rparr>"
    by (simp_all add: path_of_def path_step_def DOT_def SLASH_def)
  obtain b1 b2 where b: "pathbuf_parse ?s = Some b1" "path_is b1 (path_of ?s)" "pathbuf_parse ?t = Some b2" "path_is b2 (path_of ?t)"
    using pathbuf_parse_is [of ?s] pathbuf_parse_is [of ?t] by (auto simp: DOT_def SLASH_def)
  then show ?thesis using pathbuf_join_path [OF b(2,4)] unfolding e by (auto simp: path_join_def path_is_def Let_def)
qed

lemma same_fields_take:
  assumes "path_is b1 p" and "path_is b2 q" and "\<forall>i \<in> set js. i < length (names p) \<and> i < length (names q)"
  shows "same_fields b1 b2 js = Some (\<forall>i \<in> set js. names p ! i = names q ! i)"
  using assms(3)
proof (induction js)
  case (Cons j js)
  have "pathbuf_field b1 j = Some (names p ! j)" "pathbuf_field b2 j = Some (names q ! j)"
    using assms(1,2) Cons.prems vec_get_list [of "pfields b1" j] vec_get_list [of "pfields b2" j]
    by (simp_all add: pathbuf_field_def path_is_def)
  then show ?case using Cons by simp
qed simp

text \<open>\<open>pathbuf_cmp\<close> holds exactly for equal paths, the flag aside.\<close>

theorem pathbuf_cmp_equal:
  assumes "path_is b1 p" and "path_is b2 q"
  shows "pathbuf_cmp b1 b2 = Some (names p = names q \<and> absolute p = absolute q \<and> ups p = ups q)"
proof -
  have f: "is_absolute b1 = is_absolute b2 \<longleftrightarrow> absolute p = absolute q" "up b1 = up b2 \<longleftrightarrow> ups p = ups q"
    using assms by (simp_all add: path_is_def word_eq_by_unat)
  have l: "pathbuf_len b1 = pathbuf_len b2 \<longleftrightarrow> length (names p) = length (names q)"
    using path_is_size [OF assms(1)] path_is_size [OF assms(2)] by (simp add: pathbuf_len_def word_eq_by_unat)
  show ?thesis
  proof (cases "length (names p) = length (names q)")
    case True
    then have "same_fields b1 b2 [0..<unat (pathbuf_len b1)] = Some (\<forall>i < length (names p). names p ! i = names q ! i)"
      using same_fields_take [OF assms(1,2), of "[0..<length (names p)]"]
      unfolding pathbuf_len_def path_is_size [OF assms(1)] by (simp add: Ball_def)
    moreover have "(\<forall>i < length (names p). names p ! i = names q ! i) \<longleftrightarrow> names p = names q"
      using True by (simp add: list_eq_iff_nth_eq)
    ultimately show ?thesis using True unfolding pathbuf_cmp_def f l by simp
  next
    case False
    then have "names p \<noteq> names q" by auto
    with False show ?thesis unfolding pathbuf_cmp_def f l by simp
  qed
qed

theorem pathbuf_cmp_equal_witness:
  "\<exists>b1. pathbuf_parse [SLASH, 97] = Some b1 \<and> pathbuf_cmp b1 b1 = Some True"
proof -
  obtain b where b: "pathbuf_parse [SLASH, 97] = Some b" "path_is b (path_of [SLASH, 97])"
    using pathbuf_parse_is [of "[SLASH, 97]"] by (auto simp: SLASH_def)
  show ?thesis using b(1) pathbuf_cmp_equal [OF b(2) b(2)] by (intro exI [of _ b]) simp
qed

end
