(* ===== verification/Lock.thy ===== *)
theory Lock
  imports Prelude
begin

text \<open>
  \<open>src/lock.c\<close>: counting semaphores and the reader-writer lock. Their queues are the lists
  that \<open>Kqueue\<close> shows a \<open>kqueue_t\<close> to hold. The kernel runs one task at a time and a call is
  interrupted only where it sleeps, so a call is a function up to \<open>task_sleep\<close>, which also
  tells whether the caller sleeps, and a second function for what follows when it is awake
  again. The step relations let any task that is not asleep in a queue run next.
\<close>

type_synonym task = nat

text \<open>The value is an \<open>int32_t\<close>: a 32-bit word that is read as a signed number, and it is set from an
  unsigned one.\<close>

record ksemaphore =
  sq :: "task list"
  sval :: u32

definition ksemaphore_init :: "u32 \<Rightarrow> ksemaphore" where
  "ksemaphore_init initial = \<lparr>sq = [], sval = initial\<rparr>"

text \<open>The result tells whether the caller sleeps.\<close>

definition ksemaphore_wait :: "ksemaphore \<Rightarrow> task \<Rightarrow> ksemaphore \<times> bool" where
  "ksemaphore_wait sem t =
     (let v = sval sem; sem = sem\<lparr>sval := v - 1\<rparr>
      in if sint v \<le> 0 then (sem\<lparr>sq := sq sem @ [t]\<rparr>, True) else (sem, False))"

text \<open>The result is also the task that is made ready, if any.\<close>

definition ksemaphore_signal :: "ksemaphore \<Rightarrow> ksemaphore \<times> task option" where
  "ksemaphore_signal sem =
     (let sem = sem\<lparr>sval := sval sem + 1\<rparr>
      in case sq sem of [] \<Rightarrow> (sem, None) | t # ts \<Rightarrow> (sem\<lparr>sq := ts\<rparr>, Some t))"

lemma sint_range: "- 2147483648 \<le> sint (v :: u32)" "sint (v :: u32) \<le> 2147483647"
  using sint_ge [of v] sint_lt [of v] by simp_all

lemma sint_pred: "- 2147483648 < sint (v :: u32) \<Longrightarrow> sint (v - 1) = sint v - 1"
  using sint_range [of v] by (simp add: sint_word_ariths signed_take_bit_int_eq_self)

lemma sint_succ: "sint (v :: u32) < 2147483647 \<Longrightarrow> sint (v + 1) = sint v + 1"
  using sint_range [of v] by (simp add: sint_word_ariths signed_take_bit_int_eq_self)

lemma signal_fields:
  assumes "ksemaphore_signal sem = (sem', w)"
  shows "sval sem' = sval sem + 1" and "sq sem' = tl (sq sem)"
  using assms by (auto simp: ksemaphore_signal_def Let_def split: list.splits)

text \<open>The queue is as long as the value is below zero, and a signal keeps it so.\<close>

definition queue_counted :: "ksemaphore \<Rightarrow> bool" where
  "queue_counted sem \<longleftrightarrow> distinct (sq sem) \<and> int (length (sq sem)) = max 0 (- sint (sval sem))"

lemma signal_counted:
  assumes "ksemaphore_signal sem = (sem', w)" and "queue_counted sem" and "sint (sval sem) < 2147483647"
  shows "sint (sval sem') = sint (sval sem) + 1" and "queue_counted sem'" and "set (sq sem') \<subseteq> set (sq sem)"
  using assms(2) signal_fields [OF assms(1)] sint_succ [OF assms(3)]
  by (cases "sq sem"; auto simp: queue_counted_def)+

subsection \<open>A semaphore that guards a section\<close>

text \<open>\<open>T\<close> are the tasks that use the semaphore.\<close>

datatype phase = Outside | Asleep | Inside

record sem_sys =
  the_sem :: ksemaphore
  phase_of :: "task \<Rightarrow> phase"

inductive sem_step :: "task set \<Rightarrow> sem_sys \<Rightarrow> sem_sys \<Rightarrow> bool" for T where
  enter: "t \<in> T \<Longrightarrow> phase_of s t = Outside \<Longrightarrow> ksemaphore_wait (the_sem s) t = (sem, sleeps) \<Longrightarrow>
    sem_step T s (s\<lparr>the_sem := sem, phase_of := (phase_of s)(t := if sleeps then Asleep else Inside)\<rparr>)"
| resume: "phase_of s t = Asleep \<Longrightarrow> t \<notin> set (sq (the_sem s)) \<Longrightarrow>
    sem_step T s (s\<lparr>phase_of := (phase_of s)(t := Inside)\<rparr>)"
| leave: "phase_of s t = Inside \<Longrightarrow> ksemaphore_signal (the_sem s) = (sem, woken) \<Longrightarrow>
    sem_step T s (s\<lparr>the_sem := sem, phase_of := (phase_of s)(t := Outside)\<rparr>)"

inductive sem_reach :: "task set \<Rightarrow> u32 \<Rightarrow> sem_sys \<Rightarrow> bool" for T n where
  init: "sem_reach T n \<lparr>the_sem = ksemaphore_init n, phase_of = (\<lambda>_. Outside)\<rparr>"
| step: "sem_reach T n s \<Longrightarrow> sem_step T s s' \<Longrightarrow> sem_reach T n s'"

definition tasks_in :: "phase \<Rightarrow> sem_sys \<Rightarrow> task set" where
  "tasks_in ph s = {t. phase_of s t = ph}"

text \<open>The value counts the permits that are left less the sleepers, and there are as many sleepers in
  the queue as the value is below zero.\<close>

definition sem_inv :: "task set \<Rightarrow> u32 \<Rightarrow> sem_sys \<Rightarrow> bool" where
  "sem_inv T n s \<longleftrightarrow> tasks_in Inside s \<union> tasks_in Asleep s \<subseteq> T \<and>
     set (sq (the_sem s)) \<subseteq> tasks_in Asleep s \<and> queue_counted (the_sem s) \<and>
     sint (sval (the_sem s)) = sint n - int (card (tasks_in Inside s)) - int (card (tasks_in Asleep s))"

text \<open>The tasks are so few that the value never wraps.\<close>

definition few_tasks :: "task set \<Rightarrow> bool" where
  "few_tasks T \<longleftrightarrow> finite T \<and> card T \<le> 2147483648"

lemma tasks_in_update:
  "tasks_in ph (s\<lparr>phase_of := (phase_of s)(t := ph')\<rparr>) = (if ph = ph' then insert t (tasks_in ph s) else tasks_in ph s - {t})"
  "tasks_in ph (s\<lparr>the_sem := sem, phase_of := (phase_of s)(t := ph')\<rparr>) = (if ph = ph' then insert t (tasks_in ph s) else tasks_in ph s - {t})"
  by (auto simp: tasks_in_def)

lemma in_phase [simp]: "t \<in> tasks_in ph s \<longleftrightarrow> phase_of s t = ph"
  by (simp add: tasks_in_def)

lemma sem_inv_finite:
  assumes "sem_inv T n s" and "few_tasks T"
  shows "finite (tasks_in Inside s)" and "finite (tasks_in Asleep s)"
  using assms by (auto simp: sem_inv_def few_tasks_def intro: finite_subset)

lemma sem_inv_room:
  assumes "sem_inv T n s" and "few_tasks T" and "0 \<le> sint n" and "t \<in> T" and "phase_of s t = Outside"
  shows "sint (sval (the_sem s) - 1) = sint (sval (the_sem s)) - 1"
proof -
  let ?A = "tasks_in Inside s" and ?B = "tasks_in Asleep s"
  have sub: "?A \<union> ?B \<subseteq> T - {t}" using assms(1,5) by (auto simp: sem_inv_def)
  have "card ?A + card ?B = card (?A \<union> ?B)"
    using sem_inv_finite [OF assms(1,2)] by (intro card_Un_disjoint [symmetric]) (auto simp: tasks_in_def)
  also have "\<dots> \<le> card (T - {t})" using assms(2) sub by (intro card_mono) (auto simp: few_tasks_def)
  also have "\<dots> < card T" using assms(2,4) by (intro card_Diff1_less) (simp_all add: few_tasks_def)
  finally have "int (card ?A) + int (card ?B) < 2147483648" using assms(2) by (simp add: few_tasks_def)
  then show ?thesis using assms(1,3) by (intro sint_pred) (simp add: sem_inv_def)
qed

lemma sem_inv_step:
  assumes inv: "sem_inv T n s" and few: "few_tasks T" and n: "0 \<le> sint n" and "sem_step T s s'"
  shows "sem_inv T n s'"
  using assms(4)
proof cases
  case (enter t sem sleeps)
  have fin: "finite (tasks_in Inside s)" "finite (tasks_in Asleep s)" by (rule sem_inv_finite [OF inv few])+
  have out: "t \<notin> tasks_in Inside s" "t \<notin> tasks_in Asleep s" using enter(3) by simp_all
  then have "t \<notin> set (sq (the_sem s))" using inv by (auto simp: sem_inv_def)
  moreover have "sint (sval (the_sem s) - 1) = sint (sval (the_sem s)) - 1"
    by (rule sem_inv_room [OF inv few n enter(2,3)])
  ultimately show ?thesis
    using inv out fin enter(2,4) unfolding enter(1)
    by (cases "sint (sval (the_sem s)) \<le> 0")
      (auto simp: sem_inv_def queue_counted_def tasks_in_update card_insert_if ksemaphore_wait_def Let_def)
next
  case (resume t)
  have fin: "finite (tasks_in Asleep s)" "finite (tasks_in Inside s)" by (rule sem_inv_finite [OF inv few])+
  have "t \<in> tasks_in Asleep s" "t \<notin> tasks_in Inside s" using resume by simp_all
  moreover from this(1) fin have "0 < card (tasks_in Asleep s)" by (metis card_gt_0_iff empty_iff)
  ultimately show ?thesis
    using inv fin resume(3) unfolding resume(1)
    by (auto simp: sem_inv_def tasks_in_update card_insert_if card_Diff_singleton of_nat_diff)
next
  case (leave t sem woken)
  have fin: "finite (tasks_in Asleep s)" "finite (tasks_in Inside s)" by (rule sem_inv_finite [OF inv few])+
  have t: "t \<in> tasks_in Inside s" "t \<notin> tasks_in Asleep s" using leave by simp_all
  then have c: "0 < card (tasks_in Inside s)" using fin by (metis card_gt_0_iff empty_iff)
  then have "sint (sval (the_sem s)) < 2147483647"
    using inv sint_range [of n] by (simp add: sem_inv_def)
  from signal_counted [OF leave(3) _ this] inv
  have "sint (sval sem) = sint (sval (the_sem s)) + 1" "queue_counted sem" "set (sq sem) \<subseteq> set (sq (the_sem s))"
    by (simp_all add: sem_inv_def)
  then show ?thesis
    using inv t c fin unfolding leave(1)
    by (auto simp: sem_inv_def tasks_in_update card_Diff_singleton of_nat_diff)
qed

lemma sem_reach_inv: "sem_reach T n s \<Longrightarrow> few_tasks T \<Longrightarrow> 0 \<le> sint n \<Longrightarrow> sem_inv T n s"
proof (induction rule: sem_reach.induct)
  case init
  then show ?case by (simp add: sem_inv_def tasks_in_def ksemaphore_init_def queue_counted_def)
qed (auto intro: sem_inv_step)

lemma sem_inv_counts:
  assumes "sem_inv T n s" and "few_tasks T" and "0 \<le> sint n"
  defines "woken \<equiv> tasks_in Asleep s - set (sq (the_sem s))"
  shows "int (card (tasks_in Inside s)) + int (card woken) \<le> sint n"
    and "sq (the_sem s) \<noteq> [] \<Longrightarrow> int (card (tasks_in Inside s)) + int (card woken) = sint n"
proof -
  have f: "finite (tasks_in Asleep s)" "set (sq (the_sem s)) \<subseteq> tasks_in Asleep s"
    "card (set (sq (the_sem s))) = length (sq (the_sem s))"
    "int (length (sq (the_sem s))) = max 0 (- sint (sval (the_sem s)))"
    "sint (sval (the_sem s)) = sint n - int (card (tasks_in Inside s)) - int (card (tasks_in Asleep s))"
    using assms(1) sem_inv_finite [OF assms(1,2)] by (simp_all add: sem_inv_def queue_counted_def distinct_card)
  have "card (tasks_in Asleep s) = card woken + length (sq (the_sem s))"
    using card_mono [OF f(1,2)] card_Diff_subset [OF finite_subset [OF f(2,1)] f(2)] f(3)
    unfolding woken_def by linarith
  then show "int (card (tasks_in Inside s)) + int (card woken) \<le> sint n" using f(4,5) assms(3) by linarith
  assume "sq (the_sem s) \<noteq> []"
  then have "0 < length (sq (the_sem s))" by simp
  then show "int (card (tasks_in Inside s)) + int (card woken) = sint n"
    using f(4,5) \<open>card (tasks_in Asleep s) = card woken + length (sq (the_sem s))\<close> by linarith
qed

text \<open>C32. A section guarded by a semaphore of \<open>n\<close> permits, \<open>n\<close> not negative as an \<open>int32_t\<close>, and used by
  at most \<open>2\<^sup>3\<^sup>1\<close> tasks never has more than \<open>n\<close> tasks inside, however they enter, sleep, wake up and
  leave; and as long as a task is queued for it, \<open>n\<close> tasks are inside or awake and on their way in,
  so no wake-up is lost.\<close>

theorem ksemaphore_guards:
  assumes "sem_reach T n s" and "finite T" and "card T \<le> 2147483648" and "0 \<le> sint n"
  shows "int (card (tasks_in Inside s)) \<le> sint n \<and>
    (sq (the_sem s) \<noteq> [] \<longrightarrow>
      int (card (tasks_in Inside s)) + int (card (tasks_in Asleep s - set (sq (the_sem s)))) = sint n)"
proof -
  have "few_tasks T" using assms(2,3) by (simp add: few_tasks_def)
  from sem_inv_counts [OF sem_reach_inv [OF assms(1) this assms(4)] this assms(4)] show ?thesis by force
qed

theorem ksemaphore_guards_witness:
  "\<exists>s. sem_reach {5, 6} 1 s \<and> phase_of s 5 = Inside \<and> phase_of s 6 = Asleep \<and> int (card (tasks_in Inside s)) \<le> 1"
proof -
  let ?s0 = "\<lparr>the_sem = ksemaphore_init 1, phase_of = (\<lambda>_. Outside)\<rparr>"
  let ?s1 = "?s0\<lparr>the_sem := \<lparr>sq = [], sval = 0\<rparr>, phase_of := (phase_of ?s0)(5 := if False then Asleep else Inside)\<rparr>"
  let ?s2 = "?s1\<lparr>the_sem := \<lparr>sq = [6], sval = -1\<rparr>, phase_of := (phase_of ?s1)(6 := if True then Asleep else Inside)\<rparr>"
  have 1: "sem_step {5, 6} ?s0 ?s1"
    by (rule sem_step.enter) (simp_all add: ksemaphore_wait_def ksemaphore_init_def)
  have 2: "sem_step {5, 6} ?s1 ?s2" by (rule sem_step.enter) (simp_all add: ksemaphore_wait_def)
  have "sem_reach {5, 6} 1 ?s2" using sem_reach.step [OF sem_reach.step [OF sem_reach.init 1] 2] .
  then show ?thesis using ksemaphore_guards [of "{5, 6}" 1 ?s2] by (intro exI [of _ ?s2]) simp
qed

subsection \<open>The reader-writer lock\<close>

datatype rwop = RW_NONE | RW_READ | RW_WRITE

record krwlock =
  procq :: "task list"
  opq :: "rwop list"
  readers :: u32
  operation :: rwop

definition krwlock_init :: krwlock where
  "krwlock_init = \<lparr>procq = [], opq = [], readers = 0, operation = RW_NONE\<rparr>"

definition krwlock_read :: "krwlock \<Rightarrow> task \<Rightarrow> krwlock \<times> bool" where
  "krwlock_read l t =
     (if operation l = RW_WRITE \<or> operation l = RW_READ \<and> opq l \<noteq> [] \<and> hd (opq l) = RW_WRITE
      then (l\<lparr>procq := procq l @ [t], opq := opq l @ [RW_READ]\<rparr>, True) else (l, False))"

text \<open>What \<open>krwlock_read\<close> does once it does not sleep any more: it lets in the readers that are first
  in the queue. The second result are the tasks made ready.\<close>

fun wake_readers :: "task list \<Rightarrow> rwop list \<Rightarrow> task list \<times> task list \<times> rwop list" where
  "wake_readers (t # ts) (RW_READ # ops) = (let (w, ts', ops') = wake_readers ts ops in (t # w, ts', ops'))"
| "wake_readers ts ops = ([], ts, ops)"

definition krwlock_read_in :: "krwlock \<Rightarrow> krwlock \<times> task list" where
  "krwlock_read_in l =
     (let (woken, ps, os) = wake_readers (procq l) (opq l)
      in (l\<lparr>readers := readers l + 1, operation := RW_READ, procq := ps, opq := os\<rparr>, woken))"

definition krwlock_write :: "krwlock \<Rightarrow> task \<Rightarrow> krwlock \<times> bool" where
  "krwlock_write l t =
     (if operation l \<noteq> RW_NONE then (l\<lparr>procq := procq l @ [t], opq := opq l @ [RW_WRITE]\<rparr>, True) else (l, False))"

definition krwlock_write_in :: "krwlock \<Rightarrow> krwlock" where
  "krwlock_write_in l = l\<lparr>operation := RW_WRITE\<rparr>"

definition krwlock_release :: "krwlock \<Rightarrow> krwlock \<times> task option" where
  "krwlock_release l =
     (let (l, flag) = (if readers l \<noteq> 0 then (l\<lparr>readers := readers l - 1\<rparr>, readers l - 1 = 0) else (l, True))
      in if flag then
           (case procq l of
              [] \<Rightarrow> (l\<lparr>operation := RW_NONE\<rparr>, None)
            | t # ts \<Rightarrow> (l\<lparr>procq := ts, opq := tl (opq l), operation := RW_NONE\<rparr>, Some t))
         else (l, None))"

text \<open>Taking the lock in a run of one task: there is no result where the task would sleep.\<close>

definition take_read :: "krwlock \<Rightarrow> task \<Rightarrow> krwlock option" where
  "take_read l t = (case krwlock_read l t of (l, sleeps) \<Rightarrow> if sleeps then None else Some (fst (krwlock_read_in l)))"

definition take_write :: "krwlock \<Rightarrow> task \<Rightarrow> krwlock option" where
  "take_write l t = (case krwlock_write l t of (l, sleeps) \<Rightarrow> if sleeps then None else Some (krwlock_write_in l))"

definition release :: "krwlock \<Rightarrow> krwlock" where
  "release l = fst (krwlock_release l)"

lemma free_lock:
  "take_write krwlock_init t = Some (krwlock_write_in krwlock_init)" "release (krwlock_write_in krwlock_init) = krwlock_init"
  "take_read krwlock_init t = Some (fst (krwlock_read_in krwlock_init))" "release (fst (krwlock_read_in krwlock_init)) = krwlock_init"
  by (simp_all add: take_write_def take_read_def release_def krwlock_write_def krwlock_read_def krwlock_init_def
      krwlock_write_in_def krwlock_read_in_def krwlock_release_def)

datatype rwphase = Free | WaitsRead | WaitsWrite | Reads | Writes

record rw_sys =
  rwl :: krwlock
  rwphase_of :: "task \<Rightarrow> rwphase"

inductive rw_step :: "rw_sys \<Rightarrow> rw_sys \<Rightarrow> bool" where
  read_sleep: "rwphase_of s t = Free \<Longrightarrow> krwlock_read (rwl s) t = (l, True) \<Longrightarrow>
    rw_step s (s\<lparr>rwl := l, rwphase_of := (rwphase_of s)(t := WaitsRead)\<rparr>)"
| read_enter: "rwphase_of s t = Free \<Longrightarrow> krwlock_read (rwl s) t = (l, False) \<Longrightarrow> krwlock_read_in l = (l', w) \<Longrightarrow>
    rw_step s (s\<lparr>rwl := l', rwphase_of := (rwphase_of s)(t := Reads)\<rparr>)"
| read_resume: "rwphase_of s t = WaitsRead \<Longrightarrow> t \<notin> set (procq (rwl s)) \<Longrightarrow> krwlock_read_in (rwl s) = (l', w) \<Longrightarrow>
    rw_step s (s\<lparr>rwl := l', rwphase_of := (rwphase_of s)(t := Reads)\<rparr>)"
| write_sleep: "rwphase_of s t = Free \<Longrightarrow> krwlock_write (rwl s) t = (l, True) \<Longrightarrow>
    rw_step s (s\<lparr>rwl := l, rwphase_of := (rwphase_of s)(t := WaitsWrite)\<rparr>)"
| write_enter: "rwphase_of s t = Free \<Longrightarrow> krwlock_write (rwl s) t = (l, False) \<Longrightarrow>
    rw_step s (s\<lparr>rwl := krwlock_write_in l, rwphase_of := (rwphase_of s)(t := Writes)\<rparr>)"
| write_resume: "rwphase_of s t = WaitsWrite \<Longrightarrow> t \<notin> set (procq (rwl s)) \<Longrightarrow>
    rw_step s (s\<lparr>rwl := krwlock_write_in (rwl s), rwphase_of := (rwphase_of s)(t := Writes)\<rparr>)"
| release: "rwphase_of s t = Reads \<or> rwphase_of s t = Writes \<Longrightarrow> krwlock_release (rwl s) = (l, w) \<Longrightarrow>
    rw_step s (s\<lparr>rwl := l, rwphase_of := (rwphase_of s)(t := Free)\<rparr>)"

definition rw_init :: rw_sys where
  "rw_init = \<lparr>rwl = krwlock_init, rwphase_of = (\<lambda>_. Free)\<rparr>"

definition rw_reach :: "rw_sys \<Rightarrow> bool" where
  "rw_reach = rw_step\<^sup>*\<^sup>* rw_init"

text \<open>The reader-writer lock does not exclude two writers. A release wakes the first waiter and
  opens the lock at once; a task that asks for the lock before the waiter runs gets it, and the
  waiter then enters without looking again.\<close>

theorem krwlock_two_writers:
  "\<exists>s. rw_reach s \<and> rwphase_of s 2 = Writes \<and> rwphase_of s 3 = Writes"
proof -
  let ?ph = "\<lambda>_. Free"
  let ?L = "\<lambda>ps os op. \<lparr>procq = ps, opq = os, readers = 0, operation = op\<rparr>"
  let ?s1 = "\<lparr>rwl = ?L [] [] RW_WRITE, rwphase_of = ?ph(1 := Writes)\<rparr>"
  let ?s2 = "\<lparr>rwl = ?L [2] [RW_WRITE] RW_WRITE, rwphase_of = ?ph(1 := Writes, 2 := WaitsWrite)\<rparr>"
  let ?s3 = "\<lparr>rwl = ?L [] [] RW_NONE, rwphase_of = ?ph(1 := Writes, 2 := WaitsWrite, 1 := Free)\<rparr>"
  let ?s4 = "\<lparr>rwl = ?L [] [] RW_WRITE, rwphase_of = ?ph(1 := Writes, 2 := WaitsWrite, 1 := Free, 3 := Writes)\<rparr>"
  let ?s5 = "\<lparr>rwl = ?L [] [] RW_WRITE,
    rwphase_of = ?ph(1 := Writes, 2 := WaitsWrite, 1 := Free, 3 := Writes, 2 := Writes)\<rparr>"
  have 1: "rw_step rw_init ?s1"
    using rw_step.write_enter [of rw_init 1 krwlock_init]
    by (simp add: rw_init_def krwlock_write_def krwlock_init_def krwlock_write_in_def)
  have 2: "rw_step ?s1 ?s2"
    using rw_step.write_sleep [of ?s1 2 "?L [2] [RW_WRITE] RW_WRITE"] by (simp add: krwlock_write_def)
  have 3: "rw_step ?s2 ?s3"
    using rw_step.release [of ?s2 1 "?L [] [] RW_NONE" "Some 2"] by (simp add: krwlock_release_def)
  have 4: "rw_step ?s3 ?s4"
    using rw_step.write_enter [of ?s3 3 "?L [] [] RW_NONE"] by (simp add: krwlock_write_def krwlock_write_in_def)
  have 5: "rw_step ?s4 ?s5"
    using rw_step.write_resume [of ?s4 2] by (simp add: krwlock_write_in_def)
  have "rw_reach ?s5"
    unfolding rw_reach_def using 1 2 3 4 5 by (meson rtranclp.rtrancl_into_rtrancl rtranclp.rtrancl_refl)
  then show ?thesis by (intro exI [of _ ?s5]) simp
qed

end
