(* ===== verification/Ata.thy ===== *)
theory Ata
  imports Lock Cells
begin

text \<open>
  \<open>src/ata.c\<close>: the disk driver. A sector on the disk is 512 cells, \<open>None\<close> a byte whose value
  the kernel never determined. The device is its command block registers and the disk; it answers
  a command by an interrupt, which the kernel takes only while the caller sleeps, so an operation
  is a function up to \<open>task_sleep\<close>, the handler, and a function for what follows. The two loops
  that poll the status register end when the device is ready and change nothing.
\<close>

type_synonym disk = "u32 \<Rightarrow> u8 cells"

record ata_device =
  sector_count :: u8
  lba_low :: u8
  lba_mid :: u8
  lba_high :: u8
  drive_head :: u8
  command :: u8
  disk :: disk

datatype ata_op = ATA_OP_READ | ATA_OP_WRITE | ATA_OP_FLUSH

record ata =
  ata_current_lba :: u32
  ata_current_buffer :: "u8 cells"
  ata_current_op :: ata_op
  ata_task :: "task option"
  disk_sem :: ksemaphore
  device :: ata_device

definition ATA_CMD_READ_PIO :: u8 where "ATA_CMD_READ_PIO = 0x20"
definition ATA_CMD_WRITE_PIO :: u8 where "ATA_CMD_WRITE_PIO = 0x30"
definition ATA_CMD_CACHE_FLUSH :: u8 where "ATA_CMD_CACHE_FLUSH = 0xE7"

definition ata_init :: "ata_device \<Rightarrow> ata" where
  "ata_init d = \<lparr>ata_current_lba = 0, ata_current_buffer = [], ata_current_op = ATA_OP_READ, ata_task = None,
     disk_sem = ksemaphore_init 1, device = d\<rparr>"

text \<open>The writes to the registers, and how the device reads a 28-bit address and a number of sectors,
  where 0 stands for 256, from them.\<close>

definition ata_program :: "u32 \<Rightarrow> u8 \<Rightarrow> ata_device \<Rightarrow> ata_device" where
  "ata_program sector cmd d = d\<lparr>sector_count := 1, lba_low := ucast (sector AND 0xff), lba_mid := ucast (drop_bit 8 sector AND 0xff),
     lba_high := ucast (drop_bit 16 sector AND 0xff),
     drive_head := ucast (0xe0 OR (drop_bit 24 sector AND 0x0f)), command := cmd\<rparr>"

definition device_sector :: "ata_device \<Rightarrow> u32" where
  "device_sector d = ucast (lba_low d) OR push_bit 8 (ucast (lba_mid d)) OR push_bit 16 (ucast (lba_high d)) OR
     push_bit 24 (ucast (drive_head d AND 0x0f))"

definition device_count :: "ata_device \<Rightarrow> nat" where
  "device_count d = (if sector_count d = 0 then 256 else unat (sector_count d))"

text \<open>\<open>ata_read\<close> and \<open>ata_write\<close> up to the sleep. The result is \<open>None\<close> in the case where the
  caller waits for the semaphore first. The data of a write goes out as 256 words.\<close>

definition cell_words :: "u8 cells \<Rightarrow> (u8 option \<times> u8 option) list" where
  "cell_words b = List.map (\<lambda>i. (b ! (2 * i), b ! (2 * i + 1))) [0..<256]"

definition word_cells :: "(u8 option \<times> u8 option) list \<Rightarrow> u8 cells" where
  "word_cells ws = concat (List.map (\<lambda>(lo, hi). [lo, hi]) ws)"

definition ata_read_start :: "ata \<Rightarrow> task \<Rightarrow> u32 \<Rightarrow> u8 cells \<Rightarrow> ata option" where
  "ata_read_start a t sector buffer =
     (case ksemaphore_wait (disk_sem a) t of
        (sem, True) \<Rightarrow> None
      | (sem, False) \<Rightarrow>
          Some (a\<lparr>disk_sem := sem, ata_current_buffer := buffer, ata_current_op := ATA_OP_READ, ata_current_lba := sector,
            device := ata_program sector ATA_CMD_READ_PIO (device a), ata_task := Some t\<rparr>))"

text \<open>The device takes the data words of a \<open>WRITE SECTORS\<close> command, \<open>0x30\<close>, for the sector of the
  address; the sectors that follow it in the number asked for are overwritten by what was never sent,
  which is not determined. It gives the data words of a \<open>READ SECTORS\<close>, \<open>0x20\<close>, of which the first
  256 are those of the sector of the address; what the data port gives otherwise is not determined.\<close>

definition device_store :: "(u8 option \<times> u8 option) list \<Rightarrow> ata_device \<Rightarrow> ata_device" where
  "device_store ws d =
     (if command d = 0x30 then
        d\<lparr>disk := (\<lambda>s. let k = unat (s - device_sector d) in
          if k = 0 then word_cells ws else if k < device_count d then fresh 512 else disk d s)\<rparr>
      else d)"

definition device_data :: "ata_device \<Rightarrow> u8 cells" where
  "device_data d = (if command d = 0x20 then disk d (device_sector d) else fresh 512)"

definition ata_write_start :: "ata \<Rightarrow> task \<Rightarrow> u32 \<Rightarrow> u8 cells \<Rightarrow> ata option" where
  "ata_write_start a t sector buffer =
     (if length buffer < 512 then None
      else case ksemaphore_wait (disk_sem a) t of
        (sem, True) \<Rightarrow> None
      | (sem, False) \<Rightarrow>
          Some (a\<lparr>disk_sem := sem, ata_current_buffer := buffer, ata_current_op := ATA_OP_WRITE, ata_current_lba := sector,
            device := device_store (cell_words buffer) (ata_program sector ATA_CMD_WRITE_PIO (device a)), ata_task := Some t\<rparr>))"

text \<open>The interrupt handler; the result is also the task it makes ready.\<close>

definition ata_ihandler :: "ata \<Rightarrow> (ata \<times> task option) option" where
  "ata_ihandler a =
     (if ata_current_op a = ATA_OP_WRITE then
        Some (a\<lparr>ata_current_op := ATA_OP_FLUSH, device := (device a)\<lparr>command := ATA_CMD_CACHE_FLUSH\<rparr>, ata_task := None\<rparr>, ata_task a)
      else do {
        a \<leftarrow> (if ata_current_op a = ATA_OP_READ then do {
               b \<leftarrow> copy_cells (ata_current_buffer a) (device_data (device a)) 0 512;
               Some (a\<lparr>ata_current_buffer := b\<rparr>)
             } else Some a);
        Some (a\<lparr>ata_task := None\<rparr>, ata_task a)
      })"

text \<open>What both operations do after the sleep, and the operations from end to end.\<close>

definition ata_end :: "ata \<Rightarrow> ata \<times> task option" where
  "ata_end a = (let (sem, woken) = ksemaphore_signal (disk_sem a) in (a\<lparr>disk_sem := sem\<rparr>, woken))"

definition ata_read :: "ata \<Rightarrow> task \<Rightarrow> u32 \<Rightarrow> u8 cells \<Rightarrow> (ata \<times> u8 cells) option" where
  "ata_read a t sector buffer = do {
     a \<leftarrow> ata_read_start a t sector buffer;
     (a, woken) \<leftarrow> ata_ihandler a;
     Some (fst (ata_end a), ata_current_buffer a)
   }"

definition ata_write :: "ata \<Rightarrow> task \<Rightarrow> u32 \<Rightarrow> u8 cells \<Rightarrow> ata option" where
  "ata_write a t sector buffer = do {
     a \<leftarrow> ata_write_start a t sector buffer;
     (a, woken) \<leftarrow> ata_ihandler a;
     Some (fst (ata_end a))
   }"

subsection \<open>What the operations do to the disk\<close>

definition disk_at :: "u32 \<Rightarrow> u32" where
  "disk_at sector = sector AND 0x0fffffff"

lemma and_low_bits:
  "(w :: u32) AND 0xff = take_bit 8 w" "(w :: u32) AND 0x0f = take_bit 4 w" "(w :: u32) AND 0x0fffffff = take_bit 28 w"
  "(b :: u8) AND 0x0f = take_bit 4 b"
  by (simp_all add: take_bit_eq_mask mask_eq_exp_minus_1)

lemma low_drive_bits: "take_bit 4 (ucast ((0xe0 :: u32) OR take_bit 4 w) :: u8) = ucast (take_bit 4 w)"
proof -
  have "take_bit 4 ((0xe0 :: u32) OR take_bit 4 w) = take_bit 4 w" by simp
  then have low: "bit ((0xe0 :: u32) OR take_bit 4 w) n = bit w n" if "n < 4" for n
    using that by (metis bit_take_bit_iff)
  show ?thesis using low by (intro bit_word_eqI) (auto simp: bit_simps)
qed

lemma ata_program_command [simp]: "command (ata_program sector cmd d) = cmd" "disk (ata_program sector cmd d) = disk d"
  by (simp_all add: ata_program_def)

lemma device_sector_program [simp]: "device_sector (ata_program sector cmd d) = disk_at sector"
proof (rule bit_word_eqI)
  fix n
  assume "n < LENGTH(32)"
  then have n: "n < 32" by simp
  have e: "device_sector (ata_program sector cmd d) =
      ucast (ucast (take_bit 8 sector) :: u8) OR push_bit 8 (ucast (ucast (take_bit 8 (drop_bit 8 sector)) :: u8)) OR
      push_bit 16 (ucast (ucast (take_bit 8 (drop_bit 16 sector)) :: u8)) OR
      push_bit 24 (ucast (ucast (take_bit 4 (drop_bit 24 sector)) :: u8))"
    by (simp add: device_sector_def ata_program_def and_low_bits low_drive_bits)
  consider "n < 8" | "8 \<le> n" "n < 16" | "16 \<le> n" "n < 24" | "24 \<le> n" "n < 28" | "28 \<le> n"
    using n by linarith
  then show "bit (device_sector (ata_program sector cmd d)) n \<longleftrightarrow> bit (disk_at sector) n"
    unfolding e disk_at_def and_low_bits using n by cases (auto simp: bit_simps)
qed

lemma device_count_program [simp]: "device_count (ata_program sector cmd d) = 1"
  by (simp add: device_count_def ata_program_def)

lemma device_store_one:
  assumes "device_count d = 1" and "command d = 0x30"
  shows "device_store ws d = d\<lparr>disk := (disk d)(device_sector d := word_cells ws)\<rparr>"
proof -
  have "unat (s - device_sector d) = 0 \<longleftrightarrow> s = device_sector d" for s by (simp add: unat_eq_zero)
  then have "(\<lambda>s. let k = unat (s - device_sector d) in
      if k = 0 then word_cells ws else if k < device_count d then fresh 512 else disk d s) =
    (disk d)(device_sector d := word_cells ws)"
    using assms(1) by (intro ext) (simp add: Let_def)
  then show ?thesis using assms(2) by (simp add: device_store_def)
qed

lemma disk_at_small: "unat s < 268435456 \<Longrightarrow> disk_at s = s"
  unfolding disk_at_def and_low_bits by (simp add: word_eq_by_unat unsigned_take_bit_eq take_bit_nat_eq_self)

lemma word_cells_upto:
  "2 * n \<le> length b \<Longrightarrow> concat (List.map (\<lambda>i. [b ! (2 * i), b ! (2 * i + 1)]) [0..<n]) = take (2 * n) b"
  by (induction n) (simp_all add: take_Suc_conv_app_nth)

lemma word_cells_words: "512 \<le> length b \<Longrightarrow> word_cells (cell_words b) = take 512 b"
  using word_cells_upto [of 256 b] by (simp add: word_cells_def cell_words_def comp_def)

text \<open>The driver at rest: nobody holds or waits for the disk; and a disk of full sectors.\<close>

definition ata_idle :: "ata \<Rightarrow> bool" where
  "ata_idle a \<longleftrightarrow> sq (disk_sem a) = [] \<and> sval (disk_sem a) = 1 \<and> ata_task a = None"

definition disk_ok :: "disk \<Rightarrow> bool" where
  "disk_ok d \<longleftrightarrow> (\<forall>s. length (d s) = 512)"

lemma disk_program [simp]: "disk (ata_program sector cmd d) = disk d"
  by (simp add: ata_program_def)

lemma ata_read_idle:
  assumes "ata_idle a" and "disk_ok (disk (device a))" and "512 \<le> length buffer"
  shows "\<exists>a'. ata_read a t sector buffer = Some (a', disk (device a) (disk_at sector) @ drop 512 buffer) \<and>
    ata_idle a' \<and> disk (device a') = disk (device a)"
  using assms
  by (auto simp: ata_read_def ata_read_start_def ata_ihandler_def ata_end_def ata_idle_def disk_ok_def ksemaphore_wait_def
      ksemaphore_signal_def Let_def copy_cells_def device_data_def ATA_CMD_READ_PIO_def)

lemma ata_write_idle:
  assumes "ata_idle a" and "512 \<le> length buffer"
  shows "\<exists>a'. ata_write a t sector buffer = Some a' \<and> ata_idle a' \<and>
    disk (device a') = (disk (device a))(disk_at sector := take 512 buffer)"
  using assms
  by (auto simp: ata_write_def ata_write_start_def ata_ihandler_def ata_end_def ata_idle_def ksemaphore_wait_def
      ksemaphore_signal_def Let_def device_store_one word_cells_words ATA_CMD_WRITE_PIO_def)

text \<open>The disk as the file system sees it.\<close>

definition rd_sector :: "disk \<Rightarrow> u32 \<Rightarrow> u8 cells" where
  "rd_sector d s = d (disk_at s)"

definition wr_sector :: "disk \<Rightarrow> u32 \<Rightarrow> u8 cells \<Rightarrow> disk" where
  "wr_sector d s b = d(disk_at s := take 512 b)"

lemma rd_wr_sector [simp]:
  "rd_sector (wr_sector d s b) s' = (if disk_at s' = disk_at s then take 512 b else rd_sector d s')"
  by (simp add: rd_sector_def wr_sector_def)

lemma disk_ok_sectors [intro, simp]:
  "disk_ok d \<Longrightarrow> length (rd_sector d s) = 512"
  "disk_ok d \<Longrightarrow> 512 \<le> length b \<Longrightarrow> disk_ok (wr_sector d s b)"
  by (simp_all add: disk_ok_def rd_sector_def wr_sector_def)

text \<open>C18. A sector written through the driver and read back holds the bytes that were written, the rest of
  the disk is as it was, and the semaphore is free again: the 28 bits that the registers carry name
  the same sector both times, and the number of sectors that they ask for is one.\<close>

theorem ata_write_read:
  assumes "ata_idle a" and "disk_ok (disk (device a))" and "length b = 512" and "length buffer = 512"
  shows "\<exists>a1 a2. ata_write a t sector b = Some a1 \<and> ata_read a1 t sector buffer = Some (a2, b) \<and> ata_idle a2 \<and>
    disk (device a2) = wr_sector (disk (device a)) sector b"
proof -
  obtain a1 where a1: "ata_write a t sector b = Some a1" "ata_idle a1"
    "disk (device a1) = (disk (device a))(disk_at sector := take 512 b)"
    using ata_write_idle [OF assms(1), of b t sector] assms(3) by auto
  then have "disk_ok (disk (device a1))" using assms by (auto simp: disk_ok_def)
  from ata_read_idle [OF a1(2) this, of buffer t sector] a1 show ?thesis
    using assms(3,4) by (auto simp: wr_sector_def)
qed

theorem ata_write_read_witness:
  "\<exists>a1 a2. ata_write (ata_init \<lparr>sector_count = 0, lba_low = 0, lba_mid = 0, lba_high = 0, drive_head = 0, command = 0,
      disk = (\<lambda>_. fresh 512)\<rparr>) 1 0x1234567 (replicate 512 (Some 7)) = Some a1 \<and>
    ata_read a1 1 0x1234567 (fresh 512) = Some (a2, replicate 512 (Some 7))"
proof -
  let ?a = "ata_init \<lparr>sector_count = 0, lba_low = 0, lba_mid = 0, lba_high = 0, drive_head = 0, command = 0, disk = (\<lambda>_. fresh 512)\<rparr>"
  have "ata_idle ?a" "disk_ok (disk (device ?a))"
    by (simp_all add: ata_idle_def ata_init_def ksemaphore_init_def disk_ok_def)
  from ata_write_read [OF this, of "replicate 512 (Some 7)" "fresh 512" 1 "0x1234567"] show ?thesis by auto
qed

end
