(* ===== verification/Childtable.thy ===== *)
theory Childtable
  imports Kstring
begin

text \<open>
  The directory tables of \<open>src/fs.c\<close>: the entries of a directory one after the other in a
  buffer, each the name with its terminator and the sector of the child's inode in four bytes.
\<close>

record childtable =
  ct_ptr :: "u8 cells"
  ct_size :: u32
  ct_sectors :: u32

definition SECTOR_SIZE :: u32 where
  "SECTOR_SIZE = 512"

text \<open>A word in a buffer.\<close>

definition rd_u32 :: "u8 cells \<Rightarrow> nat \<Rightarrow> u32 option" where
  "rd_u32 c i = do {
     b0 \<leftarrow> rd c i; b1 \<leftarrow> rd c (i + 1); b2 \<leftarrow> rd c (i + 2); b3 \<leftarrow> rd c (i + 3);
     Some (bytes_u32 [b0, b1, b2, b3])
   }"

definition wr_u32 :: "u8 cells \<Rightarrow> nat \<Rightarrow> u32 \<Rightarrow> u8 cells option" where
  "wr_u32 c i w = put_str c i (u32_bytes w)"

text \<open>The search; the result is the place of the entry, or the null pointer as the inner \<open>None\<close>.\<close>

function ct_find_from :: "u8 cells \<Rightarrow> nat \<Rightarrow> cstr \<Rightarrow> nat \<Rightarrow> nat option option" where
  "ct_find_from c sz name off =
     (if sz \<le> off then Some None
      else case read_str (drop off c) of
        None \<Rightarrow> None
      | Some s \<Rightarrow> if s = name then Some (Some off) else ct_find_from c sz name (off + length s + 1 + 4))"
  by pat_completeness auto
termination by (relation "measure (\<lambda>(c, sz, name, off). sz - off)") auto

declare ct_find_from.simps [simp del]

definition childtable_find :: "childtable \<Rightarrow> cstr \<Rightarrow> nat option option" where
  "childtable_find t name = ct_find_from (ct_ptr t) (unat (ct_size t)) name 0"

definition childtable_add :: "childtable \<Rightarrow> cstr \<Rightarrow> u32 \<Rightarrow> childtable option" where
  "childtable_add t name index = do {
     let name_len = of_nat (length name);
     let new_size = ct_size t + 4 + name_len + 1;
     t \<leftarrow> (if new_size > ct_sectors t * SECTOR_SIZE then do {
             let sectors = ct_sectors t + 1;
             buffer \<leftarrow> copy_cells (fresh (unat (sectors * SECTOR_SIZE))) (ct_ptr t) 0 (unat (ct_size t));
             Some (t\<lparr>ct_ptr := buffer, ct_sectors := sectors\<rparr>)
           } else Some t);
     b \<leftarrow> put_str (ct_ptr t) (unat (ct_size t)) name;
     b \<leftarrow> wr b (unat (ct_size t) + length name) 0;
     b \<leftarrow> wr_u32 b (unat (ct_size t) + length name + 1) index;
     Some (t\<lparr>ct_ptr := b, ct_size := new_size\<rparr>)
   }"

definition childtable_remove :: "childtable \<Rightarrow> cstr \<Rightarrow> childtable option" where
  "childtable_remove t name = do {
     found \<leftarrow> childtable_find t name;
     case found of
       None \<Rightarrow> Some t
     | Some off \<Rightarrow> do {
         let next_rec = off + length name + 1 + 4;
         b \<leftarrow> move_cells (ct_ptr t) next_rec off (unat (ct_size t) - next_rec);
         let new_size = ct_size t - of_nat (length name) - 1 - 4;
         let sectors = (if new_size \<le> (ct_sectors t - 1) * SECTOR_SIZE then ct_sectors t - 1 else ct_sectors t);
         Some (t\<lparr>ct_ptr := b, ct_sectors := sectors, ct_size := new_size\<rparr>)
       }
   }"

definition childtable_edit_index :: "childtable \<Rightarrow> cstr \<Rightarrow> u32 \<Rightarrow> childtable option" where
  "childtable_edit_index t name new = do {
     found \<leftarrow> childtable_find t name;
     case found of
       None \<Rightarrow> Some t
     | Some off \<Rightarrow> do {
         b \<leftarrow> wr_u32 (ct_ptr t) (off + length name + 1) new;
         Some (t\<lparr>ct_ptr := b\<rparr>)
       }
   }"

definition childtable_get :: "childtable \<Rightarrow> cstr \<Rightarrow> u32 option" where
  "childtable_get t name = do {
     found \<leftarrow> childtable_find t name;
     case found of
       None \<Rightarrow> Some 0
     | Some off \<Rightarrow> rd_u32 (ct_ptr t) (off + length name + 1)
   }"

definition childtable_edit_name :: "childtable \<Rightarrow> cstr \<Rightarrow> cstr \<Rightarrow> childtable option" where
  "childtable_edit_name t old new = do {
     index \<leftarrow> childtable_get t old;
     if index = 0 then Some t
     else do { t \<leftarrow> childtable_remove t old; childtable_add t new index }
   }"

subsection \<open>The entries of a table\<close>

definition entry_bytes :: "cstr \<times> u32 \<Rightarrow> u8 list" where
  "entry_bytes = (\<lambda>(n, i). n @ 0 # u32_bytes i)"

definition table_bytes :: "(cstr \<times> u32) list \<Rightarrow> u8 list" where
  "table_bytes es = concat (List.map entry_bytes es)"

lemma table_bytes_simps [simp]:
  "table_bytes [] = []" "table_bytes (e # es) = entry_bytes e @ table_bytes es"
  "table_bytes (es @ fs) = table_bytes es @ table_bytes fs"
  by (simp_all add: table_bytes_def)

lemma length_entry_bytes [simp]: "length (entry_bytes (n, i)) = length n + 5"
  by (simp add: entry_bytes_def)

definition names_ok :: "(cstr \<times> u32) list \<Rightarrow> bool" where
  "names_ok es \<longleftrightarrow> distinct (List.map fst es) \<and> (\<forall>n \<in> fst ` set es. 0 \<notin> set n)"

text \<open>A table that holds the entries: the bytes are at the start of the buffer, and the buffer has at
  least the bytes of the sectors (of one, when there are none).\<close>

definition table_is :: "childtable \<Rightarrow> (cstr \<times> u32) list \<Rightarrow> bool" where
  "table_is t es \<longleftrightarrow> names_ok es \<and> holds (ct_ptr t) (table_bytes es) \<and> unat (ct_size t) = length (table_bytes es) \<and>
     512 * max 1 (unat (ct_sectors t)) \<le> length (ct_ptr t) \<and> unat (ct_sectors t) < 4194304 \<and>
     length (table_bytes es) \<le> 512 * unat (ct_sectors t)"

lemma read_str_prefix:
  assumes "0 \<notin> set s"
  shows "read_str (List.map Some s @ Some 0 # rest) = Some s"
  using assms by (induction s) auto

lemma drop_holds:
  assumes "holds c (xs @ ys)"
  shows "holds (drop (length xs) c) ys"
  using assms by (auto simp: holds_iff)

lemma ct_find_from_entries:
  assumes "holds (drop off c) (table_bytes es)" and "\<forall>n \<in> fst ` set es. 0 \<notin> set n"
    and "sz = off + length (table_bytes es)"
  shows "case map_of es name of
      None \<Rightarrow> ct_find_from c sz name off = Some None
    | Some i \<Rightarrow> \<exists>ps qs. es = ps @ (name, i) # qs \<and> ct_find_from c sz name off = Some (Some (off + length (table_bytes ps)))"
  using assms
proof (induction es arbitrary: off)
  case Nil
  then show ?case by (simp add: ct_find_from.simps)
next
  case (Cons e es)
  obtain n i where e: "e = (n, i)" by (cases e)
  obtain rest where r: "drop off c = List.map Some (n @ 0 # u32_bytes i @ table_bytes es) @ rest"
    using Cons.prems(1) by (auto simp: holds_iff e entry_bytes_def)
  have "0 \<notin> set n" using Cons.prems(2) by (simp add: e)
  then have str: "read_str (drop off c) = Some n" using read_str_prefix [of n] unfolding r by simp
  have below: "\<not> sz \<le> off" using Cons.prems(3) by (simp add: e)
  show ?case
  proof (cases "n = name")
    case True
    then have "ct_find_from c sz name off = Some (Some off)"
      by (subst ct_find_from.simps) (simp add: str below)
    moreover have "e # es = [] @ (name, i) # es" by (simp add: e True)
    ultimately show ?thesis using True e by fastforce
  next
    case False
    let ?o = "off + length n + 1 + 4"
    have step: "ct_find_from c sz name off = ct_find_from c sz name ?o"
      using False by (subst ct_find_from.simps) (simp add: str below)
    have "drop (length n + 5) (drop off c) = List.map Some (table_bytes es) @ rest" unfolding r by simp
    then have "drop ?o c = List.map Some (table_bytes es) @ rest" by (simp add: ac_simps)
    then have "holds (drop ?o c) (table_bytes es)" by (auto simp: holds_iff)
    moreover have "sz = ?o + length (table_bytes es)" using Cons.prems(3) by (simp add: e)
    ultimately have IH: "case map_of es name of
        None \<Rightarrow> ct_find_from c sz name ?o = Some None
      | Some i \<Rightarrow> \<exists>ps qs. es = ps @ (name, i) # qs \<and> ct_find_from c sz name ?o = Some (Some (?o + length (table_bytes ps)))"
      using Cons.prems(2) by (intro Cons.IH) simp_all
    show ?thesis
    proof (cases "map_of es name")
      case None
      then show ?thesis using IH False step by (simp add: e)
    next
      case (Some j)
      then obtain ps qs where p: "es = ps @ (name, j) # qs"
        "ct_find_from c sz name ?o = Some (Some (?o + length (table_bytes ps)))" using IH by auto
      have "e # es = (e # ps) @ (name, j) # qs" by (simp add: p(1))
      moreover have "ct_find_from c sz name off = Some (Some (off + length (table_bytes (e # ps))))"
        using p(2) step by (simp add: e)
      moreover have "map_of (e # es) name = Some j" using Some False e by simp
      ultimately show ?thesis by (simp only: option.case) blast
    qed
  qed
qed

lemma childtable_find_entries:
  assumes "table_is t es"
  shows "map_of es name = None \<Longrightarrow> childtable_find t name = Some None"
    and "map_of es name = Some i \<Longrightarrow>
      \<exists>ps qs. es = ps @ (name, i) # qs \<and> childtable_find t name = Some (Some (length (table_bytes ps)))"
  using ct_find_from_entries [of 0 "ct_ptr t" es "unat (ct_size t)" name] assms
  by (auto simp: childtable_find_def table_is_def names_ok_def)

lemma rd_u32_holds:
  assumes "holds c (xs @ u32_bytes w @ ys)"
  shows "rd_u32 c (length xs) = Some w"
proof -
  have "rd c (length xs + j) = Some (u32_bytes w ! j)" if "j < 4" for j
    using holds_rd [OF assms, of "length xs + j"] that by (simp add: nth_append)
  from this [of 0] this [of 1] this [of 2] this [of 3]
  have "rd_u32 c (length xs) = Some (bytes_u32 [u32_bytes w ! 0, u32_bytes w ! 1, u32_bytes w ! 2, u32_bytes w ! 3])"
    by (simp add: rd_u32_def)
  also have "[u32_bytes w ! 0, u32_bytes w ! 1, u32_bytes w ! 2, u32_bytes w ! 3] = u32_bytes w"
    by (simp add: u32_bytes_def)
  finally show ?thesis by simp
qed

lemma childtable_get_entry:
  assumes "table_is t es"
  shows "childtable_get t name = Some (case map_of es name of Some i \<Rightarrow> i | None \<Rightarrow> 0)"
proof (cases "map_of es name")
  case None
  then show ?thesis using childtable_find_entries(1) [OF assms None] by (simp add: childtable_get_def)
next
  case (Some i)
  then obtain ps qs where p: "es = ps @ (name, i) # qs" "childtable_find t name = Some (Some (length (table_bytes ps)))"
    using childtable_find_entries(2) [OF assms] by blast
  have "holds (ct_ptr t) ((table_bytes ps @ name @ [0]) @ u32_bytes i @ table_bytes qs)"
    using assms by (simp add: table_is_def p(1) entry_bytes_def)
  from rd_u32_holds [OF this] show ?thesis using p(2) Some by (simp add: childtable_get_def)
qed

lemma wr_u32_end:
  assumes "holds c xs" and "length xs + 4 \<le> length c"
  shows "\<exists>c'. wr_u32 c (length xs) w = Some c' \<and> holds c' (xs @ u32_bytes w) \<and> length c' = length c"
proof -
  have "length xs + length (u32_bytes w) \<le> length c" using assms(2) by simp
  from put_str_holds [OF assms(1) this] show ?thesis by (simp add: wr_u32_def)
qed

lemma sector_bytes: "unat w < 8388608 \<Longrightarrow> unat (w * SECTOR_SIZE) = 512 * unat w"
  by (simp add: SECTOR_SIZE_def unat_word_ariths)

lemma childtable_add_entry:
  assumes "table_is t es" and "name \<notin> fst ` set es" and "0 \<notin> set name" and "length name \<le> 256"
    and "unat (ct_sectors t) < 4194303"
  shows "\<exists>t'. childtable_add t name i = Some t' \<and> table_is t' (es @ [(name, i)])"
proof -
  have ok: "names_ok es" "holds (ct_ptr t) (table_bytes es)" "unat (ct_size t) = length (table_bytes es)"
    "512 * max 1 (unat (ct_sectors t)) \<le> length (ct_ptr t)" "length (table_bytes es) \<le> 512 * unat (ct_sectors t)"
    using assms(1) by (simp_all add: table_is_def)
  let ?n = "ct_size t + 4 + of_nat (length name) + 1"
  let ?l = "length (table_bytes es) + length name + 5"
  have n: "unat ?n = ?l"
  proof -
    have "?n = ct_size t + of_nat (length name + 5)" by simp
    moreover have "unat (ct_size t) + (length name + 5) < 4294967296" using ok(3,5) assms(4,5) by linarith
    ultimately have "unat ?n = unat (ct_size t) + (length name + 5)" using unat_add_of_nat by metis
    then show ?thesis by (simp add: ok(3))
  qed
  have sec: "unat (ct_sectors t * SECTOR_SIZE) = 512 * unat (ct_sectors t)"
    using assms(5) by (simp add: sector_bytes)
  have s1: "unat (ct_sectors t + 1) = unat (ct_sectors t) + 1" using assms(5) unat_add_nowrap [of "ct_sectors t" 1] by simp
  then have sec1: "unat ((ct_sectors t + 1) * SECTOR_SIZE) = 512 * (unat (ct_sectors t) + 1)"
    using assms(5) by (subst sector_bytes) simp_all
  let ?grow = "if ?n > ct_sectors t * SECTOR_SIZE then do {
             let sectors = ct_sectors t + 1;
             buffer \<leftarrow> copy_cells (fresh (unat (sectors * SECTOR_SIZE))) (ct_ptr t) 0 (unat (ct_size t));
             Some (t\<lparr>ct_ptr := buffer, ct_sectors := sectors\<rparr>)
           } else Some t"
  have "\<exists>b q. ?grow = Some (t\<lparr>ct_ptr := b, ct_sectors := q\<rparr>) \<and> holds b (table_bytes es) \<and>
      512 * max 1 (unat q) \<le> length b \<and> unat q < 4194304 \<and> ?l \<le> 512 * unat q"
  proof (cases "?n > ct_sectors t * SECTOR_SIZE")
    case False
    then have "?l \<le> 512 * unat (ct_sectors t)" using n sec by (simp add: word_less_nat_alt)
    then show ?thesis using False ok assms(5) by (intro exI [of _ "ct_ptr t"] exI [of _ "ct_sectors t"]) simp
  next
    case True
    let ?f = "fresh (unat ((ct_sectors t + 1) * SECTOR_SIZE)) :: u8 cells"
    have "length ([] :: u8 list) + length (table_bytes es) \<le> length ?f" using ok(5) by (simp add: sec1)
    from copy_cells_holds [OF ok(2) holds_Nil this] obtain b where
      b: "copy_cells ?f (ct_ptr t) 0 (length (table_bytes es)) = Some b" "holds b (table_bytes es)" "length b = length ?f"
      by auto
    have "?l \<le> 512 * unat (ct_sectors t + 1)" using ok(5) assms(4) by (simp add: s1)
    then show ?thesis using True b ok(3) s1 sec1 assms(5)
      by (intro exI [of _ b] exI [of _ "ct_sectors t + 1"]) (simp add: Let_def)
  qed
  then obtain b q where g: "?grow = Some (t\<lparr>ct_ptr := b, ct_sectors := q\<rparr>)" and hb: "holds b (table_bytes es)"
    and lb: "512 * max 1 (unat q) \<le> length b" "unat q < 4194304" "?l \<le> 512 * unat q" by blast
  have "length (table_bytes es) + length name < length b" using lb(1,3) by simp
  from put_str_end [OF hb this] obtain b1 b2 where
    b1: "put_str b (length (table_bytes es)) name = Some b1" "wr b1 (length (table_bytes es) + length name) 0 = Some b2"
      "holds b2 ((table_bytes es @ name) @ [0])" "length b2 = length b" by blast
  have "length ((table_bytes es @ name) @ [0]) + 4 \<le> length b2" using lb(1,3) b1(4) by simp
  from wr_u32_end [OF b1(3) this] obtain b3 where
    b3: "wr_u32 b2 (length (table_bytes es) + length name + 1) i = Some b3"
      "holds b3 (((table_bytes es @ name) @ [0]) @ u32_bytes i)" "length b3 = length b" using b1(4) by auto
  have "childtable_add t name i = Some (t\<lparr>ct_ptr := b3, ct_sectors := q, ct_size := ?n\<rparr>)"
    unfolding childtable_add_def Let_def [of "of_nat (length name)"] Let_def [of "ct_size t + 4 + of_nat (length name) + 1"] g
    using b1 b3 ok(3) by simp
  moreover have "table_is (t\<lparr>ct_ptr := b3, ct_sectors := q, ct_size := ?n\<rparr>) (es @ [(name, i)])"
    using ok(1) assms(2,3) b3 lb n by (simp add: table_is_def names_ok_def entry_bytes_def)
  ultimately show ?thesis by blast
qed

lemma filter_other_names:
  assumes "distinct (List.map fst (ps @ (name, i) # qs))"
  shows "filter (\<lambda>e. fst e \<noteq> name) (ps @ (name, i) # qs) = ps @ qs"
proof -
  have "\<forall>e \<in> set (ps @ qs). fst e \<noteq> name" using assms by force
  then have "filter (\<lambda>e. fst e \<noteq> name) (ps @ qs) = ps @ qs" by (simp add: filter_id_conv)
  then show ?thesis by simp
qed

lemma childtable_remove_entry:
  assumes "table_is t es"
  shows "\<exists>t'. childtable_remove t name = Some t' \<and> table_is t' (filter (\<lambda>e. fst e \<noteq> name) es)"
proof (cases "map_of es name")
  case None
  then have "filter (\<lambda>e. fst e \<noteq> name) es = es" by (force simp: filter_id_conv map_of_eq_None_iff)
  then show ?thesis using assms childtable_find_entries(1) [OF assms None] by (simp add: childtable_remove_def)
next
  case (Some i)
  then obtain ps qs where p: "es = ps @ (name, i) # qs" "childtable_find t name = Some (Some (length (table_bytes ps)))"
    using childtable_find_entries(2) [OF assms] by blast
  have ok: "names_ok es" "holds (ct_ptr t) (table_bytes es)" "unat (ct_size t) = length (table_bytes es)"
    "512 * max 1 (unat (ct_sectors t)) \<le> length (ct_ptr t)" "length (table_bytes es) \<le> 512 * unat (ct_sectors t)"
    "unat (ct_sectors t) < 4194304"
    using assms unfolding table_is_def by blast+
  have "distinct (List.map fst (ps @ (name, i) # qs))" using ok(1) unfolding names_ok_def p(1) by (rule conjunct1)
  then have fl: "filter (\<lambda>e. fst e \<noteq> name) es = ps @ qs" unfolding p(1) by (rule filter_other_names)
  let ?P = "table_bytes ps" and ?Q = "table_bytes qs"
  have len: "length (table_bytes es) = length ?P + length name + 5 + length ?Q" by (simp add: p(1))
  have "holds (ct_ptr t) (?P @ entry_bytes (name, i) @ ?Q)" using ok(2) by (simp add: p(1))
  from move_cells_down [OF this] obtain b where
    b: "move_cells (ct_ptr t) (length ?P + length name + 5) (length ?P) (length ?Q) = Some b"
      "length b = length (ct_ptr t)" "holds b (?P @ ?Q)" by (auto simp: add.assoc)
  let ?n = "ct_size t - of_nat (length name) - 1 - 4"
  have n: "unat ?n = length (?P @ ?Q)"
  proof -
    have "?n = ct_size t - of_nat (length name + 5)" by simp
    moreover have u: "unat (of_nat (length name + 5) :: u32) = length name + 5"
      using ok(5,6) len by (intro unat_of_nat32) linarith
    have "unat (ct_size t - of_nat (length name + 5)) = unat (ct_size t) - (length name + 5)"
      using unat_diff_nowrap [of "of_nat (length name + 5)" "ct_size t"] ok(3) len unfolding u by linarith
    ultimately have "unat ?n = unat (ct_size t) - (length name + 5)" by metis
    then show ?thesis using ok(3) len by simp
  qed
  have s0: "ct_sectors t \<noteq> 0" using ok(5) len by auto
  then have s1: "unat (ct_sectors t - 1) = unat (ct_sectors t) - 1" by (rule unat_pred)
  then have sec: "unat ((ct_sectors t - 1) * SECTOR_SIZE) = 512 * (unat (ct_sectors t) - 1)"
    using ok(6) sector_bytes [of "ct_sectors t - 1"] by linarith
  let ?q = "if ?n \<le> (ct_sectors t - 1) * SECTOR_SIZE then ct_sectors t - 1 else ct_sectors t"
  have q: "length (?P @ ?Q) \<le> 512 * unat ?q" "unat ?q \<le> unat (ct_sectors t)"
    using n sec s1 ok(5) len by (auto simp: word_le_nat_alt)
  have "move_cells (ct_ptr t) (length ?P + length name + 1 + 4) (length ?P)
      (length (table_bytes es) - (length ?P + length name + 1 + 4)) = Some b"
    using b(1) len by (simp add: ac_simps)
  then have run: "childtable_remove t name = Some (t\<lparr>ct_ptr := b, ct_sectors := ?q, ct_size := ?n\<rparr>)"
    unfolding childtable_remove_def p(2) bind.bind_lunit option.case Let_def ok(3) by simp
  have names: "names_ok (ps @ qs)" using ok(1) by (auto simp: names_ok_def p(1))
  have "table_is (t\<lparr>ct_ptr := b, ct_sectors := k, ct_size := ?n\<rparr>) (ps @ qs)"
    if "length (?P @ ?Q) \<le> 512 * unat k" "unat k \<le> unat (ct_sectors t)" for k
  proof -
    have "512 * max 1 (unat k) \<le> length b" using that(2) ok(4) b(2) by simp
    then show ?thesis using that ok(6) names b(3) n by (simp add: table_is_def)
  qed
  from this [OF q] show ?thesis unfolding fl using run by blast
qed

lemma childtable_edit_index_entry:
  assumes "table_is t es" and "map_of es name = Some i"
  shows "\<exists>t' ps qs. childtable_edit_index t name j = Some t' \<and> es = ps @ (name, i) # qs \<and>
    table_is t' (ps @ (name, j) # qs) \<and> ct_size t' = ct_size t \<and> ct_sectors t' = ct_sectors t"
proof -
  obtain ps qs where p: "es = ps @ (name, i) # qs" "childtable_find t name = Some (Some (length (table_bytes ps)))"
    using childtable_find_entries(2) [OF assms] by blast
  let ?x = "table_bytes ps @ name @ [0]" and ?Q = "table_bytes qs"
  have h: "holds (ct_ptr t) (?x @ u32_bytes i @ ?Q)" using assms(1) by (simp add: table_is_def p(1) entry_bytes_def)
  then obtain r where r: "ct_ptr t = List.map Some (?x @ u32_bytes i @ ?Q) @ r" by (auto simp: holds_iff)
  let ?b = "List.map Some (?x @ u32_bytes j @ ?Q) @ r"
  have "wr_u32 (ct_ptr t) (length (table_bytes ps) + length name + 1) j = Some ?b"
    unfolding r wr_u32_def put_str_def copy_cells_def by simp
  then have "childtable_edit_index t name j = Some (t\<lparr>ct_ptr := ?b\<rparr>)" using p(2) by (simp add: childtable_edit_index_def)
  moreover have "length ?b = length (ct_ptr t)" by (simp add: r)
  then have "table_is (t\<lparr>ct_ptr := ?b\<rparr>) (ps @ (name, j) # qs)"
    using assms(1) by (auto simp: table_is_def p(1) names_ok_def entry_bytes_def holds_iff)
  ultimately show ?thesis using p(1) by (intro exI [of _ "t\<lparr>ct_ptr := ?b\<rparr>"] exI [of _ ps] exI [of _ qs]) simp
qed

subsection \<open>The contract of a directory\<close>

text \<open>What the file system relies on when it keeps a directory in a table: a finite map from names to
  sectors, 0 standing for no entry.\<close>

locale name_table =
  fixes rep :: "'t \<Rightarrow> ('n \<times> u32) list \<Rightarrow> bool"
    and fits :: "'t \<Rightarrow> 'n \<Rightarrow> bool"
    and lookup :: "'t \<Rightarrow> 'n \<Rightarrow> u32 option"
    and add :: "'t \<Rightarrow> 'n \<Rightarrow> u32 \<Rightarrow> 't option"
    and remove :: "'t \<Rightarrow> 'n \<Rightarrow> 't option"
  assumes lookup_law: "rep t es \<Longrightarrow> lookup t n = Some (case map_of es n of Some i \<Rightarrow> i | None \<Rightarrow> 0)"
    and add_law: "rep t es \<Longrightarrow> n \<notin> fst ` set es \<Longrightarrow> fits t n \<Longrightarrow> \<exists>t'. add t n i = Some t' \<and> rep t' (es @ [(n, i)])"
    and remove_law: "rep t es \<Longrightarrow> \<exists>t'. remove t n = Some t' \<and> rep t' (filter (\<lambda>e. fst e \<noteq> n) es)"
begin

lemma map_of_filter_name: "map_of (filter (\<lambda>e. fst e \<noteq> n) es) k = (if k = n then None else map_of es k)"
  by (induction es) auto

lemma lookup_added:
  assumes "rep t es" and "n \<notin> fst ` set es" and "fits t n"
  shows "\<exists>t'. add t n i = Some t' \<and> (\<forall>k. lookup t' k = (if k = n then Some i else lookup t k))"
proof -
  obtain t' where t': "add t n i = Some t'" "rep t' (es @ [(n, i)])" using add_law [OF assms] by blast
  have "map_of es n = None" using assms(2) by (simp add: map_of_eq_None_iff)
  then show ?thesis using t' lookup_law [OF t'(2)] lookup_law [OF assms(1)]
    by (auto simp: map_add_def split: option.splits)
qed

lemma lookup_removed:
  assumes "rep t es"
  shows "\<exists>t'. remove t n = Some t' \<and> (\<forall>k. lookup t' k = (if k = n then Some 0 else lookup t k))"
proof -
  obtain t' where t': "remove t n = Some t'" "rep t' (filter (\<lambda>e. fst e \<noteq> n) es)" using remove_law [OF assms] by blast
  then show ?thesis using lookup_law [OF t'(2)] lookup_law [OF assms] by (auto simp: map_of_filter_name)
qed

end

text \<open>A name the file system accepts, and a table that can still grow.\<close>

definition table_fits :: "childtable \<Rightarrow> cstr \<Rightarrow> bool" where
  "table_fits t n \<longleftrightarrow> 0 \<notin> set n \<and> length n \<le> 256 \<and> unat (ct_sectors t) < 4194303"

interpretation ct: name_table table_is table_fits childtable_get childtable_add childtable_remove
proof
  fix t es n i
  assume "table_is t es"
  then show "childtable_get t n = Some (case map_of es n of Some i \<Rightarrow> i | None \<Rightarrow> 0)" by (rule childtable_get_entry)
next
  fix t es n i
  assume "table_is t es" and "n \<notin> fst ` set es" and "table_fits t n"
  then show "\<exists>t'. childtable_add t n i = Some t' \<and> table_is t' (es @ [(n, i)])"
    by (intro childtable_add_entry) (simp_all add: table_fits_def)
next
  fix t es n
  assume "table_is t es"
  then show "\<exists>t'. childtable_remove t n = Some t' \<and> table_is t' (filter (\<lambda>e. fst e \<noteq> n) es)"
    by (rule childtable_remove_entry)
qed

definition empty_table :: childtable where
  "empty_table = \<lparr>ct_ptr = fresh 512, ct_size = 0, ct_sectors = 0\<rparr>"

lemma empty_table_is: "table_is empty_table []"
  by (simp add: empty_table_def table_is_def names_ok_def)

lemma one_entry_table:
  obtains t where "childtable_add empty_table [97] 7 = Some t" "table_is t [([97], 7)]"
  using childtable_add_entry [OF empty_table_is, of "[97]" 7] by (auto simp: empty_table_def)

text \<open>Adding a new name to a directory table, growing its buffer by a sector when it is full, makes
  the name found with its sector and leaves the lookup of every other name as it was.\<close>

theorem childtable_add_lookup:
  assumes "table_is t es" and "name \<notin> fst ` set es" and "table_fits t name"
  shows "\<exists>t'. childtable_add t name i = Some t' \<and>
    (\<forall>k. childtable_get t' k = (if k = name then Some i else childtable_get t k))"
  using assms by (rule ct.lookup_added)

theorem childtable_add_lookup_witness:
  "\<exists>t t'. childtable_add empty_table [97] 7 = Some t \<and> childtable_add t [98] 9 = Some t' \<and>
     childtable_get t' [98] = Some 9 \<and> childtable_get t' [97] = Some 7"
proof -
  obtain t where t: "childtable_add empty_table [97] 7 = Some t" "table_is t [([97], 7)]" by (rule one_entry_table)
  have "childtable_get t [97] = Some 7" using childtable_get_entry [OF t(2)] by simp
  moreover have "table_fits t [98]"
    using t(1) by (auto simp: table_fits_def childtable_add_def empty_table_def Let_def SECTOR_SIZE_def bind_eq_Some_conv split: if_splits)
  ultimately show ?thesis using childtable_add_lookup [OF t(2), of "[98]" 9] t(1) by auto
qed

text \<open>Removing a name from a directory table makes it absent and leaves the lookup of every other name
  as it was.\<close>

theorem childtable_remove_lookup:
  assumes "table_is t es"
  shows "\<exists>t'. childtable_remove t name = Some t' \<and>
    (\<forall>k. childtable_get t' k = (if k = name then Some 0 else childtable_get t k))"
  using assms by (rule ct.lookup_removed)

theorem childtable_remove_lookup_witness:
  "\<exists>t t'. childtable_add empty_table [97] 7 = Some t \<and> childtable_remove t [97] = Some t' \<and> childtable_get t' [97] = Some 0"
proof -
  obtain t where t: "childtable_add empty_table [97] 7 = Some t" "table_is t [([97], 7)]" by (rule one_entry_table)
  then show ?thesis using childtable_remove_lookup [OF t(2), of "[97]"] by auto
qed

end
