(* ===== verification/Inode.thy ===== *)
theory Inode
  imports Ata Childtable Pathbuf
begin

text \<open>
  The inodes of \<open>src/fs.c\<close>: the allocation pointer, the layout of a node on the disk, and reading,
  writing, growing, creating and deleting nodes. A node is one sector with its fields, then \<open>alloc\<close>
  sectors of data; a node that grows moves to new sectors at the allocation pointer, and its entry in the
  directory is changed. The C functions change a node, its parent and the parent's parent in place;
  here they are passed and returned, as values that are never the same object. The buffers that the
  functions get from the kernel heap are cells, and the heap is not part of the state.
\<close>

record volume =
  vdisk :: disk
  balloc_ptr :: u32
  balloc_lock :: krwlock
  curtask :: task

record inode =
  isvalid :: u32
  index :: u32
  isize :: u32
  alloc :: u32
  child_count :: u32
  itype :: u32
  refs :: u32
  ipath :: pathbuf
  ilock :: krwlock
  iparent :: "nat option"

definition inode_type_file :: u32 where "inode_type_file = 0"
definition inode_type_dir :: u32 where "inode_type_dir = 1"

definition MAX_NODE_NAME_LENGTH :: nat where "MAX_NODE_NAME_LENGTH = 256"
definition BALLOC_SECTOR :: u32 where "BALLOC_SECTOR = 0"
definition ROOT_INDEX_SECTOR :: u32 where "ROOT_INDEX_SECTOR = 1"
definition FS_START_SECTOR :: u32 where "FS_START_SECTOR = 2"

subsection \<open>The allocation pointer\<close>

definition balloc_update :: "volume \<Rightarrow> volume option" where
  "balloc_update v = do {
     l \<leftarrow> take_write (balloc_lock v) (curtask v);
     b \<leftarrow> wr_u32 (fresh 512) 0 (balloc_ptr v);
     Some (v\<lparr>vdisk := wr_sector (vdisk v) BALLOC_SECTOR b, balloc_lock := release l\<rparr>)
   }"

definition balloc_fetch :: "volume \<Rightarrow> volume option" where
  "balloc_fetch v = do {
     l \<leftarrow> take_read (balloc_lock v) (curtask v);
     b \<leftarrow> copy_cells (fresh 512) (rd_sector (vdisk v) BALLOC_SECTOR) 0 512;
     p \<leftarrow> rd_u32 b 0;
     Some (v\<lparr>balloc_ptr := p, balloc_lock := release l\<rparr>)
   }"

definition binit :: "volume \<Rightarrow> volume option" where
  "binit v = do {
     v \<leftarrow> balloc_fetch v;
     if balloc_ptr v = 0 then balloc_update (v\<lparr>balloc_ptr := FS_START_SECTOR\<rparr>) else Some v
   }"

definition balloc :: "volume \<Rightarrow> u32 \<Rightarrow> (volume \<times> u32) option" where
  "balloc v n = do {
     let ptr = balloc_ptr v;
     v \<leftarrow> balloc_update (v\<lparr>balloc_ptr := balloc_ptr v + n\<rparr>);
     Some (v, ptr)
   }"

definition bfree :: "volume \<Rightarrow> u32 \<Rightarrow> volume" where
  "bfree v address = v"

definition brealloc :: "volume \<Rightarrow> u32 \<Rightarrow> u32 \<Rightarrow> (volume \<times> u32) option" where
  "brealloc v address n = balloc (bfree v address) n"

subsection \<open>A node on the disk\<close>

text \<open>\<open>ata_write\<close> stores the whole object; the reference count, path, lock and parent that follow the
  six fields in memory mean nothing on the disk and are never read back.\<close>

definition inode_cells :: "inode \<Rightarrow> u8 cells" where
  "inode_cells nd = List.map Some (u32_bytes (isvalid nd) @ u32_bytes (index nd) @ u32_bytes (isize nd) @
     u32_bytes (alloc nd) @ u32_bytes (child_count nd) @ u32_bytes (itype nd)) @ fresh 488"

definition inode_update :: "volume \<Rightarrow> inode \<Rightarrow> volume" where
  "inode_update v nd = v\<lparr>vdisk := wr_sector (vdisk v) (index nd) (inode_cells nd)\<rparr>"

definition inode_fetch :: "volume \<Rightarrow> u32 \<Rightarrow> inode \<Rightarrow> inode option" where
  "inode_fetch v i nd = do {
     b \<leftarrow> copy_cells (fresh 512) (rd_sector (vdisk v) i) 0 512;
     w0 \<leftarrow> rd_u32 b 0;
     w1 \<leftarrow> rd_u32 b 4;
     w2 \<leftarrow> rd_u32 b 8;
     w3 \<leftarrow> rd_u32 b 12;
     w4 \<leftarrow> rd_u32 b 16;
     w5 \<leftarrow> rd_u32 b 20;
     Some (nd\<lparr>isvalid := w0, alloc := w3, isize := w2, child_count := w4, itype := w5, index := w1\<rparr>)
   }"

record operation_bounds =
  bytes_from :: u32
  bytes_count :: u32
  bytes_read :: u32
  sec_from :: u32
  sec_count :: u32
  sec_overflow :: u32
  sec_read :: u32
  bytes_overflow :: u32

definition inode_calculate_operation_bounds :: "inode \<Rightarrow> u32 \<Rightarrow> u32 \<Rightarrow> operation_bounds" where
  "inode_calculate_operation_bounds nd from count =
     (let bytes_to = from + count;
          sfrom = index nd + 1 + from div SECTOR_SIZE;
          sto = index nd + 1 + ((bytes_to - 1) div SECTOR_SIZE) + 1;
          send = index nd + 1 + alloc nd
      in \<lparr>bytes_from = from, bytes_count = count,
          bytes_read = (if bytes_to > isize nd then isize nd - from else count),
          sec_from = sfrom, sec_count = sto - sfrom,
          sec_overflow = (if sto > send then sto - send else 0),
          sec_read = (if sto > send then send - sfrom else sto - sfrom),
          bytes_overflow = (if bytes_to > isize nd then bytes_to - isize nd else 0)\<rparr>)"

text \<open>The loops over sectors, to and from a buffer; the place in the buffer is computed in 32 bits.\<close>

primrec read_blocks :: "disk \<Rightarrow> u32 \<Rightarrow> u8 cells \<Rightarrow> nat \<Rightarrow> u8 cells option" where
  "read_blocks d s b 0 = Some b"
| "read_blocks d s b (Suc n) = do {
     b \<leftarrow> read_blocks d s b n;
     copy_cells b (rd_sector d (s + of_nat n)) (unat (of_nat n * SECTOR_SIZE)) 512
   }"

primrec write_blocks :: "disk \<Rightarrow> u32 \<Rightarrow> u8 cells \<Rightarrow> nat \<Rightarrow> disk option" where
  "write_blocks d s b 0 = Some d"
| "write_blocks d s b (Suc n) = do {
     d \<leftarrow> write_blocks d s b n;
     let at = unat (of_nat n * SECTOR_SIZE :: u32);
     if at + 512 \<le> length b then Some (wr_sector d (s + of_nat n) (drop at b)) else None
   }"

text \<open>The result of a read: the bytes put at the start of the caller's buffer, and their number.\<close>

definition inode_read :: "volume \<Rightarrow> inode \<Rightarrow> u32 \<Rightarrow> u32 \<Rightarrow> (u8 cells \<times> u32) option" where
  "inode_read v nd from count =
     (if count = 0 then Some ([], 0)
      else do {
        let op = inode_calculate_operation_bounds nd from count;
        blocks \<leftarrow> read_blocks (vdisk v) (sec_from op) (fresh (unat (sec_read op * SECTOR_SIZE))) (unat (sec_read op));
        let off = unat (from mod 512);
        if off + unat (bytes_read op) \<le> length blocks
        then Some (take (unat (bytes_read op)) (drop off blocks), bytes_read op) else None
      })"

definition inode_truncate :: "volume \<Rightarrow> inode \<Rightarrow> volume \<times> inode" where
  "inode_truncate v nd = (let nd = nd\<lparr>alloc := 0, isize := 0\<rparr> in (inode_update v nd, nd))"

subsection \<open>Writing, growing and changing a directory\<close>

text \<open>\<open>inode_write\<close>, \<open>inode_realloc\<close> and \<open>inode_child_set\<close> call each other, but with the parent as
  the node and the null pointer as its parent, where \<open>inode_realloc\<close> calls neither; so the three are
  first defined for the null pointer. The body of a function takes what it calls as an argument.\<close>

type_synonym family = "volume \<times> inode \<times> inode option"

text \<open>\<open>inode_write\<close> once the node has the sectors.\<close>

definition write_data :: "operation_bounds \<Rightarrow> family \<Rightarrow> u32 \<Rightarrow> u8 cells \<Rightarrow> u32 \<Rightarrow> family option" where
  "write_data op = (\<lambda>(v, nd, p) from buf count. do {
     let (v, nd) = (if bytes_overflow op \<noteq> 0
         then (let nd = nd\<lparr>isize := isize nd + bytes_overflow op\<rparr> in (inode_update v nd, nd)) else (v, nd));
     blocks \<leftarrow> read_blocks (vdisk v) (sec_from op) (fresh (unat (SECTOR_SIZE * sec_count op))) (unat (sec_read op));
     blocks \<leftarrow> copy_cells blocks buf (unat (from mod 512)) (unat count);
     d \<leftarrow> write_blocks (vdisk v) (sec_from op) blocks (unat (sec_count op));
     Some (v\<lparr>vdisk := d\<rparr>, nd, p)
   })"

definition inode_write_with :: "(family \<Rightarrow> u32 \<Rightarrow> family option) \<Rightarrow> family \<Rightarrow> u32 \<Rightarrow> u8 cells \<Rightarrow> u32 \<Rightarrow> family option" where
  "inode_write_with realloc fam from buf count =
     (if count = 0 then Some fam
      else (let op = inode_calculate_operation_bounds (fst (snd fam)) from count
        in if sec_overflow op \<noteq> 0 then do {
             fam \<leftarrow> realloc fam (sec_overflow op + alloc (fst (snd fam)));
             write_data (inode_calculate_operation_bounds (fst (snd fam)) from count) fam from buf count
           } else write_data op fam from buf count))"

definition CHOP_ADD :: u8 where "CHOP_ADD = 0"
definition CHOP_REM :: u8 where "CHOP_REM = 1"
definition CHOP_RELOC :: u8 where "CHOP_RELOC = 2"
definition CHOP_RENAME :: u8 where "CHOP_RENAME = 3"

record child_operation =
  name1 :: cstr
  name2 :: cstr
  chindex :: u32
  chop :: u8

definition inode_child_set_with :: "(family \<Rightarrow> u32 \<Rightarrow> family option) \<Rightarrow> family \<Rightarrow> child_operation \<Rightarrow> family option" where
  "inode_child_set_with realloc = (\<lambda>(v, nd, p) op. do {
     (cs, k) \<leftarrow> inode_read v nd 0 (isize nd);
     b \<leftarrow> copy_cells (fresh (unat (max (alloc nd) 1 * SECTOR_SIZE))) cs 0 (length cs);
     let table = \<lparr>ct_ptr = b, ct_size = isize nd, ct_sectors = alloc nd\<rparr>;
     (nd, table) \<leftarrow> (if chop op = CHOP_ADD then do {
           table \<leftarrow> childtable_add table (name1 op) (chindex op);
           Some (nd\<lparr>child_count := child_count nd + 1\<rparr>, table)
         } else if chop op = CHOP_REM then do {
           table \<leftarrow> childtable_remove table (name1 op);
           Some (nd\<lparr>child_count := child_count nd - 1\<rparr>, table)
         } else if chop op = CHOP_RENAME then do {
           table \<leftarrow> childtable_edit_name table (name1 op) (name2 op);
           Some (nd, table)
         } else if chop op = CHOP_RELOC then do {
           table \<leftarrow> childtable_edit_index table (name1 op) (chindex op);
           Some (nd, table)
         } else do {
           table \<leftarrow> childtable_remove table (name1 op);
           Some (nd, table)
         });
     (v, nd, p) \<leftarrow> inode_write_with realloc (v, nd, p) 0 (ct_ptr table) (ct_size table);
     Some (inode_update v nd, nd, p)
   })"

text \<open>The sectors of a node copied one by one through one buffer.\<close>

primrec copy_sectors :: "disk \<Rightarrow> u32 \<Rightarrow> u32 \<Rightarrow> nat \<Rightarrow> disk" where
  "copy_sectors d from to 0 = d"
| "copy_sectors d from to (Suc n) =
     (let d = copy_sectors d from to n in wr_sector d (to + 1 + of_nat n) (rd_sector d (from + 1 + of_nat n)))"

definition move_node :: "volume \<Rightarrow> inode \<Rightarrow> u32 \<Rightarrow> (volume \<times> inode) option" where
  "move_node v nd sectors = do {
     (v, new_index) \<leftarrow> brealloc v (index nd) (sectors + 1);
     let v = v\<lparr>vdisk := copy_sectors (vdisk v) (index nd) new_index (unat (alloc nd))\<rparr>;
     let nd = nd\<lparr>index := new_index, alloc := sectors\<rparr>;
     Some (inode_update v nd, nd)
   }"

definition inode_realloc_null :: "family \<Rightarrow> u32 \<Rightarrow> family option" where
  "inode_realloc_null = (\<lambda>(v, nd, p) sectors. do {
     (v, nd) \<leftarrow> move_node v nd sectors;
     b \<leftarrow> wr_u32 (fresh 512) 0 (index nd);
     Some (v\<lparr>vdisk := wr_sector (vdisk v) ROOT_INDEX_SECTOR b\<rparr>, nd, p)
   })"

definition inode_realloc :: "family \<Rightarrow> u32 \<Rightarrow> family option" where
  "inode_realloc = (\<lambda>(v, nd, p) sectors.
     (case p of
        None \<Rightarrow> inode_realloc_null (v, nd, p) sectors
      | Some parent \<Rightarrow> do {
          (v, nd) \<leftarrow> move_node v nd sectors;
          name \<leftarrow> pathbuf_name (ipath nd);
          name \<leftarrow> name;
          (v, parent, _) \<leftarrow> inode_child_set_with inode_realloc_null (v, parent, None)
             \<lparr>name1 = name, name2 = [], chindex = index nd, chop = CHOP_RELOC\<rparr>;
          Some (v, nd, Some parent)
        }))"

definition inode_write :: "family \<Rightarrow> u32 \<Rightarrow> u8 cells \<Rightarrow> u32 \<Rightarrow> family option" where
  "inode_write = inode_write_with inode_realloc"

definition inode_child_set :: "family \<Rightarrow> child_operation \<Rightarrow> family option" where
  "inode_child_set = inode_child_set_with inode_realloc"

subsection \<open>Looking up, listing, creating and deleting\<close>

definition inode_child :: "volume \<Rightarrow> inode \<Rightarrow> cstr \<Rightarrow> inode \<Rightarrow> inode option" where
  "inode_child v nd name buf = do {
     (cs, k) \<leftarrow> inode_read v nd 0 (isize nd);
     b \<leftarrow> copy_cells (fresh (unat (max 1 (alloc nd) * SECTOR_SIZE))) cs 0 (length cs);
     child_index \<leftarrow> childtable_get \<lparr>ct_ptr = b, ct_size = isize nd, ct_sectors = alloc nd\<rparr> name;
     if child_index \<noteq> 0 then inode_fetch v child_index buf else Some (buf\<lparr>isvalid := 0\<rparr>)
   }"

text \<open>The name is what is put into the caller's buffer, \<open>None\<close> at the end of the directory, where the
  buffer is left as it is.\<close>

definition inode_readdir :: "volume \<Rightarrow> inode \<Rightarrow> u32 \<Rightarrow> (cstr option \<times> u32) option" where
  "inode_readdir v nd from =
     (if from = isize nd then Some (None, 0)
      else do {
        (cs, k) \<leftarrow> inode_read v nd from (isize nd - from);
        dir \<leftarrow> copy_cells (fresh (unat (isize nd - from))) cs 0 (length cs);
        s \<leftarrow> read_str dir;
        Some (Some s, of_nat (length s) + 5)
      })"

text \<open>The node, its parent and the parent's parent; the null pointer as a parent has no result.\<close>

definition inode_create :: "u8 \<Rightarrow> volume \<Rightarrow> inode \<Rightarrow> inode option \<Rightarrow> inode option \<Rightarrow> cstr \<Rightarrow>
    (volume \<times> inode \<times> inode option \<times> inode option) option" where
  "inode_create dir v nd parent gparent name =
     (if length name > MAX_NODE_NAME_LENGTH then None
      else do {
        let nd = nd\<lparr>itype := (if dir \<noteq> 0 then inode_type_dir else inode_type_file), alloc := 0, isize := 0, child_count := 0\<rparr>;
        (v, i) \<leftarrow> balloc v 1;
        let nd = nd\<lparr>index := i, isvalid := 1\<rparr>;
        let v = inode_update v nd;
        parent \<leftarrow> parent;
        (v, parent, gparent) \<leftarrow> inode_child_set (v, parent, gparent)
          \<lparr>name1 = name, name2 = [], chindex = index nd, chop = CHOP_ADD\<rparr>;
        Some (v, nd, Some parent, gparent)
      })"

definition inode_delete :: "volume \<Rightarrow> inode \<Rightarrow> inode option \<Rightarrow> (volume \<times> inode \<times> inode option) option" where
  "inode_delete v nd parent = do {
     let nd = nd\<lparr>isvalid := 0\<rparr>;
     let v = inode_update v nd;
     case parent of
       None \<Rightarrow> Some (v, nd, None)
     | Some parent \<Rightarrow> do {
         name \<leftarrow> rd (buffer (pfields (ipath nd))) (unat (size_v (pfields (ipath nd))));
         (v, parent, _) \<leftarrow> inode_child_set (v, parent, None)
           \<lparr>name1 = name, name2 = [], chindex = 0, chop = CHOP_REM\<rparr>;
         Some (v, nd, Some parent)
       }
   }"

end
