(* ===== verification/Inodedata.thy ===== *)
theory Inodedata
  imports Inode
begin

text \<open>
  What the sectors of a node hold: the bytes of a file, the arithmetic of the sectors an operation
  covers, and the effect of the sector loops.
\<close>

subsection \<open>Runs of sectors\<close>

definition run_cells :: "disk \<Rightarrow> u32 \<Rightarrow> nat \<Rightarrow> u8 cells" where
  "run_cells d s n = concat (List.map (\<lambda>i. rd_sector d (s + of_nat i)) [0..<n])"

lemma run_cells_simps [simp]:
  "run_cells d s 0 = []" "run_cells d s (Suc n) = run_cells d s n @ rd_sector d (s + of_nat n)"
  by (simp_all add: run_cells_def)

lemma length_run_cells [simp]: "disk_ok d \<Longrightarrow> length (run_cells d s n) = 512 * n"
  by (induction n) simp_all

lemma run_cells_add: "run_cells d s (m + n) = run_cells d s m @ run_cells d (s + of_nat m) n"
  by (induction n) (simp_all add: add.assoc)

text \<open>Sectors the driver addresses, and a change of the disk that is limited to some of them.\<close>

definition addressed :: "u32 \<Rightarrow> bool" where
  "addressed s \<longleftrightarrow> unat s < 268435456"

definition changed :: "nat set \<Rightarrow> disk \<Rightarrow> disk \<Rightarrow> bool" where
  "changed S d d' \<longleftrightarrow> (\<forall>s. addressed s \<longrightarrow> unat s \<notin> S \<longrightarrow> rd_sector d' s = rd_sector d s)"

lemma changed_refl [simp]: "changed S d d"
  by (simp add: changed_def)

lemma changed_trans: "changed S d d' \<Longrightarrow> changed T d' d'' \<Longrightarrow> S \<union> T \<subseteq> U \<Longrightarrow> changed U d d''"
  unfolding changed_def by (metis UnI1 UnI2 subsetD)

lemma changed_mono: "changed S d d' \<Longrightarrow> S \<subseteq> U \<Longrightarrow> changed U d d'"
  by (auto simp: changed_def)

lemma changed_wr:
  assumes "addressed s"
  shows "changed {unat s} d (wr_sector d s b)"
  using assms by (auto simp: changed_def addressed_def disk_at_small)

lemma run_cells_unchanged:
  assumes "changed S d d'" and "unat s + n \<le> 268435456" and "S \<inter> {unat s ..< unat s + n} = {}"
  shows "run_cells d' s n = run_cells d s n"
  using assms(2,3)
proof (induction n)
  case (Suc n)
  have u: "unat (s + of_nat n) = unat s + n" using Suc.prems(1) by (intro unat_add_of_nat) simp
  then have "rd_sector d' (s + of_nat n) = rd_sector d (s + of_nat n)"
  proof -
    have "unat s + n \<notin> S" using Suc.prems(2) by auto
    then show ?thesis using assms(1) Suc.prems(1) u by (simp add: changed_def addressed_def)
  qed
  moreover have "S \<inter> {unat s ..< unat s + n} = {}" using Suc.prems(2) by auto
  ultimately show ?case using Suc by simp
qed simp

lemma sector_offset: "n < 8388608 \<Longrightarrow> unat (of_nat n * SECTOR_SIZE) = 512 * n"
  using sector_bytes [of "of_nat n"] by (simp add: unat_of_nat32)

lemma read_blocks_run:
  assumes "disk_ok d" and "512 * n \<le> length b" and "n < 8388608"
  shows "read_blocks d s b n = Some (run_cells d s n @ drop (512 * n) b)"
  using assms(2,3)
proof (induction n)
  case (Suc n)
  then show ?case using assms(1)
    by (simp add: sector_offset copy_cells_def del: of_nat_Suc)
qed simp

lemma write_blocks_run:
  assumes "disk_ok d" and "512 * n \<le> length b" and "n < 8388608" and "unat s + n \<le> 268435456"
  shows "\<exists>d'. write_blocks d s b n = Some d' \<and> disk_ok d' \<and> run_cells d' s n = take (512 * n) b \<and>
    changed {unat s ..< unat s + n} d d'"
  using assms(2-4)
proof (induction n)
  case (Suc n)
  then obtain d' where IH: "write_blocks d s b n = Some d'" "disk_ok d'" "run_cells d' s n = take (512 * n) b"
    "changed {unat s ..< unat s + n} d d'" by auto
  let ?s = "s + of_nat n" and ?d = "wr_sector d' (s + of_nat n) (drop (512 * n) b)"
  have u: "unat ?s = unat s + n" using Suc.prems(3) by (intro unat_add_of_nat) simp
  then have ad: "addressed ?s" using Suc.prems(3) by (simp add: addressed_def)
  have w: "write_blocks d s b (Suc n) = Some ?d"
    using IH(1) Suc.prems by (simp add: sector_offset)
  have c: "changed {unat ?s} d' ?d" by (rule changed_wr [OF ad])
  have "run_cells ?d s n = run_cells d' s n"
    using Suc.prems(3) u by (intro run_cells_unchanged [OF c]) auto
  then have "run_cells ?d s (Suc n) = take (512 * Suc n) b"
    using IH(3) take_add [of "512 * n" 512 b] by (simp add: add.commute)
  moreover have "disk_ok ?d" using IH(2) Suc.prems(1) by simp
  moreover have "changed {unat s ..< unat s + Suc n} d ?d" using u by (intro changed_trans [OF IH(4) c]) auto
  ultimately show ?case using w by blast
qed (use assms(1) in simp)

lemma copy_sectors_run:
  assumes "disk_ok d" and "unat t + 1 + n \<le> 268435456" and "unat s + 1 + n \<le> unat t"
  shows "disk_ok (copy_sectors d s t n) \<and> run_cells (copy_sectors d s t n) (t + 1) n = run_cells d (s + 1) n \<and>
    changed {unat t + 1 ..< unat t + 1 + n} d (copy_sectors d s t n)"
  using assms(2,3)
proof (induction n)
  case (Suc n)
  let ?d = "copy_sectors d s t n"
  have IH: "disk_ok ?d" "run_cells ?d (t + 1) n = run_cells d (s + 1) n" "changed {unat t + 1 ..< unat t + 1 + n} d ?d"
    using Suc by simp_all
  let ?t = "t + 1 + of_nat n" and ?s = "s + 1 + of_nat n"
  have ut: "unat ?t = unat t + 1 + n" "unat (t + 1) = unat t + 1"
    using Suc.prems unat_add_of_nat [of t "Suc n"] unat_add_of_nat [of t 1] by (simp_all add: add.assoc)
  have us: "unat ?s = unat s + 1 + n"
    using Suc.prems unat_add_of_nat [of s "Suc n"] by (simp add: add.assoc)
  have ad: "addressed ?t" "addressed ?s" using ut us Suc.prems by (simp_all add: addressed_def)
  let ?d' = "wr_sector ?d ?t (rd_sector ?d ?s)"
  have c: "changed {unat ?t} ?d ?d'" by (rule changed_wr [OF ad(1)])
  have "run_cells ?d' (t + 1) n = run_cells ?d (t + 1) n"
    using Suc.prems ut by (intro run_cells_unchanged [OF c]) auto
  moreover have "rd_sector ?d ?s = rd_sector d ?s"
    using IH(3) ad(2) us Suc.prems by (auto simp: changed_def)
  ultimately have "run_cells ?d' (t + 1) (Suc n) = run_cells d (s + 1) (Suc n)"
    using IH(1,2) assms(1) by simp
  moreover have "changed {unat t + 1 ..< unat t + 1 + Suc n} d ?d'"
    using ut by (intro changed_trans [OF IH(3) c]) auto
  ultimately show ?case using IH(1) by (simp add: Let_def)
qed (use assms(1) in simp)

subsection \<open>The sectors of an operation\<close>

definition vol_ok :: "volume \<Rightarrow> bool" where
  "vol_ok v \<longleftrightarrow> disk_ok (vdisk v) \<and> 2 \<le> unat (balloc_ptr v) \<and> unat (balloc_ptr v) \<le> 268435456 \<and>
     balloc_lock v = krwlock_init"

text \<open>A node below the allocation pointer, with room for its bytes.\<close>

definition node_ok :: "volume \<Rightarrow> inode \<Rightarrow> bool" where
  "node_ok v nd \<longleftrightarrow> 2 \<le> unat (index nd) \<and> unat (index nd) + 1 + unat (alloc nd) \<le> unat (balloc_ptr v) \<and>
     unat (isize nd) \<le> 512 * unat (alloc nd) \<and> unat (alloc nd) < 4194304"

definition node_sectors :: "inode \<Rightarrow> nat set" where
  "node_sectors nd = {unat (index nd) ..< unat (index nd) + 1 + unat (alloc nd)}"

definition file_is :: "volume \<Rightarrow> inode \<Rightarrow> u8 list \<Rightarrow> bool" where
  "file_is v nd xs \<longleftrightarrow> vol_ok v \<and> node_ok v nd \<and> unat (isize nd) = length xs \<and>
     holds (run_cells (vdisk v) (index nd + 1) (unat (alloc nd))) xs"

text \<open>The number of data sectors up to the last byte of an operation.\<close>

definition sectors_to :: "nat \<Rightarrow> nat" where
  "sectors_to n = (n - 1) div 512 + 1"

lemma sectors_to_bounds:
  assumes "0 < n"
  shows "n \<le> 512 * sectors_to n" and "512 * sectors_to n < n + 512"
  using assms by (simp_all add: sectors_to_def)

lemma operation_bounds_nat:
  fixes frm count :: u32
  assumes "vol_ok v" and "node_ok v nd" and "unat frm \<le> unat (isize nd)" and "0 < unat count"
    and "unat frm + unat count \<le> 2147483648"
  defines "op \<equiv> inode_calculate_operation_bounds nd frm count"
    and "f \<equiv> unat frm" and "e \<equiv> unat frm + unat count"
  shows "unat (sec_from op) = unat (index nd) + 1 + f div 512"
    and "unat (sec_count op) = sectors_to e - f div 512"
    and "unat (sec_overflow op) = sectors_to e - unat (alloc nd)"
    and "unat (sec_read op) = min (sectors_to e) (unat (alloc nd)) - f div 512"
    and "unat (bytes_overflow op) = e - unat (isize nd)"
    and "unat (bytes_read op) = min e (unat (isize nd)) - f"
    and "sec_from op = index nd + 1 + of_nat (f div 512)"
proof -
  have b: "unat (index nd) + 1 + unat (alloc nd) \<le> 268435456" "unat (isize nd) \<le> 512 * unat (alloc nd)"
    using assms(1,2) by (simp_all add: vol_ok_def node_ok_def)
  have se: "512 * sectors_to e < e + 512" "e \<le> 512 * sectors_to e"
    using assms(4) sectors_to_bounds [of e] by (simp_all add: e_def)
  have u512: "unat SECTOR_SIZE = 512" by (simp add: SECTOR_SIZE_def)
  have e: "unat (frm + count) = e" using assms(5) by (simp add: e_def unat_add_nowrap)
  then have "frm + count \<noteq> 0" using assms(4) by (auto simp: e_def)
  then have e1: "unat (frm + count - 1) = e - 1" using e by (simp add: unat_pred)
  have d1: "unat (frm div SECTOR_SIZE) = f div 512" by (simp add: unat_div u512 f_def)
  have d2: "unat ((frm + count - 1) div SECTOR_SIZE) = (e - 1) div 512" by (simp add: unat_div u512 e1)
  have fd: "f div 512 \<le> unat (alloc nd)" "f div 512 \<le> sectors_to e"
    using assms(3) b(2) se by (simp_all add: f_def e_def sectors_to_def)
  have i1: "unat (index nd + 1) = unat (index nd) + 1" using b(1) by (simp add: unat_add_nowrap)
  have sf: "unat (index nd + 1 + frm div SECTOR_SIZE) = unat (index nd) + 1 + f div 512"
    using b(1) fd(1) by (subst unat_add_nowrap) (simp_all add: i1 d1)
  have e31: "sectors_to e \<le> 4194304" using se(1) assms(5) by (simp add: e_def)
  have st: "unat (index nd + 1 + ((frm + count - 1) div SECTOR_SIZE) + 1) = unat (index nd) + 1 + sectors_to e"
  proof -
    have a: "unat (index nd + 1 + ((frm + count - 1) div SECTOR_SIZE)) = unat (index nd) + 1 + (e - 1) div 512"
      using b(1) e31 by (subst unat_add_nowrap) (simp_all add: i1 d2 sectors_to_def)
    show ?thesis using b(1) e31 a by (subst unat_add_nowrap) (simp_all add: sectors_to_def)
  qed
  have sn: "unat (index nd + 1 + alloc nd) = unat (index nd) + 1 + unat (alloc nd)"
    using b(1) by (subst unat_add_nowrap) (simp_all add: i1)
  obtain to_sec end_sec where S: "index nd + 1 + ((frm + count - 1) div SECTOR_SIZE) + 1 = to_sec"
    and N: "index nd + 1 + alloc nd = end_sec" by blast
  note st = st [unfolded S] and sn = sn [unfolded N]
  show "unat (sec_from op) = unat (index nd) + 1 + f div 512"
    by (simp add: op_def inode_calculate_operation_bounds_def Let_def sf)
  show "sec_from op = index nd + 1 + of_nat (f div 512)"
    by (simp add: op_def inode_calculate_operation_bounds_def Let_def word_eq_by_unat d1 flip: d1)
  show "unat (sec_count op) = sectors_to e - f div 512"
    unfolding op_def inode_calculate_operation_bounds_def Let_def operation_bounds.simps S N
    using st sf fd(2) by (subst unat_diff_nowrap) simp_all
  show "unat (sec_overflow op) = sectors_to e - unat (alloc nd)"
    unfolding op_def inode_calculate_operation_bounds_def Let_def operation_bounds.simps S N
    using st sn by (auto simp: word_less_nat_alt unat_diff_nowrap)
  show "unat (sec_read op) = min (sectors_to e) (unat (alloc nd)) - f div 512"
    unfolding op_def inode_calculate_operation_bounds_def Let_def operation_bounds.simps S N
    using st sn sf fd by (auto simp: word_less_nat_alt unat_diff_nowrap)
  show "unat (bytes_overflow op) = e - unat (isize nd)"
    unfolding op_def inode_calculate_operation_bounds_def Let_def operation_bounds.simps
    using e by (auto simp: word_less_nat_alt unat_diff_nowrap)
  show "unat (bytes_read op) = min e (unat (isize nd)) - f"
    unfolding op_def inode_calculate_operation_bounds_def Let_def operation_bounds.simps
    using e assms(3) by (auto simp: word_less_nat_alt unat_diff_nowrap f_def e_def)
qed

lemma run_cells_slice:
  assumes "disk_ok d" and "a + k \<le> n"
  shows "run_cells d (s + of_nat a) k = take (512 * k) (drop (512 * a) (run_cells d s n))"
proof -
  obtain m where n: "n = a + k + m" using assms(2) le_Suc_ex by blast
  show ?thesis using assms(1) by (simp add: n run_cells_add)
qed

lemma run_cells_replace:
  assumes "disk_ok d" and "a + k \<le> n" and "unat s + n \<le> 268435456"
    and "changed {unat s + a ..< unat s + a + k} d d'"
  shows "run_cells d' s n =
    take (512 * a) (run_cells d s n) @ run_cells d' (s + of_nat a) k @ drop (512 * (a + k)) (run_cells d s n)"
proof -
  obtain m where n: "n = a + k + m" using assms(2) le_Suc_ex by blast
  have u: "unat (s + of_nat (a + k)) = unat s + (a + k)" using assms(3) n by (intro unat_add_of_nat) simp
  have "run_cells d' s a = run_cells d s a" using assms(3) n by (intro run_cells_unchanged [OF assms(4)]) auto
  moreover have "run_cells d' (s + of_nat (a + k)) m = run_cells d (s + of_nat (a + k)) m"
    using assms(3) n by (intro run_cells_unchanged [OF assms(4)]) (simp_all only: u, auto)
  ultimately show ?thesis using assms(1) unfolding n run_cells_add by simp
qed

lemma file_is_cells:
  assumes "file_is v nd xs"
  obtains rest where "run_cells (vdisk v) (index nd + 1) (unat (alloc nd)) = List.map Some xs @ rest"
    "length xs + length rest = 512 * unat (alloc nd)"
proof -
  obtain rest where r: "run_cells (vdisk v) (index nd + 1) (unat (alloc nd)) = List.map Some xs @ rest"
    using assms by (auto simp: file_is_def holds_iff)
  moreover have "length (run_cells (vdisk v) (index nd + 1) (unat (alloc nd))) = 512 * unat (alloc nd)"
    using assms by (simp add: file_is_def vol_ok_def)
  ultimately show ?thesis using that by simp
qed

lemma inode_read_file:
  assumes "file_is v nd xs" and "unat frm \<le> length xs" and "unat frm + unat count \<le> 2147483648"
  shows "inode_read v nd frm count =
    Some (List.map Some (take (unat count) (drop (unat frm) xs)), of_nat (min (unat count) (length xs - unat frm)))"
proof (cases "count = 0")
  case False
  let ?f = "unat frm" and ?e = "unat frm + unat count" and ?D = "run_cells (vdisk v) (index nd + 1) (unat (alloc nd))"
  let ?op = "inode_calculate_operation_bounds nd frm count"
  have ok: "vol_ok v" "node_ok v nd" "unat (isize nd) = length xs" "disk_ok (vdisk v)"
    using assms(1) by (simp_all add: file_is_def vol_ok_def)
  have c: "0 < unat count" using False by (simp add: unat_gt_0)
  note ob = operation_bounds_nat [OF ok(1,2) _ c assms(3), unfolded ok(3), OF assms(2)]
  obtain rest where D: "?D = List.map Some xs @ rest" "length xs + length rest = 512 * unat (alloc nd)"
    using file_is_cells [OF assms(1)] .
  let ?k = "min (sectors_to ?e) (unat (alloc nd)) - ?f div 512" and ?br = "min ?e (length xs) - ?f"
  have se: "?e \<le> 512 * sectors_to ?e" "512 * sectors_to ?e < ?e + 512" using sectors_to_bounds [of ?e] c by simp_all
  have al: "length xs \<le> 512 * unat (alloc nd)" using D(2) by simp
  have fd: "?f div 512 \<le> min (sectors_to ?e) (unat (alloc nd))" using se(1) al assms(2) by linarith
  have split: "?f = 512 * (?f div 512) + ?f mod 512" by simp
  have cover: "?f mod 512 + ?br \<le> 512 * ?k"
  proof -
    have "?f + ?br \<le> 512 * min (sectors_to ?e) (unat (alloc nd))" using se(1) al assms(2) by linarith
    then have "512 * (?f div 512) + ?f mod 512 + ?br \<le> 512 * min (sectors_to ?e) (unat (alloc nd))" by simp
    then show ?thesis unfolding diff_mult_distrib2 by linarith
  qed
  have k: "?k < 8388608" using se(2) assms(3) by linarith
  have sz: "unat (sec_read ?op * SECTOR_SIZE) = 512 * ?k"
    using k ob(4) sector_bytes [of "sec_read ?op"] by simp
  have blocks: "read_blocks (vdisk v) (sec_from ?op) (fresh (unat (sec_read ?op * SECTOR_SIZE))) (unat (sec_read ?op)) =
      Some (run_cells (vdisk v) (sec_from ?op) ?k)"
    using read_blocks_run [OF ok(4), of ?k "fresh (512 * ?k)" "sec_from ?op"] k unfolding sz ob(4) by simp
  have "?f div 512 + ?k \<le> unat (alloc nd)" using fd by simp
  then have B: "run_cells (vdisk v) (sec_from ?op) ?k = take (512 * ?k) (drop (512 * (?f div 512)) ?D)"
    unfolding ob(7) by (rule run_cells_slice [OF ok(4)])
  have "take ?br (drop (?f mod 512) (run_cells (vdisk v) (sec_from ?op) ?k)) = take ?br (drop ?f ?D)"
  proof -
    have "min ?br (512 * ?k - ?f mod 512) = ?br" using cover by linarith
    then show ?thesis unfolding B by (simp add: drop_take)
  qed
  also have "\<dots> = List.map Some (take ?br (drop ?f xs))" using assms(2) by (simp add: D(1) take_map drop_map)
  also have "take ?br (drop ?f xs) = take (unat count) (drop ?f xs)" by (simp add: min_def)
  finally have res: "take ?br (drop (?f mod 512) (run_cells (vdisk v) (sec_from ?op) ?k)) =
    List.map Some (take (unat count) (drop ?f xs))" .
  have "bytes_read ?op = of_nat ?br" using ob(6) by (metis of_nat_unat ucast_id)
  moreover have "?br = min (unat count) (length xs - ?f)" by simp
  ultimately have br: "bytes_read ?op = of_nat (min (unat count) (length xs - ?f))" by simp
  have um: "unat (frm mod 512) = ?f mod 512" by (simp add: unat_mod)
  have len: "length (run_cells (vdisk v) (sec_from ?op) ?k) = 512 * ?k" using ok(4) by simp
  show ?thesis
    unfolding inode_read_def Let_def blocks bind.bind_lunit um ob(6) len res using False cover
    by (simp add: br)
qed (simp add: inode_read_def)

end
