(* ===== verification/Inodewrite.thy ===== *)
theory Inodewrite
  imports Inodedata
begin

text \<open>
  What writing does to a file: the bytes change in place, a node that grows moves to new sectors with its
  contents and its directory is told, and nothing else on the disk changes.
\<close>

lemma bind_Some_eq: "m = Some x \<Longrightarrow> f x = r \<Longrightarrow> Option.bind m f = r"
  by simp

definition splice :: "'a list \<Rightarrow> nat \<Rightarrow> 'a list \<Rightarrow> 'a list" where
  "splice xs f ys = take f xs @ ys @ drop (f + length ys) xs"

lemma length_splice: "f \<le> length xs \<Longrightarrow> length (splice xs f ys) = max (length xs) (f + length ys)"
  by (simp add: splice_def)

lemma splice_holds:
  assumes "D = List.map Some xs @ rest" and "f \<le> length xs" and "f + length bs \<le> length D"
  shows "holds (take f D @ List.map Some bs @ drop (f + length bs) D) (splice xs f bs)"
proof -
  have "take f D = List.map Some (take f xs)" using assms(1,2) by (simp add: take_map)
  moreover have "drop (f + length bs) D = List.map Some (drop (f + length bs) xs) @ drop (f + length bs - length xs) rest"
    using assms(1) by (simp add: drop_map)
  ultimately have "take f D @ List.map Some bs @ drop (f + length bs) D =
      List.map Some (splice xs f bs) @ drop (f + length bs - length xs) rest"
    by (simp add: splice_def)
  then show ?thesis by (auto simp: holds_iff)
qed

lemma length_put: "r + length ys \<le> length B \<Longrightarrow> length (take r B @ ys @ drop (r + length ys) B) = length B"
  by simp

text \<open>The bytes of some of the sectors of a node, changed in one place.\<close>

lemma splice_blocks:
  fixes D :: "'a list"
  assumes "q \<le> m" and "512 * m \<le> length D" and "512 * q + r + length bs \<le> 512 * m"
  shows "take (512 * q) D @ (take r (take (512 * (m - q)) (drop (512 * q) D)) @ bs @
      drop (r + length bs) (take (512 * (m - q)) (drop (512 * q) D))) @ drop (512 * m) D =
    take (512 * q + r) D @ bs @ drop (512 * q + r + length bs) D"
proof -
  let ?B = "take (512 * (m - q)) (drop (512 * q) D)"
  have m: "512 * (m - q) + 512 * q = 512 * m" using assms(1) by simp
  have "take (512 * q) D @ take r ?B = take (512 * q + r) D"
    using assms(3) m by (simp add: take_add min_def)
  moreover have "drop (r + length bs) ?B @ drop (512 * m) D = drop (512 * q + r + length bs) D"
  proof -
    have "drop (512 * q) D = ?B @ drop (512 * m) D"
      using append_take_drop_id [of "512 * (m - q)" "drop (512 * q) D"] m by (simp add: add.commute)
    then have "drop (r + length bs) (drop (512 * q) D) = drop (r + length bs) (?B @ drop (512 * m) D)" by simp
    moreover have "r + length bs \<le> length ?B" using assms m by simp
    ultimately show ?thesis by (simp add: ac_simps)
  qed
  ultimately show ?thesis by (metis append.assoc)
qed

subsection \<open>Writing where there is room\<close>

lemma length_inode_cells [simp]: "length (inode_cells nd) = 512"
  by (simp add: inode_cells_def)

lemma vol_ok_sector:
  "vol_ok v \<Longrightarrow> 512 \<le> length b \<Longrightarrow> vol_ok (v\<lparr>vdisk := wr_sector (vdisk v) s b\<rparr>)"
  by (simp add: vol_ok_def)

lemma vol_ok_update: "vol_ok v \<Longrightarrow> vol_ok (inode_update v nd)"
  by (simp add: inode_update_def vol_ok_sector)

lemma inode_update_simps [simp]:
  "balloc_ptr (inode_update v nd) = balloc_ptr v" "curtask (inode_update v nd) = curtask v"
  "balloc_lock (inode_update v nd) = balloc_lock v" "node_ok (inode_update v nd) = node_ok v"
  by (simp_all add: inode_update_def node_ok_def fun_eq_iff)

lemma node_addressed:
  assumes "vol_ok v" and "node_ok v nd"
  shows "addressed (index nd)" and "unat (index nd + 1) = unat (index nd) + 1"
    and "unat (index nd + 1) + unat (alloc nd) \<le> 268435456"
proof -
  show i: "unat (index nd + 1) = unat (index nd) + 1"
    using assms by (subst unat_add_nowrap) (simp_all add: vol_ok_def node_ok_def)
  show "addressed (index nd)" "unat (index nd + 1) + unat (alloc nd) \<le> 268435456"
    using assms unfolding i by (simp_all add: vol_ok_def node_ok_def addressed_def)
qed

lemma inode_update_data:
  assumes "vol_ok v" and "node_ok v nd" and "index nd' = index nd"
  shows "run_cells (vdisk (inode_update v nd')) (index nd + 1) (unat (alloc nd)) = run_cells (vdisk v) (index nd + 1) (unat (alloc nd))"
    and "changed (node_sectors nd) (vdisk v) (vdisk (inode_update v nd'))"
proof -
  note na = node_addressed [OF assms(1,2)]
  have c: "changed {unat (index nd)} (vdisk v) (vdisk (inode_update v nd'))"
    unfolding inode_update_def assms(3) using changed_wr [OF na(1)] by simp
  show "run_cells (vdisk (inode_update v nd')) (index nd + 1) (unat (alloc nd)) = run_cells (vdisk v) (index nd + 1) (unat (alloc nd))"
    using na(2,3) by (intro run_cells_unchanged [OF c]) auto
  show "changed (node_sectors nd) (vdisk v) (vdisk (inode_update v nd'))"
    by (rule changed_mono [OF c]) (auto simp: node_sectors_def)
qed

text \<open>A node's sector holds its fields.\<close>

definition stored :: "volume \<Rightarrow> inode \<Rightarrow> bool" where
  "stored v nd \<longleftrightarrow> rd_sector (vdisk v) (index nd) = inode_cells nd"

lemma stored_update [simp]: "stored (inode_update v nd) nd"
  by (simp add: stored_def inode_update_def)

lemma grow_size:
  assumes "vol_ok v" and "node_ok v nd" and "unat k = e - unat (isize nd)" and "e \<le> 512 * unat (alloc nd)"
  shows "\<exists>d nd'. (if k \<noteq> 0 then (let nd = nd\<lparr>isize := isize nd + k\<rparr> in (inode_update v nd, nd)) else (v, nd)) = (v\<lparr>vdisk := d\<rparr>, nd') \<and>
    disk_ok d \<and> nd' = nd\<lparr>isize := isize nd'\<rparr> \<and> unat (isize nd') = max (unat (isize nd)) e \<and>
    run_cells d (index nd + 1) (unat (alloc nd)) = run_cells (vdisk v) (index nd + 1) (unat (alloc nd)) \<and>
    changed (node_sectors nd) (vdisk v) d \<and> (stored v nd \<longrightarrow> stored (v\<lparr>vdisk := d\<rparr>) nd')"
proof (cases "k = 0")
  case True
  then have "e \<le> unat (isize nd)" using assms(3) by simp
  then show ?thesis using True assms(1)
    by (intro exI [of _ "vdisk v"] exI [of _ nd]) (simp add: vol_ok_def max_def)
next
  case False
  then have e: "unat (isize nd) < e" using assms(3) by (metis unat_gt_0 zero_less_diff)
  have "unat (isize nd + k) = e"
    using e assms by (subst unat_add_nowrap) (simp_all add: node_ok_def)
  moreover let ?nd = "nd\<lparr>isize := isize nd + k\<rparr>"
  have "disk_ok (vdisk (inode_update v ?nd))" using vol_ok_update [OF assms(1)] by (simp add: vol_ok_def)
  ultimately show ?thesis using False e inode_update_data [OF assms(1,2), of ?nd]
    by (intro exI [of _ "vdisk (inode_update v ?nd)"] exI [of _ ?nd]) (simp add: inode_update_def stored_def Let_def)
qed

text \<open>\<open>write_data\<close>: the node keeps its sectors, and its size becomes the end of the write when that is larger.\<close>

lemma write_data_file:
  assumes "file_is v nd xs" and "holds buf bs" and "length bs = unat count" and "0 < unat count"
    and "unat frm \<le> length xs" and "unat frm + unat count \<le> 512 * unat (alloc nd)"
  defines "op \<equiv> inode_calculate_operation_bounds nd frm count"
  shows "\<exists>d nd'. write_data op (v, nd, p) frm buf count = Some (v\<lparr>vdisk := d\<rparr>, nd', p) \<and>
    file_is (v\<lparr>vdisk := d\<rparr>) nd' (splice xs (unat frm) bs) \<and> nd' = nd\<lparr>isize := isize nd'\<rparr> \<and>
    changed (node_sectors nd) (vdisk v) d \<and> (stored v nd \<longrightarrow> stored (v\<lparr>vdisk := d\<rparr>) nd')"
proof -
  let ?f = "unat frm" and ?c = "unat count" and ?n = "unat (alloc nd)"
  have ok: "vol_ok v" "node_ok v nd" "unat (isize nd) = length xs" using assms(1) by (simp_all add: file_is_def)
  have al: "?n < 4194304" "length xs \<le> 512 * ?n" using ok by (simp_all add: node_ok_def)
  have e31: "?f + ?c \<le> 2147483648" using assms(6) al by linarith
  note na = node_addressed [OF ok(1,2)]
  note ob = operation_bounds_nat [OF ok(1,2) _ assms(4) e31, unfolded ok(3), OF assms(5), folded op_def]
  let ?e = "?f + ?c" and ?q = "?f div 512" and ?r = "?f mod 512"
  let ?m = "sectors_to ?e"
  have se: "?e \<le> 512 * ?m" "512 * ?m < ?e + 512" using sectors_to_bounds [of ?e] assms(4) by simp_all
  have mn: "?m \<le> ?n" using se(2) assms(6) by linarith
  have qm: "?q \<le> ?m" using se(1) by linarith
  have k: "min ?m ?n - ?q = ?m - ?q" using mn by simp
  have fqr: "512 * ?q + ?r = ?f" by simp
  let ?s = "index nd + 1"
  obtain d1 nd1 where upd: "(if bytes_overflow op \<noteq> 0 then (let nd = nd\<lparr>isize := isize nd + bytes_overflow op\<rparr> in (inode_update v nd, nd))
      else (v, nd)) = (v\<lparr>vdisk := d1\<rparr>, nd1)"
    and d1: "disk_ok d1" "nd1 = nd\<lparr>isize := isize nd1\<rparr>" "unat (isize nd1) = max (length xs) ?e"
      "run_cells d1 ?s ?n = run_cells (vdisk v) ?s ?n" "changed (node_sectors nd) (vdisk v) d1"
      "stored v nd \<longrightarrow> stored (v\<lparr>vdisk := d1\<rparr>) nd1"
    using grow_size [OF ok(1,2) ob(5) [folded ok(3)] assms(6), unfolded ok(3)] by blast
  obtain rest where D: "run_cells (vdisk v) ?s ?n = List.map Some xs @ rest" "length xs + length rest = 512 * ?n"
    using file_is_cells [OF assms(1)] .
  let ?D = "run_cells (vdisk v) ?s ?n"
  have lD: "length ?D = 512 * ?n" using D by simp
  let ?B = "take (512 * (?m - ?q)) (drop (512 * ?q) ?D)"
  have B: "run_cells d1 (sec_from op) (?m - ?q) = ?B"
    using run_cells_slice [OF d1(1), of ?q "?m - ?q" ?n ?s] qm mn by (simp add: ob(7) d1(4))
  have lB: "length ?B = 512 * (?m - ?q)" using lD qm mn by simp
  have small: "?m - ?q < 8388608" using se(2) e31 by linarith
  have sz: "unat (SECTOR_SIZE * sec_count op) = 512 * (?m - ?q)"
    using small ob(2) sector_bytes [of "sec_count op"] by (simp add: mult.commute)
  have rd: "read_blocks d1 (sec_from op) (fresh (unat (SECTOR_SIZE * sec_count op))) (unat (sec_read op)) = Some ?B"
    using read_blocks_run [OF d1(1), of "?m - ?q" "fresh (512 * (?m - ?q))" "sec_from op"] small B
    unfolding sz ob(4) k by simp
  have cb: "take ?c buf = List.map Some bs" "?c \<le> length buf" using assms(2,3) by (auto simp: holds_def)
  let ?B' = "take ?r ?B @ List.map Some bs @ drop (?r + ?c) ?B"
  have fit: "512 * ?q + ?r + ?c \<le> 512 * ?m" using se(1) by simp
  then have rc: "?r + ?c \<le> 512 * (?m - ?q)" unfolding diff_mult_distrib2 by linarith
  then have cp: "copy_cells ?B buf (unat (frm mod 512)) ?c = Some ?B'"
    unfolding copy_cells_def lB using cb by (simp add: unat_mod)
  have lB': "length ?B' = 512 * (?m - ?q)"
    using length_put [of ?r "List.map Some bs" ?B] rc unfolding lB length_map assms(3) by linarith
  have sf: "unat (sec_from op) + (?m - ?q) \<le> 268435456"
    using na(2,3) mn qm unfolding ob(1) by linarith
  have e1: "512 * (?m - ?q) \<le> length ?B'" by (rule eq_refl [OF lB' [symmetric]])
  have t1: "take (512 * (?m - ?q)) ?B' = ?B'" by (rule take_all [OF eq_refl [OF lB']])
  obtain d2 where
    d2: "write_blocks d1 (sec_from op) ?B' (?m - ?q) = Some d2" "disk_ok d2" "run_cells d2 (sec_from op) (?m - ?q) = ?B'"
      "changed {unat (sec_from op) ..< unat (sec_from op) + (?m - ?q)} d1 d2"
    using write_blocks_run [OF d1(1) e1 small sf, unfolded t1] by blast
  have us: "unat ?s = unat (index nd) + 1" by (rule na(2))
  have c2: "changed {unat ?s + ?q ..< unat ?s + ?q + (?m - ?q)} d1 d2" using d2(4) unfolding us ob(1) .
  have "run_cells d2 ?s ?n = take (512 * ?q) ?D @ ?B' @ drop (512 * ?m) ?D"
    using run_cells_replace [OF d1(1) _ na(3) c2] qm mn d2(3) by (simp add: d1(4) ob(7))
  moreover have "512 * ?m \<le> length ?D" using lD mn by simp
  note splice_blocks [OF qm this, of ?r "List.map Some bs", unfolded length_map assms(3) fqr, OF fit [unfolded fqr]]
  ultimately have run2: "run_cells d2 ?s ?n = take ?f ?D @ List.map Some bs @ drop (?f + length bs) ?D" unfolding assms(3) by (rule trans)
  have h: "holds (run_cells d2 ?s ?n) (splice xs ?f bs)"
    unfolding run2 using assms(3,5,6) lD by (intro splice_holds [OF D(1)]) simp_all
  have vs: "vdisk (v\<lparr>vdisk := d1\<rparr>) = d1" "v\<lparr>vdisk := d1, vdisk := d\<rparr> = v\<lparr>vdisk := d\<rparr>" for d by simp_all
  have run: "write_data op (v, nd, p) frm buf count = Some (v\<lparr>vdisk := d2\<rparr>, nd1, p)"
    unfolding write_data_def prod.case upd
    unfolding Let_def prod.case ob(2) vs
    by (intro bind_Some_eq [OF rd] bind_Some_eq [OF cp] bind_Some_eq [OF d2(1)] refl)
  have nd1: "index nd1 = index nd" "alloc nd1 = alloc nd" 
    using arg_cong [OF d1(2), of index] arg_cong [OF d1(2), of alloc] by simp_all
  have "file_is (v\<lparr>vdisk := d2\<rparr>) nd1 (splice xs ?f bs)"
    using ok d2(2) h d1(3) assms(3,5,6) al
    by (simp add: file_is_def vol_ok_def node_ok_def nd1 length_splice)
  moreover have "changed (node_sectors nd) (vdisk v) d2"
    using mn qm us ob(1) by (intro changed_trans [OF d1(5) d2(4)]) (auto simp: node_sectors_def)
  moreover have "rd_sector d2 (index nd) = rd_sector d1 (index nd)"
    using d2(4) na(1) ob(1) by (auto simp: changed_def)
  then have "stored v nd \<longrightarrow> stored (v\<lparr>vdisk := d2\<rparr>) nd1" using d1(6) by (simp add: stored_def nd1)
  ultimately show ?thesis using run d1(2) by blast
qed

lemma inode_write_room:
  assumes "file_is v nd xs" and "holds buf bs" and "length bs = unat count"
    and "unat frm \<le> length xs" and "unat frm + unat count \<le> 512 * unat (alloc nd)"
  shows "\<exists>d nd'. inode_write_with ra (v, nd, p) frm buf count = Some (v\<lparr>vdisk := d\<rparr>, nd', p) \<and>
    file_is (v\<lparr>vdisk := d\<rparr>) nd' (splice xs (unat frm) bs) \<and> nd' = nd\<lparr>isize := isize nd'\<rparr> \<and>
    changed (node_sectors nd) (vdisk v) d \<and> (stored v nd \<longrightarrow> stored (v\<lparr>vdisk := d\<rparr>) nd')"
proof (cases "count = 0")
  case True
  then show ?thesis using assms
    by (intro exI [of _ "vdisk v"] exI [of _ nd]) (simp add: inode_write_with_def splice_def)
next
  case False
  then have c: "0 < unat count" by (simp add: unat_gt_0)
  have ok: "vol_ok v" "node_ok v nd" "unat (isize nd) = length xs" using assms(1) by (simp_all add: file_is_def)
  have e31: "unat frm + unat count \<le> 2147483648" using assms(5) ok(2) by (simp add: node_ok_def)
  note ob = operation_bounds_nat [OF ok(1,2) _ c e31, unfolded ok(3), OF assms(4)]
  have "sectors_to (unat frm + unat count) \<le> unat (alloc nd)"
    using sectors_to_bounds(2) [of "unat frm + unat count"] c assms(5) by linarith
  then have "sec_overflow (inode_calculate_operation_bounds nd frm count) = 0"
    using ob(3) by (simp add: word_eq_by_unat)
  then have "inode_write_with ra (v, nd, p) frm buf count =
      write_data (inode_calculate_operation_bounds nd frm count) (v, nd, p) frm buf count"
    using False by (simp add: inode_write_with_def Let_def)
  then show ?thesis using write_data_file [OF assms(1-3) c assms(4,5)] by simp
qed

text \<open>A node that has to grow, over what the reallocation does.\<close>

lemma inode_write_grow:
  assumes "file_is v nd xs" and "holds buf bs" and "length bs = unat count"
    and "unat frm \<le> length xs" and "512 * unat (alloc nd) < unat frm + unat count" and "unat frm + unat count \<le> 2147483136"
    and "ra (v, nd, p) (of_nat (sectors_to (unat frm + unat count))) = Some (v1, nd1, p1)"
    and "file_is v1 nd1 xs" and "unat (alloc nd1) = sectors_to (unat frm + unat count)"
  shows "\<exists>d nd'. inode_write_with ra (v, nd, p) frm buf count = Some (v1\<lparr>vdisk := d\<rparr>, nd', p1) \<and>
    file_is (v1\<lparr>vdisk := d\<rparr>) nd' (splice xs (unat frm) bs) \<and> nd' = nd1\<lparr>isize := isize nd'\<rparr> \<and>
    changed (node_sectors nd1) (vdisk v1) d \<and> (stored v1 nd1 \<longrightarrow> stored (v1\<lparr>vdisk := d\<rparr>) nd')"
proof -
  have ok: "vol_ok v" "node_ok v nd" "unat (isize nd) = length xs" using assms(1) by (simp_all add: file_is_def)
  have "length xs \<le> 512 * unat (alloc nd)" using ok(2,3) by (simp add: node_ok_def)
  then have c: "0 < unat count" using assms(4,5) by linarith
  then have c0: "count \<noteq> 0" by auto
  have e31: "unat frm + unat count \<le> 2147483648" using assms(6) by simp
  let ?e = "unat frm + unat count"
  let ?op = "inode_calculate_operation_bounds nd frm count"
  have se: "?e \<le> 512 * sectors_to ?e" "512 * sectors_to ?e < ?e + 512" using sectors_to_bounds [of ?e] c by simp_all
  then have more: "unat (alloc nd) < sectors_to ?e" using assms(5) by linarith
  have o: "unat (sec_overflow ?op) = sectors_to ?e - unat (alloc nd)"
    using operation_bounds_nat(3) [OF ok(1,2) _ c e31, unfolded ok(3), OF assms(4)] .
  then have o0: "sec_overflow ?op \<noteq> 0" using more by (auto simp: word_eq_by_unat)
  have "unat (sec_overflow ?op + alloc nd) = sectors_to ?e"
    using o more se(2) assms(6) by (subst unat_add_nowrap) simp_all
  then have k: "sec_overflow ?op + alloc nd = of_nat (sectors_to ?e)" by (metis of_nat_unat ucast_id)
  have "inode_write_with ra (v, nd, p) frm buf count =
      write_data (inode_calculate_operation_bounds nd1 frm count) (v1, nd1, p1) frm buf count"
    using c0 o0 assms(7) by (simp add: inode_write_with_def Let_def k)
  then show ?thesis
    using write_data_file [OF assms(8,2,3) c assms(4), of p1] se(1) assms(9) by simp
qed

subsection \<open>Allocation and moving a node\<close>

lemma wr_u32_start: "wr_u32 (fresh 512) 0 w = Some (List.map Some (u32_bytes w) @ fresh 508)"
  by (simp add: wr_u32_def put_str_def copy_cells_def fresh_def)

text \<open>The allocation pointer as it is on the disk.\<close>

definition balloc_stored :: "volume \<Rightarrow> bool" where
  "balloc_stored v \<longleftrightarrow> rd_sector (vdisk v) BALLOC_SECTOR = List.map Some (u32_bytes (balloc_ptr v)) @ fresh 508"

lemma balloc_update_ok:
  assumes "vol_ok v"
  shows "\<exists>v'. balloc_update v = Some v' \<and> vol_ok v' \<and> v' = v\<lparr>vdisk := vdisk v'\<rparr> \<and> changed {0} (vdisk v) (vdisk v') \<and>
    balloc_stored v'"
proof -
  let ?b = "List.map Some (u32_bytes (balloc_ptr v)) @ fresh 508 :: u8 cells"
  let ?v = "v\<lparr>vdisk := wr_sector (vdisk v) BALLOC_SECTOR ?b\<rparr>"
  have l: "balloc_lock v = krwlock_init" using assms by (simp add: vol_ok_def)
  then have "balloc_update v = Some ?v" 
    by (cases v) (simp add: balloc_update_def wr_u32_start free_lock)
  moreover have "vol_ok ?v" by (rule vol_ok_sector [OF assms]) simp
  moreover have "changed {0} (vdisk v) (vdisk ?v)"
    using changed_wr [of BALLOC_SECTOR] by (simp add: BALLOC_SECTOR_def addressed_def)
  moreover have "balloc_stored ?v" by (simp add: balloc_stored_def)
  ultimately show ?thesis by (intro exI [of _ ?v]) simp
qed

lemma balloc_ok:
  assumes "vol_ok v" and "unat (balloc_ptr v) + n \<le> 268435456"
  shows "\<exists>v'. balloc v (of_nat n) = Some (v', balloc_ptr v) \<and> vol_ok v' \<and> unat (balloc_ptr v') = unat (balloc_ptr v) + n \<and>
    changed {0} (vdisk v) (vdisk v') \<and> curtask v' = curtask v \<and> balloc_stored v'"
proof -
  let ?v = "v\<lparr>balloc_ptr := balloc_ptr v + of_nat n\<rparr>"
  have u: "unat (balloc_ptr v + of_nat n) = unat (balloc_ptr v) + n" using assms(2) by (intro unat_add_of_nat) simp
  have "vol_ok ?v" using assms u by (simp add: vol_ok_def)
  from balloc_update_ok [OF this] obtain v' where v': "balloc_update ?v = Some v'" "vol_ok v'" "v' = ?v\<lparr>vdisk := vdisk v'\<rparr>"
    "changed {0} (vdisk v) (vdisk v')" "balloc_stored v'" by auto
  have "balloc_ptr v' = balloc_ptr v + of_nat n" "curtask v' = curtask v"
    using arg_cong [OF v'(3), of balloc_ptr] arg_cong [OF v'(3), of curtask] by simp_all
  then show ?thesis using v' u by (simp add: balloc_def Let_def)
qed

lemma move_node_file:
  assumes "file_is v nd xs" and "unat (alloc nd) \<le> n" and "n < 4194304"
    and "unat (balloc_ptr v) + n + 1 \<le> 268435456"
  defines "nd' \<equiv> nd\<lparr>index := balloc_ptr v, alloc := of_nat n\<rparr>"
  shows "\<exists>v'. move_node v nd (of_nat n) = Some (v', nd') \<and> file_is v' nd' xs \<and> stored v' nd' \<and>
    unat (balloc_ptr v') = unat (balloc_ptr v) + n + 1 \<and> curtask v' = curtask v \<and>
    changed (insert 0 {unat (balloc_ptr v) ..< unat (balloc_ptr v) + n + 1}) (vdisk v) (vdisk v')"
proof -
  have ok: "vol_ok v" "node_ok v nd" "unat (isize nd) = length xs" using assms(1) by (simp_all add: file_is_def)
  let ?bp = "unat (balloc_ptr v)" and ?a = "unat (alloc nd)"
  obtain v1 where v1: "balloc v (of_nat (n + 1)) = Some (v1, balloc_ptr v)" "vol_ok v1"
    "unat (balloc_ptr v1) = ?bp + (n + 1)" "changed {0} (vdisk v) (vdisk v1)" "curtask v1 = curtask v"
    using balloc_ok [OF ok(1), of "n + 1"] assms(4) by auto
  let ?d = "copy_sectors (vdisk v1) (index nd) (balloc_ptr v) ?a"
  have dok: "disk_ok (vdisk v1)" using v1(2) by (simp add: vol_ok_def)
  have below: "unat (index nd) + 1 + ?a \<le> ?bp" using ok(2) by (simp add: node_ok_def)
  from copy_sectors_run [OF dok _ below] assms(2,4)
  have d: "disk_ok ?d" "run_cells ?d (balloc_ptr v + 1) ?a = run_cells (vdisk v1) (index nd + 1) ?a"
    "changed {?bp + 1 ..< ?bp + 1 + ?a} (vdisk v1) ?d" by simp_all
  let ?v2 = "v1\<lparr>vdisk := ?d\<rparr>"
  let ?v3 = "inode_update ?v2 nd'"
  have n: "unat (of_nat n :: u32) = n" using assms(3) by (intro unat_of_nat32) simp
  have mv: "move_node v nd (of_nat n) = Some (?v3, nd')"
    using v1(1) by (simp add: move_node_def brealloc_def bfree_def nd'_def Let_def add.commute)
  have v2: "vol_ok ?v2" using v1(2) d(1) by (simp add: vol_ok_def)
  have nok: "node_ok ?v2 nd'"
    using ok assms(2,3) v1(3) below n by (simp add: node_ok_def nd'_def)
  have nd': "index nd' = balloc_ptr v" "alloc nd' = of_nat n" "isize nd' = isize nd" by (simp_all add: nd'_def)
  have "run_cells (vdisk v1) (index nd + 1) ?a = run_cells (vdisk v) (index nd + 1) ?a"
    using node_addressed(2,3) [OF ok(1,2)] by (intro run_cells_unchanged [OF v1(4)]) auto
  then have "holds (run_cells ?d (balloc_ptr v + 1) ?a) xs" using d(2) assms(1) by (simp add: file_is_def)
  moreover have "run_cells ?d (balloc_ptr v + 1) n = run_cells ?d (balloc_ptr v + 1) ?a @
      run_cells ?d (balloc_ptr v + 1 + of_nat ?a) (n - ?a)"
    using assms(2) run_cells_add [of ?d "balloc_ptr v + 1" ?a "n - ?a"] by simp
  ultimately have "holds (run_cells ?d (balloc_ptr v + 1) n) xs" by (auto simp: holds_iff)
  then have h: "holds (run_cells (vdisk ?v3) (index nd' + 1) (unat (alloc nd'))) xs"
    using inode_update_data(1) [OF v2 nok refl] by (simp add: nd' n)
  then have "file_is ?v3 nd' xs"
    using vol_ok_update [OF v2, of nd'] nok ok(3) by (simp add: file_is_def nd')
  moreover have "changed (insert 0 {?bp ..< ?bp + n + 1}) (vdisk v) (vdisk ?v3)"
  proof -
    have "changed (insert 0 {?bp ..< ?bp + n + 1}) (vdisk v) ?d"
      using assms(2) by (intro changed_trans [OF v1(4) d(3)]) auto
    moreover have "changed (node_sectors nd') ?d (vdisk ?v3)"
      using inode_update_data(2) [OF v2 nok refl] by simp
    moreover have "node_sectors nd' = {?bp ..< ?bp + n + 1}" using n by (simp add: node_sectors_def nd')
    ultimately show ?thesis by (auto intro: changed_trans)
  qed
  ultimately show ?thesis using mv v1(3,5) by simp
qed

end
