(* ===== verification/Inodedir.thy ===== *)
theory Inodedir
  imports Inodewrite
begin

text \<open>
  Directories on the disk: a node whose bytes are a table of names. What moving a node, writing a file
  and changing a directory do to the directory above, and to all other nodes.
\<close>

definition dir_is :: "volume \<Rightarrow> inode \<Rightarrow> (cstr \<times> u32) list \<Rightarrow> bool" where
  "dir_is v nd es \<longleftrightarrow> file_is v nd (table_bytes es) \<and> names_ok es"

text \<open>What a node keeps when only other sectors change.\<close>

lemma file_is_frame:
  assumes "file_is v nd xs" and "vol_ok v'" and "unat (balloc_ptr v) \<le> unat (balloc_ptr v')"
    and "changed S (vdisk v) (vdisk v')" and "S \<inter> node_sectors nd = {}"
  shows "file_is v' nd xs"
proof -
  have ok: "vol_ok v" "node_ok v nd" using assms(1) by (simp_all add: file_is_def)
  have "run_cells (vdisk v') (index nd + 1) (unat (alloc nd)) = run_cells (vdisk v) (index nd + 1) (unat (alloc nd))"
    using node_addressed(2,3) [OF ok] assms(5)
    by (intro run_cells_unchanged [OF assms(4)]) (auto simp: node_sectors_def)
  then show ?thesis using assms(1-3) by (simp add: file_is_def node_ok_def)
qed

lemma dir_is_frame:
  "dir_is v nd es \<Longrightarrow> vol_ok v' \<Longrightarrow> unat (balloc_ptr v) \<le> unat (balloc_ptr v') \<Longrightarrow>
   changed S (vdisk v) (vdisk v') \<Longrightarrow> S \<inter> node_sectors nd = {} \<Longrightarrow> dir_is v' nd es"
  by (auto simp: dir_is_def intro: file_is_frame)

lemma stored_frame:
  assumes "stored v nd" and "vol_ok v" and "node_ok v nd" and "changed S (vdisk v) (vdisk v')" and "S \<inter> node_sectors nd = {}"
  shows "stored v' nd"
proof -
  have "unat (index nd) \<notin> S" using assms(5) by (auto simp: node_sectors_def)
  then show ?thesis using assms(1,4) node_addressed(1) [OF assms(2,3)] by (simp add: stored_def changed_def)
qed

lemma file_is_fields [simp]:
  "file_is v (nd\<lparr>child_count := c\<rparr>) xs = file_is v nd xs"
  "file_is v (nd\<lparr>isvalid := c\<rparr>) xs = file_is v nd xs"
  "file_is v (nd\<lparr>itype := c\<rparr>) xs = file_is v nd xs"
  by (simp_all add: file_is_def node_ok_def)

lemma file_is_update:
  assumes "file_is v nd xs"
  shows "file_is (inode_update v nd) nd xs" and "changed (node_sectors nd) (vdisk v) (vdisk (inode_update v nd))"
  using assms inode_update_data [of v nd nd] vol_ok_update [of v nd] by (auto simp: file_is_def)

lemma node_sectors_low:
  assumes "node_ok v nd" and "s \<in> node_sectors nd"
  shows "2 \<le> s" and "s < unat (balloc_ptr v)"
  using assms by (auto simp: node_ok_def node_sectors_def)

subsection \<open>Moving the root, and changing an entry in place\<close>

lemma inode_realloc_null_file:
  assumes "file_is v nd xs" and "unat (alloc nd) \<le> n" and "n < 4194304"
    and "unat (balloc_ptr v) + n + 1 \<le> 268435456"
  defines "nd' \<equiv> nd\<lparr>index := balloc_ptr v, alloc := of_nat n\<rparr>"
  shows "\<exists>v'. inode_realloc_null (v, nd, p) (of_nat n) = Some (v', nd', p) \<and> file_is v' nd' xs \<and> stored v' nd' \<and>
    unat (balloc_ptr v') = unat (balloc_ptr v) + n + 1 \<and>
    rd_sector (vdisk v') ROOT_INDEX_SECTOR = List.map Some (u32_bytes (index nd')) @ fresh 508 \<and>
    changed ({0, 1} \<union> {unat (balloc_ptr v) ..< unat (balloc_ptr v) + n + 1}) (vdisk v) (vdisk v')"
proof -
  obtain v1 where v1: "move_node v nd (of_nat n) = Some (v1, nd')" "file_is v1 nd' xs" "stored v1 nd'"
    "unat (balloc_ptr v1) = unat (balloc_ptr v) + n + 1"
    "changed (insert 0 {unat (balloc_ptr v) ..< unat (balloc_ptr v) + n + 1}) (vdisk v) (vdisk v1)"
    using move_node_file [OF assms(1-4)] unfolding nd'_def by blast
  have ok: "vol_ok v1" "node_ok v1 nd'" using v1(2) by (simp_all add: file_is_def)
  let ?b = "List.map Some (u32_bytes (index nd')) @ fresh 508 :: u8 cells"
  let ?v = "v1\<lparr>vdisk := wr_sector (vdisk v1) ROOT_INDEX_SECTOR ?b\<rparr>"
  have run: "inode_realloc_null (v, nd, p) (of_nat n) = Some (?v, nd', p)"
    using v1(1) by (simp add: inode_realloc_null_def wr_u32_start)
  have c: "changed {1} (vdisk v1) (vdisk ?v)"
    using changed_wr [of ROOT_INDEX_SECTOR] by (simp add: ROOT_INDEX_SECTOR_def addressed_def)
  have dis: "{1} \<inter> node_sectors nd' = {}" using node_sectors_low(1) [OF ok(2)] by fastforce
  have vok: "vol_ok ?v" by (rule vol_ok_sector [OF ok(1)]) simp
  have "file_is ?v nd' xs" by (rule file_is_frame [OF v1(2) vok _ c dis]) simp
  moreover have "stored ?v nd'" by (rule stored_frame [OF v1(3) ok c dis])
  moreover have "changed ({0, 1} \<union> {unat (balloc_ptr v) ..< unat (balloc_ptr v) + n + 1}) (vdisk v) (vdisk ?v)"
    by (rule changed_trans [OF v1(5) c]) auto
  ultimately show ?thesis using run v1(4) by (intro exI [of _ ?v]) simp
qed

text \<open>The table a directory is read into.\<close>

lemma load_table:
  assumes "dir_is v nd es"
  obtains cs k b where "inode_read v nd 0 (isize nd) = Some (cs, k)"
    "copy_cells (fresh (unat (max (alloc nd) 1 * SECTOR_SIZE))) cs 0 (length cs) = Some b"
    "table_is \<lparr>ct_ptr = b, ct_size = isize nd, ct_sectors = alloc nd\<rparr> es"
proof -
  let ?xs = "table_bytes es"
  have f: "file_is v nd ?xs" and n: "names_ok es" using assms by (simp_all add: dir_is_def)
  have ok: "node_ok v nd" "unat (isize nd) = length ?xs" using f by (simp_all add: file_is_def)
  have al: "unat (alloc nd) < 4194304" "length ?xs \<le> 512 * unat (alloc nd)" using ok by (simp_all add: node_ok_def)
  have sz: "unat (isize nd) \<le> 2147483648" using al ok(2) by linarith
  have rd: "inode_read v nd 0 (isize nd) = Some (List.map Some ?xs, of_nat (length ?xs))"
    using inode_read_file [OF f, of 0 "isize nd"] sz ok(2) by simp
  have m: "unat (max (alloc nd) 1) = max 1 (unat (alloc nd))"
    using unat_gt_0 [of "alloc nd"] by (simp add: max_def word_le_nat_alt)
  have l: "unat (max (alloc nd) 1 * SECTOR_SIZE) = 512 * max 1 (unat (alloc nd))"
    using sector_bytes [of "max (alloc nd) 1"] al(1) by (simp add: m)
  let ?f = "fresh (unat (max (alloc nd) 1 * SECTOR_SIZE)) :: u8 cells"
  have "length ([] :: u8 list) + length ?xs \<le> length ?f" using al(2) unfolding length_fresh l by simp
  moreover have "holds (List.map Some ?xs) ?xs" by (simp add: holds_def)
  ultimately obtain b where b: "copy_cells ?f (List.map Some ?xs) 0 (length ?xs) = Some b" "holds b ?xs" "length b = length ?f"
    using copy_cells_holds [OF _ holds_Nil, of "List.map Some ?xs" ?xs ?f] by auto
  have "table_is \<lparr>ct_ptr = b, ct_size = isize nd, ct_sectors = alloc nd\<rparr> es"
    using n b(2,3) ok(2) al unfolding length_fresh l by (simp add: table_is_def)
  then show ?thesis using that rd b(1) by simp
qed

definition reloc_entry :: "cstr \<Rightarrow> u32 \<Rightarrow> (cstr \<times> u32) list \<Rightarrow> (cstr \<times> u32) list" where
  "reloc_entry name j es = List.map (\<lambda>e. if fst e = name then (name, j) else e) es"

lemma reloc_entry_simps [simp]:
  "reloc_entry name j [] = []"
  "reloc_entry name j (e # es) = (if fst e = name then (name, j) else e) # reloc_entry name j es"
  "reloc_entry name j (ps @ qs) = reloc_entry name j ps @ reloc_entry name j qs"
  by (simp_all add: reloc_entry_def)

lemma map_of_reloc: "map_of (reloc_entry name j es) k = (if k = name \<and> name \<in> fst ` set es then Some j else map_of es k)"
  by (induction es) (auto, metis fst_conv image_eqI)

lemma length_entry_bytes': "length (entry_bytes e) = length (fst e) + 5"
  by (cases e) simp

lemma length_reloc: "length (table_bytes (reloc_entry name j es)) = length (table_bytes es)"
  by (induction es) (auto simp: length_entry_bytes')

lemma fst_reloc: "List.map fst (reloc_entry name j es) = List.map fst es"
  by (induction es) auto

lemma reloc_absent: "name \<notin> fst ` set es \<Longrightarrow> reloc_entry name j es = es"
  by (induction es) auto

lemma reloc_entry_split:
  assumes "names_ok (ps @ (name, i) # qs)"
  shows "reloc_entry name j (ps @ (name, i) # qs) = ps @ (name, j) # qs"
proof -
  have "name \<notin> fst ` set ps" "name \<notin> fst ` set qs" using assms by (auto simp: names_ok_def)
  then show ?thesis by (simp add: reloc_absent)
qed

lemma names_ok_reloc: "names_ok es \<Longrightarrow> names_ok (reloc_entry name j es)"
  unfolding names_ok_def set_map [symmetric] fst_reloc .

lemma childtable_reloc:
  assumes "table_is t es"
  shows "\<exists>t'. childtable_edit_index t name j = Some t' \<and> table_is t' (reloc_entry name j es)"
proof (cases "map_of es name")
  case None
  then have "childtable_edit_index t name j = Some t"
    using childtable_find_entries(1) [OF assms] by (simp add: childtable_edit_index_def)
  then show ?thesis using assms None by (simp add: reloc_absent map_of_eq_None_iff)
next
  case (Some i)
  then obtain t' ps qs where t': "childtable_edit_index t name j = Some t'" "es = ps @ (name, i) # qs"
    "table_is t' (ps @ (name, j) # qs)" using childtable_edit_index_entry [OF assms, of name i j] by blast
  have "names_ok (ps @ (name, i) # qs)" using assms unfolding t'(2) by (simp only: table_is_def)
  then show ?thesis using t'(1,3) unfolding t'(2) reloc_entry_split [OF \<open>names_ok _\<close>] by blast
qed

text \<open>The write at the end of \<open>inode_child_set\<close> when the table fits: the bytes of the table replace those of
  the directory, and what the directory had beyond them stays.\<close>

lemma write_table_room:
  assumes "file_is v nd xs" and "table_is t es" and "length (table_bytes es) \<le> 512 * unat (alloc nd)"
  shows "\<exists>d nd'. inode_write_with ra (v, nd, p) 0 (ct_ptr t) (ct_size t) = Some (v\<lparr>vdisk := d\<rparr>, nd', p) \<and>
    file_is (v\<lparr>vdisk := d\<rparr>) nd' (splice xs 0 (table_bytes es)) \<and> nd' = nd\<lparr>isize := isize nd'\<rparr> \<and>
    changed (node_sectors nd) (vdisk v) d \<and> (stored v nd \<longrightarrow> stored (v\<lparr>vdisk := d\<rparr>) nd')"
  using inode_write_room [OF assms(1), of "ct_ptr t" "table_bytes es" "ct_size t" 0 ra p] assms(2,3)
  by (simp add: table_is_def)

lemma splice_same_length: "length ys = length xs \<Longrightarrow> splice xs 0 ys = ys"
  by (simp add: splice_def)

lemma inode_child_set_reloc:
  assumes "dir_is v nd es" and "chop op = CHOP_RELOC"
  shows "\<exists>v'. inode_child_set_with ra (v, nd, p) op = Some (v', nd, p) \<and>
    dir_is v' nd (reloc_entry (name1 op) (chindex op) es) \<and> stored v' nd \<and> balloc_ptr v' = balloc_ptr v \<and>
    changed (node_sectors nd) (vdisk v) (vdisk v')"
proof -
  obtain cs k b where ld: "inode_read v nd 0 (isize nd) = Some (cs, k)"
    "copy_cells (fresh (unat (max (alloc nd) 1 * SECTOR_SIZE))) cs 0 (length cs) = Some b"
    "table_is \<lparr>ct_ptr = b, ct_size = isize nd, ct_sectors = alloc nd\<rparr> es" using load_table [OF assms(1)] .
  let ?es = "reloc_entry (name1 op) (chindex op) es"
  have f: "file_is v nd (table_bytes es)" "names_ok es" using assms(1) by (simp_all add: dir_is_def)
  obtain t where t: "childtable_edit_index \<lparr>ct_ptr = b, ct_size = isize nd, ct_sectors = alloc nd\<rparr> (name1 op) (chindex op) = Some t"
    "table_is t ?es" using childtable_reloc [OF ld(3)] by blast
  have fit: "length (table_bytes ?es) \<le> 512 * unat (alloc nd)"
    using f(1) by (simp add: length_reloc file_is_def node_ok_def)
  obtain d nd' where w: "inode_write_with ra (v, nd, p) 0 (ct_ptr t) (ct_size t) = Some (v\<lparr>vdisk := d\<rparr>, nd', p)"
    "file_is (v\<lparr>vdisk := d\<rparr>) nd' (splice (table_bytes es) 0 (table_bytes ?es))" "nd' = nd\<lparr>isize := isize nd'\<rparr>"
    "changed (node_sectors nd) (vdisk v) d" using write_table_room [OF f(1) t(2) fit, of ra p] by blast
  have w2: "file_is (v\<lparr>vdisk := d\<rparr>) nd' (table_bytes ?es)" using w(2) by (simp add: splice_same_length length_reloc)
  have "isize nd' = isize nd" using w2 f(1) by (simp add: file_is_def length_reloc word_eq_by_unat)
  then have nd': "nd' = nd" using w(3) by simp
  let ?v = "inode_update (v\<lparr>vdisk := d\<rparr>) nd"
  have "inode_child_set_with ra (v, nd, p) op = Some (?v, nd, p)"
    using w(1) t(1) unfolding nd' inode_child_set_with_def prod.case ld(1) bind.bind_lunit ld(2) Let_def assms(2)
    by (simp add: CHOP_ADD_def CHOP_REM_def CHOP_RELOC_def CHOP_RENAME_def)
  moreover have "dir_is ?v nd ?es" "changed (node_sectors nd) d (vdisk ?v)"
    using file_is_update [OF w2 [unfolded nd']] names_ok_reloc [OF f(2)] by (simp_all add: dir_is_def)
  moreover from this(2) have "changed (node_sectors nd) (vdisk v) (vdisk ?v)"
    using w(4) by (auto intro: changed_trans)
  ultimately show ?thesis by (intro exI [of _ ?v]) simp
qed

subsection \<open>Moving and writing a file below a directory\<close>

lemma inode_realloc_parent:
  assumes "file_is v nd xs" and "unat (alloc nd) \<le> n" and "n < 4194304"
    and "unat (balloc_ptr v) + n + 1 \<le> 268435456"
    and "dir_is v p es" and "pathbuf_name (ipath nd) = Some (Some name)"
  defines "nd' \<equiv> nd\<lparr>index := balloc_ptr v, alloc := of_nat n\<rparr>"
  shows "\<exists>v'. inode_realloc (v, nd, Some p) (of_nat n) = Some (v', nd', Some p) \<and> file_is v' nd' xs \<and> stored v' nd' \<and>
    unat (balloc_ptr v') = unat (balloc_ptr v) + n + 1 \<and> dir_is v' p (reloc_entry name (balloc_ptr v) es) \<and> stored v' p \<and>
    changed (insert 0 {unat (balloc_ptr v) ..< unat (balloc_ptr v) + n + 1} \<union> node_sectors p) (vdisk v) (vdisk v')"
proof -
  let ?new = "{unat (balloc_ptr v) ..< unat (balloc_ptr v) + n + 1}"
  obtain v1 where v1: "move_node v nd (of_nat n) = Some (v1, nd')" "file_is v1 nd' xs" "stored v1 nd'"
    "unat (balloc_ptr v1) = unat (balloc_ptr v) + n + 1" "changed (insert 0 ?new) (vdisk v) (vdisk v1)"
    using move_node_file [OF assms(1-4)] unfolding nd'_def by blast
  have ok1: "vol_ok v1" "node_ok v1 nd'" using v1(2) by (simp_all add: file_is_def)
  have okp: "node_ok v p" using assms(5) by (simp add: dir_is_def file_is_def)
  have pn: "pathbuf_name (ipath nd') = Some (Some name)" using assms(6) by (simp add: nd'_def)
  have "insert 0 ?new \<inter> node_sectors p = {}" using node_sectors_low [OF okp] by fastforce
  then have dp: "dir_is v1 p es" using v1(4) by (intro dir_is_frame [OF assms(5) ok1(1) _ v1(5)]) simp_all
  let ?op = "\<lparr>name1 = name, name2 = [], chindex = balloc_ptr v, chop = CHOP_RELOC\<rparr>"
  obtain v2 where v2: "inode_child_set_with inode_realloc_null (v1, p, None) ?op = Some (v2, p, None)"
    "dir_is v2 p (reloc_entry name (balloc_ptr v) es)" "stored v2 p" "balloc_ptr v2 = balloc_ptr v1"
    "changed (node_sectors p) (vdisk v1) (vdisk v2)"
    using inode_child_set_reloc [OF dp, of ?op inode_realloc_null None] by auto
  have n: "unat (of_nat n :: u32) = n" using assms(3) by (intro unat_of_nat32) simp
  have ns: "node_sectors nd' = ?new" by (simp add: node_sectors_def nd'_def n)
  have dis: "node_sectors p \<inter> node_sectors nd' = {}" unfolding ns using node_sectors_low [OF okp] by fastforce
  have vok2: "vol_ok v2" using v2(2) by (simp add: dir_is_def file_is_def)
  have "file_is v2 nd' xs" using v2(4) by (intro file_is_frame [OF v1(2) vok2 _ v2(5) dis]) simp
  moreover have "stored v2 nd'" by (rule stored_frame [OF v1(3) ok1 v2(5) dis])
  moreover have "inode_realloc (v, nd, Some p) (of_nat n) = Some (v2, nd', Some p)"
    using v1(1) v2(1) pn by (simp add: inode_realloc_def nd'_def)
  moreover have "changed (insert 0 ?new \<union> node_sectors p) (vdisk v) (vdisk v2)"
    by (rule changed_trans [OF v1(5) v2(5)]) auto
  ultimately show ?thesis using v1(4) v2(2-4) by (intro exI [of _ v2]) simp
qed

text \<open>Everything a write may touch: the allocation pointer, the root's place, the node, its directory and the
  sectors that were free.\<close>

definition write_sectors :: "volume \<Rightarrow> inode \<Rightarrow> inode option \<Rightarrow> nat set" where
  "write_sectors v nd p = {0, 1} \<union> node_sectors nd \<union> (case p of None \<Rightarrow> {} | Some p \<Rightarrow> node_sectors p) \<union> {unat (balloc_ptr v) ..}"

lemma sectors_to_small: "0 < n \<Longrightarrow> n \<le> 2147483136 \<Longrightarrow> sectors_to n < 4194304"
  using sectors_to_bounds(2) [of n] by simp

definition same_node :: "inode \<Rightarrow> inode \<Rightarrow> bool" where
  "same_node nd nd' \<longleftrightarrow> nd' = nd\<lparr>index := index nd', alloc := alloc nd', isize := isize nd'\<rparr>"

lemma same_nodeI:
  "nd' = nd\<lparr>isize := isize nd'\<rparr> \<Longrightarrow> same_node nd nd'"
  "nd' = nd\<lparr>index := i, alloc := a, isize := isize nd'\<rparr> \<Longrightarrow> same_node nd nd'"
  by (cases nd; cases nd'; simp add: same_node_def)+

lemma same_node_fields:
  assumes "same_node nd nd'"
  shows "isvalid nd' = isvalid nd" "child_count nd' = child_count nd" "itype nd' = itype nd" "refs nd' = refs nd"
    "ipath nd' = ipath nd" "ilock nd' = ilock nd" "iparent nd' = iparent nd"
  using assms by (cases nd; cases nd'; simp add: same_node_def)+

lemma inode_write_parent:
  assumes "file_is v nd xs" and "dir_is v p es" and "pathbuf_name (ipath nd) = Some (Some name)"
    and "node_sectors nd \<inter> node_sectors p = {}"
    and "holds buf bs" and "length bs = unat count" and "unat frm \<le> length xs"
    and "unat frm + unat count \<le> 2147483136"
    and "unat (balloc_ptr v) + sectors_to (unat frm + unat count) + 1 \<le> 268435456"
  shows "\<exists>v' nd'. inode_write (v, nd, Some p) frm buf count = Some (v', nd', Some p) \<and>
    file_is v' nd' (splice xs (unat frm) bs) \<and> same_node nd nd' \<and> (stored v nd \<longrightarrow> stored v' nd') \<and>
    dir_is v' p (if index nd' = index nd then es else reloc_entry name (index nd') es) \<and> (stored v p \<longrightarrow> stored v' p) \<and>
    changed (write_sectors v nd (Some p)) (vdisk v) (vdisk v') \<and> unat (balloc_ptr v) \<le> unat (balloc_ptr v') \<and>
    unat (balloc_ptr v') \<le> unat (balloc_ptr v) + sectors_to (unat frm + unat count) + 1 \<and>
    (index nd' = index nd \<and> alloc nd' = alloc nd \<or> index nd' = balloc_ptr v)"
proof (cases "unat frm + unat count \<le> 512 * unat (alloc nd)")
  case True
  obtain d nd' where w: "inode_write (v, nd, Some p) frm buf count = Some (v\<lparr>vdisk := d\<rparr>, nd', Some p)"
    "file_is (v\<lparr>vdisk := d\<rparr>) nd' (splice xs (unat frm) bs)" "nd' = nd\<lparr>isize := isize nd'\<rparr>"
    "changed (node_sectors nd) (vdisk v) d" "stored v nd \<longrightarrow> stored (v\<lparr>vdisk := d\<rparr>) nd'"
    using inode_write_room [OF assms(1,5,6,7) True, of inode_realloc "Some p"] unfolding inode_write_def by blast
  have okp: "vol_ok v" "node_ok v p" using assms(2) by (simp_all add: dir_is_def file_is_def)
  have vok: "vol_ok (v\<lparr>vdisk := d\<rparr>)" using w(2) by (simp add: file_is_def)
  have c: "changed (node_sectors nd) (vdisk v) (vdisk (v\<lparr>vdisk := d\<rparr>))" using w(4) by simp
  have "dir_is (v\<lparr>vdisk := d\<rparr>) p es" by (rule dir_is_frame [OF assms(2) vok _ c assms(4)]) simp
  moreover have "stored v p \<longrightarrow> stored (v\<lparr>vdisk := d\<rparr>) p" using stored_frame [OF _ okp c assms(4)] by blast
  moreover have "index nd' = index nd" "alloc nd' = alloc nd" using arg_cong [OF w(3), of index] arg_cong [OF w(3), of alloc] by simp_all
  moreover have "changed (write_sectors v nd (Some p)) (vdisk v) d"
    by (rule changed_mono [OF w(4)]) (auto simp: write_sectors_def)
  ultimately show ?thesis using same_nodeI(1) [OF w(3)] w(1,2,5) by (intro exI [of _ "v\<lparr>vdisk := d\<rparr>"] exI [of _ nd']) simp
next
  case False
  let ?n = "sectors_to (unat frm + unat count)"
  have pos: "0 < unat frm + unat count" using False by linarith
  have n: "?n < 4194304" "unat (alloc nd) \<le> ?n"
    using sectors_to_small [OF pos assms(8)] sectors_to_bounds(1) [OF pos] False by simp_all
  let ?nd = "nd\<lparr>index := balloc_ptr v, alloc := of_nat ?n\<rparr>"
  obtain v1 where v1: "inode_realloc (v, nd, Some p) (of_nat ?n) = Some (v1, ?nd, Some p)" "file_is v1 ?nd xs" "stored v1 ?nd"
    "unat (balloc_ptr v1) = unat (balloc_ptr v) + ?n + 1" "dir_is v1 p (reloc_entry name (balloc_ptr v) es)" "stored v1 p"
    "changed (insert 0 {unat (balloc_ptr v) ..< unat (balloc_ptr v) + ?n + 1} \<union> node_sectors p) (vdisk v) (vdisk v1)"
    using inode_realloc_parent [OF assms(1) n(2,1) assms(9) assms(2,3)] by blast
  have un: "unat (of_nat ?n :: u32) = ?n" using n(1) by (intro unat_of_nat32) simp
  obtain d nd' where w: "inode_write (v, nd, Some p) frm buf count = Some (v1\<lparr>vdisk := d\<rparr>, nd', Some p)"
    "file_is (v1\<lparr>vdisk := d\<rparr>) nd' (splice xs (unat frm) bs)" "nd' = ?nd\<lparr>isize := isize nd'\<rparr>"
    "changed (node_sectors ?nd) (vdisk v1) d" "stored v1 ?nd \<longrightarrow> stored (v1\<lparr>vdisk := d\<rparr>) nd'"
    using inode_write_grow [where ra = inode_realloc and p = "Some p", OF assms(1,5,6,7) _ assms(8) v1(1,2)] False un
    unfolding inode_write_def by auto
  have i: "index nd' = balloc_ptr v" using arg_cong [OF w(3), of index] by simp
  have "node_ok v nd" using assms(1) by (simp add: file_is_def)
  then have "index nd' \<noteq> index nd" unfolding i by (auto simp: node_ok_def)
  have okp: "node_ok v p" "vol_ok v1" "node_ok v1 p" using assms(2) v1(5) by (simp_all add: dir_is_def file_is_def)
  have ns: "node_sectors ?nd = {unat (balloc_ptr v) ..< unat (balloc_ptr v) + ?n + 1}" by (simp add: node_sectors_def un)
  have dis: "node_sectors ?nd \<inter> node_sectors p = {}" unfolding ns using node_sectors_low [OF okp(1)] by fastforce
  have vok: "vol_ok (v1\<lparr>vdisk := d\<rparr>)" using w(2) by (simp add: file_is_def)
  have c: "changed (node_sectors ?nd) (vdisk v1) (vdisk (v1\<lparr>vdisk := d\<rparr>))" using w(4) by simp
  have "dir_is (v1\<lparr>vdisk := d\<rparr>) p (reloc_entry name (balloc_ptr v) es)" by (rule dir_is_frame [OF v1(5) vok _ c dis]) simp
  moreover have "stored (v1\<lparr>vdisk := d\<rparr>) p" by (rule stored_frame [OF v1(6) okp(2,3) c dis])
  moreover have "changed (write_sectors v nd (Some p)) (vdisk v) d"
    by (rule changed_trans [OF v1(7) w(4)]) (auto simp: write_sectors_def ns)
  ultimately show ?thesis using same_nodeI(2) [OF w(3)] w(1,2,5) v1(3,4) i \<open>index nd' \<noteq> index nd\<close>
    by (intro exI [of _ "v1\<lparr>vdisk := d\<rparr>"] exI [of _ nd']) simp
qed

lemma inode_write_root:
  assumes "file_is v nd xs" and "holds buf bs" and "length bs = unat count" and "unat frm \<le> length xs"
    and "unat frm + unat count \<le> 2147483136"
    and "unat (balloc_ptr v) + sectors_to (unat frm + unat count) + 1 \<le> 268435456"
  shows "\<exists>v' nd'. inode_write (v, nd, None) frm buf count = Some (v', nd', None) \<and>
    file_is v' nd' (splice xs (unat frm) bs) \<and> same_node nd nd' \<and> (stored v nd \<longrightarrow> stored v' nd') \<and>
    changed (write_sectors v nd None) (vdisk v) (vdisk v') \<and> unat (balloc_ptr v) \<le> unat (balloc_ptr v') \<and>
    unat (balloc_ptr v') \<le> unat (balloc_ptr v) + sectors_to (unat frm + unat count) + 1 \<and>
    (index nd' = index nd \<and> alloc nd' = alloc nd \<or> index nd' = balloc_ptr v \<and>
       rd_sector (vdisk v') ROOT_INDEX_SECTOR = List.map Some (u32_bytes (index nd')) @ fresh 508)"
proof (cases "unat frm + unat count \<le> 512 * unat (alloc nd)")
  case True
  obtain d nd' where w: "inode_write (v, nd, None) frm buf count = Some (v\<lparr>vdisk := d\<rparr>, nd', None)"
    "file_is (v\<lparr>vdisk := d\<rparr>) nd' (splice xs (unat frm) bs)" "nd' = nd\<lparr>isize := isize nd'\<rparr>"
    "changed (node_sectors nd) (vdisk v) d" "stored v nd \<longrightarrow> stored (v\<lparr>vdisk := d\<rparr>) nd'"
    using inode_write_room [OF assms(1-4) True, of inode_realloc None] unfolding inode_write_def by blast
  have "index nd' = index nd" "alloc nd' = alloc nd" using arg_cong [OF w(3), of index] arg_cong [OF w(3), of alloc] by simp_all
  moreover have "changed (write_sectors v nd None) (vdisk v) d"
    by (rule changed_mono [OF w(4)]) (auto simp: write_sectors_def)
  ultimately show ?thesis using same_nodeI(1) [OF w(3)] w(1,2,5) by (intro exI [of _ "v\<lparr>vdisk := d\<rparr>"] exI [of _ nd']) simp
next
  case False
  let ?n = "sectors_to (unat frm + unat count)"
  have pos: "0 < unat frm + unat count" using False by linarith
  have n: "?n < 4194304" "unat (alloc nd) \<le> ?n"
    using sectors_to_small [OF pos assms(5)] sectors_to_bounds(1) [OF pos] False by simp_all
  let ?nd = "nd\<lparr>index := balloc_ptr v, alloc := of_nat ?n\<rparr>"
  obtain v1 where v1: "inode_realloc_null (v, nd, None) (of_nat ?n) = Some (v1, ?nd, None)" "file_is v1 ?nd xs" "stored v1 ?nd"
    "unat (balloc_ptr v1) = unat (balloc_ptr v) + ?n + 1"
    "rd_sector (vdisk v1) ROOT_INDEX_SECTOR = List.map Some (u32_bytes (index ?nd)) @ fresh 508"
    "changed ({0, 1} \<union> {unat (balloc_ptr v) ..< unat (balloc_ptr v) + ?n + 1}) (vdisk v) (vdisk v1)"
    using inode_realloc_null_file [OF assms(1) n(2,1) assms(6), of None] by blast
  have r: "inode_realloc (v, nd, None) (of_nat ?n) = Some (v1, ?nd, None)" using v1(1) by (simp add: inode_realloc_def)
  have un: "unat (of_nat ?n :: u32) = ?n" using n(1) by (intro unat_of_nat32) simp
  obtain d nd' where w: "inode_write (v, nd, None) frm buf count = Some (v1\<lparr>vdisk := d\<rparr>, nd', None)"
    "file_is (v1\<lparr>vdisk := d\<rparr>) nd' (splice xs (unat frm) bs)" "nd' = ?nd\<lparr>isize := isize nd'\<rparr>"
    "changed (node_sectors ?nd) (vdisk v1) d" "stored v1 ?nd \<longrightarrow> stored (v1\<lparr>vdisk := d\<rparr>) nd'"
    using inode_write_grow [where ra = inode_realloc and p = None, OF assms(1-4) _ assms(5) r v1(2)] False un
    unfolding inode_write_def by auto
  have i: "index nd' = balloc_ptr v" using arg_cong [OF w(3), of index] by simp
  have ns: "node_sectors ?nd = {unat (balloc_ptr v) ..< unat (balloc_ptr v) + ?n + 1}" by (simp add: node_sectors_def un)
  have ok1: "node_ok v1 ?nd" using v1(2) by (simp add: file_is_def)
  have "unat ROOT_INDEX_SECTOR \<notin> node_sectors ?nd"
    using node_sectors_low(1) [OF ok1] by (force simp: ROOT_INDEX_SECTOR_def)
  then have "rd_sector d ROOT_INDEX_SECTOR = List.map Some (u32_bytes (index nd')) @ fresh 508"
    using w(4) v1(5) unfolding i by (simp add: changed_def addressed_def ROOT_INDEX_SECTOR_def)
  moreover have "changed (write_sectors v nd None) (vdisk v) d"
    by (rule changed_trans [OF v1(6) w(4)]) (auto simp: write_sectors_def ns)
  ultimately show ?thesis using same_nodeI(2) [OF w(3)] w(1,2,5) v1(3,4) i
    by (intro exI [of _ "v1\<lparr>vdisk := d\<rparr>"] exI [of _ nd']) simp
qed

text \<open>The directory above, when there is one, holds names; the two share no sector.\<close>

definition below :: "volume \<Rightarrow> inode \<Rightarrow> inode option \<Rightarrow> bool" where
  "below v nd po \<longleftrightarrow> (\<forall>p. po = Some p \<longrightarrow> (\<exists>es name. dir_is v p es \<and> pathbuf_name (ipath nd) = Some (Some name)) \<and>
     node_sectors nd \<inter> node_sectors p = {})"

lemma inode_write_any:
  assumes "file_is v nd xs" and "below v nd po" and "holds buf bs" and "length bs = unat count" and "unat frm \<le> length xs"
    and "unat frm + unat count \<le> 2147483136"
    and "unat (balloc_ptr v) + sectors_to (unat frm + unat count) + 1 \<le> 268435456"
  shows "\<exists>v' nd'. inode_write (v, nd, po) frm buf count = Some (v', nd', po) \<and>
    file_is v' nd' (splice xs (unat frm) bs) \<and> same_node nd nd' \<and> (stored v nd \<longrightarrow> stored v' nd') \<and>
    changed (write_sectors v nd po) (vdisk v) (vdisk v') \<and> unat (balloc_ptr v) \<le> unat (balloc_ptr v') \<and>
    unat (balloc_ptr v') \<le> unat (balloc_ptr v) + sectors_to (unat frm + unat count) + 1 \<and>
    (index nd' = index nd \<and> alloc nd' = alloc nd \<or> index nd' = balloc_ptr v)"
proof (cases po)
  case None
  then show ?thesis using inode_write_root [OF assms(1,3-7)] by blast
next
  case (Some p)
  then obtain es name where "dir_is v p es" "pathbuf_name (ipath nd) = Some (Some name)" "node_sectors nd \<inter> node_sectors p = {}"
    using assms(2) by (auto simp: below_def)
  from inode_write_parent [OF assms(1) this assms(3-7)] show ?thesis unfolding Some by blast
qed

end
