(* ===== verification/Inodeops.thy ===== *)
theory Inodeops
  imports Inodedir
begin

text \<open>
  Adding, removing, looking up and listing the entries of a directory, and creating and deleting nodes.
\<close>

text \<open>The table that \<open>inode_child_set\<close> and \<open>inode_child\<close> work on, and the two operations over it.\<close>

lemma inode_child_set_add:
  assumes "dir_is v nd es" and "below v nd po" and "chop op = CHOP_ADD" and "name1 op \<notin> fst ` set es"
    and "0 \<notin> set (name1 op)" and "length (name1 op) \<le> 256" and "unat (alloc nd) < 4194303"
    and "length (table_bytes es) + length (name1 op) + 5 \<le> 2147483136"
    and "unat (balloc_ptr v) + sectors_to (length (table_bytes es) + length (name1 op) + 5) + 1 \<le> 268435456"
  shows "\<exists>v' nd'. inode_child_set (v, nd, po) op = Some (v', nd', po) \<and>
    dir_is v' nd' (es @ [(name1 op, chindex op)]) \<and> stored v' nd' \<and> same_node (nd\<lparr>child_count := child_count nd + 1\<rparr>) nd' \<and>
    changed (write_sectors v nd po) (vdisk v) (vdisk v') \<and> unat (balloc_ptr v) \<le> unat (balloc_ptr v') \<and>
    unat (balloc_ptr v') \<le> unat (balloc_ptr v) + sectors_to (length (table_bytes es) + length (name1 op) + 5) + 1 \<and>
    (index nd' = index nd \<and> alloc nd' = alloc nd \<or> index nd' = balloc_ptr v)"
proof -
  obtain cs k b where ld: "inode_read v nd 0 (isize nd) = Some (cs, k)"
    "copy_cells (fresh (unat (max (alloc nd) 1 * SECTOR_SIZE))) cs 0 (length cs) = Some b"
    "table_is \<lparr>ct_ptr = b, ct_size = isize nd, ct_sectors = alloc nd\<rparr> es" using load_table [OF assms(1)] .
  let ?es = "es @ [(name1 op, chindex op)]" and ?nd = "nd\<lparr>child_count := child_count nd + 1\<rparr>"
  obtain t where t: "childtable_add \<lparr>ct_ptr = b, ct_size = isize nd, ct_sectors = alloc nd\<rparr> (name1 op) (chindex op) = Some t"
    "table_is t ?es" using childtable_add_entry [OF ld(3) assms(4-6)] assms(7) by auto
  have th: "holds (ct_ptr t) (table_bytes ?es)" "length (table_bytes ?es) = unat (ct_size t)"
    using t(2) unfolding table_is_def by simp_all
  have len: "length (table_bytes ?es) = length (table_bytes es) + length (name1 op) + 5" by simp
  have f: "file_is v ?nd (table_bytes es)" using assms(1) by (simp add: dir_is_def)
  have bl: "below v ?nd po" using assms(2) by (simp add: below_def node_sectors_def)
  have c: "unat (0 :: u32) + unat (ct_size t) \<le> 2147483136"
    "unat (balloc_ptr v) + sectors_to (unat (0 :: u32) + unat (ct_size t)) + 1 \<le> 268435456"
    using assms(8,9) unfolding th(2) [symmetric] len by simp_all
  obtain v1 nd1 where w: "inode_write (v, ?nd, po) 0 (ct_ptr t) (ct_size t) = Some (v1, nd1, po)"
    "file_is v1 nd1 (splice (table_bytes es) (unat (0 :: u32)) (table_bytes ?es))" "same_node ?nd nd1"
    "changed (write_sectors v ?nd po) (vdisk v) (vdisk v1)" "unat (balloc_ptr v) \<le> unat (balloc_ptr v1)"
    "index nd1 = index ?nd \<and> alloc nd1 = alloc ?nd \<or> index nd1 = balloc_ptr v"
    "unat (balloc_ptr v1) \<le> unat (balloc_ptr v) + sectors_to (unat (ct_size t)) + 1"
    using inode_write_any [OF f bl th _ c] by auto
  have "splice (table_bytes es) (unat (0 :: u32)) (table_bytes ?es) = table_bytes ?es" by (simp add: splice_def)
  then have f1: "file_is v1 nd1 (table_bytes ?es)" using w(2) by simp
  let ?v = "inode_update v1 nd1"
  have n: "names_ok ?es" using t(2) unfolding table_is_def by blast
  have run: "inode_child_set (v, nd, po) op = Some (?v, nd1, po)"
    using w(1) t(1) unfolding inode_child_set_def inode_write_def inode_child_set_with_def prod.case ld(1) bind.bind_lunit ld(2)
      Let_def assms(3) by simp
  have ws: "node_sectors nd1 \<subseteq> write_sectors v nd po"
    using w(6) by (auto simp: node_sectors_def write_sectors_def)
  have "write_sectors v ?nd po = write_sectors v nd po" by (simp add: write_sectors_def node_sectors_def)
  then have "changed (write_sectors v nd po) (vdisk v) (vdisk ?v)"
    using ws by (intro changed_trans [OF w(4) file_is_update(2) [OF f1]]) simp
  then show ?thesis using run f1 n w(3,5,6) w(7) [folded th(2), unfolded len] file_is_update(1) [OF f1]
    by (intro exI [of _ ?v] exI [of _ nd1]) (simp add: dir_is_def)
qed

subsection \<open>Fetching a node and looking up a name\<close>

definition fetched :: "inode \<Rightarrow> inode \<Rightarrow> inode" where
  "fetched nd buf = buf\<lparr>isvalid := isvalid nd, alloc := alloc nd, isize := isize nd, child_count := child_count nd,
     itype := itype nd, index := index nd\<rparr>"

lemma inode_fetch_stored:
  assumes "stored v nd"
  shows "inode_fetch v (index nd) buf = Some (fetched nd buf)"
proof -
  let ?ws = "[isvalid nd, index nd, isize nd, alloc nd, child_count nd, itype nd]"
  let ?bs = "u32_bytes (isvalid nd) @ u32_bytes (index nd) @ u32_bytes (isize nd) @ u32_bytes (alloc nd) @
    u32_bytes (child_count nd) @ u32_bytes (itype nd)"
  let ?c = "inode_cells nd"
  have h: "holds ?c ?bs" unfolding holds_iff inode_cells_def by blast
  have c: "copy_cells (fresh 512) ?c 0 512 = Some ?c" by (simp add: copy_cells_def)
  have "rd_u32 ?c 0 = Some (isvalid nd)"
    using rd_u32_holds [of ?c "[]" "isvalid nd"] h by simp
  moreover have "rd_u32 ?c 4 = Some (index nd)"
    using rd_u32_holds [of ?c "u32_bytes (isvalid nd)" "index nd"] h by simp
  moreover have "rd_u32 ?c 8 = Some (isize nd)"
    using rd_u32_holds [of ?c "u32_bytes (isvalid nd) @ u32_bytes (index nd)" "isize nd"] h by simp
  moreover have "rd_u32 ?c 12 = Some (alloc nd)"
    using rd_u32_holds [of ?c "u32_bytes (isvalid nd) @ u32_bytes (index nd) @ u32_bytes (isize nd)" "alloc nd"] h by simp
  moreover have "rd_u32 ?c 16 = Some (child_count nd)"
    using rd_u32_holds [of ?c "u32_bytes (isvalid nd) @ u32_bytes (index nd) @ u32_bytes (isize nd) @ u32_bytes (alloc nd)"
        "child_count nd"] h by simp
  moreover have "rd_u32 ?c 20 = Some (itype nd)"
    using rd_u32_holds [of ?c "u32_bytes (isvalid nd) @ u32_bytes (index nd) @ u32_bytes (isize nd) @ u32_bytes (alloc nd) @
      u32_bytes (child_count nd)" "itype nd" "[]"] h by simp
  ultimately show ?thesis using assms c by (simp add: inode_fetch_def stored_def fetched_def)
qed

lemma inode_child_dir:
  assumes "dir_is v nd es"
  shows "inode_child v nd name buf = (case map_of es name of
      None \<Rightarrow> Some (buf\<lparr>isvalid := 0\<rparr>)
    | Some i \<Rightarrow> if i = 0 then Some (buf\<lparr>isvalid := 0\<rparr>) else inode_fetch v i buf)"
proof -
  obtain cs k b where ld: "inode_read v nd 0 (isize nd) = Some (cs, k)"
    "copy_cells (fresh (unat (max (alloc nd) 1 * SECTOR_SIZE))) cs 0 (length cs) = Some b"
    "table_is \<lparr>ct_ptr = b, ct_size = isize nd, ct_sectors = alloc nd\<rparr> es" using load_table [OF assms] .
  show ?thesis using ld(1,2) childtable_get_entry [OF ld(3), of name]
    by (simp add: inode_child_def max.commute split: option.splits)
qed

subsection \<open>Creating\<close>

lemma inode_create_dir:
  assumes "dir_is v p es" and "below v p g" and "name \<notin> fst ` set es" and "0 \<notin> set name" and "length name \<le> 256"
    and "unat (alloc p) < 4194303" and "length (table_bytes es) + length name + 5 \<le> 2147483136"
    and "unat (balloc_ptr v) + sectors_to (length (table_bytes es) + length name + 5) + 2 \<le> 268435456"
  shows "\<exists>v' nd' p'. inode_create dir v nd (Some p) g name = Some (v', nd', Some p', g) \<and>
    nd' = nd\<lparr>itype := (if dir \<noteq> 0 then inode_type_dir else inode_type_file), alloc := 0, isize := 0, child_count := 0,
      index := balloc_ptr v, isvalid := 1\<rparr> \<and>
    file_is v' nd' [] \<and> stored v' nd' \<and> dir_is v' p' (es @ [(name, index nd')]) \<and> stored v' p' \<and>
    same_node (p\<lparr>child_count := child_count p + 1\<rparr>) p' \<and>
    changed (write_sectors v p g) (vdisk v) (vdisk v') \<and> unat (balloc_ptr v) \<le> unat (balloc_ptr v') \<and>
    unat (balloc_ptr v') \<le> unat (balloc_ptr v) + sectors_to (length (table_bytes es) + length name + 5) + 2 \<and>
    node_sectors nd' \<inter> node_sectors p' = {}"
proof -
  have okp: "vol_ok v" "node_ok v p" using assms(1) by (simp_all add: dir_is_def file_is_def)
  let ?bp = "unat (balloc_ptr v)"
  obtain v1 where v1: "balloc v 1 = Some (v1, balloc_ptr v)" "vol_ok v1" "unat (balloc_ptr v1) = ?bp + 1"
    "changed {0} (vdisk v) (vdisk v1)"
    using balloc_ok [OF okp(1), of 1] assms(8) by auto
  let ?nd = "nd\<lparr>itype := (if dir \<noteq> 0 then inode_type_dir else inode_type_file), alloc := 0, isize := 0, child_count := 0,
      index := balloc_ptr v, isvalid := 1\<rparr>"
  let ?v2 = "inode_update v1 ?nd"
  have ad: "addressed (balloc_ptr v)" using assms(8) by (simp add: addressed_def)
  have c2: "changed {0, ?bp} (vdisk v) (vdisk ?v2)"
    using changed_trans [OF v1(4) changed_wr [OF ad, of "vdisk v1"]] by (simp add: inode_update_def)
  have vok: "vol_ok ?v2" by (rule vol_ok_update [OF v1(2)])
  have nok: "node_ok ?v2 ?nd" using okp(1) v1(3) by (simp add: node_ok_def vol_ok_def)
  have fnd: "file_is ?v2 ?nd []" using vok nok by (simp add: file_is_def)
  have dis: "{0, ?bp} \<inter> node_sectors q = {}" if "node_ok v q" for q using node_sectors_low [OF that] by fastforce
  have dp: "dir_is ?v2 p es" using v1(3) by (intro dir_is_frame [OF assms(1) vok _ c2 dis [OF okp(2)]]) simp
  have bl: "below ?v2 p g"
    unfolding below_def
  proof (intro allI impI)
    fix q
    assume "g = Some q"
    then obtain fs nm where q: "dir_is v q fs" "pathbuf_name (ipath p) = Some (Some nm)" "node_sectors p \<inter> node_sectors q = {}"
      using assms(2) by (auto simp: below_def)
    then have "node_ok v q" by (simp add: dir_is_def file_is_def)
    then have "dir_is ?v2 q fs" using v1(3) by (intro dir_is_frame [OF q(1) vok _ c2 dis]) simp_all
    then show "(\<exists>es name. dir_is ?v2 q es \<and> pathbuf_name (ipath p) = Some (Some name)) \<and> node_sectors p \<inter> node_sectors q = {}"
      using q(2,3) by blast
  qed
  let ?op = "\<lparr>name1 = name, name2 = [], chindex = index ?nd, chop = CHOP_ADD\<rparr>"
  have "unat (balloc_ptr ?v2) + sectors_to (length (table_bytes es) + length name + 5) + 1 \<le> 268435456"
    using assms(8) v1(3) by simp
  then obtain v3 p' where v3: "inode_child_set (?v2, p, g) ?op = Some (v3, p', g)" "dir_is v3 p' (es @ [(name, index ?nd)])"
    "stored v3 p'" "same_node (p\<lparr>child_count := child_count p + 1\<rparr>) p'"
    "changed (write_sectors ?v2 p g) (vdisk ?v2) (vdisk v3)" "unat (balloc_ptr ?v2) \<le> unat (balloc_ptr v3)"
    "unat (balloc_ptr v3) \<le> unat (balloc_ptr ?v2) + sectors_to (length (table_bytes es) + length name + 5) + 1"
    "index p' = index p \<and> alloc p' = alloc p \<or> index p' = balloc_ptr ?v2"
    using inode_child_set_add [OF dp bl, of ?op] assms(3-7) by auto
  have vok3: "vol_ok v3" using v3(2) by (simp add: dir_is_def file_is_def)
  have dis3: "write_sectors ?v2 p g \<inter> node_sectors ?nd = {}"
  proof -
    have "?bp \<notin> node_sectors q" if "node_ok v q" for q using node_sectors_low(2) [OF that] by blast
    moreover have "node_ok v q" if "g = Some q" for q using assms(2) that by (auto simp: below_def dir_is_def file_is_def)
    moreover have "2 \<le> ?bp" using okp(1) by (simp add: vol_ok_def)
    moreover have "node_sectors ?nd = {?bp}" by (auto simp: node_sectors_def)
    ultimately show ?thesis using okp(2) v1(3) by (auto simp: write_sectors_def split: option.splits)
  qed
  have "file_is v3 ?nd []" by (rule file_is_frame [OF fnd vok3 v3(6,5) dis3])
  moreover have "stored v3 ?nd" by (rule stored_frame [OF stored_update vok nok v3(5) dis3])
  moreover have "changed (write_sectors v p g) (vdisk v) (vdisk v3)"
    using v1(3) by (intro changed_trans [OF c2 v3(5)]) (auto simp: write_sectors_def)
  moreover have "inode_create dir v nd (Some p) g name = Some (v3, ?nd, Some p', g)"
    using assms(5) v1(1) v3(1) by (simp add: inode_create_def MAX_NODE_NAME_LENGTH_def Let_def)
  moreover have "node_sectors ?nd \<inter> node_sectors p' = {}"
    using v3(8) v1(3) okp(2) by (auto simp: node_sectors_def node_ok_def)
  ultimately show ?thesis using v3(2-4,6,7) v1(3) by (intro exI [of _ v3] exI [of _ ?nd] exI [of _ p']) simp
qed

subsection \<open>Removing and listing\<close>

text \<open>A removal writes the shorter table over the directory and leaves its size, so for the last entry
  the bytes end up as they were.\<close>

lemma inode_child_set_rem_last:
  assumes "dir_is v nd (es @ [(name, i)])" and "chop op = CHOP_REM" and "name1 op = name"
  shows "\<exists>v'. inode_child_set (v, nd, po) op = Some (v', nd\<lparr>child_count := child_count nd - 1\<rparr>, po) \<and>
    dir_is v' (nd\<lparr>child_count := child_count nd - 1\<rparr>) (es @ [(name, i)]) \<and>
    changed (node_sectors nd) (vdisk v) (vdisk v') \<and> balloc_ptr v' = balloc_ptr v"
proof -
  let ?es = "es @ [(name, i)]"
  obtain cs k b where ld: "inode_read v nd 0 (isize nd) = Some (cs, k)"
    "copy_cells (fresh (unat (max (alloc nd) 1 * SECTOR_SIZE))) cs 0 (length cs) = Some b"
    "table_is \<lparr>ct_ptr = b, ct_size = isize nd, ct_sectors = alloc nd\<rparr> ?es" using load_table [OF assms(1)] .
  have n: "names_ok ?es" using assms(1) by (simp add: dir_is_def)
  have fl: "filter (\<lambda>e. fst e \<noteq> name) ?es = es" using n filter_other_names [of es name i "[]"] by (simp add: names_ok_def)
  obtain t where t: "childtable_remove \<lparr>ct_ptr = b, ct_size = isize nd, ct_sectors = alloc nd\<rparr> name = Some t" "table_is t es"
    using childtable_remove_entry [OF ld(3), of name] unfolding fl by blast
  let ?nd = "nd\<lparr>child_count := child_count nd - 1\<rparr>"
  have f: "file_is v ?nd (table_bytes ?es)" using assms(1) by (simp add: dir_is_def)
  have fit: "length (table_bytes es) \<le> 512 * unat (alloc ?nd)"
    using f by (simp add: file_is_def node_ok_def)
  obtain d nd' where w: "inode_write_with inode_realloc (v, ?nd, po) 0 (ct_ptr t) (ct_size t) = Some (v\<lparr>vdisk := d\<rparr>, nd', po)"
    "file_is (v\<lparr>vdisk := d\<rparr>) nd' (splice (table_bytes ?es) 0 (table_bytes es))" "nd' = ?nd\<lparr>isize := isize nd'\<rparr>"
    "changed (node_sectors ?nd) (vdisk v) d" using write_table_room [OF f t(2) fit, of inode_realloc po] by blast
  have sp: "splice (table_bytes ?es) 0 (table_bytes es) = table_bytes ?es" by (simp add: splice_def)
  have f2: "file_is (v\<lparr>vdisk := d\<rparr>) nd' (table_bytes ?es)" using w(2) unfolding sp .
  have "isize nd' = isize ?nd" using f2 f by (simp only: file_is_def word_eq_by_unat)
  then have nd': "nd' = ?nd" using w(3) by simp
  let ?v = "inode_update (v\<lparr>vdisk := d\<rparr>) ?nd"
  have "CHOP_REM \<noteq> CHOP_ADD" by (simp add: CHOP_ADD_def CHOP_REM_def)
  then have "inode_child_set (v, nd, po) op = Some (?v, ?nd, po)"
    using w(1) t(1) unfolding nd' inode_child_set_def inode_child_set_with_def prod.case ld(1) bind.bind_lunit ld(2) Let_def assms(2,3)
    by simp
  moreover have "dir_is ?v ?nd ?es" using file_is_update(1) [OF f2 [unfolded nd']] n by (simp add: dir_is_def)
  moreover have "changed (node_sectors ?nd) (vdisk v) (vdisk ?v)"
    using w(4) file_is_update(2) [OF f2 [unfolded nd']] by (auto intro: changed_trans)
  moreover have "node_sectors ?nd = node_sectors nd" by (simp add: node_sectors_def)
  ultimately show ?thesis by (intro exI [of _ ?v]) simp
qed

lemma inode_readdir_at:
  assumes "dir_is v nd (ps @ (n, i) # qs)"
  shows "inode_readdir v nd (of_nat (length (table_bytes ps))) = Some (Some n, of_nat (length n) + 5)"
proof -
  let ?P = "table_bytes ps" and ?R = "table_bytes ((n, i) # qs)"
  have f: "file_is v nd (?P @ ?R)" using assms by (simp add: dir_is_def)
  have n0: "0 \<notin> set n" using assms by (simp add: dir_is_def names_ok_def)
  have sz: "unat (isize nd) = length ?P + length ?R" "length ?P + length ?R \<le> 2147483648"
    using f by (auto simp: file_is_def node_ok_def)
  have up: "unat (of_nat (length ?P) :: u32) = length ?P" using sz(2) by (intro unat_of_nat32) simp
  have c: "unat (isize nd - of_nat (length ?P)) = length ?R" using sz up by (simp add: unat_diff_nowrap)
  have R: "0 < length ?R" by simp
  have ne: "of_nat (length ?P) \<noteq> isize nd" using sz(1) up R by (metis add_eq_self_zero less_numeral_extra(3))
  have rd: "inode_read v nd (of_nat (length ?P)) (isize nd - of_nat (length ?P)) = Some (List.map Some ?R, of_nat (length ?R))"
    using inode_read_file [OF f, of "of_nat (length ?P)" "isize nd - of_nat (length ?P)"] up c sz(2) by simp
  have cp: "copy_cells (fresh (unat (isize nd - of_nat (length ?P)))) (List.map Some ?R) 0 (length (List.map Some ?R)) =
      Some (List.map Some ?R)"
    unfolding c by (simp add: copy_cells_def)
  have "List.map Some ?R = List.map Some n @ Some 0 # List.map Some (u32_bytes i @ table_bytes qs)"
    by (simp add: entry_bytes_def)
  then have "read_str (List.map Some ?R) = Some n" by (simp only: read_str_prefix [OF n0])
  then show ?thesis using ne unfolding inode_readdir_def rd bind.bind_lunit prod.case cp by simp
qed

subsection \<open>Deleting\<close>

lemma push_all_length:
  assumes "push_all vec_push v xs = Some v'" and "unat (size_v v) + length xs \<le> unat (cap v)"
  shows "length (buffer v') = length (buffer v) \<and> cap v' = cap v \<and> unat (size_v v') = unat (size_v v) + length xs"
  using assms
proof (induction xs arbitrary: v)
  case (Cons x xs)
  have ne: "size_v v \<noteq> cap v" using Cons.prems(2) by auto
  obtain v1 where v1: "vec_push v x = Some v1" "push_all vec_push v1 xs = Some v'" using Cons.prems(1) by (auto simp: bind_eq_Some_conv)
  obtain b where b: "wr (buffer v) (unat (size_v v)) x = Some b" "v1 = v\<lparr>buffer := b, size_v := size_v v + 1\<rparr>"
    using v1(1) ne by (auto simp: vec_push_def bind_eq_Some_conv)
  have "length b = length (buffer v)" using b(1) by (auto simp: wr_def split: if_splits)
  moreover have "unat (size_v v + 1) = unat (size_v v) + 1"
    using Cons.prems(2) unat32_bound [of "cap v"] by (subst unat_add_nowrap) simp_all
  ultimately show ?case using Cons.IH [OF v1(2)] Cons.prems(2) by (simp add: b(2))
qed simp

lemma those_length: "those xs = Some ys \<Longrightarrow> length ys = length xs"
  by (induction xs arbitrary: ys) (auto split: option.splits)

lemma push_all_append: "push_all f s (xs @ ys) = do { s \<leftarrow> push_all f s xs; push_all f s ys }"
  by (induction xs arbitrary: s) auto

lemma unat_times_4_le: "unat ((w :: u32) * 4) \<le> unat w * 4"
  unfolding unat_word_ariths by (rule order_trans [OF mod_less_eq_dividend]) simp

text \<open>The vector of a path made by \<open>pathbuf_child\<close> is full: there is no cell after its last field.\<close>

lemma pathbuf_child_full:
  assumes "pathbuf_child pb name x = Some pb'" and "size_v (pfields pb) \<noteq> - 1"
  shows "rd (buffer (pfields pb')) (unat (size_v (pfields pb'))) = None"
proof -
  let ?k = "size_v (pfields pb)"
  have k: "unat (?k + 1) = unat ?k + 1"
  proof -
    have "unat (- 1 :: u32) = 4294967295" by (simp add: unsigned_minus_1_eq_mask mask_eq_exp_minus_1)
    then have "unat ?k \<noteq> 4294967295" using assms(2) by (simp add: word_eq_by_unat)
    then show ?thesis using unat32_bound [of ?k] by (subst unat_add_nowrap) simp_all
  qed
  obtain xs fs fs' where p: "those (List.map (vec_get (pfields pb)) [0..<unat ?k]) = Some xs"
    "push_all vec_push (vec_new_s (?k + 1)) xs = Some fs" "vec_push fs name = Some fs'" "pfields pb' = fs'"
    using assms(1) by (auto simp: pathbuf_child_def copy_fields_def bind_eq_Some_conv)
  let ?v = "vec_new_s (?k + 1) :: cstr vec"
  have "max 1 (?k + 1) = ?k + 1" using k by (simp add: max_def word_le_nat_alt)
  then have v: "cap ?v = ?k + 1" "size_v ?v = 0" "length (buffer ?v) = unat ((?k + 1) * 4) div 4"
    by (simp_all add: vec_new_s_def vec_new_sh_def vec_alloc_def Let_def)
  have "unat ((?k + 1) * 4) div 4 \<le> unat (?k + 1)"
    using unat_times_4_le [of "?k + 1"] by linarith
  then have b: "length (buffer ?v) \<le> unat (cap ?v)" using v by simp
  have "length xs = unat ?k" using those_length [OF p(1)] by simp
  then have "push_all vec_push ?v (xs @ [name]) = Some fs'" "length (xs @ [name]) = unat ?k + 1"
    using p(2,3) by (auto simp: push_all_append)
  from push_all_length [OF this(1)] this(2) v k have "length (buffer fs') \<le> unat (size_v fs')" using b by simp
  then show ?thesis by (simp add: rd_def p(4))
qed

end
