(* ===== verification/Fs.thy ===== *)
theory Fs
  imports Inodeops
begin

text \<open>
  The upper half of \<open>src/fs.c\<close>: the list of the nodes in memory, walking a path, and opening, closing,
  reading and writing nodes. A node is an object at an address, \<open>None\<close> after it was freed; an
  allocation gives an address that was never used and a node whose fields are what was in memory,
  \<open>raw_node\<close>. The calls run to their end without another task in between: where one would sleep on
  a lock, it has no result.
\<close>

record fs =
  vol :: volume
  inodes :: "nat \<Rightarrow> inode option"
  inodelist :: "nat vec"
  next_node :: nat
  raw_node :: inode

definition FS_ERR_DELETED :: int where "FS_ERR_DELETED = -1"
definition FS_ERR_INVALID_PATH :: int where "FS_ERR_INVALID_PATH = -2"
definition FS_ERR_NONEXISTING :: int where "FS_ERR_NONEXISTING = -3"
definition FS_ERR_DIR_HAS_CHILD :: int where "FS_ERR_DIR_HAS_CHILD = -4"

definition put_node :: "fs \<Rightarrow> nat \<Rightarrow> inode \<Rightarrow> fs" where
  "put_node s a nd = s\<lparr>inodes := (inodes s)(a := Some nd)\<rparr>"

subsection \<open>The nodes in memory\<close>

definition inodelist_add :: "fs \<Rightarrow> nat \<Rightarrow> fs option" where
  "inodelist_add s a = do { l \<leftarrow> vec_push (inodelist s) a; Some (s\<lparr>inodelist := l\<rparr>) }"

text \<open>The search; the result is the address, or the null pointer as the inner \<open>None\<close>.\<close>

fun list_search :: "fs \<Rightarrow> pathbuf \<Rightarrow> nat list \<Rightarrow> nat option option" where
  "list_search s pb [] = Some None"
| "list_search s pb (i # js) = do {
     a \<leftarrow> vec_get (inodelist s) i;
     nd \<leftarrow> inodes s a;
     same \<leftarrow> pathbuf_cmp (ipath nd) pb;
     if same then Some (Some a) else list_search s pb js
   }"

definition inodelist_get :: "fs \<Rightarrow> pathbuf \<Rightarrow> nat option option" where
  "inodelist_get s pb = list_search s pb [0..<unat (size_v (inodelist s))]"

text \<open>The loop erases while it runs, so the size is looked at in every round.\<close>

fun list_erase :: "nat vec \<Rightarrow> nat \<Rightarrow> nat list \<Rightarrow> nat vec option" where
  "list_erase l a [] = Some l"
| "list_erase l a (i # js) =
     (if i < unat (size_v l) then do {
        b \<leftarrow> vec_get l i;
        l \<leftarrow> (if b = a then vec_erase l (of_nat i) 1 else Some l);
        list_erase l a js
      } else Some l)"

definition inodelist_remove :: "fs \<Rightarrow> nat \<Rightarrow> fs option" where
  "inodelist_remove s a = do {
     l \<leftarrow> list_erase (inodelist s) a [0..<unat (size_v (inodelist s))];
     Some (s\<lparr>inodelist := l\<rparr>)
   }"

definition inode_new :: "fs \<Rightarrow> pathbuf \<Rightarrow> (fs \<times> nat) option" where
  "inode_new s pb = do {
     let a = next_node s;
     let s = put_node (s\<lparr>next_node := a + 1\<rparr>) a ((raw_node s)\<lparr>refs := 1, iparent := None, ipath := pb\<rparr>);
     s \<leftarrow> inodelist_add s a;
     nd \<leftarrow> inodes s a;
     Some (put_node s a (nd\<lparr>ilock := krwlock_init\<rparr>), a)
   }"

definition fs_node_close :: "fs \<Rightarrow> nat option \<Rightarrow> fs option" where
  "fs_node_close s node =
     (case node of
        None \<Rightarrow> Some s
      | Some a \<Rightarrow> do {
          nd \<leftarrow> inodes s a;
          let nd = nd\<lparr>refs := refs nd - 1\<rparr>;
          let s = put_node s a nd;
          if refs nd = 0 then do {
            s \<leftarrow> inodelist_remove s a;
            Some (s\<lparr>inodes := (inodes s)(a := None)\<rparr>)
          } else Some s
        })"

definition fs_close :: "fs \<Rightarrow> nat option \<Rightarrow> fs option" where
  "fs_close s node = do {
     parent \<leftarrow> (case node of None \<Rightarrow> Some None | Some a \<Rightarrow> do { nd \<leftarrow> inodes s a; Some (iparent nd) });
     s \<leftarrow> fs_node_close s node;
     fs_node_close s parent
   }"

definition fs_node_root :: "fs \<Rightarrow> (fs \<times> nat) option" where
  "fs_node_root s = do {
     a \<leftarrow> vec_get (inodelist s) 0;
     nd \<leftarrow> inodes s a;
     Some (put_node s a (nd\<lparr>refs := refs nd + 1\<rparr>), a)
   }"

subsection \<open>Locks of nodes\<close>

definition fs_node_rdlock :: "fs \<Rightarrow> nat option \<Rightarrow> fs option" where
  "fs_node_rdlock s node =
     (case node of None \<Rightarrow> Some s
      | Some a \<Rightarrow> do { nd \<leftarrow> inodes s a; l \<leftarrow> take_read (ilock nd) (curtask (vol s)); Some (put_node s a (nd\<lparr>ilock := l\<rparr>)) })"

definition fs_node_wrlock :: "fs \<Rightarrow> nat option \<Rightarrow> fs option" where
  "fs_node_wrlock s node =
     (case node of None \<Rightarrow> Some s
      | Some a \<Rightarrow> do { nd \<leftarrow> inodes s a; l \<leftarrow> take_write (ilock nd) (curtask (vol s)); Some (put_node s a (nd\<lparr>ilock := l\<rparr>)) })"

definition fs_node_unlock :: "fs \<Rightarrow> nat option \<Rightarrow> fs option" where
  "fs_node_unlock s node =
     (case node of None \<Rightarrow> Some s
      | Some a \<Rightarrow> do { nd \<leftarrow> inodes s a; Some (put_node s a (nd\<lparr>ilock := release (ilock nd)\<rparr>)) })"

subsection \<open>Walking a path\<close>

definition fs_node_child :: "fs \<Rightarrow> nat option \<Rightarrow> cstr \<Rightarrow> (fs \<times> nat option) option" where
  "fs_node_child s node name =
     (case node of
        None \<Rightarrow> Some (s, None)
      | Some a \<Rightarrow> do {
          nd \<leftarrow> inodes s a;
          pb \<leftarrow> pathbuf_child (ipath nd) name 1;
          child \<leftarrow> inodelist_get s pb;
          if child \<noteq> None then Some (s, child)
          else do {
            s \<leftarrow> fs_node_rdlock s (Some a);
            child \<leftarrow> inodelist_get s pb;
            if child \<noteq> None then Some (s, child)
            else do {
              (s, c) \<leftarrow> inode_new s pb;
              s \<leftarrow> fs_node_wrlock s (Some c);
              nd \<leftarrow> inodes s a;
              cnd \<leftarrow> inodes s c;
              cnd \<leftarrow> inode_child (vol s) nd name cnd;
              let s = put_node s c cnd;
              s \<leftarrow> fs_node_unlock s (Some a);
              s \<leftarrow> fs_node_unlock s (Some c);
              Some (s, Some c)
            }
          }
        })"

text \<open>The loop of \<open>fs_node_open\<close>: where the walk ends, the nodes it went through, and the result.\<close>

partial_function (option) walk :: "fs \<Rightarrow> pathbuf \<Rightarrow> nat \<Rightarrow> nat vec \<Rightarrow> (fs \<times> nat \<times> nat vec \<times> int) option" where
  "walk s pb p loaded = do {
     nd \<leftarrow> inodes s p;
     there \<leftarrow> pathbuf_cmp (ipath nd) pb;
     if there then Some (s, p, loaded, 0)
     else do {
       s \<leftarrow> fs_node_rdlock s (Some p);
       loaded \<leftarrow> vec_push loaded p;
       let res = (if isvalid nd = 0 then -1 else if itype nd = inode_type_file then -1 else 0 :: int);
       s \<leftarrow> fs_node_unlock s (Some p);
       if res \<noteq> 0 then Some (s, p, loaded, res)
       else do {
         next_field \<leftarrow> pathbuf_field pb (unat (pathbuf_len (ipath nd)));
         (s, c) \<leftarrow> fs_node_child s (Some p) next_field;
         c \<leftarrow> c;
         walk s pb c loaded
       }
     }
   }"

definition pop_or_null :: "nat vec \<Rightarrow> (nat vec \<times> nat option) option" where
  "pop_or_null l = (if size_v l \<noteq> 0 then do { (l, a) \<leftarrow> vec_pop l; Some (l, Some a) } else Some (l, None))"

fun close_all :: "fs \<Rightarrow> nat vec \<Rightarrow> nat list \<Rightarrow> fs option" where
  "close_all s l [] = Some s"
| "close_all s l (i # js) = do { a \<leftarrow> vec_get l i; s \<leftarrow> fs_node_close s (Some a); close_all s l js }"

text \<open>The node, its parent and the parent's parent when the result is 0.\<close>

definition fs_node_open :: "fs \<Rightarrow> pathbuf \<Rightarrow> (fs \<times> int \<times> nat \<times> nat option \<times> nat option) option" where
  "fs_node_open s pb = do {
     (s, root) \<leftarrow> fs_node_root s;
     (s, p, loaded, res) \<leftarrow> walk s pb root vec_new;
     (loaded, parent, gparent) \<leftarrow> (if res = 0 then do {
         (loaded, parent) \<leftarrow> pop_or_null loaded;
         (loaded, gparent) \<leftarrow> pop_or_null loaded;
         Some (loaded, parent, gparent)
       } else Some (loaded, None, None));
     s \<leftarrow> close_all s loaded [0..<unat (size_v loaded)];
     Some (s, res, p, parent, gparent)
   }"

subsection \<open>Opening\<close>

definition put_opt :: "fs \<Rightarrow> nat option \<Rightarrow> inode option \<Rightarrow> fs" where
  "put_opt s a nd = (case (a, nd) of (Some a, Some nd) \<Rightarrow> put_node s a nd | _ \<Rightarrow> s)"

definition get_opt :: "fs \<Rightarrow> nat option \<Rightarrow> inode option option" where
  "get_opt s a = (case a of None \<Rightarrow> Some None | Some a \<Rightarrow> do { nd \<leftarrow> inodes s a; Some (Some nd) })"

text \<open>What \<open>fs_open\<close> does to the node while it holds the locks, and its result code.\<close>

definition open_create :: "fs \<Rightarrow> pathbuf \<Rightarrow> u8 \<Rightarrow> nat \<Rightarrow> nat option \<Rightarrow> nat option \<Rightarrow> (fs \<times> int) option" where
  "open_create s pb dir a parent gparent = do {
     nd \<leftarrow> inodes s a;
     p \<leftarrow> get_opt s parent;
     g \<leftarrow> get_opt s gparent;
     name \<leftarrow> pathbuf_name pb;
     name \<leftarrow> name;
     (v, nd, p, g) \<leftarrow> inode_create dir (vol s) nd p g name;
     let s = put_node (s\<lparr>vol := v\<rparr>) a nd;
     Some (put_opt (put_opt s parent p) gparent g, 0)
   }"

definition open_existing :: "fs \<Rightarrow> u8 \<Rightarrow> u8 \<Rightarrow> u8 \<Rightarrow> nat \<Rightarrow> nat option \<Rightarrow> (fs \<times> int) option" where
  "open_existing s trunc dir unlink a parent = do {
     nd \<leftarrow> inodes s a;
     let is_dir = (if itype nd = inode_type_dir then 1 else 0);
     let result = (if dir \<noteq> 2 \<and> dir \<noteq> is_dir then FS_ERR_INVALID_PATH else 0);
     (s, result) \<leftarrow> (if unlink \<noteq> 0 then
         (if is_dir \<noteq> 0 \<and> child_count nd > 0 then Some (s, FS_ERR_DIR_HAS_CHILD)
          else do {
            p \<leftarrow> get_opt s parent;
            (v, nd, p) \<leftarrow> inode_delete (vol s) nd p;
            Some (put_opt (put_node (s\<lparr>vol := v\<rparr>) a nd) parent p, result)
          })
       else Some (s, result));
     if trunc \<noteq> 0 then do {
       nd \<leftarrow> inodes s a;
       let (v, nd) = inode_truncate (vol s) nd;
       Some (put_node (s\<lparr>vol := v\<rparr>) a nd, result)
     } else Some (s, result)
   }"

definition fs_open :: "fs \<Rightarrow> pathbuf \<Rightarrow> u8 \<Rightarrow> u8 \<Rightarrow> u8 \<Rightarrow> u8 \<Rightarrow> (fs \<times> nat option \<times> int) option" where
  "fs_open s pb create trunc dir unlink = do {
     (s, rsl, a, parent, gparent) \<leftarrow> fs_node_open s pb;
     if rsl \<noteq> 0 then Some (s, None, FS_ERR_INVALID_PATH)
     else do {
       s \<leftarrow> fs_node_wrlock s gparent;
       s \<leftarrow> fs_node_wrlock s parent;
       s \<leftarrow> fs_node_wrlock s (Some a);
       nd \<leftarrow> inodes s a;
       (s, result) \<leftarrow> (if isvalid nd = 0 then
           (if create \<noteq> 0 then open_create s pb dir a parent gparent else Some (s, FS_ERR_NONEXISTING))
         else open_existing s trunc dir unlink a parent);
       nd \<leftarrow> inodes s a;
       let s = put_node s a (nd\<lparr>iparent := parent\<rparr>);
       s \<leftarrow> fs_node_unlock s gparent;
       s \<leftarrow> fs_node_unlock s parent;
       s \<leftarrow> fs_node_unlock s (Some a);
       s \<leftarrow> fs_node_close s gparent;
       Some (s, Some a, result)
     }
   }"

subsection \<open>Reading and writing\<close>

definition fs_write :: "fs \<Rightarrow> nat \<Rightarrow> u8 cells \<Rightarrow> u32 \<Rightarrow> u32 \<Rightarrow> (fs \<times> int) option" where
  "fs_write s a str from len = do {
     nd \<leftarrow> inodes s a;
     let parent = iparent nd;
     s \<leftarrow> fs_node_wrlock s parent;
     s \<leftarrow> fs_node_wrlock s (Some a);
     nd \<leftarrow> inodes s a;
     (s, ret) \<leftarrow> (if isvalid nd \<noteq> 0 then do {
         p \<leftarrow> get_opt s parent;
         (v, nd, p) \<leftarrow> inode_write (vol s, nd, p) from str len;
         Some (put_opt (put_node (s\<lparr>vol := v\<rparr>) a nd) parent p, sint len)
       } else Some (s, FS_ERR_DELETED));
     s \<leftarrow> fs_node_unlock s parent;
     s \<leftarrow> fs_node_unlock s (Some a);
     Some (s, ret)
   }"

definition fs_read :: "fs \<Rightarrow> nat \<Rightarrow> u32 \<Rightarrow> u32 \<Rightarrow> (fs \<times> u8 cells \<times> int) option" where
  "fs_read s a from len = do {
     s \<leftarrow> fs_node_rdlock s (Some a);
     nd \<leftarrow> inodes s a;
     (str, ret) \<leftarrow> (if isvalid nd \<noteq> 0 then do {
         (str, k) \<leftarrow> inode_read (vol s) nd from len;
         Some (str, sint k)
       } else Some ([], FS_ERR_DELETED));
     s \<leftarrow> fs_node_unlock s (Some a);
     Some (s, str, ret)
   }"

definition fs_readdir :: "fs \<Rightarrow> nat \<Rightarrow> u32 \<Rightarrow> (fs \<times> cstr option \<times> int) option" where
  "fs_readdir s a from = do {
     s \<leftarrow> fs_node_rdlock s (Some a);
     nd \<leftarrow> inodes s a;
     (name, ret) \<leftarrow> (if isvalid nd \<noteq> 0 then do {
         (name, k) \<leftarrow> inode_readdir (vol s) nd from;
         Some (name, sint k)
       } else Some (None, FS_ERR_DELETED));
     s \<leftarrow> fs_node_unlock s (Some a);
     Some (s, name, ret)
   }"

subsection \<open>Starting\<close>

definition fs_init :: "fs \<Rightarrow> fs option" where
  "fs_init s = do {
     v \<leftarrow> binit ((vol s)\<lparr>balloc_lock := krwlock_init\<rparr>);
     b \<leftarrow> copy_cells (fresh 512) (rd_sector (vdisk v) ROOT_INDEX_SECTOR) 0 512;
     root_index \<leftarrow> rd_u32 b 0;
     (v, root_index) \<leftarrow> (if root_index = 0 then do {
         b \<leftarrow> wr_u32 b 0 FS_START_SECTOR;
         Some (v\<lparr>vdisk := wr_sector (vdisk v) ROOT_INDEX_SECTOR b\<rparr>, FS_START_SECTOR)
       } else Some (v, root_index));
     (s, a) \<leftarrow> inode_new (s\<lparr>vol := v, inodelist := vec_new\<rparr>) pathbuf_root;
     nd \<leftarrow> inodes s a;
     nd \<leftarrow> inode_fetch (vol s) root_index nd;
     if isvalid nd = 0 then do {
       (v, i) \<leftarrow> balloc (vol s) 1;
       let nd = nd\<lparr>isvalid := 1, child_count := 0, index := i, isize := 0, alloc := 0, itype := inode_type_dir\<rparr>;
       Some (put_node (s\<lparr>vol := inode_update v nd\<rparr>) a nd)
     } else Some (put_node s a nd)
   }"

end
