(* ===== verification/Inodethms.thy ===== *)
theory Inodethms
  imports Inodeops
begin

text \<open>
  The properties of the inodes: reading what was written, directories that follow the files they list, and
  what happens to names that are removed.
\<close>

subsection \<open>A volume to evaluate on\<close>

text \<open>An empty root directory on a disk with nothing else.\<close>

definition root0 :: inode where
  "root0 = \<lparr>isvalid = 1, index = 2, isize = 0, alloc = 0, child_count = 0, itype = inode_type_dir, refs = 1,
     ipath = pathbuf_root, ilock = krwlock_init, iparent = None\<rparr>"

definition vol0 :: volume where
  "vol0 = \<lparr>vdisk = (\<lambda>_. fresh 512), balloc_ptr = 3, balloc_lock = krwlock_init, curtask = 0\<rparr>"

definition file0 :: inode where
  "file0 = root0\<lparr>ipath := \<lparr>pfields = \<lparr>buffer = [Some [97]], size_v = 1, cap = 1\<rparr>, is_absolute = 1, is_expldir = Some 0, up = 0\<rparr>\<rparr>"

lemma vol0_dir: "dir_is vol0 root0 []"
  by (simp add: dir_is_def file_is_def vol_ok_def node_ok_def vol0_def root0_def names_ok_def disk_ok_def)

lemma vol0_create_full:
  obtains v nd p where "inode_create 0 vol0 file0 (Some root0) None [97] = Some (v, nd, Some p, None)"
    "file_is v nd []" "stored v nd" "dir_is v p [([97], index nd)]" "stored v p" "pathbuf_name (ipath nd) = Some (Some [97])"
    "node_sectors nd \<inter> node_sectors p = {}" "unat (balloc_ptr v) \<le> 100"
    "ilock nd = krwlock_init" "isvalid nd = 1" "ilock p = krwlock_init"
proof -
  have b: "below vol0 root0 None" by (simp add: below_def)
  have bp: "unat (balloc_ptr vol0) = 3" by (simp add: vol0_def)
  have s: "sectors_to 6 = 1" by (simp add: sectors_to_def)
  obtain v nd p where c: "inode_create 0 vol0 file0 (Some root0) None [97] = Some (v, nd, Some p, None)"
    "nd = file0\<lparr>itype := inode_type_file, alloc := 0, isize := 0, child_count := 0, index := 3, isvalid := 1\<rparr>"
    "file_is v nd []" "stored v nd" "dir_is v p ([] @ [([97], index nd)])" "stored v p"
    "unat (balloc_ptr v) \<le> 6" "node_sectors nd \<inter> node_sectors p = {}"
    "same_node (root0\<lparr>child_count := child_count root0 + 1\<rparr>) p"
    using inode_create_dir [OF vol0_dir b, of "[97]" 0 file0] by (auto simp: s root0_def vol0_def)
  have "pathbuf_name (ipath nd) = Some (Some [97])"
    by (simp add: c(2) file0_def pathbuf_name_def vec_get_def rd_def)
  moreover have "ilock nd = krwlock_init" "isvalid nd = 1" by (simp_all add: c(2) file0_def root0_def)
  moreover have "ilock p = krwlock_init" using same_node_fields(6) [OF c(9)] by (simp add: root0_def)
  ultimately show ?thesis using c(5,7) by (intro that [OF c(1,3,4) _ c(6) _ c(8)]) simp_all
qed

lemma vol0_create:
  obtains v nd p where "inode_create 0 vol0 file0 (Some root0) None [97] = Some (v, nd, Some p, None)"
    "file_is v nd []" "stored v nd" "dir_is v p [([97], index nd)]" "stored v p" "pathbuf_name (ipath nd) = Some (Some [97])"
    "node_sectors nd \<inter> node_sectors p = {}" "unat (balloc_ptr v) \<le> 100"
  by (rule vol0_create_full) (rule that)

subsection \<open>Reading and writing\<close>

text \<open>C9. Bytes written to a file, over its bytes or at its end, are what is read back from it, also when the
  file has to move to new sectors to make room; and every other node keeps its contents.\<close>

theorem inode_write_read:
  assumes "file_is v nd xs" and "below v nd po" and "unat frm \<le> length xs" and "length bs < 2147483136"
    and "unat frm + length bs \<le> 2147483136" and "unat (balloc_ptr v) + sectors_to (unat frm + length bs) + 1 \<le> 268435456"
  shows "\<exists>v' nd'. inode_write (v, nd, po) frm (List.map Some bs) (of_nat (length bs)) = Some (v', nd', po) \<and>
    inode_read v' nd' 0 (isize nd') = Some (List.map Some (splice xs (unat frm) bs), isize nd') \<and>
    (\<forall>q ys. file_is v q ys \<longrightarrow> node_sectors q \<inter> write_sectors v nd po = {} \<longrightarrow> file_is v' q ys)"
proof -
  have u: "unat (of_nat (length bs) :: u32) = length bs" using assms(4) by (intro unat_of_nat32) simp
  have h: "holds (List.map Some bs) bs" by (simp add: holds_def)
  obtain v' nd' where w: "inode_write (v, nd, po) frm (List.map Some bs) (of_nat (length bs)) = Some (v', nd', po)"
    "file_is v' nd' (splice xs (unat frm) bs)" "changed (write_sectors v nd po) (vdisk v) (vdisk v')"
    "unat (balloc_ptr v) \<le> unat (balloc_ptr v')"
    using inode_write_any [OF assms(1,2) h, of "of_nat (length bs)" frm] assms(3,5,6) unfolding u by auto
  have i: "unat (isize nd') = length (splice xs (unat frm) bs)" "vol_ok v'" "node_ok v' nd'"
    using w(2) by (simp_all add: file_is_def)
  have "unat (isize nd') \<le> 2147483648" using i(3) by (simp add: node_ok_def)
  then have "inode_read v' nd' 0 (isize nd') = Some (List.map Some (splice xs (unat frm) bs), isize nd')"
    using inode_read_file [OF w(2), of 0 "isize nd'"] by (simp add: i(1) [symmetric])
  moreover have "\<forall>q ys. file_is v q ys \<longrightarrow> node_sectors q \<inter> write_sectors v nd po = {} \<longrightarrow> file_is v' q ys"
    using file_is_frame [OF _ i(2) w(4,3)] by (auto simp: Int_commute)
  ultimately show ?thesis using w(1) by blast
qed

theorem inode_write_read_witness:
  "\<exists>v nd p v' nd'. inode_create 0 vol0 file0 (Some root0) None [97] = Some (v, nd, Some p, None) \<and>
     inode_write (v, nd, Some p) 0 (List.map Some [104, 105]) 2 = Some (v', nd', Some p) \<and>
     inode_read v' nd' 0 (isize nd') = Some ([Some 104, Some 105], isize nd')"
proof -
  obtain v nd p where c: "inode_create 0 vol0 file0 (Some root0) None [97] = Some (v, nd, Some p, None)"
    "file_is v nd []" "stored v nd" "dir_is v p [([97], index nd)]" "stored v p" "pathbuf_name (ipath nd) = Some (Some [97])"
    "node_sectors nd \<inter> node_sectors p = {}" "unat (balloc_ptr v) \<le> 100" by (rule vol0_create)
  have "below v nd (Some p)" using c(4,6,7) by (auto simp: below_def)
  from inode_write_read [OF c(2) this, of 0 "[104, 105]"] c(1,8) show ?thesis
    by (simp add: sectors_to_def splice_def) blast
qed

text \<open>C10. A file that is written, and moves when it grows, is still the one that its directory has under its
  name, with the new size and place.\<close>

theorem inode_write_stays_found:
  assumes "file_is v nd xs" and "stored v nd" and "dir_is v p es" and "pathbuf_name (ipath nd) = Some (Some name)"
    and "map_of es name = Some (index nd)" and "node_sectors nd \<inter> node_sectors p = {}"
    and "unat frm \<le> length xs" and "unat frm + length bs \<le> 2147483136"
    and "unat (balloc_ptr v) + sectors_to (unat frm + length bs) + 1 \<le> 268435456"
  shows "\<exists>v' nd'. inode_write (v, nd, Some p) frm (List.map Some bs) (of_nat (length bs)) = Some (v', nd', Some p) \<and>
    inode_child v' p name buf = Some (fetched nd' buf) \<and> unat (isize nd') = max (length xs) (unat frm + length bs)"
proof -
  have u: "unat (of_nat (length bs) :: u32) = length bs" using assms(8) by (intro unat_of_nat32) simp
  have h: "holds (List.map Some bs) bs" by (simp add: holds_def)
  obtain v' nd' where w: "inode_write (v, nd, Some p) frm (List.map Some bs) (of_nat (length bs)) = Some (v', nd', Some p)"
    "file_is v' nd' (splice xs (unat frm) bs)" "stored v' nd'"
    "dir_is v' p (if index nd' = index nd then es else reloc_entry name (index nd') es)"
    using inode_write_parent [OF assms(1,3,4,6) h, of "of_nat (length bs)" frm] assms(2,7-9) unfolding u by auto
  have "node_ok v' nd'" using w(2) by (simp add: file_is_def)
  then have nz: "index nd' \<noteq> 0" by (auto simp: node_ok_def)
  have "name \<in> fst ` set es" using assms(5) by (metis map_of_eq_None_iff option.distinct(1))
  then have "map_of (if index nd' = index nd then es else reloc_entry name (index nd') es) name = Some (index nd')"
    using assms(5) by (simp add: map_of_reloc)
  then have "inode_child v' p name buf = inode_fetch v' (index nd') buf" using inode_child_dir [OF w(4)] nz by simp
  moreover have "unat (isize nd') = max (length xs) (unat frm + length bs)"
    using w(2) assms(7) by (simp add: file_is_def length_splice)
  ultimately show ?thesis using w(1) inode_fetch_stored [OF w(3)] by (intro exI [of _ v'] exI [of _ nd']) simp
qed

theorem inode_write_stays_found_witness:
  "\<exists>v nd p v' nd'. inode_create 0 vol0 file0 (Some root0) None [97] = Some (v, nd, Some p, None) \<and>
     inode_write (v, nd, Some p) 0 (List.map Some [104, 105]) 2 = Some (v', nd', Some p) \<and>
     inode_child v' p [97] file0 = Some (fetched nd' file0)"
proof -
  obtain v nd p where c: "inode_create 0 vol0 file0 (Some root0) None [97] = Some (v, nd, Some p, None)"
    "file_is v nd []" "stored v nd" "dir_is v p [([97], index nd)]" "stored v p" "pathbuf_name (ipath nd) = Some (Some [97])"
    "node_sectors nd \<inter> node_sectors p = {}" "unat (balloc_ptr v) \<le> 100" by (rule vol0_create)
  from inode_write_stays_found [OF c(2-4,6) _ c(7), of 0 "[104, 105]" file0] c(1,8) show ?thesis
    by (simp add: sectors_to_def) blast
qed

subsection \<open>Directories\<close>

text \<open>C11. A node that is created is found in its directory under its name, as an empty node of the kind asked
  for. Every other child of the directory, on sectors that are neither the directory's nor its parent's, is still
  found under its name as the node it was before, with the bytes it had.\<close>

theorem inode_create_found:
  assumes "dir_is v p es" and "below v p g" and "name \<notin> fst ` set es" and "0 \<notin> set name" and "length name \<le> 256"
    and "unat (alloc p) < 4194303" and "length (table_bytes es) + length name + 5 \<le> 2147483136"
    and "unat (balloc_ptr v) + sectors_to (length (table_bytes es) + length name + 5) + 2 \<le> 268435456"
  shows "\<exists>v' nd' p'. inode_create dir v nd (Some p) g name = Some (v', nd', Some p', g) \<and>
    inode_child v' p' name buf = Some (fetched nd' buf) \<and> isvalid nd' = 1 \<and> isize nd' = 0 \<and>
    itype nd' = (if dir \<noteq> 0 then inode_type_dir else inode_type_file) \<and> child_count p' = child_count p + 1 \<and>
    (\<forall>k c xs. (k, index c) \<in> set es \<longrightarrow> stored v c \<longrightarrow> file_is v c xs \<longrightarrow> node_sectors c \<inter> node_sectors p = {} \<longrightarrow>
      (\<forall>q. g = Some q \<longrightarrow> node_sectors c \<inter> node_sectors q = {}) \<longrightarrow>
      inode_child v' p' k buf = Some (fetched c buf) \<and> file_is v' c xs)"
proof -
  obtain v' nd' p' where c: "inode_create dir v nd (Some p) g name = Some (v', nd', Some p', g)"
    "nd' = nd\<lparr>itype := (if dir \<noteq> 0 then inode_type_dir else inode_type_file), alloc := 0, isize := 0, child_count := 0,
      index := balloc_ptr v, isvalid := 1\<rparr>" "stored v' nd'" "dir_is v' p' (es @ [(name, index nd')])"
    "same_node (p\<lparr>child_count := child_count p + 1\<rparr>) p'" "file_is v' nd' []"
    "changed (write_sectors v p g) (vdisk v) (vdisk v')" "unat (balloc_ptr v) \<le> unat (balloc_ptr v')"
    using inode_create_dir [OF assms, of dir nd] by blast
  have d: "distinct (List.map fst es)" using assms(1) by (simp add: dir_is_def names_ok_def)
  have nz: "index nd' \<noteq> 0" using c(6) by (auto simp: file_is_def node_ok_def)
  have "map_of es name = None" using assms(3) by (simp add: map_of_eq_None_iff)
  then have "map_of (es @ [(name, index nd')]) name = Some (index nd')" by (simp add: map_add_def)
  then have "inode_child v' p' name buf = Some (fetched nd' buf)"
    using inode_child_dir [OF c(4)] nz inode_fetch_stored [OF c(3)] by simp
  moreover have "inode_child v' p' k buf = Some (fetched b buf) \<and> file_is v' b xs"
    if b: "(k, index b) \<in> set es" "stored v b" "file_is v b xs" "node_sectors b \<inter> node_sectors p = {}"
      "\<forall>q. g = Some q \<longrightarrow> node_sectors b \<inter> node_sectors q = {}" for k b xs
  proof -
    have ok: "vol_ok v" "node_ok v b" "vol_ok v'" using b(3) c(4) by (simp_all add: dir_is_def file_is_def)
    have dis: "write_sectors v p g \<inter> node_sectors b = {}"
      using node_sectors_low [OF ok(2)] b(4,5) by (fastforce simp: write_sectors_def split: option.splits)
    have f: "file_is v' b xs" by (rule file_is_frame [OF b(3) ok(3) c(8,7) dis])
    have "stored v' b" by (rule stored_frame [OF b(2) ok(1,2) c(7) dis])
    moreover have "k \<noteq> name" using b(1) assms(3) by force
    moreover have "map_of es k = Some (index b)" using map_of_is_SomeI [OF d b(1)] .
    ultimately have "map_of (es @ [(name, index nd')]) k = Some (index b)" "inode_fetch v' (index b) buf = Some (fetched b buf)"
      by (simp_all add: map_add_def inode_fetch_stored)
    moreover have "index b \<noteq> 0" using ok(2) by (auto simp: node_ok_def)
    ultimately show ?thesis using inode_child_dir [OF c(4)] f by simp
  qed
  moreover have "child_count p' = child_count p + 1" using same_node_fields(2) [OF c(5)] by simp
  moreover have "isvalid nd' = 1" "isize nd' = 0" "itype nd' = (if dir \<noteq> 0 then inode_type_dir else inode_type_file)"
    by (simp_all add: c(2))
  ultimately show ?thesis using c(1) by (intro exI [of _ v'] exI [of _ nd'] exI [of _ p']) simp
qed

text \<open>A file and then a directory in the root.\<close>

theorem inode_create_found_witness:
  "\<exists>v a p v' b p'. inode_create 0 vol0 file0 (Some root0) None [97] = Some (v, a, Some p, None) \<and>
     inode_create 1 v file0 (Some p) None [98] = Some (v', b, Some p', None) \<and>
     inode_child v' p' [98] file0 = Some (fetched b file0) \<and> itype b = inode_type_dir \<and>
     inode_child v' p' [97] file0 = Some (fetched a file0) \<and> file_is v' a []"
proof -
  obtain v a p where c: "inode_create 0 vol0 file0 (Some root0) None [97] = Some (v, a, Some p, None)"
    "file_is v a []" "stored v a" "dir_is v p [([97], index a)]" "stored v p" "pathbuf_name (ipath a) = Some (Some [97])"
    "node_sectors a \<inter> node_sectors p = {}" "unat (balloc_ptr v) \<le> 100" by (rule vol0_create)
  have b: "below v p None" by (simp add: below_def)
  have "unat (alloc p) < 4194303" using c(4,8) by (simp add: dir_is_def file_is_def node_ok_def)
  then obtain v' nd p' where n: "inode_create 1 v file0 (Some p) None [98] = Some (v', nd, Some p', None)"
    "inode_child v' p' [98] file0 = Some (fetched nd file0)" "itype nd = inode_type_dir"
    "\<forall>k c xs. (k, index c) \<in> set [([97], index a)] \<longrightarrow> stored v c \<longrightarrow> file_is v c xs \<longrightarrow> node_sectors c \<inter> node_sectors p = {} \<longrightarrow>
      (\<forall>q. None = Some q \<longrightarrow> node_sectors c \<inter> node_sectors q = {}) \<longrightarrow>
      inode_child v' p' k file0 = Some (fetched c file0) \<and> file_is v' c xs"
    using inode_create_found [OF c(4) b, of "[98]" 1 file0 file0] c(8) by (auto simp: sectors_to_def)
  have "inode_child v' p' [97] file0 = Some (fetched a file0) \<and> file_is v' a []" using n(4) c(2,3,7) by simp
  with c(1) n(1-3) show ?thesis by blast
qed

text \<open>Reading a directory from the offset of an entry gives the name of that entry and the distance to the
  next one, and at the end of the directory zero: a reader that adds up what it gets sees every name once.\<close>

theorem inode_readdir_lists:
  assumes "dir_is v nd es"
  shows "(\<forall>ps n i qs. es = ps @ (n, i) # qs \<longrightarrow>
      inode_readdir v nd (of_nat (length (table_bytes ps))) = Some (Some n, of_nat (length n) + 5) \<and>
      length (table_bytes (ps @ [(n, i)])) = length (table_bytes ps) + length n + 5) \<and>
    inode_readdir v nd (of_nat (length (table_bytes es))) = Some (None, 0)"
proof -
  have "isize nd = of_nat (length (table_bytes es))"
    using assms by (metis dir_is_def file_is_def of_nat_unat ucast_id)
  moreover have "inode_readdir v nd (of_nat (length (table_bytes ps))) = Some (Some n, of_nat (length n) + 5)"
    if "es = ps @ (n, i) # qs" for ps n i qs
    using inode_readdir_at [OF assms [unfolded that]] .
  ultimately show ?thesis by (simp add: inode_readdir_def)
qed

theorem inode_readdir_lists_witness:
  "\<exists>v nd p. inode_create 0 vol0 file0 (Some root0) None [97] = Some (v, nd, Some p, None) \<and>
     inode_readdir v p 0 = Some (Some [97], 6) \<and> inode_readdir v p 6 = Some (None, 0)"
proof -
  obtain v nd p where c: "inode_create 0 vol0 file0 (Some root0) None [97] = Some (v, nd, Some p, None)"
    "file_is v nd []" "stored v nd" "dir_is v p [([97], index nd)]" "stored v p" "pathbuf_name (ipath nd) = Some (Some [97])"
    "node_sectors nd \<inter> node_sectors p = {}" "unat (balloc_ptr v) \<le> 100" by (rule vol0_create)
  note l = inode_readdir_lists [OF c(4)]
  have "[([97], index nd)] = [] @ ([97], index nd) # []" by simp
  with conjunct1 [OF l] have "inode_readdir v p (of_nat (length (table_bytes []))) = Some (Some [97], of_nat (length [97 :: u8]) + 5)"
    by blast
  then show ?thesis using conjunct2 [OF l] c(1) by simp
qed

text \<open>Removing the entry that was added last to a directory does not remove it: the shorter table is written
  over the directory, whose size is not reduced, so the entry's bytes stay and the name is still found;
  only the number of children goes down.\<close>

theorem inode_remove_last_entry_stays:
  assumes "dir_is v nd (es @ [(name, i)])" and "i \<noteq> 0"
  shows "\<exists>v' nd'. inode_child_set (v, nd, po) \<lparr>name1 = name, name2 = [], chindex = 0, chop = CHOP_REM\<rparr> = Some (v', nd', po) \<and>
    child_count nd' = child_count nd - 1 \<and> isize nd' = isize nd \<and> inode_child v' nd' name buf = inode_fetch v' i buf"
proof -
  let ?op = "\<lparr>name1 = name, name2 = [], chindex = 0, chop = CHOP_REM\<rparr>" and ?nd = "nd\<lparr>child_count := child_count nd - 1\<rparr>"
  obtain v' where v': "inode_child_set (v, nd, po) ?op = Some (v', ?nd, po)" "dir_is v' ?nd (es @ [(name, i)])"
    using inode_child_set_rem_last [OF assms(1), of ?op po] by auto
  have "name \<notin> fst ` set es" using assms(1) by (auto simp: dir_is_def names_ok_def)
  then have "map_of es name = None" by (simp add: map_of_eq_None_iff)
  then have "inode_child v' ?nd name buf = inode_fetch v' i buf"
    using inode_child_dir [OF v'(2), of name buf] assms(2) by (simp add: map_add_def)
  then show ?thesis using v'(1) by (intro exI [of _ v'] exI [of _ ?nd]) simp
qed

theorem inode_remove_last_entry_stays_witness:
  "\<exists>v nd p v' p'. inode_create 0 vol0 file0 (Some root0) None [97] = Some (v, nd, Some p, None) \<and>
     inode_child_set (v, p, None) \<lparr>name1 = [97], name2 = [], chindex = 0, chop = CHOP_REM\<rparr> = Some (v', p', None) \<and>
     inode_child v' p' [97] file0 = inode_fetch v' (index nd) file0"
proof -
  obtain v nd p where c: "inode_create 0 vol0 file0 (Some root0) None [97] = Some (v, nd, Some p, None)"
    "file_is v nd []" "stored v nd" "dir_is v p [([97], index nd)]" "stored v p" "pathbuf_name (ipath nd) = Some (Some [97])"
    "node_sectors nd \<inter> node_sectors p = {}" "unat (balloc_ptr v) \<le> 100" by (rule vol0_create)
  have "index nd \<noteq> 0" using c(2) by (auto simp: file_is_def node_ok_def)
  then show ?thesis using inode_remove_last_entry_stays [of v p "[]" "[97]" "index nd" None file0] c(1,4) by auto
qed

text \<open>Deleting a node that was looked up in a directory has no defined outcome: the name to remove is read
  one place behind the last field of the path, and the vector of the path ends there.\<close>

theorem inode_delete_reads_past_path:
  assumes "pathbuf_child pb name x = Some (ipath nd)" and "size_v (pfields pb) \<noteq> - 1"
  shows "inode_delete v nd (Some p) = None"
  using pathbuf_child_full [OF assms] by (simp add: inode_delete_def Let_def)

theorem inode_delete_reads_past_path_witness:
  "\<exists>pb. pathbuf_child pathbuf_root [97] 1 = Some pb \<and> inode_delete vol0 (file0\<lparr>ipath := pb\<rparr>) (Some root0) = None"
proof -
  have "\<exists>pb. pathbuf_child pathbuf_root [97] 1 = Some pb"
    by (simp add: pathbuf_child_def copy_fields_def pathbuf_root_def vec_new_def vec_new_s_def vec_new_sh_def Let_def
        vec_push_def wr_def vec_alloc_def VEC_INIT_CAP_def)
  then obtain pb where pb: "pathbuf_child pathbuf_root [97] 1 = Some pb" by blast
  have "size_v (pfields pathbuf_root) \<noteq> - 1" by (simp add: pathbuf_root_def vec_new_def vec_new_sh_def Let_def)
  then show ?thesis using inode_delete_reads_past_path [of pathbuf_root "[97]" 1 "file0\<lparr>ipath := pb\<rparr>" vol0 root0] pb by simp
qed

end
