(* ===== verification/Fsthms.thy ===== *)
theory Fsthms
  imports Fs Inodethms
begin

text \<open>
  The properties of the file system calls: what opening a path finds, what it does to nodes in memory and
  on the disk, and that what is written to an open node is what is read.
\<close>

subsection \<open>The list of nodes\<close>

lemma list_erase_distinct:
  assumes "vec_ok l" and "distinct (vec_list l)" and "length (vec_list l) \<le> k + n" and "k + n < 4294967295"
  shows "\<exists>l'. list_erase l a [k..<k + n] = Some l' \<and> vec_ok l' \<and>
    vec_list l' = take k (vec_list l) @ filter (\<lambda>b. b \<noteq> a) (drop k (vec_list l))"
  using assms
proof (induction n arbitrary: k l)
  case (Suc n)
  let ?xs = "vec_list l"
  have sz: "unat (size_v l) = length ?xs" using Suc.prems(1) by (simp add: vec_ok_iff)
  have cons: "[k..<k + Suc n] = k # [Suc k..<Suc k + n]" by (simp add: upt_conv_Cons)
  show ?case
  proof (cases "k < length ?xs")
    case False
    then show ?thesis using Suc.prems(1) sz unfolding cons by simp
  next
    case True
    have get: "vec_get l k = Some (?xs ! k)" by (rule vec_get_list [OF Suc.prems(1) True])
    have dk: "drop k ?xs = ?xs ! k # drop (Suc k) ?xs" using True by (simp add: Cons_nth_drop_Suc)
    show ?thesis
    proof (cases "?xs ! k = a")
      case True
      have uk: "unat (of_nat k :: u32) = k" using Suc.prems(4) by (intro unat_of_nat32) simp
      obtain l1 where l1: "vec_erase l (of_nat k) 1 = Some l1" "vec_ok l1" "vec_list l1 = take k ?xs @ drop (k + 1) ?xs"
        using vec_erase_list [OF Suc.prems(1), of "of_nat k" 1] Suc.prems(4) uk by auto
      let ?ys = "take k ?xs @ drop (Suc k) ?xs"
      have split: "?xs = take k ?xs @ a # drop (Suc k) ?xs"
        using id_take_nth_drop [OF \<open>k < length ?xs\<close>] True by simp
      have "distinct (take k ?xs @ a # drop (Suc k) ?xs)"
        by (rule iffD1 [OF arg_cong [OF split, of distinct] Suc.prems(2)])
      then have d: "distinct ?ys" "a \<notin> set ?ys" by auto
      have "length ?ys \<le> Suc k + n" using Suc.prems(3) by simp
      then obtain l' where l': "list_erase l1 a [Suc k..<Suc k + n] = Some l'" "vec_ok l'"
        "vec_list l' = take (Suc k) ?ys @ filter (\<lambda>b. b \<noteq> a) (drop (Suc k) ?ys)"
        using Suc.IH [of l1 "Suc k"] l1 d(1) Suc.prems(4) by auto
      have fy: "filter (\<lambda>b. b \<noteq> a) (drop (Suc k) ?ys) = drop (Suc k) ?ys"
        using d(2) in_set_dropD [of _ "Suc k" ?ys] by (intro filter_True ballI) blast
      have "vec_list l' = ?ys" by (simp only: l'(3) fy append_take_drop_id)
      moreover have "filter (\<lambda>b. b \<noteq> a) (drop (Suc k) ?xs) = drop (Suc k) ?xs"
        using d(2) by (auto simp: filter_id_conv)
      ultimately show ?thesis using l' l1(1) get True \<open>k < length ?xs\<close> sz dk unfolding cons by simp
    next
      case False
      obtain l' where l': "list_erase l a [Suc k..<Suc k + n] = Some l'" "vec_ok l'"
        "vec_list l' = take (Suc k) ?xs @ filter (\<lambda>b. b \<noteq> a) (drop (Suc k) ?xs)"
        using Suc.IH [of l "Suc k"] Suc.prems by auto
      then show ?thesis using get False \<open>k < length ?xs\<close> sz dk unfolding cons
        by (simp add: take_Suc_conv_app_nth)
    qed
  qed
qed simp

lemma inodelist_remove_list:
  assumes "vec_ok (inodelist s)" and "distinct (vec_list (inodelist s))"
  shows "\<exists>l. inodelist_remove s a = Some (s\<lparr>inodelist := l\<rparr>) \<and> vec_ok l \<and>
    vec_list l = filter (\<lambda>b. b \<noteq> a) (vec_list (inodelist s))"
proof -
  have "length (vec_list (inodelist s)) = unat (size_v (inodelist s))" "unat (size_v (inodelist s)) < 1073741824"
    using assms(1) by (auto simp: vec_ok_iff dest!: holds_length)
  then show ?thesis using list_erase_distinct [OF assms, of 0 "unat (size_v (inodelist s))" a]
    by (auto simp: inodelist_remove_def)
qed

subsection \<open>Paths of nodes\<close>

definition same_path :: "path \<Rightarrow> path \<Rightarrow> bool" where
  "same_path p q \<longleftrightarrow> names p = names q \<and> absolute p = absolute q \<and> ups p = ups q"

lemma pathbuf_cmp_same: "path_is b1 p \<Longrightarrow> path_is b2 q \<Longrightarrow> pathbuf_cmp b1 b2 = Some (same_path p q)"
  unfolding same_path_def by (rule pathbuf_cmp_equal)

definition abs_path :: "cstr list \<Rightarrow> u8 option \<Rightarrow> path" where
  "abs_path ns e = \<lparr>absolute = True, ups = 0, names = ns, explicit_dir = e\<rparr>"

text \<open>A node at an address with an absolute path.\<close>

definition node_at :: "fs \<Rightarrow> nat \<Rightarrow> cstr list \<Rightarrow> bool" where
  "node_at s a ns \<longleftrightarrow> (\<exists>nd e. inodes s a = Some nd \<and> path_is (ipath nd) (abs_path ns e))"

lemma list_search_paths:
  assumes "vec_ok (inodelist s)" and "\<forall>i \<in> set js. i < length (vec_list (inodelist s))"
    and "\<forall>a \<in> set (vec_list (inodelist s)). node_at s a (f a)" and "path_is pb (abs_path ns e)"
  shows "list_search s pb js = Some (find (\<lambda>a. f a = ns) (List.map (\<lambda>i. vec_list (inodelist s) ! i) js))"
  using assms(2)
proof (induction js)
  case (Cons i js)
  let ?a = "vec_list (inodelist s) ! i"
  have i: "i < length (vec_list (inodelist s))" using Cons.prems by simp
  then have "node_at s ?a (f ?a)" using assms(3) by simp
  then obtain nd e' where nd: "inodes s ?a = Some nd" "path_is (ipath nd) (abs_path (f ?a) e')" by (auto simp: node_at_def)
  have "pathbuf_cmp (ipath nd) pb = Some (f ?a = ns)"
    using pathbuf_cmp_same [OF nd(2) assms(4)] by (simp add: same_path_def abs_path_def)
  then show ?case using Cons nd(1) vec_get_list [OF assms(1) i] by simp
qed simp

lemma inodelist_get_paths:
  assumes "vec_ok (inodelist s)" and "\<forall>a \<in> set (vec_list (inodelist s)). node_at s a (f a)" and "path_is pb (abs_path ns e)"
  shows "inodelist_get s pb = Some (find (\<lambda>a. f a = ns) (vec_list (inodelist s)))"
proof -
  have "unat (size_v (inodelist s)) = length (vec_list (inodelist s))" using assms(1) by (simp add: vec_ok_iff)
  then show ?thesis using list_search_paths [OF assms(1) _ assms(2,3), of "[0..<length (vec_list (inodelist s))]"]
    by (simp add: inodelist_get_def map_nth)
qed

lemma pathbuf_child_is:
  assumes "path_is pb p" and "length (names p) < 268435456"
  shows "\<exists>pb'. pathbuf_child pb n x = Some pb' \<and> path_is pb' (p\<lparr>names := names p @ [n], explicit_dir := Some x\<rparr>)"
proof -
  have sz: "unat (size_v (pfields pb)) = length (names p)" by (rule path_is_size [OF assms(1)])
  have v: "vec_ok (pfields pb)" "vec_list (pfields pb) = names p" using assms(1) by (simp_all add: path_is_def)
  have u: "unat (size_v (pfields pb) + 1) = length (names p) + 1" using sz assms(2) by (subst unat_add_nowrap) simp_all
  let ?v = "vec_new_s (size_v (pfields pb) + 1) :: cstr vec"
  have nv: "vec_ok ?v" "vec_list ?v = []" using vec_new_s_list [where ?'a = cstr, of "size_v (pfields pb) + 1"] u assms(2) by simp_all
  have "size_v ?v = 0" by (simp add: vec_new_s_def vec_new_sh_def Let_def)
  then have room: "vec_room_for ?v (length (names p) + 1)" using assms(2) by (simp add: vec_room_for_def)
  obtain fs where fs: "copy_fields ?v (pfields pb) (length (names p)) = Some fs" "vec_ok fs"
    "vec_list fs = names p" "vec_room_for fs 1"
    using copy_fields_list [OF v(1) _ nv(1) room] nv(2) v(2) by auto
  have "vec_room fs" using fs(4) by (simp add: vec_room_def vec_room_for_def)
  then obtain fs' where fs': "vec_push fs n = Some fs'" "vec_ok fs'" "vec_list fs' = names p @ [n]"
    using vec_push_list [OF fs(2)] fs(3) by fastforce
  show ?thesis using fs(1) fs' assms(1) by (simp add: pathbuf_child_def sz path_is_def)
qed

subsection \<open>Opening a node that is in memory\<close>

text \<open>A node at an address, valid, with its lock free.\<close>

definition resident :: "fs \<Rightarrow> nat \<Rightarrow> inode \<Rightarrow> cstr list \<Rightarrow> bool" where
  "resident s a nd ns \<longleftrightarrow> inodes s a = Some nd \<and> (\<exists>e. path_is (ipath nd) (abs_path ns e)) \<and> isvalid nd \<noteq> 0 \<and>
     ilock nd = krwlock_init"

lemma put_node_simps [simp]:
  "inodes (put_node s a nd) = (inodes s)(a := Some nd)" "vol (put_node s a nd) = vol s"
  "inodelist (put_node s a nd) = inodelist s" "next_node (put_node s a nd) = next_node s"
  "raw_node (put_node s a nd) = raw_node s"
  by (simp_all add: put_node_def)

lemma pop_or_null_list:
  assumes "vec_ok l"
  shows "vec_list l = [] \<Longrightarrow> pop_or_null l = Some (l, None)"
    and "vec_list l \<noteq> [] \<Longrightarrow> \<exists>l'. pop_or_null l = Some (l', Some (last (vec_list l))) \<and> vec_ok l' \<and> vec_list l' = butlast (vec_list l)"
proof -
  have sz: "unat (size_v l) = length (vec_list l)" using assms by (simp add: vec_ok_iff)
  show "vec_list l = [] \<Longrightarrow> pop_or_null l = Some (l, None)"
    using sz by (simp add: pop_or_null_def unat_eq_0)
  assume ne: "vec_list l \<noteq> []"
  then have "size_v l \<noteq> 0" using sz by auto
  then show "\<exists>l'. pop_or_null l = Some (l', Some (last (vec_list l))) \<and> vec_ok l' \<and> vec_list l' = butlast (vec_list l)"
    using vec_pop_list [OF assms ne] by (auto simp: pop_or_null_def)
qed

lemma node_locks:
  assumes "inodes s a = Some nd" and "ilock nd = krwlock_init"
  shows "fs_node_wrlock s (Some a) = Some (put_node s a (nd\<lparr>ilock := krwlock_write_in krwlock_init\<rparr>))"
    and "fs_node_rdlock s (Some a) = Some (put_node s a (nd\<lparr>ilock := fst (krwlock_read_in krwlock_init)\<rparr>))"
  using assms by (simp_all add: fs_node_wrlock_def fs_node_rdlock_def free_lock)

lemma node_unlock:
  assumes "inodes s a = Some nd" and "ilock nd = krwlock_write_in krwlock_init \<or> ilock nd = fst (krwlock_read_in krwlock_init)"
  shows "fs_node_unlock s (Some a) = Some (put_node s a (nd\<lparr>ilock := krwlock_init\<rparr>))"
  using assms by (auto simp: fs_node_unlock_def free_lock)

lemma null_nodes [simp]:
  "fs_node_wrlock s None = Some s" "fs_node_unlock s None = Some s" "fs_node_close s None = Some s"
  by (simp_all add: fs_node_wrlock_def fs_node_unlock_def fs_node_close_def)

lemma walk_there:
  assumes "inodes s p = Some nd" and "pathbuf_cmp (ipath nd) pb = Some True"
  shows "walk s pb p l = Some (s, p, l, 0)"
  using assms by (subst walk.simps) simp

text \<open>One round of the walk through a directory whose child is in memory.\<close>

lemma walk_resident:
  assumes "inodes s p = Some nd" and "ilock nd = krwlock_init" and "isvalid nd \<noteq> 0" and "itype nd = inode_type_dir"
    and "pathbuf_cmp (ipath nd) pb = Some False" and "vec_push l p = Some l'"
    and "pathbuf_field pb (unat (pathbuf_len (ipath nd))) = Some n" and "pathbuf_child (ipath nd) n 1 = Some pb'"
    and "inodelist_get s pb' = Some (Some c)"
  shows "walk s pb p l = walk s pb c l'"
proof -
  let ?r = "nd\<lparr>ilock := fst (krwlock_read_in krwlock_init)\<rparr>"
  have nd: "nd\<lparr>ilock := krwlock_init\<rparr> = nd" using assms(2) by (cases nd) simp
  have restored: "put_node (put_node s p ?r) p nd = s" using assms(1) by (simp add: put_node_def fun_upd_idem)
  have rd: "fs_node_rdlock s (Some p) = Some (put_node s p ?r)" by (rule node_locks(2) [OF assms(1,2)])
  have un: "fs_node_unlock (put_node s p ?r) (Some p) = Some s"
    by (subst node_unlock [of _ p ?r]) (simp_all add: nd restored)
  have ch: "fs_node_child s (Some p) n = Some (s, Some c)"
    using assms(1,8,9) by (simp add: fs_node_child_def)
  have "itype nd \<noteq> inode_type_file" using assms(4) by (simp add: inode_type_dir_def inode_type_file_def)
  then show ?thesis using assms(1,3,5,6,7)
    by (subst walk.simps) (simp add: rd un ch)
qed

lemma abs_cmp:
  "path_is b1 (abs_path ns e) \<Longrightarrow> path_is b2 (abs_path ms e') \<Longrightarrow> pathbuf_cmp b1 b2 = Some (ns = ms)"
  using pathbuf_cmp_same by (fastforce simp: same_path_def abs_path_def)

lemma fs_node_root_at:
  "vec_get (inodelist s) 0 = Some r \<Longrightarrow> inodes s r = Some rn \<Longrightarrow>
   fs_node_root s = Some (put_node s r (rn\<lparr>refs := refs rn + 1\<rparr>), r)"
  by (simp add: fs_node_root_def)

lemma open_root:
  assumes "vec_get (inodelist s) 0 = Some r" and "resident s r rn []" and "path_is pb (abs_path [] e)"
  shows "fs_node_open s pb = Some (put_node s r (rn\<lparr>refs := refs rn + 1\<rparr>), 0, r, None, None)"
proof -
  obtain e' where rn: "inodes s r = Some rn" "path_is (ipath rn) (abs_path [] e')"
    using assms(2) by (auto simp: resident_def)
  let ?rn = "rn\<lparr>refs := refs rn + 1\<rparr>" and ?s = "put_node s r (rn\<lparr>refs := refs rn + 1\<rparr>)"
  have "walk ?s pb r vec_new = Some (?s, r, vec_new, 0)"
    using abs_cmp [OF rn(2) assms(3)] by (intro walk_there [of _ _ ?rn]) simp_all
  moreover have "size_v (vec_new :: nat vec) = 0" by (simp add: vec_new_def vec_new_sh_def Let_def)
  ultimately show ?thesis
    by (simp add: fs_node_open_def fs_node_root_at [OF assms(1) rn(1)] pop_or_null_def)
qed

text \<open>C8. Opening the root directory as a file to be truncated fails with \<open>FS_ERR_INVALID_PATH\<close>, and
  nevertheless empties the root directory, in memory and on the disk: the check that the node is of the
  kind asked for does not keep the truncation from happening.\<close>

theorem fs_open_empties_root:
  assumes "vec_get (inodelist s) 0 = Some r" and "resident s r rn []" and "itype rn = inode_type_dir"
    and "path_is pb (abs_path [] e)"
  shows "\<exists>s' nd. fs_open s pb create 1 0 0 = Some (s', Some r, FS_ERR_INVALID_PATH) \<and> inodes s' r = Some nd \<and>
    isize nd = 0 \<and> alloc nd = 0 \<and> inode_fetch (vol s') (index rn) buf = Some (fetched nd buf)"
proof -
  have rn: "inodes s r = Some rn" "isvalid rn \<noteq> 0" "ilock rn = krwlock_init" using assms(2) by (simp_all add: resident_def)
  let ?r1 = "rn\<lparr>refs := refs rn + 1\<rparr>"
  let ?r2 = "rn\<lparr>refs := refs rn + 1, ilock := krwlock_write_in krwlock_init\<rparr>"
  let ?r3 = "?r2\<lparr>alloc := 0, isize := 0\<rparr>"
  let ?v = "inode_update (vol s) ?r3"
  let ?s3 = "put_node ((put_node (put_node s r ?r1) r ?r2)\<lparr>vol := ?v\<rparr>) r ?r3"
  have lock: "fs_node_wrlock (put_node s r ?r1) (Some r) = Some (put_node (put_node s r ?r1) r ?r2)"
    using rn(3) by (subst node_locks(1)) simp_all
  have ex: "open_existing (put_node (put_node s r ?r1) r ?r2) 1 0 0 r None = Some (?s3, FS_ERR_INVALID_PATH)"
    using assms(3) by (simp add: open_existing_def inode_truncate_def Let_def)
  let ?s4 = "put_node ?s3 r (?r3\<lparr>iparent := None\<rparr>)"
  let ?nd = "?r3\<lparr>iparent := None, ilock := krwlock_init\<rparr>"
  have un: "fs_node_unlock ?s4 (Some r) = Some (put_node ?s4 r ?nd)"
    by (subst node_unlock [of _ r "?r3\<lparr>iparent := None\<rparr>"]) simp_all
  have run: "fs_open s pb create 1 0 0 = Some (put_node ?s4 r ?nd, Some r, FS_ERR_INVALID_PATH)"
    unfolding fs_open_def open_root [OF assms(1,2,4)] using rn(2) by (simp add: lock ex un)
  have "stored ?v ?nd" by (simp add: stored_def inode_update_def inode_cells_def)
  from inode_fetch_stored [OF this, of buf]
  have "inode_fetch ?v (index rn) buf = Some (fetched ?nd buf)" by simp
  then show ?thesis using run by (intro exI [of _ "put_node ?s4 r ?nd"] exI [of _ ?nd]) simp
qed

definition fs1 :: fs where
  "fs1 = \<lparr>vol = vol0, inodes = (\<lambda>_. None)(0 := Some root0), inodelist = \<lparr>buffer = [Some 0], size_v = 1, cap = 1\<rparr>,
     next_node = 1, raw_node = root0\<rparr>"

lemma root_path: "path_is pathbuf_root (abs_path [] (Some 1))"
  by (simp add: path_is_def pathbuf_root_def abs_path_def vec_new_list)

lemma fs1_root: "vec_get (inodelist fs1) 0 = Some 0" "resident fs1 0 root0 []" "itype root0 = inode_type_dir"
  using root_path by (auto simp: fs1_def vec_get_def rd_def resident_def root0_def)

text \<open>A root directory with an entry in it.\<close>

definition full_root :: inode where
  "full_root = root0\<lparr>isize := 6, alloc := 1, child_count := 1\<rparr>"

lemma full_root_fs:
  "vec_get (inodelist (fs1\<lparr>inodes := (\<lambda>_. None)(0 := Some full_root)\<rparr>)) 0 = Some 0"
  "resident (fs1\<lparr>inodes := (\<lambda>_. None)(0 := Some full_root)\<rparr>) 0 full_root []" "itype full_root = inode_type_dir"
  using root_path by (auto simp: fs1_def vec_get_def rd_def resident_def root0_def full_root_def)

theorem fs_open_empties_root_witness:
  "isize full_root = 6 \<and> (\<exists>s' nd. fs_open (fs1\<lparr>inodes := (\<lambda>_. None)(0 := Some full_root)\<rparr>) pathbuf_root 0 1 0 0 =
      Some (s', Some 0, FS_ERR_INVALID_PATH) \<and> inodes s' 0 = Some nd \<and> isize nd = 0 \<and> alloc nd = 0)"
  using fs_open_empties_root [OF full_root_fs root_path, of 0 root0] by (auto simp: full_root_def)

lemma open_child:
  assumes "vec_ok (inodelist s)" and "vec_list (inodelist s) = [r, a]" and "r \<noteq> a" and "resident s r rn []"
    and "itype rn = inode_type_dir" and "resident s a nd [n]" and "path_is pb (abs_path [n] e)"
  shows "fs_node_open s pb = Some (put_node s r (rn\<lparr>refs := refs rn + 1\<rparr>), 0, a, Some r, None)"
proof -
  obtain e' where rn: "inodes s r = Some rn" "path_is (ipath rn) (abs_path [] e')" "isvalid rn \<noteq> 0" "ilock rn = krwlock_init"
    using assms(4) by (auto simp: resident_def)
  obtain e'' where nd: "inodes s a = Some nd" "path_is (ipath nd) (abs_path [n] e'')"
    using assms(6) by (auto simp: resident_def)
  let ?rn = "rn\<lparr>refs := refs rn + 1\<rparr>" and ?s = "put_node s r (rn\<lparr>refs := refs rn + 1\<rparr>)"
  have v0: "vec_get (inodelist s) 0 = Some r" using vec_get_list [OF assms(1), of 0] assms(2) by simp
  obtain l1 where l1: "vec_push (vec_new :: nat vec) r = Some l1" "vec_ok l1" "vec_list l1 = [r]"
    using vec_push_list [of "vec_new :: nat vec" r] by (auto simp: vec_new_list vec_new_room)
  obtain pb' where pb': "pathbuf_child (ipath rn) n 1 = Some pb'" "path_is pb' (abs_path [n] (Some 1))"
    using pathbuf_child_is [OF rn(2), of n 1] by (auto simp: abs_path_def)
  have field: "pathbuf_field pb (unat (pathbuf_len (ipath rn))) = Some n"
  proof -
    have "unat (pathbuf_len (ipath rn)) = 0" using path_is_size [OF rn(2)] by (simp add: pathbuf_len_def abs_path_def)
    moreover have "vec_ok (pfields pb)" "vec_list (pfields pb) = [n]" using assms(7) by (simp_all add: path_is_def abs_path_def)
    ultimately show ?thesis using vec_get_list [of "pfields pb" 0] by (simp add: pathbuf_field_def)
  qed
  let ?f = "\<lambda>x. if x = r then [] else [n]"
  have "\<forall>x \<in> set (vec_list (inodelist ?s)). node_at ?s x (?f x)"
    using assms(2,3) rn nd by (auto simp: node_at_def)
  from inodelist_get_paths [OF _ this pb'(2)] have get: "inodelist_get ?s pb' = Some (Some a)"
    using assms(1-3) by simp
  have w1: "walk ?s pb r vec_new = walk ?s pb a l1"
    using rn abs_cmp [OF rn(2) assms(7)] l1(1) field pb'(1) get assms(5)
    by (intro walk_resident [of _ _ ?rn]) simp_all
  have w2: "walk ?s pb a l1 = Some (?s, a, l1, 0)"
    using nd(1) abs_cmp [OF nd(2) assms(7)] assms(3) by (intro walk_there [of _ _ nd]) simp_all
  obtain l2 where l2: "pop_or_null l1 = Some (l2, Some r)" "vec_ok l2" "vec_list l2 = []"
    using pop_or_null_list(2) [OF l1(2)] l1(3) by auto
  have l3: "pop_or_null l2 = Some (l2, None)" by (rule pop_or_null_list(1) [OF l2(2,3)])
  have "unat (size_v l2) = 0" using l2(2,3) by (simp add: vec_ok_iff)
  then show ?thesis
    by (simp add: fs_node_open_def fs_node_root_at [OF v0 rn(1)] w1 w2 l2(1) l3)
qed

text \<open>Opening a path whose node is in memory gives that node without counting the new user, so when it was
  opened once before, the first of the two closes frees it under the other.\<close>

theorem fs_open_does_not_count:
  assumes "vec_ok (inodelist s)" and "vec_list (inodelist s) = [r, a]" and "r \<noteq> a" and "resident s r rn []"
    and "itype rn = inode_type_dir" and "refs rn \<noteq> 0" and "resident s a nd [n]" and "refs nd = 1"
    and "path_is pb (abs_path [n] e)"
  shows "\<exists>s1 s2. fs_open s pb 0 0 2 0 = Some (s1, Some a, 0) \<and> fs_close s1 (Some a) = Some s2 \<and> inodes s2 a = None"
proof -
  have rn: "inodes s r = Some rn" "ilock rn = krwlock_init" using assms(4) by (simp_all add: resident_def)
  have nd: "inodes s a = Some nd" "isvalid nd \<noteq> 0" "ilock nd = krwlock_init" using assms(7) by (simp_all add: resident_def)
  let ?W = "krwlock_write_in krwlock_init"
  let ?r1 = "rn\<lparr>refs := refs rn + 1\<rparr>"
  let ?r2 = "?r1\<lparr>ilock := ?W\<rparr>" and ?n2 = "nd\<lparr>ilock := ?W\<rparr>"
  let ?s1 = "put_node s r ?r1"
  let ?s2 = "put_node ?s1 r ?r2"
  let ?s3 = "put_node ?s2 a ?n2"
  let ?s4 = "put_node ?s3 a (?n2\<lparr>iparent := Some r\<rparr>)"
  let ?r5 = "rn\<lparr>refs := refs rn + 1, ilock := krwlock_init\<rparr>"
  let ?s5 = "put_node ?s4 r ?r5"
  let ?n6 = "nd\<lparr>iparent := Some r, ilock := krwlock_init\<rparr>"
  let ?s6 = "put_node ?s5 a ?n6"
  have op: "fs_node_open s pb = Some (?s1, 0, a, Some r, None)" by (rule open_child [OF assms(1-5,7,9)])
  have lr: "fs_node_wrlock ?s1 (Some r) = Some ?s2" using rn(2) by (subst node_locks(1)) simp_all
  have la: "fs_node_wrlock ?s2 (Some a) = Some ?s3" using nd assms(3) by (subst node_locks(1)) simp_all
  have ex: "open_existing ?s3 0 2 0 a (Some r) = Some (?s3, 0)" by (simp add: open_existing_def Let_def)
  have ur: "fs_node_unlock ?s4 (Some r) = Some ?s5" using assms(3) by (subst node_unlock [of _ r ?r2]) simp_all
  have ua: "fs_node_unlock ?s5 (Some a) = Some ?s6"
    using assms(3) by (subst node_unlock [of _ a "?n2\<lparr>iparent := Some r\<rparr>"]) simp_all
  note steps = lr la ex ur ua
  have run: "fs_open s pb 0 0 2 0 = Some (?s6, Some a, 0)"
    unfolding fs_open_def op using nd(2) by (simp add: lr la ex ur ua)
  let ?s7 = "put_node ?s6 a (?n6\<lparr>refs := 0\<rparr>)"
  obtain l where l: "inodelist_remove ?s7 a = Some (?s7\<lparr>inodelist := l\<rparr>)"
    using inodelist_remove_list [of ?s7 a] assms(1-3) by auto
  let ?s8 = "?s7\<lparr>inodelist := l, inodes := (inodes ?s7)(a := None)\<rparr>"
  have c1: "fs_node_close ?s6 (Some a) = Some ?s8" using assms(8) l by (simp add: fs_node_close_def Let_def)
  have c2: "fs_node_close ?s8 (Some r) = Some (put_node ?s8 r (?r5\<lparr>refs := refs rn\<rparr>))"
    using assms(3,6) by (simp add: fs_node_close_def Let_def)
  have "fs_close ?s6 (Some a) = Some (put_node ?s8 r (?r5\<lparr>refs := refs rn\<rparr>))"
    unfolding fs_close_def using c1 c2 by simp
  then show ?thesis using run assms(3) by (intro exI conjI) auto
qed

definition fs2 :: fs where
  "fs2 = \<lparr>vol = vol0, inodes = (\<lambda>_. None)(0 := Some root0, 1 := Some file0),
     inodelist = \<lparr>buffer = [Some 0, Some 1], size_v = 2, cap = 2\<rparr>, next_node = 2, raw_node = root0\<rparr>"

lemma fs2_facts:
  "vec_ok (inodelist fs2)" "vec_list (inodelist fs2) = [0, 1]" "resident fs2 0 root0 []" "resident fs2 1 file0 [[97]]"
  "path_is (ipath file0) (abs_path [[97]] (Some 0))"
proof -
  show "vec_ok (inodelist fs2)" "vec_list (inodelist fs2) = [0, 1]"
    by (simp_all add: fs2_def vec_ok_def vec_list_def word_le_nat_alt)
  show f: "path_is (ipath file0) (abs_path [[97]] (Some 0))"
    by (simp add: path_is_def file0_def abs_path_def vec_ok_def vec_list_def)
  show "resident fs2 0 root0 []" "resident fs2 1 file0 [[97]]"
    using f root_path by (auto simp: resident_def fs2_def root0_def file0_def)
qed

theorem fs_open_does_not_count_witness:
  "\<exists>s1 s2. fs_open fs2 (ipath file0) 0 0 2 0 = Some (s1, Some 1, 0) \<and> fs_close s1 (Some 1) = Some s2 \<and> inodes s2 1 = None"
  by (rule fs_open_does_not_count [OF fs2_facts(1,2) _ fs2_facts(3) _ _ fs2_facts(4) _ fs2_facts(5)])
    (simp_all add: root0_def file0_def)

subsection \<open>Reading and writing open nodes\<close>

lemma file_is_lock [simp]: "file_is v (nd\<lparr>ilock := l\<rparr>) xs = file_is v nd xs"
  by (simp add: file_is_def node_ok_def)

lemma dir_is_lock [simp]: "dir_is v (nd\<lparr>ilock := l\<rparr>) es = dir_is v nd es"
  by (simp add: dir_is_def)

lemma node_sectors_lock [simp]: "node_sectors (nd\<lparr>ilock := l\<rparr>) = node_sectors nd"
  by (simp add: node_sectors_def)

lemma sint_of_nat32: "n < 2147483648 \<Longrightarrow> sint (of_nat n :: u32) = int n"
  by (simp add: signed_of_nat signed_take_bit_int_eq_self)

text \<open>C6. What \<open>fs_write\<close> writes to an open file, \<open>fs_read\<close> reads, also when the file had to move on the
  disk to grow; both report the number of bytes, and leave the locks of the file and of its directory free.\<close>

theorem fs_write_read:
  assumes "inodes s a = Some nd" and "iparent nd = Some b" and "inodes s b = Some p" and "a \<noteq> b"
    and "ilock nd = krwlock_init" and "ilock p = krwlock_init" and "isvalid nd \<noteq> 0"
    and "file_is (vol s) nd xs" and "below (vol s) nd (Some p)" and "unat frm \<le> length xs"
    and "unat frm + length bs \<le> 2147483136"
    and "unat (balloc_ptr (vol s)) + sectors_to (unat frm + length bs) + 1 \<le> 268435456"
  shows "\<exists>s1 s2. fs_write s a (List.map Some bs) frm (of_nat (length bs)) = Some (s1, int (length bs)) \<and>
    fs_read s1 a frm (of_nat (length bs)) = Some (s2, List.map Some bs, int (length bs)) \<and>
    (\<exists>nd' p'. inodes s2 a = Some nd' \<and> ilock nd' = krwlock_init \<and> inodes s2 b = Some p' \<and> ilock p' = krwlock_init)"
proof -
  let ?k = "of_nat (length bs) :: u32" and ?W = "krwlock_write_in krwlock_init" and ?R = "fst (krwlock_read_in krwlock_init)"
  have u: "unat ?k = length bs" using assms(11) by (intro unat_of_nat32) simp
  have si: "sint ?k = int (length bs)" using assms(11) by (intro sint_of_nat32) simp
  let ?p1 = "p\<lparr>ilock := ?W\<rparr>" and ?n1 = "nd\<lparr>ilock := ?W\<rparr>"
  let ?s1 = "put_node s b ?p1"
  let ?s2 = "put_node ?s1 a ?n1"
  have lp: "fs_node_wrlock s (Some b) = Some ?s1" using assms(3,6) by (subst node_locks(1)) simp_all
  have la: "fs_node_wrlock ?s1 (Some a) = Some ?s2" using assms(1,4,5) by (subst node_locks(1)) simp_all
  have f: "file_is (vol s) ?n1 xs" using assms(8) by simp
  have bl: "below (vol s) ?n1 (Some ?p1)" using assms(9) by (auto simp: below_def)
  have h: "holds (List.map Some bs) bs" by (simp add: holds_def)
  obtain v' nd' where w: "inode_write (vol s, ?n1, Some ?p1) frm (List.map Some bs) ?k = Some (v', nd', Some ?p1)"
    "file_is v' nd' (splice xs (unat frm) bs)" "same_node ?n1 nd'"
    using inode_write_any [OF f bl h, of ?k frm, unfolded u, OF refl assms(10-12)] by blast
  have nd': "isvalid nd' = isvalid nd" "ilock nd' = ?W" "iparent nd' = Some b"
    using same_node_fields [OF w(3)] assms(2) by simp_all
  let ?s3 = "put_node (put_node (?s2\<lparr>vol := v'\<rparr>) a nd') b ?p1"
  let ?s4 = "put_node ?s3 b (p\<lparr>ilock := krwlock_init\<rparr>)"
  let ?s5 = "put_node ?s4 a (nd'\<lparr>ilock := krwlock_init\<rparr>)"
  have up: "fs_node_unlock ?s3 (Some b) = Some ?s4" by (subst node_unlock [of _ b ?p1]) simp_all
  have ua: "fs_node_unlock ?s4 (Some a) = Some ?s5"
    using nd'(2) assms(4) by (subst node_unlock [of _ a nd']) simp_all
  have wr: "fs_write s a (List.map Some bs) frm ?k = Some (?s5, int (length bs))"
    using assms(1,2,4,7) by (simp add: fs_write_def lp la get_opt_def put_opt_def w(1) up ua si)
  let ?m = "nd'\<lparr>ilock := ?R\<rparr>"
  let ?s6 = "put_node ?s5 a ?m"
  let ?s7 = "put_node ?s6 a (nd'\<lparr>ilock := krwlock_init\<rparr>)"
  have lr: "fs_node_rdlock ?s5 (Some a) = Some ?s6" by (subst node_locks(2) [of _ a "nd'\<lparr>ilock := krwlock_init\<rparr>"]) simp_all
  have ur: "fs_node_unlock ?s6 (Some a) = Some ?s7" by (subst node_unlock [of _ a ?m]) simp_all
  have fm: "file_is v' ?m (splice xs (unat frm) bs)" using w(2) by simp
  have len: "length (splice xs (unat frm) bs) = max (length xs) (unat frm + length bs)" by (rule length_splice [OF assms(10)])
  have tk: "take (length bs) (drop (unat frm) (splice xs (unat frm) bs)) = bs" using assms(10) by (simp add: splice_def)
  have mn: "min (length bs) (max (length xs) (unat frm + length bs) - unat frm) = length bs" by (auto simp: max_def min_def)
  have "inode_read v' ?m frm ?k = Some (List.map Some bs, ?k)"
    using inode_read_file [OF fm, of frm ?k] assms(10,11) unfolding u len tk mn by simp
  then have rd: "fs_read ?s5 a frm ?k = Some (?s7, List.map Some bs, int (length bs))"
    using assms(7) nd'(1) by (simp add: fs_read_def lr ur si)
  show ?thesis using wr rd assms(4) by (intro exI [of _ ?s5] exI [of _ ?s7]) simp
qed

theorem fs_write_read_witness:
  "\<exists>s s1 s2. fs_write s 1 [Some 104, Some 105] 0 2 = Some (s1, 2) \<and> fs_read s1 1 0 2 = Some (s2, [Some 104, Some 105], 2)"
proof -
  obtain v nd p where c: "inode_create 0 vol0 file0 (Some root0) None [97] = Some (v, nd, Some p, None)"
    "file_is v nd []" "stored v nd" "dir_is v p [([97], index nd)]" "stored v p" "pathbuf_name (ipath nd) = Some (Some [97])"
    "node_sectors nd \<inter> node_sectors p = {}" "unat (balloc_ptr v) \<le> 100"
    "ilock nd = krwlock_init" "isvalid nd = 1" "ilock p = krwlock_init" by (rule vol0_create_full)
  let ?nd = "nd\<lparr>iparent := Some 0\<rparr>"
  let ?s = "\<lparr>vol = v, inodes = (\<lambda>_. None)(0 := Some p, 1 := Some ?nd),
     inodelist = \<lparr>buffer = [Some 0, Some 1], size_v = 2, cap = 2\<rparr>, next_node = 2, raw_node = root0\<rparr> :: fs"
  have "file_is v ?nd []" "below v ?nd (Some p)"
    using c(2,4,6,7) by (auto simp: file_is_def node_ok_def below_def node_sectors_def)
  then have "\<exists>s1 s2. fs_write ?s 1 (List.map Some [104, 105]) 0 (of_nat (length [104 :: u8, 105])) = Some (s1, int (length [104 :: u8, 105])) \<and>
    fs_read s1 1 0 (of_nat (length [104 :: u8, 105])) = Some (s2, List.map Some [104, 105], int (length [104 :: u8, 105])) \<and>
    (\<exists>nd' p'. inodes s2 1 = Some nd' \<and> ilock nd' = krwlock_init \<and> inodes s2 0 = Some p' \<and> ilock p' = krwlock_init)"
    using c(8-11) by (intro fs_write_read [where nd = ?nd and p = p and xs = "[]"]) (simp_all add: sectors_to_def)
  then obtain s1 s2 where "fs_write ?s 1 [Some 104, Some 105] 0 2 = Some (s1, 2)"
    "fs_read s1 1 0 2 = Some (s2, [Some 104, Some 105], 2)" by auto
  then show ?thesis by blast
qed

subsection \<open>Starting again\<close>

lemma rd_u32_stored_word: "rd_u32 (List.map Some (u32_bytes w) @ rest) 0 = Some w"
  using rd_u32_holds [of "List.map Some (u32_bytes w) @ rest" "[]" w "[]"] by (simp add: holds_iff)

lemma copy_stored_word:
  "copy_cells (fresh 512) (List.map Some (u32_bytes w) @ fresh 508) 0 512 = Some (List.map Some (u32_bytes w) @ fresh 508)"
  by (simp add: copy_cells_def)

lemma binit_stored:
  assumes "balloc_stored v" and "balloc_ptr v \<noteq> 0"
  shows "binit (v\<lparr>balloc_ptr := x, balloc_lock := krwlock_init\<rparr>) = Some (v\<lparr>balloc_lock := krwlock_init\<rparr>)"
proof -
  have "balloc_fetch (v\<lparr>balloc_ptr := x, balloc_lock := krwlock_init\<rparr>) = Some (v\<lparr>balloc_lock := krwlock_init\<rparr>)"
    using assms(1) unfolding balloc_stored_def
    by (cases v) (simp add: balloc_fetch_def free_lock copy_stored_word rd_u32_stored_word)
  then show ?thesis using assms(2) by (simp add: binit_def)
qed

text \<open>C7. What a start finds on the disk of a volume that was in use is the same volume: the allocation pointer,
  which was only kept in memory, and the root directory at its current place, with no sector written.\<close>

theorem fs_init_recovers:
  assumes "balloc_stored v" and "balloc_ptr v \<noteq> 0" and "stored v nd" and "isvalid nd \<noteq> 0" and "index nd \<noteq> 0"
    and "rd_sector (vdisk v) ROOT_INDEX_SECTOR = List.map Some (u32_bytes (index nd)) @ fresh 508"
  shows "\<exists>s' rn. fs_init (s\<lparr>vol := v\<lparr>balloc_ptr := x\<rparr>\<rparr>) = Some s' \<and> vol s' = v\<lparr>balloc_lock := krwlock_init\<rparr> \<and>
    vec_list (inodelist s') = [next_node s] \<and> inodes s' (next_node s) = Some rn \<and> rn = fetched nd rn \<and>
    ipath rn = pathbuf_root \<and> refs rn = 1 \<and> ilock rn = krwlock_init"
proof -
  let ?v = "v\<lparr>balloc_lock := krwlock_init\<rparr>" and ?a = "next_node s"
  let ?raw = "(raw_node s)\<lparr>refs := 1, iparent := None, ipath := pathbuf_root\<rparr>"
  obtain l where l: "vec_push (vec_new :: nat vec) ?a = Some l" "vec_list l = [?a]"
    using vec_push_list [of "vec_new :: nat vec" ?a] by (auto simp: vec_new_list vec_new_room)
  let ?n1 = "?raw\<lparr>ilock := krwlock_init\<rparr>"
  have "stored ?v nd" using assms(3) by (simp add: stored_def)
  then have fet: "inode_fetch ?v (index nd) ?n1 = Some (fetched nd ?n1)" by (rule inode_fetch_stored)
  have new: "\<exists>t. inode_new (s\<lparr>vol := ?v, inodelist := vec_new\<rparr>) pathbuf_root = Some (t, ?a) \<and> vol t = ?v \<and>
      inodelist t = l \<and> inodes t ?a = Some ?n1"
    using l(1) by (simp add: inode_new_def inodelist_add_def Let_def)
  then obtain t where t: "inode_new (s\<lparr>vol := ?v, inodelist := vec_new\<rparr>) pathbuf_root = Some (t, ?a)" "vol t = ?v"
    "inodelist t = l" "inodes t ?a = Some ?n1" by blast
  have "isvalid (fetched nd ?n1) \<noteq> 0" using assms(4) by (simp add: fetched_def)
  then have "fs_init (s\<lparr>vol := v\<lparr>balloc_ptr := x\<rparr>\<rparr>) = Some (put_node t ?a (fetched nd ?n1))"
    using binit_stored [OF assms(1,2), of x] assms(5,6) t fet
    by (simp add: fs_init_def copy_stored_word rd_u32_stored_word)
  then show ?thesis using t l(2) by (intro exI [of _ "put_node t ?a (fetched nd ?n1)"] exI [of _ "fetched nd ?n1"])
    (simp add: fetched_def)
qed

theorem fs_init_recovers_witness:
  "\<exists>v s'. fs_init (fs1\<lparr>vol := v\<lparr>balloc_ptr := 0\<rparr>\<rparr>) = Some s' \<and> balloc_ptr (vol s') = 3"
proof -
  let ?d = "(\<lambda>_. fresh 512)(0 := List.map Some (u32_bytes 3) @ fresh 508, 1 := List.map Some (u32_bytes 2) @ fresh 508,
    2 := inode_cells root0) :: disk"
  let ?v = "vol0\<lparr>vdisk := ?d\<rparr>"
  have d: "disk_at 0 = 0" "disk_at 1 = 1" "disk_at 2 = 2" by (simp_all add: disk_at_def)
  have "balloc_stored ?v" "balloc_ptr ?v \<noteq> 0" "stored ?v root0" "isvalid root0 \<noteq> 0" "index root0 \<noteq> 0"
    "rd_sector (vdisk ?v) ROOT_INDEX_SECTOR = List.map Some (u32_bytes (index root0)) @ fresh 508"
    by (simp_all add: balloc_stored_def stored_def rd_sector_def d BALLOC_SECTOR_def ROOT_INDEX_SECTOR_def vol0_def root0_def)
  from fs_init_recovers [OF this, where s = fs1 and x = 0] obtain s' where "fs_init (fs1\<lparr>vol := ?v\<lparr>balloc_ptr := 0\<rparr>\<rparr>) = Some s'"
    "vol s' = ?v\<lparr>balloc_lock := krwlock_init\<rparr>" by blast
  then show ?thesis by (intro exI [of _ ?v] exI [of _ s']) (simp add: vol0_def)
qed

end
