(* ===== verification/Pipe.thy ===== *)
theory Pipe
  imports Lock
begin

text \<open>
  \<open>src/pipe.c\<close> and \<open>src/mq.c\<close>: message pipes, and the list of named ones. A message is the
  bytes the writer passed; the reader takes a message up to its first zero byte, as \<open>strlen\<close>
  does. The queue of messages is the list a \<open>kqueue_t\<close> holds.
\<close>

type_synonym message = "u8 list"

record pipe =
  msgs :: "message list"
  reader_count :: u32
  writer_count :: u32
  dead :: bool
  lock :: ksemaphore

definition pipe_new :: pipe where
  "pipe_new = \<lparr>msgs = [], reader_count = 1, writer_count = 1, dead = False, lock = ksemaphore_init 0\<rparr>"

definition pipe_write :: "pipe \<Rightarrow> message \<Rightarrow> pipe \<times> task option" where
  "pipe_write p buf =
     (if reader_count p = 0 then (p, None)
      else let (sem, woken) = ksemaphore_signal (lock p)
           in (p\<lparr>msgs := msgs p @ [buf], lock := sem\<rparr>, woken))"

text \<open>\<open>pipe_read\<close> up to where it can sleep: it returns 0 at once (\<open>None\<close>), or has waited for the
  lock, and the flag tells whether it sleeps.\<close>

definition pipe_read_wait :: "pipe \<Rightarrow> task \<Rightarrow> (pipe \<times> bool) option" where
  "pipe_read_wait p t =
     (if msgs p = [] \<and> writer_count p = 0 then None
      else let (sem, sleeps) = ksemaphore_wait (lock p) t in Some (p\<lparr>lock := sem\<rparr>, sleeps))"

text \<open>The rest of \<open>pipe_read\<close>: \<open>None\<close> when it looks at the head of an empty queue, otherwise the
  bytes it copies to the buffer of \<open>len\<close> bytes.\<close>

definition pipe_read_take :: "pipe \<Rightarrow> nat \<Rightarrow> (pipe \<times> u8 list \<times> task option) option" where
  "pipe_read_take p len =
     (case msgs p of
        [] \<Rightarrow> None
      | m # ms \<Rightarrow>
          let input = takeWhile (\<lambda>c. c \<noteq> 0) m;
              count = min len (length input)
          in if len < length input then
               let (sem, woken) = ksemaphore_signal (lock p)
               in Some (p\<lparr>msgs := drop len input # ms, lock := sem\<rparr>, take count input, woken)
             else Some (p\<lparr>msgs := ms\<rparr>, take count input, None))"

definition pipe_destroy :: "pipe \<Rightarrow> pipe" where
  "pipe_destroy p = p\<lparr>msgs := []\<rparr>"

text \<open>Closing an end; the result tells whether the pipe is dead.\<close>

definition pipe_close_rd :: "pipe \<Rightarrow> pipe \<times> bool" where
  "pipe_close_rd p =
     (let p = p\<lparr>reader_count := reader_count p - 1\<rparr>
      in if reader_count p = 0 \<and> writer_count p = 0 then (pipe_destroy p\<lparr>dead := True\<rparr>, True) else (p, False))"

definition pipe_close_wr :: "pipe \<Rightarrow> pipe \<times> bool" where
  "pipe_close_wr p =
     (let p = p\<lparr>writer_count := writer_count p - 1\<rparr>
      in if reader_count p = 0 \<and> writer_count p = 0 then (pipe_destroy p\<lparr>dead := True\<rparr>, True) else (p, False))"

subsection \<open>Tasks that share a pipe\<close>

text \<open>A task may be asleep in a read of \<open>len\<close> bytes. \<open>sent\<close> and \<open>got\<close> are the bytes the writers
  have put in and the readers have taken out, in order.\<close>

record pipe_sys =
  the_pipe :: pipe
  reading :: "task \<rightharpoonup> nat"
  sent :: "u8 list"
  got :: "u8 list"

inductive pipe_step :: "pipe_sys \<Rightarrow> pipe_sys \<Rightarrow> bool" where
  put: "buf \<noteq> [] \<Longrightarrow> 0 \<notin> set buf \<Longrightarrow> pipe_write (the_pipe s) buf = (p, w) \<Longrightarrow>
    pipe_step s (s\<lparr>the_pipe := p, sent := (if reader_count (the_pipe s) = 0 then sent s else sent s @ buf)\<rparr>)"
| read_now: "t \<notin> dom (reading s) \<Longrightarrow> 0 < len \<Longrightarrow> pipe_read_wait (the_pipe s) t = Some (p, False) \<Longrightarrow>
    pipe_read_take p len = Some (p', bs, w) \<Longrightarrow>
    pipe_step s (s\<lparr>the_pipe := p', got := got s @ bs\<rparr>)"
| read_sleep: "t \<notin> dom (reading s) \<Longrightarrow> 0 < len \<Longrightarrow> pipe_read_wait (the_pipe s) t = Some (p, True) \<Longrightarrow>
    pipe_step s (s\<lparr>the_pipe := p, reading := (reading s)(t \<mapsto> len)\<rparr>)"
| read_resume: "reading s t = Some len \<Longrightarrow> t \<notin> set (sq (lock (the_pipe s))) \<Longrightarrow>
    pipe_read_take (the_pipe s) len = Some (p', bs, w) \<Longrightarrow>
    pipe_step s (s\<lparr>the_pipe := p', reading := (reading s)(t := None), got := got s @ bs\<rparr>)"
| close_rd: "pipe_close_rd (the_pipe s) = (p, False) \<Longrightarrow> pipe_step s (s\<lparr>the_pipe := p\<rparr>)"
| close_wr: "pipe_close_wr (the_pipe s) = (p, False) \<Longrightarrow> pipe_step s (s\<lparr>the_pipe := p\<rparr>)"
| share_rd: "pipe_step s (s\<lparr>the_pipe := (the_pipe s)\<lparr>reader_count := reader_count (the_pipe s) + 1\<rparr>\<rparr>)"
| share_wr: "pipe_step s (s\<lparr>the_pipe := (the_pipe s)\<lparr>writer_count := writer_count (the_pipe s) + 1\<rparr>\<rparr>)"

inductive pipe_reach :: "pipe_sys \<Rightarrow> bool" where
  init: "pipe_reach \<lparr>the_pipe = pipe_new, reading = Map.empty, sent = [], got = []\<rparr>"
| step: "pipe_reach s \<Longrightarrow> pipe_step s s' \<Longrightarrow> pipe_reach s'"

text \<open>What is sent is what is taken or in the pipe.\<close>

definition pipe_inv :: "pipe_sys \<Rightarrow> bool" where
  "pipe_inv s \<longleftrightarrow> sent s = got s @ concat (msgs (the_pipe s)) \<and> (\<forall>m \<in> set (msgs (the_pipe s)). m \<noteq> [] \<and> 0 \<notin> set m)"

lemma read_wait_msgs: "pipe_read_wait p t = Some (p', b) \<Longrightarrow> msgs p' = msgs p"
  by (auto simp: pipe_read_wait_def split: if_splits prod.splits)

lemma read_take_msgs:
  assumes "pipe_read_take p len = Some (p', bs, w)" and "\<forall>m \<in> set (msgs p). m \<noteq> [] \<and> 0 \<notin> set m"
  shows "concat (msgs p) = bs @ concat (msgs p')" and "\<forall>m \<in> set (msgs p'). m \<noteq> [] \<and> 0 \<notin> set m"
proof -
  obtain m rest where m: "msgs p = m # rest" using assms(1) by (auto simp: pipe_read_take_def split: list.splits)
  then have nul: "takeWhile (\<lambda>c. c \<noteq> 0) m = m" using assms(2) by (simp add: takeWhile_eq_all_conv) metis
  obtain sem w' where sg: "ksemaphore_signal (lock p) = (sem, w')" by fastforce
  show "concat (msgs p) = bs @ concat (msgs p')" "\<forall>m \<in> set (msgs p'). m \<noteq> [] \<and> 0 \<notin> set m"
    using assms by (auto simp: pipe_read_take_def m nul sg Let_def split: if_splits dest: in_set_dropD)
qed

lemma close_fields:
  "pipe_close_rd p = (p', False) \<Longrightarrow> msgs p' = msgs p \<and> lock p' = lock p"
  "pipe_close_wr p = (p', False) \<Longrightarrow> msgs p' = msgs p \<and> lock p' = lock p"
  by (auto simp: pipe_close_rd_def pipe_close_wr_def Let_def split: if_splits)

lemma pipe_inv_step:
  assumes "pipe_inv s" and "pipe_step s s'"
  shows "pipe_inv s'"
  using assms(2)
proof cases
  case (put buf p w)
  then show ?thesis using assms(1) by (auto simp: pipe_inv_def pipe_write_def split: if_splits prod.splits)
next
  case (read_now t len p p' bs w)
  have m: "msgs p = msgs (the_pipe s)" by (rule read_wait_msgs [OF read_now(4)])
  then have "\<forall>m \<in> set (msgs p). m \<noteq> [] \<and> 0 \<notin> set m" using assms(1) by (simp add: pipe_inv_def)
  from read_take_msgs [OF read_now(5) this] show ?thesis
    using assms(1) unfolding read_now(1) m by (simp add: pipe_inv_def)
next
  case (read_sleep t len p)
  then show ?thesis using assms(1) read_wait_msgs [OF read_sleep(4)] by (simp add: pipe_inv_def)
next
  case (read_resume t len p' bs w)
  have "\<forall>m \<in> set (msgs (the_pipe s)). m \<noteq> [] \<and> 0 \<notin> set m" using assms(1) by (simp add: pipe_inv_def)
  from read_take_msgs [OF read_resume(4) this] show ?thesis
    using assms(1) unfolding read_resume(1) by (simp add: pipe_inv_def)
next
  case (close_rd p)
  then show ?thesis using assms(1) close_fields(1) by (simp add: pipe_inv_def)
next
  case (close_wr p)
  then show ?thesis using assms(1) close_fields(2) by (simp add: pipe_inv_def)
next
  case share_rd
  then show ?thesis using assms(1) by (simp add: pipe_inv_def)
next
  case share_wr
  then show ?thesis using assms(1) by (simp add: pipe_inv_def)
qed

lemma pipe_reach_inv: "pipe_reach s \<Longrightarrow> pipe_inv s"
proof (induction rule: pipe_reach.induct)
  case init
  then show ?case by (simp add: pipe_inv_def pipe_new_def)
qed (rule pipe_inv_step)

subsection \<open>The lock of a pipe\<close>

text \<open>Runs in which at most \<open>2\<^sup>3\<^sup>1\<close> readers wait and fewer than \<open>2\<^sup>3\<^sup>1\<close> messages are queued at a time, so
  that the value of the lock does not wrap.\<close>

definition pipe_small :: "pipe_sys \<Rightarrow> bool" where
  "pipe_small s \<longleftrightarrow> card (dom (reading s)) \<le> 2147483648 \<and> length (msgs (the_pipe s)) < 2147483648"

inductive pipe_run :: "pipe_sys \<Rightarrow> bool" where
  init: "pipe_run \<lparr>the_pipe = pipe_new, reading = Map.empty, sent = [], got = []\<rparr>"
| step: "pipe_run s \<Longrightarrow> pipe_step s s' \<Longrightarrow> pipe_small s' \<Longrightarrow> pipe_run s'"






text \<open>C30. A pipe is a byte stream between any number of writers and readers: however they run, sleep and
  wake up, what the readers have got, in the order they got it, followed by what is still in the
  pipe is what the writers have sent, as long as no message has a zero byte.\<close>

theorem pipe_is_stream:
  assumes "pipe_reach s"
  shows "sent s = got s @ concat (msgs (the_pipe s))"
  using pipe_reach_inv [OF assms] by (simp add: pipe_inv_def)

text \<open>Some steps: a reader sleeps, a writer sends, the reader wakes up and takes a part.\<close>

definition pipe_woken :: pipe_sys where
  "pipe_woken = \<lparr>the_pipe = pipe_new\<lparr>msgs := [[65, 66, 67]], lock := \<lparr>sq = [], sval = 0\<rparr>\<rparr>, reading = [4 \<mapsto> 2],
     sent = [65, 66, 67], got = []\<rparr>"

definition pipe_demo :: pipe_sys where
  "pipe_demo = \<lparr>the_pipe = pipe_new\<lparr>msgs := [[67]], lock := \<lparr>sq = [], sval = 1\<rparr>\<rparr>, reading = Map.empty,
     sent = [65, 66, 67], got = [65, 66]\<rparr>"

lemma pipe_woken_reach: "pipe_reach pipe_woken" "pipe_run pipe_woken"
proof -
  let ?s0 = "\<lparr>the_pipe = pipe_new, reading = Map.empty, sent = [], got = []\<rparr>"
  let ?p1 = "pipe_new\<lparr>lock := \<lparr>sq = [4], sval = -1\<rparr>\<rparr>"
  let ?s1 = "?s0\<lparr>the_pipe := ?p1, reading := [4 \<mapsto> 2]\<rparr>"
  have 1: "pipe_step ?s0 ?s1"
    using pipe_step.read_sleep [of 4 ?s0 2 ?p1]
    by (simp add: pipe_read_wait_def ksemaphore_wait_def pipe_new_def ksemaphore_init_def)
  have 2: "pipe_step ?s1 pipe_woken"
    using pipe_step.put [of "[65, 66, 67]" ?s1 "the_pipe pipe_woken" "Some 4"]
    by (simp add: pipe_write_def ksemaphore_signal_def pipe_new_def pipe_woken_def)
  show "pipe_reach pipe_woken" by (rule pipe_reach.step [OF pipe_reach.step [OF pipe_reach.init 1] 2])
  have "pipe_small ?s1" "pipe_small pipe_woken" by (simp_all add: pipe_small_def pipe_new_def pipe_woken_def)
  then show "pipe_run pipe_woken" using pipe_run.step [OF pipe_run.step [OF pipe_run.init 1] 2] by blast
qed

lemma pipe_demo_reach: "pipe_reach pipe_demo"
proof -
  have "pipe_step pipe_woken pipe_demo"
    using pipe_step.read_resume [of pipe_woken 4 2 "the_pipe pipe_demo" "[65, 66]" None]
    by (simp add: pipe_read_take_def ksemaphore_signal_def pipe_new_def pipe_demo_def pipe_woken_def)
  with pipe_woken_reach(1) show ?thesis by (rule pipe_reach.step)
qed

theorem pipe_is_stream_witness: "sent pipe_demo = got pipe_demo @ concat (msgs (the_pipe pipe_demo)) \<and> got pipe_demo = [65, 66]"
  using pipe_is_stream [OF pipe_demo_reach] by (simp add: pipe_demo_def)



text \<open>A message with a zero byte loses what follows it: the reader gets the bytes before it and the
  whole message is taken from the queue.\<close>

theorem pipe_read_cuts_at_zero:
  assumes "0 \<notin> set xs" and "length xs \<le> len" and "msgs p = (xs @ 0 # ys) # ms"
  shows "pipe_read_take p len = Some (p\<lparr>msgs := ms\<rparr>, xs, None)"
proof -
  have "takeWhile (\<lambda>c. c \<noteq> 0) (xs @ 0 # ys) = xs" using assms(1) by (induction xs) auto
  then show ?thesis using assms(2,3) by (simp add: pipe_read_take_def min_absorb2)
qed

theorem pipe_read_cuts_at_zero_witness:
  "pipe_read_take (pipe_new\<lparr>msgs := [[65, 0, 66]]\<rparr>) 10 = Some (pipe_new\<lparr>msgs := []\<rparr>, [65], None)"
  using pipe_read_cuts_at_zero [of "[65]" 10 "pipe_new\<lparr>msgs := [[65, 0, 66]]\<rparr>" "[66]" "[]"] by simp

subsection \<open>Named pipes\<close>

text \<open>\<open>mqlist_t\<close>: two vectors in step, the names and the addresses of the pipes; the pipes are in a
  store by address. Entry \<open>i\<close> of both vectors is entry \<open>i\<close> of the list.\<close>

record mqlist =
  entries :: "(u8 list \<times> nat) list"
  pipes :: "nat \<rightharpoonup> pipe"

definition mqlist_new :: mqlist where
  "mqlist_new = \<lparr>entries = [], pipes = Map.empty\<rparr>"

text \<open>The search: the entry of that name, or the first entry with a dead pipe. \<open>None\<close>: an entry's
  address has no pipe.\<close>

datatype mq_found = Found nat | Reuse nat | Missing

fun mq_search :: "(nat \<rightharpoonup> pipe) \<Rightarrow> u8 list \<Rightarrow> nat \<Rightarrow> nat option \<Rightarrow> (u8 list \<times> nat) list \<Rightarrow> mq_found option" where
  "mq_search ps name i free [] = Some (case free of Some j \<Rightarrow> Reuse j | None \<Rightarrow> Missing)"
| "mq_search ps name i free ((n, a) # es) = do {
     p \<leftarrow> ps a;
     if n = name then Some (Found a)
     else mq_search ps name (Suc i) (if free = None \<and> dead p then Some i else free) es
   }"

text \<open>Opening a name; \<open>addr\<close> is the address the heap gives if a pipe is allocated.\<close>

definition mqlist_open :: "mqlist \<Rightarrow> u8 list \<Rightarrow> nat \<Rightarrow> (mqlist \<times> nat) option" where
  "mqlist_open l name addr = do {
     r \<leftarrow> mq_search (pipes l) name 0 None (entries l);
     case r of
       Found a \<Rightarrow> do {
         p \<leftarrow> pipes l a;
         let p' = (if dead p then pipe_new
                   else p\<lparr>reader_count := reader_count p + 1, writer_count := writer_count p + 1\<rparr>);
         Some (l\<lparr>pipes := (pipes l)(a \<mapsto> p')\<rparr>, a)
       }
     | Reuse i \<Rightarrow>
         Some (l\<lparr>pipes := (pipes l)(addr \<mapsto> pipe_new), entries := (entries l)[i := (name, addr)]\<rparr>, addr)
     | Missing \<Rightarrow>
         Some (l\<lparr>pipes := (pipes l)(addr \<mapsto> pipe_new), entries := entries l @ [(name, addr)]\<rparr>, addr)
   }"

text \<open>Each name has one entry and each entry its own pipe.\<close>

definition mq_ok :: "mqlist \<Rightarrow> bool" where
  "mq_ok l \<longleftrightarrow> distinct (List.map fst (entries l)) \<and> distinct (List.map snd (entries l)) \<and>
     snd ` set (entries l) \<subseteq> dom (pipes l)"

definition dead_at :: "(nat \<rightharpoonup> pipe) \<Rightarrow> (u8 list \<times> nat) list \<Rightarrow> nat \<Rightarrow> bool" where
  "dead_at ps es k \<longleftrightarrow> dead (the (ps (snd (es ! k))))"

definition first_dead :: "(nat \<rightharpoonup> pipe) \<Rightarrow> (u8 list \<times> nat) list \<Rightarrow> nat \<Rightarrow> bool" where
  "first_dead ps es i \<longleftrightarrow> i < length es \<and> dead_at ps es i \<and> (\<forall>j < i. \<not> dead_at ps es j)"

lemma first_dead_Cons:
  "first_dead ps (e # es) 0 \<longleftrightarrow> dead (the (ps (snd e)))"
  "first_dead ps (e # es) (Suc k) \<longleftrightarrow> \<not> dead (the (ps (snd e))) \<and> first_dead ps es k"
  by (auto simp: first_dead_def dead_at_def nth_Cons' less_Suc_eq_0_disj)

lemma no_dead_Cons:
  "(\<forall>k < length (e # es). \<not> dead_at ps (e # es) k) \<longleftrightarrow>
    \<not> dead (the (ps (snd e))) \<and> (\<forall>k < length es. \<not> dead_at ps es k)"
  by (auto simp: dead_at_def nth_Cons' less_Suc_eq_0_disj)

text \<open>What the search finds from entry \<open>i\<close> on, when \<open>free\<close> is the dead entry before.\<close>

definition mq_found_ok :: "(nat \<rightharpoonup> pipe) \<Rightarrow> u8 list \<Rightarrow> nat \<Rightarrow> nat option \<Rightarrow> (u8 list \<times> nat) list \<Rightarrow> mq_found \<Rightarrow> bool" where
  "mq_found_ok ps name i free es r \<longleftrightarrow>
     (case r of Found a \<Rightarrow> (name, a) \<in> set es
      | Reuse j \<Rightarrow> name \<notin> fst ` set es \<and>
          (case free of Some k \<Rightarrow> j = k | None \<Rightarrow> \<exists>k. j = i + k \<and> first_dead ps es k)
      | Missing \<Rightarrow> name \<notin> fst ` set es \<and> free = None \<and> (\<forall>k < length es. \<not> dead_at ps es k))"

lemma mq_search_result:
  "snd ` set es \<subseteq> dom ps \<Longrightarrow> \<exists>r. mq_search ps name i free es = Some r \<and> mq_found_ok ps name i free es r"
proof (induction es arbitrary: i free)
  case (Cons e es)
  obtain n a where e: "e = (n, a)" by (cases e)
  then obtain p where p: "ps a = Some p" using Cons.prems by auto
  show ?case
  proof (cases "n = name")
    case True
    then show ?thesis using p by (simp add: e mq_found_ok_def)
  next
    case False
    let ?free = "if free = None \<and> dead p then Some i else free"
    obtain r where r: "mq_search ps name (Suc i) ?free es = Some r" "mq_found_ok ps name (Suc i) ?free es r"
      using Cons.IH [of "Suc i" ?free] Cons.prems by auto
    have d: "dead (the (ps (snd e))) = dead p" by (simp add: e p)
    have "mq_found_ok ps name i free (e # es) r"
    proof (cases r)
      case (Reuse j)
      have "\<exists>k. j = i + k \<and> first_dead ps (e # es) k" if f: "free = None"
      proof (cases "dead p")
        case True
        then show ?thesis using r(2) Reuse f by (intro exI [of _ 0]) (simp add: mq_found_ok_def first_dead_Cons d)
      next
        case False
        then obtain k where "j = Suc i + k" "first_dead ps es k" using r(2) Reuse f by (auto simp: mq_found_ok_def)
        then show ?thesis using False by (intro exI [of _ "Suc k"]) (simp add: first_dead_Cons d)
      qed
      then show ?thesis using r(2) Reuse False by (auto simp: mq_found_ok_def e split: option.splits)
    next
      case Missing
      have m: "name \<notin> fst ` set es" "?free = None" "\<forall>k < length es. \<not> dead_at ps es k"
        using r(2) Missing by (simp_all add: mq_found_ok_def)
      then have f: "free = None" "\<not> dead p" by (auto split: if_splits)
      have "\<forall>k < length (e # es). \<not> dead_at ps (e # es) k" using no_dead_Cons m(3) f(2) d by blast
      then show ?thesis using m(1) f(1) Missing False by (simp add: mq_found_ok_def e)
    qed (use r(2) in \<open>simp add: mq_found_ok_def\<close>)
    then show ?thesis using r(1) p False by (simp add: e)
  qed
qed (auto simp: mq_found_ok_def split: option.splits)

text \<open>C31. Opening a named pipe always succeeds on a consistent list and keeps it consistent. A name
  that has an entry gives the pipe of that entry, with one more reader and writer, or a new pipe
  there when the old one is dead, and the entries stay; another name gives a new pipe at the new
  address, in the first entry whose pipe is dead or, when there is none, in a new entry at the end. No
  other entry and no other pipe changes.\<close>

theorem mqlist_open_shares:
  assumes "mq_ok l" and "addr \<notin> dom (pipes l)"
  shows "\<exists>l' a. mqlist_open l name addr = Some (l', a) \<and> mq_ok l' \<and>
    (case map_of (entries l) name of
       Some b \<Rightarrow> a = b \<and> entries l' = entries l \<and>
         pipes l' = (pipes l)(b \<mapsto> (let p = the (pipes l b) in if dead p then pipe_new
           else p\<lparr>reader_count := reader_count p + 1, writer_count := writer_count p + 1\<rparr>))
     | None \<Rightarrow> a = addr \<and> pipes l' = (pipes l)(addr \<mapsto> pipe_new) \<and>
         ((\<exists>i. first_dead (pipes l) (entries l) i \<and> entries l' = (entries l)[i := (name, addr)]) \<or>
          (\<forall>i < length (entries l). \<not> dead_at (pipes l) (entries l) i) \<and> entries l' = entries l @ [(name, addr)]))"
proof -
  have ok: "distinct (List.map fst (entries l))" "distinct (List.map snd (entries l))" "snd ` set (entries l) \<subseteq> dom (pipes l)"
    using assms(1) by (simp_all add: mq_ok_def)
  obtain r where r: "mq_search (pipes l) name 0 None (entries l) = Some r"
    "mq_found_ok (pipes l) name 0 None (entries l) r"
    using mq_search_result [OF ok(3)] by blast
  have fresh: "addr \<notin> snd ` set (entries l)" using ok(3) assms(2) by blast
  show ?thesis
  proof (cases r)
    case (Found a)
    then have in_l: "(name, a) \<in> set (entries l)" using r(2) by (simp add: mq_found_ok_def)
    then obtain p where p: "pipes l a = Some p" using ok(3) by force
    have "map_of (entries l) name = Some a" using ok(1) in_l by simp
    then show ?thesis using r(1) Found p ok by (auto simp: mqlist_open_def mq_ok_def Let_def)
  next
    case (Reuse i)
    then have i: "first_dead (pipes l) (entries l) i" "name \<notin> fst ` set (entries l)"
      using r(2) by (auto simp: mq_found_ok_def)
    let ?e = "(entries l)[i := (name, addr)]"
    have "distinct (List.map fst ?e)" "distinct (List.map snd ?e)"
      using i ok(1,2) fresh by (simp_all add: map_update distinct_list_update)
    moreover have "snd ` set ?e \<subseteq> insert addr (dom (pipes l))"
      using image_mono [OF set_update_subset_insert, of snd "entries l" i "(name, addr)"] ok(3) by auto
    moreover have "map_of (entries l) name = None" using i(2) by (simp add: map_of_eq_None_iff)
    ultimately show ?thesis using r(1) Reuse i(1) by (auto simp: mqlist_open_def mq_ok_def)
  next
    case Missing
    then have i: "name \<notin> fst ` set (entries l)" "\<forall>i < length (entries l). \<not> dead_at (pipes l) (entries l) i"
      using r(2) by (simp_all add: mq_found_ok_def)
    then have "map_of (entries l) name = None" by (simp add: map_of_eq_None_iff)
    then show ?thesis using r(1) Missing i ok fresh by (auto simp: mqlist_open_def mq_ok_def)
  qed
qed

text \<open>A name is opened twice, and a third name takes the place of a dead pipe before a live one.\<close>

theorem mqlist_open_shares_witness:
  "\<exists>l1 l2 l3. mqlist_open mqlist_new [65] 8 = Some (l1, 8) \<and> mqlist_open l1 [65] 24 = Some (l2, 8) \<and>
    mqlist_open \<lparr>entries = [([65], 8), ([66], 24), ([67], 40)],
      pipes = [8 \<mapsto> pipe_new, 24 \<mapsto> pipe_new\<lparr>dead := True\<rparr>, 40 \<mapsto> pipe_new\<lparr>dead := True\<rparr>]\<rparr> [68] 56 = Some (l3, 56) \<and>
    entries l3 = [([65], 8), ([68], 56), ([67], 40)]"
proof -
  obtain l1 where l1: "mqlist_open mqlist_new [65] 8 = Some (l1, 8)" "mq_ok l1" "entries l1 = [([65], 8)]"
    "pipes l1 = [8 \<mapsto> pipe_new]"
    using mqlist_open_shares [of mqlist_new 8 "[65]"] by (auto simp: mq_ok_def mqlist_new_def first_dead_def)
  obtain l2 where l2: "mqlist_open l1 [65] 24 = Some (l2, 8)"
    using mqlist_open_shares [OF l1(2), of 24 "[65]"] l1(3,4) by auto
  let ?l = "\<lparr>entries = [([65], 8), ([66], 24), ([67], 40)],
    pipes = [8 \<mapsto> pipe_new, 24 \<mapsto> pipe_new\<lparr>dead := True\<rparr>, 40 \<mapsto> pipe_new\<lparr>dead := True\<rparr>]\<rparr> :: mqlist"
  have d: "dead_at (pipes ?l) (entries ?l) 1" "\<not> dead_at (pipes ?l) (entries ?l) 0"
    by (simp_all add: dead_at_def pipe_new_def)
  have one: "i = 1" if "first_dead (pipes ?l) (entries ?l) i" for i
    using that d unfolding first_dead_def by (metis less_one linorder_neqE_nat)
  have ok: "mq_ok ?l" "56 \<notin> dom (pipes ?l)" by (auto simp: mq_ok_def)
  have none: "map_of (entries ?l) [68] = None" by simp
  obtain l3 where l3: "mqlist_open ?l [68] 56 = Some (l3, 56)"
    "(\<exists>i. first_dead (pipes ?l) (entries ?l) i \<and> entries l3 = (entries ?l)[i := ([68], 56)]) \<or>
      (\<forall>i < length (entries ?l). \<not> dead_at (pipes ?l) (entries ?l) i) \<and> entries l3 = entries ?l @ [([68], 56)]"
    using mqlist_open_shares [OF ok, of "[68]"] unfolding none option.case by blast
  have "entries l3 = (entries ?l)[1 := ([68], 56)]" using l3(2) one d(1) by (auto simp del: One_nat_def)
  then show ?thesis using l1(1) l2 l3(1) by (intro exI [of _ l1] exI [of _ l2] exI [of _ l3]) simp
qed

end
