(* ===== verification/Descriptor.thy ===== *)
theory Descriptor
  imports Fs Pipe
begin

text \<open>
  \<open>src/descriptor.c\<close>: the table of open files of a task. A record refers to a node of the file system
  or to a pipe by its address; both live in the kernel heap and are shared between the tables of
  several tasks, so the operations that copy or close a record change the objects too.
\<close>

record objs =
  files :: fs
  pipes :: "nat \<Rightarrow> pipe option"

record fd =
  fd_kind :: u32
  fd_pos :: u32
  fd_isopen :: u8
  fd_access :: u8
  fd_ptr :: "nat option"

record fd_table =
  records :: "fd cells"
  fd_cap :: u32
  fd_size :: u32

definition FD_ACCESS_READ :: u8 where "FD_ACCESS_READ = 1"
definition FD_ACCESS_WRITE :: u8 where "FD_ACCESS_WRITE = 2"
definition FD_KIND_STDIN :: u32 where "FD_KIND_STDIN = 1"
definition FD_KIND_STDOUT :: u32 where "FD_KIND_STDOUT = 2"
definition FD_KIND_DISK :: u32 where "FD_KIND_DISK = 4"
definition FD_KIND_DIR :: u32 where "FD_KIND_DIR = 5"
definition FD_KIND_PIPE :: u32 where "FD_KIND_PIPE = 6"
definition FD_KIND_MQ :: u32 where "FD_KIND_MQ = 7"

text \<open>\<open>cap * sizeof(fd_t)\<close> bytes; a record has 16.\<close>

definition fd_alloc :: "u32 \<Rightarrow> fd cells" where
  "fd_alloc n = fresh (unat (n * 16) div 16)"

definition fd_table_create :: "u32 \<Rightarrow> fd_table" where
  "fd_table_create inital_size = \<lparr>records = fd_alloc inital_size, fd_cap = inital_size, fd_size = 0\<rparr>"

text \<open>The loop over the open records, and the operation.\<close>

fun skip_open :: "fd cells \<Rightarrow> nat \<Rightarrow> nat list \<Rightarrow> nat option" where
  "skip_open c n [] = Some n"
| "skip_open c n (i # js) = do { f \<leftarrow> rd c i; if fd_isopen f \<noteq> 0 then skip_open c n js else Some i }"

definition fd_table_add :: "fd_table \<Rightarrow> fd \<Rightarrow> (fd_table \<times> u32) option" where
  "fd_table_add t f = do {
     i \<leftarrow> skip_open (records t) (unat (fd_size t)) [0..<unat (fd_size t)];
     t \<leftarrow> (if i = unat (fd_size t) then do {
             t \<leftarrow> (if fd_cap t = fd_size t then do {
                     let c = fd_cap t * 2;
                     b \<leftarrow> copy_cells (fd_alloc c) (records t) 0 (unat (fd_size t * 16) div 16);
                     Some (t\<lparr>records := b, fd_cap := c\<rparr>)
                   } else Some t);
             Some (t\<lparr>fd_size := fd_size t + 1\<rparr>)
           } else Some t);
     b \<leftarrow> wr (records t) i (f\<lparr>fd_isopen := 1\<rparr>);
     Some (t\<lparr>records := b\<rparr>, of_nat i)
   }"

definition fd_table_rem :: "fd_table \<Rightarrow> nat \<Rightarrow> fd_table option" where
  "fd_table_rem t i = do {
     f \<leftarrow> rd (records t) i;
     b \<leftarrow> wr (records t) i (f\<lparr>fd_isopen := 0\<rparr>);
     Some (t\<lparr>records := b\<rparr>)
   }"

definition add_ref :: "fs \<Rightarrow> nat \<Rightarrow> fs option" where
  "add_ref s a = do { nd \<leftarrow> inodes s a; Some (put_node s a (nd\<lparr>refs := refs nd + 1\<rparr>)) }"

definition fd_table_clone_entry :: "objs \<Rightarrow> fd \<Rightarrow> (objs \<times> fd) option" where
  "fd_table_clone_entry w f =
     (if fd_kind f = FD_KIND_PIPE \<or> fd_kind f = FD_KIND_MQ then do {
        a \<leftarrow> fd_ptr f;
        p \<leftarrow> pipes w a;
        let p = (if fd_access f = FD_ACCESS_READ then p\<lparr>reader_count := reader_count p + 1\<rparr>
                 else p\<lparr>writer_count := writer_count p + 1\<rparr>);
        Some (w\<lparr>pipes := (pipes w)(a := Some p)\<rparr>, f)
      } else if fd_kind f = FD_KIND_DISK \<or> fd_kind f = FD_KIND_DIR then do {
        a \<leftarrow> fd_ptr f;
        nd \<leftarrow> inodes (files w) a;
        s \<leftarrow> (case iparent nd of None \<Rightarrow> Some (files w) | Some p \<Rightarrow> add_ref (files w) p);
        s \<leftarrow> add_ref s a;
        Some (w\<lparr>files := s\<rparr>, f)
      } else Some (w, f))"

definition fd_table_dup :: "objs \<Rightarrow> fd_table \<Rightarrow> u32 \<Rightarrow> (objs \<times> fd_table \<times> u32) option" where
  "fd_table_dup w t i =
     (if i \<ge> fd_size t then Some (w, t, - 1)
      else do {
        f \<leftarrow> rd (records t) (unat i);
        (w, f) \<leftarrow> fd_table_clone_entry w f;
        (t, j) \<leftarrow> fd_table_add t f;
        Some (w, t, j)
      })"

text \<open>A closed record of the copy has only \<open>isopen\<close> set; its other fields, which nothing looks at while
  it is closed, are put as 0.\<close>

definition closed_fd :: fd where
  "closed_fd = \<lparr>fd_kind = 0, fd_pos = 0, fd_isopen = 0, fd_access = 0, fd_ptr = None\<rparr>"

fun clone_records :: "objs \<Rightarrow> fd cells \<Rightarrow> fd cells \<Rightarrow> nat list \<Rightarrow> (objs \<times> fd cells) option" where
  "clone_records w c b [] = Some (w, b)"
| "clone_records w c b (i # js) = do {
     f \<leftarrow> rd c i;
     (w, f) \<leftarrow> (if fd_isopen f \<noteq> 0 then fd_table_clone_entry w f else Some (w, closed_fd));
     b \<leftarrow> wr b i f;
     clone_records w c b js
   }"

definition fd_table_clone :: "objs \<Rightarrow> fd_table \<Rightarrow> (objs \<times> fd_table) option" where
  "fd_table_clone w t = do {
     (w, b) \<leftarrow> clone_records w (records t) (fd_alloc (fd_cap t)) [0..<unat (fd_size t)];
     Some (w, \<lparr>records = b, fd_cap = fd_cap t, fd_size = fd_size t\<rparr>)
   }"

text \<open>Closing a record drops its use of the object; a pipe of \<open>pipe()\<close> that nobody uses is freed, one of the
  message queues stays for the next \<open>mqlist_open\<close>.\<close>

definition fd_table_close :: "objs \<Rightarrow> fd_table \<Rightarrow> u32 \<Rightarrow> (objs \<times> fd_table) option" where
  "fd_table_close w t i =
     (if i \<ge> fd_size t then Some (w, t)
      else do {
        f \<leftarrow> rd (records t) (unat i);
        if fd_isopen f = 0 then Some (w, t)
        else do {
          t \<leftarrow> fd_table_rem t (unat i);
          if fd_kind f = FD_KIND_DISK \<or> fd_kind f = FD_KIND_DIR then do {
            s \<leftarrow> fs_close (files w) (fd_ptr f);
            Some (w\<lparr>files := s\<rparr>, t)
          } else if fd_kind f = FD_KIND_PIPE \<or> fd_kind f = FD_KIND_MQ then do {
            a \<leftarrow> fd_ptr f;
            p \<leftarrow> pipes w a;
            let (p, died) = (if fd_access f = FD_ACCESS_READ then pipe_close_rd p else pipe_close_wr p);
            Some (w\<lparr>pipes := (pipes w)(a := (if died \<and> fd_kind f \<noteq> FD_KIND_MQ then None else Some p))\<rparr>, t)
          } else Some (w, t)
        }
      })"

subsection \<open>The table as a map\<close>

definition open_at :: "fd_table \<Rightarrow> nat \<Rightarrow> fd option" where
  "open_at t i = (if i < unat (fd_size t) then
     (case rd (records t) i of Some f \<Rightarrow> if fd_isopen f \<noteq> 0 then Some f else None | None \<Rightarrow> None) else None)"

definition fd_table_ok :: "fd_table \<Rightarrow> bool" where
  "fd_table_ok t \<longleftrightarrow> length (records t) = unat (fd_cap t) \<and> 0 < unat (fd_cap t) \<and> unat (fd_cap t) < 134217728 \<and>
     fd_size t \<le> fd_cap t \<and> (\<exists>fs. length fs = unat (fd_size t) \<and> holds (records t) fs)"

lemma unat_times_16: "unat (n :: u32) < 268435456 \<Longrightarrow> unat (n * 16) div 16 = unat n"
  by (simp add: unat_word_ariths)

lemma skip_open_first:
  assumes "\<forall>i \<in> set js. \<exists>f. rd c i = Some f"
  shows "\<exists>i. skip_open c n js = Some i \<and>
    (i \<in> set js \<and> (\<exists>f. rd c i = Some f \<and> fd_isopen f = 0) \<or> i = n \<and> (\<forall>j \<in> set js. \<forall>f. rd c j = Some f \<longrightarrow> fd_isopen f \<noteq> 0)) \<and>
    (sorted js \<longrightarrow> (\<forall>j \<in> set js. j < i \<longrightarrow> (\<forall>f. rd c j = Some f \<longrightarrow> fd_isopen f \<noteq> 0)))"
  using assms
proof (induction js)
  case (Cons j js)
  obtain f where f: "rd c j = Some f" using Cons.prems by auto
  show ?case
  proof (cases "fd_isopen f = 0")
    case True
    then show ?thesis using f by auto
  next
    case False
    then show ?thesis using f Cons by auto
  qed
qed simp

lemma open_at_list:
  assumes "holds (records t) fs" and "length fs = unat (fd_size t)"
  shows "open_at t i = (if i < length fs \<and> fd_isopen (fs ! i) \<noteq> 0 then Some (fs ! i) else None)"
  using assms by (simp add: open_at_def holds_rd)

lemma add_room:
  assumes "fd_table_ok t" and "unat (fd_size t) < 67108864" and "holds (records t) fs" and "length fs = unat (fd_size t)"
  shows "\<exists>b c. (if fd_cap t = fd_size t then do {
                     let c = fd_cap t * 2;
                     b \<leftarrow> copy_cells (fd_alloc c) (records t) 0 (unat (fd_size t * 16) div 16);
                     Some (t\<lparr>records := b, fd_cap := c\<rparr>)
                   } else Some t) = Some (t\<lparr>records := b, fd_cap := c\<rparr>) \<and> holds b fs \<and> length b = unat c \<and>
    unat (fd_size t) < unat c \<and> unat c < 134217728"
proof (cases "fd_cap t = fd_size t")
  case False
  then have "unat (fd_size t) < unat (fd_cap t)"
    using assms(1) by (metis fd_table_ok_def order_le_less word_less_nat_alt)
  then show ?thesis using False assms(1,3)
    by (intro exI [of _ "records t"] exI [of _ "fd_cap t"]) (simp add: fd_table_ok_def)
next
  case True
  have c: "unat (fd_cap t * 2) = 2 * unat (fd_cap t)" using assms(2) True by (simp add: unat_word_ariths)
  have l: "length (fd_alloc (fd_cap t * 2)) = 2 * unat (fd_cap t)"
    using unat_times_16 [of "fd_cap t * 2"] assms(2) True c by (simp add: fd_alloc_def mult.assoc)
  have s: "unat (fd_size t * 16) div 16 = length fs" using unat_times_16 [of "fd_size t"] assms(2,4) by simp
  have "length ([] :: fd list) + length fs \<le> length (fd_alloc (fd_cap t * 2))" using l assms(4) True by simp
  from copy_cells_holds [OF assms(3) holds_Nil this] obtain b where
    b: "copy_cells (fd_alloc (fd_cap t * 2)) (records t) 0 (length fs) = Some b" "holds b fs"
      "length b = length (fd_alloc (fd_cap t * 2))" by auto
  have "0 < unat (fd_cap t)" using assms(1) by (simp add: fd_table_ok_def)
  then show ?thesis using True b c l assms(2) s
    by (intro exI [of _ b] exI [of _ "fd_cap t * 2"]) (simp add: Let_def)
qed

lemma fd_table_okI:
  assumes "holds (records t) fs" and "length fs = unat (fd_size t)" and "length (records t) = unat (fd_cap t)"
    and "0 < unat (fd_cap t)" and "unat (fd_cap t) < 134217728"
  shows "fd_table_ok t"
  using assms holds_length [OF assms(1)] by (auto simp: fd_table_ok_def word_le_nat_alt)

lemma fd_table_add_ok:
  assumes "fd_table_ok t" and "unat (fd_size t) < 67108864"
  shows "\<exists>t' i. fd_table_add t f = Some (t', i) \<and> fd_table_ok t' \<and> open_at t (unat i) = None \<and>
    (\<forall>j < unat i. open_at t j \<noteq> None) \<and> open_at t' = (open_at t)(unat i \<mapsto> f\<lparr>fd_isopen := 1\<rparr>)"
proof -
  obtain fs where fs: "holds (records t) fs" "length fs = unat (fd_size t)" using assms(1) by (auto simp: fd_table_ok_def)
  let ?n = "unat (fd_size t)" and ?f = "f\<lparr>fd_isopen := 1\<rparr>"
  have cap: "length (records t) = unat (fd_cap t)" "0 < unat (fd_cap t)" "unat (fd_cap t) < 134217728"
    using assms(1) by (simp_all add: fd_table_ok_def)
  have "\<forall>i \<in> set [0..<?n]. \<exists>f. rd (records t) i = Some f" using holds_rd [OF fs(1)] fs(2) by auto
  from skip_open_first [OF this, of ?n] obtain i where i: "skip_open (records t) ?n [0..<?n] = Some i"
    "i < ?n \<and> (\<exists>f. rd (records t) i = Some f \<and> fd_isopen f = 0) \<or> i = ?n"
    "\<forall>j \<in> {0..<?n}. j < i \<longrightarrow> (\<forall>f. rd (records t) j = Some f \<longrightarrow> fd_isopen f \<noteq> 0)" by auto
  have below: "\<forall>j < i. open_at t j \<noteq> None"
    using i(2,3) fs(2) holds_rd [OF fs(1)] by (auto simp: open_at_list [OF fs])
  have ui: "unat (of_nat i :: u32) = i" using i(2) assms(2) by (intro unat_of_nat32) auto
  have "\<exists>t'. fd_table_add t f = Some (t', of_nat i) \<and> fd_table_ok t' \<and> open_at t i = None \<and> open_at t' = (open_at t)(i \<mapsto> ?f)"
  proof (cases "i = ?n")
    case False
    then have lt: "i < length fs" "fd_isopen (fs ! i) = 0" using i(2) fs(2) holds_rd [OF fs(1), of i] by auto
    obtain b where b: "wr (records t) i ?f = Some b" "holds b (fs[i := ?f])" "length b = length (records t)"
      using holds_wr [OF fs(1) lt(1)] by blast
    let ?t = "t\<lparr>records := b\<rparr>"
    have "fd_table_add t f = Some (?t, of_nat i)" using i(1) False b(1) by (simp add: fd_table_add_def)
    moreover have "fd_table_ok ?t" using b fs(2) cap by (intro fd_table_okI [of _ "fs[i := ?f]"]) simp_all
    moreover have "open_at ?t = (open_at t)(i \<mapsto> ?f)"
      using lt open_at_list [OF fs] open_at_list [of ?t "fs[i := ?f]"] b(2) fs(2)
      by (auto simp: fun_eq_iff nth_list_update)
    ultimately show ?thesis using lt open_at_list [OF fs, of i] by auto
  next
    case True
    obtain b c where g: "(if fd_cap t = fd_size t then do {
                     let c = fd_cap t * 2;
                     b \<leftarrow> copy_cells (fd_alloc c) (records t) 0 (unat (fd_size t * 16) div 16);
                     Some (t\<lparr>records := b, fd_cap := c\<rparr>)
                   } else Some t) = Some (t\<lparr>records := b, fd_cap := c\<rparr>)"
      and b: "holds b fs" "length b = unat c" "?n < unat c" "unat c < 134217728"
      using add_room [OF assms fs] by blast
    obtain b' where b': "wr b (length fs) ?f = Some b'" "holds b' (fs @ [?f])" "length b' = length b"
      using holds_wr_end [OF b(1), of ?f] b(2,3) fs(2) by auto
    let ?t = "t\<lparr>records := b', fd_cap := c, fd_size := fd_size t + 1\<rparr>"
    have sz: "unat (fd_size t + 1) = ?n + 1" using assms(2) by (subst unat_add_nowrap) simp_all
    have "fd_table_add t f = Some (?t, of_nat i)"
      unfolding fd_table_add_def i(1) bind.bind_lunit True g using b'(1) fs(2) by simp
    moreover have "fd_table_ok ?t" using b b' fs(2) sz by (intro fd_table_okI [of _ "fs @ [?f]"]) simp_all
    moreover have "open_at ?t = (open_at t)(i \<mapsto> ?f)"
      using True open_at_list [OF fs] open_at_list [of ?t "fs @ [?f]"] b'(2) fs(2) sz
      by (auto simp: fun_eq_iff nth_append)
    ultimately show ?thesis using True open_at_list [OF fs, of i] fs(2) by auto
  qed
  then show ?thesis using below ui by (metis)
qed

text \<open>A new record goes to the lowest place that is not open, growing the table when all are; it is open
  there and every other place is as it was.\<close>

theorem fd_table_add_lowest:
  assumes "fd_table_ok t" and "unat (fd_size t) < 67108864"
  shows "\<exists>t' i. fd_table_add t f = Some (t', i) \<and> fd_table_ok t' \<and> open_at t (unat i) = None \<and>
    (\<forall>j < unat i. open_at t j \<noteq> None) \<and> open_at t' = (open_at t)(unat i \<mapsto> f\<lparr>fd_isopen := 1\<rparr>)"
  using assms by (rule fd_table_add_ok)

theorem fd_table_add_lowest_witness:
  "\<exists>t i. fd_table_add (fd_table_create 2) closed_fd = Some (t, i) \<and> unat i = 0 \<and> open_at t 0 = Some (closed_fd\<lparr>fd_isopen := 1\<rparr>)"
proof -
  have "holds (records (fd_table_create 2)) []" by simp
  then have "fd_table_ok (fd_table_create 2)" by (rule fd_table_okI) (simp_all add: fd_table_create_def fd_alloc_def)
  moreover have "unat (fd_size (fd_table_create 2)) < 67108864" by (simp add: fd_table_create_def)
  ultimately obtain t i where t: "fd_table_add (fd_table_create 2) closed_fd = Some (t, i)"
    "\<forall>j < unat i. open_at (fd_table_create 2) j \<noteq> None"
    "open_at t = (open_at (fd_table_create 2))(unat i \<mapsto> closed_fd\<lparr>fd_isopen := 1\<rparr>)"
    using fd_table_add_lowest by blast
  have "open_at (fd_table_create 2) 0 = None" by (simp add: open_at_def fd_table_create_def)
  then have "unat i = 0" using t(2) by (metis not_gr_zero)
  then show ?thesis using t(1,3) by auto
qed

lemma open_at_rd: "open_at t i = Some f \<Longrightarrow> rd (records t) i = Some f \<and> fd_isopen f \<noteq> 0 \<and> i < unat (fd_size t)"
  by (auto simp: open_at_def split: option.splits if_splits)

lemma fd_table_rem_open:
  assumes "fd_table_ok t" and "open_at t i = Some f"
  shows "\<exists>t'. fd_table_rem t i = Some t' \<and> fd_table_ok t' \<and> open_at t' = (open_at t)(i := None)"
proof -
  obtain fs where fs: "holds (records t) fs" "length fs = unat (fd_size t)" using assms(1) by (auto simp: fd_table_ok_def)
  have i: "rd (records t) i = Some f" "i < length fs" using open_at_rd [OF assms(2)] fs(2) by simp_all
  let ?f = "f\<lparr>fd_isopen := 0\<rparr>"
  obtain b where b: "wr (records t) i ?f = Some b" "holds b (fs[i := ?f])" "length b = length (records t)"
    using holds_wr [OF fs(1) i(2)] by blast
  let ?t = "t\<lparr>records := b\<rparr>"
  have "fd_table_rem t i = Some ?t" using i(1) b(1) by (simp add: fd_table_rem_def)
  moreover have "fd_table_ok ?t"
    using b fs(2) assms(1) by (intro fd_table_okI [of _ "fs[i := ?f]"]) (simp_all add: fd_table_ok_def)
  moreover have "open_at ?t = (open_at t)(i := None)"
    using i(2) open_at_list [OF fs] open_at_list [of ?t "fs[i := ?f]"] b(2) fs(2)
    by (auto simp: fun_eq_iff nth_list_update)
  ultimately show ?thesis by blast
qed

definition is_pipe :: "fd \<Rightarrow> bool" where
  "is_pipe f \<longleftrightarrow> fd_kind f = FD_KIND_PIPE \<or> fd_kind f = FD_KIND_MQ"

definition pipe_uses :: "fd \<Rightarrow> pipe \<Rightarrow> u32" where
  "pipe_uses f p = (if fd_access f = FD_ACCESS_READ then reader_count p else writer_count p)"

lemma fd_kinds: "is_pipe f \<Longrightarrow> \<not> (fd_kind f = FD_KIND_DISK \<or> fd_kind f = FD_KIND_DIR)"
  by (auto simp: is_pipe_def FD_KIND_PIPE_def FD_KIND_MQ_def FD_KIND_DISK_def FD_KIND_DIR_def)

text \<open>C38. Duplicating an open end of a pipe gives another record for the same end, and closing the duplicate
  leaves the pipe, its counts of readers and writers, and all open records as they were before.\<close>

theorem fd_dup_then_close:
  assumes "fd_table_ok t" and "unat (fd_size t) < 67108864" and "open_at t (unat i) = Some f" and "is_pipe f"
    and "fd_ptr f = Some a" and "pipes w a = Some p" and "pipe_uses f p \<noteq> 0"
  shows "\<exists>w1 t1 j t2. fd_table_dup w t i = Some (w1, t1, j) \<and> open_at t (unat j) = None \<and>
    open_at t1 (unat j) = Some (f\<lparr>fd_isopen := 1\<rparr>) \<and> fd_table_close w1 t1 j = Some (w, t2) \<and> open_at t2 = open_at t"
proof -
  have i: "rd (records t) (unat i) = Some f" "unat i < unat (fd_size t)" using open_at_rd [OF assms(3)] by simp_all
  let ?p = "if fd_access f = FD_ACCESS_READ then p\<lparr>reader_count := reader_count p + 1\<rparr> else p\<lparr>writer_count := writer_count p + 1\<rparr>"
  let ?w = "w\<lparr>pipes := (pipes w)(a := Some ?p)\<rparr>"
  have cl: "fd_table_clone_entry w f = Some (?w, f)"
    using assms(4-6) by (simp add: fd_table_clone_entry_def is_pipe_def Let_def)
  let ?g = "f\<lparr>fd_isopen := 1\<rparr>"
  obtain t1 j where t1: "fd_table_add t f = Some (t1, j)" "fd_table_ok t1" "open_at t (unat j) = None"
    "open_at t1 = (open_at t)(unat j \<mapsto> ?g)" using fd_table_add_ok [OF assms(1,2)] by blast
  have dup: "fd_table_dup w t i = Some (?w, t1, j)"
    using i cl t1(1) by (simp add: fd_table_dup_def word_le_nat_alt)
  have o: "open_at t1 (unat j) = Some ?g" by (simp add: t1(4))
  obtain t2 where t2: "fd_table_rem t1 (unat j) = Some t2" "open_at t2 = (open_at t1)(unat j := None)"
    using fd_table_rem_open [OF t1(2) o] by blast
  have j: "rd (records t1) (unat j) = Some ?g" "unat j < unat (fd_size t1)" using open_at_rd [OF o] by simp_all
  have shut: "(if fd_access f = FD_ACCESS_READ then pipe_close_rd ?p else pipe_close_wr ?p) = (p, False)"
    using assms(7) by (auto simp: pipe_close_rd_def pipe_close_wr_def pipe_uses_def Let_def split: if_splits)
  have "\<not> (fd_kind ?g = FD_KIND_DISK \<or> fd_kind ?g = FD_KIND_DIR)" "fd_kind ?g = FD_KIND_PIPE \<or> fd_kind ?g = FD_KIND_MQ"
    using fd_kinds [OF assms(4)] assms(4) by (simp_all add: is_pipe_def)
  moreover have "w\<lparr>pipes := (pipes w)(a := Some p)\<rparr> = w" using assms(6) by (cases w) (simp add: fun_upd_idem)
  ultimately have "fd_table_close ?w t1 j = Some (w, t2)"
    using j t2(1) assms(5) shut by (simp add: fd_table_close_def word_le_nat_alt)
  moreover have "open_at t2 = open_at t" using t2(2) t1(3,4) by (auto simp: fun_eq_iff)
  ultimately show ?thesis using dup o t1(3) by blast
qed

theorem fd_dup_then_close_witness:
  "\<exists>w t w1 t1 j t2. fd_table_dup w t 0 = Some (w1, t1, j) \<and> fd_table_close w1 t1 j = Some (w, t2) \<and>
     open_at t2 = open_at t \<and> open_at t 0 \<noteq> None"
proof -
  let ?f = "\<lparr>fd_kind = FD_KIND_PIPE, fd_pos = 0, fd_isopen = 1, fd_access = FD_ACCESS_READ, fd_ptr = Some 0\<rparr>"
  let ?t = "\<lparr>records = [Some ?f, None], fd_cap = 2, fd_size = 1\<rparr>"
  let ?w = "\<lparr>files = s, pipes = (\<lambda>_. None)(0 := Some pipe_new)\<rparr>"
  have ok: "fd_table_ok ?t" by (rule fd_table_okI [of _ "[?f]"]) (simp_all add: holds_def)
  have o: "open_at ?t (unat (0 :: u32)) = Some ?f" by (simp add: open_at_def rd_def)
  have "is_pipe ?f" "pipe_uses ?f pipe_new \<noteq> 0" by (simp_all add: is_pipe_def pipe_uses_def pipe_new_def)
  then obtain w1 t1 j t2 where "fd_table_dup ?w ?t 0 = Some (w1, t1, j)" "fd_table_close w1 t1 j = Some (?w, t2)"
    "open_at t2 = open_at ?t"
    using fd_dup_then_close [OF ok _ o, where a = 0 and w = ?w and p = pipe_new] by auto
  moreover have "open_at ?t 0 \<noteq> None" using o by simp
  ultimately show ?thesis by blast
qed

end
