(* ===== verification/Task.thy ===== *)
theory Task
  imports Descriptor
begin

text \<open>
  \<open>src/task.c\<close>: the tasks, their queue, and switching between them. Tasks are objects at addresses;
  the list of tasks has the address under the process id, \<open>None\<close> a task that was reaped. What the
  assembly routines read from the processor is an argument, a \<open>context\<close>; a task that is switched
  back in goes on inside \<open>task_switch\<close> with \<open>eip\<close> read as \<open>0xffffffff\<close>, which is the function
  \<open>task_resume\<close>. The queue is the list a \<open>kqueue_t\<close> holds, and looking at the head of an empty
  queue has no result.
\<close>

record cpu_context =
  ebp :: u32
  esp :: u32
  eip :: u32

record task_t =
  pid :: u32
  saved :: cpu_context
  brk :: u32
  page_dir :: u32
  table :: fd_table
  cwd :: pathbuf
  tparent :: "nat option"
  exit_status :: "16 word"
  chwait :: "nat option"
  twait :: u8

record kernel =
  objs :: objs
  tasks :: "nat \<Rightarrow> task_t option"
  rr_queue :: "nat list"
  current_task :: nat
  current_page_directory :: u32
  buffers :: cpu_context
  tasklist :: "nat option vec"
  task_count :: u32
  next_task :: nat
  multitasking_flag :: u8

definition TASK_WAIT_NONE :: u8 where "TASK_WAIT_NONE = 1"
definition TASK_WAIT_PID :: u8 where "TASK_WAIT_PID = 2"
definition TASK_WAIT_ALL :: u8 where "TASK_WAIT_ALL = 3"
definition INIT_PID :: nat where "INIT_PID = 1"

definition put_task :: "kernel \<Rightarrow> nat \<Rightarrow> task_t \<Rightarrow> kernel" where
  "put_task k a t = k\<lparr>tasks := (tasks k)(a := Some t)\<rparr>"

definition queue_peek :: "'a list \<Rightarrow> 'a option" where
  "queue_peek q = (case q of [] \<Rightarrow> None | x # xs \<Rightarrow> Some x)"

subsection \<open>Switching\<close>

definition multk_getpid :: "kernel \<Rightarrow> u32 option" where
  "multk_getpid k = do { t \<leftarrow> tasks k (current_task k); Some (pid t) }"

definition task_curtask :: "kernel \<Rightarrow> nat option" where
  "task_curtask k = queue_peek (rr_queue k)"

definition task_switch :: "kernel \<Rightarrow> cpu_context \<Rightarrow> bool \<Rightarrow> kernel option" where
  "task_switch k c sleep =
     (if length (rr_queue k) = 1 then Some k
      else do {
        cur \<leftarrow> queue_peek (rr_queue k);
        t \<leftarrow> tasks k cur;
        let k = put_task (k\<lparr>rr_queue := tl (rr_queue k)\<rparr>) cur (t\<lparr>saved := c\<rparr>);
        let k = (if \<not> sleep then k\<lparr>rr_queue := rr_queue k @ [cur]\<rparr> else k);
        nextask \<leftarrow> queue_peek (rr_queue k);
        n \<leftarrow> tasks k nextask;
        Some (k\<lparr>buffers := saved n, current_task := nextask, current_page_directory := page_dir n\<rparr>)
      })"

text \<open>What a task that was switched out does first when it is switched in again.\<close>

definition task_resume :: "kernel \<Rightarrow> nat \<Rightarrow> kernel option" where
  "task_resume k cur = do {
     t \<leftarrow> tasks k cur;
     Some (put_task k cur (t\<lparr>saved := (saved t)\<lparr>eip := 0xffffffff\<rparr>\<rparr>))
   }"

definition task_awake :: "kernel \<Rightarrow> nat \<Rightarrow> kernel" where
  "task_awake k a = k\<lparr>rr_queue := rr_queue k @ [a]\<rparr>"

definition task_sleep :: "kernel \<Rightarrow> cpu_context \<Rightarrow> kernel option" where
  "task_sleep k c = task_switch k c True"

definition task_timer :: "kernel \<Rightarrow> cpu_context \<Rightarrow> kernel option" where
  "task_timer k c = task_switch k c False"

subsection \<open>Starting and copying\<close>

definition init_fdt :: "fd_table option" where
  "init_fdt = do {
     (t, _) \<leftarrow> fd_table_add (fd_table_create 2)
       \<lparr>fd_kind = FD_KIND_STDIN, fd_pos = 0, fd_isopen = 1, fd_access = FD_ACCESS_READ, fd_ptr = None\<rparr>;
     (t, _) \<leftarrow> fd_table_add t
       \<lparr>fd_kind = FD_KIND_STDOUT, fd_pos = 0, fd_isopen = 1, fd_access = FD_ACCESS_WRITE, fd_ptr = None\<rparr>;
     Some t
   }"

text \<open>The context of the first task is whatever is in memory, an argument here.\<close>

definition multitasking_init :: "kernel \<Rightarrow> cpu_context \<Rightarrow> kernel option" where
  "multitasking_init k junk = do {
     let a = next_task k;
     fdt \<leftarrow> init_fdt;
     let fst_task = \<lparr>pid = task_count k, saved = junk, brk = 0, page_dir = current_page_directory k, table = fdt, cwd = pathbuf_root,
       tparent = None, exit_status = - 1, chwait = None, twait = TASK_WAIT_NONE\<rparr>;
     l \<leftarrow> vec_push vec_new (Some a);
     Some (put_task (k\<lparr>task_count := task_count k + 1, rr_queue := [a], current_task := a, tasklist := l, next_task := a + 1,
       multitasking_flag := 1\<rparr>) a fst_task)
   }"

text \<open>\<open>task_fork\<close> in the parent; the copy of the address space is made by \<open>page_directory_clone\<close>, whose
  result is an argument. The child goes on in \<open>task_fork\<close> too and returns 0 there.\<close>

definition task_fork :: "kernel \<Rightarrow> cpu_context \<Rightarrow> u32 \<Rightarrow> (kernel \<times> u32) option" where
  "task_fork k c newdir = do {
     cur \<leftarrow> queue_peek (rr_queue k);
     t \<leftarrow> tasks k cur;
     let a = next_task k;
     (w, tab) \<leftarrow> fd_table_clone (objs k) (table t);
     pb \<leftarrow> pathbuf_copy (cwd t);
     let new = \<lparr>pid = task_count k, saved = c, brk = brk t, page_dir = newdir, table = tab, cwd = pb, tparent = Some cur,
       exit_status = - 1, chwait = None, twait = TASK_WAIT_NONE\<rparr>;
     l \<leftarrow> vec_push (tasklist k) (Some a);
     Some (put_task (k\<lparr>task_count := task_count k + 1, objs := w, rr_queue := rr_queue k @ [a], tasklist := l, next_task := a + 1\<rparr>) a new,
       pid new)
   }"

subsection \<open>The list of tasks\<close>

text \<open>The null pointer is the inner \<open>None\<close>; a place behind the buffer has no result.\<close>

definition task_gettask :: "kernel \<Rightarrow> u32 \<Rightarrow> nat option option" where
  "task_gettask k p = rd (buffer (tasklist k)) (unat p)"

text \<open>The loops look at the task behind every entry; behind the null pointer there is none.\<close>

fun zombie_search :: "kernel \<Rightarrow> nat \<Rightarrow> nat list \<Rightarrow> nat option option" where
  "zombie_search k a [] = Some None"
| "zombie_search k a (i # js) = do {
     e \<leftarrow> vec_get (tasklist k) i;
     c \<leftarrow> e;
     t \<leftarrow> tasks k c;
     if tparent t = Some a \<and> exit_status t \<noteq> - 1 then Some (Some c) else zombie_search k a js
   }"

definition task_find_zombie :: "kernel \<Rightarrow> nat \<Rightarrow> nat option option" where
  "task_find_zombie k a = zombie_search k a [0..<unat (size_v (tasklist k))]"

fun orphan_loop :: "kernel \<Rightarrow> nat \<Rightarrow> nat list \<Rightarrow> kernel option" where
  "orphan_loop k a [] = Some k"
| "orphan_loop k a (i # js) = do {
     e \<leftarrow> vec_get (tasklist k) i;
     c \<leftarrow> e;
     t \<leftarrow> tasks k c;
     k \<leftarrow> (if tparent t = Some a then do {
             ini \<leftarrow> rd (buffer (tasklist k)) INIT_PID;
             Some (put_task k c (t\<lparr>tparent := ini\<rparr>))
           } else Some k);
     orphan_loop k a js
   }"

definition task_orphan_all :: "kernel \<Rightarrow> nat \<Rightarrow> kernel option" where
  "task_orphan_all k a = orphan_loop k a [0..<unat (size_v (tasklist k))]"

text \<open>\<open>task_free\<close> gives the memory of the path, the table and the page directory back; the record itself is
  not freed.\<close>

definition task_killtask :: "kernel \<Rightarrow> nat \<Rightarrow> kernel option" where
  "task_killtask k a = do {
     t \<leftarrow> tasks k a;
     k \<leftarrow> task_orphan_all k a;
     b \<leftarrow> wr (buffer (tasklist k)) (unat (pid t)) None;
     Some (k\<lparr>tasklist := (tasklist k)\<lparr>buffer := b\<rparr>\<rparr>)
   }"

fun close_fds :: "kernel \<Rightarrow> nat \<Rightarrow> nat list \<Rightarrow> kernel option" where
  "close_fds k a [] = Some k"
| "close_fds k a (i # js) = do {
     t \<leftarrow> tasks k a;
     f \<leftarrow> rd (records (table t)) i;
     k \<leftarrow> (if fd_isopen f \<noteq> 0 then do {
             (w, tab) \<leftarrow> fd_table_close (objs k) (table t) (of_nat i);
             Some (put_task (k\<lparr>objs := w\<rparr>) a (t\<lparr>table := tab\<rparr>))
           } else Some k);
     close_fds k a js
   }"

definition task_close_all_fds :: "kernel \<Rightarrow> kernel option" where
  "task_close_all_fds k = do {
     a \<leftarrow> task_curtask k;
     t \<leftarrow> tasks k a;
     close_fds k a [0..<unat (fd_size (table t))]
   }"

subsection \<open>Round robin\<close>

text \<open>Timer interrupts one after the other, each with what the processor holds then.\<close>

fun run_timer :: "kernel \<Rightarrow> cpu_context list \<Rightarrow> kernel option" where
  "run_timer k [] = Some k"
| "run_timer k (c # cs) = do { k \<leftarrow> task_timer k c; run_timer k cs }"

definition queue_ok :: "kernel \<Rightarrow> bool" where
  "queue_ok k \<longleftrightarrow> distinct (rr_queue k) \<and> 2 \<le> length (rr_queue k) \<and> (\<forall>a \<in> set (rr_queue k). tasks k a \<noteq> None)"

definition saved_in :: "kernel \<Rightarrow> nat \<Rightarrow> cpu_context option" where
  "saved_in k a = map_option saved (tasks k a)"

lemma task_timer_rotates:
  assumes "queue_ok k"
  shows "\<exists>k'. task_timer k c = Some k' \<and> queue_ok k' \<and> rr_queue k' = rotate1 (rr_queue k) \<and>
    current_task k' = hd (rr_queue k') \<and> saved_in k' (current_task k') = Some (buffers k') \<and>
    saved_in k' = (saved_in k)(hd (rr_queue k) := Some c)"
proof -
  obtain a b r where q: "rr_queue k = a # b # r"
    using assms by (auto simp: queue_ok_def numeral_2_eq_2 Suc_le_length_iff)
  obtain t n where t: "tasks k a = Some t" "tasks k b = Some n" "a \<noteq> b" using assms q by (auto simp: queue_ok_def)
  have "task_timer k c = Some (put_task (k\<lparr>rr_queue := b # r\<rparr>) a (t\<lparr>saved := c\<rparr>)
    \<lparr>rr_queue := b # r @ [a], buffers := saved n, current_task := b, current_page_directory := page_dir n\<rparr>)"
    using t by (simp add: task_timer_def task_switch_def q queue_peek_def put_task_def)
  then show ?thesis using assms q t
    by (auto simp: queue_ok_def put_task_def saved_in_def fun_eq_iff)
qed

lemma run_timer_rotates:
  assumes "queue_ok k" and "cs \<noteq> []"
  shows "\<exists>k'. run_timer k cs = Some k' \<and> queue_ok k' \<and> rr_queue k' = rotate (length cs) (rr_queue k) \<and>
    current_task k' = hd (rr_queue k') \<and> saved_in k' (current_task k') = Some (buffers k')"
  using assms
proof (induction cs arbitrary: k)
  case (Cons c cs)
  obtain k1 where k1: "task_timer k c = Some k1" "queue_ok k1" "rr_queue k1 = rotate1 (rr_queue k)"
    "current_task k1 = hd (rr_queue k1)" "saved_in k1 (current_task k1) = Some (buffers k1)"
    using task_timer_rotates [OF Cons.prems(1)] by blast
  show ?case
  proof (cases "cs = []")
    case True
    then show ?thesis using k1 by simp
  next
    case False
    from Cons.IH [OF k1(2) this] show ?thesis using k1(1,3) by (simp add: rotate_Suc rotate1_rotate_swap)
  qed
qed simp

lemma run_timer_keeps:
  assumes "queue_ok k" and "a \<notin> set (take (length cs) (rr_queue k))" and "length cs \<le> length (rr_queue k)"
    and "run_timer k cs = Some k'"
  shows "saved_in k' a = saved_in k a"
  using assms
proof (induction cs arbitrary: k)
  case (Cons c cs)
  obtain k1 where k1: "task_timer k c = Some k1" "queue_ok k1" "rr_queue k1 = rotate1 (rr_queue k)"
    "saved_in k1 = (saved_in k)(hd (rr_queue k) := Some c)"
    using task_timer_rotates [OF Cons.prems(1)] by blast
  obtain h r where q: "rr_queue k = h # r" using Cons.prems(3) by (cases "rr_queue k") auto
  have "a \<notin> set (take (length cs) (rr_queue k1))" "length cs \<le> length (rr_queue k1)"
    using Cons.prems(2,3) k1(3) q by simp_all
  then have "saved_in k' a = saved_in k1 a" using Cons.IH [OF k1(2)] Cons.prems(4) k1(1) by simp
  then show ?case using k1(4) q Cons.prems(2) by simp
qed simp

text \<open>C35. The timer takes the ready tasks in turn: after \<open>j\<close> interrupts the task at place \<open>j\<close> of the queue
  runs, so each task runs again after as many interrupts as there are tasks, and then goes on with the
  registers it was interrupted with.\<close>

theorem task_timer_round_robin:
  assumes "queue_ok k" and "length cs = length (rr_queue k)"
  shows "(\<forall>j. 0 < j \<longrightarrow> j \<le> length cs \<longrightarrow> (\<exists>k'. run_timer k (take j cs) = Some k' \<and>
      current_task k' = rr_queue k ! (j mod length (rr_queue k)))) \<and>
    (\<exists>k'. run_timer k cs = Some k' \<and> current_task k' = hd (rr_queue k) \<and> buffers k' = hd cs)"
proof -
  let ?q = "rr_queue k"
  have len: "2 \<le> length ?q" using assms(1) by (simp add: queue_ok_def)
  have run: "\<exists>k'. run_timer k (take j cs) = Some k' \<and> current_task k' = ?q ! (j mod length ?q) \<and>
      saved_in k' (current_task k') = Some (buffers k')" if "0 < j" "j \<le> length cs" for j
  proof -
    have "take j cs \<noteq> []" "length (take j cs) = j" using that by auto
    moreover have "?q \<noteq> []" using len by auto
    ultimately show ?thesis using run_timer_rotates [OF assms(1), of "take j cs"] by (auto simp: hd_rotate_conv_nth)
  qed
  obtain k' where k': "run_timer k cs = Some k'" "current_task k' = ?q ! 0" "saved_in k' (current_task k') = Some (buffers k')"
    using run [of "length cs"] assms(2) len by fastforce
  obtain c cs' where cs: "cs = c # cs'" using assms(2) len by (cases cs) auto
  obtain h r where q: "?q = h # r" using len by (cases ?q) auto
  obtain k1 where k1: "task_timer k c = Some k1" "queue_ok k1" "rr_queue k1 = r @ [h]" "saved_in k1 = (saved_in k)(h := Some c)"
    using task_timer_rotates [OF assms(1), of c] q by auto
  have "h \<notin> set (take (length cs') (rr_queue k1))"
    using assms cs q k1(3) by (simp add: queue_ok_def)
  moreover have "length cs' \<le> length (rr_queue k1)" using assms(2) cs q k1(3) by simp
  moreover have "run_timer k1 cs' = Some k'" using k'(1) cs k1(1) by simp
  ultimately have "saved_in k' h = saved_in k1 h" by (rule run_timer_keeps [OF k1(2)])
  then have "buffers k' = c" using k'(2,3) q k1(4) by simp
  then show ?thesis using run k' cs q by (auto simp del: upt_Suc)
qed

definition task0 :: task_t where
  "task0 = \<lparr>pid = 0, saved = \<lparr>ebp = 0, esp = 0, eip = 0\<rparr>, brk = 0, page_dir = 0, table = fd_table_create 2, cwd = pathbuf_root,
     tparent = None, exit_status = - 1, chwait = None, twait = TASK_WAIT_NONE\<rparr>"

definition two_tasks :: "objs \<Rightarrow> kernel" where
  "two_tasks w = \<lparr>objs = w, tasks = (\<lambda>_. None)(0 := Some task0, 1 := Some (task0\<lparr>pid := 1, tparent := Some 0\<rparr>)), rr_queue = [0, 1],
     current_task = 0, current_page_directory = 0, buffers = \<lparr>ebp = 0, esp = 0, eip = 0\<rparr>,
     tasklist = \<lparr>buffer = [Some (Some 0), Some (Some 1)], size_v = 2, cap = 2\<rparr>, task_count = 2, next_task = 2, multitasking_flag = 1\<rparr>"

theorem task_timer_round_robin_witness:
  "\<forall>w. \<exists>k'. run_timer (two_tasks w) [\<lparr>ebp = 1, esp = 2, eip = 3\<rparr>, \<lparr>ebp = 4, esp = 5, eip = 6\<rparr>] = Some k' \<and> current_task k' = 0 \<and>
     eip (buffers k') = 3"
proof
  fix w
  have "queue_ok (two_tasks w)" by (simp add: queue_ok_def two_tasks_def)
  from task_timer_round_robin [OF this, of "[\<lparr>ebp = 1, esp = 2, eip = 3\<rparr>, \<lparr>ebp = 4, esp = 5, eip = 6\<rparr>]"]
  show "\<exists>k'. run_timer (two_tasks w) [\<lparr>ebp = 1, esp = 2, eip = 3\<rparr>, \<lparr>ebp = 4, esp = 5, eip = 6\<rparr>] = Some k' \<and> current_task k' = 0 \<and>
     eip (buffers k') = 3" by (auto simp: two_tasks_def)
qed

text \<open>When only one task is ready, \<open>task_sleep\<close> returns at once with the task still running and still
  in the queue; the wake-up that comes later then puts it into the queue a second time.\<close>

theorem task_sleep_alone:
  assumes "rr_queue k = [a]"
  shows "task_sleep k c = Some k \<and> task_curtask k = Some a \<and> rr_queue (task_awake k a) = [a, a]"
  using assms by (simp add: task_sleep_def task_switch_def task_curtask_def queue_peek_def task_awake_def)

theorem task_sleep_alone_witness:
  "\<forall>w. task_sleep ((two_tasks w)\<lparr>rr_queue := [0]\<rparr>) \<lparr>ebp = 1, esp = 2, eip = 3\<rparr> = Some ((two_tasks w)\<lparr>rr_queue := [0]\<rparr>)"
proof
  fix w
  show "task_sleep ((two_tasks w)\<lparr>rr_queue := [0]\<rparr>) \<lparr>ebp = 1, esp = 2, eip = 3\<rparr> = Some ((two_tasks w)\<lparr>rr_queue := [0]\<rparr>)"
    using task_sleep_alone [of "(two_tasks w)\<lparr>rr_queue := [0]\<rparr>" 0 "\<lparr>ebp = 1, esp = 2, eip = 3\<rparr>"] by simp
qed

end
