(* ===== verification/Paging.thy ===== *)
theory Paging
  imports Bitset Util
begin

text \<open>
  \<open>src/paging.c\<close>: physical frames, page tables and page directories. Tables and directories are
  objects at addresses; the addresses \<open>kmalloc_a\<close> gives are taken from a supply, and where it is empty
  the heap is full. The set of used frames is the bit array of \<open>Bitset\<close>, in flat memory of its own.
  The global \<open>current_page_directory\<close> is an argument, 0 before paging is on. \<open>paging_physcpy\<close> is
  assembly: it copies 1024 words of physical memory.
\<close>

record page =
  present :: "1 word"
  rw :: "1 word"
  user :: "1 word"
  accessed :: "1 word"
  dirty :: "1 word"
  unused :: "7 word"
  frame :: "20 word"

type_synonym page_table = "u32 \<Rightarrow> page"

record page_directory =
  tables :: "u32 \<Rightarrow> u32"
  tables_physical :: "u32 \<Rightarrow> u32"
  physical :: u32

record paging =
  frame_bits :: mem
  glb_frames :: bitset
  ptabs :: "u32 \<Rightarrow> page_table option"
  pdirs :: "u32 \<Rightarrow> page_directory option"
  pages_left :: "u32 list"
  kernel_page_directory :: u32
  phys :: mem

text \<open>A page is known by the address of its table and its index there.\<close>

type_synonym page_loc = "u32 \<times> u32"

definition no_page :: page where
  "no_page = \<lparr>present = 0, rw = 0, user = 0, accessed = 0, dirty = 0, unused = 0, frame = 0\<rparr>"

definition page_at :: "paging \<Rightarrow> page_loc \<Rightarrow> page option" where
  "page_at s l = map_option (\<lambda>p. p (snd l)) (ptabs s (fst l))"

definition put_page :: "paging \<Rightarrow> page_loc \<Rightarrow> page \<Rightarrow> paging" where
  "put_page s l pg = s\<lparr>ptabs := (ptabs s)(fst l := map_option (\<lambda>p. p(snd l := pg)) (ptabs s (fst l)))\<rparr>"

subsection \<open>Frames\<close>

definition alloc_frame :: "paging \<Rightarrow> page_loc \<Rightarrow> bool \<Rightarrow> bool \<Rightarrow> paging option" where
  "alloc_frame s l is_writable is_kernel = do {
     pg \<leftarrow> page_at s l;
     let idx = bitset_first_unset (frame_bits s) (glb_frames s);
     let s = s\<lparr>frame_bits := bitset_set (frame_bits s) (glb_frames s) idx 1\<rparr>;
     if idx = - 1 then Some s
     else Some (put_page s l (pg\<lparr>frame := ucast idx, present := 1, rw := (if is_writable then 1 else 0),
       user := (if is_kernel then 0 else 1)\<rparr>))
   }"

text \<open>\<open>frame\<close> is a signed bit field, so it is sign-extended where it is used as a number.\<close>

definition free_frame :: "paging \<Rightarrow> page_loc \<Rightarrow> paging option" where
  "free_frame s l = do {
     pg \<leftarrow> page_at s l;
     if frame pg \<noteq> 0 then
       Some (put_page (s\<lparr>frame_bits := bitset_set (frame_bits s) (glb_frames s) (scast (frame pg)) 0\<rparr>) l
         (pg\<lparr>frame := 0, present := 0\<rparr>))
     else Some s
   }"

definition frame_addr :: "page \<Rightarrow> u32" where
  "frame_addr pg = scast (frame pg) * 0x1000"

definition paging_physcpy :: "mem \<Rightarrow> u32 \<Rightarrow> u32 \<Rightarrow> mem" where
  "paging_physcpy m src dest =
     fold (\<lambda>i m. poke m (dest + of_nat (4 * i)) (mem_bytes m (src + of_nat (4 * i)) 4)) [0..<1024] m"

subsection \<open>Pages\<close>

definition new_table :: "paging \<Rightarrow> (paging \<times> u32) option" where
  "new_table s = (case pages_left s of [] \<Rightarrow> None
     | a # as \<Rightarrow> Some (s\<lparr>pages_left := as, ptabs := (ptabs s)(a := Some (\<lambda>_. no_page))\<rparr>, a))"

definition put_dir :: "paging \<Rightarrow> u32 \<Rightarrow> page_directory \<Rightarrow> paging" where
  "put_dir s a d = s\<lparr>pdirs := (pdirs s)(a := Some d)\<rparr>"

text \<open>\<open>get_page\<close> with \<open>get_physical_address\<close>, which it calls for a new table, written into it. The result
  is where the page is.\<close>

partial_function (option) get_page :: "u32 \<Rightarrow> paging \<Rightarrow> u32 \<Rightarrow> bool \<Rightarrow> u32 \<Rightarrow> (paging \<times> page_loc) option" where
  "get_page cur s address init dir = do {
     let address = address div 0x1000;
     let table_index = address div 1024;
     let entry_index = address mod 1024;
     d \<leftarrow> pdirs s dir;
     s \<leftarrow> (if tables d table_index = 0 then do {
             (s, t) \<leftarrow> new_table s;
             let s = put_dir s dir (d\<lparr>tables := (tables d)(table_index := t)\<rparr>);
             (s, pa) \<leftarrow> (if init \<or> cur = 0 then Some (s, t)
                else do {
                  (s, l) \<leftarrow> get_page cur s t False cur;
                  pg \<leftarrow> page_at s l;
                  Some (s, frame_addr pg + t mod 0x1000)
                });
             d \<leftarrow> pdirs s dir;
             Some (put_dir s dir (d\<lparr>tables_physical := (tables_physical d)(table_index := pa OR 7)\<rparr>))
           } else Some s);
     d \<leftarrow> pdirs s dir;
     Some (s, tables d table_index AND 0xFFFFF000, entry_index)
   }"

definition get_physical_address :: "u32 \<Rightarrow> paging \<Rightarrow> u32 \<Rightarrow> (paging \<times> u32) option" where
  "get_physical_address cur s virtual_address =
     (if cur \<noteq> 0 then do {
        (s, l) \<leftarrow> get_page cur s virtual_address False cur;
        pg \<leftarrow> page_at s l;
        Some (s, frame_addr pg + virtual_address mod 0x1000)
      } else Some (s, virtual_address))"

subsection \<open>Copies of tables and directories\<close>

fun clone_pages :: "paging \<Rightarrow> u32 \<Rightarrow> u32 \<Rightarrow> nat list \<Rightarrow> paging option" where
  "clone_pages s table new [] = Some s"
| "clone_pages s table new (i # js) = do {
     pg \<leftarrow> page_at s (table, of_nat i);
     s \<leftarrow> (if frame pg \<noteq> 0 then do {
             s \<leftarrow> alloc_frame s (new, of_nat i) False False;
             npg \<leftarrow> page_at s (new, of_nat i);
             let npg = npg\<lparr>rw := rw pg, accessed := accessed pg, present := present pg, user := user pg, dirty := dirty pg\<rparr>;
             let s = put_page s (new, of_nat i) npg;
             Some (s\<lparr>phys := paging_physcpy (phys s) (frame_addr pg) (frame_addr npg)\<rparr>)
           } else Some s);
     clone_pages s table new js
   }"

definition page_table_clone :: "paging \<Rightarrow> u32 \<Rightarrow> (paging \<times> u32) option" where
  "page_table_clone s table = do {
     (s, new) \<leftarrow> new_table s;
     s \<leftarrow> clone_pages s table new [0..<1024];
     Some (s, new)
   }"

fun clone_tables :: "u32 \<Rightarrow> paging \<Rightarrow> u32 \<Rightarrow> u32 \<Rightarrow> nat list \<Rightarrow> paging option" where
  "clone_tables cur s dir new [] = Some s"
| "clone_tables cur s dir new (i # js) = do {
     d \<leftarrow> pdirs s dir;
     n \<leftarrow> pdirs s new;
     let i = of_nat i;
     s \<leftarrow> (if tables d i \<noteq> 0 then do {
             k \<leftarrow> pdirs s (kernel_page_directory s);
             if tables d i = tables k i then
               Some (put_dir s new (n\<lparr>tables := (tables n)(i := tables d i),
                 tables_physical := (tables_physical n)(i := tables_physical d i)\<rparr>))
             else do {
               (s, t) \<leftarrow> page_table_clone s (tables d i);
               let n = n\<lparr>tables := (tables n)(i := t)\<rparr>;
               (s, pa) \<leftarrow> get_physical_address cur (put_dir s new n) t;
               n \<leftarrow> pdirs s new;
               Some (put_dir s new (n\<lparr>tables_physical := (tables_physical n)(i := pa OR 7)\<rparr>))
             }
           } else Some s);
     clone_tables cur s dir new js
   }"

definition no_dir :: page_directory where
  "no_dir = \<lparr>tables = (\<lambda>_. 0), tables_physical = (\<lambda>_. 0), physical = 0\<rparr>"

text \<open>A directory is placed at an address of the supply; \<open>tables_physical\<close> is 4096 bytes into it.\<close>

definition new_dir :: "paging \<Rightarrow> (paging \<times> u32) option" where
  "new_dir s = (case pages_left s of [] \<Rightarrow> None
     | a # as \<Rightarrow> Some (put_dir (s\<lparr>pages_left := as\<rparr>) a no_dir, a))"

definition page_directory_clone :: "u32 \<Rightarrow> paging \<Rightarrow> u32 \<Rightarrow> (paging \<times> u32) option" where
  "page_directory_clone cur s dir = do {
     (s, new) \<leftarrow> new_dir s;
     (s, pa) \<leftarrow> get_physical_address cur s new;
     n \<leftarrow> pdirs s new;
     s \<leftarrow> clone_tables cur (put_dir s new (n\<lparr>physical := pa + 4096\<rparr>)) dir new [0..<1024];
     Some (s, new)
   }"

subsection \<open>Turning paging on\<close>

text \<open>The loop runs over the pages below \<open>bound\<close>, the end of the kernel heap.\<close>

partial_function (option) map_kernel :: "paging \<Rightarrow> u32 \<Rightarrow> u32 \<Rightarrow> paging option" where
  "map_kernel s i bound =
     (if i < bound then do {
        (s, l) \<leftarrow> get_page 0 s i True (kernel_page_directory s);
        s \<leftarrow> alloc_frame s l False False;
        map_kernel s (i + 0x1000) bound
      } else Some s)"

text \<open>The result is also the new current directory; \<open>bits\<close> is where the bit array is put.\<close>

definition paging_init :: "paging \<Rightarrow> u32 \<Rightarrow> u32 \<Rightarrow> (paging \<times> u32) option" where
  "paging_init s bits bound = do {
     let (bs, m) = bitset_init (frame_bits s) bits 0x100000;
     (s, k) \<leftarrow> new_dir (s\<lparr>glb_frames := bs, frame_bits := m\<rparr>);
     s \<leftarrow> map_kernel (s\<lparr>kernel_page_directory := k\<rparr>) 0 bound;
     d \<leftarrow> pdirs s k;
     page_directory_clone 0 (put_dir s k (d\<lparr>physical := k + 4096\<rparr>)) k
   }"

subsection \<open>Frames in use\<close>

definition used_frames :: "paging \<Rightarrow> u32 set" where
  "used_frames s = bitset_members (frame_bits s) (glb_frames s)"

definition frames_left :: "paging \<Rightarrow> u32 set" where
  "frames_left s = {f. unat f < bitset_bound (glb_frames s) \<and> f \<notin> used_frames s}"

text \<open>The bit array stands for the frames a page can name, which have 20 bits.\<close>

definition frames_ok :: "paging \<Rightarrow> bool" where
  "frames_ok s \<longleftrightarrow> bitset_bound (glb_frames s) \<le> 0x100000"

lemma page_at_put [simp]:
  "ptabs s (fst l) = Some p \<Longrightarrow> page_at (put_page s l pg) l' = (if l' = l then Some pg else page_at s l')"
  by (cases l; cases l') (auto simp: page_at_def put_page_def)

lemma put_page_rest [simp]:
  "frame_bits (put_page s l pg) = frame_bits s" "glb_frames (put_page s l pg) = glb_frames s"
  "pdirs (put_page s l pg) = pdirs s" "pages_left (put_page s l pg) = pages_left s"
  "kernel_page_directory (put_page s l pg) = kernel_page_directory s" "phys (put_page s l pg) = phys s"
  "used_frames (put_page s l pg) = used_frames s"
  by (simp_all add: put_page_def used_frames_def)

lemma page_at_rest [simp]:
  "page_at (s\<lparr>frame_bits := b\<rparr>) l = page_at s l" "page_at (s\<lparr>phys := m\<rparr>) l = page_at s l"
  "page_at (s\<lparr>pages_left := as\<rparr>) l = page_at s l" "page_at (put_dir s a d) l = page_at s l"
  by (simp_all add: page_at_def put_dir_def)

lemma frame_times_page: "(scast (ucast w :: 20 word) :: u32) * 0x1000 = w * 0x1000"
proof -
  have "(scast (ucast w :: 20 word) :: u32) * 0x1000 = push_bit 12 (scast (ucast w :: 20 word))"
    by (simp add: push_bit_eq_mult)
  also have "\<dots> = push_bit 12 w"
    by (rule bit_word_eqI) (auto simp: bit_simps)
  also have "\<dots> = w * 0x1000" by (simp add: push_bit_eq_mult)
  finally show ?thesis .
qed

lemma finite_frames: "finite (frames_left s)"
  by simp

lemma first_frame: "bitset_first_unset (frame_bits s) (glb_frames s) = (if frames_left s = {} then - 1 else Min (frames_left s))"
  unfolding bitset_first_unset_min Let_def used_frames_def [symmetric] frames_left_def [symmetric] ..

lemma alloc_frame_ok:
  assumes "page_at s l = Some pg"
  shows "\<exists>s'. alloc_frame s l w k = Some s' \<and> 
    (if frames_left s = {} then page_at s' l = Some pg
     else used_frames s' = insert (Min (frames_left s)) (used_frames s) \<and>
       s' = (put_page s l (pg\<lparr>frame := ucast (Min (frames_left s)), present := 1, rw := (if w then 1 else 0),
         user := (if k then 0 else 1)\<rparr>))\<lparr>frame_bits := frame_bits s'\<rparr>)"
proof (cases "frames_left s = {}")
  case True
  then have "bitset_first_unset (frame_bits s) (glb_frames s) = - 1"
    by (simp add: first_frame)
  then show ?thesis using assms True by (simp add: alloc_frame_def Let_def)
next
  case False
  let ?f = "Min (frames_left s)"
  have f: "bitset_first_unset (frame_bits s) (glb_frames s) = ?f"
    using False by (simp add: first_frame)
  have "?f \<in> frames_left s" using False by simp
  then have "unat ?f < bitset_bound (glb_frames s)" by (simp add: frames_left_def)
  then have "?f \<noteq> - 1" using unat32_bound [of "bs_len (glb_frames s)"] by (auto simp: bitset_bound_def unsigned_minus_1_eq_mask mask_eq_exp_minus_1)
  moreover have "bitset_members (bitset_set (frame_bits s) (glb_frames s) ?f 1) (glb_frames s) = insert ?f (used_frames s)"
    by (auto simp: bitset_members_def bitset_get_set used_frames_def)
  ultimately show ?thesis using assms False
    by (simp add: alloc_frame_def Let_def f used_frames_def) (simp add: put_page_def)
qed

subsection \<open>Copying frames\<close>

lemma poke_word: "poke m p (mem_bytes m q 4) a = (if unat (a - p) < 4 then m (q + (a - p)) else m a)"
  by (simp add: poke_at)

lemma physcpy_words:
  assumes apart: "\<And>k. k < 4096 \<Longrightarrow> 4096 \<le> unat (src + of_nat k - dest)" and "n \<le> 1024"
  shows "fold (\<lambda>i m. poke m (dest + of_nat (4 * i)) (mem_bytes m (src + of_nat (4 * i)) 4)) [0..<n] m a =
    (if unat (a - dest) < 4 * n then m (src + (a - dest)) else m a)"
  using assms(2)
proof (induction n arbitrary: a)
  case (Suc n)
  let ?m = "fold (\<lambda>i m. poke m (dest + of_nat (4 * i)) (mem_bytes m (src + of_nat (4 * i)) 4)) [0..<n] m"
  let ?r = "a - (dest + of_nat (4 * n))"
  have IH: "?m b = (if unat (b - dest) < 4 * n then m (src + (b - dest)) else m b)" for b using Suc by simp
  have "fold (\<lambda>i m. poke m (dest + of_nat (4 * i)) (mem_bytes m (src + of_nat (4 * i)) 4)) [0..<Suc n] m =
      poke ?m (dest + of_nat (4 * n)) (mem_bytes ?m (src + of_nat (4 * n)) 4)"
    by (simp only: upt_Suc_append fold_append fold.simps comp_apply id_apply zero_le)
  moreover have "poke ?m (dest + of_nat (4 * n)) (mem_bytes ?m (src + of_nat (4 * n)) 4) a =
      (if unat ?r < 4 then ?m (src + of_nat (4 * n) + ?r) else ?m a)"
    by (rule poke_word)
  ultimately have step: "fold (\<lambda>i m. poke m (dest + of_nat (4 * i)) (mem_bytes m (src + of_nat (4 * i)) 4)) [0..<Suc n] m a =
      (if unat ?r < 4 then ?m (src + of_nat (4 * n) + ?r) else ?m a)" by simp
  have ad: "a - dest = ?r + of_nat (4 * n)" by simp
  show ?case
  proof (cases "unat ?r < 4")
    case True
    then have u: "unat (a - dest) = unat ?r + 4 * n"
      unfolding ad using Suc.prems by (intro unat_add_of_nat) simp
    have e: "src + of_nat (4 * n) + ?r = src + (a - dest)" by simp
    have "4096 \<le> unat (src + of_nat (unat (a - dest)) - dest)" using u True Suc.prems by (intro apart) linarith
    then have "?m (src + (a - dest)) = m (src + (a - dest))" using IH [of "src + (a - dest)"] Suc.prems by simp
    moreover have "unat (a - dest) < 4 * Suc n" unfolding u using True by presburger
    ultimately show ?thesis unfolding step e if_P [OF True] by simp
  next
    case False
    have "unat (a - dest) < 4 * Suc n \<longleftrightarrow> unat (a - dest) < 4 * n"
    proof
      assume l: "unat (a - dest) < 4 * Suc n"
      show "unat (a - dest) < 4 * n"
      proof (rule ccontr)
        assume "\<not> unat (a - dest) < 4 * n"
        moreover have "unat (of_nat (4 * n) :: u32) = 4 * n" using Suc.prems by (intro unat_of_nat32) simp
        ultimately have "unat (a - dest - of_nat (4 * n)) = unat (a - dest) - 4 * n" by (subst unat_diff_nowrap) simp_all
        then show False using False l by (simp add: diff_diff_add)
      qed
    qed simp
    then show ?thesis unfolding step if_not_P [OF False] IH by simp
  qed
qed simp

lemma page_start:
  assumes "unat f < 0x100000"
  shows "unat (f * 0x1000 :: u32) = unat f * 0x1000"
  using assms by (simp add: unat_word_ariths)

lemma in_frame:
  fixes a f :: u32
  assumes "unat f < 0x100000"
  shows "unat (a - f * 0x1000) < 0x1000 \<longleftrightarrow> a div 0x1000 = f"
    and "a div 0x1000 = f \<Longrightarrow> a - f * 0x1000 = a mod 0x1000"
proof -
  have m: "a = a div 0x1000 * 0x1000 + a mod 0x1000" by (simp add: word_mod_div_equality)
  then show mm: "a div 0x1000 = f \<Longrightarrow> a - f * 0x1000 = a mod 0x1000" by (metis add_diff_cancel_left')
  show "unat (a - f * 0x1000) < 0x1000 \<longleftrightarrow> a div 0x1000 = f"
  proof
    assume l: "unat (a - f * 0x1000) < 0x1000"
    have "unat (a - f * 0x1000) + unat (f * 0x1000) < 4294967296" using l page_start [OF assms] assms by simp
    from unat_add_nowrap [OF this] have "unat a = unat (a - f * 0x1000) + unat f * 0x1000"
      by (simp add: page_start [OF assms])
    then show "a div 0x1000 = f" using l by (simp add: word_eq_by_unat unat_div)
  next
    assume "a div 0x1000 = f"
    then show "unat (a - f * 0x1000) < 0x1000" using mm by (simp add: unat_mod)
  qed
qed

lemma physcpy_frames:
  assumes "unat f < 0x100000" and "unat g < 0x100000" and "f \<noteq> g"
  shows "paging_physcpy m (f * 0x1000) (g * 0x1000) a = (if a div 0x1000 = g then m (f * 0x1000 + a mod 0x1000) else m a)"
proof -
  have "4096 \<le> unat (f * 0x1000 + of_nat k - g * 0x1000)" if "k < 4096" for k
  proof -
    have k: "unat (of_nat k :: u32) = k" using that by (intro unat_of_nat32) simp
    have fk: "unat (f * 0x1000 + of_nat k) = unat f * 0x1000 + k"
      using assms(1) that k by (subst unat_add_nowrap) (simp_all add: page_start)
    have "(f * 0x1000 + of_nat k) div 0x1000 = f" using that fk by (simp add: word_eq_by_unat unat_div)
    then show ?thesis using in_frame(1) [OF assms(2), of "f * 0x1000 + of_nat k"] assms(3) by simp
  qed
  from physcpy_words [OF this, of 1024] show ?thesis
    using in_frame [OF assms(2), of a] by (simp add: paging_physcpy_def)
qed

subsection \<open>Copies\<close>

definition frame_no :: "page \<Rightarrow> u32" where
  "frame_no pg = ucast (frame pg)"

lemma frame_no_bound: "unat (frame_no pg) < 0x100000"
proof -
  have "unat (frame pg) < 2 ^ LENGTH(20)" by (rule unsigned_less)
  then show ?thesis by (simp add: frame_no_def unsigned_ucast_eq take_bit_nat_eq_self)
qed

lemma frame_addr_no: "frame_addr pg = frame_no pg * 0x1000"
proof -
  have "ucast (frame_no pg) = frame pg" unfolding frame_no_def by (rule bit_word_eqI) (simp add: bit_simps)
  then show ?thesis using frame_times_page [of "frame_no pg"] by (simp add: frame_addr_def)
qed

lemma frame_no_ucast: "unat f < 0x100000 \<Longrightarrow> frame_no (pg\<lparr>frame := ucast f\<rparr>) = f"
  by (simp add: frame_no_def word_eq_by_unat unsigned_ucast_eq unsigned_take_bit_eq take_bit_nat_eq_self)

text \<open>The bytes of a page.\<close>

definition page_bytes :: "paging \<Rightarrow> page \<Rightarrow> u32 \<Rightarrow> u8" where
  "page_bytes s pg k = phys s (frame_addr pg + k mod 0x1000)"

definition page_copied :: "paging \<Rightarrow> paging \<Rightarrow> page \<Rightarrow> page \<Rightarrow> bool" where
  "page_copied s s' pg pg' \<longleftrightarrow>
     (if frame pg = 0 then pg' = no_page
      else rw pg' = rw pg \<and> user pg' = user pg \<and> present pg' = present pg \<and> accessed pg' = accessed pg \<and> dirty pg' = dirty pg \<and>
        frame_no pg' \<in> used_frames s' - used_frames s \<and> page_bytes s' pg' = page_bytes s pg)"

text \<open>Memory in the frames that are in use stays as it is, and no frame is given back.\<close>

definition keeps_frames :: "paging \<Rightarrow> paging \<Rightarrow> bool" where
  "keeps_frames s s' \<longleftrightarrow> used_frames s \<subseteq> used_frames s' \<and> glb_frames s' = glb_frames s \<and>
     (\<forall>a. a div 0x1000 \<in> used_frames s \<longrightarrow> phys s' a = phys s a)"

lemma keeps_frames_refl [simp]: "keeps_frames s s"
  by (simp add: keeps_frames_def)

lemma keeps_frames_trans: "keeps_frames s s1 \<Longrightarrow> keeps_frames s1 s2 \<Longrightarrow> keeps_frames s s2"
  by (auto simp: keeps_frames_def)

lemma frame_byte: "(frame_addr pg + k mod 0x1000) div 0x1000 = frame_no pg" "(frame_addr pg + k mod 0x1000) mod 0x1000 = k mod 0x1000"
proof -
  have f: "unat (frame_no pg) < 0x100000" by (rule frame_no_bound)
  have k: "unat (k mod 0x1000) < 0x1000" by (simp add: unat_mod)
  have u: "unat (frame_addr pg + k mod 0x1000) = unat (frame_no pg) * 0x1000 + unat (k mod 0x1000)"
    unfolding frame_addr_no using f k by (subst unat_add_nowrap) (simp_all add: page_start)
  show "(frame_addr pg + k mod 0x1000) div 0x1000 = frame_no pg" using u k by (simp add: word_eq_by_unat unat_div)
  show "(frame_addr pg + k mod 0x1000) mod 0x1000 = k mod 0x1000" using u k by (simp add: word_eq_by_unat unat_mod)
qed

lemma page_bytes_kept: "keeps_frames s s' \<Longrightarrow> frame_no pg \<in> used_frames s \<Longrightarrow> page_bytes s' pg = page_bytes s pg"
  by (simp add: page_bytes_def keeps_frames_def frame_byte fun_eq_iff)

definition pages_used :: "page_table \<Rightarrow> nat list \<Rightarrow> nat list" where
  "pages_used p js = filter (\<lambda>i. frame (p (of_nat i)) \<noteq> 0) js"

text \<open>One page of the copy.\<close>

lemma clone_page_ok:
  assumes "frames_ok s" and "frames_left s \<noteq> {}" and "ptabs s new = Some q" and "q i = no_page" and "frame_no pg \<in> used_frames s"
    and "frame pg \<noteq> 0"
  shows "\<exists>s' s1 pg'. alloc_frame s (new, i) False False = Some s1 \<and> page_at s1 (new, i) \<noteq> None \<and>
    (let npg = (the (page_at s1 (new, i)))\<lparr>rw := rw pg, accessed := accessed pg, present := present pg, user := user pg, dirty := dirty pg\<rparr>;
         s2 = put_page s1 (new, i) npg
     in s2\<lparr>phys := paging_physcpy (phys s2) (frame_addr pg) (frame_addr npg)\<rparr> = s' \<and> pg' = npg) \<and>
    s' = s\<lparr>ptabs := (ptabs s)(new \<mapsto> q(i := pg')), frame_bits := frame_bits s', phys := phys s'\<rparr> \<and>
    used_frames s' = insert (frame_no pg') (used_frames s) \<and> frame_no pg' \<in> frames_left s \<and>
    keeps_frames s s' \<and> page_copied s s' pg pg'"
proof -
  let ?f = "Min (frames_left s)"
  have f: "?f \<in> frames_left s" using assms(2) by simp
  then have fb: "unat ?f < 0x100000" using assms(1) by (auto simp: frames_left_def frames_ok_def)
  have "page_at s (new, i) = Some no_page" using assms(3,4) by (simp add: page_at_def)
  from alloc_frame_ok [OF this, of False False] obtain s1 where s1: "alloc_frame s (new, i) False False = Some s1"
    "used_frames s1 = insert ?f (used_frames s)"
    "s1 = (put_page s (new, i) (no_page\<lparr>frame := ucast ?f, present := 1, rw := 0, user := 1\<rparr>))\<lparr>frame_bits := frame_bits s1\<rparr>"
    using assms(2) by auto
  define b where "b = frame_bits s1"
  have s1e: "s1 = (put_page s (new, i) (no_page\<lparr>frame := ucast ?f, present := 1, rw := 0, user := 1\<rparr>))\<lparr>frame_bits := b\<rparr>"
    using s1(3) by (simp add: b_def)
  let ?z = "no_page\<lparr>frame := ucast ?f, present := 1, rw := 0, user := 1\<rparr>"
  let ?n = "?z\<lparr>rw := rw pg, accessed := accessed pg, present := present pg, user := user pg, dirty := dirty pg\<rparr>"
  have at1: "page_at s1 (new, i) = Some ?z" by (simp add: s1e assms(3))
  have pt1: "ptabs s1 new = Some (q(i := ?z))" by (simp add: s1e assms(3) put_page_def)
  have fn: "frame_no ?n = ?f" using frame_no_ucast [OF fb, of no_page] by (simp add: frame_no_def)
  let ?s' = "(put_page s1 (new, i) ?n)\<lparr>phys := paging_physcpy (phys s) (frame_addr pg) (frame_addr ?n)\<rparr>"
  have ph1: "phys s1 = phys s" by (simp add: s1e)
  have gl1: "glb_frames s1 = glb_frames s" by (simp add: s1e)
  have eq: "?s' = s\<lparr>ptabs := (ptabs s)(new \<mapsto> q(i := ?n)), frame_bits := frame_bits ?s', phys := phys ?s'\<rparr>"
    by (simp add: s1e assms(3) put_page_def)
  have us: "used_frames ?s' = insert ?f (used_frames s)" using s1(2) by (simp add: used_frames_def put_page_def)
  have new: "?f \<notin> used_frames s" using f by (simp add: frames_left_def)
  have ne: "frame_no pg \<noteq> ?f" using assms(5) new by auto
  have cp: "phys ?s' a = (if a div 0x1000 = ?f then phys s (frame_addr pg + a mod 0x1000) else phys s a)" for a
    using physcpy_frames [OF frame_no_bound fb ne] fn by (simp add: frame_addr_no)
  have "keeps_frames s ?s'" unfolding keeps_frames_def using us cp new gl1 by auto
  moreover have "page_bytes ?s' ?n = page_bytes s pg"
    by (rule ext) (simp only: page_bytes_def cp frame_byte fn simp_thms if_True)
  then have "page_copied s ?s' pg ?n" using assms(6) us new fn by (simp add: page_copied_def)
  ultimately show ?thesis
    using s1(1) at1 eq us f fn ph1 by (intro exI [of _ ?s'] exI [of _ s1] exI [of _ ?n]) (simp add: Let_def)
qed

lemma page_copied_later:
  assumes "page_copied s s1 pg pg'" and "keeps_frames s1 s'"
  shows "page_copied s s' pg pg'"
  using assms page_bytes_kept [OF assms(2), of pg'] by (auto simp: page_copied_def keeps_frames_def split: if_splits)

lemma page_copied_earlier:
  assumes "page_copied s1 s' pg pg'" and "keeps_frames s s1" and "frame pg \<noteq> 0 \<Longrightarrow> frame_no pg \<in> used_frames s"
  shows "page_copied s s' pg pg'"
  using assms page_bytes_kept [OF assms(2), of pg] by (auto simp: page_copied_def keeps_frames_def split: if_splits)

lemma of_nat_index: "i < 1024 \<Longrightarrow> j < 1024 \<Longrightarrow> (of_nat i :: u32) = of_nat j \<longleftrightarrow> i = j"
  by (rule of_nat32_inj) simp_all

lemma clone_pages_ok:
  assumes "frames_ok s" and "ptabs s table = Some p" and "ptabs s new = Some q" and "table \<noteq> new"
    and "distinct js" and "\<forall>i \<in> set js. i < 1024 \<and> q (of_nat i) = no_page"
    and "length (pages_used p js) \<le> card (frames_left s)"
    and "\<forall>i \<in> set js. frame (p (of_nat i)) \<noteq> 0 \<longrightarrow> frame_no (p (of_nat i)) \<in> used_frames s"
  shows "\<exists>s' q'. clone_pages s table new js = Some s' \<and>
    s' = s\<lparr>ptabs := (ptabs s)(new \<mapsto> q'), frame_bits := frame_bits s', phys := phys s'\<rparr> \<and>
    (\<forall>i. i \<notin> of_nat ` set js \<longrightarrow> q' i = q i) \<and>
    (\<forall>i \<in> set js. page_copied s s' (p (of_nat i)) (q' (of_nat i))) \<and> keeps_frames s s' \<and>
    inj_on (\<lambda>i. frame_no (q' (of_nat i))) (set (pages_used p js)) \<and>
    card (frames_left s) \<le> card (frames_left s') + length (pages_used p js)"
  using assms
proof (induction js arbitrary: s q)
  case Nil
  have "(ptabs s)(new \<mapsto> q) = ptabs s" using Nil.prems(3) by auto
  then show ?case by (intro exI [of _ s] exI [of _ q]) (simp add: pages_used_def)
next
  case (Cons i js)
  let ?i = "of_nat i :: u32" and ?pg = "p (of_nat i)"
  have at: "page_at s (table, ?i) = Some ?pg" using Cons.prems(2) by (simp add: page_at_def)
  have ni: "?i \<notin> of_nat ` set js" using Cons.prems(5,6) of_nat_index by fastforce
  show ?case
  proof (cases "frame ?pg = 0")
    case True
    have len: "pages_used p (i # js) = pages_used p js" using True by (simp add: pages_used_def)
    have "\<exists>s' q'. clone_pages s table new js = Some s' \<and>
        s' = s\<lparr>ptabs := (ptabs s)(new \<mapsto> q'), frame_bits := frame_bits s', phys := phys s'\<rparr> \<and>
        (\<forall>i. i \<notin> of_nat ` set js \<longrightarrow> q' i = q i) \<and>
        (\<forall>i \<in> set js. page_copied s s' (p (of_nat i)) (q' (of_nat i))) \<and> keeps_frames s s' \<and>
        inj_on (\<lambda>i. frame_no (q' (of_nat i))) (set (pages_used p js)) \<and>
        card (frames_left s) \<le> card (frames_left s') + length (pages_used p js)"
      using Cons.prems len by (intro Cons.IH) simp_all
    then obtain s' q' where r: "clone_pages s table new js = Some s'"
      "s' = s\<lparr>ptabs := (ptabs s)(new \<mapsto> q'), frame_bits := frame_bits s', phys := phys s'\<rparr>"
      "\<forall>i. i \<notin> of_nat ` set js \<longrightarrow> q' i = q i" "\<forall>i \<in> set js. page_copied s s' (p (of_nat i)) (q' (of_nat i))"
      "keeps_frames s s'" "inj_on (\<lambda>i. frame_no (q' (of_nat i))) (set (pages_used p js))"
      "card (frames_left s) \<le> card (frames_left s') + length (pages_used p js)" by blast
    have "clone_pages s table new (i # js) = Some s'" using at True r(1) by simp
    moreover have "page_copied s s' ?pg (q' ?i)" using True r(3) ni Cons.prems(6) by (simp add: page_copied_def)
    then have "\<forall>j \<in> set (i # js). page_copied s s' (p (of_nat j)) (q' (of_nat j))" using r(4) by simp
    moreover have "\<forall>j. j \<notin> of_nat ` set (i # js) \<longrightarrow> q' j = q j" using r(3) by simp
    ultimately show ?thesis using r(2,5-7) unfolding len by blast
  next
    case False
    have len: "pages_used p (i # js) = i # pages_used p js" using False by (simp add: pages_used_def)
    have left: "frames_left s \<noteq> {}" using Cons.prems(7) len by auto
    have z: "q ?i = no_page" and u: "frame_no ?pg \<in> used_frames s" using Cons.prems(6,8) False by simp_all
    obtain s2 s1 pg' where c: "alloc_frame s (new, ?i) False False = Some s1" "page_at s1 (new, ?i) \<noteq> None"
      "(let npg = (the (page_at s1 (new, ?i)))\<lparr>rw := rw ?pg, accessed := accessed ?pg, present := present ?pg, user := user ?pg, dirty := dirty ?pg\<rparr>;
         s2 = put_page s1 (new, ?i) npg
       in s2\<lparr>phys := paging_physcpy (phys s2) (frame_addr ?pg) (frame_addr npg)\<rparr>) = s2"
      "s2 = s\<lparr>ptabs := (ptabs s)(new \<mapsto> q(?i := pg')), frame_bits := frame_bits s2, phys := phys s2\<rparr>"
      "used_frames s2 = insert (frame_no pg') (used_frames s)" "frame_no pg' \<in> frames_left s"
      "keeps_frames s s2" "page_copied s s2 ?pg pg'"
      using clone_page_ok [OF Cons.prems(1) left Cons.prems(3) z u False] by (auto simp: Let_def)
    let ?q = "q(?i := pg')"
    have fl: "frames_left s2 = frames_left s - {frame_no pg'}"
      using c(5,7) by (auto simp: frames_left_def keeps_frames_def)
    have t2: "ptabs s2 table = Some p" "ptabs s2 new = Some ?q"
      using Cons.prems(2,4) arg_cong [OF c(4), of ptabs] by simp_all
    have "card (frames_left s) = Suc (card (frames_left s2))" using card_Suc_Diff1 [OF finite_frames c(6)] fl by simp
    moreover have "\<forall>j \<in> set js. j < 1024 \<and> ?q (of_nat j) = no_page" using Cons.prems(6) ni by (auto simp: image_iff)
    moreover have "frames_ok s2" using Cons.prems(1) c(7) by (simp add: frames_ok_def keeps_frames_def)
    ultimately have "\<exists>s' q'. clone_pages s2 table new js = Some s' \<and>
        s' = s2\<lparr>ptabs := (ptabs s2)(new \<mapsto> q'), frame_bits := frame_bits s', phys := phys s'\<rparr> \<and>
        (\<forall>i. i \<notin> of_nat ` set js \<longrightarrow> q' i = ?q i) \<and>
        (\<forall>i \<in> set js. page_copied s2 s' (p (of_nat i)) (q' (of_nat i))) \<and> keeps_frames s2 s' \<and>
        inj_on (\<lambda>i. frame_no (q' (of_nat i))) (set (pages_used p js)) \<and>
        card (frames_left s2) \<le> card (frames_left s') + length (pages_used p js)"
      using Cons.prems(4,5,7,8) len c(5) by (intro Cons.IH t2) simp_all
    then obtain s' q' where r: "clone_pages s2 table new js = Some s'"
      "s' = s2\<lparr>ptabs := (ptabs s2)(new \<mapsto> q'), frame_bits := frame_bits s', phys := phys s'\<rparr>"
      "\<forall>i. i \<notin> of_nat ` set js \<longrightarrow> q' i = ?q i" "\<forall>i \<in> set js. page_copied s2 s' (p (of_nat i)) (q' (of_nat i))"
      "keeps_frames s2 s'" "inj_on (\<lambda>i. frame_no (q' (of_nat i))) (set (pages_used p js))"
      "card (frames_left s2) \<le> card (frames_left s') + length (pages_used p js)" by blast
    have "clone_pages s table new (i # js) = Some s'" using at False c(1-3) r(1) by (auto simp: Let_def)
    moreover have "s' = s\<lparr>ptabs := (ptabs s)(new \<mapsto> q'), frame_bits := frame_bits s', phys := phys s'\<rparr>"
      by (subst r(2), subst c(4)) (simp add: arg_cong [OF c(4), of ptabs])
    moreover have "\<forall>j. j \<notin> of_nat ` set (i # js) \<longrightarrow> q' j = q j" using r(3) by simp
    moreover have qi: "q' ?i = pg'" using r(3) ni by simp
    then have "page_copied s s' ?pg (q' ?i)" using page_copied_later [OF c(8) r(5)] by simp
    then have "\<forall>j \<in> set (i # js). page_copied s s' (p (of_nat j)) (q' (of_nat j))"
      using r(4) page_copied_earlier [OF _ c(7)] Cons.prems(8) by simp
    moreover have "keeps_frames s s'" using keeps_frames_trans [OF c(7) r(5)] .
    moreover have "frame_no (q' (of_nat j)) \<noteq> frame_no pg'" if "j \<in> set (pages_used p js)" for j
      using r(4) that c(5) by (auto simp: page_copied_def pages_used_def)
    then have "inj_on (\<lambda>i. frame_no (q' (of_nat i))) (set (pages_used p (i # js)))"
      unfolding len using r(6) qi by (simp add: inj_on_insert) (metis (no_types, lifting) Diff_iff imageE)
    moreover have "card (frames_left s) \<le> card (frames_left s') + length (pages_used p (i # js))"
      using \<open>card (frames_left s) = Suc (card (frames_left s2))\<close> r(7) len by simp
    ultimately show ?thesis by blast
  qed
qed

subsection \<open>Copies of whole tables\<close>

definition table_used :: "page_table \<Rightarrow> nat" where
  "table_used p = length (pages_used p [0..<1024])"

definition table_copied :: "paging \<Rightarrow> paging \<Rightarrow> page_table \<Rightarrow> page_table \<Rightarrow> bool" where
  "table_copied s s' p p' \<longleftrightarrow> (\<forall>e < 1024. page_copied s s' (p (of_nat e)) (p' (of_nat e))) \<and>
     inj_on (\<lambda>e. frame_no (p' (of_nat e))) (set (pages_used p [0..<1024]))"

definition table_owned :: "paging \<Rightarrow> page_table \<Rightarrow> bool" where
  "table_owned s p \<longleftrightarrow> (\<forall>e. frame (p e) \<noteq> 0 \<longrightarrow> frame_no (p e) \<in> used_frames s)"

lemma table_copied_later: "table_copied s s1 p p' \<Longrightarrow> keeps_frames s1 s' \<Longrightarrow> table_copied s s' p p'"
  unfolding table_copied_def by (meson page_copied_later)

lemma table_copied_earlier: "table_copied s1 s' p p' \<Longrightarrow> keeps_frames s s1 \<Longrightarrow> table_owned s p \<Longrightarrow> table_copied s s' p p'"
  unfolding table_copied_def table_owned_def by (meson page_copied_earlier)

lemma table_owned_later: "table_owned s p \<Longrightarrow> keeps_frames s s' \<Longrightarrow> table_owned s' p"
  by (auto simp: table_owned_def keeps_frames_def)

lemma page_table_clone_ok:
  assumes "frames_ok s" and "ptabs s table = Some p" and "pages_left s = new # as" and "table \<noteq> new"
    and "table_used p \<le> card (frames_left s)" and "table_owned s p"
  shows "\<exists>s' p'. page_table_clone s table = Some (s', new) \<and> ptabs s' = (ptabs s)(new \<mapsto> p') \<and> pdirs s' = pdirs s \<and>
    pages_left s' = as \<and> kernel_page_directory s' = kernel_page_directory s \<and> table_copied s s' p p' \<and> keeps_frames s s' \<and>
    card (frames_left s) \<le> card (frames_left s') + table_used p"
proof -
  let ?s = "s\<lparr>pages_left := as, ptabs := (ptabs s)(new \<mapsto> (\<lambda>_. no_page))\<rparr>"
  have same: "used_frames ?s = used_frames s" "frames_left ?s = frames_left s" "glb_frames ?s = glb_frames s" "phys ?s = phys s"
    by (simp_all add: used_frames_def frames_left_def)
  have k: "keeps_frames s ?s" using same by (simp add: keeps_frames_def)
  have fo: "frames_ok ?s" using assms(1) by (simp add: frames_ok_def)
  have pt: "ptabs ?s table = Some p" "ptabs ?s new = Some (\<lambda>_. no_page)" using assms(2,4) by simp_all
  have len: "length (pages_used p [0..<1024]) \<le> card (frames_left ?s)" using assms(5) unfolding same by (simp add: table_used_def)
  have own: "\<forall>i \<in> set [0..<1024]. frame (p (of_nat i)) \<noteq> 0 \<longrightarrow> frame_no (p (of_nat i)) \<in> used_frames ?s"
    using assms(6) unfolding same by (simp add: table_owned_def)
  have z: "\<forall>i \<in> set [0..<1024]. i < 1024 \<and> (\<lambda>_. no_page) (of_nat i :: u32) = no_page" by simp
  obtain s' q' where r: "clone_pages ?s table new [0..<1024] = Some s'"
    "s' = ?s\<lparr>ptabs := (ptabs ?s)(new \<mapsto> q'), frame_bits := frame_bits s', phys := phys s'\<rparr>"
    "\<forall>i \<in> set [0..<1024]. page_copied ?s s' (p (of_nat i)) (q' (of_nat i))" "keeps_frames ?s s'"
    "inj_on (\<lambda>i. frame_no (q' (of_nat i))) (set (pages_used p [0..<1024]))"
    "card (frames_left ?s) \<le> card (frames_left s') + length (pages_used p [0..<1024])"
    using clone_pages_ok [OF fo pt assms(4) distinct_upt z len own] by blast
  have "page_table_clone s table = Some (s', new)" using r(1) assms(3) by (simp add: page_table_clone_def new_table_def)
  moreover have "ptabs s' = (ptabs s)(new \<mapsto> q')" by (subst r(2)) simp
  moreover have "pdirs s' = pdirs s" "pages_left s' = as" "kernel_page_directory s' = kernel_page_directory s"
    by (subst r(2), simp)+
  moreover have "table_copied ?s s' p q'" using r(3,5) by (simp add: table_copied_def)
  then have "table_copied s s' p q'" using table_copied_earlier [OF _ k assms(6)] by simp
  moreover have "keeps_frames s s'" using keeps_frames_trans [OF k r(4)] .
  moreover have "card (frames_left s) \<le> card (frames_left s') + table_used p" using r(6) unfolding same by (simp add: table_used_def)
  ultimately show ?thesis by blast
qed

text \<open>The page directory in use maps the heap, so that no table is made for the address of a new table.\<close>

definition heap_mapped :: "u32 \<Rightarrow> paging \<Rightarrow> u32 \<Rightarrow> bool" where
  "heap_mapped cur s a \<longleftrightarrow> cur = 0 \<or> (\<exists>d p. pdirs s cur = Some d \<and> tables d (a div 0x1000 div 1024) \<noteq> 0 \<and>
     ptabs s (tables d (a div 0x1000 div 1024) AND 0xFFFFF000) = Some p)"

lemma get_page_mapped:
  assumes "pdirs s dir = Some d" and "tables d (va div 0x1000 div 1024) \<noteq> 0"
  shows "get_page cur s va init dir = Some (s, tables d (va div 0x1000 div 1024) AND 0xFFFFF000, va div 0x1000 mod 1024)"
  using assms by (subst get_page.simps) (simp add: Let_def)

lemma get_physical_address_mapped: "heap_mapped cur s a \<Longrightarrow> \<exists>pa. get_physical_address cur s a = Some (s, pa)"
  by (auto simp: heap_mapped_def get_physical_address_def get_page_mapped page_at_def)

lemma heap_mapped_mono:
  assumes "heap_mapped cur s a" and "pdirs s' cur = pdirs s cur" and "dom (ptabs s) \<subseteq> dom (ptabs s')"
  shows "heap_mapped cur s' a"
  using assms by (auto simp: heap_mapped_def dom_def)

definition private_tab :: "page_directory \<Rightarrow> page_directory \<Rightarrow> nat \<Rightarrow> bool" where
  "private_tab k d i \<longleftrightarrow> tables d (of_nat i) \<noteq> 0 \<and> tables d (of_nat i) \<noteq> tables k (of_nat i)"

definition tab_pages :: "paging \<Rightarrow> u32 \<Rightarrow> nat" where
  "tab_pages s t = (case ptabs s t of None \<Rightarrow> 0 | Some p \<Rightarrow> table_used p)"

definition clone_ready :: "u32 \<Rightarrow> paging \<Rightarrow> page_directory \<Rightarrow> page_directory \<Rightarrow> nat list \<Rightarrow> bool" where
  "clone_ready cur s k d js \<longleftrightarrow> frames_ok s \<and> distinct (pages_left s) \<and>
     (\<forall>a \<in> set (pages_left s). a \<noteq> 0 \<and> ptabs s a = None \<and> heap_mapped cur s a) \<and>
     (\<forall>i \<in> set js. private_tab k d i \<longrightarrow> (\<exists>p. ptabs s (tables d (of_nat i)) = Some p \<and> table_owned s p)) \<and>
     length (filter (private_tab k d) js) \<le> length (pages_left s) \<and>
     (\<Sum>i \<leftarrow> filter (private_tab k d) js. tab_pages s (tables d (of_nat i))) \<le> card (frames_left s)"

definition tab_cloned :: "paging \<Rightarrow> paging \<Rightarrow> page_directory \<Rightarrow> page_directory \<Rightarrow> page_directory \<Rightarrow> nat \<Rightarrow> bool" where
  "tab_cloned s s' k d n i \<longleftrightarrow>
     (let t = tables d (of_nat i); t' = tables n (of_nat i)
      in if private_tab k d i then t' \<in> set (pages_left s) \<and>
           (\<exists>p p'. ptabs s t = Some p \<and> ptabs s' t' = Some p' \<and> table_copied s s' p p')
         else t' = t)"

lemma clone_ready_step:
  assumes "clone_ready cur s k d (i # js)" and "private_tab k d i" and "pages_left s = t # as"
    and "ptabs s (tables d (of_nat i)) = Some p"
    and "ptabs s' = (ptabs s)(t \<mapsto> p')" and "pages_left s' = as" and "keeps_frames s s'"
    and "card (frames_left s) \<le> card (frames_left s') + table_used p" and "pdirs s' cur = pdirs s cur"
  shows "clone_ready cur s' k d js"
proof -
  have d: "distinct (t # as)" "ptabs s t = None" "\<forall>a \<in> set as. a \<noteq> 0 \<and> ptabs s a = None \<and> heap_mapped cur s a"
    using assms(1,3) by (auto simp: clone_ready_def)
  have "dom (ptabs s) \<subseteq> dom (ptabs s')" using assms(5) by auto
  then have "\<forall>a \<in> set as. a \<noteq> 0 \<and> ptabs s' a = None \<and> heap_mapped cur s' a"
    using d assms(5) heap_mapped_mono [OF _ assms(9)] by auto
  moreover have own: "\<exists>p. ptabs s (tables d (of_nat j)) = Some p \<and> table_owned s p" if "j \<in> set js" "private_tab k d j" for j
    using assms(1) that by (simp add: clone_ready_def)
  then have nt: "tables d (of_nat j) \<noteq> t" if "j \<in> set js" "private_tab k d j" for j using that d(2) by fastforce
  then have "\<exists>p. ptabs s' (tables d (of_nat j)) = Some p \<and> table_owned s' p" if "j \<in> set js" "private_tab k d j" for j
    using own [OF that] nt [OF that] assms(5) table_owned_later [OF _ assms(7)] by auto
  moreover have "(\<Sum>i \<leftarrow> filter (private_tab k d) js. tab_pages s' (tables d (of_nat i))) =
      (\<Sum>i \<leftarrow> filter (private_tab k d) js. tab_pages s (tables d (of_nat i)))"
    using nt assms(5) by (intro arg_cong [where f = sum_list] map_cong) (auto simp: tab_pages_def)
  moreover have "table_used p + (\<Sum>i \<leftarrow> filter (private_tab k d) js. tab_pages s (tables d (of_nat i))) \<le> card (frames_left s)"
    using assms(1,2,4) by (simp add: clone_ready_def tab_pages_def)
  ultimately show ?thesis using assms d(1) by (simp add: clone_ready_def frames_ok_def keeps_frames_def)
qed

lemma clone_tables_ok:
  assumes "clone_ready cur s k d js" and "pdirs s dir = Some d" and "pdirs s (kernel_page_directory s) = Some k"
    and "pdirs s new = Some n" and "new \<noteq> dir" and "new \<noteq> kernel_page_directory s" and "new \<noteq> cur"
    and "distinct js" and "\<forall>i \<in> set js. i < 1024 \<and> tables n (of_nat i) = 0"
  shows "\<exists>s' n'. clone_tables cur s dir new js = Some s' \<and> pdirs s' = (pdirs s)(new \<mapsto> n') \<and>
    (\<forall>i. i \<notin> of_nat ` set js \<longrightarrow> tables n' i = tables n i) \<and> (\<forall>i \<in> set js. tab_cloned s s' k d n' i) \<and>
    kernel_page_directory s' = kernel_page_directory s \<and> set (pages_left s') \<subseteq> set (pages_left s) \<and>
    (\<forall>a. a \<notin> set (pages_left s) - set (pages_left s') \<longrightarrow> ptabs s' a = ptabs s a) \<and> keeps_frames s s'"
  using assms
proof (induction js arbitrary: s n)
  case Nil
  have "(pdirs s)(new \<mapsto> n) = pdirs s" using Nil.prems(4) by auto
  then show ?case by (intro exI [of _ s] exI [of _ n]) simp
next
  case (Cons i js)
  let ?i = "of_nat i :: u32"
  have ni: "?i \<notin> of_nat ` set js" using Cons.prems(8,9) of_nat_index by fastforce
  have ready: "clone_ready cur s k d js" if "\<not> private_tab k d i"
    using Cons.prems(1) that by (simp add: clone_ready_def)
  show ?case
  proof (cases "private_tab k d i")
    case False
    define m where "m = (if tables d ?i = 0 then n else n\<lparr>tables := (tables n)(?i := tables d ?i),
      tables_physical := (tables_physical n)(?i := tables_physical d ?i)\<rparr>)"
    let ?s = "put_dir s new m"
    have mt: "tables m = (tables n)(?i := tables d ?i)" using Cons.prems(9) by (auto simp: m_def fun_eq_iff)
    have step: "clone_tables cur s dir new (i # js) = clone_tables cur ?s dir new js"
    proof (cases "tables d ?i = 0")
      case True
      moreover have "put_dir s new n = s" using Cons.prems(4) by (cases s) (auto simp: put_dir_def)
      ultimately show ?thesis using Cons.prems(2,4) by (simp add: m_def)
    next
      case nz: False
      then show ?thesis using Cons.prems(2-4) False by (simp add: m_def private_tab_def Let_def)
    qed
    have same: "used_frames ?s = used_frames s" "frames_left ?s = frames_left s" "ptabs ?s = ptabs s" "pages_left ?s = pages_left s"
      "kernel_page_directory ?s = kernel_page_directory s" "pdirs ?s = (pdirs s)(new \<mapsto> m)" "keeps_frames s ?s"
      by (simp_all add: put_dir_def used_frames_def frames_left_def keeps_frames_def)
    have "heap_mapped cur ?s a" if "heap_mapped cur s a" for a
      using heap_mapped_mono [OF that, of ?s] Cons.prems(7) same by simp
    moreover have "tab_pages ?s = tab_pages s" "table_owned ?s = table_owned s" "frames_ok ?s = frames_ok s"
      by (simp_all add: fun_eq_iff tab_pages_def table_owned_def same frames_ok_def put_dir_def used_frames_def)
    ultimately have "clone_ready cur ?s k d js" using ready [OF False] by (simp add: clone_ready_def same)
    moreover have "pdirs ?s dir = Some d" "pdirs ?s (kernel_page_directory ?s) = Some k" "pdirs ?s new = Some m"
      "new \<noteq> kernel_page_directory ?s" "distinct js" "\<forall>i \<in> set js. i < 1024 \<and> tables m (of_nat i) = 0"
      using Cons.prems ni by (auto simp: same mt image_iff)
    ultimately obtain s' n' where r: "clone_tables cur ?s dir new js = Some s'" "pdirs s' = (pdirs ?s)(new \<mapsto> n')"
      "\<forall>i. i \<notin> of_nat ` set js \<longrightarrow> tables n' i = tables m i" "\<forall>i \<in> set js. tab_cloned ?s s' k d n' i"
      "kernel_page_directory s' = kernel_page_directory ?s" "set (pages_left s') \<subseteq> set (pages_left ?s)"
      "\<forall>a. a \<notin> set (pages_left ?s) - set (pages_left s') \<longrightarrow> ptabs s' a = ptabs ?s a" "keeps_frames ?s s'"
      using Cons.IH [of ?s m] Cons.prems(5,7) by blast
    have copied: "table_copied ?s = table_copied s"
      by (simp add: fun_eq_iff table_copied_def page_copied_def page_bytes_def same) (simp add: put_dir_def)
    have "tables n' ?i = tables d ?i" using r(3) ni mt by simp
    then have "tab_cloned s s' k d n' i" using False by (simp add: tab_cloned_def Let_def)
    moreover have "\<forall>i \<in> set js. tab_cloned s s' k d n' i" using r(4) by (simp add: tab_cloned_def Let_def same copied cong: if_cong)
    moreover have "\<forall>j. j \<notin> of_nat ` set (i # js) \<longrightarrow> tables n' j = tables n j" using r(3) mt by simp
    ultimately show ?thesis using r(1,2,5-8) unfolding step
      by (intro exI [of _ s'] exI [of _ n']) (simp add: same keeps_frames_trans [OF same(7)])
  next
    case True
    obtain p where p: "ptabs s (tables d ?i) = Some p" "table_owned s p"
      using Cons.prems(1) True by (auto simp: clone_ready_def)
    obtain t as where t: "pages_left s = t # as" using Cons.prems(1) True by (cases "pages_left s") (auto simp: clone_ready_def)
    have fresh: "t \<noteq> 0" "ptabs s t = None" "heap_mapped cur s t" "t \<notin> set as" using Cons.prems(1) t by (auto simp: clone_ready_def)
    have "tables d ?i \<noteq> t" using p fresh by auto
    moreover have "table_used p \<le> card (frames_left s)" "frames_ok s"
      using Cons.prems(1) True p by (simp_all add: clone_ready_def tab_pages_def)
    ultimately obtain s1 p' where c: "page_table_clone s (tables d ?i) = Some (s1, t)" "ptabs s1 = (ptabs s)(t \<mapsto> p')"
      "pdirs s1 = pdirs s" "pages_left s1 = as" "kernel_page_directory s1 = kernel_page_directory s" "table_copied s s1 p p'"
      "keeps_frames s s1" "card (frames_left s) \<le> card (frames_left s1) + table_used p"
      using page_table_clone_ok [OF _ p(1) t _ _ p(2)] by blast
    let ?m = "n\<lparr>tables := (tables n)(?i := t)\<rparr>"
    let ?s1 = "put_dir s1 new ?m"
    have "heap_mapped cur s1 t" using heap_mapped_mono [OF fresh(3)] c(2,3) by (metis dom_fun_upd insert_subset option.distinct(1) subset_insertI)
    then have "heap_mapped cur ?s1 t" using heap_mapped_mono [of cur s1 t ?s1] Cons.prems(7) by (simp add: put_dir_def)
    then obtain pa where pa: "get_physical_address cur ?s1 t = Some (?s1, pa)" using get_physical_address_mapped by blast
    define m where "m = ?m\<lparr>tables_physical := (tables_physical n)(?i := pa OR 7)\<rparr>"
    define s2 where "s2 = put_dir s1 new m"
    have step: "clone_tables cur s dir new (i # js) = clone_tables cur s2 dir new js"
      using Cons.prems(2-4) True c(1) pa by (simp add: private_tab_def m_def s2_def Let_def) (simp add: put_dir_def)
    have s2: "ptabs s2 = (ptabs s)(t \<mapsto> p')" "pages_left s2 = as" "kernel_page_directory s2 = kernel_page_directory s"
      "pdirs s2 = (pdirs s)(new \<mapsto> m)" "used_frames s2 = used_frames s1" "frames_left s2 = frames_left s1" "phys s2 = phys s1"
      "glb_frames s2 = glb_frames s1"
      using c by (simp_all add: s2_def put_dir_def used_frames_def frames_left_def)
    have k2: "keeps_frames s s2" using c(7) by (simp add: keeps_frames_def s2)
    have mt: "tables m = (tables n)(?i := t)" by (simp add: m_def)
    have "clone_ready cur s2 k d js"
      using clone_ready_step [OF Cons.prems(1) True t p(1) s2(1,2) k2] c(8) s2 Cons.prems(7) by simp
    moreover have "pdirs s2 dir = Some d" "pdirs s2 (kernel_page_directory s2) = Some k" "pdirs s2 new = Some m"
      "new \<noteq> kernel_page_directory s2" "distinct js" "\<forall>i \<in> set js. i < 1024 \<and> tables m (of_nat i) = 0"
      using Cons.prems ni by (auto simp: s2 mt image_iff)
    ultimately obtain s' n' where r: "clone_tables cur s2 dir new js = Some s'" "pdirs s' = (pdirs s2)(new \<mapsto> n')"
      "\<forall>i. i \<notin> of_nat ` set js \<longrightarrow> tables n' i = tables m i" "\<forall>i \<in> set js. tab_cloned s2 s' k d n' i"
      "kernel_page_directory s' = kernel_page_directory s2" "set (pages_left s') \<subseteq> set (pages_left s2)"
      "\<forall>a. a \<notin> set (pages_left s2) - set (pages_left s') \<longrightarrow> ptabs s' a = ptabs s2 a" "keeps_frames s2 s'"
      using Cons.IH [of s2 m] Cons.prems(5,7) by blast
    have tc: "table_copied s s' p p'"
    proof -
      have "keeps_frames s1 s2" by (simp add: keeps_frames_def s2)
      then show ?thesis using table_copied_later [OF c(6)] keeps_frames_trans r(8) by blast
    qed
    have "t \<notin> set as" by (fact fresh(4))
    then have "ptabs s' t = Some p'" using r(7) s2 by simp
    moreover have "tables n' ?i = t" using r(3) ni mt by simp
    ultimately have "tab_cloned s s' k d n' i" using True p(1) tc t by (auto simp: tab_cloned_def Let_def)
    moreover have "\<forall>j \<in> set js. tab_cloned s s' k d n' j"
    proof
      fix j
      assume j: "j \<in> set js"
      have own: "private_tab k d j \<Longrightarrow> \<exists>q. ptabs s (tables d (of_nat j)) = Some q \<and> table_owned s q"
        using Cons.prems(1) j by (simp add: clone_ready_def)
      show "tab_cloned s s' k d n' j"
      proof (cases "private_tab k d j")
        case True
        then obtain q where q: "ptabs s (tables d (of_nat j)) = Some q" "table_owned s q" using own by blast
        then have "ptabs s2 (tables d (of_nat j)) = Some q" using fresh(2) s2(1) by auto
        moreover have "tab_cloned s2 s' k d n' j" using r(4) j by blast
        ultimately obtain q' where "tables n' (of_nat j) \<in> set as" "ptabs s' (tables n' (of_nat j)) = Some q'" "table_copied s2 s' q q'"
          using True s2(2) by (auto simp: tab_cloned_def Let_def)
        then show ?thesis using True q table_copied_earlier [OF _ k2 q(2)] t by (auto simp: tab_cloned_def Let_def)
      next
        case False
        then show ?thesis using r(4) j by (simp add: tab_cloned_def Let_def)
      qed
    qed
    moreover have "\<forall>j. j \<notin> of_nat ` set (i # js) \<longrightarrow> tables n' j = tables n j" using r(3) mt by simp
    moreover have "\<forall>a. a \<notin> set (pages_left s) - set (pages_left s') \<longrightarrow> ptabs s' a = ptabs s a"
      using r(6,7) s2 t fresh(4) by auto
    ultimately show ?thesis using r(1,2,5,6,8) unfolding step
      by (intro exI [of _ s'] exI [of _ n']) (auto simp: s2 t intro: keeps_frames_trans [OF k2])
  qed
qed

subsection \<open>What a directory maps\<close>

definition page_of :: "paging \<Rightarrow> u32 \<Rightarrow> u32 \<Rightarrow> page option" where
  "page_of s dir va = do {
     d \<leftarrow> pdirs s dir;
     let t = tables d (va div 0x1000 div 1024);
     if t = 0 then None else page_at s (t AND 0xFFFFF000, va div 0x1000 mod 1024)
   }"

definition page_aligned :: "u32 \<Rightarrow> bool" where
  "page_aligned a \<longleftrightarrow> a AND 0xFFFFF000 = a"

text \<open>What \<open>page_directory_clone\<close> needs: addresses of the heap that were never used and that the directory in use
  maps, the tables of the directory, and as many free frames as its own pages have.\<close>

definition dir_clonable :: "u32 \<Rightarrow> paging \<Rightarrow> u32 \<Rightarrow> bool" where
  "dir_clonable cur s dir \<longleftrightarrow> (\<exists>d k new as. pdirs s dir = Some d \<and> pdirs s (kernel_page_directory s) = Some k \<and>
     pages_left s = new # as \<and> pdirs s new = None \<and> heap_mapped cur s new \<and> (cur = 0 \<or> pdirs s cur \<noteq> None) \<and> new \<noteq> 0 \<and>
     clone_ready cur (s\<lparr>pages_left := as\<rparr>) k d [0..<1024] \<and> (\<forall>i. page_aligned (tables d i) \<and> (tables d i \<noteq> 0 \<longrightarrow> ptabs s (tables d i) \<noteq> None)) \<and> (\<forall>a \<in> set as. page_aligned a))"

definition shares_table :: "paging \<Rightarrow> u32 \<Rightarrow> u32 \<Rightarrow> bool" where
  "shares_table s dir va \<longleftrightarrow> map_option (\<lambda>d. tables d (va div 0x1000 div 1024)) (pdirs s dir) =
     map_option (\<lambda>d. tables d (va div 0x1000 div 1024)) (pdirs s (kernel_page_directory s))"

lemma page_index: "unat ((va :: u32) div 0x1000 div 1024) < 1024" "unat ((va :: u32) div 0x1000 mod 1024) < 1024"
proof -
  have "unat va div 4096 div 1024 < 1024" using unat32_bound [of va] by (simp add: div_mult2_eq [symmetric] less_mult_imp_div_less)
  then show "unat (va div 0x1000 div 1024) < 1024" by (simp add: unat_div)
  show "unat (va div 0x1000 mod 1024) < 1024" by (simp add: unat_mod)
qed

lemma page_directory_clone_ok:
  assumes "dir_clonable cur s dir"
  shows "\<exists>s' new. page_directory_clone cur s dir = Some (s', new) \<and> keeps_frames s s' \<and> pdirs s new = None \<and> new \<noteq> 0 \<and>
    (\<forall>va. page_of s' dir va = page_of s dir va \<and>
      (case page_of s dir va of
         None \<Rightarrow> page_of s' new va = None
       | Some pg \<Rightarrow> (if shares_table s dir va then page_of s' new va = Some pg
           else (\<exists>pg'. page_of s' new va = Some pg' \<and> page_copied s s' pg pg'))))"
proof -
  obtain d k new as where a: "pdirs s dir = Some d" "pdirs s (kernel_page_directory s) = Some k" "pages_left s = new # as"
    "pdirs s new = None" "heap_mapped cur s new" "cur = 0 \<or> pdirs s cur \<noteq> None" "new \<noteq> 0"
    "clone_ready cur (s\<lparr>pages_left := as\<rparr>) k d [0..<1024]" "\<forall>i. page_aligned (tables d i) \<and> (tables d i \<noteq> 0 \<longrightarrow> ptabs s (tables d i) \<noteq> None)" "\<forall>a \<in> set as. page_aligned a"
    using assms unfolding dir_clonable_def by blast
  have ne: "new \<noteq> dir" "new \<noteq> kernel_page_directory s" "new \<noteq> cur" using a(1,2,4,6,7) by auto
  let ?s1 = "put_dir (s\<lparr>pages_left := as\<rparr>) new no_dir"
  have "heap_mapped cur ?s1 new" using heap_mapped_mono [OF a(5), of ?s1] ne(3) by (simp add: put_dir_def)
  then obtain pa where pa: "get_physical_address cur ?s1 new = Some (?s1, pa)" using get_physical_address_mapped by blast
  define m where "m = no_dir\<lparr>physical := pa + 4096\<rparr>"
  define s2 where "s2 = put_dir (s\<lparr>pages_left := as\<rparr>) new m"
  have start: "page_directory_clone cur s dir = do { s' \<leftarrow> clone_tables cur s2 dir new [0..<1024]; Some (s', new) }"
    unfolding page_directory_clone_def new_dir_def a(3) list.case bind.bind_lunit prod.case pa
    by (simp add: put_dir_def m_def s2_def)
  have s2: "ptabs s2 = ptabs s" "pages_left s2 = as" "kernel_page_directory s2 = kernel_page_directory s"
    "pdirs s2 = (pdirs s)(new \<mapsto> m)" "used_frames s2 = used_frames s" "frames_left s2 = frames_left s" "phys s2 = phys s"
    "glb_frames s2 = glb_frames s" "keeps_frames s s2"
    by (simp_all add: s2_def put_dir_def used_frames_def frames_left_def keeps_frames_def)
  have hm: "heap_mapped cur s2 b" if "heap_mapped cur (s\<lparr>pages_left := as\<rparr>) b" for b
    using heap_mapped_mono [OF that, of s2] ne(3) by (simp add: s2)
  have "clone_ready cur s2 k d [0..<1024]"
    using a(8) hm by (simp add: clone_ready_def s2 frames_ok_def tab_pages_def table_owned_def) (simp add: used_frames_def frames_left_def)
  moreover have "pdirs s2 dir = Some d" "pdirs s2 (kernel_page_directory s2) = Some k" "pdirs s2 new = Some m"
    "new \<noteq> kernel_page_directory s2" "\<forall>i \<in> set [0..<1024]. i < 1024 \<and> tables m (of_nat i) = 0"
    using a(1,2) ne by (simp_all add: s2 m_def no_dir_def)
  ultimately obtain s' n' where r: "clone_tables cur s2 dir new [0..<1024] = Some s'" "pdirs s' = (pdirs s2)(new \<mapsto> n')"
    "\<forall>i \<in> set [0..<1024]. tab_cloned s2 s' k d n' i" "set (pages_left s') \<subseteq> set (pages_left s2)"
    "\<forall>a. a \<notin> set (pages_left s2) - set (pages_left s') \<longrightarrow> ptabs s' a = ptabs s2 a" "keeps_frames s2 s'"
    using clone_tables_ok [of cur s2 k d "[0..<1024]" dir new m] ne(1,3) distinct_upt by blast
  have keep: "keeps_frames s s'" using keeps_frames_trans [OF s2(9) r(6)] .
  have tabs: "ptabs s' t = ptabs s t" if "ptabs s t \<noteq> None" for t
  proof -
    have "t \<notin> set as" using that a(8) by (auto simp: clone_ready_def)
    then show ?thesis using r(5) by (simp add: s2)
  qed
  have views: "page_of s' dir va = page_of s dir va \<and>
      (case page_of s dir va of
         None \<Rightarrow> page_of s' new va = None
       | Some pg \<Rightarrow> (if shares_table s dir va then page_of s' new va = Some pg
           else (\<exists>pg'. page_of s' new va = Some pg' \<and> page_copied s s' pg pg')))" for va
  proof -
    let ?i = "va div 0x1000 div 1024" and ?e = "va div 0x1000 mod 1024"
    let ?t = "tables d ?i" and ?t' = "tables n' ?i"
    have same: "page_of s' dir va = page_of s dir va"
      using a(1,9) r(2) ne(1) tabs [of ?t] by (simp add: page_of_def s2 Let_def page_aligned_def page_at_def)
    have "tab_cloned s2 s' k d n' (unat ?i)" using r(3) page_index(1) [of va] by simp
    then have c: "if ?t \<noteq> 0 \<and> ?t \<noteq> tables k ?i then ?t' \<in> set as \<and>
        (\<exists>p p'. ptabs s ?t = Some p \<and> ptabs s' ?t' = Some p' \<and> table_copied s2 s' p p') else ?t' = ?t"
      by (simp add: tab_cloned_def Let_def private_tab_def s2 cong: if_cong)
    have new: "page_of s' new va = (if ?t' = 0 then None else page_at s' (?t' AND 0xFFFFF000, ?e))"
      using r(2) by (simp add: page_of_def Let_def)
    have sh: "shares_table s dir va \<longleftrightarrow> ?t = tables k ?i" using a(1,2) by (simp add: shares_table_def)
    show ?thesis
    proof (cases "?t \<noteq> 0 \<and> ?t \<noteq> tables k ?i")
      case True
      then obtain p p' where p: "?t' \<in> set as" "ptabs s ?t = Some p" "ptabs s' ?t' = Some p'" "table_copied s2 s' p p'" using c by auto
      have "?t' \<noteq> 0" using p(1) a(8) by (auto simp: clone_ready_def)
      then have n: "page_of s' new va = Some (p' ?e)" using new p(1,3) a(10) by (simp add: page_aligned_def page_at_def)
      have o': "page_of s dir va = Some (p ?e)" using True a(1,9) p(2) by (simp add: page_of_def Let_def page_aligned_def page_at_def)
      have "page_copied s2 s' (p (of_nat (unat ?e))) (p' (of_nat (unat ?e)))" using p(4) page_index(2) [of va] unfolding table_copied_def by blast
      moreover have "page_bytes s2 = page_bytes s" by (simp add: fun_eq_iff page_bytes_def s2)
      ultimately have "page_copied s s' (p ?e) (p' ?e)" by (simp add: page_copied_def s2 cong: if_cong)
      then show ?thesis using same n o' sh True by simp
    next
      case False
      then have eq: "?t' = ?t" using c by auto
      then have "page_of s' new va = page_of s dir va" using new same a(1) r(2) ne(1) by (auto simp: page_of_def s2 Let_def split: if_splits)
      moreover have "shares_table s dir va" if "page_of s dir va \<noteq> None"
        using that False sh a(1) by (auto simp: page_of_def Let_def split: if_splits)
      ultimately show ?thesis using same by (auto split: option.split)
    qed
  qed
  show ?thesis using start r(1) keep a(4,7) views by (intro exI [of _ s'] exI [of _ new]) simp
qed

subsection \<open>The map of the kernel\<close>

text \<open>\<open>m\<close> tables of the kernel's directory are there, and the first \<open>n\<close> pages are mapped to the frames of their
  own numbers.\<close>

definition page_mapped :: "nat \<Rightarrow> nat \<Rightarrow> page \<Rightarrow> bool" where
  "page_mapped n j pg \<longleftrightarrow> (if j < n then present pg = 1 \<and> unat (frame_no pg) = j else pg = no_page)"

definition table_mapped :: "nat \<Rightarrow> nat \<Rightarrow> paging \<Rightarrow> u32 \<Rightarrow> bool" where
  "table_mapped n i s t \<longleftrightarrow> page_aligned t \<and>
     (\<exists>p. ptabs s t = Some p \<and> (\<forall>e. unat e < 1024 \<longrightarrow> page_mapped n (i * 1024 + unat e) (p e)))"

definition dir_mapped :: "nat \<Rightarrow> nat \<Rightarrow> paging \<Rightarrow> page_directory \<Rightarrow> bool" where
  "dir_mapped m n s d \<longleftrightarrow> (\<forall>i. tables d i \<noteq> 0 \<longleftrightarrow> unat i < m) \<and>
     (\<forall>i. tables d i \<noteq> 0 \<longrightarrow> table_mapped n (unat i) s (tables d i)) \<and>
     (\<forall>i j. tables d i \<noteq> 0 \<longrightarrow> tables d i = tables d j \<longrightarrow> i = j)"

definition spare_ok :: "paging \<Rightarrow> bool" where
  "spare_ok s \<longleftrightarrow> distinct (pages_left s) \<and>
     (\<forall>a \<in> set (pages_left s). a \<noteq> 0 \<and> page_aligned a \<and> ptabs s a = None \<and> pdirs s a = None)"

definition frames_upto :: "nat \<Rightarrow> paging \<Rightarrow> bool" where
  "frames_upto n s \<longleftrightarrow> bitset_bound (glb_frames s) = 0x100000 \<and>
     (\<forall>f. unat f < 0x100000 \<longrightarrow> (f \<in> used_frames s \<longleftrightarrow> unat f < n))"

definition kmap :: "nat \<Rightarrow> nat \<Rightarrow> paging \<Rightarrow> bool" where
  "kmap m n s \<longleftrightarrow> frames_upto n s \<and> spare_ok s \<and>
     (\<exists>d. pdirs s (kernel_page_directory s) = Some d \<and> dir_mapped m n s d)"

lemma page_of_number:
  assumes "n < 0x100000"
  shows "(of_nat (n * 4096) :: u32) div 0x1000 = of_nat n"
    and "unat ((of_nat (n * 4096) :: u32) div 0x1000 div 1024) = n div 1024"
    and "unat ((of_nat (n * 4096) :: u32) div 0x1000 mod 1024) = n mod 1024"
proof -
  have u: "unat (of_nat (n * 4096) :: u32) = n * 4096" using assms by (intro unat_of_nat32) simp
  have n: "unat (of_nat n :: u32) = n" using assms by (intro unat_of_nat32) simp
  show "(of_nat (n * 4096) :: u32) div 0x1000 = of_nat n" using u n by (simp add: word_eq_by_unat unat_div)
  show "unat ((of_nat (n * 4096) :: u32) div 0x1000 div 1024) = n div 1024" using u by (simp add: unat_div)
  show "unat ((of_nat (n * 4096) :: u32) div 0x1000 mod 1024) = n mod 1024" using u by (simp add: unat_div unat_mod)
qed

lemma kmap_new_table:
  assumes "kmap m n s" and "n = m * 1024" and "n < 0x100000" and "pages_left s = t # as"
  shows "\<exists>s1. get_page 0 s (of_nat (n * 4096)) True (kernel_page_directory s) =
      get_page 0 s1 (of_nat (n * 4096)) True (kernel_page_directory s1) \<and>
    kmap (Suc m) n s1 \<and> pages_left s1 = as \<and> kernel_page_directory s1 = kernel_page_directory s"
proof -
  obtain d where d: "pdirs s (kernel_page_directory s) = Some d" "dir_mapped m n s d" using assms(1) by (auto simp: kmap_def)
  have fs: "frames_upto n s" "spare_ok s" using assms(1) by (simp_all add: kmap_def)
  have t: "t \<noteq> 0" "page_aligned t" "ptabs s t = None" "t \<notin> set as" using fs(2) assms(4) by (auto simp: spare_ok_def)
  let ?va = "of_nat (n * 4096) :: u32" and ?k = "kernel_page_directory s"
  let ?i = "?va div 0x1000 div 1024"
  have i: "unat ?i = m" using page_of_number(2) [OF assms(3)] assms(2) by simp
  then have z: "tables d ?i = 0" using d(2) by (auto simp: dir_mapped_def)
  let ?d = "d\<lparr>tables := (tables d)(?i := t), tables_physical := (tables_physical d)(?i := t OR 7)\<rparr>"
  let ?s = "s\<lparr>pages_left := as, ptabs := (ptabs s)(t \<mapsto> (\<lambda>_. no_page)), pdirs := (pdirs s)(?k \<mapsto> ?d)\<rparr>"
  have dk: "pdirs ?s ?k = Some ?d" "tables ?d ?i \<noteq> 0" using t(1) by simp_all
  have "get_page 0 s ?va True ?k = Some (?s, tables ?d ?i AND 0xFFFFF000, ?va div 0x1000 mod 1024)"
    using d(1) z assms(4) by (subst get_page.simps) (simp add: Let_def new_table_def put_dir_def)
  moreover have "get_page 0 ?s ?va True ?k = Some (?s, tables ?d ?i AND 0xFFFFF000, ?va div 0x1000 mod 1024)"
    by (rule get_page_mapped [OF dk])
  moreover have nt: "tables d j \<noteq> t" for j using d(2) t(1,3) by (cases "tables d j = 0") (auto simp: dir_mapped_def table_mapped_def)
  then have "dir_mapped (Suc m) n ?s ?d"
  proof -
    have "tables ?d j \<noteq> 0 \<longleftrightarrow> unat j < Suc m" for j
      using d(2) t(1) i word_eq_by_unat [of j ?i] by (simp add: dir_mapped_def less_Suc_eq)
    moreover have "table_mapped n (unat j) ?s (tables ?d j)" if "tables ?d j \<noteq> 0" for j
    proof (cases "j = ?i")
      case True
      then show ?thesis using t(2) i assms(2) by (simp add: table_mapped_def page_mapped_def)
    next
      case False
      then have "table_mapped n (unat j) s (tables d j)" using that d(2) by (simp add: dir_mapped_def)
      then show ?thesis using False nt by (simp add: table_mapped_def)
    qed
    moreover have "j = j'" if "tables ?d j \<noteq> 0" "tables ?d j = tables ?d j'" for j j'
    proof -
      have "tables d j = tables d j'" "j = ?i \<longleftrightarrow> j' = ?i" using that(2) nt nt [symmetric] by (auto split: if_splits)
      then show ?thesis using that(1) d(2) unfolding dir_mapped_def by (cases "j = ?i") auto
    qed
    ultimately show ?thesis unfolding dir_mapped_def by blast
  qed
  moreover have "spare_ok ?s" using fs(2) d(1) assms(4) by (auto simp: spare_ok_def)
  moreover have "frames_upto n ?s" using fs(1) by (simp add: frames_upto_def used_frames_def)
  ultimately show ?thesis by (intro exI [of _ ?s]) (simp add: kmap_def)
qed

lemma kmap_page:
  assumes "kmap m n s" and "n < m * 1024" and "n < 0x100000" and "m \<le> 1024"
  shows "\<exists>l s2. get_page 0 s (of_nat (n * 4096)) True (kernel_page_directory s) = Some (s, l) \<and>
    alloc_frame s l False False = Some s2 \<and> kmap m (Suc n) s2 \<and> pages_left s2 = pages_left s \<and>
    kernel_page_directory s2 = kernel_page_directory s"
proof -
  obtain d where d: "pdirs s (kernel_page_directory s) = Some d" "dir_mapped m n s d" using assms(1) by (auto simp: kmap_def)
  have fs: "frames_upto n s" "spare_ok s" using assms(1) by (simp_all add: kmap_def)
  let ?va = "of_nat (n * 4096) :: u32" and ?k = "kernel_page_directory s"
  let ?i = "?va div 0x1000 div 1024" and ?e = "?va div 0x1000 mod 1024" and ?f = "of_nat n :: u32"
  have ie: "unat ?i = n div 1024" "unat ?e = n mod 1024" using page_of_number [OF assms(3)] by simp_all
  have f: "unat ?f = n" using assms(3) by (intro unat_of_nat32) simp
  have "unat ?i < m" using ie(1) assms(2) by (simp add: div_less_iff_less_mult)
  then have nz: "tables d ?i \<noteq> 0" using d(2) by (simp add: dir_mapped_def)
  then have "table_mapped n (unat ?i) s (tables d ?i)" using d(2) unfolding dir_mapped_def by blast
  then have "table_mapped n (n div 1024) s (tables d ?i)" unfolding ie(1) .
  then obtain p where p: "page_aligned (tables d ?i)" "ptabs s (tables d ?i) = Some p"
    "\<forall>e. unat e < 1024 \<longrightarrow> page_mapped n (n div 1024 * 1024 + unat e) (p e)" by (auto simp: table_mapped_def)
  have "p ?e = no_page" using p(3) [rule_format, of ?e] ie(2) by (simp add: page_mapped_def)
  then have at: "page_at s (tables d ?i, ?e) = Some no_page" using p(2) by (simp add: page_at_def)
  have fl: "frames_left s = {g. n \<le> unat g \<and> unat g < 0x100000}" using fs(1) by (auto simp: frames_left_def frames_upto_def)
  have m: "?f \<in> frames_left s" using f assms(3) unfolding fl by simp
  have "?f \<le> g" if "g \<in> frames_left s" for g using that f unfolding fl by (simp add: word_le_nat_alt)
  then have "Min (frames_left s) = ?f" using m by (intro Min_eqI) simp_all
  note m = m this
  have ne: "frames_left s \<noteq> {}" using m(1) by blast
  obtain s2 where s2: "alloc_frame s (tables d ?i, ?e) False False = Some s2"
    "used_frames s2 = insert ?f (used_frames s)"
    "s2 = (put_page s (tables d ?i, ?e) (no_page\<lparr>frame := ucast ?f, present := 1, rw := 0, user := 1\<rparr>))\<lparr>frame_bits := frame_bits s2\<rparr>"
    using alloc_frame_ok [OF at, of False False] unfolding m(2) if_not_P [OF ne] if_False by blast
  define b where "b = frame_bits s2"
  let ?pg = "no_page\<lparr>frame := ucast ?f, present := 1, rw := 0, user := 1\<rparr>"
  have e2: "s2 = s\<lparr>ptabs := (ptabs s)(tables d ?i \<mapsto> p(?e := ?pg)), frame_bits := b\<rparr>"
    using s2(3) p(2) by (simp add: b_def put_page_def)
  have pg: "page_mapped (Suc n) n ?pg" using frame_no_ucast [of ?f no_page] f assms(3) by (simp add: page_mapped_def frame_no_def)
  have "table_mapped (Suc n) (unat j) s2 (tables d j)" if "tables d j \<noteq> 0" for j
  proof (cases "j = ?i")
    case True
    have "page_mapped (Suc n) (n div 1024 * 1024 + unat e) ((p(?e := ?pg)) e)" if "unat e < 1024" for e
    proof (cases "e = ?e")
      case True
      then show ?thesis using pg ie(2) by simp
    next
      case False
      then have "unat e \<noteq> n mod 1024" using ie(2) word_eq_by_unat [of e ?e] by simp
      then have "n div 1024 * 1024 + unat e \<noteq> n" using div_mult_mod_eq [of n 1024] by linarith
      then show ?thesis using p(3) that False by (simp add: page_mapped_def less_Suc_eq)
    qed
    then show ?thesis using p(1) ie(1) by (simp add: True table_mapped_def e2)
  next
    case False
    then have "tables d j \<noteq> tables d ?i" "unat j \<noteq> n div 1024"
      using d(2) that ie(1) word_eq_by_unat [of j ?i] by (auto simp: dir_mapped_def)
    moreover have "page_mapped n (unat j * 1024 + unat e) pg' \<longleftrightarrow> page_mapped (Suc n) (unat j * 1024 + unat e) pg'"
      if "unat e < 1024" for e :: u32 and pg'
    proof -
      have "unat j * 1024 + unat e \<noteq> n" using that \<open>unat j \<noteq> n div 1024\<close> by auto
      then show ?thesis by (auto simp: page_mapped_def)
    qed
    ultimately show ?thesis using that d(2) by (auto simp: table_mapped_def e2 dir_mapped_def)
  qed
  then have "dir_mapped m (Suc n) s2 d" using d(2) unfolding dir_mapped_def by blast
  moreover have "spare_ok s2" using fs(2) p(2) by (auto simp: spare_ok_def e2)
  moreover have "frames_upto (Suc n) s2"
  proof -
    have "g = ?f \<longleftrightarrow> unat g = n" for g using f word_eq_by_unat [of g ?f] by simp
    moreover have "glb_frames s2 = glb_frames s" by (simp add: e2)
    ultimately show ?thesis using fs(1) s2(2) by (auto simp: frames_upto_def less_Suc_eq)
  qed
  moreover have "get_page 0 s ?va True ?k = Some (s, tables d ?i, ?e)"
    using get_page_mapped [OF d(1) nz, of 0 True] p(1) by (simp add: page_aligned_def)
  ultimately show ?thesis using s2(1) d(1)
    by (intro exI [of _ "(tables d ?i, ?e)"] exI [of _ s2]) (simp add: kmap_def e2)
qed

definition tables_for :: "nat \<Rightarrow> nat" where
  "tables_for n = (n + 1023) div 1024"

lemma tables_for_bounds: "n \<le> 1024 * tables_for n" "1024 * tables_for n \<le> n + 1023"
  using div_mult_mod_eq [of "n + 1023" 1024] mod_less_divisor [of 1024 "n + 1023"] unfolding tables_for_def by linarith+

lemma tables_for_Suc: "tables_for (Suc n) = (if n mod 1024 = 0 then Suc (tables_for n) else tables_for n)"
proof -
  have n: "n = 1024 * (n div 1024) + n mod 1024" "n mod 1024 < 1024" by simp_all
  note b = tables_for_bounds [of n] tables_for_bounds [of "Suc n"]
  show ?thesis
  proof (cases "n mod 1024 = 0")
    case True
    then have "tables_for n = n div 1024" "tables_for (Suc n) = Suc (n div 1024)" using n b by linarith+
    then show ?thesis using True by simp
  next
    case False
    then have "tables_for n = Suc (n div 1024)" "tables_for (Suc n) = Suc (n div 1024)" using n b by linarith+
    then show ?thesis using False by simp
  qed
qed

lemma kmap_step:
  assumes "kmap (tables_for n) n s" and "n < N" and "N < 0x100000" and "N + 1024 \<le> 1024 * (tables_for n + length (pages_left s))"
  shows "\<exists>s1 l s2. get_page 0 s (of_nat (n * 4096)) True (kernel_page_directory s) = Some (s1, l) \<and>
    alloc_frame s1 l False False = Some s2 \<and> kmap (tables_for (Suc n)) (Suc n) s2 \<and>
    N + 1024 \<le> 1024 * (tables_for (Suc n) + length (pages_left s2)) \<and> kernel_page_directory s2 = kernel_page_directory s"
proof (cases "n mod 1024 = 0")
  case True
  have "n = 1024 * (n div 1024)" using True div_mult_mod_eq [of n 1024] by linarith
  moreover from this have "tables_for n = n div 1024" using tables_for_bounds [of n] by linarith
  ultimately have n: "n = tables_for n * 1024" "tables_for (Suc n) = Suc (tables_for n)" using True by (simp_all add: tables_for_Suc)
  then obtain t as where "pages_left s = t # as" using assms(2,4) by (cases "pages_left s") auto
  from kmap_new_table [OF assms(1) n(1) _ this] obtain s1 where s1:
    "get_page 0 s (of_nat (n * 4096)) True (kernel_page_directory s) = get_page 0 s1 (of_nat (n * 4096)) True (kernel_page_directory s1)"
    "kmap (tables_for (Suc n)) n s1" "pages_left s1 = as" "kernel_page_directory s1 = kernel_page_directory s"
    using assms(2,3) n(2) by auto
  moreover have "n < tables_for (Suc n) * 1024" "tables_for (Suc n) \<le> 1024"
    using assms(2,3) tables_for_bounds [of "Suc n"] by linarith+
  ultimately obtain l s2 where "get_page 0 s1 (of_nat (n * 4096)) True (kernel_page_directory s1) = Some (s1, l)"
    "alloc_frame s1 l False False = Some s2" "kmap (tables_for (Suc n)) (Suc n) s2" "pages_left s2 = pages_left s1"
    "kernel_page_directory s2 = kernel_page_directory s1"
    using kmap_page [of "tables_for (Suc n)" n s1] assms(2,3) by auto
  then show ?thesis using s1 assms(4) n(2) \<open>pages_left s = t # as\<close> by simp
next
  case False
  then have "tables_for (Suc n) = tables_for n" by (simp add: tables_for_Suc)
  moreover from this have "n < tables_for n * 1024" using tables_for_bounds [of "Suc n"] by linarith
  moreover have "tables_for n \<le> 1024" using assms(2,3) tables_for_bounds [of n] by linarith
  ultimately show ?thesis using kmap_page [OF assms(1)] assms(2-4) by fastforce
qed

lemma map_kernel_ok:
  assumes "kmap (tables_for n) n s" and "n \<le> N" and "N < 0x100000" and "N + 1024 \<le> 1024 * (tables_for n + length (pages_left s))"
    and "unat bound \<le> N * 4096" and "N * 4096 < unat bound + 4096"
  shows "\<exists>s'. map_kernel s (of_nat (n * 4096)) bound = Some s' \<and> kmap (tables_for N) N s' \<and> pages_left s' \<noteq> [] \<and>
    kernel_page_directory s' = kernel_page_directory s"
  using assms
proof (induction "N - n" arbitrary: n s)
  case 0
  have u: "unat (of_nat (n * 4096) :: u32) = n * 4096" using "0.prems" by (intro unat_of_nat32) simp
  then have "\<not> of_nat (n * 4096) < bound" using 0 by (simp add: word_less_nat_alt)
  moreover have nN: "n = N" using 0 by simp
  have "1024 * tables_for n < n + 1024" using tables_for_bounds [of n] by linarith
  then have "pages_left s \<noteq> []" using nN "0.prems"(4) by auto
  ultimately show ?case using "0.prems"(1) unfolding nN by (subst map_kernel.simps) simp
next
  case (Suc j)
  have u: "unat (of_nat (n * 4096) :: u32) = n * 4096" using Suc.prems by (intro unat_of_nat32) simp
  have lt: "n < N" using Suc.hyps(2) by simp
  then have go: "of_nat (n * 4096) < bound" using Suc.prems(6) u by (simp add: word_less_nat_alt)
  obtain s1 l s2 where st: "get_page 0 s (of_nat (n * 4096)) True (kernel_page_directory s) = Some (s1, l)"
    "alloc_frame s1 l False False = Some s2" "kmap (tables_for (Suc n)) (Suc n) s2"
    "N + 1024 \<le> 1024 * (tables_for (Suc n) + length (pages_left s2))" "kernel_page_directory s2 = kernel_page_directory s"
    using kmap_step [OF Suc.prems(1) lt Suc.prems(3,4)] by blast
  have "(of_nat (n * 4096) :: u32) + 0x1000 = of_nat (Suc n * 4096)" by simp
  then have "map_kernel s (of_nat (n * 4096)) bound = map_kernel s2 (of_nat (Suc n * 4096)) bound"
    using go st(1,2) by (subst map_kernel.simps) (simp only: if_True bind.bind_lunit prod.case)
  moreover have "\<exists>s'. map_kernel s2 (of_nat (Suc n * 4096)) bound = Some s' \<and> kmap (tables_for N) N s' \<and> pages_left s' \<noteq> [] \<and>
      kernel_page_directory s' = kernel_page_directory s2"
    using Suc.hyps(2) lt Suc.prems(3,5,6) st by (intro Suc.hyps(1)) simp_all
  ultimately show ?case using st(5) by simp
qed

lemma kmap_start:
  assumes "spare_ok s" and "pages_left s = k # as" and "bitset_init (frame_bits s) bits 0x100000 = (bs, b)"
  defines "s1 \<equiv> (put_dir (s\<lparr>glb_frames := bs, frame_bits := b, pages_left := as\<rparr>) k no_dir)\<lparr>kernel_page_directory := k\<rparr>"
  shows "kmap (tables_for 0) 0 s1"
proof -
  have bs: "bs = fst (bitset_init (frame_bits s) bits 0x100000)" "b = snd (bitset_init (frame_bits s) bits 0x100000)"
    using assms(3) by simp_all
  have bound: "bitset_bound bs = 0x100000" by (simp add: bs bitset_init_def bitset_bound_def)
  have "f \<notin> used_frames s1" if "unat f < 0x100000" for f
    using bitset_init_clear [of f "frame_bits s" bits "0x100000"] that bound
    by (simp add: bs [symmetric] s1_def used_frames_def put_dir_def)
  then have "frames_upto 0 s1" using bound by (simp add: frames_upto_def s1_def put_dir_def)
  moreover have "spare_ok s1" using assms(1,2) by (auto simp: spare_ok_def s1_def put_dir_def)
  moreover have "dir_mapped 0 0 s1 no_dir" by (simp add: dir_mapped_def no_dir_def)
  ultimately show ?thesis by (simp add: kmap_def tables_for_def s1_def put_dir_def)
qed

lemma page_aligned_0 [simp]: "page_aligned 0"
  by (simp add: page_aligned_def)

lemma dir_mapped_cong:
  assumes "dir_mapped m n s d" and "tables d' = tables d" and "ptabs s' = ptabs s"
  shows "dir_mapped m n s' d'"
  using assms(1) unfolding dir_mapped_def table_mapped_def assms(2,3) .

lemma kmap_page_of:
  assumes "kmap m n s" and "unat va div 4096 < n" and "n \<le> m * 1024"
  shows "\<exists>pg. page_of s (kernel_page_directory s) va = Some pg \<and> present pg = 1 \<and> frame_addr pg + va mod 0x1000 = va"
proof -
  obtain d where d: "pdirs s (kernel_page_directory s) = Some d" "dir_mapped m n s d" using assms(1) by (auto simp: kmap_def)
  let ?i = "va div 0x1000 div 1024" and ?e = "va div 0x1000 mod 1024"
  have ie: "unat ?i = unat va div 4096 div 1024" "unat ?e = unat va div 4096 mod 1024" by (simp_all add: unat_div unat_mod)
  have "unat ?i < m" using assms(2,3) ie(1) by (simp add: div_less_iff_less_mult)
  then have nz: "tables d ?i \<noteq> 0" using d(2) by (simp add: dir_mapped_def)
  then have "table_mapped n (unat ?i) s (tables d ?i)" using d(2) unfolding dir_mapped_def by blast
  then obtain p where p: "page_aligned (tables d ?i)" "ptabs s (tables d ?i) = Some p"
    "page_mapped n (unat ?i * 1024 + unat ?e) (p ?e)" using page_index(2) [of va] unfolding table_mapped_def by blast
  have j: "unat ?i * 1024 + unat ?e = unat va div 4096" unfolding ie by simp
  then have q: "present (p ?e) = 1" "unat (frame_no (p ?e)) = unat va div 4096"
    using p(3) assms(2) by (simp_all add: page_mapped_def)
  then have "frame_no (p ?e) = va div 0x1000" by (simp add: word_eq_by_unat unat_div)
  then have "frame_addr (p ?e) + va mod 0x1000 = va" unfolding frame_addr_no by (simp add: word_mod_div_equality)
  moreover have "page_of s (kernel_page_directory s) va = Some (p ?e)"
    using d(1) nz p(1,2) by (simp add: page_of_def Let_def page_aligned_def page_at_def)
  ultimately show ?thesis using q(1) by blast
qed

lemma get_page_page_of:
  assumes "page_of s dir va = Some pg"
  shows "\<exists>l. get_page cur s va init dir = Some (s, l) \<and> page_at s l = Some pg"
proof -
  obtain d where d: "pdirs s dir = Some d" "tables d (va div 0x1000 div 1024) \<noteq> 0"
    "page_at s (tables d (va div 0x1000 div 1024) AND 0xFFFFF000, va div 0x1000 mod 1024) = Some pg"
    using assms by (auto simp: page_of_def Let_def bind_eq_Some_conv split: if_splits)
  show ?thesis using get_page_mapped [OF d(1,2)] d(3) by blast
qed

lemma paging_init_maps:
  assumes "spare_ok s" and "pages_left s = k # as" and "unat bound \<le> 0xFFFFF000" and "unat bound div 4096 + 1025 \<le> 1024 * length as"
  shows "\<exists>s' cur. paging_init s bits bound = Some (s', cur) \<and>
    (\<forall>va < bound. get_physical_address cur s' va = Some (s', va) \<and> (\<exists>pg. page_of s' cur va = Some pg \<and> present pg = 1))"
proof -
  obtain bs b where b: "bitset_init (frame_bits s) bits 0x100000 = (bs, b)" by fastforce
  define s1 where "s1 = (put_dir (s\<lparr>glb_frames := bs, frame_bits := b, pages_left := as\<rparr>) k no_dir)\<lparr>kernel_page_directory := k\<rparr>"
  have k1: "kmap (tables_for 0) 0 s1" "kernel_page_directory s1 = k" "pages_left s1 = as"
    using kmap_start [OF assms(1,2) b] by (simp_all add: s1_def put_dir_def)
  define N where "N = (unat bound + 4095) div 4096"
  have N: "unat bound \<le> N * 4096" "N * 4096 < unat bound + 4096" "N < 0x100000" "N \<le> unat bound div 4096 + 1"
    using assms(3) unfolding N_def by linarith+
  have room: "N + 1024 \<le> 1024 * (tables_for 0 + length (pages_left s1))" using N(4) assms(4) k1(3) by (simp add: tables_for_def)
  obtain s2 where s2: "map_kernel s1 0 bound = Some s2" "kmap (tables_for N) N s2" "pages_left s2 \<noteq> []" "kernel_page_directory s2 = k"
    using map_kernel_ok [OF k1(1) _ N(3) room N(1,2)] k1(2) by auto
  obtain d where d: "pdirs s2 k = Some d" "dir_mapped (tables_for N) N s2 d" using s2(2,4) by (auto simp: kmap_def)
  define s3 where "s3 = put_dir s2 k (d\<lparr>physical := k + 4096\<rparr>)"
  have init: "paging_init s bits bound = page_directory_clone 0 s3 k"
    using s2(1) d(1) b assms(2)
    by (simp add: paging_init_def new_dir_def s1_def s3_def put_dir_def)
  have f3: "ptabs s3 = ptabs s2" "pages_left s3 = pages_left s2" "kernel_page_directory s3 = k" "used_frames s3 = used_frames s2"
    "pdirs s3 = (pdirs s2)(k \<mapsto> d\<lparr>physical := k + 4096\<rparr>)" "glb_frames s3 = glb_frames s2"
    using s2(4) by (simp_all add: s3_def put_dir_def used_frames_def)
  have "kmap (tables_for N) N s3"
  proof -
    have "dir_mapped (tables_for N) N s3 (d\<lparr>physical := k + 4096\<rparr>)" using d(2) by (rule dir_mapped_cong) (simp_all add: f3)
    then show ?thesis using s2(2) d(1) by (auto simp: kmap_def f3 frames_upto_def spare_ok_def)
  qed
  note pages = kmap_page_of [OF this]
  obtain new rest where new: "pages_left s2 = new # rest" using s2(3) by (cases "pages_left s2") auto
  have "dir_clonable 0 s3 k"
  proof -
    have sp: "spare_ok s2" "frames_upto N s2" using s2(2) by (simp_all add: kmap_def)
    have "clone_ready 0 (s3\<lparr>pages_left := rest\<rparr>) (d\<lparr>physical := k + 4096\<rparr>) (d\<lparr>physical := k + 4096\<rparr>) [0..<1024]"
      using sp new by (auto simp: clone_ready_def private_tab_def spare_ok_def heap_mapped_def f3 frames_ok_def frames_upto_def)
    moreover have "page_aligned (tables d i) \<and> (tables d i \<noteq> 0 \<longrightarrow> ptabs s2 (tables d i) \<noteq> None)" for i
      using d(2) by (cases "tables d i = 0") (auto simp: dir_mapped_def table_mapped_def)
    ultimately show ?thesis using sp(1) new d(1) unfolding dir_clonable_def
      by (intro exI [of _ "d\<lparr>physical := k + 4096\<rparr>"] exI [of _ new] exI [of _ rest]) (auto simp: f3 spare_ok_def heap_mapped_def)
  qed
  from page_directory_clone_ok [OF this] obtain s' cur where c: "page_directory_clone 0 s3 k = Some (s', cur)" "cur \<noteq> 0"
    and view: "\<forall>va. page_of s' k va = page_of s3 k va \<and>
      (case page_of s3 k va of None \<Rightarrow> page_of s' cur va = None
       | Some pg \<Rightarrow> (if shares_table s3 k va then page_of s' cur va = Some pg
           else (\<exists>pg'. page_of s' cur va = Some pg' \<and> page_copied s3 s' pg pg')))"
    by blast
  have "get_physical_address cur s' va = Some (s', va) \<and> (\<exists>pg. page_of s' cur va = Some pg \<and> present pg = 1)" if "va < bound" for va
  proof -
    have "unat va div 4096 < N" using that N(1) by (simp add: word_less_nat_alt less_mult_imp_div_less)
    then obtain pg where pg: "page_of s3 k va = Some pg" "present pg = 1" "frame_addr pg + va mod 0x1000 = va"
      using pages [of va] tables_for_bounds [of N] f3(3) by (auto simp: mult.commute)
    then have "page_of s' cur va = Some pg" using view [rule_format, of va] f3(3) by (simp add: shares_table_def)
    then show ?thesis using get_page_page_of [of s' cur va pg cur False] pg(2,3) c(2) by (auto simp: get_physical_address_def)
  qed
  then show ?thesis using init c(1) by auto
qed

text \<open>After \<open>paging_init\<close> every address below the end of the kernel heap is mapped to itself, in the directory
  that is then in use: its page is present, and the physical address the kernel computes for it is the
  address. So the kernel runs on when paging is switched on, and the physical addresses of the tables
  it built before are right.\<close>

theorem paging_init_identity:
  assumes "spare_ok s" and "pages_left s = k # as" and "unat bound \<le> 0xFFFFF000" and "unat bound div 4096 + 1025 \<le> 1024 * length as"
  shows "\<exists>s' cur. paging_init s bits bound = Some (s', cur) \<and>
    (\<forall>va < bound. get_physical_address cur s' va = Some (s', va) \<and> (\<exists>pg. page_of s' cur va = Some pg \<and> present pg = 1))"
  using assms by (rule paging_init_maps)

definition paging0 :: "u32 list \<Rightarrow> paging" where
  "paging0 as = \<lparr>frame_bits = (\<lambda>_. 0), glb_frames = \<lparr>bs_start = 0, bs_len = 0\<rparr>, ptabs = (\<lambda>_. None), pdirs = (\<lambda>_. None),
     pages_left = as, kernel_page_directory = 0, phys = (\<lambda>_. 0)\<rparr>"

theorem paging_init_identity_witness:
  "\<exists>s' cur. paging_init (paging0 [0x1000, 0x2000, 0x3000]) 0 0x2000 = Some (s', cur) \<and>
    get_physical_address cur s' 0x1234 = Some (s', 0x1234)"
proof -
  have "spare_ok (paging0 [0x1000, 0x2000, 0x3000])" by (simp add: spare_ok_def paging0_def page_aligned_def)
  from paging_init_identity [OF this, of "0x1000" "[0x2000, 0x3000]" "0x2000" 0] show ?thesis by (force simp: paging0_def)
qed

text \<open>C33. The copy of a directory that \<open>task_fork\<close> makes maps what the original maps. A table of the kernel is
  shared. A page of the task's own gets the flags of the original, a frame that was not in use, and in
  it the bytes of the original, and the original and all memory in use stay as they were: neither of
  the two sees what the other writes to its pages afterwards.\<close>

theorem page_directory_clone_copies:
  assumes "dir_clonable cur s dir"
  shows "\<exists>s' new. page_directory_clone cur s dir = Some (s', new) \<and> keeps_frames s s' \<and>
    (\<forall>va. page_of s' dir va = page_of s dir va \<and>
      (case page_of s dir va of
         None \<Rightarrow> page_of s' new va = None
       | Some pg \<Rightarrow> (if shares_table s dir va then page_of s' new va = Some pg
           else (\<exists>pg'. page_of s' new va = Some pg' \<and> page_copied s s' pg pg'))))"
  using page_directory_clone_ok [OF assms] by blast

definition demo_page :: page where
  "demo_page = no_page\<lparr>frame := 5, present := 1, rw := 1, user := 1\<rparr>"

definition clone_demo :: paging where
  "clone_demo = (paging0 [0x5000, 0x6000])\<lparr>glb_frames := \<lparr>bs_start = 0, bs_len = 0x100000\<rparr>,
     frame_bits := bitset_set (\<lambda>_. 0) \<lparr>bs_start = 0, bs_len = 0x100000\<rparr> 5 1, kernel_page_directory := 0x1000,
     ptabs := [0x3000 \<mapsto> (\<lambda>_. no_page)(0 := demo_page)], pdirs := [0x1000 \<mapsto> no_dir, 0x2000 \<mapsto> no_dir\<lparr>tables := (\<lambda>_. 0)(1 := 0x3000)\<rparr>],
     phys := (\<lambda>a. ucast a)\<rparr>"

lemma filter_one: "k < n \<Longrightarrow> filter (\<lambda>i. i = k) [0..<n] = [k]"
  by (induction n) (auto simp: less_Suc_eq)

lemma used_demo: "used_frames clone_demo = {5}"
proof -
  have "bitset_members (\<lambda>_. 0) bs = {}" for bs by (simp add: bitset_members_def bitset_get_def)
  then show ?thesis by (simp add: used_frames_def clone_demo_def bitset_set_members)
qed

lemma clone_demo_ok: "dir_clonable 0 clone_demo 0x2000"
proof -
  let ?d = "no_dir\<lparr>tables := (\<lambda>_. 0)(1 := 0x3000)\<rparr>" and ?s = "clone_demo\<lparr>pages_left := [0x6000]\<rparr>"
  have u: "used_frames ?s = {5}" using used_demo by (simp add: used_frames_def)
  have one: "private_tab no_dir ?d i \<longleftrightarrow> i = 1" if "i < 1024" for i
    using of_nat_index [OF that, of 1] by (auto simp: private_tab_def no_dir_def)
  then have "filter (private_tab no_dir ?d) [0..<1024] = filter (\<lambda>i. i = 1) [0..<1024]" by (intro filter_cong refl) simp
  then have f: "filter (private_tab no_dir ?d) [0..<1024] = [1]" using filter_one [of 1 1024] by simp
  have own: "table_owned ?s ((\<lambda>_. no_page)(0 := demo_page))"
    by (simp add: table_owned_def u no_page_def demo_page_def frame_no_def)
  have "pages_used ((\<lambda>_. no_page)(0 := demo_page)) [0..<1024] = filter (\<lambda>i. i = 0) [0..<1024]"
  proof -
    have "frame (((\<lambda>_. no_page)(0 := demo_page)) (of_nat i :: u32)) \<noteq> 0 \<longleftrightarrow> i = 0" if "i < 1024" for i
      using of_nat_index [OF that, of 0] by (simp add: no_page_def demo_page_def)
    then show ?thesis unfolding pages_used_def by (intro filter_cong refl) simp
  qed
  then have pages: "tab_pages ?s 0x3000 = 1" by (simp add: tab_pages_def clone_demo_def table_used_def filter_one del: upt_conv_Cons upt_rec)
  have "6 \<in> frames_left ?s" by (simp add: frames_left_def u) (simp add: clone_demo_def bitset_bound_def)
  then have left: "1 \<le> card (frames_left ?s)" by (metis One_nat_def Suc_leI card_gt_0_iff empty_iff finite_frames)
  have "clone_ready 0 ?s no_dir ?d [0..<1024]"
    unfolding clone_ready_def f using one own pages left
    by (auto simp: clone_demo_def paging0_def heap_mapped_def frames_ok_def bitset_bound_def)
  then show ?thesis unfolding dir_clonable_def
    by (intro exI [of _ ?d] exI [of _ no_dir] exI [of _ "0x5000"] exI [of _ "[0x6000]"])
      (simp add: clone_demo_def paging0_def heap_mapped_def page_aligned_def)
qed

theorem page_directory_clone_copies_witness:
  "\<exists>s' new pg'. page_directory_clone 0 clone_demo 0x2000 = Some (s', new) \<and> page_of s' new 0x400000 = Some pg' \<and>
     frame_no pg' \<noteq> 5 \<and> rw pg' = 1 \<and> page_bytes s' pg' = page_bytes clone_demo demo_page"
proof -
  from page_directory_clone_copies [OF clone_demo_ok] obtain s' new where c: "page_directory_clone 0 clone_demo 0x2000 = Some (s', new)"
    "case page_of clone_demo 0x2000 0x400000 of None \<Rightarrow> page_of s' new 0x400000 = None
     | Some pg \<Rightarrow> (if shares_table clone_demo 0x2000 0x400000 then page_of s' new 0x400000 = Some pg
         else (\<exists>pg'. page_of s' new 0x400000 = Some pg' \<and> page_copied clone_demo s' pg pg'))" by blast
  have "page_of clone_demo 0x2000 0x400000 = Some demo_page" "\<not> shares_table clone_demo 0x2000 0x400000"
    by (simp_all add: page_of_def page_at_def shares_table_def clone_demo_def no_dir_def)
  then obtain pg' where "page_of s' new 0x400000 = Some pg'" "page_copied clone_demo s' demo_page pg'" using c(2) by auto
  then show ?thesis using c(1) used_demo by (auto simp: page_copied_def demo_page_def)
qed

text \<open>C34. A page is given the least frame that is not in use, which is then in use, and is present with the access
  that was asked for; no other page changes.\<close>

theorem alloc_frame_least:
  assumes "frames_ok s" and "page_at s l = Some pg" and "frames_left s \<noteq> {}"
  shows "\<exists>s' pg'. alloc_frame s l w k = Some s' \<and> page_at s' l = Some pg' \<and> frame_no pg' \<in> frames_left s \<and>
    (\<forall>f \<in> frames_left s. frame_no pg' \<le> f) \<and> used_frames s' = insert (frame_no pg') (used_frames s) \<and>
    present pg' = 1 \<and> (rw pg' = 1 \<longleftrightarrow> w) \<and> (user pg' = 1 \<longleftrightarrow> \<not> k) \<and> (\<forall>l'. l' \<noteq> l \<longrightarrow> page_at s' l' = page_at s l')"
proof -
  let ?f = "Min (frames_left s)"
  let ?pg = "pg\<lparr>frame := ucast ?f, present := 1, rw := (if w then 1 else 0), user := (if k then 0 else 1)\<rparr>"
  have f: "?f \<in> frames_left s" "\<forall>f \<in> frames_left s. ?f \<le> f" using assms(3) by simp_all
  then have "unat ?f < 0x100000" using assms(1) by (auto simp: frames_left_def frames_ok_def)
  then have n: "frame_no ?pg = ?f" using frame_no_ucast by (simp add: frame_no_def)
  obtain s' where s': "alloc_frame s l w k = Some s'" "used_frames s' = insert ?f (used_frames s)"
    "s' = (put_page s l ?pg)\<lparr>frame_bits := frame_bits s'\<rparr>"
    using alloc_frame_ok [OF assms(2), of w k] unfolding if_not_P [OF assms(3)] by blast
  obtain p where "ptabs s (fst l) = Some p" using assms(2) by (auto simp: page_at_def)
  then have "page_at s' l' = (if l' = l then Some ?pg else page_at s l')" for l'
    by (subst s'(3)) simp
  then show ?thesis using s'(1,2) f n by (intro exI [of _ s'] exI [of _ ?pg]) simp
qed

theorem alloc_frame_least_witness:
  "\<exists>s' pg'. alloc_frame clone_demo (0x3000, 1) True False = Some s' \<and> page_at s' (0x3000, 1) = Some pg' \<and> frame_no pg' = 0"
proof -
  have z: "0 \<in> frames_left clone_demo" by (simp add: frames_left_def used_demo) (simp add: clone_demo_def bitset_bound_def)
  then have "frames_left clone_demo \<noteq> {}" by blast
  moreover have "frames_ok clone_demo" "page_at clone_demo (0x3000, 1) = Some no_page"
    by (simp_all add: frames_ok_def clone_demo_def bitset_bound_def page_at_def)
  ultimately obtain s' pg' where "alloc_frame clone_demo (0x3000, 1) True False = Some s'" "page_at s' (0x3000, 1) = Some pg'"
    "\<forall>f \<in> frames_left clone_demo. frame_no pg' \<le> f" using alloc_frame_least [of clone_demo "(0x3000, 1)" no_page True False] by blast
  then show ?thesis using z by auto
qed

text \<open>\<open>free_frame\<close> takes the frame away from the page but leaves it in use: \<open>bitset_set\<close> cannot clear a bit, so
  no later allocation finds the frame again.\<close>

theorem free_frame_keeps_frame:
  assumes "page_at s l = Some pg" and "frame pg \<noteq> 0"
  shows "\<exists>s'. free_frame s l = Some s' \<and> page_at s' l = Some (pg\<lparr>frame := 0, present := 0\<rparr>) \<and>
    used_frames s' = used_frames s \<and> frames_left s' = frames_left s"
proof -
  obtain p where "ptabs s (fst l) = Some p" using assms(1) by (auto simp: page_at_def)
  then show ?thesis using assms
    by (simp add: free_frame_def bitset_set_zero) (simp add: frames_left_def)
qed

theorem free_frame_keeps_frame_witness:
  "\<exists>s'. free_frame clone_demo (0x3000, 0) = Some s' \<and> 5 \<in> used_frames s'"
proof -
  have "page_at clone_demo (0x3000, 0) = Some demo_page" "frame demo_page \<noteq> 0"
    by (simp_all add: clone_demo_def page_at_def demo_page_def)
  from free_frame_keeps_frame [OF this] show ?thesis by (auto simp: used_demo)
qed

end
