(* ===== verification/Terminal.thy ===== *)
theory Terminal
  imports Prelude
begin

text \<open>
  \<open>src/terminal.c\<close>: a text terminal of 25 rows of 80 characters, and the screen it is shown on: the
  frame buffer, two bytes for a character, and the two registers of the cursor. An operation has no
  result where it writes a cell that does not exist.
\<close>

record terminal =
  active :: int
  currow :: int
  curcol :: int
  tcells :: "int \<Rightarrow> int \<Rightarrow> u8"

record screen =
  frame_buffer :: "int \<Rightarrow> u8"
  cursor_high :: u8
  cursor_low :: u8

type_synonym tty = "terminal \<times> screen"

definition TERMCOLS :: int where "TERMCOLS = 80"
definition TERMROWS :: int where "TERMROWS = 25"
definition color_white :: u8 where "color_white = 15"
definition color_black :: u8 where "color_black = 0"

definition term_raw_putchar :: "screen \<Rightarrow> int \<Rightarrow> int \<Rightarrow> u8 \<Rightarrow> u8 \<Rightarrow> u8 \<Rightarrow> screen" where
  "term_raw_putchar s row col c fg bg =
     (let index = row * TERMCOLS + col
      in s\<lparr>frame_buffer := (frame_buffer s)(index * 2 := c, index * 2 + 1 := bg * 16 + fg)\<rparr>)"

definition term_raw_set_cursor :: "screen \<Rightarrow> int \<Rightarrow> int \<Rightarrow> screen" where
  "term_raw_set_cursor s row col =
     (let index = word_of_int (row * TERMCOLS + col) :: u16
      in s\<lparr>cursor_high := ucast (index div 256), cursor_low := ucast (index mod 256)\<rparr>)"

definition term_putchar :: "terminal \<Rightarrow> screen \<Rightarrow> int \<Rightarrow> int \<Rightarrow> u8 \<Rightarrow> u8 \<Rightarrow> u8 \<Rightarrow> screen" where
  "term_putchar t s row col c fg bg = (if active t \<noteq> 0 then term_raw_putchar s row col c fg bg else s)"

definition term_set_cursor :: "terminal \<Rightarrow> screen \<Rightarrow> int \<Rightarrow> int \<Rightarrow> screen" where
  "term_set_cursor t s row col = (if active t \<noteq> 0 then term_raw_set_cursor s row col else s)"

definition put_cell :: "terminal \<Rightarrow> int \<Rightarrow> int \<Rightarrow> u8 \<Rightarrow> terminal" where
  "put_cell t i j c = t\<lparr>tcells := (tcells t)(i := (tcells t i)(j := c))\<rparr>"

text \<open>A store to one cell and to its place on the screen, and the loops over rows and columns.\<close>

definition show_cell :: "int \<Rightarrow> int \<Rightarrow> u8 \<Rightarrow> tty \<Rightarrow> tty" where
  "show_cell i j c = (\<lambda>(t, s). (put_cell t i j c, term_putchar t s i j c color_white color_black))"

definition over_cols :: "(int \<Rightarrow> 'a \<Rightarrow> 'a) \<Rightarrow> 'a \<Rightarrow> 'a" where
  "over_cols f x = fold f [0..79] x"

definition over_cells :: "(int \<Rightarrow> int \<Rightarrow> 'a \<Rightarrow> 'a) \<Rightarrow> int list \<Rightarrow> 'a \<Rightarrow> 'a" where
  "over_cells f rows x = fold (\<lambda>i. over_cols (f i)) rows x"

definition term_scrollup :: "tty \<Rightarrow> tty" where
  "term_scrollup x =
     (let x = over_cells (\<lambda>i j (t, s). show_cell i j (tcells t (i + 1) j) (t, s)) [0..TERMROWS - 2] x
      in over_cols (\<lambda>j. show_cell (TERMROWS - 1) j 0) x)"

text \<open>The end of \<open>term_write_char\<close>, when the cursor may be below the last row.\<close>

definition write_end :: "tty \<Rightarrow> tty" where
  "write_end = (\<lambda>(t, s).
     let (t, s) = (if currow t = TERMROWS then
           (let (t, s) = (if active t \<noteq> 0 then term_scrollup (t, s) else (t, s)) in (t\<lparr>currow := currow t - 1\<rparr>, s))
         else (t, s))
     in (t, if active t \<noteq> 0 then term_set_cursor t s (currow t) (curcol t) else s))"

definition term_write_char :: "tty \<Rightarrow> u8 \<Rightarrow> tty option" where
  "term_write_char = (\<lambda>(t, s) c.
     if c = 0 then Some (t, s)
     else do {
       x \<leftarrow> (if c = 10 then Some (t\<lparr>curcol := 0, currow := currow t + 1\<rparr>, s)
         else if 0 \<le> currow t \<and> currow t < TERMROWS \<and> 0 \<le> curcol t \<and> curcol t < TERMCOLS then
           (let s = (if active t \<noteq> 0 then term_putchar t s (currow t) (curcol t) c color_white color_black else s);
                t = put_cell t (currow t) (curcol t) c;
                t = t\<lparr>curcol := curcol t + 1\<rparr>
            in Some (if curcol t = TERMCOLS then t\<lparr>curcol := 0, currow := currow t + 1\<rparr> else t, s))
         else None);
       Some (write_end x)
     })"

definition term_curc :: "terminal \<Rightarrow> u8" where
  "term_curc t = tcells t (currow t) (curcol t)"

text \<open>The loop that looks for the end of the row above. It looks at the cell before it looks whether the
  column is below 0, but then what it saw does not matter.\<close>

function skip_empty :: "terminal \<Rightarrow> terminal" where
  "skip_empty t = (if 0 \<le> curcol t \<and> term_curc t = 0 then skip_empty (t\<lparr>curcol := curcol t - 1\<rparr>) else t)"
  by pat_completeness auto
termination by (relation "measure (\<lambda>t. nat (curcol t + 1))") auto

declare skip_empty.simps [simp del]

definition term_backspace :: "tty \<Rightarrow> tty" where
  "term_backspace = (\<lambda>(t, s).
     if curcol t = 0 \<and> currow t = 0 then (t, s)
     else
       (let (t, s) = (if curcol t = 0 then
           (let t = skip_empty (t\<lparr>curcol := TERMCOLS - 1, currow := currow t - 1\<rparr>)
            in if curcol t \<noteq> TERMCOLS - 1 then (t\<lparr>curcol := curcol t + 1\<rparr>, s)
               else (t, term_putchar t s (currow t) (curcol t) 0 color_white color_black))
         else
           (let t = t\<lparr>curcol := curcol t - 1\<rparr>; t = put_cell t (currow t) (curcol t) 0
            in (t, term_putchar t s (currow t) (curcol t) 0 color_white color_black)))
        in (t, term_set_cursor t s (currow t) (curcol t))))"

text \<open>The terminal before is whatever was in memory; its cells are all overwritten.\<close>

definition term_init :: "terminal \<Rightarrow> terminal" where
  "term_init t =
     (over_cells (\<lambda>i j t. put_cell t i j 0) [0..TERMROWS - 1] t)\<lparr>active := 0, curcol := 0, currow := 0\<rparr>"

definition term_fg :: "tty \<Rightarrow> tty" where
  "term_fg = (\<lambda>(t, s).
     let t = t\<lparr>active := 1\<rparr>; s = term_raw_set_cursor s (currow t) (curcol t)
     in over_cells (\<lambda>i j (t, s). (t, term_raw_putchar s i j (tcells t i j) color_white color_black)) [0..TERMROWS - 1] (t, s))"

definition term_bg :: "terminal \<Rightarrow> terminal" where
  "term_bg t = t\<lparr>active := 0\<rparr>"

definition term_clear :: "tty \<Rightarrow> tty" where
  "term_clear x =
     (let (t, s) = over_cells (\<lambda>i j. show_cell i j 0) [0..TERMROWS - 1] x; t = t\<lparr>curcol := 0, currow := 0\<rparr>
      in (t, term_set_cursor t s 0 0))"

fun term_print_buffer :: "tty \<Rightarrow> u8 list \<Rightarrow> tty option" where
  "term_print_buffer x [] = Some x"
| "term_print_buffer x (c # cs) = do { x \<leftarrow> term_write_char x c; term_print_buffer x cs }"

definition term_print :: "tty \<Rightarrow> cstr \<Rightarrow> tty option" where
  "term_print x str = term_print_buffer x str"

definition term_print_endl :: "tty \<Rightarrow> tty option" where
  "term_print_endl x = term_print x [10]"

subsection \<open>The screen shows the cells\<close>

definition mirror_at :: "tty \<Rightarrow> int \<Rightarrow> int \<Rightarrow> bool" where
  "mirror_at = (\<lambda>(t, s) i j. frame_buffer s ((i * 80 + j) * 2) = tcells t i j \<and> frame_buffer s ((i * 80 + j) * 2 + 1) = 15)"

definition mirrors :: "tty \<Rightarrow> bool" where
  "mirrors x \<longleftrightarrow> (\<forall>i j. 0 \<le> i \<longrightarrow> i < 25 \<longrightarrow> 0 \<le> j \<longrightarrow> j < 80 \<longrightarrow> mirror_at x i j)"

definition cursor_shown :: "tty \<Rightarrow> bool" where
  "cursor_shown = (\<lambda>(t, s). 256 * uint (cursor_high s) + uint (cursor_low s) = currow t * 80 + curcol t)"

lemma cell_place:
  fixes i j i' j' :: int
  assumes "0 \<le> j" "j < 80" "0 \<le> j'" "j' < 80"
  shows "i * 80 + j = i' * 80 + j' \<longleftrightarrow> i = i' \<and> j = j'"
proof
  have "(i * 80 + j) div 80 = i" "(i' * 80 + j') div 80 = i'" using assms by simp_all
  moreover assume "i * 80 + j = i' * 80 + j'"
  ultimately show "i = i' \<and> j = j'" by simp
qed simp

lemma even_odd_places: "(a :: int) * 2 = b * 2 \<longleftrightarrow> a = b" "(a :: int) * 2 \<noteq> b * 2 + 1" "(a :: int) * 2 + 1 \<noteq> b * 2"
  "(a :: int) * 2 + 1 = b * 2 + 1 \<longleftrightarrow> a = b"
  by presburger+

lemma show_cell_mirror_at:
  assumes "active (fst x) \<noteq> 0" and "0 \<le> j" and "j < 80" and "0 \<le> j'" and "j' < 80" and "i' = i \<and> j' = j \<or> mirror_at x i' j'"
  shows "mirror_at (show_cell i j c x) i' j'"
proof -
  obtain t s where x: "x = (t, s)" by (cases x)
  have fb: "frame_buffer (term_putchar t s i j c color_white color_black) =
      (frame_buffer s)((i * 80 + j) * 2 := c, (i * 80 + j) * 2 + 1 := 15)"
    using assms(1) by (simp add: x term_putchar_def term_raw_putchar_def Let_def TERMCOLS_def color_white_def color_black_def)
  have pc: "tcells (put_cell t i j c) i' j' = (if i' = i \<and> j' = j then c else tcells t i' j')" by (simp add: put_cell_def)
  show ?thesis
    unfolding x show_cell_def mirror_at_def prod.case
    by (simp only: fb fun_upd_apply even_odd_places cell_place [OF assms(4,5,2,3)] pc if_False if_cancel simp_thms)
      (use assms(6) in \<open>auto simp: mirror_at_def x\<close>)
qed

lemma show_cell_active [simp]: "active (fst (show_cell i j c x)) = active (fst x)"
  by (cases x) (simp add: show_cell_def put_cell_def)

lemma show_cell_mirrors:
  assumes "mirrors x" and "active (fst x) \<noteq> 0" and "0 \<le> j" and "j < 80"
  shows "mirrors (show_cell i j c x) \<and> active (fst (show_cell i j c x)) \<noteq> 0"
  using assms show_cell_mirror_at [OF assms(2-4)] by (auto simp: mirrors_def)

lemma fold_mirrors:
  assumes "\<And>j x. j \<in> set js \<Longrightarrow> mirrors x \<Longrightarrow> active (fst x) \<noteq> 0 \<Longrightarrow> mirrors (f j x) \<and> active (fst (f j x)) \<noteq> 0"
    and "mirrors x" and "active (fst x) \<noteq> 0"
  shows "mirrors (fold f js x) \<and> active (fst (fold f js x)) \<noteq> 0"
  using assms by (induction js arbitrary: x) auto

lemma scroll_mirrors:
  assumes "mirrors x" and "active (fst x) \<noteq> 0"
  shows "mirrors (term_scrollup x) \<and> active (fst (term_scrollup x)) \<noteq> 0"
proof -
  let ?x = "over_cells (\<lambda>i j (t, s). show_cell i j (tcells t (i + 1) j) (t, s)) [0..TERMROWS - 2] x"
  have 1: "mirrors ?x \<and> active (fst ?x) \<noteq> 0"
    unfolding over_cells_def over_cols_def using assms
    by (intro fold_mirrors) (auto simp: case_prod_beta show_cell_mirrors)
  then have "mirrors (over_cols (\<lambda>j. show_cell (TERMROWS - 1) j 0) ?x) \<and> active (fst (over_cols (\<lambda>j. show_cell (TERMROWS - 1) j 0) ?x)) \<noteq> 0"
    unfolding over_cols_def by (intro fold_mirrors) (auto simp: show_cell_mirrors)
  then show ?thesis by (simp add: term_scrollup_def)
qed

lemma cursor_set:
  assumes "active t \<noteq> 0" and "0 \<le> r" "r < 25" "0 \<le> c" "c < 80"
  shows "256 * uint (cursor_high (term_set_cursor t s r c)) + uint (cursor_low (term_set_cursor t s r c)) = r * 80 + c"
    and "frame_buffer (term_set_cursor t s r c) = frame_buffer s"
proof -
  define n where "n = nat (r * 80 + c)"
  have n: "r * 80 + c = int n" "n < 2000" using assms(2-5) unfolding n_def by auto
  let ?w = "word_of_int (int n) :: u16"
  have w: "uint ?w = int n" using n(2) by (simp add: unsigned_of_nat take_bit_nat_eq_self)
  have "uint (ucast (?w div 256) :: u8) = int n div 256"
    using w n(2) by (simp add: unsigned_ucast_eq uint_div take_bit_int_eq_self)
  moreover have "uint (ucast (?w mod 256) :: u8) = int n mod 256"
    using w by (simp add: unsigned_ucast_eq uint_mod take_bit_int_eq_self)
  ultimately show "256 * uint (cursor_high (term_set_cursor t s r c)) + uint (cursor_low (term_set_cursor t s r c)) = r * 80 + c"
    using assms(1) n by (simp add: term_set_cursor_def term_raw_set_cursor_def Let_def TERMCOLS_def)
  show "frame_buffer (term_set_cursor t s r c) = frame_buffer s" by (simp add: term_set_cursor_def term_raw_set_cursor_def Let_def)
qed

subsection \<open>Scrolling\<close>

definition set_row :: "terminal \<Rightarrow> int \<Rightarrow> (int \<Rightarrow> u8) \<Rightarrow> int set \<Rightarrow> terminal" where
  "set_row t i f J = t\<lparr>tcells := (tcells t)(i := (\<lambda>j. if j \<in> J then f j else tcells t i j))\<rparr>"

lemma show_row_copy: "fst (fold (\<lambda>j (t, s). show_cell i j (tcells t (i + 1) j) (t, s)) js (t, s)) = set_row t i (tcells t (i + 1)) (set js)"
proof (induction js arbitrary: t s)
  case Nil
  show ?case by (simp add: set_row_def)
next
  case (Cons j js)
  show ?case unfolding fold.simps comp_apply prod.case show_cell_def Cons.IH [unfolded show_cell_def prod.case]
    by (auto simp: set_row_def put_cell_def fun_eq_iff)
qed

lemma show_row_clear: "fst (fold (\<lambda>j. show_cell i j c) js (t, s)) = set_row t i (\<lambda>_. c) (set js)"
proof (induction js arbitrary: t s)
  case Nil
  show ?case by (simp add: set_row_def)
next
  case (Cons j js)
  show ?case unfolding fold.simps comp_apply prod.case show_cell_def Cons.IH [unfolded show_cell_def prod.case]
    by (auto simp: set_row_def put_cell_def fun_eq_iff)
qed

lemma rows_up:
  "fst (fold (\<lambda>i. over_cols (\<lambda>j (t, s). show_cell i j (tcells t (i + 1) j) (t, s))) [0..int n - 1] (t, s)) =
    t\<lparr>tcells := (\<lambda>i j. if 0 \<le> i \<and> i < int n \<and> 0 \<le> j \<and> j < 80 then tcells t (i + 1) j else tcells t i j)\<rparr>"
proof (induction n)
  case 0
  have "(\<lambda>i j. if 0 \<le> i \<and> i < int 0 \<and> 0 \<le> j \<and> j < 80 then tcells t (i + 1) j else tcells t i j) = tcells t"
    by (auto simp: fun_eq_iff)
  then show ?case by simp
next
  case (Suc n)
  let ?f = "\<lambda>i. over_cols (\<lambda>j (t, s). show_cell i j (tcells t (i + 1) j) (t, s))"
  have u: "[0..int (Suc n) - 1] = [0..int n - 1] @ [int n]" using upto_rec2 [of 0 "int n"] by simp
  obtain t1 s1 where p: "fold ?f [0..int n - 1] (t, s) = (t1, s1)" by fastforce
  have "fst (fold ?f [0..int (Suc n) - 1] (t, s)) = set_row t1 (int n) (tcells t1 (int n + 1)) {0..79}"
    unfolding u fold_append comp_apply p fold.simps id_apply over_cols_def show_row_copy by simp
  moreover have "t1 = t\<lparr>tcells := (\<lambda>i j. if 0 \<le> i \<and> i < int n \<and> 0 \<le> j \<and> j < 80 then tcells t (i + 1) j else tcells t i j)\<rparr>"
    using Suc p by simp
  ultimately show ?case by (auto simp: set_row_def fun_eq_iff)
qed

lemma scroll_cells:
  "fst (term_scrollup (t, s)) = t\<lparr>tcells := (\<lambda>i j. if 0 \<le> j \<and> j < 80 \<and> 0 \<le> i \<and> i < 24 then tcells t (i + 1) j
     else if 0 \<le> j \<and> j < 80 \<and> i = 24 then 0 else tcells t i j)\<rparr>"
proof -
  let ?x = "over_cells (\<lambda>i j (t, s). show_cell i j (tcells t (i + 1) j) (t, s)) [0..TERMROWS - 2] (t, s)"
  have "fst ?x = t\<lparr>tcells := (\<lambda>i j. if 0 \<le> i \<and> i < 24 \<and> 0 \<le> j \<and> j < 80 then tcells t (i + 1) j else tcells t i j)\<rparr>"
    using rows_up [of 24 t s] by (simp add: over_cells_def TERMROWS_def del: upto_rec_numeral)
  moreover have "fst (term_scrollup (t, s)) = set_row (fst ?x) 24 (\<lambda>_. 0) {0..79}"
    using show_row_clear [of 24 0 "[0..79]" "fst ?x" "snd ?x"]
    by (simp add: term_scrollup_def Let_def over_cols_def TERMROWS_def del: upto_rec_numeral)
  ultimately show ?thesis by (auto simp: set_row_def fun_eq_iff)
qed

subsection \<open>The text on a terminal\<close>

text \<open>The lines a text makes: a new line after a line feed, and after 80 characters.\<close>

definition type_char :: "u8 list list \<Rightarrow> u8 \<Rightarrow> u8 list list" where
  "type_char ls c =
     (if c = 0 then ls
      else if c = 10 then ls @ [[]]
      else let l = last ls @ [c] in butlast ls @ (if length l = 80 then [l, []] else [l]))"

definition line_char :: "u8 list list \<Rightarrow> nat \<Rightarrow> nat \<Rightarrow> u8" where
  "line_char ls k j = (if k < length ls \<and> j < length (ls ! k) then ls ! k ! j else 0)"

text \<open>The cells show the lines from line \<open>tp\<close> on, with the cursor behind the last of them.\<close>

definition shows_at :: "nat \<Rightarrow> terminal \<Rightarrow> u8 list list \<Rightarrow> bool" where
  "shows_at tp t ls \<longleftrightarrow> ls \<noteq> [] \<and> length (last ls) < 80 \<and> currow t + int tp + 1 = int (length ls) \<and> 0 \<le> currow t \<and>
     curcol t = int (length (last ls)) \<and> (\<forall>i < 25. \<forall>j < 80. tcells t (int i) (int j) = line_char ls (tp + i) j)"

definition term_shows :: "terminal \<Rightarrow> u8 list list \<Rightarrow> bool" where
  "term_shows t ls \<longleftrightarrow> shows_at (length ls - 25) t ls"

lemma line_char_snoc: "line_char (ls @ [[]]) k j = line_char ls k j"
  by (auto simp: line_char_def nth_append)

lemma shows_newline: "shows_at tp t ls \<Longrightarrow> shows_at tp (t\<lparr>curcol := 0, currow := currow t + 1\<rparr>) (ls @ [[]])"
  by (auto simp: shows_at_def line_char_def nth_append)

lemma shows_char:
  assumes "shows_at tp t ls" and "currow t < 25"
  shows "\<forall>i < 25. \<forall>j < 80. tcells (put_cell t (currow t) (curcol t) c) (int i) (int j) =
    line_char (butlast ls @ [last ls @ [c]]) (tp + i) j"
proof (intro allI impI)
  fix i j :: nat
  assume ij: "i < 25" "j < 80"
  obtain ms l where ls: "ls = ms @ [l]" using assms(1) by (cases ls rule: rev_cases) (auto simp: shows_at_def)
  have cell: "tcells t (int i) (int j) = line_char ls (tp + i) j" and at: "currow t + int tp = int (length ms)" "curcol t = int (length l)"
    using assms(1) ij by (simp_all add: shows_at_def ls)
  have "int i = currow t \<longleftrightarrow> tp + i = length ms" using at(1) by linarith
  moreover have "int j = curcol t \<longleftrightarrow> j = length l" using at(2) by simp
  ultimately show "tcells (put_cell t (currow t) (curcol t) c) (int i) (int j) =
      line_char (butlast ls @ [last ls @ [c]]) (tp + i) j"
    using cell by (auto simp: put_cell_def ls line_char_def nth_append)
qed

lemma shows_scroll:
  assumes "shows_at tp t ls" and "currow t = 25" and "last ls = []"
  shows "shows_at (Suc tp) ((fst (term_scrollup (t, s)))\<lparr>currow := currow t - 1\<rparr>) ls"
proof -
  have n: "length ls = tp + 26" using assms(1,2) by (auto simp: shows_at_def)
  have "ls \<noteq> []" using n by auto
  then have "ls ! (25 + tp) = []" using assms(3) n by (simp add: last_conv_nth add.commute)
  note n = n this
  have cells: "\<forall>i < 25. \<forall>j < 80. tcells t (int i) (int j) = line_char ls (tp + i) j" using assms(1) by (simp add: shows_at_def)
  have "tcells (fst (term_scrollup (t, s))) (int i) (int j) = line_char ls (Suc tp + i) j" if "i < 25" "j < 80" for i j
  proof (cases "i < 24")
    case True
    then have "tcells t (int (Suc i)) (int j) = line_char ls (tp + Suc i) j"
      using cells [rule_format, of "Suc i" j] that(2) by linarith
    then show ?thesis using that True by (simp add: scroll_cells add.commute)
  next
    case False
    then have "i = 24" using that(1) by simp
    then show ?thesis using that(2) n by (simp add: scroll_cells line_char_def)
  qed
  then show ?thesis using assms by (simp add: shows_at_def) (simp add: scroll_cells)
qed

definition term_on :: "tty \<Rightarrow> bool" where
  "term_on x \<longleftrightarrow> active (fst x) \<noteq> 0 \<and> mirrors x \<and> cursor_shown x"

lemma write_end_shows:
  assumes "shows_at tp t ls" and "tp = length ls - 26 \<or> tp = length ls - 25" and "currow t \<le> 25" and "currow t = 25 \<Longrightarrow> last ls = []"
    and "active t \<noteq> 0" and "mirrors (t, s)"
  shows "\<exists>t' s'. write_end (t, s) = (t', s') \<and> term_shows t' ls \<and> term_on (t', s')"
proof -
  have len: "int (length ls) = currow t + int tp + 1" "ls \<noteq> []" using assms(1) by (simp_all add: shows_at_def)
  have ex: "\<exists>t1 s1. (if currow t = TERMROWS then
           (let (t, s) = (if active t \<noteq> 0 then term_scrollup (t, s) else (t, s)) in (t\<lparr>currow := currow t - 1\<rparr>, s))
         else (t, s)) = (t1, s1) \<and> term_shows t1 ls \<and> active t1 \<noteq> 0 \<and> mirrors (t1, s1)"
  proof (cases "currow t = 25")
    case True
    obtain t1 s1 where p: "term_scrollup (t, s) = (t1, s1)" by fastforce
    have cr: "currow t1 = currow t" using scroll_cells [of t s] p by simp
    have "shows_at (Suc tp) (t1\<lparr>currow := currow t - 1\<rparr>) ls" using shows_scroll [OF assms(1) True assms(4) [OF True], of s] p by simp
    moreover have "Suc tp = length ls - 25" using len True by linarith
    moreover have "mirrors (t1, s1)" "active t1 \<noteq> 0" using scroll_mirrors [OF assms(6)] assms(5) p by simp_all
    then have "mirrors (t1\<lparr>currow := currow t - 1\<rparr>, s1)" by (simp add: mirrors_def mirror_at_def)
    ultimately show ?thesis using p True assms(5) cr \<open>active t1 \<noteq> 0\<close> by (simp add: TERMROWS_def term_shows_def)
  next
    case False
    then have "tp = length ls - 25" using len assms(2,3) by linarith
    then show ?thesis using False assms by (simp add: TERMROWS_def term_shows_def)
  qed
  then obtain t1 s1 where e: "(if currow t = TERMROWS then
           (let (t, s) = (if active t \<noteq> 0 then term_scrollup (t, s) else (t, s)) in (t\<lparr>currow := currow t - 1\<rparr>, s))
         else (t, s)) = (t1, s1)" and t1: "term_shows t1 ls" "active t1 \<noteq> 0" "mirrors (t1, s1)" by blast
  have "currow t1 < 25" "0 \<le> currow t1" "0 \<le> curcol t1" "curcol t1 < 80"
    using t1(1) by (auto simp: term_shows_def shows_at_def)
  note cu = cursor_set [OF t1(2) this(2,1,3,4), of s1]
  have "mirrors (t1, term_set_cursor t1 s1 (currow t1) (curcol t1))" using t1(3) cu(2) by (simp add: mirrors_def mirror_at_def)
  then have "term_on (t1, term_set_cursor t1 s1 (currow t1) (curcol t1))"
    using t1(2) cu(1) by (simp add: term_on_def cursor_shown_def)
  then show ?thesis using t1 e by (simp add: write_end_def)
qed

lemma term_write_char_shows:
  assumes "term_shows t ls" and "term_on (t, s)"
  shows "\<exists>t' s'. term_write_char (t, s) c = Some (t', s') \<and> term_shows t' (type_char ls c) \<and> term_on (t', s')"
proof -
  have on: "active t \<noteq> 0" "mirrors (t, s)" using assms(2) by (simp_all add: term_on_def)
  have sh: "shows_at (length ls - 25) t ls" using assms(1) by (simp add: term_shows_def)
  then have r: "0 \<le> currow t" "currow t < 25" "0 \<le> curcol t" "curcol t < 80" "ls \<noteq> []" "curcol t = int (length (last ls))"
    by (auto simp: shows_at_def)
  consider "c = 0" | "c = 10" | "c \<noteq> 0" "c \<noteq> 10" by blast
  then show ?thesis
  proof cases
    case 1
    then show ?thesis using assms by (simp add: term_write_char_def type_char_def)
  next
    case 2
    let ?t = "t\<lparr>curcol := 0, currow := currow t + 1\<rparr>"
    have "mirrors (?t, s)" using on(2) by (simp add: mirrors_def mirror_at_def)
    then show ?thesis using write_end_shows [OF shows_newline [OF sh], of s] r(2,5) on(1) 2
      by (simp add: term_write_char_def type_char_def Let_def)
  next
    case 3
    let ?t = "put_cell t (currow t) (curcol t) c" and ?s = "term_putchar t s (currow t) (curcol t) c color_white color_black"
    let ?ls = "butlast ls @ [last ls @ [c]]"
    have m: "mirrors (?t, ?s)" using show_cell_mirrors [OF on(2), of "curcol t" "currow t" c] on(1) r by (simp add: show_cell_def)
    have f: "currow ?t = currow t" "curcol ?t = curcol t" "active ?t = active t" by (simp_all add: put_cell_def)
    have len: "length ?ls = length ls" using r(5) by simp
    let ?u = "?t\<lparr>curcol := curcol t + 1\<rparr>"
    have mu: "mirrors (?u, ?s)" using m by (simp add: mirrors_def mirror_at_def)
    have cells: "\<forall>i < 25. \<forall>j < 80. tcells ?u (int i) (int j) = line_char ?ls (length ls - 25 + i) j"
      using shows_char [OF sh r(2), of c] by simp
    show ?thesis
    proof (cases "curcol t + 1 = 80")
      case False
      have w: "term_write_char (t, s) c = Some (write_end (?u, ?s))"
        using 3 r on(1) f False by (simp add: term_write_char_def Let_def TERMROWS_def TERMCOLS_def)
      have "shows_at (length ls - 25) ?u ?ls"
        using sh cells f False r(4,6) len by (simp add: shows_at_def)
      then have "\<exists>t' s'. write_end (?u, ?s) = (t', s') \<and> term_shows t' ?ls \<and> term_on (t', s')"
        using f r(2) on(1) len mu by (intro write_end_shows [of "length ls - 25"]) simp_all
      moreover have "type_char ls c = ?ls" using 3 False r(6) by (simp add: type_char_def)
      ultimately show ?thesis using w by auto
    next
      case True
      let ?v = "?u\<lparr>curcol := 0, currow := currow t + 1\<rparr>"
      have w: "term_write_char (t, s) c = Some (write_end (?v, ?s))"
        using 3 r on(1) f True by (simp add: term_write_char_def Let_def TERMROWS_def TERMCOLS_def)
      have mv: "mirrors (?v, ?s)" using m by (simp add: mirrors_def mirror_at_def)
      have "shows_at (length ls - 25) ?v (?ls @ [[]])"
        using sh cells f len unfolding shows_at_def line_char_snoc by simp
      then have "\<exists>t' s'. write_end (?v, ?s) = (t', s') \<and> term_shows t' (?ls @ [[]]) \<and> term_on (t', s')"
        using f r(2) on(1) len mv by (intro write_end_shows [of "length ls - 25"]) simp_all
      moreover have "type_char ls c = ?ls @ [[]]" using 3 True r(6) by (simp add: type_char_def)
      ultimately show ?thesis using w by auto
    qed
  qed
qed

lemma term_print_shows:
  "term_shows t ls \<Longrightarrow> term_on (t, s) \<Longrightarrow>
    \<exists>t' s'. term_print_buffer (t, s) cs = Some (t', s') \<and> term_shows t' (foldl type_char ls cs) \<and> term_on (t', s')"
proof (induction cs arbitrary: t s ls)
  case (Cons c cs)
  obtain t1 s1 where "term_write_char (t, s) c = Some (t1, s1)" "term_shows t1 (type_char ls c)" "term_on (t1, s1)"
    using term_write_char_shows [OF Cons.prems] by blast
  then show ?case using Cons.IH by simp
qed simp

subsection \<open>Clearing\<close>

lemma clear_cols:
  assumes "active (fst x) \<noteq> 0" and "set js \<subseteq> {0..79}"
  shows "active (fst (fold (\<lambda>j. show_cell i j c) js x)) \<noteq> 0"
    and "0 \<le> j' \<Longrightarrow> j' < 80 \<Longrightarrow> i' = i \<and> j' \<in> set js \<or> mirror_at x i' j' \<Longrightarrow> mirror_at (fold (\<lambda>j. show_cell i j c) js x) i' j'"
proof -
  show "active (fst (fold (\<lambda>j. show_cell i j c) js x)) \<noteq> 0" using assms(1) by (induction js arbitrary: x) auto
  show "0 \<le> j' \<Longrightarrow> j' < 80 \<Longrightarrow> i' = i \<and> j' \<in> set js \<or> mirror_at x i' j' \<Longrightarrow> mirror_at (fold (\<lambda>j. show_cell i j c) js x) i' j'"
    using assms
  proof (induction js arbitrary: x)
    case (Cons j js)
    have "i' = i \<and> j' \<in> set js \<or> mirror_at (show_cell i j c x) i' j'"
      using Cons.prems show_cell_mirror_at [of x j j' i' i c] by auto
    then show ?case using Cons by simp
  qed simp
qed

lemma clear_rows:
  assumes "active (fst x) \<noteq> 0"
  shows "active (fst (fold (\<lambda>i. over_cols (\<lambda>j. show_cell i j 0)) rs x)) \<noteq> 0"
    and "0 \<le> j' \<Longrightarrow> j' < 80 \<Longrightarrow> i' \<in> set rs \<or> mirror_at x i' j' \<Longrightarrow>
      mirror_at (fold (\<lambda>i. over_cols (\<lambda>j. show_cell i j 0)) rs x) i' j'"
    and "0 \<le> j' \<Longrightarrow> j' < 80 \<Longrightarrow> i' \<in> set rs \<or> tcells (fst x) i' j' = 0 \<Longrightarrow>
      tcells (fst (fold (\<lambda>i. over_cols (\<lambda>j. show_cell i j 0)) rs x)) i' j' = 0"
proof -
  have col: "active (fst (over_cols (\<lambda>j. show_cell i j 0) x)) \<noteq> 0" if "active (fst x) \<noteq> 0" for i x
    unfolding over_cols_def using that by (intro clear_cols) auto
  show "active (fst (fold (\<lambda>i. over_cols (\<lambda>j. show_cell i j 0)) rs x)) \<noteq> 0"
    using assms col by (induction rs arbitrary: x) simp_all
  show "0 \<le> j' \<Longrightarrow> j' < 80 \<Longrightarrow> i' \<in> set rs \<or> mirror_at x i' j' \<Longrightarrow>
      mirror_at (fold (\<lambda>i. over_cols (\<lambda>j. show_cell i j 0)) rs x) i' j'"
    using assms
  proof (induction rs arbitrary: x)
    case (Cons i rs)
    have "i' \<in> set rs \<or> mirror_at (over_cols (\<lambda>j. show_cell i j 0) x) i' j'"
      using Cons.prems clear_cols(2) [of x "[0..79]" j' i' i 0] by (auto simp: over_cols_def)
    then show ?case using Cons col by simp
  qed simp
  show "0 \<le> j' \<Longrightarrow> j' < 80 \<Longrightarrow> i' \<in> set rs \<or> tcells (fst x) i' j' = 0 \<Longrightarrow>
      tcells (fst (fold (\<lambda>i. over_cols (\<lambda>j. show_cell i j 0)) rs x)) i' j' = 0"
  proof (induction rs arbitrary: x)
    case (Cons i rs)
    have "fst (over_cols (\<lambda>j. show_cell i j 0) x) = set_row (fst x) i (\<lambda>_. 0) {0..79}"
      using show_row_clear [of i 0 "[0..79]" "fst x" "snd x"] by (simp add: over_cols_def del: upto_rec_numeral)
    then have "i' \<in> set rs \<or> tcells (fst (over_cols (\<lambda>j. show_cell i j 0) x)) i' j' = 0"
      using Cons.prems by (auto simp: set_row_def)
    then show ?case using Cons by simp
  qed simp
qed

lemma term_clear_shows:
  assumes "active t \<noteq> 0"
  shows "\<exists>t' s'. term_clear (t, s) = (t', s') \<and> term_shows t' [[]] \<and> term_on (t', s')"
proof -
  let ?x = "over_cells (\<lambda>i j. show_cell i j 0) [0..TERMROWS - 1] (t, s)"
  obtain t1 s1 where x: "?x = (t1, s1)" by fastforce
  have rows: "i \<in> set [0..TERMROWS - 1] \<longleftrightarrow> 0 \<le> i \<and> i < 25" for i by (auto simp: TERMROWS_def)
  have t1: "fold (\<lambda>i. over_cols (\<lambda>j. show_cell i j 0)) [0..TERMROWS - 1] (t, s) = (t1, s1)" using x by (simp add: over_cells_def)
  note cl = clear_rows [where x = "(t, s)" and rs = "[0..TERMROWS - 1]", unfolded t1 fst_conv rows, OF assms]
  have a: "active t1 \<noteq> 0" and m: "mirrors (t1, s1)" using cl(1,2) by (simp_all add: mirrors_def)
  have z: "\<forall>i < 25. \<forall>j < 80. tcells t1 (int i) (int j) = 0" using cl(3) by simp
  let ?t = "t1\<lparr>curcol := 0, currow := 0\<rparr>"
  have cu: "256 * uint (cursor_high (term_set_cursor ?t s1 0 0)) + uint (cursor_low (term_set_cursor ?t s1 0 0)) = 0"
    "frame_buffer (term_set_cursor ?t s1 0 0) = frame_buffer s1"
    using cursor_set [of ?t 0 0 s1] a by simp_all
  have "term_clear (t, s) = (?t, term_set_cursor ?t s1 0 0)" using x by (simp add: term_clear_def Let_def)
  moreover have "term_shows ?t [[]]" using z by (auto simp: term_shows_def shows_at_def line_char_def)
  moreover have "term_on (?t, term_set_cursor ?t s1 0 0)"
    using a m cu by (simp add: term_on_def mirrors_def mirror_at_def cursor_shown_def)
  ultimately show ?thesis by blast
qed

text \<open>C36. A terminal in the foreground that is cleared and then printed to shows the last 25 lines of the text,
  cut at line feeds and after 80 characters: the frame buffer has their characters in white on black,
  empty places are zero, and the cursor is behind the last character.\<close>

theorem term_shows_last_lines:
  assumes "active t \<noteq> 0"
  shows "\<exists>t' s'. term_print_buffer (term_clear (t, s)) cs = Some (t', s') \<and>
    (let ls = foldl type_char [[]] cs in
      (\<forall>i < 25. \<forall>j < 80. frame_buffer s' ((int i * 80 + int j) * 2) = line_char ls (length ls - 25 + i) j \<and>
        frame_buffer s' ((int i * 80 + int j) * 2 + 1) = 15) \<and>
      256 * uint (cursor_high s') + uint (cursor_low s') = (int (length ls) - 1 - int (length ls - 25)) * 80 + int (length (last ls)))"
proof -
  obtain t1 s1 where c: "term_clear (t, s) = (t1, s1)" "term_shows t1 [[]]" "term_on (t1, s1)"
    using term_clear_shows [OF assms] by blast
  obtain t' s' where p: "term_print_buffer (t1, s1) cs = Some (t', s')" "term_shows t' (foldl type_char [[]] cs)" "term_on (t', s')"
    using term_print_shows [OF c(2,3)] by blast
  then show ?thesis using c(1)
    by (auto simp: term_shows_def shows_at_def term_on_def mirrors_def mirror_at_def cursor_shown_def Let_def)
qed

definition blank_screen :: screen where
  "blank_screen = \<lparr>frame_buffer = (\<lambda>_. 0), cursor_high = 0, cursor_low = 0\<rparr>"

theorem term_shows_last_lines_witness:
  "\<exists>t' s'. term_print_buffer (term_clear (\<lparr>active = 1, currow = 3, curcol = 4, tcells = (\<lambda>_ _. 7)\<rparr>, blank_screen)) [72, 105, 10, 33] = Some (t', s') \<and>
     frame_buffer s' 2 = 105 \<and> frame_buffer s' 160 = 33 \<and> frame_buffer s' 4 = 0"
proof -
  let ?t = "\<lparr>active = 1, currow = 3, curcol = 4, tcells = (\<lambda>_ _. 7)\<rparr>"
  have "foldl type_char [[]] [72, 105, 10, 33] = [[72, 105], [33]]" by (simp add: type_char_def)
  then obtain t' s' where p: "term_print_buffer (term_clear (?t, blank_screen)) [72, 105, 10, 33] = Some (t', s')"
    "\<forall>i < 25. \<forall>j < 80. frame_buffer s' ((int i * 80 + int j) * 2) = line_char [[72, 105], [33]] i j"
    using term_shows_last_lines [of ?t blank_screen "[72, 105, 10, 33]"] by auto
  show ?thesis using p(1) p(2) [rule_format, of 0 1] p(2) [rule_format, of 1 0] p(2) [rule_format, of 0 2]
    by (auto simp: line_char_def)
qed

end
