(* ===== verification/Kb.thy ===== *)
theory Kb
  imports Task Terminal
begin

text \<open>
  \<open>src/kb.c\<close>: the keyboard driver, which edits a line and hands finished lines to the readers. A line in
  \<open>input_list\<close> is the C string of the buffer that was pushed; nothing else has that buffer, since
  \<open>keyboard_eof\<close> takes a new one. The scan code read from the port is an argument.
\<close>

record keyboard =
  terminal_buffer :: kstring
  input_list :: "cstr list"
  reader_task :: "nat option"
  keyboard_input_size :: u32
  key_shift :: u8
  key_ctrl :: u8
  key_alt :: u8

text \<open>The driver with the terminal it echoes to and the tasks it wakes up.\<close>

type_synonym console = "keyboard \<times> tty \<times> kernel"

definition KEY_SHIFT :: u8 where "KEY_SHIFT = 42"
definition KEY_ALT :: u8 where "KEY_ALT = 56"
definition KEY_CTRL :: u8 where "KEY_CTRL = 29"

text \<open>The characters of the keys; the initialiser names 90 of the 128, the rest is zero.\<close>

definition kbchars :: "u8 list" where
  "kbchars = [
     0, 27, 49, 50, 51, 52, 53, 54, 55, 56, 57, 48, 45, 61, 8, 0, 113, 119, 101, 114,
     116, 121, 117, 105, 111, 112, 91, 93, 10, 0, 97, 115, 100, 102, 103, 104, 106, 107, 108, 59,
     39, 96, 0, 92, 122, 120, 99, 118, 98, 110, 109, 44, 46, 47, 0, 42, 0, 32, 0, 0,
     0, 0, 0, 0, 0, 0, 0, 0, 0, 0, 0, 0, 0, 0, 45, 0, 0, 0, 43, 0,
     0, 0, 0, 0, 0, 0, 0, 0, 0, 0] @ replicate 38 0"

definition setkey :: "keyboard \<Rightarrow> u8 \<Rightarrow> keyboard" where
  "setkey k keycode =
     (let k = (if keycode = KEY_SHIFT then k\<lparr>key_shift := 1\<rparr> else k);
          k = (if keycode = KEY_SHIFT + 128 then k\<lparr>key_shift := 0\<rparr> else k);
          k = (if keycode = KEY_CTRL then k\<lparr>key_ctrl := 1\<rparr> else k);
          k = (if keycode = KEY_CTRL + 128 then k\<lparr>key_ctrl := 0\<rparr> else k);
          k = (if keycode = KEY_ALT then k\<lparr>key_alt := 1\<rparr> else k)
      in if keycode = KEY_ALT + 128 then k\<lparr>key_alt := 0\<rparr> else k)"

definition keyboard_eof :: "console \<Rightarrow> console option" where
  "keyboard_eof = (\<lambda>(k, x, w). do {
     let k = k\<lparr>keyboard_input_size := 0\<rparr>;
     str \<leftarrow> kstring_str (terminal_buffer k);
     new \<leftarrow> kstring_new;
     let k = k\<lparr>input_list := input_list k @ [str], terminal_buffer := new\<rparr>;
     Some (case reader_task k of
         Some a \<Rightarrow> if multitasking_flag w \<noteq> 0 then (k\<lparr>reader_task := None\<rparr>, x, task_awake w a) else (k, x, w)
       | None \<Rightarrow> (k, x, w))
   })"

definition keyboard_handler :: "console \<Rightarrow> u8 \<Rightarrow> console option" where
  "keyboard_handler = (\<lambda>(k, x, w) scancode.
     let k = setkey k scancode
     in if scancode < 128 then
          (let ch = kbchars ! unat scancode
           in if ch \<noteq> 0 then
                if ch = 100 \<and> key_ctrl k \<noteq> 0 then keyboard_eof (k, x, w)
                else if ch = 8 then
                  if keyboard_input_size k \<noteq> 0 then do {
                    buf \<leftarrow> kstring_erase (terminal_buffer k) (ksize (terminal_buffer k) - 1) 1;
                    Some (k\<lparr>keyboard_input_size := keyboard_input_size k - 1, terminal_buffer := buf\<rparr>, term_backspace x, w)
                  } else Some (k, x, w)
                else if key_ctrl k = 0 then do {
                  let ch = (if key_shift k \<noteq> 0 then ch - 32 else ch);
                  x \<leftarrow> term_write_char x ch;
                  buf \<leftarrow> kstring_push (terminal_buffer k) ch;
                  let k = k\<lparr>keyboard_input_size := keyboard_input_size k + 1, terminal_buffer := buf\<rparr>;
                  if ch = 10 then keyboard_eof (k, x, w) else Some (k, x, w)
                } else Some (k, x, w)
              else Some (k, x, w))
        else Some (k, x, w))"

definition keyboard_init :: "keyboard \<Rightarrow> keyboard option" where
  "keyboard_init k = do { new \<leftarrow> kstring_new; Some (k\<lparr>terminal_buffer := new, input_list := []\<rparr>) }"

subsection \<open>Line editing\<close>

text \<open>What a key means, given the state of the shift and control keys.\<close>

datatype key_action = Ignore | Eof | Rubout | Type u8

definition action_of :: "u8 \<Rightarrow> u8 \<Rightarrow> u8 \<Rightarrow> key_action" where
  "action_of shift ctrl scancode =
     (if 128 \<le> scancode then Ignore
      else let ch = kbchars ! unat scancode
        in if ch = 0 then Ignore
           else if ch = 8 then Rubout
           else if ctrl \<noteq> 0 then (if ch = 100 then Eof else Ignore)
           else Type (if shift \<noteq> 0 then ch - 32 else ch))"

text \<open>The line so far, how many of its last characters can be rubbed out, and the finished lines.\<close>

record editor =
  line :: cstr
  erasable :: nat
  ready :: "cstr list"

definition finish :: "editor \<Rightarrow> editor" where
  "finish e = \<lparr>line = [], erasable = 0, ready = ready e @ [line e]\<rparr>"

fun edit :: "editor \<Rightarrow> key_action \<Rightarrow> editor" where
  "edit e Ignore = e"
| "edit e Eof = finish e"
| "edit e Rubout = (if erasable e = 0 then e else e\<lparr>line := butlast (line e), erasable := erasable e - 1\<rparr>)"
| "edit e (Type c) = (let e = e\<lparr>line := line e @ [c], erasable := erasable e + 1\<rparr> in if c = 10 then finish e else e)"

fun press :: "console \<Rightarrow> u8 list \<Rightarrow> console option" where
  "press c [] = Some c"
| "press c (s # ss) = do { c \<leftarrow> keyboard_handler c s; press c ss }"

text \<open>The actions of a sequence of keys, with the shift and control keys as they are before each.\<close>

fun actions :: "keyboard \<Rightarrow> u8 list \<Rightarrow> key_action list" where
  "actions k [] = []"
| "actions k (s # ss) = (let k = setkey k s in action_of (key_shift k) (key_ctrl k) s # actions k ss)"

definition edits :: "console \<Rightarrow> editor \<Rightarrow> bool" where
  "edits = (\<lambda>(k, x, w) e. kstring_is (terminal_buffer k) (line e) \<and> unat (keyboard_input_size k) = erasable e \<and>
     erasable e \<le> length (line e) \<and> input_list k = ready e)"

definition pos_ok :: "terminal \<Rightarrow> bool" where
  "pos_ok t \<longleftrightarrow> 0 \<le> currow t \<and> currow t < 25 \<and> 0 \<le> curcol t \<and> curcol t < 80"

lemma scroll_pos: "currow (fst (term_scrollup x)) = currow (fst x) \<and> curcol (fst (term_scrollup x)) = curcol (fst x)"
  by (cases x) (simp add: scroll_cells)

lemma write_char_pos:
  assumes "pos_ok t"
  shows "\<exists>t' s'. term_write_char (t, s) c = Some (t', s') \<and> pos_ok t'"
proof -
  have e: "pos_ok (fst (write_end (t, s)))" if "0 \<le> currow t" "currow t \<le> 25" "0 \<le> curcol t" "curcol t < 80" for t s
    using that scroll_pos [of "(t, s)"] by (auto simp: write_end_def Let_def pos_ok_def TERMROWS_def split: prod.splits)
  show ?thesis
  proof (cases "c = 0")
    case True
    then show ?thesis using assms by (simp add: term_write_char_def)
  next
    case False
    let ?s = "if active t \<noteq> 0 then term_putchar t s (currow t) (curcol t) c color_white color_black else s"
    let ?t = "put_cell t (currow t) (curcol t) c"
    have "term_write_char (t, s) c = Some (write_end
        (if c = 10 then (t\<lparr>curcol := 0, currow := currow t + 1\<rparr>, s)
         else if curcol t + 1 = 80 then (?t\<lparr>curcol := 0, currow := currow t + 1\<rparr>, ?s)
         else (?t\<lparr>curcol := curcol t + 1\<rparr>, ?s)))"
      using False assms by (simp add: term_write_char_def pos_ok_def TERMROWS_def TERMCOLS_def Let_def put_cell_def)
    then obtain t1 s1 where "term_write_char (t, s) c = Some (write_end (t1, s1))"
      "0 \<le> currow t1" "currow t1 \<le> 25" "0 \<le> curcol t1" "curcol t1 < 80"
      using assms by (auto simp: pos_ok_def put_cell_def split: if_splits)
    then show ?thesis using e [of t1 s1] by (metis prod.collapse)
  qed
qed

lemma skip_empty_pos:
  "curcol t < 80 \<Longrightarrow> currow (skip_empty t) = currow t \<and> min (-1) (curcol t) \<le> curcol (skip_empty t) \<and> curcol (skip_empty t) \<le> curcol t"
proof (induction t rule: skip_empty.induct)
  case (1 t)
  show ?case
  proof (cases "0 \<le> curcol t \<and> term_curc t = 0")
    case True
    then show ?thesis using 1 by (subst (1 2 3) skip_empty.simps) auto
  next
    case False
    then have "skip_empty t = t" by (subst skip_empty.simps) auto
    then show ?thesis by simp
  qed
qed

lemma backspace_pos:
  assumes "pos_ok t"
  shows "pos_ok (fst (term_backspace (t, s)))"
proof -
  let ?t = "t\<lparr>curcol := TERMCOLS - 1, currow := currow t - 1\<rparr>"
  have "currow (skip_empty ?t) = currow t - 1" "-1 \<le> curcol (skip_empty ?t)" "curcol (skip_empty ?t) \<le> 79"
    using skip_empty_pos [of ?t] by (simp_all add: TERMCOLS_def)
  then show ?thesis using assms by (auto simp: term_backspace_def Let_def pos_ok_def TERMCOLS_def put_cell_def)
qed

lemma setkey_rest [simp]:
  "terminal_buffer (setkey k s) = terminal_buffer k" "input_list (setkey k s) = input_list k"
  "keyboard_input_size (setkey k s) = keyboard_input_size k" "reader_task (setkey k s) = reader_task k"
  by (simp_all add: setkey_def Let_def)

lemma eof_edits:
  assumes "edits (k, x, w) e"
  shows "\<exists>k' w'. keyboard_eof (k, x, w) = Some (k', x, w') \<and> edits (k', x, w') (finish e) \<and>
    key_shift k' = key_shift k \<and> key_ctrl k' = key_ctrl k \<and> key_alt k' = key_alt k"
proof -
  have str: "kstring_str (terminal_buffer k) = Some (line e)" using assms by (simp add: edits_def kstring_str_is)
  obtain new where new: "kstring_new = Some new" "kstring_is new []" using kstring_new_is by blast
  show ?thesis using assms new(2)
    by (cases "reader_task k"; cases "multitasking_flag w = 0") (simp_all add: keyboard_eof_def edits_def finish_def Let_def str new(1))
qed

text \<open>One key.\<close>

lemma handler_edits:
  assumes "edits (k, x, w) e" and "pos_ok (fst x)" and "length (line e) < 1073741824"
    and "action_of (key_shift (setkey k s)) (key_ctrl (setkey k s)) s \<noteq> Type 0"
  shows "\<exists>k' x' w'. keyboard_handler (k, x, w) s = Some (k', x', w') \<and>
    edits (k', x', w') (edit e (action_of (key_shift (setkey k s)) (key_ctrl (setkey k s)) s)) \<and> pos_ok (fst x') \<and>
    key_shift k' = key_shift (setkey k s) \<and> key_ctrl k' = key_ctrl (setkey k s) \<and> key_alt k' = key_alt (setkey k s)"
proof -
  let ?k = "setkey k s" and ?ch = "kbchars ! unat s"
  have ed: "edits (?k, x, w) e" using assms(1) by (simp add: edits_def)
  have buf: "kstring_is (terminal_buffer ?k) (line e)" "unat (keyboard_input_size ?k) = erasable e" "erasable e \<le> length (line e)"
    using ed by (simp_all add: edits_def)
  let ?a = "action_of (key_shift ?k) (key_ctrl ?k) s"
  have stay: ?thesis if "keyboard_handler (k, x, w) s = Some (?k, x, w)" "edit e ?a = e" using that ed assms(2) by auto
  consider "\<not> s < 128" "128 \<le> s" | "s < 128" "?ch = 0" | "s < 128" "?ch = 100" "key_ctrl ?k \<noteq> 0" | "s < 128" "?ch = 8"
    | "s < 128" "?ch \<noteq> 0" "?ch \<noteq> 8" "?ch \<noteq> 100" "key_ctrl ?k \<noteq> 0" | "s < 128" "?ch \<noteq> 0" "?ch \<noteq> 8" "key_ctrl ?k = 0"
    by fastforce
  then show ?thesis
  proof cases
    case 1
    show ?thesis by (rule stay) (use 1 in \<open>simp_all add: keyboard_handler_def action_of_def Let_def\<close>)
  next
    case 2
    show ?thesis by (rule stay) (use 2 in \<open>simp_all add: keyboard_handler_def action_of_def Let_def not_le\<close>)
  next
    case 3
    then have "keyboard_handler (k, x, w) s = keyboard_eof (?k, x, w)" "?a = Eof"
      by (simp_all add: keyboard_handler_def action_of_def Let_def not_le)
    moreover obtain k' w' where "keyboard_eof (?k, x, w) = Some (k', x, w')" "edits (k', x, w') (finish e)"
      "key_shift k' = key_shift ?k" "key_ctrl k' = key_ctrl ?k" "key_alt k' = key_alt ?k" using eof_edits [OF ed] by blast
    ultimately show ?thesis using assms(2) by (intro exI [of _ k'] exI [of _ x] exI [of _ w']) simp
  next
    case 4
    show ?thesis
    proof (cases "keyboard_input_size ?k = 0")
      case True
      then have "erasable e = 0" using buf(2) by simp
      then show ?thesis by (intro stay) (use 4 True in \<open>simp_all add: keyboard_handler_def action_of_def Let_def not_le\<close>)
    next
      case False
      then have n: "0 < erasable e" using buf(2) unat_gt_0 [of "keyboard_input_size ?k"] by simp
      have sz: "unat (ksize (terminal_buffer ?k)) = length (line e)" using buf(1) by (simp add: kstring_is_def)
      have sz1: "unat (ksize (terminal_buffer ?k) - 1) = length (line e) - 1" using sz n buf(3) by (subst unat_pred) auto
      then have "unat (ksize (terminal_buffer ?k) - 1) + unat (1 :: u32) < 4294967296" using assms(3) by simp
      from kstring_erase_string [OF buf(1) this] obtain b where b: "kstring_erase (terminal_buffer ?k) (ksize (terminal_buffer ?k) - 1) 1 = Some b" "kstring_is b (butlast (line e))"
        using n buf(3) by (auto simp: butlast_conv_take sz1 [simplified])
      have "unat (keyboard_input_size ?k - 1) = erasable e - 1" using unat_pred [OF False] buf(2) by simp
      then have "edits (?k\<lparr>keyboard_input_size := keyboard_input_size ?k - 1, terminal_buffer := b\<rparr>, term_backspace x, w)
          (edit e Rubout)" using ed b(2) n buf(3) by (simp add: edits_def)
      moreover have "pos_ok (fst (term_backspace x))" using backspace_pos assms(2) by (cases x) simp
      moreover have "?a = Rubout" using 4 by (simp add: action_of_def Let_def not_le)
      moreover have "keyboard_handler (k, x, w) s =
          Some (?k\<lparr>keyboard_input_size := keyboard_input_size ?k - 1, terminal_buffer := b\<rparr>, term_backspace x, w)"
        using 4 False b(1) by (simp add: keyboard_handler_def Let_def)
      ultimately show ?thesis by (metis keyboard.ext_inject keyboard.surjective keyboard.update_convs(4) keyboard.update_convs(1))
    qed
  next
    case 5
    show ?thesis by (rule stay) (use 5 in \<open>simp_all add: keyboard_handler_def action_of_def Let_def not_le\<close>)
  next
    case 6
    let ?c = "if key_shift ?k \<noteq> 0 then ?ch - 32 else ?ch"
    have ac: "action_of (key_shift ?k) (key_ctrl ?k) s = Type ?c" using 6 by (simp add: action_of_def Let_def not_le)
    then have "?c \<noteq> 0" using assms(4) by auto
    then obtain b where b: "kstring_push (terminal_buffer ?k) ?c = Some b" "kstring_is b (line e @ [?c])"
      using kstring_push_is [OF buf(1)] assms(3) by (auto simp: kstring_room_def)
    obtain x' where x': "term_write_char x ?c = Some x'" "pos_ok (fst x')"
      using write_char_pos [OF assms(2), of "snd x" ?c] by auto
    let ?k' = "?k\<lparr>keyboard_input_size := keyboard_input_size ?k + 1, terminal_buffer := b\<rparr>"
    let ?e = "e\<lparr>line := line e @ [?c], erasable := erasable e + 1\<rparr>"
    have "unat (keyboard_input_size ?k + 1) = erasable e + 1" using buf(2,3) assms(3) by (subst unat_add_nowrap) simp_all
    then have ed': "edits (?k', x', w) ?e" using ed b(2) by (simp add: edits_def)
    show ?thesis
    proof (cases "?c = 10")
      case True
      have "keyboard_handler (k, x, w) s = keyboard_eof (?k', x', w)"
        using 6 b(1) x'(1) True by (simp add: keyboard_handler_def Let_def)
      moreover obtain k' w' where "keyboard_eof (?k', x', w) = Some (k', x', w')" "edits (k', x', w') (finish ?e)"
        "key_shift k' = key_shift ?k" "key_ctrl k' = key_ctrl ?k" "key_alt k' = key_alt ?k" using eof_edits [OF ed'] by auto
      ultimately show ?thesis using x'(2) ac True by (intro exI [of _ k'] exI [of _ x'] exI [of _ w']) (simp add: Let_def)
    next
      case False
      have "keyboard_handler (k, x, w) s = Some (?k', x', w)"
        using 6 b(1) x'(1) False by (auto simp: keyboard_handler_def Let_def)
      then show ?thesis using ed' x'(2) ac False by (simp add: Let_def)
    qed
  qed
qed

lemma actions_flags:
  "key_shift k = key_shift k' \<Longrightarrow> key_ctrl k = key_ctrl k' \<Longrightarrow> key_alt k = key_alt k' \<Longrightarrow> actions k ss = actions k' ss"
proof (induction ss arbitrary: k k')
  case (Cons s ss)
  have f: "key_shift (setkey k s) = key_shift (setkey k' s)" "key_ctrl (setkey k s) = key_ctrl (setkey k' s)"
    "key_alt (setkey k s) = key_alt (setkey k' s)" using Cons.prems by (simp_all add: setkey_def Let_def)
  then show ?case using Cons.IH [OF f] by (simp add: Let_def)
qed simp

lemma edit_length: "length (line (edit e a)) \<le> length (line e) + 1"
  by (cases a) (auto simp: finish_def Let_def)

lemma press_edits:
  assumes "edits (k, x, w) e" and "pos_ok (fst x)" and "length (line e) + length ss \<le> 1073741824" and "Type 0 \<notin> set (actions k ss)"
  shows "\<exists>k' x' w'. press (k, x, w) ss = Some (k', x', w') \<and> edits (k', x', w') (foldl edit e (actions k ss)) \<and> pos_ok (fst x')"
  using assms
proof (induction ss arbitrary: k x w e)
  case (Cons s ss)
  let ?a = "action_of (key_shift (setkey k s)) (key_ctrl (setkey k s)) s"
  obtain k1 x1 w1 where h: "keyboard_handler (k, x, w) s = Some (k1, x1, w1)" "edits (k1, x1, w1) (edit e ?a)" "pos_ok (fst x1)"
    "key_shift k1 = key_shift (setkey k s)" "key_ctrl k1 = key_ctrl (setkey k s)" "key_alt k1 = key_alt (setkey k s)"
    using handler_edits [OF Cons.prems(1,2), of s] Cons.prems(3,4) by (auto simp: Let_def)
  have acts: "actions k (s # ss) = ?a # actions k1 ss" using actions_flags [OF h(4-6)] by (simp add: Let_def)
  obtain k' x' w' where "press (k1, x1, w1) ss = Some (k', x', w')" "edits (k', x', w') (foldl edit (edit e ?a) (actions k1 ss))" "pos_ok (fst x')"
    using Cons.IH [OF h(2,3)] Cons.prems(3,4) edit_length [of e ?a] unfolding acts by auto
  then show ?case unfolding acts using h(1) by simp
qed simp

text \<open>C37. The driver is a line editor: whatever keys are pressed, the lines it hands to the readers and the line
  it keeps are those of an editor that appends characters, rubs out what was typed since the line began
  or a program last wrote, and finishes a line at Enter or Ctrl-D. No key may give the character zero, as
  Shift and the space bar do, and the line stays below \<open>2 ^ 30\<close> characters.\<close>

theorem keyboard_edits_lines:
  assumes "edits (k, x, w) e" and "pos_ok (fst x)" and "length (line e) + length ss \<le> 1073741824" and "Type 0 \<notin> set (actions k ss)"
  shows "\<exists>k' x' w'. press (k, x, w) ss = Some (k', x', w') \<and> edits (k', x', w') (foldl edit e (actions k ss)) \<and> pos_ok (fst x') \<and>
    input_list k' = ready (foldl edit e (actions k ss))"
proof -
  obtain k' x' w' where "press (k, x, w) ss = Some (k', x', w')" "edits (k', x', w') (foldl edit e (actions k ss))" "pos_ok (fst x')"
    using press_edits [OF assms] by blast
  then show ?thesis by (auto simp: edits_def)
qed

text \<open>Shift, h, release shift, i, o, backspace, Enter.\<close>

theorem keyboard_edits_lines_witness:
  "\<forall>w. \<exists>k k' x' w'. kstring_str (terminal_buffer k) = Some [] \<and>
     press (k, (\<lparr>active = 1, currow = 0, curcol = 0, tcells = (\<lambda>_ _. 0)\<rparr>, blank_screen), w) [42, 35, 170, 23, 24, 14, 28] = Some (k', x', w') \<and>
     input_list k' = [[72, 105, 10]]"
proof
  fix w
  obtain b where b: "kstring_is b []" using kstring_new_is by blast
  let ?k = "\<lparr>terminal_buffer = b, input_list = [], reader_task = None, keyboard_input_size = 0, key_shift = 0, key_ctrl = 0, key_alt = 0\<rparr>"
  let ?x = "(\<lparr>active = 1, currow = 0, curcol = 0, tcells = (\<lambda>_ _. 0)\<rparr>, blank_screen)"
  let ?e = "\<lparr>line = [], erasable = 0, ready = []\<rparr>"
  have "edits (?k, ?x, w) ?e" "pos_ok (fst ?x)" using b by (simp_all add: edits_def pos_ok_def)
  moreover have a: "actions ?k [42, 35, 170, 23, 24, 14, 28] = [Ignore, Type 72, Ignore, Type 105, Type 111, Rubout, Type 10]"
    by (simp add: setkey_def action_of_def Let_def kbchars_def KEY_SHIFT_def KEY_CTRL_def KEY_ALT_def)
  moreover have "foldl edit ?e [Ignore, Type 72, Ignore, Type 105, Type 111, Rubout, Type 10] = \<lparr>line = [], erasable = 0, ready = [[72, 105, 10]]\<rparr>"
    by (simp add: finish_def Let_def)
  ultimately have "\<exists>k' x' w'. press (?k, ?x, w) [42, 35, 170, 23, 24, 14, 28] = Some (k', x', w') \<and> input_list k' = [[72, 105, 10]]"
    using keyboard_edits_lines [of ?k ?x w ?e "[42, 35, 170, 23, 24, 14, 28]"] by auto
  moreover have "kstring_str b = Some []" using b by (rule kstring_str_is)
  ultimately show "\<exists>k k' x' w'. kstring_str (terminal_buffer k) = Some [] \<and>
     press (k, ?x, w) [42, 35, 170, 23, 24, 14, 28] = Some (k', x', w') \<and> input_list k' = [[72, 105, 10]]"
    by - (rule exI [of _ ?k], simp del: press.simps)
qed

end
