(* ===== verification/Gdt.thy ===== *)
theory Gdt
  imports Prelude
begin

text \<open>
  \<open>src/gdt.c\<close>: the segment descriptors and the task state segment, of which the kernel uses the kernel
  stack. Loading the two registers is assembly; what \<open>load_gdt_recs\<close> gives is the table, the task state
  segment and the length and place that go into the register.
\<close>

record gdtrec =
  seg_length :: u16
  base_l :: u16
  base_m :: u8
  access :: u8
  fllen :: u8
  base_h :: u8

text \<open>The fields of \<open>tss_rec\<close> that are set to something; the others are cleared.\<close>

record tss_rec =
  tss_esp0 :: u32
  tss_ss0 :: u32
  tss_es :: u32
  tss_cs :: u32
  tss_ss :: u32
  tss_ds :: u32
  tss_fs :: u32
  tss_gs :: u32

definition TSS_SIZE :: u32 where "TSS_SIZE = 108"
definition GDTARR_LEN :: u32 where "GDTARR_LEN = 6"

definition create_gdt_rec :: "u32 \<Rightarrow> u32 \<Rightarrow> u8 \<Rightarrow> u8 \<Rightarrow> gdtrec" where
  "create_gdt_rec base limit acc flags =
     \<lparr>seg_length = ucast (limit AND 0xffff), base_l = ucast (base AND 0xffff), base_m = ucast (drop_bit 16 base AND 0xff),
      access = acc, fllen = ucast (drop_bit 16 limit AND 0xf) OR (flags AND 0xf0), base_h = ucast (drop_bit 24 base)\<rparr>"

text \<open>The arguments are the addresses of the table and of the task state segment.\<close>

definition load_gdt_recs :: "u32 \<Rightarrow> u32 \<Rightarrow> gdtrec list \<times> tss_rec \<times> u16 \<times> u32" where
  "load_gdt_recs gdt_records tss_entry =
     ([create_gdt_rec 0 0 0 0, create_gdt_rec 0 0xFFFFFFFF 0x9A 0xCF, create_gdt_rec 0 0xFFFFFFFF 0x92 0xCF,
       create_gdt_rec 0 0xFFFFFFFF 0xFA 0xCF, create_gdt_rec 0 0xFFFFFFFF 0xF2 0xCF,
       create_gdt_rec tss_entry (tss_entry + TSS_SIZE) 0xE9 0x00],
      \<lparr>tss_esp0 = 0, tss_ss0 = 0x10, tss_es = 0x10 OR 0x3, tss_cs = 0x8 OR 0x3, tss_ss = 0x10 OR 0x3, tss_ds = 0x10 OR 0x3,
       tss_fs = 0x10 OR 0x3, tss_gs = 0x10 OR 0x3\<rparr>,
      ucast (GDTARR_LEN * 8 - 1), gdt_records)"

subsection \<open>What a descriptor means\<close>

text \<open>The processor's reading of a descriptor: its base, its limit in bytes or pages, its privilege.\<close>

definition seg_base :: "gdtrec \<Rightarrow> u32" where
  "seg_base r = ucast (base_l r) OR push_bit 16 (ucast (base_m r)) OR push_bit 24 (ucast (base_h r))"

definition seg_limit :: "gdtrec \<Rightarrow> u32" where
  "seg_limit r = ucast (seg_length r) OR push_bit 16 (ucast (fllen r AND 0xf))"

definition seg_in_pages :: "gdtrec \<Rightarrow> bool" where
  "seg_in_pages r \<longleftrightarrow> bit (fllen r) 7"

definition last_byte :: "gdtrec \<Rightarrow> nat" where
  "last_byte r = (if seg_in_pages r then unat (seg_limit r) * 4096 + 4095 else unat (seg_limit r))"

definition seg_ring :: "gdtrec \<Rightarrow> nat" where
  "seg_ring r = unat (drop_bit 5 (access r) AND 3)"

lemma low_masks: "(0xffff :: u32) = mask 16" "(0xff :: u32) = mask 8" "(0xf :: u32) = mask 4" "(0xf :: u8) = mask 4"
  "(0xf0 :: u8) = push_bit 4 (mask 4)"
  by (simp_all add: mask_eq_exp_minus_1 push_bit_eq_mult)

lemma seg_base_created: "seg_base (create_gdt_rec base limit acc flags) = base"
proof (rule bit_word_eqI)
  fix n assume "n < LENGTH(32)"
  then have "n < 16 \<or> 16 \<le> n \<and> n < 24 \<or> 24 \<le> n \<and> n < 32" by auto
  then show "bit (seg_base (create_gdt_rec base limit acc flags)) n = bit base n"
    unfolding seg_base_def create_gdt_rec_def low_masks by (auto simp: bit_simps)
qed

lemma seg_limit_created: "seg_limit (create_gdt_rec base limit acc flags) = limit AND mask 20"
proof (rule bit_word_eqI)
  fix n assume "n < LENGTH(32)"
  then have "n < 16 \<or> 16 \<le> n \<and> n < 20 \<or> 20 \<le> n \<and> n < 32" by auto
  then show "bit (seg_limit (create_gdt_rec base limit acc flags)) n = bit (limit AND mask 20) n"
    unfolding seg_limit_def create_gdt_rec_def low_masks by (auto simp: bit_simps)
qed

lemma seg_flags_created: "fllen (create_gdt_rec base limit acc flags) AND push_bit 4 (mask 4) = flags AND push_bit 4 (mask 4)"
  unfolding create_gdt_rec_def low_masks by (rule bit_word_eqI) (auto simp: bit_simps)

lemma seg_in_pages_created: "seg_in_pages (create_gdt_rec base limit acc flags) = bit flags 7"
  unfolding seg_in_pages_def create_gdt_rec_def low_masks by (auto simp: bit_simps)

lemma replicate_4: "replicate 4 x = [x, x, x, x]"
  by (simp add: numeral_eq_Suc)

text \<open>The fields of a descriptor, spread over its eight bytes, give back the base, the low 20 bits of the
  limit, the access byte and the flags. The segments \<open>load_gdt_recs\<close> sets up for code and data all begin at 0 and
  end at the last byte of memory, two for ring 0 and two for ring 3, so an address in a program is its
  linear address; but the task state segment, whose limit is given as an end address, is far longer than
  the structure.\<close>

theorem gdt_is_flat:
  shows "(let r = create_gdt_rec base limit acc flags in seg_base r = base \<and> seg_limit r = limit AND mask 20 \<and> access r = acc \<and>
      fllen r AND 0xf0 = flags AND 0xf0) \<and>
    (let recs = fst (load_gdt_recs gdt tss) in
      map seg_base recs = [0, 0, 0, 0, 0, tss] \<and>
      map (\<lambda>i. last_byte (recs ! i)) [1, 2, 3, 4] = replicate 4 (2 ^ 32 - 1) \<and>
      map seg_ring recs = [0, 0, 0, 3, 3, 3] \<and>
      last_byte (recs ! 5) = unat ((tss + 108) AND mask 20))"
proof -
  let ?recs = "fst (load_gdt_recs gdt tss)"
  have "(0xFFFFFFFF :: u32) AND mask 20 = 0xFFFFF" by (simp add: mask_eq_exp_minus_1)
  then have lim: "last_byte (create_gdt_rec 0 0xFFFFFFFF acc 0xCF) = 2 ^ 32 - 1" for acc
    by (simp add: last_byte_def seg_in_pages_created seg_limit_created bit_numeral_rec)
  have "last_byte (?recs ! 5) = unat ((tss + 108) AND mask 20)"
    by (simp add: load_gdt_recs_def last_byte_def seg_in_pages_created seg_limit_created TSS_SIZE_def)
  moreover have "map (\<lambda>i. last_byte (?recs ! i)) [1, 2, 3, 4] = replicate 4 (2 ^ 32 - 1)"
    unfolding replicate_4 load_gdt_recs_def by (simp add: lim)
  moreover have "map seg_base ?recs = [0, 0, 0, 0, 0, tss]" by (simp add: load_gdt_recs_def seg_base_created)
  moreover have "map seg_ring ?recs = [0, 0, 0, 3, 3, 3]"
    by (simp add: load_gdt_recs_def seg_ring_def create_gdt_rec_def drop_bit_eq_div)
  moreover have "access (create_gdt_rec base limit acc flags) = acc" by (simp add: create_gdt_rec_def)
  ultimately show ?thesis
    unfolding Let_def using seg_base_created seg_limit_created seg_flags_created [folded low_masks(5)] by blast
qed

end
