(* ===== verification/Uvm.thy ===== *)
theory Uvm
  imports Paging
begin

text \<open>
  The memory a program and the system calls see: bytes at virtual addresses, each translated by the
  tables of \<open>Paging\<close> to a byte of physical memory, as the processor does. An access to a page that is not
  present ends in \<open>page_fault\<close>, which panics, and has no result.
\<close>

definition translate :: "paging \<Rightarrow> u32 \<Rightarrow> u32 \<Rightarrow> u32 option" where
  "translate g dir va = do {
     pg \<leftarrow> page_of g dir va;
     if present pg \<noteq> 0 then Some (frame_addr pg + va mod 0x1000) else None
   }"

definition load :: "paging \<Rightarrow> u32 \<Rightarrow> u32 \<Rightarrow> u8 option" where
  "load g dir va = do { a \<leftarrow> translate g dir va; Some (phys g a) }"

definition store :: "paging \<Rightarrow> u32 \<Rightarrow> u32 \<Rightarrow> u8 \<Rightarrow> paging option" where
  "store g dir va c = do { a \<leftarrow> translate g dir va; Some (g\<lparr>phys := (phys g)(a := c)\<rparr>) }"

fun load_bytes :: "paging \<Rightarrow> u32 \<Rightarrow> u32 \<Rightarrow> nat \<Rightarrow> u8 list option" where
  "load_bytes g dir p 0 = Some []"
| "load_bytes g dir p (Suc n) = do { c \<leftarrow> load g dir p; cs \<leftarrow> load_bytes g dir (p + 1) n; Some (c # cs) }"

fun store_bytes :: "paging \<Rightarrow> u32 \<Rightarrow> u32 \<Rightarrow> u8 list \<Rightarrow> paging option" where
  "store_bytes g dir p [] = Some g"
| "store_bytes g dir p (c # cs) = do { g \<leftarrow> store g dir p c; store_bytes g dir (p + 1) cs }"

text \<open>A C string, up to the zero byte, and a pointer or number.\<close>

partial_function (option) load_str :: "paging \<Rightarrow> u32 \<Rightarrow> u32 \<Rightarrow> cstr option" where
  "load_str g dir p = do {
     c \<leftarrow> load g dir p;
     if c = 0 then Some [] else do { cs \<leftarrow> load_str g dir (p + 1); Some (c # cs) }
   }"

definition load_u32 :: "paging \<Rightarrow> u32 \<Rightarrow> u32 \<Rightarrow> u32 option" where
  "load_u32 g dir p = do { bs \<leftarrow> load_bytes g dir p 4; Some (bytes_u32 bs) }"

definition store_u32 :: "paging \<Rightarrow> u32 \<Rightarrow> u32 \<Rightarrow> u32 \<Rightarrow> paging option" where
  "store_u32 g dir p w = store_bytes g dir p (u32_bytes w)"

subsection \<open>Blocks of memory\<close>

text \<open>The physical addresses of a block; a block is whole when all its pages are present, and plain when no
  two of its bytes are the same byte of physical memory.\<close>

definition place :: "paging \<Rightarrow> u32 \<Rightarrow> u32 \<Rightarrow> nat \<Rightarrow> u32 option" where
  "place g dir p i = translate g dir (p + of_nat i)"

definition whole :: "paging \<Rightarrow> u32 \<Rightarrow> u32 \<Rightarrow> nat \<Rightarrow> bool" where
  "whole g dir p n \<longleftrightarrow> (\<forall>i < n. place g dir p i \<noteq> None)"

definition plain :: "paging \<Rightarrow> u32 \<Rightarrow> u32 \<Rightarrow> nat \<Rightarrow> bool" where
  "plain g dir p n \<longleftrightarrow> whole g dir p n \<and> inj_on (place g dir p) {..<n}"

text \<open>Two blocks that have no byte of physical memory in common.\<close>

definition apart :: "paging \<Rightarrow> u32 \<Rightarrow> u32 \<Rightarrow> nat \<Rightarrow> u32 \<Rightarrow> u32 \<Rightarrow> nat \<Rightarrow> bool" where
  "apart g dir p n dir' q m \<longleftrightarrow> (\<forall>i < n. \<forall>j < m. place g dir p i \<noteq> place g dir' q j)"

lemma page_of_phys [simp]: "page_of (g\<lparr>phys := m\<rparr>) dir va = page_of g dir va"
  by (cases "pdirs g dir") (simp_all add: page_of_def page_at_def Let_def)

lemma translate_phys [simp]: "translate (g\<lparr>phys := m\<rparr>) dir va = translate g dir va"
  by (simp add: translate_def)

lemma place_phys [simp]: "place (g\<lparr>phys := m\<rparr>) dir p i = place g dir p i"
  by (simp add: place_def)

lemma place_0 [simp]: "place g dir p 0 = translate g dir p"
  by (simp add: place_def)

lemma place_Suc: "place g dir (p + 1) i = place g dir p (Suc i)"
  by (simp add: place_def add.assoc)

lemma whole_phys [simp]: "whole (g\<lparr>phys := m\<rparr>) dir p n = whole g dir p n"
  by (simp add: whole_def)

lemma plain_phys [simp]: "plain (g\<lparr>phys := m\<rparr>) dir p n = plain g dir p n"
  by (simp add: plain_def inj_on_def)

lemma apart_phys [simp]: "apart (g\<lparr>phys := m\<rparr>) dir p n dir' q k = apart g dir p n dir' q k"
  by (simp add: apart_def)

lemma whole_Suc: "whole g dir p (Suc n) \<longleftrightarrow> translate g dir p \<noteq> None \<and> whole g dir (p + 1) n"
  unfolding whole_def place_Suc by (simp add: All_less_Suc2)

lemma plain_Suc: "plain g dir p (Suc n) \<Longrightarrow> translate g dir p \<noteq> None \<and> plain g dir (p + 1) n \<and>
    (\<forall>i < n. place g dir (p + 1) i \<noteq> translate g dir p)"
proof -
  assume a: "plain g dir p (Suc n)"
  then have i: "inj_on (place g dir p) {..<Suc n}" by (simp add: plain_def)
  have "inj_on (place g dir (p + 1)) {..<n}"
    unfolding inj_on_def place_Suc using i by (auto dest!: inj_onD)
  moreover have "place g dir (p + 1) k \<noteq> translate g dir p" if "k < n" for k
    using inj_onD [OF i, of "Suc k" 0] that by (auto simp: place_Suc)
  ultimately show ?thesis using a by (auto simp: plain_def whole_Suc)
qed

lemma store_place: "translate g dir p = Some a \<Longrightarrow> store g dir p c = Some (g\<lparr>phys := (phys g)(a := c)\<rparr>)"
  by (simp add: store_def)

lemma load_place: "translate g dir p = Some a \<Longrightarrow> load g dir p = Some (phys g a)"
  by (simp add: load_def)

text \<open>Only the bytes of the block change.\<close>

lemma store_bytes_whole:
  assumes "whole g dir p (length cs)"
  shows "\<exists>m. store_bytes g dir p cs = Some (g\<lparr>phys := m\<rparr>) \<and>
    (\<forall>a. (\<forall>i < length cs. place g dir p i \<noteq> Some a) \<longrightarrow> m a = phys g a)"
  using assms
proof (induction cs arbitrary: g p)
  case (Cons c cs)
  then obtain a where a: "translate g dir p = Some a" "whole g dir (p + 1) (length cs)" by (auto simp: whole_Suc)
  let ?g = "g\<lparr>phys := (phys g)(a := c)\<rparr>"
  obtain m where m: "store_bytes ?g dir (p + 1) cs = Some (?g\<lparr>phys := m\<rparr>)"
    "\<forall>b. (\<forall>i < length cs. place g dir (p + 1) i \<noteq> Some b) \<longrightarrow> m b = phys ?g b"
    using Cons.IH [of ?g "p + 1"] a(2) by auto
  have "m b = phys g b" if "\<forall>i < Suc (length cs). place g dir p i \<noteq> Some b" for b
  proof -
    have "b \<noteq> a" using that a(1) by auto
    moreover have "place g dir (p + 1) i \<noteq> Some b" if "i < length cs" for i
      using that \<open>\<forall>i < Suc (length cs). place g dir p i \<noteq> Some b\<close> by (auto simp: place_Suc)
    ultimately show ?thesis using m(2) by simp
  qed
  then show ?case using m(1) store_place [OF a(1)] by auto
next
  case Nil
  show ?case by (rule exI [of _ "phys g"]) simp
qed

lemma load_bytes_whole:
  assumes "whole g dir p n"
  shows "load_bytes g dir p n = Some (map (\<lambda>i. phys g (the (place g dir p i))) [0..<n])"
  using assms
proof (induction n arbitrary: p)
  case (Suc n)
  then obtain a where a: "translate g dir p = Some a" "whole g dir (p + 1) n" by (auto simp: whole_Suc)
  have "[0..<Suc n] = 0 # map Suc [0..<n]" by (simp only: upt_conv_Cons map_Suc_upt zero_less_Suc)
  then show ?case using Suc.IH [OF a(2)] load_place [OF a(1)] a(1) by (simp add: place_Suc comp_def)
qed simp

lemma load_bytes_other:
  assumes "whole g dir p n" and "\<And>a. \<exists>i < n. place g dir p i = Some a \<Longrightarrow> m a = phys g a"
  shows "load_bytes (g\<lparr>phys := m\<rparr>) dir p n = load_bytes g dir p n"
proof -
  have "m (the (place g dir p i)) = phys g (the (place g dir p i))" if "i < n" for i
  proof -
    from that assms(1) obtain a where "place g dir p i = Some a" by (auto simp: whole_def)
    then show ?thesis using assms(2) that by auto
  qed
  then show ?thesis by (simp add: load_bytes_whole [of _ dir p n] assms(1))
qed

text \<open>What is stored is read back, and the blocks apart from it are as they were.\<close>

lemma store_load:
  assumes "plain g dir p (length cs)"
  shows "\<exists>m. store_bytes g dir p cs = Some (g\<lparr>phys := m\<rparr>) \<and> load_bytes (g\<lparr>phys := m\<rparr>) dir p (length cs) = Some cs \<and>
    (\<forall>a. (\<forall>i < length cs. place g dir p i \<noteq> Some a) \<longrightarrow> m a = phys g a)"
  using assms
proof (induction cs arbitrary: g p)
  case (Cons c cs)
  then obtain a where a: "translate g dir p = Some a" "plain g dir (p + 1) (length cs)"
    "\<forall>i < length cs. place g dir (p + 1) i \<noteq> Some a" using plain_Suc [of g dir p "length cs"] by auto
  let ?g = "g\<lparr>phys := (phys g)(a := c)\<rparr>"
  obtain m where m: "store_bytes ?g dir (p + 1) cs = Some (?g\<lparr>phys := m\<rparr>)"
    "load_bytes (?g\<lparr>phys := m\<rparr>) dir (p + 1) (length cs) = Some cs"
    "\<forall>b. (\<forall>i < length cs. place g dir (p + 1) i \<noteq> Some b) \<longrightarrow> m b = phys ?g b"
    using Cons.IH [of ?g "p + 1"] a(2) by auto
  have ma: "m a = c" using m(3) a(3) by simp
  have "m b = phys g b" if "\<forall>i < Suc (length cs). place g dir p i \<noteq> Some b" for b
  proof -
    have "b \<noteq> a" using that a(1) by auto
    moreover have "place g dir (p + 1) i \<noteq> Some b" if "i < length cs" for i
      using that \<open>\<forall>i < Suc (length cs). place g dir p i \<noteq> Some b\<close> by (auto simp: place_Suc)
    ultimately show ?thesis using m(3) by simp
  qed
  moreover have "load (g\<lparr>phys := m\<rparr>) dir p = Some c" using a(1) ma by (simp add: load_def)
  ultimately show ?case using m(1,2) store_place [OF a(1)] by auto
next
  case Nil
  show ?case by (rule exI [of _ "phys g"]) simp
qed

lemma store_bytes_elsewhere:
  assumes "store_bytes g dir p cs = Some (g\<lparr>phys := m\<rparr>)"
    and "\<forall>a. (\<forall>i < length cs. place g dir p i \<noteq> Some a) \<longrightarrow> m a = phys g a"
    and "whole g dir' q n" and "apart g dir p (length cs) dir' q n"
  shows "load_bytes (g\<lparr>phys := m\<rparr>) dir' q n = load_bytes g dir' q n"
proof (rule load_bytes_other [OF assms(3)])
  fix a assume "\<exists>i < n. place g dir' q i = Some a"
  then show "m a = phys g a" using assms(2,4) unfolding apart_def by metis
qed

lemma load_bytes_length: "load_bytes g dir p n = Some cs \<Longrightarrow> length cs = n"
  by (induction n arbitrary: p cs) (auto split: Option.bind_splits)

lemma load_bytes_is_whole: "load_bytes g dir p n = Some cs \<Longrightarrow> whole g dir p n"
proof (induction n arbitrary: p cs)
  case (Suc n)
  then show ?case by (auto simp: whole_Suc load_def split: Option.bind_splits)
qed (simp add: whole_def)

lemma load_str_bytes:
  assumes "load_bytes g dir p (length cs) = Some cs" and "0 \<notin> set cs" and "load g dir (p + of_nat (length cs)) = Some 0"
  shows "load_str g dir p = Some cs"
  using assms
proof (induction cs arbitrary: p)
  case Nil
  then show ?case by (subst load_str.simps) simp
next
  case (Cons c cs)
  then have "load g dir p = Some c" "load_bytes g dir (p + 1) (length cs) = Some cs" "c \<noteq> 0"
    by (auto split: Option.bind_splits)
  moreover have "load g dir (p + 1 + of_nat (length cs)) = Some 0" using Cons.prems(3) by (simp add: add.assoc)
  ultimately show ?case using Cons.IH [of "p + 1"] Cons.prems(2) by (subst load_str.simps) simp
qed

lemma store_load_u32:
  assumes "plain g dir p 4"
  shows "\<exists>m. store_u32 g dir p w = Some (g\<lparr>phys := m\<rparr>) \<and> load_u32 (g\<lparr>phys := m\<rparr>) dir p = Some w \<and>
    (\<forall>a. (\<forall>i < 4. place g dir p i \<noteq> Some a) \<longrightarrow> m a = phys g a)"
  using store_load [of g dir p "u32_bytes w"] assms by (auto simp: store_u32_def load_u32_def)

subsection \<open>Parts of a block\<close>

lemma place_add: "place g dir (p + of_nat m) i = place g dir p (m + i)"
  by (simp add: place_def add.assoc)

lemma whole_part: "whole g dir p n \<Longrightarrow> m + k \<le> n \<Longrightarrow> whole g dir (p + of_nat m) k"
  by (simp add: whole_def place_add)

lemma plain_part:
  assumes "plain g dir p n" and "m + k \<le> n"
  shows "plain g dir (p + of_nat m) k"
proof -
  have "inj_on (place g dir p) {..<n}" using assms(1) by (simp add: plain_def)
  then have "inj_on (place g dir (p + of_nat m)) {..<k}"
    using assms(2) by (intro inj_onI) (auto simp: place_add dest!: inj_onD)
  moreover have "whole g dir (p + of_nat m) k" using assms by (intro whole_part [of _ _ _ n]) (simp_all add: plain_def)
  ultimately show ?thesis by (simp add: plain_def)
qed

lemma plain_apart:
  assumes "plain g dir p n" and "m + k \<le> n" and "m' + k' \<le> n" and "m + k \<le> m' \<or> m' + k' \<le> m"
  shows "apart g dir (p + of_nat m) k dir (p + of_nat m') k'"
proof -
  have "inj_on (place g dir p) {..<n}" using assms(1) by (simp add: plain_def)
  then show ?thesis using assms(2-4) unfolding apart_def place_add by (auto dest: inj_onD)
qed

lemma apart_part: "apart g dir p n dir' q m \<Longrightarrow> i + k \<le> n \<Longrightarrow> j + l \<le> m \<Longrightarrow> apart g dir (p + of_nat i) k dir' (q + of_nat j) l"
  by (auto simp: apart_def place_add)

lemma apart_sym: "apart g dir p n dir' q m \<Longrightarrow> apart g dir' q m dir p n"
  by (metis apart_def)

text \<open>A store as a step: what it writes is there, the blocks apart from it are as before, and the tables are the
  same.\<close>

definition same_tables :: "paging \<Rightarrow> paging \<Rightarrow> bool" where
  "same_tables g g' \<longleftrightarrow> (\<exists>m. g' = g\<lparr>phys := m\<rparr>)"

lemma same_tables_refl [simp]: "same_tables g g"
  unfolding same_tables_def by (rule exI [of _ "phys g"]) simp

lemma same_tables_trans: "same_tables g g1 \<Longrightarrow> same_tables g1 g2 \<Longrightarrow> same_tables g g2"
  by (auto simp: same_tables_def)

lemma same_tables_blocks:
  assumes "same_tables g g'"
  shows "whole g' = whole g" and "plain g' = plain g" and "apart g' = apart g" and "place g' = place g" and "translate g' = translate g"
  using assms by (auto simp: same_tables_def fun_eq_iff)

lemma store_step:
  assumes "plain g dir p (length cs)"
  shows "\<exists>g'. store_bytes g dir p cs = Some g' \<and> same_tables g g' \<and> load_bytes g' dir p (length cs) = Some cs \<and>
    (\<forall>dir' q n. whole g dir' q n \<longrightarrow> apart g dir p (length cs) dir' q n \<longrightarrow> load_bytes g' dir' q n = load_bytes g dir' q n)"
proof -
  obtain m where m: "store_bytes g dir p cs = Some (g\<lparr>phys := m\<rparr>)" "load_bytes (g\<lparr>phys := m\<rparr>) dir p (length cs) = Some cs"
    "\<forall>a. (\<forall>i < length cs. place g dir p i \<noteq> Some a) \<longrightarrow> m a = phys g a" using store_load [OF assms] by blast
  then show ?thesis using store_bytes_elsewhere [OF m(1,3)] by (auto simp: same_tables_def)
qed

lemma load_bytes_plain: "plain g dir p n \<Longrightarrow> \<exists>cs. load_bytes g dir p n = Some cs \<and> length cs = n"
  using load_bytes_whole [of g dir p n] by (auto simp: plain_def)

lemma load_u32_bytes: "load_bytes g dir p 4 = Some (u32_bytes w) \<Longrightarrow> load_u32 g dir p = Some w"
  by (simp add: load_u32_def)

subsection \<open>A memory of one page\<close>

text \<open>The directory at \<open>0x1000\<close> has one table, which maps the first page to frame 5.\<close>

definition one_page :: "mem \<Rightarrow> paging" where
  "one_page m = (paging0 [])\<lparr>pdirs := [0x1000 \<mapsto> no_dir\<lparr>tables := (\<lambda>_. 0)(0 := 0x3000)\<rparr>],
     ptabs := [0x3000 \<mapsto> (\<lambda>_. no_page)(0 := no_page\<lparr>present := 1, frame := 5\<rparr>)], phys := m\<rparr>"

lemma one_page_translate:
  assumes "i < 4096"
  shows "translate (one_page m) 0x1000 (of_nat i) = Some (0x5000 + of_nat i)"
proof -
  have u: "unat (of_nat i :: u32) = i" using assms by (simp add: unat_of_nat take_bit_nat_eq_self)
  have "of_nat i div (0x1000 :: u32) = 0" using assms u by (simp add: word_eq_by_unat [of _ 0] unat_div)
  moreover have "of_nat i mod (0x1000 :: u32) = of_nat i"
    using assms u by (simp add: word_eq_by_unat [of "_ mod _"] unat_mod)
  moreover have "frame_addr (no_page\<lparr>present := 1, frame := 5\<rparr>) = 0x5000" by (simp add: frame_addr_def no_page_def)
  ultimately show ?thesis by (simp add: translate_def page_of_def page_at_def one_page_def)
qed

lemma one_page_plain: "plain (one_page m) 0x1000 0 4096"
proof -
  have p: "place (one_page m) 0x1000 0 i = Some (0x5000 + of_nat i)" if "i < 4096" for i
    using one_page_translate [OF that, of m] by (simp add: place_def)
  have "inj_on (place (one_page m) 0x1000 0) {..<4096}"
  proof (rule inj_onI)
    fix i j assume ij: "i \<in> {..<4096 :: nat}" "j \<in> {..<4096 :: nat}" "place (one_page m) 0x1000 0 i = place (one_page m) 0x1000 0 j"
    then have "(of_nat i :: u32) = of_nat j" by (simp add: p)
    then have "unat (of_nat i :: u32) = unat (of_nat j :: u32)" by simp
    then show "i = j" using ij(1,2) by (simp add: unat_of_nat take_bit_nat_eq_self)
  qed
  then show ?thesis using p by (auto simp: plain_def whole_def)
qed

lemma one_page_part: "i + n \<le> 4096 \<Longrightarrow> plain (one_page m) 0x1000 (of_nat i) n"
  using plain_part [OF one_page_plain, of i n m] by simp

lemma one_page_apart:
  "i + n \<le> 4096 \<Longrightarrow> j + k \<le> 4096 \<Longrightarrow> i + n \<le> j \<or> j + k \<le> i \<Longrightarrow> apart (one_page m) 0x1000 (of_nat i) n 0x1000 (of_nat j) k"
  using plain_apart [OF one_page_plain, of i n j k m] by simp

end
