(* ===== verification/Prog.thy ===== *)
theory Prog
  imports Uvm Terminal Childtable
begin

text \<open>
  \<open>src/prog.c\<close>: loading an executable file into the memory of the current task. The file is the buffer
  the system call has read it into; a field or a segment that is not inside the buffer has no result.
\<close>

definition bytes_of :: "string \<Rightarrow> cstr" where
  "bytes_of s = List.map of_char s"

text \<open>What the loader changes: the paging and the memory behind it, the terminal it prints a message to, and
  the break of the task.\<close>

record loader =
  lpages :: paging
  lterm :: tty
  lbrk :: u32

text \<open>The fields of \<open>Elf32_Ehdr\<close> and \<open>Elf32_Phdr\<close> that are used, by their offsets in the file.\<close>

definition rd_u16 :: "u8 cells \<Rightarrow> nat \<Rightarrow> nat option" where
  "rd_u16 c i = do { lo \<leftarrow> rd c i; hi \<leftarrow> rd c (i + 1); Some (unat lo + 256 * unat hi) }"

definition e_entry :: "u8 cells \<Rightarrow> u32 option" where "e_entry f = rd_u32 f 24"
definition e_phoff :: "u8 cells \<Rightarrow> u32 option" where "e_phoff f = rd_u32 f 28"
definition e_phnum :: "u8 cells \<Rightarrow> nat option" where "e_phnum f = rd_u16 f 44"

definition p_offset :: "u8 cells \<Rightarrow> nat \<Rightarrow> u32 option" where "p_offset f ph = rd_u32 f (ph + 4)"
definition p_vaddr :: "u8 cells \<Rightarrow> nat \<Rightarrow> u32 option" where "p_vaddr f ph = rd_u32 f (ph + 8)"
definition p_memsz :: "u8 cells \<Rightarrow> nat \<Rightarrow> u32 option" where "p_memsz f ph = rd_u32 f (ph + 20)"

definition page_up :: "u32 \<Rightarrow> u32" where
  "page_up b = (if b mod 0x1000 \<noteq> 0 then (b AND 0xfffff000) + 0x1000 else b)"

text \<open>The loop over the pages of a segment, with the break it computes.\<close>

partial_function (option) map_segment :: "u32 \<Rightarrow> paging \<Rightarrow> u32 \<Rightarrow> u32 \<Rightarrow> u32 \<Rightarrow> (paging \<times> u32) option" where
  "map_segment dir g i end_addr b =
     (if i \<le> end_addr then do {
        (g, l) \<leftarrow> get_page dir g i False dir;
        pg \<leftarrow> page_at g l;
        g \<leftarrow> (if frame pg = 0 then alloc_frame g l True False else Some g);
        map_segment dir g (i + 0x1000) end_addr (if b < end_addr then page_up end_addr else b)
      } else Some (g, b))"

definition read_cells :: "u8 cells \<Rightarrow> nat \<Rightarrow> nat \<Rightarrow> u8 list option" where
  "read_cells c i n = those (List.map (\<lambda>k. rd c (i + k)) [0..<n])"

definition load_warning :: cstr where
  "load_warning = bytes_of ''KERNEL FAILURE: invalid load address for elf file'' @ [10]"

text \<open>The loop over the segments from the second on, \<open>b\<close> the break of those before.\<close>

fun load_segments :: "u32 \<Rightarrow> u8 cells \<Rightarrow> u32 \<Rightarrow> nat \<Rightarrow> loader \<Rightarrow> u32 \<Rightarrow> nat list \<Rightarrow> loader option" where
  "load_segments dir f laddr prog_arr w b [] = Some w"
| "load_segments dir f laddr prog_arr w b (i # js) = do {
     start \<leftarrow> p_vaddr f (prog_arr + 32 * i);
     memsz \<leftarrow> p_memsz f (prog_arr + 32 * i);
     if start = 0 then load_segments dir f laddr prog_arr w b js
     else do {
       x \<leftarrow> (if start < laddr then term_print (lterm w) load_warning else Some (lterm w));
       (g, b) \<leftarrow> map_segment dir (lpages w) start (start + memsz - 1) b;
       offset \<leftarrow> p_offset f (prog_arr + 32 * i);
       bytes \<leftarrow> read_cells f (unat offset) (unat memsz);
       g \<leftarrow> store_bytes g dir start bytes;
       load_segments dir f laddr prog_arr \<lparr>lpages = g, lterm = x, lbrk = b\<rparr> b js
     }
   }"

definition elf_magic :: cstr where
  "elf_magic = [0x7f, 69, 76, 70]"

text \<open>The header is copied as a whole first. The result is 0 with the entry address, or -1.\<close>

definition prog_load :: "u32 \<Rightarrow> loader \<Rightarrow> u8 cells \<Rightarrow> u32 \<Rightarrow> (loader \<times> u32 \<times> u32) option" where
  "prog_load dir w f laddr = do {
     header \<leftarrow> read_cells f 0 52;
     if take 4 header \<noteq> elf_magic then Some (w, - 1, 0)
     else do {
       phoff \<leftarrow> e_phoff f;
       phnum \<leftarrow> e_phnum f;
       w \<leftarrow> load_segments dir f laddr (unat phoff) w 0 [1..<phnum];
       entry \<leftarrow> e_entry f;
       Some (w, 0, entry)
     }
   }"

end
