(* ===== verification/Idt.thy ===== *)
theory Idt
  imports Prelude "HOL-Library.Signed_Division"
begin

text \<open>
  \<open>src/idt.c\<close>: the interrupt gates, the interrupt controllers and the table of handlers. The entry points
  in assembly (\<open>src/ihandle.s\<close>) save the registers, with the number of the interrupt or of the request
  line, and call \<open>interrupt_handler\<close> or \<open>irq_handler\<close>; where they are is an argument. A handler is a value of
  any type, \<open>None\<close> the null pointer. Writes to ports are a list, in order.
\<close>

record registers =
  r_ds :: u32
  r_edi :: u32
  r_esi :: u32
  r_ebp :: u32
  r_esp :: u32
  r_ebx :: u32
  r_edx :: u32
  r_ecx :: u32
  r_eax :: u32
  r_int_no :: u32
  r_err_code :: u32
  r_eip :: u32
  r_cs :: u32
  r_eflags :: u32
  r_useresp :: u32
  r_ss :: u32

record idtrec =
  offset_1 :: u16
  selector :: u16
  zero :: u8
  type_attr :: u8
  offset_2 :: u16

definition igate_type_interrupt :: u8 where "igate_type_interrupt = 0x8E"
definition IDTARR_LEN :: nat where "IDTARR_LEN = 256"
definition INTCODE_PIC :: u8 where "INTCODE_PIC = 32"
definition INTCODE_KEYBOARD :: u8 where "INTCODE_KEYBOARD = 33"
definition INTCODE_ATA :: u8 where "INTCODE_ATA = 46"
definition INTCODE_SYSCALL :: u8 where "INTCODE_SYSCALL = 0x80"

text \<open>The address is cast to \<open>int\<close>, so its halves are a signed remainder and quotient.\<close>

definition create_idt_rec :: "u32 \<Rightarrow> u8 \<Rightarrow> idtrec" where
  "create_idt_rec handler type =
     \<lparr>offset_1 = word_of_int (sint handler smod 65536), selector = 0x08, zero = 0, type_attr = type OR 0x60,
      offset_2 = word_of_int (sint handler sdiv 65536)\<rparr>"

type_synonym idt_records = "nat \<Rightarrow> idtrec"

definition load_recs :: "(nat \<Rightarrow> nat) \<Rightarrow> (nat \<Rightarrow> u32) \<Rightarrow> nat list \<Rightarrow> idt_records \<Rightarrow> idt_records" where
  "load_recs vector entry ns recs = fold (\<lambda>n r. r(vector n := create_idt_rec (entry n) igate_type_interrupt)) ns recs"

definition load_idt_trap_recs :: "(nat \<Rightarrow> u32) \<Rightarrow> idt_records \<Rightarrow> idt_records" where
  "load_idt_trap_recs interrupt_handlers = load_recs (\<lambda>n. n) interrupt_handlers
     [0, 1, 2, 3, 4, 5, 6, 7, 8, 9, 10, 11, 12, 13, 14, 15, 16, 17, 18, 0x80]"

definition load_idt_hardint_recs :: "(nat \<Rightarrow> u32) \<Rightarrow> idt_records \<Rightarrow> idt_records" where
  "load_idt_hardint_recs each_irq_handlers = load_recs (\<lambda>n. 32 + n) each_irq_handlers
     [0, 1, 2, 3, 4, 5, 6, 7, 8, 9, 10, 11, 12, 13, 14, 15]"

type_synonym port_writes = "(u16 \<times> u8) list"

definition remap_PICs :: port_writes where
  "remap_PICs = [(0x20, 0x11), (0xA0, 0x11), (0x21, 0x20), (0xA1, 0x28), (0x21, 0x04), (0xA1, 0x02), (0x21, 0x01), (0xA1, 0x01),
     (0x21, 0x0), (0xA1, 0x0)]"

record 'h idt =
  idt_records :: idt_records
  int_handlers :: "nat \<Rightarrow> 'h option"
  int_handler_common :: 'h

definition load_int_handler :: "'h idt \<Rightarrow> u8 \<Rightarrow> 'h \<Rightarrow> 'h idt" where
  "load_int_handler d code handler = d\<lparr>int_handlers := (int_handlers d)(unat code := Some handler)\<rparr>"

definition load_idt_recs :: "(nat \<Rightarrow> u32) \<Rightarrow> (nat \<Rightarrow> u32) \<Rightarrow> 'h idt \<Rightarrow> 'h \<Rightarrow> 'h idt \<times> port_writes" where
  "load_idt_recs ih irqh d common_handler =
     (let d = d\<lparr>idt_records := load_idt_trap_recs ih (idt_records d)\<rparr>;
          d = d\<lparr>idt_records := load_idt_hardint_recs irqh (idt_records d)\<rparr>
      in (d\<lparr>int_handlers := (\<lambda>n. if n < 256 then None else int_handlers d n), int_handler_common := common_handler\<rparr>, remap_PICs))"

text \<open>The handler that is called; a number outside the array has no result.\<close>

definition interrupt_handler :: "'h idt \<Rightarrow> registers \<Rightarrow> ('h \<times> registers) option" where
  "interrupt_handler d regs =
     (if unat (r_int_no regs) < 256 then
        Some (case int_handlers d (unat (r_int_no regs)) of None \<Rightarrow> int_handler_common d | Some h \<Rightarrow> h, regs)
      else None)"

definition irq_handler :: "'h idt \<Rightarrow> registers \<Rightarrow> (port_writes \<times> 'h \<times> registers) option" where
  "irq_handler d regs = do {
     let w = (if r_int_no regs \<ge> 8 then [(0xA0, 0x20)] else []) @ [(0x20, 0x20)];
     (h, regs) \<leftarrow> interrupt_handler d (regs\<lparr>r_int_no := r_int_no regs + 32\<rparr>);
     Some (w, h, regs)
   }"

subsection \<open>Where an interrupt goes\<close>

text \<open>The address the processor takes from a gate, and the line of a request after the controllers were
  programmed: \<open>0x20\<close> and \<open>0x28\<close> are the first vectors of the two.\<close>

definition gate_entry :: "idtrec \<Rightarrow> u32" where
  "gate_entry r = push_bit 16 (ucast (offset_2 r)) OR ucast (offset_1 r)"

definition gate_present :: "idtrec \<Rightarrow> bool" where
  "gate_present r \<longleftrightarrow> bit (type_attr r) 7"

definition user_may_call :: "idtrec \<Rightarrow> bool" where
  "user_may_call r \<longleftrightarrow> type_attr r AND 0x60 = 0x60"

lemma gate_low:
  assumes "unat h < 2147483648"
  shows "gate_entry (create_idt_rec h t) = h"
proof -
  have u: "uint h < 2147483648" using assms by (metis of_nat_less_iff of_nat_numeral uint_nat)
  moreover have "- 2147483648 \<le> uint h" by (rule order_trans [OF _ uint_ge_0]) simp
  ultimately have h: "sint h = uint h" by (simp add: sint_uint signed_take_bit_int_eq_self)
  have "(word_of_int (uint h mod 65536) :: u16) = ucast h"
    unfolding ucast_eq word_of_int_eq_iff by (simp add: take_bit_eq_mod)
  moreover have "(word_of_int (uint h div 65536) :: u16) = ucast (drop_bit 16 h)"
    unfolding ucast_eq word_of_int_eq_iff by (simp add: unsigned_drop_bit_eq take_bit_eq_mod drop_bit_eq_div uint_div)
  moreover have "uint h smod 65536 = uint h mod 65536" "uint h sdiv 65536 = uint h div 65536"
    using uint_ge_0 [of h] unfolding order_le_less
    by (auto simp: signed_modulo_int_def signed_divide_int_def sgn_if)
  ultimately have "offset_1 (create_idt_rec h t) = ucast h" "offset_2 (create_idt_rec h t) = ucast (drop_bit 16 h)"
    by (simp_all add: create_idt_rec_def h)
  then show ?thesis
    by (simp add: gate_entry_def) (rule bit_word_eqI, auto simp: bit_simps)
qed

lemma load_recs_Cons: "load_recs vec entry (k # ns) recs = load_recs vec entry ns (recs(vec k := create_idt_rec (entry k) igate_type_interrupt))"
  by (simp add: load_recs_def)

lemma load_recs_other: "v \<notin> vec ` set ns \<Longrightarrow> load_recs vec entry ns recs v = recs v"
  by (induction ns arbitrary: recs) (auto simp: load_recs_Cons load_recs_def [of _ _ "[]"])

lemma load_recs_at: "n \<in> set ns \<Longrightarrow> inj vec \<Longrightarrow> load_recs vec entry ns recs (vec n) = create_idt_rec (entry n) igate_type_interrupt"
proof (induction ns arbitrary: recs)
  case (Cons k ns)
  show ?case
  proof (cases "n \<in> set ns")
    case True
    then show ?thesis using Cons by (simp add: load_recs_Cons)
  next
    case False
    then have "vec n \<notin> vec ` set ns" "n = k" using Cons.prems by (auto simp: inj_on_def)
    then show ?thesis by (simp add: load_recs_Cons load_recs_other)
  qed
qed simp

lemma first_sixteen: "[0, 1, 2, 3, 4, 5, 6, 7, 8, 9, 10, 11, 12, 13, 14, 15] = [0..<16]"
  and the_traps: "[0, 1, 2, 3, 4, 5, 6, 7, 8, 9, 10, 11, 12, 13, 14, 15, 16, 17, 18, 0x80] = [0..<19] @ [128]"
  by (simp_all add: upt_rec)

lemma exception_gate:
  assumes "n \<le> 18 \<or> n = 128"
  shows "load_idt_hardint_recs irqh (load_idt_trap_recs ih recs) n = create_idt_rec (ih n) igate_type_interrupt"
proof -
  have "n \<in> set ([0..<19] @ [128])" using assms by auto
  moreover have "n \<notin> (\<lambda>n. 32 + n) ` set [0..<16]" using assms by auto
  ultimately show ?thesis unfolding load_idt_hardint_recs_def load_idt_trap_recs_def first_sixteen the_traps
    using load_recs_at [of n _ "\<lambda>n. n" ih] by (metis inj_on_id2 load_recs_other)
qed

lemma request_gate:
  assumes "n < 16"
  shows "load_idt_hardint_recs irqh recs (32 + n) = create_idt_rec (irqh n) igate_type_interrupt"
proof -
  have "n \<in> set [0..<16]" using assms by auto
  then show ?thesis unfolding load_idt_hardint_recs_def first_sixteen by (rule load_recs_at) (simp add: inj_on_def)
qed

lemma other_gate:
  assumes "\<not> (n \<le> 18 \<or> n = 128 \<or> 32 \<le> n \<and> n < 48)"
  shows "load_idt_hardint_recs irqh (load_idt_trap_recs ih recs) n = recs n"
proof -
  have "n \<notin> (\<lambda>n. n) ` set ([0..<19] @ [128])" "n \<notin> (\<lambda>n. 32 + n) ` set [0..<16]" using assms by auto
  then show ?thesis unfolding load_idt_hardint_recs_def load_idt_trap_recs_def first_sixteen the_traps
    by (metis load_recs_other)
qed

lemma interrupt_gate: "gate_present (create_idt_rec h igate_type_interrupt)" "user_may_call (create_idt_rec h igate_type_interrupt)"
  by (simp_all add: gate_present_def user_may_call_def create_idt_rec_def igate_type_interrupt_def bit_simps)

text \<open>C17. After \<open>load_idt_recs\<close> each of the processor's exceptions 0 to 18, each of the 16 request lines and the
  system call have a gate that enters its own assembly routine, which a program may also call itself; every
  other gate is as it was. A handler that a driver registers for a request line is the one that is called
  when the line asks, with the number of its vector, and the controller of the line is told, the second
  one for the lines from 8; without one it is the common handler.\<close>

theorem irq_reaches_driver:
  assumes "\<And>n. unat (ih n) < 2147483648 \<and> unat (irqh n) < 2147483648" and "load_idt_recs ih irqh d common = (d', w)"
    and "unat line < 16" and "r_int_no regs = line"
  shows "(n \<le> 18 \<or> n = 128 \<longrightarrow> gate_entry (idt_records d' n) = ih n) \<and>
    (n < 16 \<longrightarrow> gate_entry (idt_records d' (32 + n)) = irqh n) \<and>
    (if n \<le> 18 \<or> n = 128 \<or> 32 \<le> n \<and> n < 48 then gate_present (idt_records d' n) \<and> user_may_call (idt_records d' n)
     else idt_records d' n = idt_records d n) \<and>
    irq_handler (load_int_handler d' (ucast line + 32) h) regs =
      Some ((if unat line < 8 then [] else [(0xA0, 0x20)]) @ [(0x20, 0x20)], h, regs\<lparr>r_int_no := line + 32\<rparr>) \<and>
    map_option (fst \<circ> snd) (irq_handler d' regs) = Some common"
proof -
  have d': "idt_records d' = load_idt_hardint_recs irqh (load_idt_trap_recs ih (idt_records d))"
    "int_handlers d' = (\<lambda>n. if n < 256 then None else int_handlers d n)" "int_handler_common d' = common"
    using assms(2) by (auto simp: load_idt_recs_def Let_def)
  have n: "unat (line + 32) = unat line + 32" using assms(3) by (subst unat_add_nowrap) simp_all
  have "unat (ucast line :: u8) = unat line" using assms(3) by (simp add: unsigned_ucast_eq take_bit_nat_eq_self)
  then have c: "unat (ucast line + 32 :: u8) = unat line + 32" using assms(3) by (simp add: unat_word_ariths)
  have l: "8 \<le> line \<longleftrightarrow> \<not> unat line < 8" by (simp add: word_le_nat_alt not_less)
  have irq: "irq_handler (load_int_handler d' (ucast line + 32) h) regs =
      Some ((if unat line < 8 then [] else [(0xA0, 0x20)]) @ [(0x20, 0x20)], h, regs\<lparr>r_int_no := line + 32\<rparr>)"
    "map_option (fst \<circ> snd) (irq_handler d' regs) = Some common"
    using n c assms(3,4) by (simp_all add: irq_handler_def interrupt_handler_def load_int_handler_def d' l)
  have req: "gate_present (idt_records d' n) \<and> user_may_call (idt_records d' n)" if "32 \<le> n" "n < 48"
    using request_gate [of "n - 32" irqh] that interrupt_gate by (simp add: d')
  show ?thesis
    using irq req assms(1) by (auto simp: d' exception_gate request_gate other_gate gate_low interrupt_gate)
qed

text \<open>The disk driver's handler on line 14.\<close>

theorem irq_reaches_driver_witness:
  "\<exists>d' w. load_idt_recs (\<lambda>n. 0x100000 + 16 * of_nat (n mod 256)) (\<lambda>n. 0x104000 + 16 * of_nat (n mod 256))
      \<lparr>idt_records = (\<lambda>_. \<lparr>offset_1 = 0, selector = 0, zero = 0, type_attr = 0, offset_2 = 0\<rparr>), int_handlers = (\<lambda>_. None), int_handler_common = ''none''\<rparr>
      ''common'' = (d', w) \<and> gate_entry (idt_records d' 46) = 0x1040E0 \<and>
    (\<forall>regs. r_int_no regs = 14 \<longrightarrow> irq_handler (load_int_handler d' INTCODE_ATA ''ata'') regs =
      Some ([(0xA0, 0x20), (0x20, 0x20)], ''ata'', regs\<lparr>r_int_no := 46\<rparr>))"
proof -
  let ?ih = "\<lambda>n. 0x100000 + 16 * of_nat (n mod 256) :: u32" and ?irqh = "\<lambda>n. 0x104000 + 16 * of_nat (n mod 256) :: u32"
  let ?d = "\<lparr>idt_records = (\<lambda>_. \<lparr>offset_1 = 0, selector = 0, zero = 0, type_attr = 0, offset_2 = 0\<rparr>), int_handlers = (\<lambda>_. None), int_handler_common = ''none''\<rparr>"
  have low: "unat (?ih n) < 2147483648 \<and> unat (?irqh n) < 2147483648" for n
  proof -
    have "n mod 256 < 256" by simp
    then have "unat (of_nat (n mod 256) :: u32) < 256" by (simp add: unat_of_nat take_bit_nat_eq_self)
    then show ?thesis by (simp add: unat_word_ariths)
  qed
  obtain d' w where d': "load_idt_recs ?ih ?irqh ?d ''common'' = (d', w)" by fastforce
  have line: "unat (14 :: u32) < 16" by simp
  have "gate_entry (idt_records d' (32 + 14)) = ?irqh 14"
    using irq_reaches_driver [OF low d' line, of "undefined\<lparr>r_int_no := 14\<rparr>" 14] by simp
  moreover have "irq_handler (load_int_handler d' INTCODE_ATA ''ata'') regs = Some ([(0xA0, 0x20), (0x20, 0x20)], ''ata'', regs\<lparr>r_int_no := 46\<rparr>)"
    if "r_int_no regs = 14" for regs
    using irq_reaches_driver [OF low d' line that, of 0 "''ata''"] by (simp add: INTCODE_ATA_def)
  ultimately show ?thesis using d' by auto
qed

end
