(* ===== verification/Syscall.thy ===== *)
theory Syscall
  imports Prog Kb Idt
begin

text \<open>
  \<open>src/syscall.c\<close>: the system calls. The state is the whole of the kernel that they change; the memory of
  the program is reached through the page tables of the directory in use, so an address that is not
  mapped has no result. A call that puts its task to sleep ends there with what it will do when the task
  runs again, a \<open>pending\<close> call; a task that sleeps alone goes on at once, as \<open>task_switch\<close> makes it.
  The numbers a call returns are the words that go into \<open>eax\<close>.
\<close>

record sys =
  kern :: kernel
  kbd :: keyboard
  glb_term :: tty
  pages :: paging
  stdin_lock :: ksemaphore
  mq_names :: "(cstr \<times> nat) list"
  next_pipe :: nat
  kernel_memory_end :: u32

definition SYSCALL_EXIT :: u32 where "SYSCALL_EXIT = 1"
definition SYSCALL_READ :: u32 where "SYSCALL_READ = 2"
definition SYSCALL_WRITE :: u32 where "SYSCALL_WRITE = 3"
definition SYSCALL_OPEN :: u32 where "SYSCALL_OPEN = 4"
definition SYSCALL_CLOSE :: u32 where "SYSCALL_CLOSE = 5"
definition SYSCALL_OPENDIR :: u32 where "SYSCALL_OPENDIR = 6"
definition SYSCALL_READDIR :: u32 where "SYSCALL_READDIR = 7"
definition SYSCALL_STAT :: u32 where "SYSCALL_STAT = 8"
definition SYSCALL_EXEC :: u32 where "SYSCALL_EXEC = 9"
definition SYSCALL_FORK :: u32 where "SYSCALL_FORK = 10"
definition SYSCALL_GETCWD :: u32 where "SYSCALL_GETCWD = 11"
definition SYSCALL_SETCWD :: u32 where "SYSCALL_SETCWD = 12"
definition SYSCALL_WAITPID :: u32 where "SYSCALL_WAITPID = 13"
definition SYSCALL_WAIT :: u32 where "SYSCALL_WAIT = 14"
definition SYSCALL_GETPID :: u32 where "SYSCALL_GETPID = 15"
definition SYSCALL_MKDIR :: u32 where "SYSCALL_MKDIR = 16"
definition SYSCALL_SBRK :: u32 where "SYSCALL_SBRK = 17"
definition SYSCALL_PIPE :: u32 where "SYSCALL_PIPE = 18"
definition SYSCALL_DUP :: u32 where "SYSCALL_DUP = 19"
definition SYSCALL_MQOPEN :: u32 where "SYSCALL_MQOPEN = 20"

definition SYSCALL_ERR_INVALID_FD :: u32 where "SYSCALL_ERR_INVALID_FD = - 1"
definition SYSCALL_ERR_WRITEONLY :: u32 where "SYSCALL_ERR_WRITEONLY = - 2"
definition SYSCALL_ERR_READONLY :: u32 where "SYSCALL_ERR_READONLY = - 3"
definition SYSCALL_ERR_INVALID_LENGTH :: u32 where "SYSCALL_ERR_INVALID_LENGTH = - 4"
definition SYSCALL_ERR_UNLINKED_FILE :: u32 where "SYSCALL_ERR_UNLINKED_FILE = - 5"
definition SYSCALL_ERR_INVALID_PATH :: u32 where "SYSCALL_ERR_INVALID_PATH = - 6"
definition SYSCALL_ERR_NONEXISTING :: u32 where "SYSCALL_ERR_NONEXISTING = - 7"
definition SYSCALL_ERR_HAS_CHILD :: u32 where "SYSCALL_ERR_HAS_CHILD = - 8"
definition SYSCALL_ERR_NOT_EXECUTABLE :: u32 where "SYSCALL_ERR_NOT_EXECUTABLE = - 9"
definition SYSCALL_ERR_INVAL_CHILDPID :: u32 where "SYSCALL_ERR_INVAL_CHILDPID = - 10"

text \<open>What a sleeping call does next: the addresses and numbers are its arguments.\<close>

datatype pending = In_wait u32 | In_waitpid nat u32 u32 | In_exit | In_fork | In_stdin_lock u32 u32 | In_stdin u32 u32 | In_pipe nat u32 u32

datatype outcome = Ret u32 | Sleep pending

definition syscall_translate_fs_err :: "int \<Rightarrow> u32" where
  "syscall_translate_fs_err err =
     (if err = FS_ERR_DELETED then SYSCALL_ERR_UNLINKED_FILE
      else if err = FS_ERR_DIR_HAS_CHILD then SYSCALL_ERR_HAS_CHILD
      else if err = FS_ERR_NONEXISTING then SYSCALL_ERR_NONEXISTING
      else if err = FS_ERR_INVALID_PATH then SYSCALL_ERR_INVALID_PATH else 0)"

subsection \<open>The task that calls\<close>

definition cur_dir :: "sys \<Rightarrow> u32" where
  "cur_dir s = current_page_directory (kern s)"

definition cur_task :: "sys \<Rightarrow> (nat \<times> task_t) option" where
  "cur_task s = do { a \<leftarrow> task_curtask (kern s); t \<leftarrow> tasks (kern s) a; Some (a, t) }"

definition set_task :: "sys \<Rightarrow> nat \<Rightarrow> task_t \<Rightarrow> sys" where
  "set_task s a t = s\<lparr>kern := put_task (kern s) a t\<rparr>"

definition set_objs :: "sys \<Rightarrow> objs \<Rightarrow> sys" where
  "set_objs s w = s\<lparr>kern := (kern s)\<lparr>objs := w\<rparr>\<rparr>"

definition set_files :: "sys \<Rightarrow> fs \<Rightarrow> sys" where
  "set_files s w = set_objs s ((objs (kern s))\<lparr>files := w\<rparr>)"

definition set_pipe :: "sys \<Rightarrow> nat \<Rightarrow> pipe \<Rightarrow> sys" where
  "set_pipe s a p = set_objs s ((objs (kern s))\<lparr>pipes := (pipes (objs (kern s)))(a := Some p)\<rparr>)"

text \<open>The file system, told which task would wait for its locks.\<close>

definition fs_for :: "sys \<Rightarrow> nat \<Rightarrow> fs" where
  "fs_for s a = (let w = files (objs (kern s)) in w\<lparr>vol := (vol w)\<lparr>curtask := a\<rparr>\<rparr>)"

text \<open>A semaphore or lock that wakes a task.\<close>

definition wake :: "sys \<Rightarrow> nat option \<Rightarrow> sys" where
  "wake s w = (case w of None \<Rightarrow> s | Some b \<Rightarrow> s\<lparr>kern := task_awake (kern s) b\<rparr>)"

definition call_sleep :: "sys \<Rightarrow> cpu_context \<Rightarrow> pending \<Rightarrow> (sys \<Rightarrow> (sys \<times> outcome) option) \<Rightarrow> (sys \<times> outcome) option" where
  "call_sleep s c p rest =
     (if length (rr_queue (kern s)) = 1 then rest s
      else do { k \<leftarrow> task_sleep (kern s) c; Some (s\<lparr>kern := k\<rparr>, Sleep p) })"

subsection \<open>Descriptors\<close>

text \<open>The checks every call on a descriptor begins with; the inner \<open>None\<close> is a number that is not open.\<close>

definition get_fd :: "task_t \<Rightarrow> u32 \<Rightarrow> fd option option" where
  "get_fd t i =
     (if i \<ge> fd_size (table t) then Some None
      else do { f \<leftarrow> rd (records (table t)) (unat i); Some (if fd_isopen f = 0 then None else Some f) })"

text \<open>\<open>fd->pos += ret\<close>.\<close>

definition move_fd :: "sys \<Rightarrow> nat \<Rightarrow> u32 \<Rightarrow> int \<Rightarrow> sys option" where
  "move_fd s a i ret = do {
     t \<leftarrow> tasks (kern s) a;
     f \<leftarrow> rd (records (table t)) (unat i);
     b \<leftarrow> wr (records (table t)) (unat i) (f\<lparr>fd_pos := fd_pos f + word_of_int ret\<rparr>);
     Some (set_task s a (t\<lparr>table := (table t)\<lparr>records := b\<rparr>\<rparr>))
   }"

definition add_fd :: "sys \<Rightarrow> fd \<Rightarrow> (sys \<times> u32) option" where
  "add_fd s f = do {
     (a, t) \<leftarrow> cur_task s;
     (tab, i) \<leftarrow> fd_table_add (table t) f;
     Some (set_task s a (t\<lparr>table := tab\<rparr>), i)
   }"

definition resolve_path :: "sys \<Rightarrow> pathbuf \<Rightarrow> pathbuf option" where
  "resolve_path s path = (if is_absolute path \<noteq> 0 then Some path else do { (a, t) \<leftarrow> cur_task s; pathbuf_join (cwd t) path })"

text \<open>The name at an address of the program, as a path from the root.\<close>

definition user_path :: "sys \<Rightarrow> u32 \<Rightarrow> pathbuf option" where
  "user_path s p = do { name \<leftarrow> load_str (pages s) (cur_dir s) p; pb \<leftarrow> pathbuf_parse name; resolve_path s pb }"

subsection \<open>Tasks\<close>

definition u16_bytes :: "u16 \<Rightarrow> u8 list" where
  "u16_bytes w = [ucast w, ucast (drop_bit 8 w)]"

definition put_user :: "sys \<Rightarrow> u32 \<Rightarrow> u8 list \<Rightarrow> sys option" where
  "put_user s p bs = do { g \<leftarrow> store_bytes (pages s) (cur_dir s) p bs; Some (s\<lparr>pages := g\<rparr>) }"

text \<open>The end of \<open>syscall_wait\<close> and of \<open>syscall_waitpid\<close>.\<close>

definition reap :: "sys \<Rightarrow> nat \<Rightarrow> u32 \<Rightarrow> (sys \<times> u32) option" where
  "reap s child stref = do {
     ct \<leftarrow> tasks (kern s) child;
     s \<leftarrow> put_user s stref (u16_bytes (exit_status ct));
     k \<leftarrow> task_killtask (kern s) child;
     Some (s\<lparr>kern := k\<rparr>, pid ct)
   }"

definition wait_end :: "u32 \<Rightarrow> sys \<Rightarrow> (sys \<times> outcome) option" where
  "wait_end stref s = do {
     (a, t) \<leftarrow> cur_task s;
     child \<leftarrow> chwait t;
     (s, p) \<leftarrow> reap s child stref;
     Some (s, Ret p)
   }"

definition waitpid_end :: "nat \<Rightarrow> u32 \<Rightarrow> u32 \<Rightarrow> sys \<Rightarrow> (sys \<times> outcome) option" where
  "waitpid_end child child_pid stref s = do { (s, _) \<leftarrow> reap s child stref; Some (s, Ret child_pid) }"

definition syscall_wait :: "sys \<Rightarrow> cpu_context \<Rightarrow> registers \<Rightarrow> (sys \<times> outcome) option" where
  "syscall_wait s c regs = do {
     let stref = r_ebx regs;
     (a, t) \<leftarrow> cur_task s;
     child \<leftarrow> task_find_zombie (kern s) a;
     if child = None then call_sleep (set_task s a (t\<lparr>twait := TASK_WAIT_ALL\<rparr>)) c (In_wait stref) (wait_end stref)
     else wait_end stref s
   }"

definition syscall_waitpid :: "sys \<Rightarrow> cpu_context \<Rightarrow> registers \<Rightarrow> (sys \<times> outcome) option" where
  "syscall_waitpid s c regs = do {
     let child_pid = r_ebx regs;
     let stref = r_ecx regs;
     (a, t) \<leftarrow> cur_task s;
     child \<leftarrow> task_gettask (kern s) child_pid;
     case child of
       None \<Rightarrow> Some (s, Ret SYSCALL_ERR_INVAL_CHILDPID)
     | Some ch \<Rightarrow>
         if tparent t \<noteq> Some a then Some (s, Ret SYSCALL_ERR_INVAL_CHILDPID)
         else do {
           ct \<leftarrow> tasks (kern s) ch;
           if exit_status ct = - 1 then
             call_sleep (set_task s a (t\<lparr>twait := TASK_WAIT_PID, chwait := Some ch\<rparr>)) c (In_waitpid ch child_pid stref)
               (waitpid_end ch child_pid stref)
           else waitpid_end ch child_pid stref s
         }
   }"

definition syscall_exit :: "sys \<Rightarrow> cpu_context \<Rightarrow> registers \<Rightarrow> (sys \<times> outcome) option" where
  "syscall_exit s c regs = do {
     (a, t) \<leftarrow> cur_task s;
     let parent = tparent t;
     k \<leftarrow> task_close_all_fds (put_task (kern s) a (t\<lparr>exit_status := ucast (r_ebx regs)\<rparr>));
     b \<leftarrow> parent;
     p \<leftarrow> tasks k b;
     let k = (if twait p = TASK_WAIT_PID \<and> chwait p = Some a \<or> twait p = TASK_WAIT_ALL
              then task_awake (put_task k b (p\<lparr>chwait := Some a, twait := TASK_WAIT_NONE\<rparr>)) b else k);
     call_sleep (s\<lparr>kern := k\<rparr>) c In_exit (\<lambda>s. Some (s, Ret 0))
   }"

text \<open>The copy of the task goes on with \<open>In_fork\<close>.\<close>

definition syscall_fork :: "sys \<Rightarrow> cpu_context \<Rightarrow> registers \<Rightarrow> (sys \<times> outcome) option" where
  "syscall_fork s c regs = do {
     (a, t) \<leftarrow> cur_task s;
     (g, newdir) \<leftarrow> page_directory_clone (cur_dir s) (pages s) (page_dir t);
     (k, p) \<leftarrow> task_fork (kern s) c newdir;
     Some (s\<lparr>kern := k, pages := g\<rparr>, Ret p)
   }"

definition syscall_getpid :: "sys \<Rightarrow> cpu_context \<Rightarrow> registers \<Rightarrow> (sys \<times> outcome) option" where
  "syscall_getpid s c regs = do { p \<leftarrow> multk_getpid (kern s); Some (s, Ret p) }"

text \<open>Pages for the addresses between the old and the new break.\<close>

partial_function (option) grow_pages :: "u32 \<Rightarrow> paging \<Rightarrow> u32 \<Rightarrow> u32 \<Rightarrow> paging option" where
  "grow_pages dir g i new_brk =
     (if i < new_brk then do {
        (g, l) \<leftarrow> get_page dir g i False dir;
        pg \<leftarrow> page_at g l;
        g \<leftarrow> (if frame pg = 0 then alloc_frame g l True False else Some g);
        grow_pages dir g (i + 0x1000) new_brk
      } else Some g)"

definition syscall_sbrk :: "sys \<Rightarrow> cpu_context \<Rightarrow> registers \<Rightarrow> (sys \<times> outcome) option" where
  "syscall_sbrk s c regs = do {
     (a, t) \<leftarrow> cur_task s;
     let old_brk = brk t;
     let new_brk = old_brk + r_ebx regs;
     g \<leftarrow> grow_pages (cur_dir s) (pages s) old_brk new_brk;
     Some (set_task (s\<lparr>pages := g\<rparr>) a (t\<lparr>brk := new_brk\<rparr>), Ret new_brk)
   }"

subsection \<open>Paths\<close>

definition syscall_getcwd :: "sys \<Rightarrow> cpu_context \<Rightarrow> registers \<Rightarrow> (sys \<times> outcome) option" where
  "syscall_getcwd s c regs = do {
     (a, t) \<leftarrow> cur_task s;
     str \<leftarrow> pathbuf_stringify (cwd t);
     s \<leftarrow> put_user s (r_ebx regs) (str @ [0]);
     Some (s, Ret 0)
   }"

definition syscall_setcwd :: "sys \<Rightarrow> cpu_context \<Rightarrow> registers \<Rightarrow> (sys \<times> outcome) option" where
  "syscall_setcwd s c regs = do {
     (a, t) \<leftarrow> cur_task s;
     pb \<leftarrow> user_path s (r_ebx regs);
     (w, dir, res) \<leftarrow> fs_open (fs_for s a) pb 0 0 1 0;
     w \<leftarrow> fs_close w dir;
     let s = set_files s w;
     if res \<noteq> 0 then Some (s, Ret (syscall_translate_fs_err res))
     else Some (set_task s a (t\<lparr>cwd := pb\<rparr>), Ret 0)
   }"

definition syscall_mkdir :: "sys \<Rightarrow> cpu_context \<Rightarrow> registers \<Rightarrow> (sys \<times> outcome) option" where
  "syscall_mkdir s c regs = do {
     (a, t) \<leftarrow> cur_task s;
     pb \<leftarrow> user_path s (r_ebx regs);
     (w, node, res) \<leftarrow> fs_open (fs_for s a) pb 1 0 1 0;
     w \<leftarrow> fs_close w node;
     Some (set_files s w, Ret (if res \<noteq> 0 then syscall_translate_fs_err res else 0))
   }"

definition syscall_open :: "sys \<Rightarrow> cpu_context \<Rightarrow> registers \<Rightarrow> (sys \<times> outcome) option" where
  "syscall_open s c regs = do {
     (a, t) \<leftarrow> cur_task s;
     pb \<leftarrow> user_path s (r_ebx regs);
     let flags = (ucast (r_ecx regs) :: u8);
     (w, node, res) \<leftarrow> fs_open (fs_for s a) pb (flags AND 0x01) (drop_bit 1 (flags AND 0x02)) 0 0;
     let s = set_files s w;
     if res \<noteq> 0 then Some (s, Ret (syscall_translate_fs_err res))
     else do {
       (s, i) \<leftarrow> add_fd s \<lparr>fd_kind = FD_KIND_DISK, fd_pos = 0, fd_isopen = 1, fd_access = FD_ACCESS_WRITE OR FD_ACCESS_READ, fd_ptr = node\<rparr>;
       Some (s, Ret i)
     }
   }"

definition syscall_opendir :: "sys \<Rightarrow> cpu_context \<Rightarrow> registers \<Rightarrow> (sys \<times> outcome) option" where
  "syscall_opendir s c regs = do {
     (a, t) \<leftarrow> cur_task s;
     pb \<leftarrow> user_path s (r_ebx regs);
     (w, node, res) \<leftarrow> fs_open (fs_for s a) pb 0 0 1 0;
     let s = set_files s w;
     if res \<noteq> 0 then Some (s, Ret (syscall_translate_fs_err res))
     else do {
       (s, i) \<leftarrow> add_fd s \<lparr>fd_kind = FD_KIND_DIR, fd_pos = 0, fd_isopen = 1, fd_access = FD_ACCESS_READ, fd_ptr = node\<rparr>;
       Some (s, Ret i)
     }
   }"

text \<open>The three bytes that follow \<open>isdir\<close> in \<open>stat_t\<close> are not written.\<close>

definition syscall_stat :: "sys \<Rightarrow> cpu_context \<Rightarrow> registers \<Rightarrow> (sys \<times> outcome) option" where
  "syscall_stat s c regs = do {
     (a, t) \<leftarrow> cur_task s;
     let st = r_ecx regs;
     pb \<leftarrow> user_path s (r_ebx regs);
     (w, node, res) \<leftarrow> fs_open (fs_for s a) pb 0 0 2 0;
     let s = set_files s w;
     if res \<noteq> 0 then Some (s, Ret (syscall_translate_fs_err res))
     else do {
       n \<leftarrow> node;
       nd \<leftarrow> inodes w n;
       s \<leftarrow> put_user s st (u32_bytes (index nd));
       s \<leftarrow> put_user s (st + 4) [if itype nd = inode_type_dir then 1 else 0];
       s \<leftarrow> put_user s (st + 8) (u32_bytes (isize nd));
       s \<leftarrow> put_user s (st + 12) (u32_bytes (alloc nd + 1));
       Some (s, Ret 0)
     }
   }"

subsection \<open>Reading and writing\<close>

definition syscall_readdir :: "sys \<Rightarrow> cpu_context \<Rightarrow> registers \<Rightarrow> (sys \<times> outcome) option" where
  "syscall_readdir s c regs = do {
     (a, t) \<leftarrow> cur_task s;
     f \<leftarrow> get_fd t (r_ebx regs);
     case f of
       None \<Rightarrow> Some (s, Ret SYSCALL_ERR_INVALID_FD)
     | Some f \<Rightarrow>
         if fd_kind f \<noteq> FD_KIND_DIR then Some (s, Ret SYSCALL_ERR_INVALID_FD)
         else do {
           node \<leftarrow> fd_ptr f;
           (w, name, ret) \<leftarrow> fs_readdir (fs_for s a) node (fd_pos f);
           s \<leftarrow> (case name of None \<Rightarrow> Some (set_files s w) | Some str \<Rightarrow> put_user (set_files s w) (r_ecx regs) (str @ [0]));
           if ret = FS_ERR_DELETED then Some (s, Ret SYSCALL_ERR_UNLINKED_FILE)
           else do { s \<leftarrow> move_fd s a (r_ebx regs) ret; Some (s, Ret (word_of_int ret)) }
         }
   }"

definition syscall_close :: "sys \<Rightarrow> cpu_context \<Rightarrow> registers \<Rightarrow> (sys \<times> outcome) option" where
  "syscall_close s c regs = do {
     (a, t) \<leftarrow> cur_task s;
     f \<leftarrow> get_fd t (r_ebx regs);
     case f of
       None \<Rightarrow> Some (s, Ret SYSCALL_ERR_INVALID_FD)
     | Some f \<Rightarrow> do {
         (w, tab) \<leftarrow> fd_table_close (objs (kern s)) (table t) (r_ebx regs);
         Some (set_task (set_objs s w) a (t\<lparr>table := tab\<rparr>), Ret 0)
       }
   }"

definition syscall_read_disk :: "sys \<Rightarrow> nat \<Rightarrow> u32 \<Rightarrow> fd \<Rightarrow> u32 \<Rightarrow> u32 \<Rightarrow> (sys \<times> outcome) option" where
  "syscall_read_disk s a i f ptr len = do {
     node \<leftarrow> fd_ptr f;
     (w, str, ret) \<leftarrow> fs_read (fs_for s a) node (fd_pos f) len;
     bytes \<leftarrow> those str;
     s \<leftarrow> put_user (set_files s w) ptr bytes;
     if ret = FS_ERR_DELETED then Some (s, Ret SYSCALL_ERR_UNLINKED_FILE)
     else do { s \<leftarrow> move_fd s a i ret; Some (s, Ret (word_of_int ret)) }
   }"

text \<open>\<open>syscall_read_stdin\<close> from where it looks at the first line, from where it has the lock, and whole. The
  count is the smaller of the two as unsigned numbers, but the lengths are compared as signed ones.\<close>

definition stdin_take :: "u32 \<Rightarrow> u32 \<Rightarrow> sys \<Rightarrow> (sys \<times> outcome) option" where
  "stdin_take ptr len s = do {
     input \<leftarrow> queue_peek (input_list (kbd s));
     let input_len = of_nat (length input);
     let count = min_u32 len input_len;
     s \<leftarrow> put_user s ptr (take (unat count) input);
     let rest = tl (input_list (kbd s));
     let s = s\<lparr>kbd := (kbd s)\<lparr>input_list := (if sint len < sint input_len then drop (unat len) input # rest else rest)\<rparr>\<rparr>;
     let (sem, woken) = ksemaphore_signal (stdin_lock s);
     Some (wake (s\<lparr>stdin_lock := sem\<rparr>) woken, Ret count)
   }"

definition stdin_locked :: "u32 \<Rightarrow> u32 \<Rightarrow> cpu_context \<Rightarrow> sys \<Rightarrow> (sys \<times> outcome) option" where
  "stdin_locked ptr len c s =
     (if input_list (kbd s) = [] then do {
        a \<leftarrow> task_curtask (kern s);
        call_sleep (s\<lparr>kbd := (kbd s)\<lparr>reader_task := Some a\<rparr>\<rparr>) c (In_stdin ptr len) (stdin_take ptr len)
      } else stdin_take ptr len s)"

definition syscall_read_stdin :: "sys \<Rightarrow> cpu_context \<Rightarrow> u32 \<Rightarrow> u32 \<Rightarrow> (sys \<times> outcome) option" where
  "syscall_read_stdin s c ptr len = do {
     a \<leftarrow> task_curtask (kern s);
     let (sem, sleeps) = ksemaphore_wait (stdin_lock s) a;
     let s = s\<lparr>stdin_lock := sem\<rparr>;
     if sleeps then call_sleep s c (In_stdin_lock ptr len) (stdin_locked ptr len c) else stdin_locked ptr len c s
   }"

definition pipe_take :: "nat \<Rightarrow> u32 \<Rightarrow> u32 \<Rightarrow> sys \<Rightarrow> (sys \<times> outcome) option" where
  "pipe_take p ptr len s = do {
     pp \<leftarrow> pipes (objs (kern s)) p;
     (pp, bytes, woken) \<leftarrow> pipe_read_take pp (unat len);
     s \<leftarrow> put_user (set_pipe s p pp) ptr bytes;
     Some (wake s woken, Ret (of_nat (length bytes)))
   }"

text \<open>\<open>pipe_read\<close>, called by \<open>syscall_read\<close>.\<close>

definition read_pipe :: "sys \<Rightarrow> cpu_context \<Rightarrow> nat \<Rightarrow> u32 \<Rightarrow> u32 \<Rightarrow> (sys \<times> outcome) option" where
  "read_pipe s c p ptr len = do {
     a \<leftarrow> task_curtask (kern s);
     pp \<leftarrow> pipes (objs (kern s)) p;
     case pipe_read_wait pp a of
       None \<Rightarrow> Some (s, Ret 0)
     | Some (pp, sleeps) \<Rightarrow>
         let s = set_pipe s p pp
         in if sleeps then call_sleep s c (In_pipe p ptr len) (pipe_take p ptr len) else pipe_take p ptr len s
   }"

text \<open>The test of the access is as it is in the code.\<close>

definition syscall_read :: "sys \<Rightarrow> cpu_context \<Rightarrow> registers \<Rightarrow> (sys \<times> outcome) option" where
  "syscall_read s c regs = do {
     let len = r_edx regs;
     let ptr = r_ecx regs;
     (a, t) \<leftarrow> cur_task s;
     f \<leftarrow> get_fd t (r_ebx regs);
     case f of
       None \<Rightarrow> Some (s, Ret SYSCALL_ERR_INVALID_FD)
     | Some f \<Rightarrow>
         if fd_access f OR FD_ACCESS_READ = 0 then Some (s, Ret SYSCALL_ERR_WRITEONLY)
         else if sint len \<le> 0 then Some (s, Ret SYSCALL_ERR_INVALID_LENGTH)
         else if fd_kind f = FD_KIND_STDIN then syscall_read_stdin s c ptr len
         else if fd_kind f = FD_KIND_PIPE \<or> fd_kind f = FD_KIND_MQ then do { p \<leftarrow> fd_ptr f; read_pipe s c p ptr len }
         else syscall_read_disk s a (r_ebx regs) f ptr len
   }"

text \<open>A deleted node and a pipe without readers are noticed before the bytes are looked at.\<close>

definition syscall_write_disk :: "sys \<Rightarrow> nat \<Rightarrow> u32 \<Rightarrow> fd \<Rightarrow> u32 \<Rightarrow> u32 \<Rightarrow> (sys \<times> outcome) option" where
  "syscall_write_disk s a i f ptr len = do {
     node \<leftarrow> fd_ptr f;
     nd \<leftarrow> inodes (fs_for s a) node;
     bytes \<leftarrow> (if isvalid nd \<noteq> 0 then load_bytes (pages s) (cur_dir s) ptr (unat len) else Some []);
     (w, ret) \<leftarrow> fs_write (fs_for s a) node (List.map Some bytes) (fd_pos f) len;
     let s = set_files s w;
     if ret = FS_ERR_DELETED then Some (s, Ret SYSCALL_ERR_UNLINKED_FILE)
     else do { s \<leftarrow> move_fd s a i ret; Some (s, Ret (word_of_int ret)) }
   }"

definition syscall_write_stdout :: "sys \<Rightarrow> u32 \<Rightarrow> u32 \<Rightarrow> (sys \<times> outcome) option" where
  "syscall_write_stdout s ptr len = do {
     bytes \<leftarrow> load_bytes (pages s) (cur_dir s) ptr (unat len);
     x \<leftarrow> term_print_buffer (glb_term s) bytes;
     Some (s\<lparr>glb_term := x, kbd := (kbd s)\<lparr>keyboard_input_size := 0\<rparr>\<rparr>, Ret len)
   }"

text \<open>\<open>pipe_write\<close>, called by \<open>syscall_write\<close>.\<close>

definition write_pipe :: "sys \<Rightarrow> nat \<Rightarrow> u32 \<Rightarrow> u32 \<Rightarrow> (sys \<times> outcome) option" where
  "write_pipe s p ptr len = do {
     pp \<leftarrow> pipes (objs (kern s)) p;
     bytes \<leftarrow> (if reader_count pp \<noteq> 0 then load_bytes (pages s) (cur_dir s) ptr (unat len) else Some []);
     let (pp, woken) = pipe_write pp bytes;
     Some (wake (set_pipe s p pp) woken, Ret len)
   }"

definition syscall_write :: "sys \<Rightarrow> cpu_context \<Rightarrow> registers \<Rightarrow> (sys \<times> outcome) option" where
  "syscall_write s c regs = do {
     let len = r_edx regs;
     let ptr = r_ecx regs;
     (a, t) \<leftarrow> cur_task s;
     f \<leftarrow> get_fd t (r_ebx regs);
     case f of
       None \<Rightarrow> Some (s, Ret SYSCALL_ERR_INVALID_FD)
     | Some f \<Rightarrow>
         if fd_access f AND FD_ACCESS_WRITE = 0 then Some (s, Ret SYSCALL_ERR_READONLY)
         else if sint len \<le> 0 then Some (s, Ret SYSCALL_ERR_INVALID_LENGTH)
         else if fd_kind f = FD_KIND_STDOUT then syscall_write_stdout s ptr len
         else if fd_kind f = FD_KIND_PIPE \<or> fd_kind f = FD_KIND_MQ then do { p \<leftarrow> fd_ptr f; write_pipe s p ptr len }
         else syscall_write_disk s a (r_ebx regs) f ptr len
   }"

subsection \<open>Pipes and copies of descriptors\<close>

text \<open>The two ends of a pipe, the reading end first, and where their numbers go.\<close>

definition open_ends :: "sys \<Rightarrow> u32 \<Rightarrow> nat \<Rightarrow> u32 \<Rightarrow> (sys \<times> outcome) option" where
  "open_ends s kind p fd_buffer = do {
     (s, i) \<leftarrow> add_fd s \<lparr>fd_kind = kind, fd_pos = 0, fd_isopen = 1, fd_access = FD_ACCESS_READ, fd_ptr = Some p\<rparr>;
     s \<leftarrow> put_user s fd_buffer (u32_bytes i);
     (s, j) \<leftarrow> add_fd s \<lparr>fd_kind = kind, fd_pos = 0, fd_isopen = 1, fd_access = FD_ACCESS_WRITE, fd_ptr = Some p\<rparr>;
     s \<leftarrow> put_user s (fd_buffer + 4) (u32_bytes j);
     Some (s, Ret 0)
   }"

definition syscall_pipe :: "sys \<Rightarrow> cpu_context \<Rightarrow> registers \<Rightarrow> (sys \<times> outcome) option" where
  "syscall_pipe s c regs =
     (let p = next_pipe s in open_ends (set_pipe (s\<lparr>next_pipe := p + 1\<rparr>) p pipe_new) FD_KIND_PIPE p (r_ebx regs))"

definition syscall_mqopen :: "sys \<Rightarrow> cpu_context \<Rightarrow> registers \<Rightarrow> (sys \<times> outcome) option" where
  "syscall_mqopen s c regs = do {
     name \<leftarrow> load_str (pages s) (cur_dir s) (r_ebx regs);
     (l, p) \<leftarrow> mqlist_open \<lparr>mqlist.entries = mq_names s, mqlist.pipes = pipes (objs (kern s))\<rparr> name (next_pipe s);
     let s = set_objs s ((objs (kern s))\<lparr>pipes := mqlist.pipes l\<rparr>);
     let s = s\<lparr>mq_names := mqlist.entries l, next_pipe := (if p = next_pipe s then p + 1 else next_pipe s)\<rparr>;
     open_ends s FD_KIND_MQ p (r_ecx regs)
   }"

definition syscall_dup :: "sys \<Rightarrow> cpu_context \<Rightarrow> registers \<Rightarrow> (sys \<times> outcome) option" where
  "syscall_dup s c regs = do {
     (a, t) \<leftarrow> cur_task s;
     f \<leftarrow> get_fd t (r_ebx regs);
     case f of
       None \<Rightarrow> Some (s, Ret SYSCALL_ERR_INVALID_FD)
     | Some f \<Rightarrow> do {
         (w, tab, j) \<leftarrow> fd_table_dup (objs (kern s)) (table t) (r_ebx regs);
         Some (set_task (set_objs s w) a (t\<lparr>table := tab\<rparr>), Ret j)
       }
   }"

subsection \<open>Running a program\<close>

text \<open>The arguments of the new program are copied to its stack. \<open>collect_args\<close> is the loop over \<open>argv\<close>, which
  gives the strings' addresses and the size of all of them; the vector is a list. Strings are copied byte by
  byte, as \<open>strcpy\<close> does.\<close>

partial_function (option) collect_args :: "paging \<Rightarrow> u32 \<Rightarrow> u32 \<Rightarrow> u32 list \<Rightarrow> u32 \<Rightarrow> (u32 list \<times> u32) option" where
  "collect_args g dir argv arg_list args_size = do {
     p \<leftarrow> load_u32 g dir argv;
     if p = 0 then Some (arg_list, args_size)
     else do {
       str \<leftarrow> load_str g dir p;
       collect_args g dir (argv + 4) (arg_list @ [p]) (args_size + (1 + of_nat (length str)))
     }
   }"

partial_function (option) copy_str :: "u32 \<Rightarrow> u32 \<Rightarrow> u32 \<Rightarrow> paging \<Rightarrow> paging option" where
  "copy_str dir dest src g = do {
     c \<leftarrow> load g dir src;
     if c = 0 then Some g else do { g \<leftarrow> store g dir dest c; copy_str dir (dest + 1) (src + 1) g }
   }"

text \<open>The loop that pops the vector; the list is the vector from its last element.\<close>

fun place_args :: "u32 \<Rightarrow> paging \<Rightarrow> u32 \<Rightarrow> u32 \<Rightarrow> u32 list \<Rightarrow> (paging \<times> u32) option" where
  "place_args dir g args ptrs [] = Some (g, ptrs)"
| "place_args dir g args ptrs (arg # args_left) = do {
     str \<leftarrow> load_str g dir arg;
     let arglen = of_nat (length str);
     let args = args - (arglen + 1);
     g \<leftarrow> copy_str dir args arg g;
     g \<leftarrow> store g dir (args + arglen) 0;
     let ptrs = ptrs - 4;
     g \<leftarrow> store_u32 g dir ptrs args;
     place_args dir g args ptrs args_left
   }"

definition place_args_vector :: "u32 \<Rightarrow> paging \<Rightarrow> u32 \<Rightarrow> u32 \<Rightarrow> (paging \<times> u32) option" where
  "place_args_vector dir g argv stack_end = do {
     (arg_list, args_size) \<leftarrow> collect_args g dir argv [] 0;
     let argc = of_nat (length arg_list);
     let new_esp = stack_end - 8 - 4 * (argc + 1) - args_size;
     (g, ptrs) \<leftarrow> place_args dir g stack_end (stack_end - args_size) (rev arg_list);
     let new_esp = new_esp - new_esp mod 64;
     g \<leftarrow> store_u32 g dir (new_esp + 4) argc;
     g \<leftarrow> store_u32 g dir (new_esp + 8) ptrs;
     Some (g, new_esp)
   }"

text \<open>The node of the program, looked for from the working directory and then in \<open>/bin/\<close>.\<close>

definition exec_open :: "sys \<Rightarrow> pathbuf \<Rightarrow> (sys \<times> nat option \<times> int) option" where
  "exec_open s path = do {
     (a, t) \<leftarrow> cur_task s;
     bindir \<leftarrow> pathbuf_parse (bytes_of ''/bin/'');
     if is_absolute path = 0 then do {
       respath \<leftarrow> pathbuf_join (cwd t) path;
       (w, binary, rres) \<leftarrow> fs_open (fs_for s a) respath 0 0 0 0;
       if rres \<noteq> 0 then do {
         respath \<leftarrow> pathbuf_join bindir path;
         (w, binary, rres) \<leftarrow> fs_open w respath 0 0 0 0;
         Some (set_files s w, if rres \<noteq> 0 then None else binary, rres)
       } else Some (set_files s w, binary, rres)
     } else do {
       (w, binary, rres) \<leftarrow> fs_open (fs_for s a) path 0 0 0 0;
       Some (set_files s w, if rres \<noteq> 0 then None else binary, rres)
     }
   }"

definition USER_STACK_SIZE :: u32 where "USER_STACK_SIZE = 0x2000"

text \<open>The registers are changed when the program is loaded: the call returns into it. The buffer the file is
  read into has the size of the file.\<close>

definition syscall_exec :: "sys \<Rightarrow> registers \<Rightarrow> (sys \<times> registers \<times> u32) option" where
  "syscall_exec s regs = do {
     name \<leftarrow> load_str (pages s) (cur_dir s) (r_ebx regs);
     path \<leftarrow> pathbuf_parse name;
     (s, binary, rres) \<leftarrow> exec_open s path;
     if rres \<noteq> 0 then Some (s, regs, syscall_translate_fs_err rres)
     else do {
       (a, t) \<leftarrow> cur_task s;
       b \<leftarrow> binary;
       nd \<leftarrow> inodes (fs_for s a) b;
       (w, str, rsl) \<leftarrow> fs_read (fs_for s a) b 0 (isize nd);
       let s = set_files s w;
       if rsl < 0 then Some (s, regs, syscall_translate_fs_err rsl)
       else do {
         program \<leftarrow> copy_cells (fresh (unat (isize nd))) str 0 (length str);
         (l, rsl, entry) \<leftarrow> prog_load (cur_dir s) \<lparr>lpages = pages s, lterm = glb_term s, lbrk = brk t\<rparr> program (kernel_memory_end s);
         let s = set_task (s\<lparr>pages := lpages l, glb_term := lterm l\<rparr>) a (t\<lparr>brk := lbrk l\<rparr>);
         if rsl \<noteq> 0 then Some (s, regs, SYSCALL_ERR_NOT_EXECUTABLE)
         else do {
           (g, stack_ptr) \<leftarrow> place_args_vector (cur_dir s) (pages s) (r_ecx regs) (r_esp regs + USER_STACK_SIZE - 0x40);
           Some (s\<lparr>pages := g\<rparr>, regs\<lparr>r_eip := entry, r_useresp := stack_ptr\<rparr>, 0)
         }
       }
     }
   }"

subsection \<open>The table of calls\<close>

definition syscall_handlers_cap :: u32 where "syscall_handlers_cap = 64"

text \<open>\<open>syscalls_init\<close>: the state it sets, and the table it fills in; the call that loads a program is the only one
  that changes the registers. \<open>None\<close> is the null pointer.\<close>

definition syscalls_init :: "sys \<Rightarrow> sys" where
  "syscalls_init s = s\<lparr>stdin_lock := ksemaphore_init 1, mq_names := []\<rparr>"

definition syscall_handlers :: "u32 \<Rightarrow> (sys \<Rightarrow> cpu_context \<Rightarrow> registers \<Rightarrow> (sys \<times> registers \<times> outcome) option) option" where
  "syscall_handlers n =
     (let keep = (\<lambda>h s c regs. map_option (\<lambda>(s, r). (s, regs, r)) (h s c regs))
      in if n = SYSCALL_EXEC then Some (\<lambda>s c regs. map_option (\<lambda>(s, regs, r). (s, regs, Ret r)) (syscall_exec s regs))
         else map_option keep (map_of
           [(SYSCALL_CLOSE, syscall_close), (SYSCALL_OPEN, syscall_open), (SYSCALL_WRITE, syscall_write), (SYSCALL_READ, syscall_read),
            (SYSCALL_READDIR, syscall_readdir), (SYSCALL_OPENDIR, syscall_opendir), (SYSCALL_STAT, syscall_stat),
            (SYSCALL_FORK, syscall_fork), (SYSCALL_GETCWD, syscall_getcwd), (SYSCALL_SETCWD, syscall_setcwd),
            (SYSCALL_WAIT, syscall_wait), (SYSCALL_WAITPID, syscall_waitpid), (SYSCALL_EXIT, syscall_exit),
            (SYSCALL_GETPID, syscall_getpid), (SYSCALL_MKDIR, syscall_mkdir), (SYSCALL_SBRK, syscall_sbrk),
            (SYSCALL_PIPE, syscall_pipe), (SYSCALL_DUP, syscall_dup), (SYSCALL_MQOPEN, syscall_mqopen)] n))"

definition return_with :: "registers \<Rightarrow> outcome \<Rightarrow> registers \<times> pending option" where
  "return_with regs r = (case r of Ret v \<Rightarrow> (regs\<lparr>r_eax := v\<rparr>, None) | Sleep p \<Rightarrow> (regs, Some p))"

text \<open>An unknown call panics, a number outside the table reads behind it.\<close>

definition syscalls_handle :: "sys \<Rightarrow> cpu_context \<Rightarrow> registers \<Rightarrow> (sys \<times> registers \<times> pending option) option" where
  "syscalls_handle s c regs =
     (if r_eax regs \<ge> syscall_handlers_cap then None
      else do {
        handler \<leftarrow> syscall_handlers (r_eax regs);
        (s, regs, r) \<leftarrow> handler s c regs;
        Some (s, return_with regs r)
      })"

text \<open>What a sleeping call does when its task runs again.\<close>

definition resume_call :: "sys \<Rightarrow> cpu_context \<Rightarrow> pending \<Rightarrow> (sys \<times> outcome) option" where
  "resume_call s c p = do {
     a \<leftarrow> task_curtask (kern s);
     k \<leftarrow> task_resume (kern s) a;
     let s = s\<lparr>kern := k\<rparr>;
     case p of
       In_wait stref \<Rightarrow> wait_end stref s
     | In_waitpid child child_pid stref \<Rightarrow> waitpid_end child child_pid stref s
     | In_exit \<Rightarrow> Some (s, Ret 0)
     | In_fork \<Rightarrow> Some (s, Ret 0)
     | In_stdin_lock ptr len \<Rightarrow> stdin_locked ptr len c s
     | In_stdin ptr len \<Rightarrow> stdin_take ptr len s
     | In_pipe q ptr len \<Rightarrow> pipe_take q ptr len s
   }"

end
