(* ===== verification/Syscallthms.thy ===== *)
theory Syscallthms
  imports Syscall
begin

text \<open>
  What the system calls give a program: errors for bad descriptors, pipes, waiting for a child, separate
  memories after a fork, and the arguments of a new program.
\<close>

subsection \<open>Descriptors of the calling task\<close>

lemma get_fd_open:
  assumes "fd_table_ok (table t)"
  shows "get_fd t i = Some (open_at (table t) (unat i))"
proof -
  obtain fs where fs: "holds (records (table t)) fs" "length fs = unat (fd_size (table t))"
    using assms by (auto simp: fd_table_ok_def)
  show ?thesis
  proof (cases "unat i < unat (fd_size (table t))")
    case True
    then show ?thesis using holds_rd [OF fs(1)] fs(2) by (simp add: get_fd_def open_at_def word_le_nat_alt)
  qed (simp add: get_fd_def open_at_def word_le_nat_alt)
qed

lemma fd_table_add_size: "fd_table_add t f = Some (t', i) \<Longrightarrow> unat (fd_size t') \<le> unat (fd_size t) + 1"
  by (auto simp: fd_table_add_def Let_def unat_word_ariths split: Option.bind_splits if_splits)

lemma cur_task_set [simp]: "cur_task s = Some (a, t) \<Longrightarrow> cur_task (set_task s a t') = Some (a, t')"
  by (auto simp: cur_task_def set_task_def put_task_def task_curtask_def split: Option.bind_splits)

lemma cur_task_pages [simp]: "cur_task (s\<lparr>pages := g\<rparr>) = cur_task s"
  by (simp add: cur_task_def)

lemma cur_task_next [simp]: "cur_task (s\<lparr>next_pipe := p\<rparr>) = cur_task s"
  by (simp add: cur_task_def)

lemma cur_task_objs [simp]: "cur_task (set_objs s w) = cur_task s" "cur_task (set_pipe s p pp) = cur_task s" "cur_task (set_files s fw) = cur_task s"
  by (simp_all add: cur_task_def set_objs_def set_pipe_def set_files_def task_curtask_def)

lemma set_task_rest [simp]: "pages (set_task s a t) = pages s" "cur_dir (set_task s a t) = cur_dir s" "objs (kern (set_task s a t)) = objs (kern s)"
  "rr_queue (kern (set_task s a t)) = rr_queue (kern s)" "next_pipe (set_task s a t) = next_pipe s"
  by (simp_all add: set_task_def cur_dir_def put_task_def)

lemma set_pipe_rest [simp]: "pages (set_pipe s p pp) = pages s" "cur_dir (set_pipe s p pp) = cur_dir s"
  "rr_queue (kern (set_pipe s p pp)) = rr_queue (kern s)" "pipes (objs (kern (set_pipe s p pp))) = (pipes (objs (kern s)))(p := Some pp)"
  by (simp_all add: set_pipe_def set_objs_def cur_dir_def)

lemma cur_dir_pages [simp]: "cur_dir (s\<lparr>pages := g\<rparr>) = cur_dir s" "cur_dir (s\<lparr>next_pipe := p\<rparr>) = cur_dir s"
  by (simp_all add: cur_dir_def)

lemma task_curtask_of: "cur_task s = Some (a, t) \<Longrightarrow> task_curtask (kern s) = Some a"
  by (auto simp: cur_task_def split: Option.bind_splits)

subsection \<open>The table of calls\<close>

lemmas call_numbers = SYSCALL_EXIT_def SYSCALL_READ_def SYSCALL_WRITE_def SYSCALL_OPEN_def SYSCALL_CLOSE_def SYSCALL_OPENDIR_def
  SYSCALL_READDIR_def SYSCALL_STAT_def SYSCALL_EXEC_def SYSCALL_FORK_def SYSCALL_GETCWD_def SYSCALL_SETCWD_def SYSCALL_WAITPID_def
  SYSCALL_WAIT_def SYSCALL_GETPID_def SYSCALL_MKDIR_def SYSCALL_SBRK_def SYSCALL_PIPE_def SYSCALL_DUP_def SYSCALL_MQOPEN_def
  syscall_handlers_cap_def

lemma handle_call:
  assumes "syscall_handlers (r_eax regs) = Some (\<lambda>s c regs. map_option (\<lambda>(s, r). (s, regs, r)) (h s c regs))" and "r_eax regs < 64"
  shows "syscalls_handle s c regs = map_option (\<lambda>(s, r). (s, return_with regs r)) (h s c regs)"
  using assms by (cases "h s c regs") (auto simp: syscalls_handle_def syscall_handlers_cap_def not_le)

lemma handle_fd_calls:
  "r_eax regs = SYSCALL_READ \<Longrightarrow> syscalls_handle s c regs = map_option (\<lambda>(s, r). (s, return_with regs r)) (syscall_read s c regs)"
  "r_eax regs = SYSCALL_WRITE \<Longrightarrow> syscalls_handle s c regs = map_option (\<lambda>(s, r). (s, return_with regs r)) (syscall_write s c regs)"
  "r_eax regs = SYSCALL_CLOSE \<Longrightarrow> syscalls_handle s c regs = map_option (\<lambda>(s, r). (s, return_with regs r)) (syscall_close s c regs)"
  "r_eax regs = SYSCALL_READDIR \<Longrightarrow> syscalls_handle s c regs = map_option (\<lambda>(s, r). (s, return_with regs r)) (syscall_readdir s c regs)"
  "r_eax regs = SYSCALL_DUP \<Longrightarrow> syscalls_handle s c regs = map_option (\<lambda>(s, r). (s, return_with regs r)) (syscall_dup s c regs)"
  "r_eax regs = SYSCALL_PIPE \<Longrightarrow> syscalls_handle s c regs = map_option (\<lambda>(s, r). (s, return_with regs r)) (syscall_pipe s c regs)"
  by (rule handle_call; simp add: syscall_handlers_def call_numbers Let_def)+

subsection \<open>Bad descriptors\<close>

text \<open>C16. Every call on a descriptor checks it first: a number behind the table or of a closed record gives
  \<open>SYSCALL_ERR_INVALID_FD\<close>, and so does listing what is not a directory; writing through a descriptor that is not
  for writing and a length that is not positive have their own errors. None of these calls changes anything
  but the result in \<open>eax\<close>.\<close>

theorem bad_calls_change_nothing:
  assumes "cur_task s = Some (a, t)" and "fd_table_ok (table t)"
  shows "case open_at (table t) (unat (r_ebx regs)) of
      None \<Rightarrow> (r_eax regs \<in> {SYSCALL_READ, SYSCALL_WRITE, SYSCALL_CLOSE, SYSCALL_READDIR, SYSCALL_DUP} \<longrightarrow>
        syscalls_handle s c regs = Some (s, regs\<lparr>r_eax := SYSCALL_ERR_INVALID_FD\<rparr>, None))
    | Some f \<Rightarrow>
        (r_eax regs = SYSCALL_READDIR \<and> fd_kind f \<noteq> FD_KIND_DIR \<longrightarrow>
          syscalls_handle s c regs = Some (s, regs\<lparr>r_eax := SYSCALL_ERR_INVALID_FD\<rparr>, None)) \<and>
        (r_eax regs = SYSCALL_WRITE \<and> fd_access f AND FD_ACCESS_WRITE = 0 \<longrightarrow>
          syscalls_handle s c regs = Some (s, regs\<lparr>r_eax := SYSCALL_ERR_READONLY\<rparr>, None)) \<and>
        (r_eax regs = SYSCALL_WRITE \<and> fd_access f AND FD_ACCESS_WRITE \<noteq> 0 \<and> sint (r_edx regs) \<le> 0 \<longrightarrow>
          syscalls_handle s c regs = Some (s, regs\<lparr>r_eax := SYSCALL_ERR_INVALID_LENGTH\<rparr>, None)) \<and>
        (r_eax regs = SYSCALL_READ \<and> sint (r_edx regs) \<le> 0 \<longrightarrow>
          syscalls_handle s c regs = Some (s, regs\<lparr>r_eax := SYSCALL_ERR_INVALID_LENGTH\<rparr>, None))"
proof (cases "open_at (table t) (unat (r_ebx regs))")
  case None
  then have "get_fd t (r_ebx regs) = Some None" using get_fd_open [OF assms(2)] by simp
  then show ?thesis using None assms(1)
    by (auto simp: handle_fd_calls syscall_read_def syscall_write_def syscall_close_def syscall_readdir_def syscall_dup_def return_with_def Let_def)
next
  case (Some f)
  then have f: "get_fd t (r_ebx regs) = Some (Some f)" using get_fd_open [OF assms(2)] by simp
  have "fd_access f OR FD_ACCESS_READ \<noteq> 0"
  proof
    assume "fd_access f OR FD_ACCESS_READ = 0"
    then have "bit (fd_access f OR FD_ACCESS_READ) 0 = bit (0 :: u8) 0" by simp
    then show False by (simp add: FD_ACCESS_READ_def bit_simps)
  qed
  then show ?thesis using Some f assms(1)
    by (auto simp: handle_fd_calls syscall_read_def syscall_write_def syscall_readdir_def return_with_def Let_def)
qed

theorem bad_calls_change_nothing_witness:
  "\<forall>(s :: sys) (t :: task_t) c regs. let s' = s\<lparr>kern := (kern s)\<lparr>rr_queue := [3], tasks := [3 \<mapsto> t\<lparr>table := fd_table_create 2\<rparr>]\<rparr>\<rparr>
     in syscalls_handle s' c (regs\<lparr>r_eax := SYSCALL_READ, r_ebx := 5\<rparr>) = Some (s', regs\<lparr>r_ebx := 5, r_eax := SYSCALL_ERR_INVALID_FD\<rparr>, None)"
proof (intro allI)
  fix s :: sys and t :: task_t and c regs
  let ?t = "t\<lparr>table := fd_table_create 2\<rparr>"
  let ?s = "s\<lparr>kern := (kern s)\<lparr>rr_queue := [3], tasks := [3 \<mapsto> ?t]\<rparr>\<rparr>"
  have "cur_task ?s = Some (3, ?t)" by (simp add: cur_task_def task_curtask_def queue_peek_def)
  moreover have "fd_table_ok (table ?t)" by (simp add: fd_table_ok_def fd_table_create_def fd_alloc_def)
  ultimately show "let s' = ?s in syscalls_handle s' c (regs\<lparr>r_eax := SYSCALL_READ, r_ebx := 5\<rparr>) = Some (s', regs\<lparr>r_ebx := 5, r_eax := SYSCALL_ERR_INVALID_FD\<rparr>, None)"
    using bad_calls_change_nothing [of ?s 3 ?t "regs\<lparr>r_eax := SYSCALL_READ, r_ebx := 5\<rparr>" c]
    by (simp add: open_at_def fd_table_create_def)
qed

subsection \<open>Pipes\<close>

lemma add_fd_ok:
  assumes "cur_task s = Some (a, t)" and "fd_table_ok (table t)" and "unat (fd_size (table t)) < 67108864"
  shows "\<exists>t' i. add_fd s f = Some (set_task s a t', i) \<and> fd_table_ok (table t') \<and> open_at (table t) (unat i) = None \<and>
    open_at (table t') = (open_at (table t))(unat i \<mapsto> f\<lparr>fd_isopen := 1\<rparr>) \<and> unat (fd_size (table t')) \<le> unat (fd_size (table t)) + 1"
proof -
  obtain tab i where "fd_table_add (table t) f = Some (tab, i)" "fd_table_ok tab" "open_at (table t) (unat i) = None"
    "open_at tab = (open_at (table t))(unat i \<mapsto> f\<lparr>fd_isopen := 1\<rparr>)" using fd_table_add_ok [OF assms(2,3), of f] by blast
  then show ?thesis using assms(1) fd_table_add_size
    by (intro exI [of _ "t\<lparr>table := tab\<rparr>"] exI [of _ i]) (auto simp: add_fd_def)
qed

lemma put_user_ok:
  assumes "plain (pages s) (cur_dir s) p (length bs)"
  shows "\<exists>g. put_user s p bs = Some (s\<lparr>pages := g\<rparr>) \<and> same_tables (pages s) g \<and> load_bytes g (cur_dir s) p (length bs) = Some bs \<and>
    (\<forall>dir' q n. whole (pages s) dir' q n \<longrightarrow> apart (pages s) (cur_dir s) p (length bs) dir' q n \<longrightarrow>
      load_bytes g dir' q n = load_bytes (pages s) dir' q n)"
  using store_step [OF assms] by (auto simp: put_user_def)

text \<open>After \<open>open_ends\<close> two numbers that were free are the ends of the pipe, and stand in the program's array.\<close>

definition end_of :: "u32 \<Rightarrow> nat \<Rightarrow> u8 \<Rightarrow> fd" where
  "end_of kind p acc = \<lparr>fd_kind = kind, fd_pos = 0, fd_isopen = 1, fd_access = acc, fd_ptr = Some p\<rparr>"

definition ends_open :: "sys \<Rightarrow> sys \<Rightarrow> nat \<Rightarrow> task_t \<Rightarrow> u32 \<Rightarrow> nat \<Rightarrow> u32 \<Rightarrow> u32 \<Rightarrow> u32 \<Rightarrow> bool" where
  "ends_open s s' a t kind p fdbuf i j \<longleftrightarrow>
     (\<exists>t'. cur_task s' = Some (a, t') \<and> fd_table_ok (table t') \<and> open_at (table t) (unat i) = None \<and> open_at (table t) (unat j) = None \<and> unat i \<noteq> unat j \<and>
       open_at (table t') = (open_at (table t))(unat i \<mapsto> end_of kind p FD_ACCESS_READ, unat j \<mapsto> end_of kind p FD_ACCESS_WRITE)) \<and>
     same_tables (pages s) (pages s') \<and> cur_dir s' = cur_dir s \<and> objs (kern s') = objs (kern s) \<and> rr_queue (kern s') = rr_queue (kern s) \<and>
     load_u32 (pages s') (cur_dir s) fdbuf = Some i \<and> load_u32 (pages s') (cur_dir s) (fdbuf + 4) = Some j \<and>
     (\<forall>dir' q n. whole (pages s) dir' q n \<longrightarrow> apart (pages s) (cur_dir s) fdbuf 8 dir' q n \<longrightarrow>
       load_bytes (pages s') dir' q n = load_bytes (pages s) dir' q n)"

lemma open_ends_ok:
  assumes "cur_task s = Some (a, t)" and "fd_table_ok (table t)" and "unat (fd_size (table t)) < 67108863"
    and "plain (pages s) (cur_dir s) fdbuf 8"
  shows "\<exists>s' i j. open_ends s kind p fdbuf = Some (s', Ret 0) \<and> ends_open s s' a t kind p fdbuf i j"
proof -
  let ?r = "end_of kind p FD_ACCESS_READ" and ?w = "end_of kind p FD_ACCESS_WRITE"
  have up: "f\<lparr>fd_isopen := 1\<rparr> = f" if "fd_isopen f = 1" for f :: fd using that by simp
  have one: "fd_isopen ?r = 1" "fd_isopen ?w = 1" by (simp_all add: end_of_def)
  obtain t1 i where 1: "add_fd s ?r = Some (set_task s a t1, i)" "fd_table_ok (table t1)" "open_at (table t) (unat i) = None"
    "open_at (table t1) = (open_at (table t))(unat i \<mapsto> ?r)" "unat (fd_size (table t1)) \<le> unat (fd_size (table t)) + 1"
    using add_fd_ok [OF assms(1,2), of ?r] assms(3) up [OF one(1)] by auto
  let ?s1 = "set_task s a t1"
  have p1: "plain (pages ?s1) (cur_dir ?s1) fdbuf (length (u32_bytes i))" using plain_part [OF assms(4), of 0 4] by simp
  obtain g1 where g1: "put_user ?s1 fdbuf (u32_bytes i) = Some (?s1\<lparr>pages := g1\<rparr>)" "same_tables (pages s) g1"
    "load_bytes g1 (cur_dir s) fdbuf 4 = Some (u32_bytes i)"
    "\<forall>dir' q n. whole (pages s) dir' q n \<longrightarrow> apart (pages s) (cur_dir s) fdbuf 4 dir' q n \<longrightarrow> load_bytes g1 dir' q n = load_bytes (pages s) dir' q n"
    using put_user_ok [OF p1] by auto
  let ?s2 = "?s1\<lparr>pages := g1\<rparr>"
  have c2: "cur_task ?s2 = Some (a, t1)" using assms(1) by simp
  obtain t2 j where 2: "add_fd ?s2 ?w = Some (set_task ?s2 a t2, j)" "fd_table_ok (table t2)" "open_at (table t1) (unat j) = None"
    "open_at (table t2) = (open_at (table t1))(unat j \<mapsto> ?w)"
    using add_fd_ok [OF c2 1(2), of ?w] 1(5) assms(3) up [OF one(2)] by auto
  have ij: "unat i \<noteq> unat j" "open_at (table t) (unat j) = None" using 1(4) 2(3) by (auto split: if_splits)
  let ?s3 = "set_task ?s2 a t2"
  note sb = same_tables_blocks [OF g1(2)]
  have p2: "plain (pages ?s3) (cur_dir ?s3) (fdbuf + 4) (length (u32_bytes j))"
    using plain_part [OF assms(4), of 4 4] by (simp add: sb)
  obtain g2 where g2: "put_user ?s3 (fdbuf + 4) (u32_bytes j) = Some (?s3\<lparr>pages := g2\<rparr>)" "same_tables g1 g2"
    "load_bytes g2 (cur_dir s) (fdbuf + 4) 4 = Some (u32_bytes j)"
    "\<forall>dir' q n. whole (pages s) dir' q n \<longrightarrow> apart (pages s) (cur_dir s) (fdbuf + 4) 4 dir' q n \<longrightarrow> load_bytes g2 dir' q n = load_bytes g1 dir' q n"
    using put_user_ok [OF p2] by (auto simp: sb)
  have "apart (pages s) (cur_dir s) (fdbuf + 4) 4 (cur_dir s) fdbuf 4" using plain_apart [OF assms(4), of 4 4 0 4] by simp
  moreover have "whole (pages s) (cur_dir s) fdbuf 4" using p1 by (simp add: plain_def)
  ultimately have "load_bytes g2 (cur_dir s) fdbuf 4 = Some (u32_bytes i)" using g2(4) g1(3) by simp
  moreover have "load_bytes g2 dir' q n = load_bytes (pages s) dir' q n"
    if "whole (pages s) dir' q n" "apart (pages s) (cur_dir s) fdbuf 8 dir' q n" for dir' q n
    using g1(4) g2(4) that apart_part [OF that(2), of 0 4 0 n] apart_part [OF that(2), of 4 4 0 n] by simp
  moreover have "open_ends s kind p fdbuf = Some (?s3\<lparr>pages := g2\<rparr>, Ret 0)"
    using 1(1) 2(1) g1(1) g2(1) by (simp add: open_ends_def end_of_def)
  moreover have "cur_task (?s3\<lparr>pages := g2\<rparr>) = Some (a, t2)" using c2 by simp
  ultimately show ?thesis
    using 1 2 ij same_tables_trans [OF g1(2) g2(2)] load_u32_bytes g2(3)
    by (intro exI [of _ "?s3\<lparr>pages := g2\<rparr>"] exI [of _ i] exI [of _ j]) (auto simp: ends_open_def)
qed

lemma wake_None [simp]: "wake s None = s"
  by (simp add: wake_def)

lemma write_end_ok:
  assumes "cur_task s = Some (a, t)" and "fd_table_ok (table t)" and "open_at (table t) (unat (r_ebx regs)) = Some (end_of FD_KIND_PIPE p FD_ACCESS_WRITE)"
    and "0 < sint (r_edx regs)" and "load_bytes (pages s) (cur_dir s) (r_ecx regs) (unat (r_edx regs)) = Some bytes"
    and "pipes (objs (kern s)) p = Some pp" and "reader_count pp \<noteq> 0" and "pipe_write pp bytes = (pp', woken)"
  shows "syscall_write s c regs = Some (wake (set_pipe s p pp') woken, Ret (r_edx regs))"
proof -
  have "get_fd t (r_ebx regs) = Some (Some (end_of FD_KIND_PIPE p FD_ACCESS_WRITE))" using get_fd_open [OF assms(2)] assms(3) by simp
  then show ?thesis using assms
    by (simp add: syscall_write_def end_of_def FD_ACCESS_WRITE_def FD_KIND_PIPE_def FD_KIND_STDOUT_def write_pipe_def Let_def not_le)
qed

lemma read_end_ok:
  assumes "cur_task s = Some (a, t)" and "fd_table_ok (table t)" and "open_at (table t) (unat (r_ebx regs)) = Some (end_of FD_KIND_PIPE p FD_ACCESS_READ)"
    and "0 < sint (r_edx regs)" and "pipes (objs (kern s)) p = Some pp" and "pipe_read_wait pp a = Some (pp1, False)"
  shows "syscall_read s c regs = pipe_take p (r_ecx regs) (r_edx regs) (set_pipe s p pp1)"
proof -
  have "get_fd t (r_ebx regs) = Some (Some (end_of FD_KIND_PIPE p FD_ACCESS_READ))" using get_fd_open [OF assms(2)] assms(3) by simp
  moreover have "FD_ACCESS_READ OR FD_ACCESS_READ \<noteq> 0" by (simp add: FD_ACCESS_READ_def)
  ultimately show ?thesis using assms
    by (simp add: syscall_read_def end_of_def FD_KIND_PIPE_def FD_KIND_STDIN_def read_pipe_def Let_def not_le task_curtask_of)
qed

lemma positive_length: "0 < n \<Longrightarrow> n < 2147483648 \<Longrightarrow> 0 < sint (of_nat n :: u32) \<and> unat (of_nat n :: u32) = n"
  by (simp add: sint_uint signed_take_bit_int_eq_self unsigned_of_nat take_bit_nat_eq_self)

text \<open>C15. A program that makes a pipe, writes a message without zero bytes to its writing end and reads from its
  reading end gets the bytes it wrote, as many as it asked for: \<open>pipe\<close> puts the numbers of the two ends where
  it was told, \<open>write\<close> takes the bytes from the program's memory and \<open>read\<close> puts them into the other buffer.\<close>

theorem pipe_write_read:
  assumes "cur_task s = Some (a, t)" and "fd_table_ok (table t)" and "unat (fd_size (table t)) < 67108863"
    and "plain (pages s) (cur_dir s) fdbuf 8" and "load_bytes (pages s) (cur_dir s) wbuf (length bytes) = Some bytes"
    and "apart (pages s) (cur_dir s) fdbuf 8 (cur_dir s) wbuf (length bytes)" and "plain (pages s) (cur_dir s) rbuf m"
    and "bytes \<noteq> []" and "0 \<notin> set bytes" and "length bytes < 2147483648" and "0 < m" and "m < 2147483648"
  shows "\<exists>s1 i j s2 s3.
    syscalls_handle s c (r\<lparr>r_eax := SYSCALL_PIPE, r_ebx := fdbuf\<rparr>) = Some (s1, r\<lparr>r_ebx := fdbuf, r_eax := 0\<rparr>, None) \<and>
    load_u32 (pages s1) (cur_dir s) fdbuf = Some i \<and> load_u32 (pages s1) (cur_dir s) (fdbuf + 4) = Some j \<and>
    map_option (\<lambda>(s, regs, p). (s, r_eax regs, p))
      (syscalls_handle s1 c (r\<lparr>r_eax := SYSCALL_WRITE, r_ebx := j, r_ecx := wbuf, r_edx := of_nat (length bytes)\<rparr>)) =
      Some (s2, of_nat (length bytes), None) \<and>
    map_option (\<lambda>(s, regs, p). (s, r_eax regs, p))
      (syscalls_handle s2 c (r\<lparr>r_eax := SYSCALL_READ, r_ebx := i, r_ecx := rbuf, r_edx := of_nat m\<rparr>)) =
      Some (s3, of_nat (min m (length bytes)), None) \<and>
    load_bytes (pages s3) (cur_dir s) rbuf (min m (length bytes)) = Some (take m bytes)"
proof -
  let ?p = "next_pipe s"
  let ?s0 = "set_pipe (s\<lparr>next_pipe := ?p + 1\<rparr>) ?p pipe_new"
  have 0: "cur_task ?s0 = Some (a, t)" "plain (pages ?s0) (cur_dir ?s0) fdbuf 8" using assms(1,4) by simp_all
  obtain s1 i j where 1: "open_ends ?s0 FD_KIND_PIPE ?p fdbuf = Some (s1, Ret 0)" and eo: "ends_open ?s0 s1 a t FD_KIND_PIPE ?p fdbuf i j"
    using open_ends_ok [OF 0(1) assms(2,3) 0(2)] by blast
  obtain t' where t': "cur_task s1 = Some (a, t')" "fd_table_ok (table t')"
    "open_at (table t') (unat i) = Some (end_of FD_KIND_PIPE ?p FD_ACCESS_READ)"
    "open_at (table t') (unat j) = Some (end_of FD_KIND_PIPE ?p FD_ACCESS_WRITE)" using eo by (auto simp: ends_open_def)
  have s1: "same_tables (pages s) (pages s1)" "cur_dir s1 = cur_dir s" "pipes (objs (kern s1)) ?p = Some pipe_new"
    "load_u32 (pages s1) (cur_dir s) fdbuf = Some i" "load_u32 (pages s1) (cur_dir s) (fdbuf + 4) = Some j"
    "load_bytes (pages s1) (cur_dir s) wbuf (length bytes) = Some bytes"
    using eo assms(5,6) load_bytes_is_whole [OF assms(5)] by (auto simp: ends_open_def)
  let ?n = "length bytes" and ?sem = "\<lambda>v. \<lparr>sq = [], sval = v\<rparr>"
  have n: "0 < sint (of_nat ?n :: u32)" "unat (of_nat ?n :: u32) = ?n" using positive_length [of ?n] assms(8,10) by auto
  have m: "0 < sint (of_nat m :: u32)" "unat (of_nat m :: u32) = m" using positive_length assms(11,12) by auto
  let ?p1 = "pipe_new\<lparr>msgs := [bytes], lock := ?sem 1\<rparr>"
  have w: "pipe_write pipe_new bytes = (?p1, None)"
    by (simp add: pipe_write_def pipe_new_def ksemaphore_signal_def ksemaphore_init_def)
  let ?rw = "r\<lparr>r_eax := SYSCALL_WRITE, r_ebx := j, r_ecx := wbuf, r_edx := of_nat ?n\<rparr>"
  let ?s2 = "set_pipe s1 ?p ?p1"
  have wr: "syscall_write s1 c ?rw = Some (?s2, Ret (of_nat ?n))"
    using write_end_ok [of s1 a t' ?rw ?p bytes pipe_new ?p1 None c] t' s1 n w by (simp add: pipe_new_def)
  let ?rr = "r\<lparr>r_eax := SYSCALL_READ, r_ebx := i, r_ecx := rbuf, r_edx := of_nat m\<rparr>"
  have rd: "syscall_read ?s2 c ?rr = pipe_take ?p rbuf (of_nat m) (set_pipe ?s2 ?p (?p1\<lparr>lock := ?sem 0\<rparr>))"
    using read_end_ok [of ?s2 a t' ?rr ?p ?p1 "?p1\<lparr>lock := ?sem 0\<rparr>" c] t' m by (simp add: pipe_read_wait_def ksemaphore_wait_def Let_def)
  have nul: "takeWhile (\<lambda>c. c \<noteq> 0) bytes = bytes" using assms(9) by (simp add: takeWhile_eq_all_conv) metis
  obtain pp where tk: "pipe_read_take (?p1\<lparr>lock := ?sem 0\<rparr>) m = Some (pp, take m bytes, None)"
    using nul by (cases "m < ?n") (auto simp: pipe_read_take_def ksemaphore_signal_def min_def Let_def)
  let ?s3 = "set_pipe (set_pipe ?s2 ?p (?p1\<lparr>lock := ?sem 0\<rparr>)) ?p pp"
  have "plain (pages ?s3) (cur_dir ?s3) rbuf (length (take m bytes))"
    using plain_part [OF assms(7), of 0 "min ?n m"] s1(2) same_tables_blocks(2) [OF s1(1)] by simp
  then obtain g where g: "put_user ?s3 rbuf (take m bytes) = Some (?s3\<lparr>pages := g\<rparr>)"
    "load_bytes g (cur_dir s) rbuf (min ?n m) = Some (take m bytes)" using put_user_ok s1(2) by force
  have "pipe_take ?p rbuf (of_nat m) (set_pipe ?s2 ?p (?p1\<lparr>lock := ?sem 0\<rparr>)) = Some (?s3\<lparr>pages := g\<rparr>, Ret (of_nat (min m ?n)))"
    using tk g(1) m(2) by (simp add: pipe_take_def min.commute)
  moreover have "syscall_pipe s c (r\<lparr>r_eax := SYSCALL_PIPE, r_ebx := fdbuf\<rparr>) = Some (s1, Ret 0)"
    using 1 by (simp add: syscall_pipe_def Let_def)
  ultimately show ?thesis using wr rd g(2) s1
    by (intro exI [of _ s1] exI [of _ i] exI [of _ j] exI [of _ ?s2] exI [of _ "?s3\<lparr>pages := g\<rparr>"])
      (simp add: handle_fd_calls return_with_def min.commute)
qed

text \<open>"Hi" is in the program's memory at 16; the array of the pipe is at 0 and the second buffer at 64.\<close>

theorem pipe_write_read_witness:
  "\<forall>(s0 :: sys) (t :: task_t) c r. \<exists>s s1 i j s2 s3.
    pages s = one_page ((\<lambda>_. 0)(0x5010 := 72, 0x5011 := 105)) \<and>
    map_option fst (syscalls_handle s c (r\<lparr>r_eax := SYSCALL_PIPE, r_ebx := 0\<rparr>)) = Some s1 \<and>
    map_option fst (syscalls_handle s1 c (r\<lparr>r_eax := SYSCALL_WRITE, r_ebx := j, r_ecx := 16, r_edx := 2\<rparr>)) = Some s2 \<and>
    map_option fst (syscalls_handle s2 c (r\<lparr>r_eax := SYSCALL_READ, r_ebx := i, r_ecx := 64, r_edx := 10\<rparr>)) = Some s3 \<and>
    load_bytes (pages s3) 0x1000 64 2 = Some [72, 105]"
proof (intro allI)
  fix s0 :: sys and t :: task_t and c r
  let ?t = "t\<lparr>table := fd_table_create 2\<rparr>" and ?g = "one_page ((\<lambda>_. 0)(0x5010 := 72, 0x5011 := 105))"
  let ?s = "s0\<lparr>kern := (kern s0)\<lparr>rr_queue := [3], tasks := [3 \<mapsto> ?t], current_page_directory := 0x1000\<rparr>, pages := ?g\<rparr>"
  have t: "cur_task ?s = Some (3, ?t)" "fd_table_ok (table ?t)" "unat (fd_size (table ?t)) < 67108863"
    by (simp_all add: cur_task_def task_curtask_def queue_peek_def fd_table_ok_def fd_table_create_def fd_alloc_def)
  have m: "plain (pages ?s) (cur_dir ?s) 0 8" "plain (pages ?s) (cur_dir ?s) 64 10" "apart (pages ?s) (cur_dir ?s) 0 8 (cur_dir ?s) 16 2"
    using one_page_part [of 0 8] one_page_part [of 64 10] one_page_apart [of 0 8 16 2] by (simp_all add: cur_dir_def)
  have "load ?g 0x1000 16 = Some 72" "load ?g 0x1000 17 = Some 105"
    using one_page_translate [of 16] one_page_translate [of 17] by (simp_all add: load_def) (simp_all add: one_page_def)
  then have "load_bytes (pages ?s) (cur_dir ?s) 16 (length [72, 105]) = Some [72, 105]" by (simp add: cur_dir_def numeral_2_eq_2)
  moreover have "apart (pages ?s) (cur_dir ?s) 0 8 (cur_dir ?s) 16 (length [72 :: u8, 105])" using m(3) by (simp add: numeral_2_eq_2)
  moreover have "[72 :: u8, 105] \<noteq> []" "0 \<notin> set [72 :: u8, 105]" "length [72 :: u8, 105] < 2147483648" "(0 :: nat) < 10" "(10 :: nat) < 2147483648"
    by simp_all
  ultimately obtain s1 i j s2 s3 where "syscalls_handle ?s c (r\<lparr>r_eax := SYSCALL_PIPE, r_ebx := 0\<rparr>) = Some (s1, r\<lparr>r_ebx := 0, r_eax := 0\<rparr>, None)"
    "map_option (\<lambda>(s, regs, p). (s, r_eax regs, p))
      (syscalls_handle s1 c (r\<lparr>r_eax := SYSCALL_WRITE, r_ebx := j, r_ecx := 16, r_edx := of_nat (length [72 :: u8, 105])\<rparr>)) =
      Some (s2, of_nat (length [72 :: u8, 105]), None)"
    "map_option (\<lambda>(s, regs, p). (s, r_eax regs, p))
      (syscalls_handle s2 c (r\<lparr>r_eax := SYSCALL_READ, r_ebx := i, r_ecx := 64, r_edx := of_nat 10\<rparr>)) =
      Some (s3, of_nat (min 10 (length [72 :: u8, 105])), None)"
    "load_bytes (pages s3) (cur_dir ?s) 64 (min 10 (length [72 :: u8, 105])) = Some (take 10 [72, 105])"
    using pipe_write_read [OF t m(1) _ _ m(2), of 16 "[72, 105]" c r] by blast
  then have "map_option fst (syscalls_handle ?s c (r\<lparr>r_eax := SYSCALL_PIPE, r_ebx := 0\<rparr>)) = Some s1"
    "map_option fst (syscalls_handle s1 c (r\<lparr>r_eax := SYSCALL_WRITE, r_ebx := j, r_ecx := 16, r_edx := 2\<rparr>)) = Some s2"
    "map_option fst (syscalls_handle s2 c (r\<lparr>r_eax := SYSCALL_READ, r_ebx := i, r_ecx := 64, r_edx := 10\<rparr>)) = Some s3"
    "load_bytes (pages s3) 0x1000 64 2 = Some [72, 105]"
    by (auto simp: cur_dir_def numeral_2_eq_2)
  then show "\<exists>s s1 i j s2 s3. pages s = ?g \<and>
    map_option fst (syscalls_handle s c (r\<lparr>r_eax := SYSCALL_PIPE, r_ebx := 0\<rparr>)) = Some s1 \<and>
    map_option fst (syscalls_handle s1 c (r\<lparr>r_eax := SYSCALL_WRITE, r_ebx := j, r_ecx := 16, r_edx := 2\<rparr>)) = Some s2 \<and>
    map_option fst (syscalls_handle s2 c (r\<lparr>r_eax := SYSCALL_READ, r_ebx := i, r_ecx := 64, r_edx := 10\<rparr>)) = Some s3 \<and>
    load_bytes (pages s3) 0x1000 64 2 = Some [72, 105]"
    by (intro exI [of _ ?s] exI [of _ s1] exI [of _ i] exI [of _ j] exI [of _ s2] exI [of _ s3]) simp
qed

subsection \<open>Reading where one may only write\<close>

lemma init_fdt_open: "\<exists>tab. init_fdt = Some tab \<and> fd_table_ok tab \<and>
    open_at tab 1 = Some \<lparr>fd_kind = FD_KIND_STDOUT, fd_pos = 0, fd_isopen = 1, fd_access = FD_ACCESS_WRITE, fd_ptr = None\<rparr>"
proof -
  let ?in = "\<lparr>fd_kind = FD_KIND_STDIN, fd_pos = 0, fd_isopen = 1, fd_access = FD_ACCESS_READ, fd_ptr = None\<rparr>"
  let ?out = "\<lparr>fd_kind = FD_KIND_STDOUT, fd_pos = 0, fd_isopen = 1, fd_access = FD_ACCESS_WRITE, fd_ptr = None\<rparr>"
  have 0: "fd_table_ok (fd_table_create 2)" "open_at (fd_table_create 2) i = None" "unat (fd_size (fd_table_create 2)) = 0" for i
    by (simp_all add: fd_table_ok_def fd_table_create_def fd_alloc_def open_at_def)
  then obtain t1 i where 1: "fd_table_add (fd_table_create 2) ?in = Some (t1, i)" "fd_table_ok t1"
    "\<forall>k < unat i. open_at (fd_table_create 2) k \<noteq> None" "open_at t1 = (open_at (fd_table_create 2))(unat i \<mapsto> ?in)"
    using fd_table_add_ok [of "fd_table_create 2" ?in] by auto
  have i: "unat i = 0" using 1(3) 0(2) by auto
  have "unat (fd_size t1) < 67108864" using fd_table_add_size [OF 1(1)] 0(3) by simp
  then obtain t2 j where 2: "fd_table_add t1 ?out = Some (t2, j)" "fd_table_ok t2" "open_at t1 (unat j) = None"
    "\<forall>k < unat j. open_at t1 k \<noteq> None" "open_at t2 = (open_at t1)(unat j \<mapsto> ?out)"
    using fd_table_add_ok [of t1 ?out] 1(2) by auto
  have "\<not> 1 < unat j"
  proof
    assume "1 < unat j"
    then have "open_at t1 1 \<noteq> None" using 2(4) by blast
    then show False using 1(4) 0(2) i by simp
  qed
  moreover have "unat j \<noteq> 0"
  proof
    assume "unat j = 0"
    then show False using 2(3) 1(4) i by simp
  qed
  ultimately have "unat j = 1" by simp
  then show ?thesis using 1(1) 2 by (simp add: init_fdt_def)
qed

text \<open>The test whether a descriptor may be read is always passed, so a program that reads from its standard
  output, whose descriptor has no node behind it, takes the kernel through the null pointer.\<close>

theorem read_stdout_panics:
  assumes "cur_task s = Some (a, t)" and "init_fdt = Some (table t)" and "r_eax regs = SYSCALL_READ" and "r_ebx regs = 1"
    and "0 < sint (r_edx regs)"
  shows "syscalls_handle s c regs = None"
proof -
  have "fd_table_ok (table t)" and o: "open_at (table t) (unat (r_ebx regs)) =
      Some \<lparr>fd_kind = FD_KIND_STDOUT, fd_pos = 0, fd_isopen = 1, fd_access = FD_ACCESS_WRITE, fd_ptr = None\<rparr>"
    using init_fdt_open unfolding assms(2) by (simp_all add: assms(4))
  then show ?thesis using assms get_fd_open [of t "r_ebx regs"]
    by (simp add: handle_fd_calls syscall_read_def Let_def FD_ACCESS_WRITE_def FD_ACCESS_READ_def FD_KIND_STDOUT_def
        FD_KIND_STDIN_def FD_KIND_PIPE_def FD_KIND_MQ_def syscall_read_disk_def not_le)
qed

theorem read_stdout_panics_witness:
  "\<forall>(s :: sys) (t :: task_t) c regs. \<exists>tab. init_fdt = Some tab \<and>
     syscalls_handle (s\<lparr>kern := (kern s)\<lparr>rr_queue := [3], tasks := [3 \<mapsto> t\<lparr>table := tab\<rparr>]\<rparr>\<rparr>) c
       (regs\<lparr>r_eax := SYSCALL_READ, r_ebx := 1, r_edx := 8\<rparr>) = None"
proof (intro allI)
  fix s :: sys and t :: task_t and c regs
  obtain tab where tab: "init_fdt = Some tab" using init_fdt_open by blast
  let ?s = "s\<lparr>kern := (kern s)\<lparr>rr_queue := [3], tasks := [3 \<mapsto> t\<lparr>table := tab\<rparr>]\<rparr>\<rparr>"
  have "cur_task ?s = Some (3, t\<lparr>table := tab\<rparr>)" by (simp add: cur_task_def task_curtask_def queue_peek_def)
  from read_stdout_panics [OF this, of "regs\<lparr>r_eax := SYSCALL_READ, r_ebx := 1, r_edx := 8\<rparr>" c] tab
  show "\<exists>tab. init_fdt = Some tab \<and> syscalls_handle (s\<lparr>kern := (kern s)\<lparr>rr_queue := [3], tasks := [3 \<mapsto> t\<lparr>table := tab\<rparr>]\<rparr>\<rparr>) c
       (regs\<lparr>r_eax := SYSCALL_READ, r_ebx := 1, r_edx := 8\<rparr>) = None" by auto
qed

subsection \<open>Waiting for one child\<close>

text \<open>\<open>waitpid\<close> looks whether the caller is its own parent, which no task is, instead of the child's, so for any
  process id, also that of a child that has exited, it fails and nothing is waited for.\<close>

theorem waitpid_always_fails:
  assumes "cur_task s = Some (a, t)" and "tparent t \<noteq> Some a" and "task_gettask (kern s) (r_ebx regs) = Some child"
    and "r_eax regs = SYSCALL_WAITPID"
  shows "syscalls_handle s c regs = Some (s, regs\<lparr>r_eax := SYSCALL_ERR_INVAL_CHILDPID\<rparr>, None)"
proof -
  have "syscalls_handle s c regs = map_option (\<lambda>(s, r). (s, return_with regs r)) (syscall_waitpid s c regs)"
    using assms(4) by (intro handle_call) (simp_all add: syscall_handlers_def call_numbers Let_def)
  then show ?thesis using assms by (cases child) (simp_all add: syscall_waitpid_def return_with_def Let_def)
qed

text \<open>The init task 3 has a child 4 with process id 1 that has exited.\<close>

theorem waitpid_always_fails_witness:
  "\<forall>(s :: sys) (t :: task_t) c regs. let
       k = (kern s)\<lparr>rr_queue := [3], tasks := [3 \<mapsto> t\<lparr>tparent := None\<rparr>, 4 \<mapsto> t\<lparr>tparent := Some 3, exit_status := 7\<rparr>],
         tasklist := \<lparr>buffer = [Some (Some 3), Some (Some 4)], size_v = 2, cap = 2\<rparr>\<rparr>;
       s' = s\<lparr>kern := k\<rparr>
     in syscalls_handle s' c (regs\<lparr>r_eax := SYSCALL_WAITPID, r_ebx := 1\<rparr>) =
       Some (s', regs\<lparr>r_ebx := 1, r_eax := SYSCALL_ERR_INVAL_CHILDPID\<rparr>, None)"
proof (intro allI)
  fix s :: sys and t :: task_t and c regs
  let ?k = "(kern s)\<lparr>rr_queue := [3], tasks := [3 \<mapsto> t\<lparr>tparent := None\<rparr>, 4 \<mapsto> t\<lparr>tparent := Some 3, exit_status := 7\<rparr>],
         tasklist := \<lparr>buffer = [Some (Some 3), Some (Some 4)], size_v = 2, cap = 2\<rparr>\<rparr>"
  let ?s = "s\<lparr>kern := ?k\<rparr>"
  have "cur_task ?s = Some (3, t\<lparr>tparent := None\<rparr>)" by (simp add: cur_task_def task_curtask_def queue_peek_def)
  then have "syscalls_handle ?s c (regs\<lparr>r_eax := SYSCALL_WAITPID, r_ebx := 1\<rparr>) =
       Some (?s, regs\<lparr>r_eax := SYSCALL_WAITPID, r_ebx := 1, r_eax := SYSCALL_ERR_INVAL_CHILDPID\<rparr>, None)"
    by (rule waitpid_always_fails [of _ _ _ _ "Some 4"]) (simp_all add: task_gettask_def rd_def)
  then show "let k = ?k; s' = s\<lparr>kern := k\<rparr> in syscalls_handle s' c (regs\<lparr>r_eax := SYSCALL_WAITPID, r_ebx := 1\<rparr>) =
       Some (s', regs\<lparr>r_ebx := 1, r_eax := SYSCALL_ERR_INVAL_CHILDPID\<rparr>, None)" by simp
qed

end
