(* ===== verification/Procthms.thy ===== *)
theory Procthms
  imports Syscallthms
begin

text \<open>
  The system calls about processes: a fork gives the copy a memory of its own with the same contents, and a
  parent that waits gets the exit status of its child.
\<close>

subsection \<open>Memory after a fork\<close>

text \<open>A page of the program's own: present, in a frame, and not in a table of the kernel.\<close>

definition own_page :: "paging \<Rightarrow> u32 \<Rightarrow> u32 \<Rightarrow> page \<Rightarrow> bool" where
  "own_page g dir va pg \<longleftrightarrow> page_of g dir va = Some pg \<and> present pg \<noteq> 0 \<and> frame pg \<noteq> 0 \<and> \<not> shares_table g dir va"

lemma load_page: "page_of g dir va = Some pg \<Longrightarrow> present pg \<noteq> 0 \<Longrightarrow> load g dir va = Some (page_bytes g pg va)"
  by (simp add: load_def translate_def page_bytes_def)

lemma own_page_used:
  assumes "dir_clonable cur g dir" and "own_page g dir va pg"
  shows "frame_no pg \<in> used_frames g"
proof -
  obtain d k new as where a: "pdirs g dir = Some d" "pdirs g (kernel_page_directory g) = Some k"
    "clone_ready cur (g\<lparr>pages_left := as\<rparr>) k d [0..<1024]" "\<forall>i. page_aligned (tables d i)"
    using assms(1) unfolding dir_clonable_def by blast
  let ?i = "va div 0x1000 div 1024"
  have pg: "tables d ?i \<noteq> 0" "page_at g (tables d ?i, va div 0x1000 mod 1024) = Some pg" "tables d ?i \<noteq> tables k ?i"
    using assms(2) a(1,2,4) by (auto simp: own_page_def page_of_def shares_table_def Let_def page_aligned_def split: if_splits)
  have i: "of_nat (unat ?i) = ?i" "unat ?i \<in> set [0..<1024]" using page_index(1) [of va] by simp_all
  then have "private_tab k d (unat ?i)" using pg by (simp add: private_tab_def)
  then obtain p where "ptabs (g\<lparr>pages_left := as\<rparr>) (tables d ?i) = Some p" "table_owned (g\<lparr>pages_left := as\<rparr>) p"
    using a(3) i unfolding clone_ready_def by metis
  then show ?thesis using pg(2) assms(2) by (auto simp: page_at_def table_owned_def own_page_def used_frames_def)
qed

text \<open>C13. When a fork succeeds, the child has a directory of its own in which every byte of the program's own
  pages has the value it has in the parent, the parent's memory is as it was, and no byte of the one's own
  pages is a byte of the other's, so what either writes later the other does not see.\<close>

theorem fork_memory_private:
  assumes "cur_task s = Some (a, t)" and "dir_clonable (cur_dir s) (pages s) (page_dir t)"
    and "syscall_fork s c regs = Some (s', r)"
  shows "\<exists>b ct. tasks (kern s') b = Some ct \<and> r = Ret (pid ct) \<and> tparent ct = Some a \<and> rr_queue (kern s') = rr_queue (kern s) @ [b] \<and>
    (\<forall>va pg. own_page (pages s) (page_dir t) va pg \<longrightarrow>
      load (pages s') (page_dir t) va = load (pages s) (page_dir t) va \<and>
      load (pages s') (page_dir ct) va = load (pages s) (page_dir t) va \<and>
      (\<forall>va' pg'. own_page (pages s) (page_dir t) va' pg' \<longrightarrow>
        translate (pages s') (page_dir ct) va \<noteq> translate (pages s') (page_dir t) va'))"
proof -
  let ?g = "pages s" and ?dir = "page_dir t"
  obtain g' new where c: "page_directory_clone (cur_dir s) ?g ?dir = Some (g', new)" "keeps_frames ?g g'"
    "\<forall>va. page_of g' ?dir va = page_of ?g ?dir va \<and> (case page_of ?g ?dir va of None \<Rightarrow> page_of g' new va = None
       | Some pg \<Rightarrow> (if shares_table ?g ?dir va then page_of g' new va = Some pg
           else (\<exists>pg'. page_of g' new va = Some pg' \<and> page_copied ?g g' pg pg')))"
    using page_directory_clone_ok [OF assms(2)] by blast
  obtain k p where k: "task_fork (kern s) c new = Some (k, p)" and s': "s' = s\<lparr>kern := k, pages := g'\<rparr>" "r = Ret p"
    using assms(1,3) c(1) by (auto simp: syscall_fork_def split: Option.bind_splits)
  have q: "queue_peek (rr_queue (kern s)) = Some a" "tasks (kern s) a = Some t"
    using assms(1) by (auto simp: cur_task_def task_curtask_def split: Option.bind_splits)
  have "\<exists>b ct. tasks k b = Some ct \<and> p = pid ct \<and> tparent ct = Some a \<and> rr_queue k = rr_queue (kern s) @ [b] \<and> page_dir ct = new"
    using k q by (auto simp: task_fork_def put_task_def Let_def split: Option.bind_splits)
  then obtain b ct where b: "tasks k b = Some ct" "p = pid ct" "tparent ct = Some a" "rr_queue k = rr_queue (kern s) @ [b]" "page_dir ct = new"
    by blast
  have copy: "\<exists>pg'. page_of g' new va = Some pg' \<and> present pg' \<noteq> 0 \<and> frame_no pg' \<notin> used_frames ?g \<and> page_bytes g' pg' = page_bytes ?g pg"
    and same: "page_of g' ?dir va = Some pg" "frame_no pg \<in> used_frames ?g" "page_bytes g' pg = page_bytes ?g pg"
    if "own_page ?g ?dir va pg" for va pg
  proof -
    have o: "page_of ?g ?dir va = Some pg" "present pg \<noteq> 0" "frame pg \<noteq> 0" "\<not> shares_table ?g ?dir va" using that by (simp_all add: own_page_def)
    then show "page_of g' ?dir va = Some pg" using c(3) by metis
    show u: "frame_no pg \<in> used_frames ?g" using own_page_used [OF assms(2) that] .
    show "page_bytes g' pg = page_bytes ?g pg" using page_bytes_kept [OF c(2) u] .
    obtain pg' where "page_of g' new va = Some pg'" "page_copied ?g g' pg pg'" using spec [OF c(3), of va] o by auto
    then show "\<exists>pg'. page_of g' new va = Some pg' \<and> present pg' \<noteq> 0 \<and> frame_no pg' \<notin> used_frames ?g \<and> page_bytes g' pg' = page_bytes ?g pg"
      using o by (auto simp: page_copied_def)
  qed
  have apart: "translate g' new va \<noteq> translate g' ?dir va'"
    if va: "own_page ?g ?dir va pg" and va': "own_page ?g ?dir va' pg'" for va pg va' pg'
  proof
    obtain n where n: "page_of g' new va = Some n" "present n \<noteq> 0" "frame_no n \<notin> used_frames ?g" using copy [OF va] by blast
    assume "translate g' new va = translate g' ?dir va'"
    then have "frame_addr n + va mod 0x1000 = frame_addr pg' + va' mod 0x1000"
      using n same(1) [OF va'] va' by (simp add: translate_def own_page_def)
    then have "frame_no n = frame_no pg'" by (metis frame_byte(1))
    then show False using n(3) same(2) [OF va'] by simp
  qed
  have "load g' ?dir va = load ?g ?dir va \<and> load g' new va = load ?g ?dir va" if va: "own_page ?g ?dir va pg" for va pg
  proof -
    have "load ?g ?dir va = Some (page_bytes ?g pg va)" using va load_page by (simp add: own_page_def)
    moreover have "load g' ?dir va = Some (page_bytes ?g pg va)"
      using load_page [OF same(1) [OF va]] same(3) [OF va] va by (simp add: own_page_def)
    moreover have "load g' new va = Some (page_bytes ?g pg va)" using copy [OF va] load_page by metis
    ultimately show ?thesis by simp
  qed
  then show ?thesis using b apart unfolding s' by (intro exI [of _ b] exI [of _ ct]) auto
qed

lemma clone_demo_own: "own_page clone_demo 0x2000 0x400000 demo_page"
  by (simp add: own_page_def page_of_def page_at_def shares_table_def clone_demo_def no_dir_def demo_page_def no_page_def)

lemma pathbuf_copy_root: "pathbuf_copy pathbuf_root \<noteq> None"
  by (simp add: pathbuf_copy_def copy_fields_def pathbuf_root_def vec_new_def vec_new_s_def vec_new_sh_def Let_def)

theorem fork_memory_private_witness:
  "\<forall>(s :: sys) (t :: task_t) c regs. \<exists>s0 s' r b ct.
     s0 = s\<lparr>kern := (kern s)\<lparr>rr_queue := [3], tasks := [3 \<mapsto> t\<lparr>table := fd_table_create 2, cwd := pathbuf_root, page_dir := 0x2000\<rparr>],
       tasklist := vec_new, current_page_directory := 0\<rparr>, pages := clone_demo\<rparr> \<and>
     syscall_fork s0 c regs = Some (s', r) \<and> tasks (kern s') b = Some ct \<and>
     load (pages s') (page_dir ct) 0x400000 = load clone_demo 0x2000 0x400000 \<and>
     translate (pages s') (page_dir ct) 0x400000 \<noteq> translate (pages s') 0x2000 0x400000"
proof (intro allI)
  fix s :: sys and t :: task_t and c regs
  let ?t = "t\<lparr>table := fd_table_create 2, cwd := pathbuf_root, page_dir := 0x2000\<rparr>"
  let ?s = "s\<lparr>kern := (kern s)\<lparr>rr_queue := [3], tasks := [3 \<mapsto> ?t], tasklist := vec_new, current_page_directory := 0\<rparr>, pages := clone_demo\<rparr>"
  have t: "cur_task ?s = Some (3, ?t)" by (simp add: cur_task_def task_curtask_def queue_peek_def)
  have d: "dir_clonable (cur_dir ?s) (pages ?s) (page_dir ?t)" using clone_demo_ok by (simp add: cur_dir_def)
  obtain g new where g: "page_directory_clone 0 clone_demo 0x2000 = Some (g, new)" using page_directory_clone_ok [OF clone_demo_ok] by blast
  obtain pb where pb: "pathbuf_copy pathbuf_root = Some pb" using pathbuf_copy_root by auto
  have "vec_push vec_new (Some (next_task (kern s))) \<noteq> None"
    using vec_push_list [OF _ vec_new_room, of "Some (next_task (kern s))"] vec_new_list by auto
  then have "syscall_fork ?s c regs \<noteq> None"
    using t g pb by (auto simp: syscall_fork_def cur_dir_def task_fork_def queue_peek_def fd_table_clone_def fd_table_create_def Let_def)
  then obtain s' r where f: "syscall_fork ?s c regs = Some (s', r)" by auto
  obtain b ct where "tasks (kern s') b = Some ct"
    "\<forall>va pg. own_page (pages ?s) (page_dir ?t) va pg \<longrightarrow> load (pages s') (page_dir ct) va = load (pages ?s) (page_dir ?t) va \<and>
      (\<forall>va' pg'. own_page (pages ?s) (page_dir ?t) va' pg' \<longrightarrow> translate (pages s') (page_dir ct) va \<noteq> translate (pages s') (page_dir ?t) va')"
    using fork_memory_private [OF t d f] by blast
  then show "\<exists>s0 s' r b ct. s0 = ?s \<and> syscall_fork s0 c regs = Some (s', r) \<and> tasks (kern s') b = Some ct \<and>
     load (pages s') (page_dir ct) 0x400000 = load clone_demo 0x2000 0x400000 \<and>
     translate (pages s') (page_dir ct) 0x400000 \<noteq> translate (pages s') 0x2000 0x400000"
    using f clone_demo_own by - (rule exI [of _ ?s], rule exI [of _ s'], rule exI [of _ r], rule exI [of _ b], rule exI [of _ ct], auto)
qed

subsection \<open>Exit and wait\<close>

text \<open>Every entry of the list of tasks is a task: none was reaped yet.\<close>

definition all_there :: "kernel \<Rightarrow> bool" where
  "all_there k \<longleftrightarrow> vec_ok (tasklist k) \<and> 1 < length (vec_list (tasklist k)) \<and>
     (\<forall>e \<in> set (vec_list (tasklist k)). \<exists>c. e = Some c \<and> tasks k c \<noteq> None)"

lemma vec_ok_rd: "vec_ok v \<Longrightarrow> i < length (vec_list v) \<Longrightarrow> rd (buffer v) i = Some (vec_list v ! i)"
  using vec_get_list by (simp add: vec_get_def)

lemma vec_list_length: "vec_ok v \<Longrightarrow> length (vec_list v) = unat (size_v v)"
  by (auto simp: vec_ok_def vec_list_def word_le_nat_alt)

lemma orphan_loop_ok:
  assumes "vec_ok (tasklist k)" and "1 < length (vec_list (tasklist k))" and "set js \<subseteq> {..<length (vec_list (tasklist k))}"
    and "\<forall>e \<in> set (vec_list (tasklist k)). \<exists>c. e = Some c \<and> tasks k c \<noteq> None"
  shows "\<exists>k'. orphan_loop k a js = Some k' \<and> tasklist k' = tasklist k"
  using assms
proof (induction js arbitrary: k)
  case (Cons i js)
  have i: "vec_get (tasklist k) i = Some (vec_list (tasklist k) ! i)" using vec_get_list [OF Cons.prems(1)] Cons.prems(3) by simp
  have "vec_list (tasklist k) ! i \<in> set (vec_list (tasklist k))" using Cons.prems(3) by simp
  then obtain c t where c: "vec_list (tasklist k) ! i = Some c" "tasks k c = Some t" using Cons.prems(4) by blast
  have ini: "rd (buffer (tasklist k)) INIT_PID = Some (vec_list (tasklist k) ! 1)"
    using vec_ok_rd [OF Cons.prems(1,2)] by (simp add: INIT_PID_def)
  let ?k = "if tparent t = Some a then put_task k c (t\<lparr>tparent := vec_list (tasklist k) ! 1\<rparr>) else k"
  have tl: "tasklist ?k = tasklist k" by (simp add: put_task_def)
  have "tasks ?k c \<noteq> None" if "tasks k c \<noteq> None" for c using that by (simp add: put_task_def)
  then have "\<forall>e \<in> set (vec_list (tasklist ?k)). \<exists>c. e = Some c \<and> tasks ?k c \<noteq> None"
    using Cons.prems(4) unfolding tl by meson
  from Cons.IH [OF _ _ _ this] Cons.prems(1-3) tl obtain k' where "orphan_loop ?k a js = Some k'" "tasklist k' = tasklist k" by auto
  then show ?case using i c ini by (cases "tparent t = Some a") simp_all
qed simp

lemma killtask_ok:
  assumes "all_there k" and "tasks k a = Some t" and "unat (pid t) < length (vec_list (tasklist k))"
  shows "\<exists>k'. task_killtask k a = Some k' \<and> task_gettask k' (pid t) = Some None"
proof -
  have v: "vec_ok (tasklist k)" using assms(1) by (simp add: all_there_def)
  have "set [0..<unat (size_v (tasklist k))] \<subseteq> {..<length (vec_list (tasklist k))}" by (auto simp: vec_list_length [OF v])
  then obtain k1 where k1: "task_orphan_all k a = Some k1" "tasklist k1 = tasklist k"
    using orphan_loop_ok [of k "[0..<unat (size_v (tasklist k))]" a] assms(1) by (auto simp: all_there_def task_orphan_all_def)
  have "unat (pid t) < length (buffer (tasklist k))" using assms(3) v by (auto simp: vec_ok_def vec_list_def word_le_nat_alt)
  then show ?thesis using assms(2) k1 by (simp add: task_killtask_def wr_def task_gettask_def rd_def)
qed

text \<open>Closing descriptors changes the table of the task and the objects only.\<close>

definition same_but_table :: "kernel \<Rightarrow> kernel \<Rightarrow> nat \<Rightarrow> bool" where
  "same_but_table k k' a \<longleftrightarrow> rr_queue k' = rr_queue k \<and> tasklist k' = tasklist k \<and> current_page_directory k' = current_page_directory k \<and>
     (\<forall>b. b \<noteq> a \<longrightarrow> tasks k' b = tasks k b) \<and> (\<forall>t. tasks k a = Some t \<longrightarrow> (\<exists>tab. tasks k' a = Some (t\<lparr>table := tab\<rparr>)))"

lemma close_fds_same: "close_fds k a js = Some k' \<Longrightarrow> same_but_table k k' a"
proof (induction js arbitrary: k)
  case Nil
  then have "k' = k" by simp
  moreover have "\<exists>tab. t = t\<lparr>table := tab\<rparr>" for t :: task_t by (rule exI [of _ "table t"]) simp
  ultimately show ?case by (auto simp: same_but_table_def)
next
  case (Cons i js)
  then obtain t f where t: "tasks k a = Some t" "rd (records (table t)) i = Some f" by (auto split: Option.bind_splits)
  show ?case
  proof (cases "fd_isopen f = 0")
    case True
    then show ?thesis using Cons t by simp
  next
    case False
    then obtain w tab where w: "fd_table_close (objs k) (table t) (of_nat i) = Some (w, tab)" using Cons.prems t by (auto split: Option.bind_splits)
    then have "close_fds (put_task (k\<lparr>objs := w\<rparr>) a (t\<lparr>table := tab\<rparr>)) a js = Some k'" using Cons.prems t False by simp
    from Cons.IH [OF this] show ?thesis using t(1) by (auto simp: same_but_table_def put_task_def)
  qed
qed

lemma all_there_mono:
  "all_there k \<Longrightarrow> tasklist k' = tasklist k \<Longrightarrow> (\<And>c. tasks k c \<noteq> None \<Longrightarrow> tasks k' c \<noteq> None) \<Longrightarrow> all_there k'"
  unfolding all_there_def by metis

lemma close_all_same:
  assumes "task_close_all_fds k = Some k'"
  shows "\<exists>a. task_curtask k = Some a \<and> same_but_table k k' a"
  using assms close_fds_same by (auto simp: task_close_all_fds_def split: Option.bind_splits)

lemma same_but_table_tasks: "same_but_table k k' a \<Longrightarrow> tasks k c \<noteq> None \<Longrightarrow> tasks k' c \<noteq> None"
  by (cases "c = a") (auto simp: same_but_table_def)

lemma exit_switches:
  assumes "cur_task s = Some (a, t)" and "rr_queue (kern s) = a # q" and "\<forall>x \<in> set q. tasks (kern s) x \<noteq> None"
    and "tparent t = Some b" and "b \<noteq> a" and "tasks (kern s) b = Some p"
    and "twait p = TASK_WAIT_ALL \<or> twait p = TASK_WAIT_PID \<and> chwait p = Some a"
    and "task_close_all_fds (put_task (kern s) a (t\<lparr>exit_status := st\<rparr>)) = Some k1" and "ucast (r_ebx regs) = st"
  shows "\<exists>s1. syscall_exit s c regs = Some (s1, Sleep In_exit) \<and> pages s1 = pages s \<and> rr_queue (kern s1) = q @ [b] \<and>
    tasklist (kern s1) = tasklist (kern s) \<and> (\<forall>c. tasks (kern s) c \<noteq> None \<longrightarrow> tasks (kern s1) c \<noteq> None) \<and>
    tasks (kern s1) b = Some (p\<lparr>chwait := Some a, twait := TASK_WAIT_NONE\<rparr>) \<and>
    (\<exists>t1. tasks (kern s1) a = Some t1 \<and> pid t1 = pid t \<and> exit_status t1 = st)"
proof -
  let ?k0 = "put_task (kern s) a (t\<lparr>exit_status := st\<rparr>)"
  have "task_curtask ?k0 = Some a" using assms(2) by (simp add: task_curtask_def queue_peek_def put_task_def)
  then have same: "same_but_table ?k0 k1 a" using close_all_same [OF assms(8)] by simp
  then obtain tab where k1: "rr_queue k1 = a # q" "tasklist k1 = tasklist (kern s)" "tasks k1 b = Some p"
    "tasks k1 a = Some (t\<lparr>exit_status := st, table := tab\<rparr>)" "\<forall>x. x \<noteq> a \<longrightarrow> tasks k1 x = tasks (kern s) x"
    using assms(2,5,6) by (auto simp: same_but_table_def put_task_def)
  let ?p = "p\<lparr>chwait := Some a, twait := TASK_WAIT_NONE\<rparr>" and ?t = "t\<lparr>exit_status := st, table := tab\<rparr>"
  let ?k2 = "task_awake (put_task k1 b ?p) b"
  have k2: "rr_queue ?k2 = a # q @ [b]" "tasks ?k2 a = Some ?t" "tasks ?k2 b = Some ?p" "tasklist ?k2 = tasklist (kern s)"
    using k1 assms(5) by (simp_all add: task_awake_def put_task_def)
  have there: "\<forall>x. tasks (kern s) x \<noteq> None \<longrightarrow> tasks ?k2 x \<noteq> None"
    using k1 by (auto simp: task_awake_def put_task_def)
  obtain y ys where y: "q @ [b] = y # ys" by (cases q) auto
  have "y \<in> set (q @ [b])" using y by simp
  then have "y \<in> set q \<or> y = b" by auto
  then obtain n where n: "tasks ?k2 y = Some n" using there assms(3,6) by fastforce
  obtain n' where n': "((tasks ?k2)(a \<mapsto> ?t\<lparr>saved := c\<rparr>)) y = Some n'" using n by (cases "y = a") auto
  define k3 where "k3 = put_task (?k2\<lparr>rr_queue := q @ [b]\<rparr>) a (?t\<lparr>saved := c\<rparr>)\<lparr>buffers := saved n', current_task := y, current_page_directory := page_dir n'\<rparr>"
  have sw: "task_sleep ?k2 c = Some k3"
    using k2 y n' by (simp add: k3_def task_sleep_def task_switch_def queue_peek_def put_task_def)
  have k3: "rr_queue k3 = q @ [b]" "tasklist k3 = tasklist (kern s)" "tasks k3 b = Some ?p" "tasks k3 a = Some (?t\<lparr>saved := c\<rparr>)"
    "\<forall>x. tasks (kern s) x \<noteq> None \<longrightarrow> tasks k3 x \<noteq> None"
    using k2 there assms(5) by (simp_all add: k3_def put_task_def)
  have "syscall_exit s c regs = Some (s\<lparr>kern := k3\<rparr>, Sleep In_exit)"
    using assms(1,4,7,8,9) k1(3) k2(1) sw by (auto simp: syscall_exit_def call_sleep_def Let_def)
  then show ?thesis using k3 by (intro exI [of _ "s\<lparr>kern := k3\<rparr>"]) simp
qed

lemma wait_resumed:
  assumes "rr_queue (kern s) = b # q" and "tasks (kern s) b = Some p" and "chwait p = Some a" and "b \<noteq> a" and "tasks (kern s) a = Some t"
    and "all_there (kern s)" and "unat (pid t) < length (vec_list (tasklist (kern s)))" and "plain (pages s) (cur_dir s) stref 2"
  shows "\<exists>s3. resume_call s c (In_wait stref) = Some (s3, Ret (pid t)) \<and>
    load_bytes (pages s3) (cur_dir s) stref 2 = Some (u16_bytes (exit_status t)) \<and> task_gettask (kern s3) (pid t) = Some None"
proof -
  let ?p = "p\<lparr>saved := (saved p)\<lparr>eip := 0xffffffff\<rparr>\<rparr>"
  let ?s = "s\<lparr>kern := put_task (kern s) b ?p\<rparr>"
  have q: "task_curtask (kern s) = Some b" "cur_task ?s = Some (b, ?p)"
    using assms(1) by (simp_all add: task_curtask_def queue_peek_def cur_task_def put_task_def)
  have "resume_call s c (In_wait stref) = wait_end stref ?s" using q(1) assms(2) by (simp add: resume_call_def task_resume_def)
  also have "\<dots> = do { (s, p) \<leftarrow> reap ?s a stref; Some (s, Ret p) }" using q(2) assms(3) by (simp add: wait_end_def)
  finally have r: "resume_call s c (In_wait stref) = \<dots>" .
  have d: "pages ?s = pages s" "cur_dir ?s = cur_dir s" by (simp_all add: cur_dir_def put_task_def)
  have "plain (pages ?s) (cur_dir ?s) stref (length (u16_bytes (exit_status t)))" using assms(8) d by (simp add: u16_bytes_def numeral_2_eq_2)
  then obtain g where g: "put_user ?s stref (u16_bytes (exit_status t)) = Some (?s\<lparr>pages := g\<rparr>)"
    "load_bytes g (cur_dir s) stref (length (u16_bytes (exit_status t))) = Some (u16_bytes (exit_status t))" using put_user_ok d(2) by metis
  have "all_there (kern (?s\<lparr>pages := g\<rparr>))" using assms(6) by (rule all_there_mono) (simp_all add: put_task_def)
  moreover have "tasks (kern (?s\<lparr>pages := g\<rparr>)) a = Some t" "tasklist (kern (?s\<lparr>pages := g\<rparr>)) = tasklist (kern s)"
    using assms(4,5) by (simp_all add: put_task_def)
  ultimately obtain k where k: "task_killtask (kern (?s\<lparr>pages := g\<rparr>)) a = Some k" "task_gettask k (pid t) = Some None"
    using killtask_ok assms(7) by metis
  have "reap ?s a stref = Some (?s\<lparr>pages := g, kern := k\<rparr>, pid t)"
    using g(1) k(1) assms(4,5) by (simp add: reap_def put_task_def)
  then show ?thesis using r g(2) k(2) by (simp add: u16_bytes_def numeral_2_eq_2)
qed

text \<open>C14. A task that exits while its parent waits for any child, or for it, makes the parent ready and tells it which
  child it was; when the parent runs again its \<open>wait\<close> returns the process id of the child, with the exit
  status where the program wanted it, and the child is gone from the list of tasks. No task may have been reaped
  before, since \<open>task_orphan_all\<close> goes through the null pointers that reaped tasks leave.\<close>

theorem exit_wakes_wait:
  assumes "cur_task s = Some (a, t)" and "rr_queue (kern s) = a # q" and "\<forall>x \<in> set q. tasks (kern s) x \<noteq> None"
    and "tparent t = Some b" and "b \<noteq> a" and "tasks (kern s) b = Some p"
    and "twait p = TASK_WAIT_ALL \<or> twait p = TASK_WAIT_PID \<and> chwait p = Some a"
    and "task_close_all_fds (put_task (kern s) a (t\<lparr>exit_status := ucast (r_ebx regs)\<rparr>)) = Some k1" and "r_eax regs = SYSCALL_EXIT"
    and "all_there (kern s)" and "unat (pid t) < length (vec_list (tasklist (kern s)))" and "plain (pages s) (page_dir p) stref 2"
  shows "\<exists>s1. syscalls_handle s c regs = Some (s1, regs, Some In_exit) \<and> rr_queue (kern s1) = q @ [b] \<and>
    (\<exists>s3. resume_call (s1\<lparr>kern := (kern s1)\<lparr>rr_queue := b # q', current_page_directory := page_dir p\<rparr>\<rparr>) c' (In_wait stref) = Some (s3, Ret (pid t)) \<and>
      load_bytes (pages s3) (page_dir p) stref 2 = Some (u16_bytes (ucast (r_ebx regs))) \<and> task_gettask (kern s3) (pid t) = Some None)"
proof -
  obtain s1 t1 where s1: "syscall_exit s c regs = Some (s1, Sleep In_exit)" "pages s1 = pages s" "rr_queue (kern s1) = q @ [b]"
    "tasklist (kern s1) = tasklist (kern s)" "\<forall>c. tasks (kern s) c \<noteq> None \<longrightarrow> tasks (kern s1) c \<noteq> None"
    "tasks (kern s1) b = Some (p\<lparr>chwait := Some a, twait := TASK_WAIT_NONE\<rparr>)"
    "tasks (kern s1) a = Some t1" "pid t1 = pid t" "exit_status t1 = ucast (r_ebx regs)"
    using exit_switches [OF assms(1-8) refl] by blast
  let ?s2 = "s1\<lparr>kern := (kern s1)\<lparr>rr_queue := b # q', current_page_directory := page_dir p\<rparr>\<rparr>"
  have "all_there (kern ?s2)" using assms(10) by (rule all_there_mono) (use s1 in simp_all)
  then have "\<exists>s3. resume_call ?s2 c' (In_wait stref) = Some (s3, Ret (pid t1)) \<and>
    load_bytes (pages s3) (cur_dir ?s2) stref 2 = Some (u16_bytes (exit_status t1)) \<and> task_gettask (kern s3) (pid t1) = Some None"
    using s1 assms(5,11,12) wait_resumed [of ?s2 b q' "p\<lparr>chwait := Some a, twait := TASK_WAIT_NONE\<rparr>" a t1 stref c'] by (simp add: cur_dir_def)
  moreover have "cur_dir ?s2 = page_dir p" by (simp add: cur_dir_def)
  moreover have "syscalls_handle s c regs = Some (s1, regs, Some In_exit)"
    using handle_call [of regs syscall_exit s c] s1(1) assms(9) by (simp add: syscall_handlers_def call_numbers Let_def return_with_def)
  ultimately show ?thesis using s1(3,8,9) by metis
qed

text \<open>Task 4, process 1, exits with 7 while its parent, task 3 and process 0, waits.\<close>

theorem exit_wakes_wait_witness:
  "\<forall>(s0 :: sys) (t :: task_t) c c' (r :: registers). \<exists>s s1 s3.
     tasks (kern s) = [3 \<mapsto> t\<lparr>pid := 0, page_dir := 0x1000, twait := TASK_WAIT_ALL\<rparr>,
       4 \<mapsto> t\<lparr>pid := 1, table := fd_table_create 2, tparent := Some 3\<rparr>] \<and> rr_queue (kern s) = [4] \<and>
     syscalls_handle s c (r\<lparr>r_ebx := 7, r_eax := SYSCALL_EXIT\<rparr>) = Some (s1, r\<lparr>r_ebx := 7, r_eax := SYSCALL_EXIT\<rparr>, Some In_exit) \<and>
     rr_queue (kern s1) = [3] \<and>
     resume_call (s1\<lparr>kern := (kern s1)\<lparr>rr_queue := [3], current_page_directory := 0x1000\<rparr>\<rparr>) c' (In_wait 32) = Some (s3, Ret 1) \<and>
     load_bytes (pages s3) 0x1000 32 2 = Some [7, 0]"
proof (intro allI)
  fix s0 :: sys and t :: task_t and c c' and r :: registers
  let ?p = "t\<lparr>pid := 0, page_dir := 0x1000, twait := TASK_WAIT_ALL\<rparr>" and ?t = "t\<lparr>pid := 1, table := fd_table_create 2, tparent := Some 3\<rparr>"
  let ?k = "(kern s0)\<lparr>rr_queue := [4], tasks := [3 \<mapsto> ?p, 4 \<mapsto> ?t], tasklist := \<lparr>buffer = [Some (Some 3), Some (Some 4)], size_v = 2, cap = 2\<rparr>\<rparr>"
  let ?s = "s0\<lparr>kern := ?k, pages := one_page (\<lambda>_. 0)\<rparr>" and ?r = "r\<lparr>r_ebx := 7, r_eax := SYSCALL_EXIT\<rparr>"
  have t: "cur_task ?s = Some (4, ?t)" by (simp add: cur_task_def task_curtask_def queue_peek_def)
  have l: "vec_list (tasklist ?k) = [Some 3, Some 4]" by (simp add: vec_list_def)
  have a: "all_there (kern ?s)" using l by (simp add: all_there_def vec_ok_def)
  have "task_close_all_fds (put_task (kern ?s) 4 (?t\<lparr>exit_status := ucast (r_ebx ?r)\<rparr>)) \<noteq> None"
    by (simp add: task_close_all_fds_def task_curtask_def queue_peek_def put_task_def fd_table_create_def)
  then obtain k1 where "task_close_all_fds (put_task (kern ?s) 4 (?t\<lparr>exit_status := ucast (r_ebx ?r)\<rparr>)) = Some k1" by blast
  moreover have "plain (pages ?s) (page_dir ?p) 32 2" using one_page_part [of 32 2] by simp
  ultimately obtain s1 s3 where "syscalls_handle ?s c ?r = Some (s1, ?r, Some In_exit)" "rr_queue (kern s1) = [3]"
    "resume_call (s1\<lparr>kern := (kern s1)\<lparr>rr_queue := [3], current_page_directory := 0x1000\<rparr>\<rparr>) c' (In_wait 32) = Some (s3, Ret 1)"
    "load_bytes (pages s3) 0x1000 32 2 = Some (u16_bytes (ucast (r_ebx ?r)))"
    using exit_wakes_wait [of ?s 4 ?t "[]" 3 ?p ?r k1 32 c "[]" c'] t l a by auto
  moreover have "u16_bytes (ucast (r_ebx ?r)) = [7, 0]" by (simp add: u16_bytes_def drop_bit_eq_div)
  ultimately show "\<exists>s s1 s3. tasks (kern s) = [3 \<mapsto> ?p, 4 \<mapsto> ?t] \<and> rr_queue (kern s) = [4] \<and>
     syscalls_handle s c ?r = Some (s1, ?r, Some In_exit) \<and> rr_queue (kern s1) = [3] \<and>
     resume_call (s1\<lparr>kern := (kern s1)\<lparr>rr_queue := [3], current_page_directory := 0x1000\<rparr>\<rparr>) c' (In_wait 32) = Some (s3, Ret 1) \<and>
     load_bytes (pages s3) 0x1000 32 2 = Some [7, 0]"
    by - (rule exI [of _ ?s], rule exI [of _ s1], rule exI [of _ s3], simp)
qed

end
