(* ===== verification/Execthms.thy ===== *)
theory Execthms
  imports Syscall
begin

text \<open>
  The arguments of a new program: \<open>place_args_vector\<close> copies the strings and their addresses to the new
  stack, below the end it is given.
\<close>

subsection \<open>Copying a string\<close>

lemma store_bytes_append:
  "store_bytes g dir p (xs @ ys) = do { g \<leftarrow> store_bytes g dir p xs; store_bytes g dir (p + of_nat (length xs)) ys }"
proof (induction xs arbitrary: g p)
  case (Cons x xs)
  then show ?case by (cases "store g dir p x") (simp_all add: add.assoc)
qed simp

lemma copy_str_is_store:
  assumes "load_bytes g dir src (Suc (length s)) = Some (s @ [0])" and "0 \<notin> set s" and "whole g dir dest (length s)"
    and "apart g dir dest (length s) dir src (Suc (length s))"
  shows "copy_str dir dest src g = store_bytes g dir dest s"
  using assms
proof (induction s arbitrary: g dest src)
  case Nil
  then have "load g dir src = Some 0" by (auto split: Option.bind_splits)
  then show ?case by (subst copy_str.simps) simp
next
  case (Cons c s)
  have c: "load g dir src = Some c" "load_bytes g dir (src + 1) (Suc (length s)) = Some (s @ [0])" "c \<noteq> 0"
    using Cons.prems(1,2) by (auto split: Option.bind_splits)
  have w: "translate g dir dest \<noteq> None" "whole g dir (dest + 1) (length s)" using Cons.prems(3) by (simp_all add: whole_Suc)
  then obtain a where a: "translate g dir dest = Some a" by blast
  let ?g = "g\<lparr>phys := (phys g)(a := c)\<rparr>"
  have st: "store g dir dest c = Some ?g" using store_place [OF a] .
  have whole_src: "whole g dir (src + 1) (Suc (length s))" using load_bytes_is_whole [OF c(2)] .
  have ap: "apart g dir (dest + 1) (length s) dir (src + 1) (Suc (length s))"
    using apart_part [OF Cons.prems(4), of 1 "length s" 1 "Suc (length s)"] by simp
  have "load_bytes ?g dir (src + 1) (Suc (length s)) = load_bytes g dir (src + 1) (Suc (length s))"
  proof (rule load_bytes_other [OF whole_src])
    fix b assume "\<exists>i < Suc (length s). place g dir (src + 1) i = Some b"
    then obtain i where "i < Suc (length s)" "place g dir src (Suc i) = Some b" by (auto simp: place_Suc)
    then have "b \<noteq> a" using Cons.prems(4) a unfolding apart_def by (metis length_Cons not_less_eq place_0 zero_less_Suc)
    then show "((phys g)(a := c)) b = phys g b" by simp
  qed
  then have "copy_str dir (dest + 1) (src + 1) ?g = store_bytes ?g dir (dest + 1) s"
    using Cons.IH [of ?g "src + 1" "dest + 1"] c w(2) ap Cons.prems(2) by simp
  then show ?case using c(1,3) st by (subst copy_str.simps) simp
qed

subsection \<open>The vector of arguments\<close>

text \<open>An argument is the address of a string and the string; \<open>argv\<close> is the array of their addresses with a null
  pointer at the end.\<close>

definition str_at :: "paging \<Rightarrow> u32 \<Rightarrow> u32 \<Rightarrow> cstr \<Rightarrow> bool" where
  "str_at g dir p s \<longleftrightarrow> load_bytes g dir p (Suc (length s)) = Some (s @ [0]) \<and> 0 \<notin> set s"

fun args_at :: "paging \<Rightarrow> u32 \<Rightarrow> u32 \<Rightarrow> (u32 \<times> cstr) list \<Rightarrow> bool" where
  "args_at g dir argv [] \<longleftrightarrow> load_u32 g dir argv = Some 0"
| "args_at g dir argv ((p, s) # as) \<longleftrightarrow> load_u32 g dir argv = Some p \<and> p \<noteq> 0 \<and> str_at g dir p s \<and> args_at g dir (argv + 4) as"

definition room :: "(u32 \<times> cstr) list \<Rightarrow> nat" where
  "room as = (\<Sum>(p, s) \<leftarrow> as. Suc (length s))"

lemma room_simps [simp]: "room [] = 0" "room ((p, s) # as) = Suc (length s) + room as" "room (as @ bs) = room as + room bs" "room (rev as) = room as"
  by (simp_all add: room_def rev_map [symmetric] sum_list_rev)

lemma load_bytes_add:
  "load_bytes g dir p (m + n) = do { xs \<leftarrow> load_bytes g dir p m; ys \<leftarrow> load_bytes g dir (p + of_nat m) n; Some (xs @ ys) }"
proof (induction m arbitrary: p)
  case (Suc m)
  then show ?case by (cases "load g dir p") (simp_all add: add.assoc)
qed simp

lemma str_at_load: "str_at g dir p s \<Longrightarrow> load_str g dir p = Some s"
proof -
  assume s: "str_at g dir p s"
  then have "load_bytes g dir p (length s + 1) = Some (s @ [0])" by (simp add: str_at_def)
  then obtain xs ys where "load_bytes g dir p (length s) = Some xs" "load_bytes g dir (p + of_nat (length s)) 1 = Some ys" "xs @ ys = s @ [0]"
    unfolding load_bytes_add by (auto split: Option.bind_splits)
  moreover have "length xs = length s" using load_bytes_length calculation(1) by blast
  ultimately have "load_bytes g dir p (length s) = Some s" "load g dir (p + of_nat (length s)) = Some 0"
    by (auto split: Option.bind_splits)
  then show ?thesis using s by (intro load_str_bytes) (simp_all add: str_at_def)
qed

lemma collect_args_ok:
  "args_at g dir argv as \<Longrightarrow> collect_args g dir argv acc sz = Some (acc @ map fst as, sz + of_nat (room as))"
proof (induction as arbitrary: argv acc sz)
  case Nil
  then show ?case by (subst collect_args.simps) simp
next
  case (Cons a as)
  obtain p s where a: "a = (p, s)" by (cases a)
  have "load_str g dir p = Some s" using Cons.prems str_at_load by (simp add: a)
  then show ?case using Cons.prems Cons.IH [of "argv + 4" "acc @ [p]" "sz + (1 + of_nat (length s))"]
    by (subst collect_args.simps) (simp add: a algebra_simps)
qed

subsection \<open>What a store changes\<close>

text \<open>The bytes of physical memory of a block, and a step that changes bytes of a set only.\<close>

definition block :: "paging \<Rightarrow> u32 \<Rightarrow> u32 \<Rightarrow> nat \<Rightarrow> u32 set" where
  "block g dir p n = {a. \<exists>i < n. place g dir p i = Some a}"

definition changes :: "paging \<Rightarrow> paging \<Rightarrow> u32 set \<Rightarrow> bool" where
  "changes g g' S \<longleftrightarrow> (\<exists>m. g' = g\<lparr>phys := m\<rparr> \<and> (\<forall>a. a \<notin> S \<longrightarrow> m a = phys g a))"

lemma changes_refl: "changes g g S"
  unfolding changes_def by (rule exI [of _ "phys g"]) simp

lemma changes_trans:
  assumes "changes g g1 S" and "changes g1 g2 T" and "S \<union> T \<subseteq> U"
  shows "changes g g2 U"
proof -
  obtain m1 m2 where "g1 = g\<lparr>phys := m1\<rparr>" "\<forall>a. a \<notin> S \<longrightarrow> m1 a = phys g a" "g2 = g1\<lparr>phys := m2\<rparr>" "\<forall>a. a \<notin> T \<longrightarrow> m2 a = phys g1 a"
    using assms(1,2) by (auto simp: changes_def)
  moreover have "m2 a = phys g a" if "a \<notin> U" for a
  proof -
    have "a \<notin> S" "a \<notin> T" using that assms(3) by auto
    then show ?thesis using calculation by simp
  qed
  ultimately show ?thesis unfolding changes_def by (intro exI [of _ m2]) simp
qed

lemma changes_tables: "changes g g' S \<Longrightarrow> same_tables g g'"
  by (auto simp: changes_def same_tables_def)

lemma changes_blocks:
  assumes "changes g g' S"
  shows "block g' = block g" and "plain g' = plain g" and "whole g' = whole g"
  using same_tables_blocks [OF changes_tables [OF assms]] by (simp_all add: block_def fun_eq_iff)

lemma changes_load:
  assumes "changes g g' S" and "whole g dir p n" and "block g dir p n \<inter> S = {}"
  shows "load_bytes g' dir p n = load_bytes g dir p n"
proof -
  obtain m where m: "g' = g\<lparr>phys := m\<rparr>" "\<forall>a. a \<notin> S \<longrightarrow> m a = phys g a" using assms(1) by (auto simp: changes_def)
  have "m a = phys g a" if "\<exists>i < n. place g dir p i = Some a" for a using m(2) assms(3) that by (auto simp: block_def)
  then show ?thesis unfolding m(1) by (rule load_bytes_other [OF assms(2)])
qed

lemma store_changes:
  assumes "plain g dir p (length cs)"
  shows "\<exists>g'. store_bytes g dir p cs = Some g' \<and> changes g g' (block g dir p (length cs)) \<and> load_bytes g' dir p (length cs) = Some cs"
  using store_load [OF assms] by (auto simp: changes_def block_def)

lemma stretch_disjoint:
  assumes "plain g dir b n" and "i + k \<le> n" and "j + l \<le> n" and "i + k \<le> j \<or> j + l \<le> i"
  shows "block g dir (b + of_nat i) k \<inter> block g dir (b + of_nat j) l = {}"
  using plain_apart [OF assms] unfolding apart_def block_def by (auto; metis)

lemma block_apart:
  assumes "whole g dir p n" and "block g dir p n \<inter> block g dir' q k = {}"
  shows "apart g dir p n dir' q k"
  unfolding apart_def
proof (intro allI impI notI)
  fix i j assume ij: "i < n" "j < k" "place g dir p i = place g dir' q j"
  obtain a where "place g dir p i = Some a" using assms(1) ij(1) by (auto simp: whole_def)
  then have "a \<in> block g dir p n \<inter> block g dir' q k" using ij by (auto simp: block_def)
  then show False using assms(2) by simp
qed

lemma stretch_inside: "i + k \<le> n \<Longrightarrow> block g dir (b + of_nat i) k \<subseteq> block g dir b n"
proof
  fix a assume n: "i + k \<le> n" and "a \<in> block g dir (b + of_nat i) k"
  then obtain j where "j < k" "place g dir b (i + j) = Some a" by (auto simp: block_def place_add)
  then show "a \<in> block g dir b n" using n by (auto simp: block_def intro!: exI [of _ "i + j"])
qed

lemma stretch_part: "j \<le> i \<Longrightarrow> i + k \<le> j + l \<Longrightarrow> block g dir (b + of_nat i) k \<subseteq> block g dir (b + of_nat j) l"
  using stretch_inside [of "i - j" k l g dir "b + of_nat j"] by (simp add: add.assoc flip: of_nat_add)

lemma str_at_kept:
  assumes "changes g g' S" and "str_at g dir p s" and "block g dir p (Suc (length s)) \<inter> S = {}"
  shows "str_at g' dir p s"
  using changes_load [OF assms(1) _ assms(3)] assms(2) load_bytes_is_whole unfolding str_at_def by metis

lemma load_u32_kept:
  assumes "changes g g' S" and "load_u32 g dir p = Some w" and "block g dir p 4 \<inter> S = {}"
  shows "load_u32 g' dir p = Some w"
proof -
  obtain bs where "load_bytes g dir p 4 = Some bs" "w = bytes_u32 bs" using assms(2) unfolding load_u32_def by (auto split: Option.bind_splits)
  moreover from this(1) have "whole g dir p 4" by (rule load_bytes_is_whole)
  ultimately show ?thesis using changes_load [OF assms(1) _ assms(3)] by (simp add: load_u32_def)
qed

subsection \<open>The new stack\<close>

text \<open>One argument: its string and then its address.\<close>

lemma place_one:
  assumes "plain g dir b n" and "str_at g dir p s" and "block g dir p (Suc (length s)) \<inter> block g dir b n = {}"
    and "x \<le> n" and "y + Suc (length s) \<le> x" and "4 \<le> y"
  defines "x1 \<equiv> x - Suc (length s)" and "y1 \<equiv> y - 4"
  shows "\<exists>g2. (do { g \<leftarrow> copy_str dir (b + of_nat x1) p g; g \<leftarrow> store g dir (b + of_nat x1 + of_nat (length s)) 0;
      store_u32 g dir (b + of_nat y1) (b + of_nat x1) }) = Some g2 \<and>
    changes g g2 (block g dir (b + of_nat y1) 4 \<union> block g dir (b + of_nat x1) (Suc (length s))) \<and>
    load_u32 g2 dir (b + of_nat y1) = Some (b + of_nat x1) \<and> str_at g2 dir (b + of_nat x1) s"
proof -
  let ?a = "b + of_nat x1" and ?q = "b + of_nat y1"
  have off: "x1 + Suc (length s) \<le> n" "y1 + 4 \<le> n" "y1 + 4 \<le> x1" using assms(4-6) by (simp_all add: x1_def y1_def)
  have pa: "plain g dir ?a (length (s @ [0]))" using plain_part [OF assms(1), of x1 "Suc (length s)"] assms(4,5) by (simp add: x1_def)
  then obtain g1 where g1: "store_bytes g dir ?a (s @ [0]) = Some g1" "changes g g1 (block g dir ?a (Suc (length s)))"
    "load_bytes g1 dir ?a (Suc (length s)) = Some (s @ [0])" using store_changes by fastforce
  have "block g dir ?a (length s) \<subseteq> block g dir b n" by (rule stretch_inside) (use assms(4,5) in \<open>simp add: x1_def\<close>)
  moreover have w: "whole g dir ?a (length s)" using pa by (auto simp: plain_def whole_def)
  ultimately have "apart g dir ?a (length s) dir p (Suc (length s))" using assms(3) by (intro block_apart) auto
  then have "copy_str dir ?a p g = store_bytes g dir ?a s" using copy_str_is_store assms(2) w unfolding str_at_def by blast
  then have 1: "do { g \<leftarrow> copy_str dir ?a p g; store g dir (?a + of_nat (length s)) 0 } = Some g1"
    using g1(1) unfolding store_bytes_append by simp
  have "plain g1 dir ?q 4" using plain_part [OF assms(1), of y1 4] assms(4-6) changes_blocks [OF g1(2)] by (simp add: y1_def)
  then obtain g2 where g2: "store_u32 g1 dir ?q ?a = Some g2" "changes g1 g2 (block g dir ?q 4)" "load_u32 g2 dir ?q = Some ?a"
    using store_changes [of g1 dir ?q "u32_bytes ?a"] changes_blocks [OF g1(2)] load_u32_bytes by (auto simp: store_u32_def)
  have "block g1 dir ?a (Suc (length s)) \<inter> block g dir ?q 4 = {}"
    using stretch_disjoint [OF assms(1) off(1,2)] off(3) changes_blocks(1) [OF g1(2)] by simp
  then have "str_at g2 dir ?a s" using str_at_kept [OF g2(2)] g1(3) assms(2) by (simp add: str_at_def)
  moreover have "changes g g2 (block g dir ?q 4 \<union> block g dir ?a (Suc (length s)))" by (rule changes_trans [OF g1(2) g2(2)]) blast
  moreover have "do { g \<leftarrow> copy_str dir ?a p g; g \<leftarrow> store g dir (?a + of_nat (length s)) 0; store_u32 g dir ?q ?a } = Some g2"
    using 1 g2(1) by (auto split: Option.bind_splits)
  ultimately show ?thesis using g2(3) by blast
qed

text \<open>The strings and addresses of the arguments that were placed, from offsets \<open>x\<close> and \<open>y\<close> of the region downwards.\<close>

fun placed :: "paging \<Rightarrow> u32 \<Rightarrow> u32 \<Rightarrow> nat \<Rightarrow> nat \<Rightarrow> (u32 \<times> cstr) list \<Rightarrow> bool" where
  "placed g dir b x y [] \<longleftrightarrow> True"
| "placed g dir b x y ((p, s) # as) \<longleftrightarrow>
     (let x = x - Suc (length s); y = y - 4
      in load_u32 g dir (b + of_nat y) = Some (b + of_nat x) \<and> str_at g dir (b + of_nat x) s \<and> placed g dir b x y as)"

lemma take_offsets: "4 * Suc (length as) \<le> y \<Longrightarrow> y + room ((p, s) # as) \<le> x \<Longrightarrow>
    4 * length as \<le> y - 4 \<and> (y - 4) + room as \<le> x - Suc (length s) \<and> y + Suc (length s) \<le> x \<and> 4 \<le> y"
  by auto

lemma step_back: "(b :: u32) + of_nat x - (of_nat k + 1) = b + of_nat (x - Suc k)" if "Suc k \<le> x"
  using that by (simp add: of_nat_diff algebra_simps)

lemma place_args_ok:
  assumes "plain g dir b n" and "\<forall>(p, s) \<in> set as. str_at g dir p s \<and> block g dir p (Suc (length s)) \<inter> block g dir b n = {}"
    and "x \<le> n" and "4 * length as \<le> y" and "y + room as \<le> x"
  shows "\<exists>g'. place_args dir g (b + of_nat x) (b + of_nat y) (map fst as) = Some (g', b + of_nat (y - 4 * length as)) \<and>
    changes g g' (block g dir (b + of_nat (y - 4 * length as)) (4 * length as) \<union> block g dir (b + of_nat (x - room as)) (room as)) \<and>
    placed g' dir b x y as"
  using assms
proof (induction as arbitrary: g x y)
  case Nil
  show ?case using changes_refl by auto
next
  case (Cons e as)
  obtain p s where e: "e = (p, s)" by (cases e)
  define x1 where "x1 = x - Suc (length s)"
  define y1 where "y1 = y - 4"
  have off: "4 * length as \<le> y1" "y1 + room as \<le> x1" "y + Suc (length s) \<le> x" "4 \<le> y"
    using take_offsets [of as y p s x] Cons.prems(4,5) by (simp_all add: e x1_def y1_def)
  have ps: "str_at g dir p s" "block g dir p (Suc (length s)) \<inter> block g dir b n = {}" using Cons.prems(2) by (simp_all add: e)
  let ?W = "block g dir (b + of_nat y1) 4 \<union> block g dir (b + of_nat x1) (Suc (length s))"
  obtain g2 where g2: "do { g \<leftarrow> copy_str dir (b + of_nat x1) p g; g \<leftarrow> store g dir (b + of_nat x1 + of_nat (length s)) 0;
      store_u32 g dir (b + of_nat y1) (b + of_nat x1) } = Some g2" "changes g g2 ?W"
    "load_u32 g2 dir (b + of_nat y1) = Some (b + of_nat x1)" "str_at g2 dir (b + of_nat x1) s"
    using place_one [OF Cons.prems(1) ps Cons.prems(3) off(3,4)] unfolding x1_def y1_def by blast
  note bl = changes_blocks [OF g2(2)]
  have inside: "x1 + Suc (length s) \<le> n" "y1 + 4 \<le> n" "x1 \<le> n" using off Cons.prems(3) by (simp_all add: x1_def y1_def)
  have W: "?W \<subseteq> block g dir b n" using stretch_inside [OF inside(1)] stretch_inside [OF inside(2)] by blast
  have clear: "\<forall>(p, s) \<in> set as. str_at g2 dir p s \<and> block g2 dir p (Suc (length s)) \<inter> block g2 dir b n = {}"
  proof clarify
    fix p s assume "(p, s) \<in> set as"
    then have h: "str_at g dir p s" "block g dir p (Suc (length s)) \<inter> block g dir b n = {}" using Cons.prems(2) by auto
    then have "block g dir p (Suc (length s)) \<inter> ?W = {}" using W by blast
    then show "str_at g2 dir p s \<and> block g2 dir p (Suc (length s)) \<inter> block g2 dir b n = {}"
      using str_at_kept [OF g2(2) h(1)] h(2) bl(1) by simp
  qed
  have pl: "plain g2 dir b n" using Cons.prems(1) bl by simp
  obtain g' where g': "place_args dir g2 (b + of_nat x1) (b + of_nat y1) (map fst as) = Some (g', b + of_nat (y1 - 4 * length as))"
    "changes g2 g' (block g dir (b + of_nat (y1 - 4 * length as)) (4 * length as) \<union> block g dir (b + of_nat (x1 - room as)) (room as))"
    "placed g' dir b x1 y1 as" using Cons.IH [OF pl clear inside(3) off(1,2)] unfolding bl(1) by blast
  let ?V = "block g dir (b + of_nat (y1 - 4 * length as)) (4 * length as) \<union> block g dir (b + of_nat (x1 - room as)) (room as)"
  have lay: "y1 - 4 * length as + 4 * length as \<le> y1" "y1 + 4 \<le> x1 - room as" "x1 - room as + room as = x1" "y1 + 4 \<le> x1"
    "y1 - 4 * length as + 4 * length as \<le> n" "x1 - room as + room as \<le> n"
    using off Cons.prems(5) inside(2) inside(3) by (auto simp: e x1_def y1_def)
  have d1: "block g dir (b + of_nat y1) 4 \<inter> ?V = {}"
    using stretch_disjoint [OF Cons.prems(1) inside(2) lay(5)] stretch_disjoint [OF Cons.prems(1) inside(2) lay(6)] lay(1,2) by blast
  have "y1 - 4 * length as + 4 * length as \<le> x1" using lay(1,4) by linarith
  then have d2: "block g dir (b + of_nat x1) (Suc (length s)) \<inter> ?V = {}"
    using stretch_disjoint [OF Cons.prems(1) inside(1) lay(5)] stretch_disjoint [OF Cons.prems(1) inside(1) lay(6)] lay(3) by auto
  have "load_u32 g' dir (b + of_nat y1) = Some (b + of_nat x1)" using load_u32_kept [OF g'(2) g2(3)] d1 bl(1) by simp
  moreover have "str_at g' dir (b + of_nat x1) s" using str_at_kept [OF g'(2) g2(4)] d2 bl(1) by simp
  ultimately have "placed g' dir b x y (e # as)" using g'(3) by (simp add: e Let_def x1_def y1_def)
  moreover have "changes g g' (block g dir (b + of_nat (y - 4 * length (e # as))) (4 * length (e # as)) \<union> block g dir (b + of_nat (x - room (e # as))) (room (e # as)))"
  proof (rule changes_trans [OF g2(2) g'(2)])
    have eq: "y - 4 * length (e # as) = y1 - 4 * length as" "x - room (e # as) = x1 - room as" by (simp_all add: e x1_def y1_def)
    have "block g dir (b + of_nat y1) 4 \<subseteq> block g dir (b + of_nat (y1 - 4 * length as)) (4 * length (e # as))"
      "block g dir (b + of_nat (y1 - 4 * length as)) (4 * length as) \<subseteq> block g dir (b + of_nat (y1 - 4 * length as)) (4 * length (e # as))"
      "block g dir (b + of_nat x1) (Suc (length s)) \<subseteq> block g dir (b + of_nat (x1 - room as)) (room (e # as))"
      "block g dir (b + of_nat (x1 - room as)) (room as) \<subseteq> block g dir (b + of_nat (x1 - room as)) (room (e # as))"
      by (rule stretch_part; use off lay in \<open>simp add: e\<close>)+
    then show "?W \<union> ?V \<subseteq> block g dir (b + of_nat (y - 4 * length (e # as))) (4 * length (e # as)) \<union> block g dir (b + of_nat (x - room (e # as))) (room (e # as))"
      unfolding eq by blast
  qed
  moreover have "place_args dir g (b + of_nat x) (b + of_nat y) (map fst (e # as)) = Some (g', b + of_nat (y - 4 * length (e # as)))"
  proof -
    have h: "b + of_nat x - (of_nat (length s) + 1) = b + of_nat x1" "b + of_nat y - 4 = b + of_nat y1"
      using step_back [of "length s" x b] step_back [of 3 y b] off(3,4) by (simp_all add: x1_def y1_def)
    obtain ga gb where st: "copy_str dir (b + of_nat x1) p g = Some ga" "store ga dir (b + of_nat x1 + of_nat (length s)) 0 = Some gb"
      "store_u32 gb dir (b + of_nat y1) (b + of_nat x1) = Some g2" using g2(1) by (auto split: Option.bind_splits)
    have "y - 4 * length (e # as) = y1 - 4 * length as" by (simp add: y1_def)
    then show ?thesis unfolding e list.map fst_conv place_args.simps str_at_load [OF ps(1)] Let_def Option.bind.bind_lunit h st g'(1) by simp
  qed
  ultimately show ?case by blast
qed

lemma placed_nth:
  assumes "placed g dir b x y as" and "k < length as" and "z + room as \<le> x" and "4 * length as \<le> y"
  shows "\<exists>q. load_u32 g dir (b + of_nat (y - 4 * Suc k)) = Some (b + of_nat q) \<and> str_at g dir (b + of_nat q) (snd (as ! k)) \<and>
    z \<le> q \<and> q + Suc (length (snd (as ! k))) \<le> x"
  using assms
proof (induction as arbitrary: x y k)
  case (Cons e as)
  obtain p s where e: "e = (p, s)" by (cases e)
  show ?case
  proof (cases k)
    case 0
    then show ?thesis using Cons.prems by (intro exI [of _ "x - Suc (length s)"]) (simp add: e Let_def)
  next
    case (Suc j)
    have "placed g dir b (x - Suc (length s)) (y - 4) as" "j < length as" "z + room as \<le> x - Suc (length s)" "4 * length as \<le> y - 4"
      using Cons.prems Suc by (simp_all add: e Let_def)
    from Cons.IH [OF this] obtain q where "load_u32 g dir (b + of_nat (y - 4 - 4 * Suc j)) = Some (b + of_nat q)"
      "str_at g dir (b + of_nat q) (snd (as ! j))" "z \<le> q" "q + Suc (length (snd (as ! j))) \<le> x - Suc (length s)" by blast
    moreover have "y - 4 - 4 * Suc j = y - 4 * Suc k" using Suc by simp
    ultimately show ?thesis using Suc by (intro exI [of _ q]) simp
  qed
qed simp

lemma args_at_strs: "args_at g dir argv as \<Longrightarrow> \<forall>(p, s) \<in> set as. str_at g dir p s"
proof (induction as arbitrary: argv)
  case (Cons e as)
  then show ?case using Cons.IH [of "argv + 4"] by (cases e) simp
qed simp

lemma align_down: "(a - a mod 64) mod 64 = (0 :: u32)"
proof -
  have "a mod 64 \<le> a" by (simp add: word_le_nat_alt unat_mod)
  then have "unat (a - a mod 64) = unat a - unat a mod 64" by (simp add: unat_sub unat_mod)
  then have "unat ((a - a mod 64) mod 64) = 0" by (simp add: unat_mod minus_mod_eq_mult_div [symmetric])
  then show ?thesis by (metis unat_0 word_eq_by_unat)
qed

lemma store_word_kept:
  assumes "plain g dir b n" and "i + 4 \<le> m" and "m \<le> n" and "store_u32 g dir (b + of_nat i) w = Some g'"
  shows "changes g g' (block g dir b m) \<and> load_u32 g' dir (b + of_nat i) = Some w \<and> changes g g' (block g dir (b + of_nat i) 4)"
proof -
  have "plain g dir (b + of_nat i) 4" using plain_part [OF assms(1)] assms(2,3) by simp
  then obtain g1 where g1: "store_u32 g dir (b + of_nat i) w = Some g1" "changes g g1 (block g dir (b + of_nat i) 4)"
    "load_u32 g1 dir (b + of_nat i) = Some w"
    using store_changes [of g dir "b + of_nat i" "u32_bytes w"] load_u32_bytes by (auto simp: store_u32_def)
  have "changes g g1 (block g dir b m)" using changes_trans [OF changes_refl g1(2), of "{}"] stretch_inside [OF assms(2)] by simp
  then show ?thesis using g1 assms(4) by simp
qed

lemma store_two_words:
  assumes "plain g dir b n" and "i + 4 \<le> j" and "j + 4 \<le> m" and "m \<le> n"
  shows "\<exists>g1 g2. store_u32 g dir (b + of_nat i) v = Some g1 \<and> store_u32 g1 dir (b + of_nat j) w = Some g2 \<and>
    changes g g2 (block g dir b m) \<and> load_u32 g2 dir (b + of_nat i) = Some v \<and> load_u32 g2 dir (b + of_nat j) = Some w"
proof -
  have ij: "i + 4 \<le> m" "i + 4 \<le> n" "j + 4 \<le> n" using assms(2-4) by simp_all
  have "plain g dir (b + of_nat i) (length (u32_bytes v))" using plain_part [OF assms(1) ij(2)] by simp
  then obtain g1 where s1: "store_u32 g dir (b + of_nat i) v = Some g1" using store_changes by (fastforce simp: store_u32_def)
  note g1 = store_word_kept [OF assms(1) ij(1) assms(4) s1]
  have p1: "plain g1 dir b n" using assms(1) changes_blocks(2) [OF conjunct1 [OF g1]] by simp
  have "plain g1 dir (b + of_nat j) (length (u32_bytes w))" using plain_part [OF p1 ij(3)] by simp
  then obtain g2 where s2: "store_u32 g1 dir (b + of_nat j) w = Some g2" using store_changes by (fastforce simp: store_u32_def)
  note g2 = store_word_kept [OF p1 assms(3,4) s2]
  have bl: "block g1 = block g" using changes_blocks(1) [OF conjunct1 [OF g1]] by simp
  have "changes g g2 (block g dir b m)" using changes_trans [OF conjunct1 [OF g1] conjunct1 [OF g2]] unfolding bl by simp
  moreover have "load_u32 g2 dir (b + of_nat i) = Some v"
  proof (rule load_u32_kept [OF conjunct2 [OF conjunct2 [OF g2]] conjunct1 [OF conjunct2 [OF g1]]])
    show "block g1 dir (b + of_nat i) 4 \<inter> block g1 dir (b + of_nat j) 4 = {}"
      by (rule stretch_disjoint [OF p1]) (use ij assms(2) in linarith)+
  qed
  ultimately show ?thesis using s1 s2 g2 by blast
qed

text \<open>What is stored below the placed arguments does not change them.\<close>

lemma placed_read:
  assumes "placed g dir b n y (rev as)" and "plain g dir b n" and "changes g g' (block g dir b m)"
    and "y = 4 * length as + m" and "y + room (rev as) \<le> n" and "i < length as"
  shows "\<exists>q. load_u32 g' dir (b + of_nat m + 4 * of_nat i) = Some q \<and> load_str g' dir q = Some (snd (as ! i))"
proof -
  have high: "block g dir (b + of_nat j) l \<inter> block g dir b m = {}" if "m \<le> j" "j + l \<le> n" for j l
    using stretch_disjoint [OF assms(2) that(2), of 0 m] that by simp
  have k: "length as - Suc i < length (rev as)" "y - 4 * Suc (length as - Suc i) = m + 4 * i" "rev as ! (length as - Suc i) = as ! i"
    "4 * length (rev as) \<le> y" using assms(4,6) by (simp_all add: rev_nth)
  obtain q where q: "load_u32 g dir (b + of_nat (m + 4 * i)) = Some (b + of_nat q)" "str_at g dir (b + of_nat q) (snd (as ! i))"
    "y \<le> q" "q + Suc (length (snd (as ! i))) \<le> n" using placed_nth [OF assms(1) k(1) assms(5) k(4)] k(2,3) by auto
  have "m + 4 * i + 4 \<le> n" using assms(4-6) by simp
  then have "block g dir (b + of_nat (m + 4 * i)) 4 \<inter> block g dir b m = {}" by (intro high) simp_all
  then have "load_u32 g' dir (b + of_nat (m + 4 * i)) = Some (b + of_nat q)" by (rule load_u32_kept [OF assms(3) q(1)])
  moreover have "str_at g' dir (b + of_nat q) (snd (as ! i))" using str_at_kept [OF assms(3) q(2)] high q(3,4) assms(4) by simp
  ultimately show ?thesis using str_at_load by (intro exI [of _ "b + of_nat q"]) (simp add: add.assoc)
qed

text \<open>C12. When the arguments of \<open>exec\<close> are strings that lie outside the new stack, \<open>place_args_vector\<close> leaves an aligned
  stack pointer with the number of arguments 4 bytes above it and 8 bytes above it the address of an array
  with the addresses of copies of all the strings, in order.\<close>

theorem exec_arguments:
  assumes "args_at g dir argv as" and "n = room as + 4 * length as + 75" and "plain g dir (stack_end - of_nat n) n"
    and "\<forall>(p, s) \<in> set as. block g dir p (Suc (length s)) \<inter> block g dir (stack_end - of_nat n) n = {}"
  shows "\<exists>g' sp v. place_args_vector dir g argv stack_end = Some (g', sp) \<and> sp mod 64 = 0 \<and>
    load_u32 g' dir (sp + 4) = Some (of_nat (length as)) \<and> load_u32 g' dir (sp + 8) = Some v \<and>
    (\<forall>i < length as. \<exists>q. load_u32 g' dir (v + 4 * of_nat i) = Some q \<and> load_str g' dir q = Some (snd (as ! i)))"
proof -
  let ?b = "stack_end - of_nat n :: u32" and ?k = "length as" and ?y = "4 * length as + 75"
  have strs: "\<forall>(p, s) \<in> set as. str_at g dir p s" using args_at_strs [OF assms(1)] .
  have clear: "\<forall>(p, s) \<in> set (rev as). str_at g dir p s \<and> block g dir p (Suc (length s)) \<inter> block g dir ?b n = {}"
    using strs assms(4) by fastforce
  have lay: "n \<le> n" "4 * length (rev as) \<le> ?y" "?y + room (rev as) \<le> n" using assms(2) by simp_all
  obtain g1 where g1: "place_args dir g (?b + of_nat n) (?b + of_nat ?y) (map fst (rev as)) = Some (g1, ?b + of_nat (?y - 4 * length (rev as)))"
    "changes g g1 (block g dir (?b + of_nat (?y - 4 * length (rev as))) (4 * length (rev as)) \<union> block g dir (?b + of_nat (n - room (rev as))) (room (rev as)))"
    "placed g1 dir ?b n ?y (rev as)" using place_args_ok [OF assms(3) clear lay] by blast
  have y: "?y - 4 * length (rev as) = 75" by simp
  let ?e = "stack_end - 8 - 4 * (of_nat ?k + 1) - of_nat (room as)"
  define r where "r = unat (?e mod 64)"
  have r: "r < 64" by (simp add: r_def unat_mod)
  have "w = of_nat (unat w)" for w :: u32 by simp
  then have r': "?e mod 64 = of_nat r" unfolding r_def .
  have "?e = ?b + 63" by (simp add: assms(2) algebra_simps)
  then have "?e - ?e mod 64 = ?b + 63 - of_nat r" unfolding r' by (rule arg_cong)
  moreover have "?b + 63 - of_nat r = ?b + of_nat (63 - r)" using r by (simp add: of_nat_diff algebra_simps)
  ultimately have sp: "?e - ?e mod 64 = ?b + of_nat (63 - r)" by (rule trans)
  have p1: "plain g1 dir ?b n" using assms(3) changes_blocks(2) [OF g1(2)] by simp
  have i4: "63 - r + 4 + 4 \<le> 63 - r + 8" "63 - r + 8 + 4 \<le> 75" "75 \<le> n" using assms(2) by simp_all
  have at: "?b + of_nat (63 - r) + 4 = ?b + of_nat (63 - r + 4)" "?b + of_nat (63 - r) + 8 = ?b + of_nat (63 - r + 8)" by (simp_all add: add.assoc)
  obtain g2 g3 where g3: "store_u32 g1 dir (?b + of_nat (63 - r + 4)) (of_nat ?k) = Some g2"
    "store_u32 g2 dir (?b + of_nat (63 - r + 8)) (?b + of_nat 75) = Some g3" "changes g1 g3 (block g1 dir ?b 75)"
    "load_u32 g3 dir (?b + of_nat (63 - r + 4)) = Some (of_nat ?k)" "load_u32 g3 dir (?b + of_nat (63 - r + 8)) = Some (?b + of_nat 75)"
    using store_two_words [OF p1 i4] by blast
  have "\<forall>i < ?k. \<exists>q. load_u32 g3 dir (?b + of_nat 75 + 4 * of_nat i) = Some q \<and> load_str g3 dir q = Some (snd (as ! i))"
    using placed_read [OF g1(3) p1 g3(3) refl lay(3)] by blast
  moreover have "place_args_vector dir g argv stack_end = Some (g3, ?b + of_nat (63 - r))"
  proof -
    have c: "collect_args g dir argv [] 0 = Some (map fst as, of_nat (room as))" using collect_args_ok [OF assms(1), of "[]" 0] by simp
    have p: "place_args dir g stack_end (stack_end - of_nat (room as)) (rev (map fst as)) = Some (g1, ?b + of_nat 75)"
      using g1(1) y by (simp add: rev_map assms(2) algebra_simps)
    show ?thesis unfolding place_args_vector_def Let_def
      by (simp only: c p sp at g3(1,2) Option.bind.bind_lunit prod.case length_map)
  qed
  moreover have "(?b + of_nat (63 - r)) mod 64 = 0" using align_down [of ?e] unfolding sp .
  ultimately show ?thesis using g3(4,5) unfolding at [symmetric]
    by (intro exI [of _ g3] exI [of _ "?b + of_nat (63 - r)"] exI [of _ "?b + of_nat 75"] conjI)
qed

definition argument_memory :: mem where
  "argument_memory = (\<lambda>_. 0)(0x5064 := 104, 0x5065 := 105, 0x50C8 := 0x64)"

lemma argument_memory_args: "args_at (one_page argument_memory) 0x1000 200 [(100, [104, 105])]"
  by code_simp

theorem exec_arguments_witness:
  "\<exists>g' sp v. place_args_vector 0x1000 (one_page argument_memory) 200 4096 = Some (g', sp) \<and> sp mod 64 = 0 \<and>
    load_u32 g' 0x1000 (sp + 4) = Some 1 \<and> load_u32 g' 0x1000 (sp + 8) = Some v \<and>
    (\<exists>q. load_u32 g' 0x1000 v = Some q \<and> load_str g' 0x1000 q = Some [104, 105])"
proof -
  let ?g = "one_page argument_memory"
  have b: "(4096 - of_nat 82 :: u32) = of_nat 4014" "(100 :: u32) = of_nat 100" by simp_all
  have "plain ?g 0x1000 (4096 - of_nat 82) 82" unfolding b(1) by (rule one_page_part) simp
  moreover have "apart ?g 0x1000 100 3 0x1000 (4096 - of_nat 82) 82" unfolding b by (rule one_page_apart) simp_all
  then have "block ?g 0x1000 100 3 \<inter> block ?g 0x1000 (4096 - of_nat 82) 82 = {}" unfolding block_def apart_def by (auto; metis)
  ultimately show ?thesis using exec_arguments [OF argument_memory_args, of 82 4096] by (simp add: numeral_2_eq_2 numeral_3_eq_3)
qed

end
