(* ===== verification/Uheap.thy ===== *)
theory Uheap
  imports Heapmem Util
begin

text \<open>
  The heap of a user program: \<open>src/user/alloc.c\<close> with the data of \<open>alloc-internal.h\<close>, and \<open>malloc\<close>, \<open>free\<close> and
  \<open>realloc\<close> of \<open>src/user/stdlib.c\<close>. The blocks lie one behind the other from \<open>root\<close> to the break, each with
  a header of 16 bytes in front; the free ones are on a list in both directions.
\<close>

subsection \<open>Headers\<close>

text \<open>\<open>sizeof(object_header)\<close> on a 32-bit machine: the size, a byte and three of padding, and two pointers.\<close>

definition word_size :: u32 where "word_size = 4"
definition header_size :: u32 where "header_size = 16"

definition object_header_get_size :: "mem \<Rightarrow> u32 \<Rightarrow> u32" where
  "object_header_get_size m o_head = load_u32 m o_head"

definition object_header_set_size :: "mem \<Rightarrow> u32 \<Rightarrow> u32 \<Rightarrow> mem" where
  "object_header_set_size m o_head v = store_u32 m o_head v"

definition object_header_get_used :: "mem \<Rightarrow> u32 \<Rightarrow> u8" where
  "object_header_get_used m o_head = m (o_head + 4)"

definition object_header_set_used :: "mem \<Rightarrow> u32 \<Rightarrow> u8 \<Rightarrow> mem" where
  "object_header_set_used m o_head flag = m(o_head + 4 := flag)"

definition next_free :: "mem \<Rightarrow> u32 \<Rightarrow> u32" where
  "next_free m o_head = load_u32 m (o_head + 8)"

definition set_next_free :: "mem \<Rightarrow> u32 \<Rightarrow> u32 \<Rightarrow> mem" where
  "set_next_free m o_head v = store_u32 m (o_head + 8) v"

definition prev_free :: "mem \<Rightarrow> u32 \<Rightarrow> u32" where
  "prev_free m o_head = load_u32 m (o_head + 12)"

definition set_prev_free :: "mem \<Rightarrow> u32 \<Rightarrow> u32 \<Rightarrow> mem" where
  "set_prev_free m o_head v = store_u32 m (o_head + 12) v"

text \<open>A new header, put at an address.\<close>

definition object_header_new :: "mem \<Rightarrow> u32 \<Rightarrow> u32 \<Rightarrow> mem" where
  "object_header_new m o_head sz =
     (let m = object_header_set_size m o_head sz;
          m = object_header_set_used m o_head 1;
          m = set_next_free m o_head 0
      in set_prev_free m o_head 0)"

definition object_header_next :: "mem \<Rightarrow> u32 \<Rightarrow> u32" where
  "object_header_next m o_head =
     o_head + word_size * (object_header_get_size m o_head div word_size + header_size div word_size)"

definition object_header_from_pointer :: "u32 \<Rightarrow> u32" where
  "object_header_from_pointer p = p - header_size"

definition object_header_get_pointer :: "u32 \<Rightarrow> u32" where
  "object_header_get_pointer o_head = o_head + header_size"

definition object_header_merge :: "mem \<Rightarrow> u32 \<Rightarrow> mem" where
  "object_header_merge m o_head =
     (let next = object_header_next m o_head;
          new_size = object_header_get_size m o_head + object_header_get_size m next + header_size
      in object_header_set_size m o_head new_size)"

subsection \<open>The heap\<close>

record uheap =
  umem :: mem
  root :: u32
  total :: u32
  ubrk :: u32
  ufree :: u32

definition heap_new :: "mem \<Rightarrow> u32 \<Rightarrow> u32 \<Rightarrow> uheap" where
  "heap_new m pointer sz = \<lparr>umem = m, root = pointer, total = sz, ubrk = 0, ufree = 0\<rparr>"

definition alignment :: "u32 \<Rightarrow> u32 \<Rightarrow> u32" where
  "alignment sz align =
     (if align = 0 then sz
      else let md = (ucast (sz mod align) :: u8);
               c = sz - ucast md
           in if md \<noteq> 0 then c + align else c)"

definition heap_touched_memory :: "uheap \<Rightarrow> u32" where
  "heap_touched_memory h = ubrk h"

definition heap_total_memory :: "uheap \<Rightarrow> u32" where
  "heap_total_memory h = total h"

definition heap_untouched_memory :: "uheap \<Rightarrow> u32" where
  "heap_untouched_memory h = heap_total_memory h - heap_touched_memory h"

definition heap_end :: "uheap \<Rightarrow> u32" where
  "heap_end h = root h + word_size * (ubrk h div word_size)"

definition object_header_is_null :: "uheap \<Rightarrow> u32 \<Rightarrow> bool" where
  "object_header_is_null h o_head \<longleftrightarrow> o_head \<ge> root h + word_size * (ubrk h div word_size)"

definition heap_is_end :: "uheap \<Rightarrow> u32 \<Rightarrow> bool" where
  "heap_is_end h header \<longleftrightarrow>
     header + header_size + word_size * (object_header_get_size (umem h) header div word_size) = heap_end h"

partial_function (option) used_memory_from :: "uheap \<Rightarrow> u32 \<Rightarrow> u32 \<Rightarrow> u32 option" where
  "used_memory_from h beg acc =
     (if object_header_is_null h beg then Some acc
      else let acc = (if object_header_get_used (umem h) beg \<noteq> 0 then acc + object_header_get_size (umem h) beg else acc)
           in used_memory_from h (object_header_next (umem h) beg) (acc + header_size))"

definition heap_used_memory :: "uheap \<Rightarrow> u32 option" where
  "heap_used_memory h = used_memory_from h (root h) 0"

definition heap_free_memory :: "uheap \<Rightarrow> u32 option" where
  "heap_free_memory h = map_option (\<lambda>u. heap_total_memory h - u) (heap_used_memory h)"

subsection \<open>The list of free blocks\<close>

definition heap_add_free :: "uheap \<Rightarrow> u32 \<Rightarrow> uheap" where
  "heap_add_free h header =
     (let m = set_next_free (umem h) header (ufree h);
          m = set_prev_free m header 0;
          m = (if ufree h \<noteq> 0 then set_prev_free m (ufree h) header else m)
      in h\<lparr>umem := m, ufree := header\<rparr>)"

definition heap_remove_free :: "uheap \<Rightarrow> u32 \<Rightarrow> uheap" where
  "heap_remove_free h header =
     (let next = next_free (umem h) header;
          prev = prev_free (umem h) header;
          m = (if next \<noteq> 0 then set_prev_free (umem h) next prev else umem h);
          m = (if prev \<noteq> 0 then set_next_free m prev next else m);
          m = set_prev_free m header 0;
          m = set_next_free m header 0
      in h\<lparr>umem := m, ufree := (if ufree h = header then next else ufree h)\<rparr>)"

text \<open>The part of a block behind \<open>size\<close> bytes becomes a free block, or goes back behind the break.\<close>

definition object_header_try_split :: "uheap \<Rightarrow> u32 \<Rightarrow> u32 \<Rightarrow> uheap" where
  "object_header_try_split h o_head sz =
     (let current_size = object_header_get_size (umem h) o_head
      in if heap_is_end h o_head
         then if sz < current_size
              then let rem_size = current_size - sz
                   in h\<lparr>ubrk := ubrk h - rem_size, umem := object_header_set_size (umem h) o_head sz\<rparr>
              else h
         else if sz + header_size < current_size
              then let rem_size = current_size - sz - header_size;
                       m = object_header_set_size (umem h) o_head sz;
                       next = object_header_next m o_head;
                       m = object_header_new m next rem_size;
                       m = object_header_set_used m next 0
                   in heap_add_free (h\<lparr>umem := m\<rparr>) next
              else h)"

subsection \<open>Looking for a block\<close>

partial_function (option) first_fit_from :: "mem \<Rightarrow> u32 \<Rightarrow> u32 \<Rightarrow> u32 option" where
  "first_fit_from m block sz =
     (if block = 0 then Some 0
      else if object_header_get_size m block \<ge> sz then Some block
      else first_fit_from m (next_free m block) sz)"

definition heap_find_first_fit :: "uheap \<Rightarrow> u32 \<Rightarrow> u32 option" where
  "heap_find_first_fit h sz = first_fit_from (umem h) (ufree h) sz"

text \<open>The loop of \<open>heap_find_best_fit\<close>: a block that is too small grows when it is the last one, and takes in its
  neighbour when that is free.\<close>

partial_function (option) best_fit_from :: "uheap \<Rightarrow> u32 \<Rightarrow> u32 \<Rightarrow> u32 \<Rightarrow> (uheap \<times> u32) option" where
  "best_fit_from h best block sz =
     (if block = 0 then Some (h, best)
      else let m = umem h; block_size = object_header_get_size m block
      in if block_size \<ge> sz
         then if block_size = sz then Some (h, block)
              else let best = (if best = 0 \<or> block_size < object_header_get_size m best then block else best)
                   in best_fit_from h best (next_free m block) sz
         else if heap_is_end h block
         then let needed_size = sz - block_size
              in if heap_untouched_memory h \<ge> needed_size
                 then Some (h\<lparr>ubrk := ubrk h + needed_size, umem := object_header_set_size m block sz\<rparr>, block)
                 else best_fit_from h best (next_free m block) sz
         else let next = object_header_next m block
              in if \<not> object_header_is_null h next \<and> object_header_get_used m next = 0
                 then best_fit_from (heap_remove_free (h\<lparr>umem := object_header_merge m block\<rparr>) next) best block sz
                 else best_fit_from h best (next_free m block) sz)"

definition heap_find_best_fit :: "uheap \<Rightarrow> u32 \<Rightarrow> (uheap \<times> u32) option" where
  "heap_find_best_fit h sz = best_fit_from h 0 (ufree h) sz"

text \<open>\<open>BLOCK_FINDER\<close> is \<open>BEST_FIT\<close>.\<close>

definition heap_find_block :: "uheap \<Rightarrow> u32 \<Rightarrow> (uheap \<times> u32) option" where
  "heap_find_block h sz = heap_find_best_fit h sz"

subsection \<open>Taking and giving back\<close>

definition heap_alloc :: "uheap \<Rightarrow> u32 \<Rightarrow> u32 \<Rightarrow> (uheap \<times> u32) option" where
  "heap_alloc h sz align =
     (if sz = 0 then Some (h, 0)
      else do {
        let sz = alignment sz align;
        (h, block) \<leftarrow> heap_find_block h sz;
        if block \<noteq> 0 then
          let h = object_header_try_split h block sz;
              h = h\<lparr>umem := object_header_set_used (umem h) block 1\<rparr>;
              h = heap_remove_free h block
          in Some (h, object_header_get_pointer block)
        else if sz + header_size > heap_untouched_memory h then Some (h, 0)
        else
          let e = heap_end h
          in Some (h\<lparr>umem := object_header_new (umem h) e sz, ubrk := ubrk h + (header_size + sz)\<rparr>, object_header_get_pointer e)
      })"

definition heap_dealloc :: "uheap \<Rightarrow> u32 \<Rightarrow> uheap" where
  "heap_dealloc h pointer =
     (let header = object_header_from_pointer pointer
      in heap_add_free (h\<lparr>umem := object_header_set_used (umem h) header 0\<rparr>) header)"

definition heap_expand :: "uheap \<Rightarrow> u32 \<Rightarrow> uheap" where
  "heap_expand h sz = h\<lparr>total := total h + sz\<rparr>"

text \<open>The loop of \<open>heap_realloc\<close>, with whether the block has become large enough; the neighbours it takes in stay
  on the list of free blocks.\<close>

partial_function (option) realloc_grow :: "uheap \<Rightarrow> u32 \<Rightarrow> u32 \<Rightarrow> (uheap \<times> bool) option" where
  "realloc_grow h header sz =
     (let m = umem h; current_size = object_header_get_size m header; next = object_header_next m header
      in if current_size \<ge> sz then Some (h, True)
         else if object_header_get_used m next = 0 then realloc_grow (h\<lparr>umem := object_header_merge m header\<rparr>) header sz
         else Some (h, False))"

partial_function (option) heap_realloc :: "uheap \<Rightarrow> u32 \<Rightarrow> u32 \<Rightarrow> u32 \<Rightarrow> (uheap \<times> u32) option" where
  "heap_realloc h pointer sz align =
     (if sz = 0 then Some (heap_dealloc h pointer, 0)
      else let sz = alignment sz align;
               header = object_header_from_pointer pointer;
               current_size = object_header_get_size (umem h) header
      in if sz = current_size then Some (h, pointer)
         else if sz < current_size then Some (object_header_try_split h header sz, pointer)
         else do {
           (h, large) \<leftarrow> realloc_grow h header sz;
           if large then heap_realloc h pointer sz align
           else do {
             (h, new_block) \<leftarrow> heap_alloc h sz align;
             if new_block = 0 then Some (h, 0)
             else
               let h = h\<lparr>umem := memcpy (umem h) pointer new_block current_size\<rparr>
               in Some (heap_dealloc h pointer, new_block)
           }
         })"

subsection \<open>The calls of the library\<close>

text \<open>The globals of \<open>stdlib.c\<close> and the end of the memory the program has from the kernel.\<close>

record ulib =
  uheap_of :: uheap
  heap_size :: u32
  prog_end :: u32

definition sbrk :: "ulib \<Rightarrow> u32 \<Rightarrow> ulib" where
  "sbrk l offset = l\<lparr>prog_end := prog_end l + offset\<rparr>"

definition heap_beg :: "u32 \<Rightarrow> u32" where
  "heap_beg end_ptr = (if end_ptr mod 0x1000 \<noteq> 0 then (end_ptr AND 0xfffff000) + 0x1000 else end_ptr)"

text \<open>What \<open>startup\<close> does before it runs \<open>fmain\<close>; \<open>end_ptr\<close> is the end of the program file in memory.\<close>

definition startup :: "mem \<Rightarrow> u32 \<Rightarrow> u32 \<Rightarrow> ulib" where
  "startup m end_ptr e =
     (let l = sbrk \<lparr>uheap_of = heap_new m 0 0, heap_size = 1024, prog_end = e\<rparr> 1024
      in l\<lparr>uheap_of := heap_new m (heap_beg end_ptr) (heap_size l)\<rparr>)"

partial_function (option) malloc_loop :: "ulib \<Rightarrow> u32 \<Rightarrow> u32 \<Rightarrow> (ulib \<times> u32) option" where
  "malloc_loop l sz ptr =
     (if sz \<noteq> 0 \<and> ptr = 0 then do {
        let l = sbrk l (heap_size l);
        let l = l\<lparr>uheap_of := heap_expand (uheap_of l) (heap_size l), heap_size := heap_size l * 2\<rparr>;
        (h, ptr) \<leftarrow> heap_alloc (uheap_of l) sz 4;
        malloc_loop (l\<lparr>uheap_of := h\<rparr>) sz ptr
      } else Some (l, ptr))"

definition malloc :: "ulib \<Rightarrow> u32 \<Rightarrow> (ulib \<times> u32) option" where
  "malloc l sz = do {
     (h, ptr) \<leftarrow> heap_alloc (uheap_of l) sz 4;
     malloc_loop (l\<lparr>uheap_of := h\<rparr>) sz ptr
   }"

definition free :: "ulib \<Rightarrow> u32 \<Rightarrow> ulib" where
  "free l ptr = l\<lparr>uheap_of := heap_dealloc (uheap_of l) ptr\<rparr>"

partial_function (option) realloc_loop :: "ulib \<Rightarrow> u32 \<Rightarrow> u32 \<Rightarrow> u32 \<Rightarrow> (ulib \<times> u32) option" where
  "realloc_loop l ptr sz new_ptr =
     (if sz \<noteq> 0 \<and> new_ptr = 0 then do {
        let l = sbrk l (heap_size l);
        let l = l\<lparr>heap_size := heap_size l * 2\<rparr>;
        (h, new_ptr) \<leftarrow> heap_realloc (uheap_of l) ptr sz 4;
        realloc_loop (l\<lparr>uheap_of := h\<rparr>) ptr sz new_ptr
      } else Some (l, new_ptr))"

definition realloc :: "ulib \<Rightarrow> u32 \<Rightarrow> u32 \<Rightarrow> (ulib \<times> u32) option" where
  "realloc l ptr sz = do {
     (h, new_ptr) \<leftarrow> heap_realloc (uheap_of l) ptr sz 4;
     realloc_loop (l\<lparr>uheap_of := h\<rparr>) ptr sz new_ptr
   }"

declare used_memory_from.simps [code] first_fit_from.simps [code] best_fit_from.simps [code] realloc_grow.simps [code]
  heap_realloc.simps [code] malloc_loop.simps [code] realloc_loop.simps [code]

end
