(* ===== verification/Uheapinv.thy ===== *)
theory Uheapinv
  imports Uheap
begin

text \<open>
  What the heap of a user program looks like: its blocks fill the memory from \<open>root\<close> to the break, and the free
  ones are the nodes of a list in both directions.
\<close>

subsection \<open>Headers that lie apart\<close>

definition hdr_apart :: "u32 \<Rightarrow> u32 \<Rightarrow> bool" where
  "hdr_apart p q \<longleftrightarrow> (\<forall>i < 16. \<forall>k < 16. p + of_nat i \<noteq> q + of_nat k)"

lemma hdr_apart_sym: "hdr_apart p q \<Longrightarrow> hdr_apart q p"
  by (metis hdr_apart_def)

lemma hdr_apart_below:
  assumes "unat p + 16 \<le> unat q" and "unat q + 16 \<le> 4294967296"
  shows "hdr_apart p q" and "hdr_apart q p"
proof -
  have "unat (p + of_nat i) = unat p + i" "unat (q + of_nat i) = unat q + i" if "i < 16" for i
    using that assms by (simp_all add: unat_add_of_nat)
  then show "hdr_apart p q" unfolding hdr_apart_def word_eq_by_unat using assms(1) by auto
  then show "hdr_apart q p" by (rule hdr_apart_sym)
qed

text \<open>A field is read from, and written to, the bytes of the header only.\<close>

lemma store_far: "\<forall>i < 4. x \<noteq> a + of_nat i \<Longrightarrow> store_u32 m a v x = m x"
proof -
  assume x: "\<forall>i < 4. x \<noteq> a + of_nat i"
  have "x = a + of_nat (unat (x - a))" by simp
  then have "\<not> unat (x - a) < 4" using x by blast
  then show ?thesis by (simp add: store_u32_def)
qed

lemma far_part:
  assumes "\<forall>i < 16. x \<noteq> p + of_nat i" and "k + n \<le> 16"
  shows "\<forall>i < n. x \<noteq> p + of_nat k + of_nat i"
proof (intro allI impI)
  fix i assume "i < n"
  then have "x \<noteq> p + of_nat (k + i)" using assms by (metis add_less_cancel_left less_le_trans)
  then show "x \<noteq> p + of_nat k + of_nat i" by (simp add: add.assoc)
qed

lemma set_field_far:
  assumes "\<forall>i < 16. x \<noteq> p + of_nat i"
  shows "object_header_set_size m p v x = m x" and "object_header_set_used m p u x = m x"
    and "set_next_free m p v x = m x" and "set_prev_free m p v x = m x"
  using store_far [OF far_part [OF assms, of 0 4]] store_far [OF far_part [OF assms, of 8 4]]
    store_far [OF far_part [OF assms, of 12 4]] assms [rule_format, of 4]
  by (simp_all add: object_header_set_size_def object_header_set_used_def set_next_free_def set_prev_free_def)

lemma get_field_cong:
  assumes "\<forall>i < 16. m' (q + of_nat i) = m (q + of_nat i)"
  shows "object_header_get_size m' q = object_header_get_size m q" and "object_header_get_used m' q = object_header_get_used m q"
    and "next_free m' q = next_free m q" and "prev_free m' q = prev_free m q"
proof -
  note b = assms [rule_format]
  show "object_header_get_size m' q = object_header_get_size m q" using b [of 0] b [of 1] b [of 2] b [of 3]
    by (simp add: object_header_get_size_def load_u32_def)
  show "object_header_get_used m' q = object_header_get_used m q" using b [of 4] by (simp add: object_header_get_used_def)
  show "next_free m' q = next_free m q" using b [of 8] b [of 9] b [of 10] b [of 11]
    by (simp add: next_free_def load_u32_def add.assoc)
  show "prev_free m' q = prev_free m q" using b [of 12] b [of 13] b [of 14] b [of 15]
    by (simp add: prev_free_def load_u32_def add.assoc)
qed

lemma field_apart [simp]:
  assumes "hdr_apart p q"
  shows "object_header_get_size (object_header_set_size m p v) q = object_header_get_size m q"
    and "object_header_get_size (object_header_set_used m p u) q = object_header_get_size m q"
    and "object_header_get_size (set_next_free m p v) q = object_header_get_size m q"
    and "object_header_get_size (set_prev_free m p v) q = object_header_get_size m q"
    and "object_header_get_used (object_header_set_size m p v) q = object_header_get_used m q"
    and "object_header_get_used (object_header_set_used m p u) q = object_header_get_used m q"
    and "object_header_get_used (set_next_free m p v) q = object_header_get_used m q"
    and "object_header_get_used (set_prev_free m p v) q = object_header_get_used m q"
    and "next_free (object_header_set_size m p v) q = next_free m q"
    and "next_free (object_header_set_used m p u) q = next_free m q"
    and "next_free (set_next_free m p v) q = next_free m q"
    and "next_free (set_prev_free m p v) q = next_free m q"
    and "prev_free (object_header_set_size m p v) q = prev_free m q"
    and "prev_free (object_header_set_used m p u) q = prev_free m q"
    and "prev_free (set_next_free m p v) q = prev_free m q"
    and "prev_free (set_prev_free m p v) q = prev_free m q"
proof -
  have far: "\<forall>i < 16. x \<noteq> p + of_nat i" if "x = q + of_nat k" "k < 16" for x k
    using assms that unfolding hdr_apart_def by metis
  have "\<forall>k < 16. object_header_set_size m p v (q + of_nat k) = m (q + of_nat k)" "\<forall>k < 16. object_header_set_used m p u (q + of_nat k) = m (q + of_nat k)"
    "\<forall>k < 16. set_next_free m p v (q + of_nat k) = m (q + of_nat k)" "\<forall>k < 16. set_prev_free m p v (q + of_nat k) = m (q + of_nat k)"
    using set_field_far [OF far [OF refl]] by blast+
  note c = this [THEN get_field_cong(1)] this [THEN get_field_cong(2)] this [THEN get_field_cong(3)] this [THEN get_field_cong(4)]
  show "object_header_get_size (object_header_set_size m p v) q = object_header_get_size m q"
    "object_header_get_size (object_header_set_used m p u) q = object_header_get_size m q"
    "object_header_get_size (set_next_free m p v) q = object_header_get_size m q"
    "object_header_get_size (set_prev_free m p v) q = object_header_get_size m q"
    "object_header_get_used (object_header_set_size m p v) q = object_header_get_used m q"
    "object_header_get_used (object_header_set_used m p u) q = object_header_get_used m q"
    "object_header_get_used (set_next_free m p v) q = object_header_get_used m q"
    "object_header_get_used (set_prev_free m p v) q = object_header_get_used m q"
    "next_free (object_header_set_size m p v) q = next_free m q"
    "next_free (object_header_set_used m p u) q = next_free m q"
    "next_free (set_next_free m p v) q = next_free m q"
    "next_free (set_prev_free m p v) q = next_free m q"
    "prev_free (object_header_set_size m p v) q = prev_free m q"
    "prev_free (object_header_set_used m p u) q = prev_free m q"
    "prev_free (set_next_free m p v) q = prev_free m q"
    "prev_free (set_prev_free m p v) q = prev_free m q" by (fact c)+
qed

lemma field_same [simp]:
  "object_header_get_size (object_header_set_size m p v) p = v"
  "object_header_get_size (object_header_set_used m p u) p = object_header_get_size m p"
  "object_header_get_size (set_next_free m p v) p = object_header_get_size m p"
  "object_header_get_size (set_prev_free m p v) p = object_header_get_size m p"
  "object_header_get_used (object_header_set_size m p v) p = object_header_get_used m p"
  "object_header_get_used (object_header_set_used m p u) p = u"
  "object_header_get_used (set_next_free m p v) p = object_header_get_used m p"
  "object_header_get_used (set_prev_free m p v) p = object_header_get_used m p"
  "next_free (object_header_set_size m p v) p = next_free m p"
  "next_free (object_header_set_used m p u) p = next_free m p"
  "next_free (set_next_free m p v) p = v"
  "next_free (set_prev_free m p v) p = next_free m p"
  "prev_free (object_header_set_size m p v) p = prev_free m p"
  "prev_free (object_header_set_used m p u) p = prev_free m p"
  "prev_free (set_next_free m p v) p = prev_free m p"
  "prev_free (set_prev_free m p v) p = v"
  unfolding object_header_get_size_def object_header_set_size_def object_header_get_used_def object_header_set_used_def
    next_free_def set_next_free_def prev_free_def set_prev_free_def
  by (simp_all add: load_store_same) (simp_all add: load_u32_def store_u32_def add.assoc unsigned_minus_1_eq_mask mask_eq_exp_minus_1)

subsection \<open>Blocks one behind the other\<close>

abbreviation usize :: "mem \<Rightarrow> u32 \<Rightarrow> u32" where
  "usize \<equiv> object_header_get_size"

abbreviation uused :: "mem \<Rightarrow> u32 \<Rightarrow> u8" where
  "uused \<equiv> object_header_get_used"

fun tiles :: "mem \<Rightarrow> u32 \<Rightarrow> u32 list \<Rightarrow> u32 \<Rightarrow> bool" where
  "tiles m p [] e \<longleftrightarrow> p = e"
| "tiles m p (b # bs) e \<longleftrightarrow> b = p \<and> unat (usize m p) mod 4 = 0 \<and> unat p + 16 + unat (usize m p) < 4294967296 \<and>
     tiles m (p + (16 + usize m p)) bs e"

lemma unat_behind:
  "unat p + 16 + unat n < 4294967296 \<Longrightarrow> unat (p + (16 + n)) = unat p + 16 + unat n" for p n :: u32
  by (simp add: unat_word_ariths)

lemma utiles_append: "tiles m p (xs @ ys) e \<longleftrightarrow> (\<exists>q. tiles m p xs q \<and> tiles m q ys e)"
  by (induction xs arbitrary: p) auto

lemma tiles_cong: "(\<And>b. b \<in> set bs \<Longrightarrow> usize m' b = usize m b) \<Longrightarrow> tiles m' p bs e = tiles m p bs e"
proof (induction bs arbitrary: p)
  case (Cons b bs)
  show ?case
  proof (cases "b = p")
    case True
    then have "usize m' p = usize m p" using Cons.prems by simp
    then show ?thesis using Cons True by simp
  qed simp
qed simp

lemma utiles_le:
  assumes "tiles m p bs e"
  shows "unat p \<le> unat e" and "b \<in> set bs \<Longrightarrow> unat p \<le> unat b \<and> unat b + 16 + unat (usize m b) \<le> unat e \<and> unat (usize m b) mod 4 = 0"
proof -
  have "unat p \<le> unat e \<and> (\<forall>b \<in> set bs. unat p \<le> unat b \<and> unat b + 16 + unat (usize m b) \<le> unat e \<and> unat (usize m b) mod 4 = 0)"
    using assms
  proof (induction bs arbitrary: p)
    case (Cons c bs)
    then have "unat (p + (16 + usize m p)) = unat p + 16 + unat (usize m p)" by (simp add: unat_behind)
    then show ?case using Cons.IH [of "p + (16 + usize m p)"] Cons.prems by auto
  qed simp
  then show "unat p \<le> unat e" "b \<in> set bs \<Longrightarrow> unat p \<le> unat b \<and> unat b + 16 + unat (usize m b) \<le> unat e \<and> unat (usize m b) mod 4 = 0" by auto
qed

text \<open>The parts before and behind a block.\<close>

lemma tiles_at:
  assumes "tiles m p (xs @ b # ys) e"
  shows "tiles m p xs b" and "tiles m (b + (16 + usize m b)) ys e" and "unat b + 16 + unat (usize m b) < 4294967296"
    and "unat (usize m b) mod 4 = 0" and "unat (b + (16 + usize m b)) = unat b + 16 + unat (usize m b)"
    and "x \<in> set xs \<Longrightarrow> unat x + 16 + unat (usize m x) \<le> unat b" and "y \<in> set ys \<Longrightarrow> unat b + 16 + unat (usize m b) \<le> unat y"
proof -
  from assms show 1: "tiles m p xs b" "tiles m (b + (16 + usize m b)) ys e" "unat b + 16 + unat (usize m b) < 4294967296"
    "unat (usize m b) mod 4 = 0" by (auto simp: utiles_append)
  then show 2: "unat (b + (16 + usize m b)) = unat b + 16 + unat (usize m b)" by (simp add: unat_behind)
  show "x \<in> set xs \<Longrightarrow> unat x + 16 + unat (usize m x) \<le> unat b" using utiles_le(2) [OF 1(1)] by simp
  show "y \<in> set ys \<Longrightarrow> unat b + 16 + unat (usize m b) \<le> unat y" using utiles_le(2) [OF 1(2)] 2 by simp
qed

lemma tiles_distinct: "tiles m p bs e \<Longrightarrow> distinct bs"
proof (induction bs arbitrary: p)
  case (Cons b bs)
  then have "tiles m b ([] @ b # bs) e" by simp
  note at = tiles_at(7) [OF this]
  have "b \<notin> set bs" using at [of b] by auto
  then show ?case using Cons by auto
qed simp

lemma utiles_apart:
  assumes "tiles m p bs e" and "b \<in> set bs" and "c \<in> set bs" and "b \<noteq> c"
  shows "hdr_apart b c"
proof -
  obtain xs ys where bs: "bs = xs @ b # ys" using assms(2) by (auto simp: in_set_conv_decomp)
  then have t: "tiles m p (xs @ b # ys) e" using assms(1) by simp
  have "unat b + 16 \<le> unat c \<or> unat c + 16 \<le> unat b" using tiles_at(6,7) [OF t, of c] assms(3,4) bs by auto
  moreover have "unat b + 16 \<le> 4294967296" "unat c + 16 \<le> 4294967296"
    using utiles_le(2) [OF assms(1,2)] utiles_le(2) [OF assms(1,3)] unat32_bound [of e] by linarith+
  ultimately show ?thesis using hdr_apart_below [of b c] hdr_apart_below [of c b] by auto
qed

lemma words_exact:
  assumes "unat w mod 4 = 0"
  shows "4 * (w div 4) = (w :: u32)"
proof -
  have "unat (4 * (w div 4)) = 4 * (unat w div 4)"
    using unat32_bound [of w] by (simp add: unat_word_ariths unat_div)
  also have "\<dots> = unat w" using assms by auto
  finally show ?thesis by (simp add: word_eq_by_unat)
qed

lemma next_exact: "unat (usize m b) mod 4 = 0 \<Longrightarrow> object_header_next m b = b + (16 + usize m b)"
  using words_exact [of "usize m b"] by (simp add: object_header_next_def word_size_def header_size_def distrib_left)

lemma tiles_next:
  assumes "tiles m p (xs @ b # ys) e"
  shows "object_header_next m b = (case ys of [] \<Rightarrow> e | y # _ \<Rightarrow> y)"
  using next_exact [OF tiles_at(4) [OF assms]] tiles_at(2) [OF assms] by (cases ys) auto

text \<open>Two neighbours become one block, and a block two.\<close>

lemma tiles_merge:
  assumes "tiles m p (xs @ b # n # ys) e" and "usize m' b = usize m b + usize m n + 16"
    and "\<And>c. c \<in> set xs \<union> set ys \<Longrightarrow> usize m' c = usize m c"
  shows "tiles m' p (xs @ b # ys) e"
proof -
  note b = tiles_at [OF assms(1)]
  have n: "n = b + (16 + usize m b)" using b(2) by simp
  have t: "tiles m p ((xs @ [b]) @ n # ys) e" using assms(1) by simp
  note t = tiles_at [OF t]
  have un: "unat n = unat b + 16 + unat (usize m b)" using b(5) n by simp
  have u: "unat (usize m' b) = unat (usize m b) + unat (usize m n) + 16"
    using t(3) un by (simp add: assms(2) unat_word_ariths)
  have "n + (16 + usize m n) = b + (16 + usize m' b)" by (simp add: n assms(2))
  then have "tiles m (b + (16 + usize m' b)) ys e" using t(2) by (rule subst)
  then have "tiles m' (b + (16 + usize m' b)) ys e" using tiles_cong [of ys m' m] assms(3) by simp
  moreover have "tiles m' p xs b" using tiles_cong [of xs m' m] assms(3) b(1) by simp
  moreover have "unat (usize m' b) mod 4 = 0"
    unfolding u mod_eq_0_iff_dvd using b(4) t(4) by (intro dvd_add) (simp_all add: mod_eq_0_iff_dvd)
  moreover have "unat b + 16 + unat (usize m' b) < 4294967296" using t(3) un u by simp
  ultimately show ?thesis by (auto simp: utiles_append)
qed

lemma tiles_split:
  assumes "tiles m p (xs @ b # ys) e" and "n = b + (16 + v)" and "unat v mod 4 = 0" and "unat v + 16 \<le> unat (usize m b)"
    and "usize m' b = v" and "usize m' n = usize m b - v - 16"
    and "\<And>c. c \<in> set xs \<union> set ys \<Longrightarrow> usize m' c = usize m c"
  shows "tiles m' p (xs @ b # n # ys) e"
proof -
  note b = tiles_at [OF assms(1)]
  have w: "unat (v + 16) = unat v + 16" using assms(4) unat32_bound [of "usize m b"] by (simp add: unat_word_ariths)
  have "usize m' n = usize m b - (v + 16)" using assms(6) by simp
  then have u: "unat (usize m' n) = unat (usize m b) - (unat v + 16)" using assms(4) w by (simp add: unat_diff_nowrap)
  have un: "unat n = unat b + 16 + unat v" using b(3) assms(2,4) by (simp add: unat_behind)
  have e: "n + (16 + usize m' n) = b + (16 + usize m b)" unfolding assms(6) by (simp add: assms(2))
  have "tiles m' (n + (16 + usize m' n)) ys e" unfolding e using b(2) tiles_cong [of ys m' m] assms(7) by simp
  moreover have "tiles m' p xs b" using tiles_cong [of xs m' m] assms(7) b(1) by simp
  moreover have "unat (usize m' n) mod 4 = 0"
  proof -
    have "4 dvd unat (usize m b)" "4 dvd unat v" using b(4) assms(3) by (simp_all add: dvd_eq_mod_eq_0)
    then have "4 dvd unat (usize m b)" "4 dvd unat v + 16" by simp_all
    then show ?thesis unfolding u by (simp add: dvd_diff_nat flip: dvd_eq_mod_eq_0)
  qed
  moreover have "unat n + 16 + unat (usize m' n) < 4294967296" using un u b(3) assms(4) by simp
  ultimately show ?thesis using assms(2,3,5) un b(3) assms(4) by (auto simp: utiles_append)
qed

subsection \<open>The list of free blocks\<close>

fun dlist :: "mem \<Rightarrow> u32 \<Rightarrow> u32 \<Rightarrow> u32 list \<Rightarrow> bool" where
  "dlist m pv p [] \<longleftrightarrow> p = 0"
| "dlist m pv p (b # bs) \<longleftrightarrow> b = p \<and> p \<noteq> 0 \<and> prev_free m p = pv \<and> dlist m p (next_free m p) bs"

definition head_of :: "u32 list \<Rightarrow> u32" where
  "head_of xs = (case xs of [] \<Rightarrow> 0 | x # _ \<Rightarrow> x)"

lemma head_of_simps [simp]: "head_of [] = 0" "head_of (x # xs) = x"
  by (simp_all add: head_of_def)

lemma dlist_head: "dlist m pv p bs \<Longrightarrow> p = head_of bs"
  by (cases bs) simp_all

lemma dlist_cong:
  assumes "\<And>b. b \<in> set bs \<Longrightarrow> next_free m' b = next_free m b \<and> prev_free m' b = prev_free m b"
  shows "dlist m' pv p bs = dlist m pv p bs"
  using assms
proof (induction bs arbitrary: pv p)
  case (Cons b bs)
  show ?case
  proof (cases "b = p")
    case True
    then have "next_free m' p = next_free m p" "prev_free m' p = prev_free m p" using Cons.prems by simp_all
    then show ?thesis using Cons True by simp
  qed simp
qed simp

lemma dlist_zero: "dlist m pv p bs \<Longrightarrow> 0 \<notin> set bs"
  by (induction bs arbitrary: pv p) auto

lemma dlist_next: "dlist m pv p (xs @ b # ys) \<Longrightarrow> next_free m b = head_of ys"
  by (induction xs arbitrary: pv p) (auto dest: dlist_head)

lemma dlist_prev: "dlist m pv p (xs @ b # ys) \<Longrightarrow> prev_free m b = (if xs = [] then pv else last xs)"
  by (induction xs arbitrary: pv p) auto

lemma split_unique:
  "distinct (xs @ b # ys) \<Longrightarrow> us @ b # vs = xs @ b # ys \<Longrightarrow> us = xs \<and> vs = ys"
proof (induction xs arbitrary: us)
  case Nil
  then show ?case by (cases us) auto
next
  case (Cons x xs)
  then show ?case by (cases us) auto
qed

lemma dlist_links:
  assumes "dlist m 0 p bs" and "distinct bs" and "b \<in> set bs" and "c \<in> set bs"
  shows "next_free m c = b \<longleftrightarrow> prev_free m b = c"
proof -
  obtain xs ys where x: "bs = xs @ b # ys" using assms(3) by (auto simp: in_set_conv_decomp)
  obtain us vs where u: "bs = us @ c # vs" using assms(4) by (auto simp: in_set_conv_decomp)
  have z: "b \<noteq> 0" "c \<noteq> 0" using dlist_zero [OF assms(1)] assms(3,4) by auto
  have n: "next_free m c = head_of vs" using dlist_next assms(1) u by blast
  have p: "prev_free m b = (if xs = [] then 0 else last xs)" using dlist_prev [of m 0 p xs b ys] assms(1) x by simp
  show ?thesis
  proof
    assume "next_free m c = b"
    then obtain ws where "vs = b # ws" using n z by (cases vs) auto
    then have "us @ [c] @ b # ws = xs @ b # ys" using x u by simp
    then have "us @ [c] = xs" using assms(2) x split_unique [of xs b ys "us @ [c]" ws] by simp
    then show "prev_free m b = c" using p by auto
  next
    assume c: "prev_free m b = c"
    then have "xs \<noteq> []" "last xs = c" using p z by (auto split: if_splits)
    then obtain ws where "xs = ws @ [c]" by (metis append_butlast_last_id)
    then have "ws @ c # (b # ys) = us @ c # vs" using x u by simp
    then have "vs = b # ys" using assms(2) u split_unique [of us c vs ws "b # ys"] by simp
    then show "next_free m c = b" using n by simp
  qed
qed

lemma dlist_skip:
  assumes "dlist m pv p (xs @ b # ys)" and "distinct (xs @ b # ys)" and "pv \<noteq> b"
    and "\<And>c. c \<in> set (xs @ ys) \<Longrightarrow> next_free m' c = (if next_free m c = b then next_free m b else next_free m c)"
    and "\<And>c. c \<in> set (xs @ ys) \<Longrightarrow> prev_free m' c = (if prev_free m c = b then prev_free m b else prev_free m c)"
  shows "dlist m' pv (if p = b then next_free m b else p) (xs @ ys)"
  using assms
proof (induction xs arbitrary: pv p)
  case Nil
  then have b: "p = b" "prev_free m b = pv" "dlist m b (next_free m b) ys" "b \<noteq> 0" by auto
  show ?case
  proof (cases ys)
    case (Cons y zs)
    then have y: "next_free m b = y" "prev_free m y = b" "y \<noteq> 0" "dlist m y (next_free m y) zs" using b(3) by auto
    have "next_free m c \<noteq> b" "c \<in> set zs \<longrightarrow> prev_free m c \<noteq> b" if cy: "c \<in> set ys" for c
    proof -
      obtain us vs where u: "ys = us @ c # vs" using split_list [OF cy] by blast
      have "next_free m c = head_of vs" using dlist_next [of m b "next_free m b" us c vs] b(3) u by simp
      moreover have "b \<notin> set vs" using Nil.prems(2) u by simp
      ultimately show "next_free m c \<noteq> b" using b(4) by (cases vs) auto
      have "prev_free m c = (if us = [] then b else last us)" using dlist_prev [of m b "next_free m b" us c vs] b(3) u by simp
      moreover have "us \<noteq> []" if "c \<in> set zs" using that u Cons Nil.prems(2) by (cases us) auto
      moreover have "b \<notin> set us" using Nil.prems(2) u by simp
      ultimately show "c \<in> set zs \<longrightarrow> prev_free m c \<noteq> b" by (metis last_in_set)
    qed
    then have "next_free m' y = next_free m y" "prev_free m' y = pv"
      "\<And>c. c \<in> set zs \<Longrightarrow> next_free m' c = next_free m c \<and> prev_free m' c = prev_free m c"
      using Nil.prems(4,5) Cons y(2) b(2) by auto
    then show ?thesis using y b(1) Cons dlist_cong [of zs m' m] by simp
  qed (use b in auto)
next
  case (Cons x xs)
  then have x: "p = x" "x \<noteq> 0" "prev_free m x = pv" "x \<noteq> b" "dlist m x (next_free m x) (xs @ b # ys)" by auto
  have "dlist m' x (if next_free m x = b then next_free m b else next_free m x) (xs @ ys)"
    by (rule Cons.IH [OF x(5)]) (use Cons.prems x(4) in auto)
  then show ?case using Cons.prems(3-5) x by auto
qed

subsection \<open>The invariant\<close>

definition uheap_ok :: "uheap \<Rightarrow> u32 list \<Rightarrow> u32 list \<Rightarrow> bool" where
  "uheap_ok h bs fs \<longleftrightarrow> tiles (umem h) (root h) bs (root h + ubrk h) \<and> dlist (umem h) 0 (ufree h) fs \<and> distinct fs \<and>
     set fs = {b \<in> set bs. uused (umem h) b = 0} \<and> unat (ubrk h) mod 4 = 0 \<and> root h \<noteq> 0 \<and>
     unat (ubrk h) \<le> unat (total h) \<and> unat (root h) + unat (total h) < 4294967296"

lemma uheap_okD:
  assumes "uheap_ok h bs fs"
  shows "tiles (umem h) (root h) bs (root h + ubrk h)" and "dlist (umem h) 0 (ufree h) fs" and "distinct fs"
    and "set fs = {b \<in> set bs. uused (umem h) b = 0}" and "unat (ubrk h) mod 4 = 0" and "root h \<noteq> 0"
    and "unat (ubrk h) \<le> unat (total h)" and "unat (root h) + unat (total h) < 4294967296"
    and "heap_end h = root h + ubrk h" and "unat (root h + ubrk h) = unat (root h) + unat (ubrk h)"
    and "heap_untouched_memory h = total h - ubrk h" and "unat (heap_untouched_memory h) = unat (total h) - unat (ubrk h)"
  using assms words_exact [of "ubrk h"]
  by (simp_all add: uheap_ok_def heap_end_def word_size_def unat_add_nowrap heap_untouched_memory_def heap_total_memory_def
      heap_touched_memory_def unat_diff_nowrap)

text \<open>The addresses of the used blocks with their sizes.\<close>

definition live :: "mem \<Rightarrow> u32 list \<Rightarrow> (u32 \<times> u32) set" where
  "live m bs = {(b, usize m b) |b. b \<in> set bs \<and> uused m b \<noteq> 0}"

lemma live_cong:
  assumes "\<And>b. b \<in> set bs \<Longrightarrow> usize m' b = usize m b \<and> uused m' b = uused m b"
  shows "live m' bs = live m bs"
  using assms by (auto simp: live_def)

lemma uheap_ok_apart: "uheap_ok h bs fs \<Longrightarrow> b \<in> set bs \<Longrightarrow> c \<in> set bs \<Longrightarrow> b \<noteq> c \<Longrightarrow> hdr_apart b c"
  using utiles_apart uheap_okD(1) by blast

lemma uheap_ok_block:
  assumes "uheap_ok h bs fs" and "b \<in> set bs"
  shows "unat (root h) \<le> unat b" and "unat b + 16 + unat (usize (umem h) b) \<le> unat (root h) + unat (ubrk h)" and "b \<noteq> 0"
    and "unat (usize (umem h) b) mod 4 = 0"
  using utiles_le(2) [OF uheap_okD(1) [OF assms(1)] assms(2)] uheap_okD(6,10) [OF assms(1)] by (auto simp: word_eq_by_unat)

lemma uheap_ok_is_end:
  assumes "uheap_ok h (xs @ b # ys) fs"
  shows "heap_is_end h b \<longleftrightarrow> ys = []"
proof -
  note t = tiles_at [OF uheap_okD(1) [OF assms]]
  have "heap_is_end h b \<longleftrightarrow> b + (16 + usize (umem h) b) = root h + ubrk h"
    using words_exact [OF t(4)] uheap_okD(9) [OF assms] by (simp add: heap_is_end_def header_size_def word_size_def add.assoc)
  moreover have "b + (16 + usize (umem h) b) \<noteq> root h + ubrk h" if "ys \<noteq> []"
  proof -
    obtain y where y: "y \<in> set ys" using \<open>ys \<noteq> []\<close> by (cases ys) auto
    then have "unat b + 16 + unat (usize (umem h) b) \<le> unat y" using t(7) by simp
    then show ?thesis using t(5) uheap_ok_block(2) [OF assms, of y] y uheap_okD(10) [OF assms] by (auto simp: word_eq_by_unat)
  qed
  ultimately show ?thesis using t(2) by (cases ys) auto
qed

lemma uheap_ok_next:
  assumes "uheap_ok h (xs @ b # n # ys) fs"
  shows "object_header_next (umem h) b = n" and "\<not> object_header_is_null h n"
proof -
  show "object_header_next (umem h) b = n" using tiles_next [OF uheap_okD(1) [OF assms]] by simp
  have "unat n + 16 \<le> unat (root h) + unat (ubrk h)" using uheap_ok_block(2) [OF assms, of n] by simp
  then show "\<not> object_header_is_null h n"
    using uheap_okD(9,10) [OF assms] by (simp add: object_header_is_null_def heap_end_def word_le_nat_alt)
qed

subsection \<open>The list operations keep it\<close>

text \<open>Taking a block off the list, when its header is apart from those of the other nodes.\<close>

lemma heap_remove_free_fields:
  assumes "dlist (umem h) 0 (ufree h) fs" and "distinct fs" and "n \<in> set fs"
    and "\<And>b c. b \<in> D \<Longrightarrow> c \<in> D \<Longrightarrow> b \<noteq> c \<Longrightarrow> hdr_apart b c" and "set fs \<subseteq> D" and "c \<in> D"
  defines "m' \<equiv> umem (heap_remove_free h n)"
  shows "usize m' c = usize (umem h) c" and "uused m' c = uused (umem h) c"
    and "c \<in> set fs \<Longrightarrow> c \<noteq> n \<Longrightarrow> next_free m' c = (if next_free (umem h) c = n then next_free (umem h) n else next_free (umem h) c)"
    and "c \<in> set fs \<Longrightarrow> c \<noteq> n \<Longrightarrow> prev_free m' c = (if prev_free (umem h) c = n then prev_free (umem h) n else prev_free (umem h) c)"
proof -
  let ?m = "umem h" and ?x = "next_free (umem h) n" and ?v = "prev_free (umem h) n"
  obtain xs ys where fs: "fs = xs @ n # ys" using split_list [OF assms(3)] by blast
  have x: "?x = head_of ys" using dlist_next assms(1) fs by blast
  have v: "?v = (if xs = [] then 0 else last xs)" using dlist_prev [of ?m 0 "ufree h" xs n ys] assms(1) fs by simp
  have n: "n \<in> D" using assms(3,5) by blast
  have xD: "?x \<in> D" "?x \<noteq> n" if "?x \<noteq> 0"
    using x that assms(2,5) fs by (cases ys; auto)+
  have vD: "?v \<in> D" "?v \<noteq> n" if "?v \<noteq> 0"
    using v that assms(2,5) fs last_in_set [of xs] by (auto split: if_splits)
  have ap: "p = c \<or> hdr_apart p c" if "p \<in> D" for p using assms(4) [OF that assms(6)] by blast
  define m1 where "m1 = (if ?x \<noteq> 0 then set_prev_free ?m ?x ?v else ?m)"
  define m2 where "m2 = (if ?v \<noteq> 0 then set_next_free m1 ?v ?x else m1)"
  have m': "m' = set_next_free (set_prev_free m2 n 0) n 0"
    unfolding m'_def heap_remove_free_def Let_def m2_def m1_def by simp
  have 1: "usize m1 c = usize ?m c" "uused m1 c = uused ?m c" "next_free m1 c = next_free ?m c"
    "prev_free m1 c = (if ?x \<noteq> 0 \<and> ?x = c then ?v else prev_free ?m c)"
    using ap [OF xD(1)] unfolding m1_def by (cases "?x = c"; auto)+
  have 2: "usize m2 c = usize ?m c" "uused m2 c = uused ?m c" "prev_free m2 c = (if ?x \<noteq> 0 \<and> ?x = c then ?v else prev_free ?m c)"
    "next_free m2 c = (if ?v \<noteq> 0 \<and> ?v = c then ?x else next_free ?m c)"
    using ap [OF vD(1)] 1 unfolding m2_def by (cases "?v = c"; auto)+
  show "usize m' c = usize ?m c" "uused m' c = uused ?m c" using 2 ap [OF n] unfolding m' by (cases "n = c"; auto)+
  assume c: "c \<in> set fs" "c \<noteq> n"
  have cz: "c \<noteq> 0" using dlist_zero [OF assms(1)] c by auto
  have link: "next_free ?m c = n \<longleftrightarrow> ?v = c" "?x = c \<longleftrightarrow> prev_free ?m c = n"
    using dlist_links [OF assms(1,2)] assms(3) c by blast+
  have "next_free m' c = next_free m2 c" "prev_free m' c = prev_free m2 c" using ap [OF n] c(2) unfolding m' by auto
  then show "next_free m' c = (if next_free ?m c = n then ?x else next_free ?m c)"
    "prev_free m' c = (if prev_free ?m c = n then ?v else prev_free ?m c)" using 2 link cz by auto
qed

lemma heap_remove_free_list:
  assumes "dlist (umem h) 0 (ufree h) (xs @ n # ys)" and "distinct (xs @ n # ys)"
    and "\<And>b c. b \<in> D \<Longrightarrow> c \<in> D \<Longrightarrow> b \<noteq> c \<Longrightarrow> hdr_apart b c" and "set (xs @ n # ys) \<subseteq> D"
  shows "dlist (umem (heap_remove_free h n)) 0 (ufree (heap_remove_free h n)) (xs @ ys)"
proof -
  have f: "ufree (heap_remove_free h n) = (if ufree h = n then next_free (umem h) n else ufree h)"
    by (simp add: heap_remove_free_def Let_def)
  have "0 \<noteq> n" using dlist_zero [OF assms(1)] by auto
  show ?thesis unfolding f
  proof (rule dlist_skip [OF assms(1,2) \<open>0 \<noteq> n\<close>])
    fix c assume "c \<in> set (xs @ ys)"
    then have c: "c \<in> set (xs @ n # ys)" "c \<noteq> n" "c \<in> D" "n \<in> set (xs @ n # ys)" using assms(2,4) by auto
    note r = heap_remove_free_fields [OF assms(1,2) c(4) assms(3,4) c(3)]
    show "next_free (umem (heap_remove_free h n)) c = (if next_free (umem h) c = n then next_free (umem h) n else next_free (umem h) c)"
      "prev_free (umem (heap_remove_free h n)) c = (if prev_free (umem h) c = n then prev_free (umem h) n else prev_free (umem h) c)"
      using r(3,4) c by blast+
  qed
qed

lemma heap_remove_free_same [simp]:
  "root (heap_remove_free h n) = root h" "ubrk (heap_remove_free h n) = ubrk h" "total (heap_remove_free h n) = total h"
  by (simp_all add: heap_remove_free_def Let_def)

lemma heap_add_free_same [simp]:
  "root (heap_add_free h n) = root h" "ubrk (heap_add_free h n) = ubrk h" "total (heap_add_free h n) = total h"
  "ufree (heap_add_free h n) = n"
  by (simp_all add: heap_add_free_def Let_def)

lemma heap_add_free_fields:
  assumes "dlist (umem h) 0 (ufree h) fs" and "n \<notin> set fs" and "n \<noteq> 0" and "n \<in> D"
    and "\<And>b c. b \<in> D \<Longrightarrow> c \<in> D \<Longrightarrow> b \<noteq> c \<Longrightarrow> hdr_apart b c" and "set fs \<subseteq> D" and "distinct fs"
  shows "c \<in> D \<Longrightarrow> usize (umem (heap_add_free h n)) c = usize (umem h) c \<and> uused (umem (heap_add_free h n)) c = uused (umem h) c"
    and "dlist (umem (heap_add_free h n)) 0 n (n # fs)"
proof -
  let ?f = "ufree h" and ?m' = "umem (heap_add_free h n)"
  have f: "?f = head_of fs" using dlist_head [OF assms(1)] .
  have fD: "?f \<in> D" "?f \<noteq> n" if "?f \<noteq> 0" using that f assms(2,6) by (cases fs; auto)+
  define m1 where "m1 = set_prev_free (set_next_free (umem h) n ?f) n 0"
  have m': "?m' = (if ?f \<noteq> 0 then set_prev_free m1 ?f n else m1)" by (simp add: heap_add_free_def Let_def m1_def)
  have 1: "usize m1 c = usize (umem h) c \<and> uused m1 c = uused (umem h) c \<and> (c \<noteq> n \<longrightarrow> next_free m1 c = next_free (umem h) c \<and> prev_free m1 c = prev_free (umem h) c)"
    if "c \<in> D" for c using assms(5) [OF assms(4) that] unfolding m1_def by (cases "n = c") auto
  have 2: "usize ?m' c = usize (umem h) c \<and> uused ?m' c = uused (umem h) c \<and>
    (c \<noteq> n \<longrightarrow> next_free ?m' c = next_free (umem h) c \<and> prev_free ?m' c = (if c = ?f then n else prev_free (umem h) c))" if "c \<in> D" "c \<noteq> 0" for c
    using 1 [OF that(1)] assms(5) [OF fD(1) that(1)] that(2) unfolding m' by (cases "?f = c") auto
  have 3: "usize ?m' c = usize (umem h) c \<and> uused ?m' c = uused (umem h) c" if "c \<in> D" for c
    using 1 [OF that] assms(5) [OF fD(1) that] unfolding m' by (cases "?f = c") auto
  then show "c \<in> D \<Longrightarrow> usize ?m' c = usize (umem h) c \<and> uused ?m' c = uused (umem h) c" by blast
  have n: "next_free ?m' n = ?f" "prev_free ?m' n = 0"
    using assms(5) [OF fD(1) assms(4)] fD(2) unfolding m' m1_def by auto
  have z: "0 \<notin> set fs" using dlist_zero [OF assms(1)] .
  have "dlist ?m' n ?f fs"
  proof (cases fs)
    case (Cons g gs)
    then have g: "g = ?f" "dlist (umem h) g (next_free (umem h) g) gs" "g \<noteq> 0" using assms(1) f by auto
    have "g \<notin> set gs" using assms(7) Cons by simp
    have "next_free ?m' c = next_free (umem h) c \<and> prev_free ?m' c = prev_free (umem h) c" if "c \<in> set gs" for c
    proof -
      have "c \<noteq> ?f" using that \<open>g \<notin> set gs\<close> g(1) by metis
      then show ?thesis using 2 [of c] that Cons assms(2,6) z by auto
    qed
    then have "dlist ?m' g (next_free (umem h) g) gs" using dlist_cong [of gs ?m' "umem h"] g(2) by simp
    moreover have "next_free ?m' g = next_free (umem h) g" "prev_free ?m' g = n" using 2 [of g] Cons assms(2,6) g by auto
    ultimately show ?thesis using Cons g(1,3) by simp
  qed (use f in simp)
  then show "dlist ?m' 0 n (n # fs)" using n assms(3) by simp
qed

end
