(* ===== verification/Uheapthms.thy ===== *)
theory Uheapthms
  imports Uheapinv
begin

text \<open>
  What the heap of a user program does for its clients.
\<close>

subsection \<open>Looking for a block\<close>

lemma merge_step:
  assumes ok: "uheap_ok h (us @ b # n # vs) fs" and b: "b \<in> set fs" and n: "n \<in> set fs"
  defines "h1 \<equiv> heap_remove_free (h\<lparr>umem := object_header_merge (umem h) b\<rparr>) n"
  shows "uheap_ok h1 (us @ b # vs) (remove1 n fs)" and "live (umem h1) (us @ b # vs) = live (umem h) (us @ b # n # vs)"
    and "root h1 = root h" and "ubrk h1 = ubrk h" and "total h1 = total h"
proof -
  let ?bs = "us @ b # n # vs" and ?m = "object_header_merge (umem h) b"
  let ?h = "h\<lparr>umem := ?m\<rparr>"
  note k = uheap_okD [OF ok]
  have d: "distinct ?bs" using tiles_distinct [OF k(1)] .
  have ap: "hdr_apart c e" if "c \<in> set ?bs" "e \<in> set ?bs" "c \<noteq> e" for c e using uheap_ok_apart [OF ok that] .
  have m: "?m = object_header_set_size (umem h) b (usize (umem h) b + usize (umem h) n + header_size)"
    using uheap_ok_next(1) [OF ok] by (simp add: object_header_merge_def)
  have keep: "usize ?m c = (if c = b then usize (umem h) b + usize (umem h) n + 16 else usize (umem h) c)"
    "uused ?m c = uused (umem h) c" "next_free ?m c = next_free (umem h) c" "prev_free ?m c = prev_free (umem h) c" if "c \<in> set ?bs" for c
    using ap [of b c] that unfolding m by (cases "c = b"; simp add: header_size_def)+
  have fs: "set fs \<subseteq> set ?bs" using k(4) by auto
  have dl: "dlist (umem ?h) 0 (ufree ?h) fs" using dlist_cong [of fs ?m "umem h"] keep fs k(2) by (auto simp: subset_iff)
  note rf = heap_remove_free_fields [OF dl k(3) n ap fs]
  have sz: "usize (umem h1) c = (if c = b then usize (umem h) b + usize (umem h) n + 16 else usize (umem h) c)"
    "uused (umem h1) c = uused (umem h) c" if "c \<in> set ?bs" for c using rf(1,2) [OF _ _ _ that] keep [OF that] by (auto simp: h1_def)
  have "tiles (umem h1) (root h) (us @ b # vs) (root h + ubrk h)"
    by (rule tiles_merge [OF k(1)]) (use sz d in auto)
  moreover obtain xs ys where x: "fs = xs @ n # ys" "n \<notin> set xs" using split_list_first [OF n] by blast
  have "dlist (umem h1) 0 (ufree h1) (xs @ ys)"
    unfolding h1_def by (rule heap_remove_free_list [of ?h xs n ys "set ?bs"]) (use dl k(3) ap fs x(1) in simp_all)
  moreover have r: "remove1 n fs = xs @ ys" using x by (simp add: remove1_append)
  moreover have "set (remove1 n fs) = {c \<in> set (us @ b # vs). uused (umem h1) c = 0}"
  proof -
    have "set (remove1 n fs) = set fs - {n}" by (rule set_remove1_eq [OF k(3)])
    also have "\<dots> = {c \<in> set (us @ b # vs). uused (umem h) c = 0}" unfolding k(4) using d by auto
    also have "\<dots> = {c \<in> set (us @ b # vs). uused (umem h1) c = 0}" using sz(2) by auto
    finally show ?thesis .
  qed
  ultimately show "uheap_ok h1 (us @ b # vs) (remove1 n fs)" using k distinct_remove1 [OF k(3), of n] by (simp add: uheap_ok_def h1_def)
  have "uused (umem h) b = 0" "uused (umem h) n = 0" using k(4) b n by auto
  then show "live (umem h1) (us @ b # vs) = live (umem h) ?bs" using sz d by (auto simp: live_def)
  show "root h1 = root h" "ubrk h1 = ubrk h" "total h1 = total h" by (simp_all add: h1_def)
qed

lemma grow_last:
  assumes ok: "uheap_ok h (us @ [b]) fs" and b: "b \<in> set fs" and sz: "unat sz mod 4 = 0" "usize (umem h) b < sz"
    and room: "sz - usize (umem h) b \<le> heap_untouched_memory h"
  defines "h1 \<equiv> h\<lparr>ubrk := ubrk h + (sz - usize (umem h) b), umem := object_header_set_size (umem h) b sz\<rparr>"
  shows "uheap_ok h1 (us @ [b]) fs" and "live (umem h1) (us @ [b]) = live (umem h) (us @ [b])" and "usize (umem h1) b = sz"
proof -
  note k = uheap_okD [OF ok]
  have keep: "usize (umem h1) c = (if c = b then sz else usize (umem h) c)" "uused (umem h1) c = uused (umem h) c"
    "next_free (umem h1) c = next_free (umem h) c" "prev_free (umem h1) c = prev_free (umem h) c" if "c \<in> set (us @ [b])" for c
    using uheap_ok_apart [OF ok, of b c] that unfolding h1_def by (cases "c = b"; simp)+
  note t = tiles_at [OF k(1)]
  have needed: "unat (sz - usize (umem h) b) = unat sz - unat (usize (umem h) b)"
    using sz(2) by (intro unat_diff_nowrap) (simp add: word_less_nat_alt)
  then have u: "unat (ubrk h + (sz - usize (umem h) b)) = unat (ubrk h) + (unat sz - unat (usize (umem h) b))"
    "unat (ubrk h) + (unat sz - unat (usize (umem h) b)) \<le> unat (total h)"
    using room k(7,12) unat32_bound [of "total h"] by (simp_all add: word_le_nat_alt unat_add_nowrap)
  have e: "b + (16 + usize (umem h) b) = root h + ubrk h" using t(2) by simp
  have "b + (16 + sz) = (b + (16 + usize (umem h) b)) + (sz - usize (umem h) b)" by simp
  also have "\<dots> = root h + ubrk h1" unfolding e by (simp add: h1_def add.assoc)
  finally have e1: "b + (16 + sz) = root h + ubrk h1" .
  have b0: "us @ [b] = us @ b # []" "b \<notin> set us" using tiles_distinct [OF k(1)] by auto
  have "tiles (umem h1) (root h) us b = tiles (umem h) (root h) us b"
    by (rule tiles_cong) (use keep(1) b0(2) in \<open>metis UnI1 set_append\<close>)
  then have "tiles (umem h1) (root h) us b" using t(1) by simp
  moreover have "unat b + 16 + unat sz < 4294967296"
    using t(5) u k(8,10) e sz(2) by (simp add: word_less_nat_alt)
  moreover have "usize (umem h1) b = sz" using keep by simp
  ultimately have "tiles (umem h1) (root h) (us @ [b]) (root h + ubrk h1)" using sz(1) e1 by (auto simp: utiles_append)
  moreover have fs: "set fs \<subseteq> set (us @ [b])" using k(4) by auto
  then have "dlist (umem h1) 0 (ufree h) fs" using dlist_cong [of fs "umem h1" "umem h"] keep k(2) by (auto simp: subset_iff)
  moreover have "set fs = {c \<in> set (us @ [b]). uused (umem h1) c = 0}" using k(4) keep(2) by auto
  moreover have "unat (ubrk h1) mod 4 = 0"
  proof -
    have "4 dvd unat (ubrk h)" "4 dvd unat sz" "4 dvd unat (usize (umem h) b)" using k(5) sz(1) t(4) by (simp_all add: dvd_eq_mod_eq_0)
    then show ?thesis using u by (simp add: h1_def dvd_diff_nat flip: dvd_eq_mod_eq_0)
  qed
  ultimately show "uheap_ok h1 (us @ [b]) fs" using k u by (simp add: uheap_ok_def h1_def)
  have "uused (umem h) b = 0" using k(4) b by auto
  then show "live (umem h1) (us @ [b]) = live (umem h) (us @ [b])" using keep by (auto simp: live_def)
  show "usize (umem h1) b = sz" using keep by simp
qed

text \<open>The search returns, whatever the blocks are, and the heap it leaves is in order; the used blocks are as
  before.\<close>

lemma best_fit_returns:
  assumes "uheap_ok h bs (xs @ ys)" and "unat sz mod 4 = 0" and "best + 16 \<noteq> 0"
  shows "\<exists>h' b bs' fs'. best_fit_from h best (head_of ys) sz = Some (h', b) \<and> uheap_ok h' bs' fs' \<and>
    live (umem h') bs' = live (umem h) bs \<and> root h' = root h \<and> total h' = total h \<and> (b = 0 \<longrightarrow> ubrk h' = ubrk h) \<and> b + 16 \<noteq> 0"
  using assms
proof (induction "length (xs @ ys) + length ys" arbitrary: h bs xs ys best rule: less_induct)
  case less
  show ?case
  proof (cases ys)
    case Nil
    then show ?thesis using less.prems(1,3) by (subst best_fit_from.simps) auto
  next
    case (Cons y zs)
    let ?m = "umem h"
    note k = uheap_okD [OF less.prems(1)]
    have y: "y \<in> set (xs @ ys)" "y \<in> set bs" using Cons k(4) by auto
    have y0: "y \<noteq> 0" using uheap_ok_block(3) [OF less.prems(1) y(2)] .
    have "unat (y + 16) = unat y + 16" using uheap_ok_block(2) [OF less.prems(1) y(2)] k(7,8) by (simp add: unat_add_nowrap)
    then have y16: "y + 16 \<noteq> 0" by (metis add_eq_0_iff_both_eq_0 unat_0 zero_neq_numeral)
    have nx: "next_free ?m y = head_of zs" using dlist_next [of ?m 0 "ufree h" xs y zs] k(2) Cons by simp
    obtain us vs where bs: "bs = us @ y # vs" using split_list [OF y(2)] by blast
    have go: "\<exists>h' b bs' fs'. best_fit_from h best' (head_of zs) sz = Some (h', b) \<and> uheap_ok h' bs' fs' \<and>
      live (umem h') bs' = live (umem h) bs \<and> root h' = root h \<and> total h' = total h \<and> (b = 0 \<longrightarrow> ubrk h' = ubrk h) \<and> b + 16 \<noteq> 0" if "best' + 16 \<noteq> 0" for best'
      using less.hyps [of "xs @ [y]" zs h bs best'] less.prems Cons that by simp
    show ?thesis
    proof (cases "usize ?m y \<ge> sz")
      case True
      then show ?thesis
      proof (cases "usize ?m y = sz")
        case True
        then have "best_fit_from h best (head_of ys) sz = Some (h, y)" using Cons y0 by (subst best_fit_from.simps) simp
        then show ?thesis using less.prems(1) y0 y16 by blast
      next
        case False
        then have "best_fit_from h best (head_of ys) sz =
            best_fit_from h (if best = 0 \<or> usize ?m y < usize ?m best then y else best) (head_of zs) sz"
          using Cons y0 True nx by (subst best_fit_from.simps) (simp add: Let_def)
        moreover have "(if best = 0 \<or> usize ?m y < usize ?m best then y else best) + 16 \<noteq> 0" using less.prems(3) y16 by simp
        ultimately show ?thesis using go by simp
      qed
    next
      case False
      then have small: "usize ?m y < sz" by simp
      show ?thesis
      proof (cases vs)
        case Nil
        then have e: "heap_is_end h y" using uheap_ok_is_end less.prems(1) bs by blast
        show ?thesis
        proof (cases "sz - usize ?m y \<le> heap_untouched_memory h")
          case True
          have "uheap_ok h (us @ [y]) (xs @ ys)" using less.prems(1) bs Nil by simp
          note g = grow_last [OF this y(1) less.prems(2) small True]
          have "best_fit_from h best (head_of ys) sz = Some (h\<lparr>ubrk := ubrk h + (sz - usize ?m y), umem := object_header_set_size ?m y sz\<rparr>, y)"
            using Cons y0 False e True by (subst best_fit_from.simps) (simp add: Let_def)
          then show ?thesis using g(1,2) y0 y16 unfolding bs Nil
            by (intro exI [of _ "h\<lparr>ubrk := ubrk h + (sz - usize ?m y), umem := object_header_set_size ?m y sz\<rparr>"] exI [of _ y]
                exI [of _ "us @ [y]"] exI [of _ "xs @ ys"]) simp
        next
          case no: False
          then have "best_fit_from h best (head_of ys) sz = best_fit_from h best (head_of zs) sz"
            using Cons y0 False e nx by (subst best_fit_from.simps) (simp add: Let_def)
          then show ?thesis using go [OF less.prems(3)] by simp
        qed
      next
        case c: (Cons n ws)
        have ok: "uheap_ok h (us @ y # n # ws) (xs @ ys)" using less.prems(1) bs c by simp
        have e: "\<not> heap_is_end h y" using uheap_ok_is_end [of h us y "n # ws"] ok by simp
        note n = uheap_ok_next [OF ok]
        show ?thesis
        proof (cases "uused ?m n = 0")
          case True
          let ?h1 = "heap_remove_free (h\<lparr>umem := object_header_merge ?m y\<rparr>) n"
          have nf: "n \<in> set (xs @ ys)" using True k(4) bs c by auto
          have ny: "n \<noteq> y" using tiles_distinct [OF k(1)] bs c by auto
          note ms = merge_step [OF ok y(1) nf]
          have step: "best_fit_from h best (head_of ys) sz = best_fit_from ?h1 best y sz"
            using Cons y0 False e n True by (subst best_fit_from.simps) (simp add: Let_def)
          define xs' where "xs' = (if n \<in> set xs then remove1 n xs else xs)"
          define zs' where "zs' = (if n \<in> set xs then zs else remove1 n zs)"
          have rm: "remove1 n (xs @ ys) = xs' @ y # zs'" using ny Cons by (simp add: remove1_append xs'_def zs'_def)
          have "length (remove1 n (xs @ ys)) < length (xs @ ys)"
            using length_pos_if_in_set [OF nf] nf by (simp only: length_remove1 if_True diff_less zero_less_one)
          then have len: "length (xs' @ y # zs') < length (xs @ ys)" "length (y # zs') \<le> length ys"
            unfolding rm using Cons by (simp_all add: length_remove1 zs'_def)
          have "\<exists>h' b bs' fs'. best_fit_from ?h1 best (head_of (y # zs')) sz = Some (h', b) \<and> uheap_ok h' bs' fs' \<and>
            live (umem h') bs' = live (umem ?h1) (us @ y # ws) \<and> root h' = root ?h1 \<and> total h' = total ?h1 \<and> (b = 0 \<longrightarrow> ubrk h' = ubrk ?h1) \<and> b + 16 \<noteq> 0"
            by (rule less.hyps) (use len ms(1) rm less.prems(2,3) in auto)
          then show ?thesis using step ms(2-5) bs c by simp
        next
          case no: False
          then have "best_fit_from h best (head_of ys) sz = best_fit_from h best (head_of zs) sz"
            using Cons y0 False e n nx by (subst best_fit_from.simps) (simp add: Let_def)
          then show ?thesis using go [OF less.prems(3)] by simp
        qed
      qed
    qed
  qed
qed

subsection \<open>\<open>malloc\<close> returns\<close>

lemma alignment_4:
  assumes "unat sz + 3 < 4294967296"
  shows "unat (alignment sz 4) = 4 * ((unat sz + 3) div 4)"
proof -
  have c: "ucast (ucast (sz mod 4) :: u8) = sz mod 4"
  proof -
    have "sz mod 4 = take_bit 2 sz" by (simp add: take_bit_eq_mod)
    then show ?thesis by (simp only:) (rule word_eq_by_unat [THEN iffD2], simp add: unsigned_ucast_eq)
  qed
  have z: "(ucast (sz mod 4) :: u8) \<noteq> 0 \<longleftrightarrow> sz mod 4 \<noteq> 0" using c by (metis unsigned_0)
  have s: "unat (sz - sz mod 4) = unat sz - unat sz mod 4" by (simp add: unat_diff_nowrap unat_mod)
  have m: "sz mod 4 = 0 \<longleftrightarrow> unat sz mod 4 = 0" by (simp add: word_eq_by_unat unat_mod)
  have e: "unat sz = 4 * (unat sz div 4) + unat sz mod 4" "unat sz mod 4 < 4" by simp_all
  show ?thesis
  proof (cases "unat sz mod 4 = 0")
    case True
    then have "alignment sz 4 = sz" using z m by (simp add: alignment_def Let_def)
    moreover have "(unat sz + 3) div 4 = unat sz div 4" using True by presburger
    ultimately show ?thesis using e True by simp
  next
    case False
    then have a: "alignment sz 4 = sz - sz mod 4 + 4" using z m c by (simp add: alignment_def Let_def)
    have b: "unat (sz - sz mod 4 + 4) = unat (sz - sz mod 4) + 4" using s assms False by (intro trans [OF unat_add_nowrap]) simp_all
    have d: "(unat sz + 3) div 4 = unat sz div 4 + 1" using False by presburger
    show ?thesis unfolding a b s d by (simp add: minus_mod_eq_mult_div)
  qed
qed

lemma alignment_4_bounds:
  assumes "unat sz + 3 < 4294967296"
  shows "unat (alignment sz 4) mod 4 = 0" and "unat sz \<le> unat (alignment sz 4)" and "unat (alignment sz 4) \<le> unat sz + 3"
proof -
  have "unat sz = 4 * (unat sz div 4) + unat sz mod 4" by simp
  show "unat (alignment sz 4) mod 4 = 0" by (simp add: alignment_4 [OF assms])
  show "unat sz \<le> unat (alignment sz 4)" "unat (alignment sz 4) \<le> unat sz + 3"
    unfolding alignment_4 [OF assms] by presburger+
qed

lemma object_header_try_split_same [simp]:
  "root (object_header_try_split h b sz) = root h" "total (object_header_try_split h b sz) = total h"
  by (simp_all add: object_header_try_split_def Let_def)

lemma heap_alloc_returns:
  assumes ok: "uheap_ok h bs fs" and sz: "sz \<noteq> 0" "unat sz + 19 < 4294967296"
  shows "\<exists>h' p. heap_alloc h sz 4 = Some (h', p) \<and> root h' = root h \<and> total h' = total h \<and>
    (p = 0 \<longrightarrow> (\<exists>bs' fs'. uheap_ok h' bs' fs') \<and> ubrk h' = ubrk h \<and> unat (total h) < unat (ubrk h) + unat sz + 19)"
proof -
  have sz3: "unat sz + 3 < 4294967296" using sz(2) by simp
  note al = alignment_4_bounds [OF sz3]
  let ?a = "alignment sz 4"
  have f: "ufree h = head_of ([] @ fs)" using dlist_head uheap_okD(2) [OF ok] by simp
  obtain h1 b bs1 fs1 where r: "heap_find_block h ?a = Some (h1, b)" "uheap_ok h1 bs1 fs1" "root h1 = root h" "total h1 = total h"
    "b = 0 \<longrightarrow> ubrk h1 = ubrk h" "b + 16 \<noteq> 0"
    using best_fit_returns [of h bs "[]" fs ?a 0] ok al(1) f unfolding heap_find_block_def heap_find_best_fit_def by auto
  show ?thesis
  proof (cases "b = 0")
    case False
    then show ?thesis using sz(1) r(1,3,4,6) by (simp add: heap_alloc_def Let_def object_header_get_pointer_def header_size_def)
  next
    case b: True
    have k: "heap_end h1 = root h + ubrk h" "unat (root h + ubrk h) = unat (root h) + unat (ubrk h)" "root h \<noteq> 0"
      "unat (heap_untouched_memory h1) = unat (total h) - unat (ubrk h)"  "unat (ubrk h) \<le> unat (total h)" "unat (root h) + unat (total h) < 4294967296"
      using uheap_okD(6-12) [OF r(2)] r(3-5) b by simp_all
    have a16: "unat (?a + 16) = unat ?a + 16" using al(3) sz(2) by (simp add: unat_add_nowrap)
    show ?thesis
    proof (cases "?a + header_size > heap_untouched_memory h1")
      case True
      then have "heap_alloc h sz 4 = Some (h1, 0)" using sz(1) r(1) b by (simp add: heap_alloc_def Let_def)
      moreover have "unat (total h) < unat (ubrk h) + unat sz + 19"
        using True k(4,5) a16 al(3) by (simp add: header_size_def word_less_nat_alt)
      ultimately show ?thesis using r b by auto
    next
      case False
      then have "unat ?a + 16 \<le> unat (total h) - unat (ubrk h)" using k(4) a16 by (simp add: header_size_def word_less_nat_alt)
      then have "unat (root h + ubrk h + 16) = unat (root h) + unat (ubrk h) + 16"
        using k(2,5,6) by (simp add: unat_add_nowrap)
      then have "root h + ubrk h + 16 \<noteq> 0" by (metis add_eq_0_iff_both_eq_0 unat_0 zero_neq_numeral)
      then show ?thesis using False sz(1) r(1,3,4) b k(1)
        by (simp add: heap_alloc_def Let_def object_header_get_pointer_def header_size_def)
    qed
  qed
qed

text \<open>The heap of the library ends where the memory of the program ends, and is asked to double when it is full.\<close>

definition ulib_ok :: "ulib \<Rightarrow> bool" where
  "ulib_ok l \<longleftrightarrow> (\<exists>bs fs. uheap_ok (uheap_of l) bs fs) \<and> heap_size l = total (uheap_of l) \<and> total (uheap_of l) \<noteq> 0 \<and>
     prog_end l = root (uheap_of l) + total (uheap_of l)"

lemma heap_expand_ok:
  assumes "uheap_ok h bs fs" and "unat (root h) + 2 * unat (total h) < 4294967296"
  shows "uheap_ok (heap_expand h (total h)) bs fs" and "unat (total (heap_expand h (total h))) = 2 * unat (total h)"
proof -
  have "unat (2 * total h) = 2 * unat (total h)" unfolding mult_2 by (rule unat_add_nowrap) (use assms(2) in simp)
  then show "uheap_ok (heap_expand h (total h)) bs fs" "unat (total (heap_expand h (total h))) = 2 * unat (total h)"
    using assms by (auto simp: uheap_ok_def heap_expand_def)
qed

lemma malloc_loop_returns:
  assumes "sz \<noteq> 0" and "unat (root (uheap_of l)) + 2 * (unat (ubrk (uheap_of l)) + unat sz + 19) < 4294967296"
    and "ptr = 0 \<longrightarrow> ulib_ok l \<and> unat (total (uheap_of l)) < unat (ubrk (uheap_of l)) + unat sz + 19"
    and "prog_end l = root (uheap_of l) + total (uheap_of l)"
  shows "\<exists>l' p. malloc_loop l sz ptr = Some (l', p) \<and> p \<noteq> 0 \<and> prog_end l' = root (uheap_of l') + total (uheap_of l')"
  using assms
proof (induction "4294967296 - unat (total (uheap_of l))" arbitrary: l ptr rule: less_induct)
  case less
  show ?case
  proof (cases "ptr = 0")
    case False
    then show ?thesis using less.prems(4) by (subst malloc_loop.simps) simp
  next
    case True
    let ?h = "uheap_of l"
    obtain bs fs where ok: "uheap_ok ?h bs fs" "heap_size l = total ?h" "total ?h \<noteq> 0" using less.prems(3) True by (auto simp: ulib_ok_def)
    have small: "unat (total ?h) < unat (ubrk ?h) + unat sz + 19" using less.prems(3) True by simp
    then have "unat (root ?h) + 2 * unat (total ?h) < 4294967296" using less.prems(2) by simp
    note ex = heap_expand_ok [OF ok(1) this]
    let ?e = "heap_expand ?h (total ?h)"
    have e: "root ?e = root ?h" "ubrk ?e = ubrk ?h" "total ?e = total ?h + total ?h" by (simp_all add: heap_expand_def)
    have "unat sz + 19 < 4294967296" using less.prems(2) by simp
    then obtain h' p where al: "heap_alloc ?e sz 4 = Some (h', p)" "root h' = root ?h" "total h' = total ?e"
      "p = 0 \<longrightarrow> (\<exists>bs' fs'. uheap_ok h' bs' fs') \<and> ubrk h' = ubrk ?h \<and> unat (total ?e) < unat (ubrk ?h) + unat sz + 19"
      using heap_alloc_returns [OF ex(1) less.prems(1)] e by auto
    let ?l = "l\<lparr>prog_end := prog_end l + heap_size l, heap_size := heap_size l * 2, uheap_of := h'\<rparr>"
    have step: "malloc_loop l sz ptr = malloc_loop ?l sz p"
      using True less.prems(1) al(1) ok(2) by (subst malloc_loop.simps) (simp add: sbrk_def)
    have pe: "prog_end ?l = root h' + total h'" using less.prems(4) al(2,3) e ok(2) by simp
    show ?thesis
    proof (cases "p = 0")
      case False
      then show ?thesis unfolding step using pe by (subst malloc_loop.simps) simp
    next
      case p: True
      have t0: "unat (total ?h) \<noteq> 0" using ok(3) by (simp add: word_eq_by_unat)
      have "unat (total h') \<noteq> 0" using al(3) ex(2) t0 by simp
      then have "total h' \<noteq> 0" by auto
      moreover have "heap_size ?l = total h'" using al(3) e(3) ok(2) by simp
      ultimately have "ulib_ok ?l" using al(4) p pe by (simp add: ulib_ok_def)
      then show ?thesis unfolding step using t0 ex(2) al(2-4) p pe e(3) less.prems(1,2) unat32_bound [of "total h'"]
        by (intro less.hyps) (simp_all, linarith)
    qed
  qed
qed

subsection \<open>Taking a block\<close>

lemma uheap_ok_update:
  assumes ok: "uheap_ok h bs fs" and b: "b \<in> set bs"
    and m: "m = object_header_set_size (umem h) b v \<or> m = object_header_set_used (umem h) b u"
  shows "c \<in> set bs \<Longrightarrow> next_free m c = next_free (umem h) c \<and> prev_free m c = prev_free (umem h) c"
    and "c \<in> set bs \<Longrightarrow> c \<noteq> b \<Longrightarrow> usize m c = usize (umem h) c \<and> uused m c = uused (umem h) c"
    and "dlist m 0 (ufree h) fs"
proof -
  show 1: "next_free m c = next_free (umem h) c \<and> prev_free m c = prev_free (umem h) c" if "c \<in> set bs" for c
    using uheap_ok_apart [OF ok b that] m by (cases "b = c") auto
  show "c \<in> set bs \<Longrightarrow> c \<noteq> b \<Longrightarrow> usize m c = usize (umem h) c \<and> uused m c = uused (umem h) c"
    using uheap_ok_apart [OF ok b] m by auto
  have "set fs \<subseteq> set bs" using uheap_okD(4) [OF ok] by auto
  then show "dlist m 0 (ufree h) fs" using dlist_cong [of fs m "umem h"] 1 uheap_okD(2) [OF ok] by (auto simp: subset_iff)
qed

lemma use_block:
  assumes ok: "uheap_ok h bs fs" and b: "b \<in> set fs"
  defines "h1 \<equiv> heap_remove_free (h\<lparr>umem := object_header_set_used (umem h) b 1\<rparr>) b"
  shows "uheap_ok h1 bs (remove1 b fs)" and "live (umem h1) bs = insert (b, usize (umem h) b) (live (umem h) bs)"
    and "usize (umem h1) b = usize (umem h) b"
proof -
  note k = uheap_okD [OF ok]
  have bb: "b \<in> set bs" "uused (umem h) b = 0" using k(4) b by auto
  have fs: "set fs \<subseteq> set bs" using k(4) by auto
  let ?m = "object_header_set_used (umem h) b 1"
  let ?h = "h\<lparr>umem := ?m\<rparr>"
  note u = uheap_ok_update [OF ok bb(1), of ?m _ 1, OF disjI2, OF refl]
  have dl: "dlist (umem ?h) 0 (ufree ?h) fs" using u(3) by simp
  note rf = heap_remove_free_fields [OF dl k(3) b uheap_ok_apart [OF ok] fs]
  have f: "usize (umem h1) c = usize (umem h) c" "uused (umem h1) c = (if c = b then 1 else uused (umem h) c)" if "c \<in> set bs" for c
    using rf(1,2) [OF _ _ _ that] u(2) [OF that] unfolding h1_def by (cases "c = b"; simp)+
  obtain xs ys where x: "fs = xs @ b # ys" "b \<notin> set xs" using split_list_first [OF b] by blast
  have "dlist (umem h1) 0 (ufree h1) (xs @ ys)"
    unfolding h1_def by (rule heap_remove_free_list [of ?h xs b ys "set bs"]) (use dl k(3) uheap_ok_apart [OF ok] fs x(1) in simp_all)
  moreover have "remove1 b fs = xs @ ys" using x by (simp add: remove1_append)
  moreover have "tiles (umem h1) (root h) bs (root h + ubrk h)" using k(1) tiles_cong [of bs "umem h1" "umem h"] f(1) by simp
  moreover have "set (remove1 b fs) = {c \<in> set bs. uused (umem h1) c = 0}"
    unfolding set_remove1_eq [OF k(3)] k(4) using f(2) by (auto split: if_splits)
  ultimately show "uheap_ok h1 bs (remove1 b fs)" using k distinct_remove1 [OF k(3), of b] by (simp add: uheap_ok_def h1_def)
  show "live (umem h1) bs = insert (b, usize (umem h) b) (live (umem h) bs)" using f bb by (auto simp: live_def split: if_splits)
  show "usize (umem h1) b = usize (umem h) b" using f(1) [OF bb(1)] .
qed

text \<open>Cutting a free block down to the size that is wanted.\<close>

lemma cut_last:
  assumes ok: "uheap_ok h (us @ [b]) fs" and b: "b \<in> set fs" and sz: "unat sz mod 4 = 0" "sz < usize (umem h) b"
  defines "h1 \<equiv> object_header_try_split h b sz"
  shows "uheap_ok h1 (us @ [b]) fs" and "live (umem h1) (us @ [b]) = live (umem h) (us @ [b])" and "usize (umem h1) b = sz"
proof -
  note k = uheap_okD [OF ok]
  let ?rem = "usize (umem h) b - sz"
  have h1: "h1 = h\<lparr>ubrk := ubrk h - ?rem, umem := object_header_set_size (umem h) b sz\<rparr>"
    using uheap_ok_is_end [OF ok] sz(2) by (simp add: h1_def object_header_try_split_def Let_def)
  have bb: "b \<in> set (us @ [b])" by simp
  note u = uheap_ok_update [OF ok bb, of "umem h1" sz, OF disjI1]
  note t = tiles_at [OF k(1)]
  have rem: "unat ?rem = unat (usize (umem h) b) - unat sz" using sz(2) by (intro unat_diff_nowrap) (simp add: word_less_nat_alt)
  have "unat (usize (umem h) b) \<le> unat (ubrk h)"
    using uheap_ok_block(1,2) [OF ok bb] by linarith
  then have ub: "unat (ubrk h - ?rem) = unat (ubrk h) - unat ?rem" using rem by (intro unat_diff_nowrap) simp
  have e: "b + (16 + usize (umem h) b) = root h + ubrk h" using t(2) by simp
  have "b + (16 + sz) = (b + (16 + usize (umem h) b)) - ?rem" by simp
  also have "\<dots> = root h + ubrk h1" unfolding e by (simp add: h1)
  finally have e1: "b + (16 + sz) = root h + ubrk h1" .
  have b0: "b \<notin> set us" using tiles_distinct [OF k(1)] by auto
  have "tiles (umem h1) (root h) us b = tiles (umem h) (root h) us b"
    by (rule tiles_cong) (use u(2) b0 h1 in auto)
  moreover have "usize (umem h1) b = sz" by (simp add: h1)
  moreover have "unat b + 16 + unat sz < 4294967296" using t(3) sz(2) by (simp add: word_less_nat_alt)
  ultimately have "tiles (umem h1) (root h) (us @ [b]) (root h + ubrk h1)" using sz(1) e1 t(1) by (auto simp: utiles_append)
  moreover have "dlist (umem h1) 0 (ufree h) fs" using u(3) h1 by simp
  moreover have same: "uused (umem h1) c = uused (umem h) c" if "c \<in> set (us @ [b])" for c
    using u(2) [OF _ that] h1 by (cases "c = b") auto
  then have "set fs = {c \<in> set (us @ [b]). uused (umem h1) c = 0}" using k(4) by auto
  moreover have "unat (ubrk h1) mod 4 = 0"
  proof -
    have "4 dvd unat (ubrk h)" "4 dvd unat sz" "4 dvd unat (usize (umem h) b)" using k(5) sz(1) t(4) by (simp_all add: dvd_eq_mod_eq_0)
    then show ?thesis using ub rem by (simp add: h1 dvd_diff_nat flip: dvd_eq_mod_eq_0)
  qed
  ultimately show "uheap_ok h1 (us @ [b]) fs" using k ub by (simp add: uheap_ok_def h1)
  have "uused (umem h) b = 0" using k(4) b by auto
  then show "live (umem h1) (us @ [b]) = live (umem h) (us @ [b])" using same u(2) b0 h1 by (auto simp: live_def; metis)
  show "usize (umem h1) b = sz" by (simp add: h1)
qed

lemma cut_inner:
  assumes ok: "uheap_ok h (us @ b # w # ws) fs" and b: "b \<in> set fs" and sz: "unat sz mod 4 = 0" "unat sz + 16 < unat (usize (umem h) b)"
  defines "h1 \<equiv> object_header_try_split h b sz" and "n \<equiv> b + (16 + sz)"
  shows "uheap_ok h1 (us @ b # n # w # ws) (n # fs)" and "live (umem h1) (us @ b # n # w # ws) = live (umem h) (us @ b # w # ws)"
    and "usize (umem h1) b = sz"
proof -
  let ?bs = "us @ b # w # ws" and ?D = "set (us @ b # n # w # ws)"
  note k = uheap_okD [OF ok]
  note t = tiles_at [OF k(1)]
  have bb: "b \<in> set ?bs" by simp
  let ?m1 = "object_header_set_size (umem h) b sz"
  note u = uheap_ok_update [OF ok bb, of ?m1 sz, OF disjI1, OF refl]
  have s16: "unat (sz + 16) = unat sz + 16" using sz(2) unat32_bound [of "usize (umem h) b"] by (simp add: unat_add_nowrap)
  have n: "object_header_next ?m1 b = n" using next_exact [of ?m1 b] sz(1) by (simp add: n_def)
  have un: "unat n = unat b + 16 + unat sz" unfolding n_def using t(3) sz(2) by (simp add: unat_behind)
  let ?rem = "usize (umem h) b - sz - header_size"
  let ?m2 = "object_header_set_used (object_header_new ?m1 n ?rem) n 0"
  have h1: "h1 = heap_add_free (h\<lparr>umem := ?m2\<rparr>) n"
    using uheap_ok_is_end [OF ok] sz(2) s16 n by (simp add: h1_def object_header_try_split_def Let_def header_size_def word_less_nat_alt)
  have near: "unat c + 16 + unat (usize (umem h) c) \<le> unat b \<or> unat b + 16 + unat (usize (umem h) b) \<le> unat c"
    if "c \<in> set ?bs" "c \<noteq> b" for c using t(6,7) [of c] that by auto
  have far: "hdr_apart n c" if "c \<in> set ?bs" for c
  proof (cases "c = b")
    case True
    then show ?thesis using hdr_apart_below(2) [of b n] un t(3) sz(2) by simp
  next
    case False
    then show ?thesis using near [OF that False] hdr_apart_below [of c n] hdr_apart_below [of n c] un sz(2) t(3)
        uheap_ok_block(2) [OF ok that] k(7,8) by fastforce
  qed
  have nin: "n \<notin> set ?bs" using far by (metis add.right_neutral hdr_apart_def of_nat_0 zero_less_numeral)
  have apD: "hdr_apart c d" if "c \<in> ?D" "d \<in> ?D" "c \<noteq> d" for c d
    using uheap_ok_apart [OF ok, of c d] far [of c] far [of d] hdr_apart_sym [of n c] that by auto
  have f2: "usize ?m2 c = (if c = b then sz else usize (umem h) c)" "uused ?m2 c = uused (umem h) c"
    "next_free ?m2 c = next_free (umem h) c" "prev_free ?m2 c = prev_free (umem h) c" if "c \<in> set ?bs" for c
    using far [OF that] u(1,2) [OF that] by (cases "c = b"; simp add: object_header_new_def Let_def)+
  have n2: "usize ?m2 n = ?rem" "uused ?m2 n = 0" by (simp_all add: object_header_new_def Let_def)
  have fs: "set fs \<subseteq> set ?bs" using k(4) by auto
  have dl: "dlist (umem (h\<lparr>umem := ?m2\<rparr>)) 0 (ufree (h\<lparr>umem := ?m2\<rparr>)) fs"
    using dlist_cong [of fs ?m2 "umem h"] f2(3,4) fs k(2) by (auto simp: subset_iff)
  have "unat n \<noteq> 0" using un by simp
  then have n0: "n \<noteq> 0" by auto
  have nD: "n \<in> ?D" "n \<notin> set fs" "set fs \<subseteq> ?D" using nin fs by auto
  note af = heap_add_free_fields [OF dl nD(2) n0 nD(1) apD nD(3) k(3)]
  have g: "usize (umem h1) c = usize ?m2 c" "uused (umem h1) c = uused ?m2 c" if "c \<in> ?D" for c
    using af(1) [OF _ _ _ that] unfolding h1 by auto
  have d: "distinct ?bs" using tiles_distinct [OF k(1)] .
  have "tiles (umem h1) (root h) (us @ b # n # w # ws) (root h + ubrk h)"
  proof (rule tiles_split [OF k(1) meta_eq_to_obj_eq [OF n_def] sz(1)])
    show "unat sz + 16 \<le> unat (usize (umem h) b)" using sz(2) by simp
    show "usize (umem h1) b = sz" using g(1) f2(1) by simp
    show "usize (umem h1) n = usize (umem h) b - sz - 16" using g(1) n2(1) by (simp add: header_size_def)
    show "usize (umem h1) c = usize (umem h) c" if "c \<in> set us \<union> set (w # ws)" for c
    proof -
      have "c \<in> ?D" "c \<in> set ?bs" "c \<noteq> b" using that d by auto
      then show ?thesis using g(1) f2(1) by simp
    qed
  qed
  moreover have "dlist (umem h1) 0 (ufree h1) (n # fs)" using af(2) by (simp add: h1)
  moreover have same: "uused (umem h1) c = uused (umem h) c" if "c \<in> set ?bs" for c using g(2) [of c] f2(2) [OF that] that by auto
  have "set (n # fs) = {c \<in> ?D. uused (umem h1) c = 0}"
  proof (rule set_eqI)
    fix c
    have D: "c \<in> ?D \<longleftrightarrow> c = n \<or> c \<in> set ?bs" by auto
    have f: "c \<in> set fs \<longleftrightarrow> c \<in> set ?bs \<and> uused (umem h) c = 0" by (simp only: k(4) mem_Collect_eq)
    show "c \<in> set (n # fs) \<longleftrightarrow> c \<in> {c \<in> ?D. uused (umem h1) c = 0}"
    proof (cases "c = n")
      case False
      then show ?thesis using same [of c] by (simp only: mem_Collect_eq D f list.set insert_iff) metis
    qed (use g(2) [OF nD(1)] n2(2) in simp)
  qed
  ultimately show "uheap_ok h1 (us @ b # n # w # ws) (n # fs)" using k nD(2) by (simp add: uheap_ok_def h1)
  have "uused (umem h) b = 0" using k(4) b by auto
  moreover have "usize (umem h1) c = usize (umem h) c" if "c \<in> set ?bs" "c \<noteq> b" for c using g(1) [of c] f2(1) [OF that(1)] that by auto
  ultimately show "live (umem h1) (us @ b # n # w # ws) = live (umem h) ?bs"
    using same g(2) [OF nD(1)] n2(2) d unfolding live_def by (auto; metis)
  show "usize (umem h1) b = sz" using g(1) f2(1) by simp
qed

lemma cut_block:
  assumes ok: "uheap_ok h bs fs" and b: "b \<in> set fs" and sz: "unat sz mod 4 = 0" "sz \<le> usize (umem h) b"
  defines "h1 \<equiv> object_header_try_split h b sz"
  shows "\<exists>bs' fs'. uheap_ok h1 bs' fs' \<and> b \<in> set fs' \<and> live (umem h1) bs' = live (umem h) bs \<and> sz \<le> usize (umem h1) b"
proof -
  have "b \<in> set bs" using uheap_okD(4) [OF ok] b by auto
  then obtain us vs where bs: "bs = us @ b # vs" by (blast dest: split_list)
  show ?thesis
  proof (cases vs)
    case Nil
    then have ok': "uheap_ok h (us @ [b]) fs" using ok bs by simp
    show ?thesis
    proof (cases "sz < usize (umem h) b")
      case True
      show ?thesis using cut_last [OF ok' b sz(1) True] b bs Nil unfolding h1_def by (metis order_refl)
    next
      case False
      then have "h1 = h" using uheap_ok_is_end [OF ok'] by (simp add: h1_def object_header_try_split_def Let_def)
      then show ?thesis using ok b sz(2) by blast
    qed
  next
    case (Cons w ws)
    then have ok': "uheap_ok h (us @ b # w # ws) fs" using ok bs by simp
    have bb: "unat b + 16 + unat (usize (umem h) b) < 4294967296" using tiles_at(3) [OF uheap_okD(1) [OF ok']] .
    have le: "unat sz \<le> unat (usize (umem h) b)" using sz(2) by (simp add: word_le_nat_alt)
    have s16: "unat (sz + header_size) = unat sz + 16" using bb le by (simp add: header_size_def unat_add_nowrap)
    show ?thesis
    proof (cases "unat sz + 16 < unat (usize (umem h) b)")
      case True
      note c = cut_inner [OF ok' b sz(1) True]
      have "b \<in> set ((b + (16 + sz)) # fs)" using b by simp
      then show ?thesis using c bs Cons unfolding h1_def by (metis order_refl)
    next
      case False
      then have "h1 = h" using uheap_ok_is_end [OF ok'] s16 by (simp add: h1_def object_header_try_split_def Let_def word_less_nat_alt)
      then show ?thesis using ok b sz(2) by blast
    qed
  qed
qed

text \<open>A new block behind the last one.\<close>

lemma bump_block:
  assumes ok: "uheap_ok h bs fs" and sz: "unat sz mod 4 = 0" "unat sz + 16 \<le> unat (heap_untouched_memory h)"
  defines "e \<equiv> heap_end h"
  defines "h1 \<equiv> h\<lparr>umem := object_header_new (umem h) e sz, ubrk := ubrk h + (header_size + sz)\<rparr>"
  shows "uheap_ok h1 (bs @ [e]) fs" and "live (umem h1) (bs @ [e]) = insert (e, sz) (live (umem h) bs)" and "e \<noteq> 0"
    and "usize (umem h1) e = sz"
proof -
  note k = uheap_okD [OF ok]
  have e: "e = root h + ubrk h" "unat e = unat (root h) + unat (ubrk h)" using k(9,10) by (simp_all add: e_def)
  have s16: "unat (header_size + sz) = 16 + unat sz" using sz(2) unat32_bound [of "heap_untouched_memory h"] by (simp add: header_size_def unat_add_nowrap)
  then have ub: "unat (ubrk h + (header_size + sz)) = unat (ubrk h) + 16 + unat sz"
    using sz(2) k(7,12) unat32_bound [of "total h"] by (simp add: unat_add_nowrap)
  have room: "unat e + 16 + unat sz < 4294967296" using e(2) sz(2) k(7,8,12) by simp
  have far: "hdr_apart e c" if "c \<in> set bs" for c
    using uheap_ok_block(2) [OF ok that] room hdr_apart_below(2) [of c e] e(2) by simp
  have nin: "e \<notin> set bs" using far by (metis add.right_neutral hdr_apart_def of_nat_0 zero_less_numeral)
  have f: "usize (umem h1) c = usize (umem h) c" "uused (umem h1) c = uused (umem h) c"
    "next_free (umem h1) c = next_free (umem h) c" "prev_free (umem h1) c = prev_free (umem h) c" if "c \<in> set bs" for c
    using far [OF that] by (simp_all add: h1_def object_header_new_def Let_def)
  have n: "usize (umem h1) e = sz" "uused (umem h1) e = 1" by (simp_all add: h1_def object_header_new_def Let_def)
  have "tiles (umem h1) (root h) bs e = tiles (umem h) (root h) bs e" by (rule tiles_cong) (use f(1) in simp)
  moreover have "e + (16 + sz) = root h + ubrk h1" by (simp add: e h1_def header_size_def add.assoc)
  ultimately have "tiles (umem h1) (root h) (bs @ [e]) (root h + ubrk h1)" using k(1) e(1) n(1) sz(1) room by (auto simp: utiles_append)
  moreover have fs: "set fs \<subseteq> set bs" using k(4) by auto
  then have "dlist (umem h1) 0 (ufree h1) fs" using dlist_cong [of fs "umem h1" "umem h"] f(3,4) k(2) by (auto simp: subset_iff h1_def)
  moreover have "set fs = {c \<in> set (bs @ [e]). uused (umem h1) c = 0}" using k(4) f(2) n(2) by auto
  moreover have "unat (ubrk h1) mod 4 = 0"
  proof -
    have "4 dvd unat (ubrk h)" "4 dvd unat sz" using k(5) sz(1) by (simp_all add: dvd_eq_mod_eq_0)
    then have "4 dvd unat (ubrk h) + 16 + unat sz" by simp
    then show ?thesis using ub by (simp add: h1_def flip: dvd_eq_mod_eq_0)
  qed
  ultimately show "uheap_ok h1 (bs @ [e]) fs" using k ub sz(2) by (simp add: uheap_ok_def h1_def)
  show "live (umem h1) (bs @ [e]) = insert (e, sz) (live (umem h) bs)" using f n by (auto simp: live_def)
  have "unat e \<noteq> 0" using e(2) k(6) by (simp add: word_eq_by_unat)
  then show "e \<noteq> 0" by auto
  show "usize (umem h1) e = sz" by (rule n)
qed

text \<open>Giving a block back.\<close>

lemma dealloc_block:
  assumes ok: "uheap_ok h bs fs" and b: "b \<in> set bs" "uused (umem h) b \<noteq> 0"
  defines "h1 \<equiv> heap_dealloc h (b + 16)"
  shows "uheap_ok h1 bs (b # fs)" and "live (umem h1) bs = {(c, n) \<in> live (umem h) bs. c \<noteq> b}"
proof -
  note k = uheap_okD [OF ok]
  let ?m = "object_header_set_used (umem h) b 0"
  let ?h = "h\<lparr>umem := ?m\<rparr>"
  have h1: "h1 = heap_add_free ?h b" by (simp add: h1_def heap_dealloc_def object_header_from_pointer_def header_size_def Let_def)
  note u = uheap_ok_update [OF ok b(1), of ?m _ 0, OF disjI2, OF refl]
  have dl: "dlist (umem ?h) 0 (ufree ?h) fs" using u(3) by simp
  have nb: "b \<notin> set fs" "set fs \<subseteq> set bs" using k(4) b(2) by auto
  note af = heap_add_free_fields [OF dl nb(1) uheap_ok_block(3) [OF ok b(1)] b(1) uheap_ok_apart [OF ok] nb(2) k(3)]
  have f: "usize (umem h1) c = usize (umem h) c" "uused (umem h1) c = (if c = b then 0 else uused (umem h) c)" if "c \<in> set bs" for c
    using af(1) [OF _ _ _ that] u(2) [OF that] unfolding h1 by (cases "c = b"; simp)+
  have "tiles (umem h1) (root h) bs (root h + ubrk h)" using k(1) tiles_cong [of bs "umem h1" "umem h"] f(1) by simp
  moreover have "dlist (umem h1) 0 (ufree h1) (b # fs)" using af(2) by (simp add: h1)
  moreover have "set (b # fs) = {c \<in> set bs. uused (umem h1) c = 0}"
    using k(4) f(2) b by (auto split: if_splits)
  ultimately show "uheap_ok h1 bs (b # fs)" using k nb(1) by (simp add: uheap_ok_def h1)
  show "live (umem h1) bs = {(c, n) \<in> live (umem h) bs. c \<noteq> b}" using f by (auto simp: live_def split: if_splits)
qed

subsection \<open>The search when no two free blocks are neighbours\<close>

fun free_apart :: "mem \<Rightarrow> u32 list \<Rightarrow> bool" where
  "free_apart m (b # n # bs) \<longleftrightarrow> \<not> (uused m b = 0 \<and> uused m n = 0) \<and> free_apart m (n # bs)"
| "free_apart m _ \<longleftrightarrow> True"

lemma free_apart_at: "free_apart m (us @ b # n # vs) \<Longrightarrow> \<not> (uused m b = 0 \<and> uused m n = 0)"
proof (induction us)
  case (Cons u us)
  then show ?case by (cases us) auto
qed simp

lemma best_fit_free_apart:
  assumes "uheap_ok h bs (xs @ ys)" and "free_apart (umem h) bs" and "unat sz mod 4 = 0"
    and "best = 0 \<or> best \<in> set (xs @ ys) \<and> sz \<le> usize (umem h) best"
  shows "\<exists>h' b. best_fit_from h best (head_of ys) sz = Some (h', b) \<and> (b = 0 \<and> h' = h \<or>
    uheap_ok h' bs (xs @ ys) \<and> b \<in> set (xs @ ys) \<and> sz \<le> usize (umem h') b \<and> live (umem h') bs = live (umem h) bs)"
  using assms
proof (induction ys arbitrary: xs best)
  case Nil
  then show ?case by (subst best_fit_from.simps) auto
next
  case (Cons y zs)
  let ?m = "umem h"
  note k = uheap_okD [OF Cons.prems(1)]
  have y: "y \<in> set bs" "uused ?m y = 0" using k(4) by auto
  have y0: "y \<noteq> 0" using uheap_ok_block(3) [OF Cons.prems(1) y(1)] .
  have nx: "next_free ?m y = head_of zs" using dlist_next [of ?m 0 "ufree h" xs y zs] k(2) by simp
  obtain us vs where bs: "bs = us @ y # vs" using split_list [OF y(1)] by blast
  have go: "\<exists>h' b. best_fit_from h best' (head_of zs) sz = Some (h', b) \<and> (b = 0 \<and> h' = h \<or>
      uheap_ok h' bs (xs @ y # zs) \<and> b \<in> set (xs @ y # zs) \<and> sz \<le> usize (umem h') b \<and> live (umem h') bs = live (umem h) bs)"
    if "best' = 0 \<or> best' \<in> set (xs @ y # zs) \<and> sz \<le> usize ?m best'" for best'
    using Cons.IH [of "xs @ [y]" best'] Cons.prems that by simp
  show ?case
  proof (cases "usize ?m y \<ge> sz")
    case True
    show ?thesis
    proof (cases "usize ?m y = sz")
      case True
      then have "best_fit_from h best (head_of (y # zs)) sz = Some (h, y)" using y0 by (subst best_fit_from.simps) simp
      then show ?thesis using Cons.prems(1) True by auto
    next
      case False
      then have "best_fit_from h best (head_of (y # zs)) sz =
          best_fit_from h (if best = 0 \<or> usize ?m y < usize ?m best then y else best) (head_of zs) sz"
        using y0 True nx by (subst best_fit_from.simps) (simp add: Let_def)
      moreover have "(if best = 0 \<or> usize ?m y < usize ?m best then y else best) \<in> set (xs @ y # zs)"
        "sz \<le> usize ?m (if best = 0 \<or> usize ?m y < usize ?m best then y else best)"
        using Cons.prems(4) True by auto
      ultimately show ?thesis using go by presburger
    qed
  next
    case False
    show ?thesis
    proof (cases "vs = [] \<and> sz - usize ?m y \<le> heap_untouched_memory h")
      case True
      have ok': "uheap_ok h (us @ [y]) (xs @ y # zs)" using Cons.prems(1) bs True by simp
      have e: "heap_is_end h y" using uheap_ok_is_end [OF ok'] by simp
      have "y \<in> set (xs @ y # zs)" "usize ?m y < sz" using False by auto
      note g = grow_last [OF ok' this(1) Cons.prems(3) this(2) conjunct2 [OF True]]
      have "best_fit_from h best (head_of (y # zs)) sz = Some (h\<lparr>ubrk := ubrk h + (sz - usize ?m y), umem := object_header_set_size ?m y sz\<rparr>, y)"
        using y0 False e True by (subst best_fit_from.simps) (simp add: Let_def)
      then show ?thesis using g True bs by simp
    next
      case no: False
      have "heap_is_end h y \<and> \<not> sz - usize ?m y \<le> heap_untouched_memory h \<or>
        \<not> heap_is_end h y \<and> \<not> object_header_is_null h (object_header_next ?m y) \<and> uused ?m (object_header_next ?m y) \<noteq> 0"
      proof (cases vs)
        case Nil
        then show ?thesis using no uheap_ok_is_end [of h us y "[]"] Cons.prems(1) bs by simp
      next
        case (Cons w ws)
        then have ok': "uheap_ok h (us @ y # w # ws) (xs @ y # zs)" using Cons.prems(1) bs by simp
        show ?thesis using uheap_ok_is_end [OF ok'] uheap_ok_next [OF ok'] free_apart_at [of ?m us y w ws] Cons.prems(2) y(2) bs Cons by simp
      qed
      then have "best_fit_from h best (head_of (y # zs)) sz = best_fit_from h best (head_of zs) sz"
        using y0 False nx by (subst best_fit_from.simps) (auto simp: Let_def)
      then show ?thesis using go [OF Cons.prems(4)] by simp
    qed
  qed
qed

lemma heap_alloc_free_apart:
  assumes ok: "uheap_ok h bs fs" and fa: "free_apart (umem h) bs" and sz: "sz \<noteq> 0" "unat sz + 19 < 4294967296"
    and r: "heap_alloc h sz 4 = Some (h', p)" "p \<noteq> 0"
  shows "\<exists>bs' fs' n. uheap_ok h' bs' fs' \<and> live (umem h') bs' = insert (p - 16, n) (live (umem h) bs) \<and> unat sz \<le> unat n \<and>
    (\<forall>k. (p - 16, k) \<notin> live (umem h) bs)"
proof -
  have sz3: "unat sz + 3 < 4294967296" using sz(2) by simp
  note al = alignment_4_bounds [OF sz3]
  let ?a = "alignment sz 4"
  have f: "ufree h = head_of ([] @ fs)" using dlist_head uheap_okD(2) [OF ok] by simp
  obtain h1 b where fb: "heap_find_block h ?a = Some (h1, b)" "b = 0 \<and> h1 = h \<or>
    uheap_ok h1 bs fs \<and> b \<in> set fs \<and> ?a \<le> usize (umem h1) b \<and> live (umem h1) bs = live (umem h) bs"
    using best_fit_free_apart [of h bs "[]" fs ?a 0] ok fa al(1) f unfolding heap_find_block_def heap_find_best_fit_def by auto
  show ?thesis
  proof (cases "b = 0")
    case True
    have a16: "unat (?a + 16) = unat ?a + 16" using al(3) sz(2) by (simp add: unat_add_nowrap)
    have h1: "h1 = h" using fb(2) True uheap_okD(2) [OF ok] dlist_zero [of "umem h"] uheap_ok_block(3) uheap_okD(4)
      by (metis (mono_tags, lifting) mem_Collect_eq)
    have room: "\<not> ?a + header_size > heap_untouched_memory h" using r fb(1) True h1 sz(1) by (auto simp: heap_alloc_def Let_def split: if_splits)
    then have h': "h' = h\<lparr>umem := object_header_new (umem h) (heap_end h) ?a, ubrk := ubrk h + (header_size + ?a)\<rparr>" "p = heap_end h + 16"
      using r fb(1) True h1 sz(1) by (simp_all add: heap_alloc_def Let_def object_header_get_pointer_def header_size_def)
    have "unat ?a + 16 \<le> unat (heap_untouched_memory h)" using room a16 by (simp add: header_size_def word_less_nat_alt)
    note bb = bump_block [OF ok al(1) this]
    have "heap_end h \<notin> set bs"
      using uheap_ok_block(2) [OF ok, of "heap_end h"] uheap_okD(9,10) [OF ok] by auto
    then have "\<forall>k. (heap_end h, k) \<notin> live (umem h) bs" by (auto simp: live_def)
    then show ?thesis using bb(1,2) al(2) h' by (intro exI [of _ "bs @ [heap_end h]"] exI [of _ fs] exI [of _ ?a]) simp
  next
    case False
    then have b: "uheap_ok h1 bs fs" "b \<in> set fs" "?a \<le> usize (umem h1) b" "live (umem h1) bs = live (umem h) bs" using fb(2) by auto
    let ?h2 = "object_header_try_split h1 b ?a"
    obtain bs2 fs2 where c: "uheap_ok ?h2 bs2 fs2" "b \<in> set fs2" "live (umem ?h2) bs2 = live (umem h) bs" "?a \<le> usize (umem ?h2) b"
      using cut_block [OF b(1,2) al(1) b(3)] b(4) by auto
    have h': "h' = heap_remove_free (?h2\<lparr>umem := object_header_set_used (umem ?h2) b 1\<rparr>) b" "p = b + 16"
      using r fb(1) False sz(1) by (simp_all add: heap_alloc_def Let_def object_header_get_pointer_def header_size_def)
    note u = use_block [OF c(1,2)]
    have "uused (umem h1) b = 0" using uheap_okD(4) [OF b(1)] b(2) by auto
    then have "\<forall>k. (b, k) \<notin> live (umem h) bs" unfolding b(4) [symmetric] by (auto simp: live_def)
    moreover have "unat sz \<le> unat (usize (umem ?h2) b)" using c(4) al(2) by (simp add: word_le_nat_alt)
    ultimately show ?thesis using u(1,2) c(3) h' by auto
  qed
qed

lemma live_blocks_apart:
  assumes "uheap_ok h bs fs" and "(p, n) \<in> live (umem h) bs" and "(q, k) \<in> live (umem h) bs" and "p \<noteq> q"
  shows "unat q + 16 + unat k \<le> unat p \<or> unat p + 16 + unat n \<le> unat q"
proof -
  have p: "p \<in> set bs" "n = usize (umem h) p" and q: "q \<in> set bs" "k = usize (umem h) q" using assms(2,3) by (auto simp: live_def)
  obtain us vs where bs: "bs = us @ p # vs" using split_list [OF p(1)] by blast
  show ?thesis
    using tiles_at(6,7) [of "umem h" "root h" us p vs "root h + ubrk h" q] uheap_okD(1) [OF assms(1)] bs p(2) q assms(4) by auto
qed

lemma live_block_within:
  assumes "uheap_ok h bs fs" and "(p - 16, n) \<in> live (umem h) bs"
  shows "unat (p - 16) + 16 = unat p" and "unat p + unat n \<le> unat (root h) + unat (ubrk h)"
proof -
  have p: "p - 16 \<in> set bs" "n = usize (umem h) (p - 16)" using assms(2) by (auto simp: live_def)
  have "unat ((p - 16) + 16) = unat (p - 16) + 16"
    using uheap_ok_block(2) [OF assms(1) p(1)] uheap_okD(7,8) [OF assms(1)] by (subst unat_add_nowrap) simp_all
  then show e: "unat (p - 16) + 16 = unat p" by simp
  show "unat p + unat n \<le> unat (root h) + unat (ubrk h)" using uheap_ok_block(2) [OF assms(1) p(1)] e p(2) by simp
qed

subsection \<open>What the clients get\<close>

lemma heap_new_ok: "p \<noteq> 0 \<Longrightarrow> unat p + unat n < 4294967296 \<Longrightarrow> uheap_ok (heap_new m p n) [] []"
  by (simp add: uheap_ok_def heap_new_def)

text \<open>C19. \<open>malloc\<close> returns: in a heap that is in order and has the size it doubles next, a request for more than
  no bytes, for which the addresses suffice, ends and does not give the null pointer, however many times the heap
  is expanded and free blocks are merged on the way; and the heap still ends where the memory of the program ends.\<close>

theorem malloc_returns:
  assumes "ulib_ok l" and "sz \<noteq> 0" and "unat (root (uheap_of l)) + 2 * (unat (ubrk (uheap_of l)) + unat sz + 19) < 4294967296"
  shows "\<exists>l' p. malloc l sz = Some (l', p) \<and> p \<noteq> 0 \<and> prog_end l' = root (uheap_of l') + total (uheap_of l')"
proof -
  obtain bs fs where ok: "uheap_ok (uheap_of l) bs fs" using assms(1) by (auto simp: ulib_ok_def)
  have "unat sz + 19 < 4294967296" using assms(3) by simp
  then obtain h' p where r: "heap_alloc (uheap_of l) sz 4 = Some (h', p)" "root h' = root (uheap_of l)" "total h' = total (uheap_of l)"
    "p = 0 \<longrightarrow> (\<exists>bs' fs'. uheap_ok h' bs' fs') \<and> ubrk h' = ubrk (uheap_of l) \<and> unat (total (uheap_of l)) < unat (ubrk (uheap_of l)) + unat sz + 19"
    using heap_alloc_returns [OF ok assms(2)] by blast
  show ?thesis
  proof (cases "p = 0")
    case True
    have "\<exists>l' p'. malloc_loop (l\<lparr>uheap_of := h'\<rparr>) sz p = Some (l', p') \<and> p' \<noteq> 0 \<and> prog_end l' = root (uheap_of l') + total (uheap_of l')"
      by (rule malloc_loop_returns) (use assms r True in \<open>auto simp: ulib_ok_def\<close>)
    then show ?thesis using r(1) by (simp add: malloc_def)
  next
    case False
    then have "malloc l sz = Some (l\<lparr>uheap_of := h'\<rparr>, p)" using r(1) by (subst malloc_def) (simp add: malloc_loop.simps [of _ _ p])
    then show ?thesis using False assms(1) r(2,3) by (simp add: ulib_ok_def)
  qed
qed

theorem malloc_returns_witness:
  "\<exists>l' p. malloc (startup (\<lambda>_. 0) 0x400010 0x401000) 5000 = Some (l', p) \<and> p \<noteq> 0 \<and>
    prog_end l' = root (uheap_of l') + total (uheap_of l')"
proof (rule malloc_returns)
  have "uheap_ok (heap_new (\<lambda>_. 0) 0x401000 1024) [] []" by (rule heap_new_ok) simp_all
  then show "ulib_ok (startup (\<lambda>_. 0) 0x400010 0x401000)"
    by (auto simp: ulib_ok_def startup_def sbrk_def heap_beg_def heap_new_def Let_def)
qed (simp_all add: startup_def sbrk_def heap_beg_def heap_new_def Let_def)

text \<open>C20. When no two free blocks are neighbours, what \<open>heap_alloc\<close> gives is a block that was not in use, with
  room for the bytes asked for and inside the part of the heap that is in use; its header and its bytes overlap neither the header nor the
  bytes of any block in use; and the heap is in order afterwards with the new block in use beside the old ones.\<close>

theorem user_alloc_disjoint:
  assumes "uheap_ok h bs fs" and "free_apart (umem h) bs" and "sz \<noteq> 0" and "unat sz + 19 < 4294967296"
    and "heap_alloc h sz 4 = Some (h', p)" and "p \<noteq> 0"
  shows "\<exists>bs' fs' n. uheap_ok h' bs' fs' \<and> live (umem h') bs' = insert (p - 16, n) (live (umem h) bs) \<and>
    (\<forall>k. (p - 16, k) \<notin> live (umem h) bs) \<and> unat sz \<le> unat n \<and> unat p + unat n \<le> unat (root h') + unat (ubrk h') \<and>
    (\<forall>(q, k) \<in> live (umem h) bs. unat q + 16 + unat k \<le> unat p - 16 \<or> unat p + unat n \<le> unat q)"
proof -
  obtain bs' fs' n where r: "uheap_ok h' bs' fs'" "live (umem h') bs' = insert (p - 16, n) (live (umem h) bs)" "unat sz \<le> unat n"
    "\<forall>k. (p - 16, k) \<notin> live (umem h) bs" using heap_alloc_free_apart [OF assms] by blast
  have new: "(p - 16, n) \<in> live (umem h') bs'" using r(2) by simp
  note w = live_block_within [OF r(1) new]
  have "unat q + 16 + unat k \<le> unat p - 16 \<or> unat p + unat n \<le> unat q" if "(q, k) \<in> live (umem h) bs" for q k
  proof -
    have "p - 16 \<noteq> q" "(q, k) \<in> live (umem h') bs'" using r(2,4) that by auto
    from live_blocks_apart [OF r(1) new this(2,1)] w(1) show ?thesis by linarith
  qed
  then show ?thesis using r w(2) by (intro exI [of _ bs'] exI [of _ fs'] exI [of _ n]) auto
qed

text \<open>A heap with one block of 8 bytes in use.\<close>

definition one_block :: "mem \<Rightarrow> uheap" where
  "one_block m = \<lparr>umem = object_header_new m 0x401000 8, root = 0x401000, total = 1024, ubrk = 24, ufree = 0\<rparr>"

lemma one_block_ok:
  "uheap_ok (one_block m) [0x401000] []" "live (umem (one_block m)) [0x401000] = {(0x401000, 8)}"
proof -
  have ok: "uheap_ok (heap_new m 0x401000 1024) [] []" by (rule heap_new_ok) simp_all
  have e: "heap_end (heap_new m 0x401000 1024) = 0x401000" by (simp add: heap_end_def heap_new_def)
  have "unat (8 :: u32) mod 4 = 0" "unat (8 :: u32) + 16 \<le> unat (heap_untouched_memory (heap_new m 0x401000 1024))"
    by (simp_all add: heap_untouched_memory_def heap_total_memory_def heap_touched_memory_def heap_new_def)
  note b = bump_block [OF ok this]
  show "uheap_ok (one_block m) [0x401000] []" "live (umem (one_block m)) [0x401000] = {(0x401000, 8)}"
    using b(1,2) e by (simp_all add: one_block_def heap_new_def header_size_def live_def)
qed

theorem user_alloc_disjoint_witness:
  "\<exists>h' p bs' fs' n. heap_alloc (one_block (\<lambda>_. 0)) 4 4 = Some (h', p) \<and> uheap_ok h' bs' fs' \<and>
    live (umem h') bs' = {(p - 16, n), (0x401000, 8)} \<and> 4 \<le> unat n \<and> (0x401018 \<le> unat p - 16 \<or> unat p + unat n \<le> 0x401000)"
proof -
  let ?h = "one_block (\<lambda>_. 0)"
  have "heap_alloc ?h 4 4 = Some (?h\<lparr>umem := object_header_new (umem ?h) 0x401018 4, ubrk := 44\<rparr>, 0x401028)"
    by (simp add: heap_alloc_def alignment_def heap_find_block_def heap_find_best_fit_def best_fit_from.simps [of _ _ 0]
        heap_untouched_memory_def heap_total_memory_def heap_touched_memory_def heap_end_def word_size_def header_size_def
        object_header_get_pointer_def one_block_def Let_def)
  then have al: "heap_alloc ?h 4 4 = Some (?h\<lparr>umem := object_header_new (umem ?h) 0x401018 4, ubrk := 44\<rparr>, 0x401028)" .
  have fa: "free_apart (umem ?h) [0x401000]" by simp
  let ?h' = "?h\<lparr>umem := object_header_new (umem ?h) 0x401018 4, ubrk := 44\<rparr>"
  obtain bs' fs' n where r: "uheap_ok ?h' bs' fs'" "live (umem ?h') bs' = insert (0x401028 - 16, n) (live (umem ?h) [0x401000])"
    "unat (4 :: u32) \<le> unat n"
    "\<forall>(q, k) \<in> live (umem ?h) [0x401000]. unat q + 16 + unat k \<le> unat (0x401028 :: u32) - 16 \<or> unat (0x401028 :: u32) + unat n \<le> unat q"
    using user_alloc_disjoint [OF one_block_ok(1) fa _ _ al] by auto
  have "0x401018 \<le> unat (0x401028 :: u32) - 16 \<or> unat (0x401028 :: u32) + unat n \<le> 0x401000"
    using r(4) unfolding one_block_ok(2) by simp
  then show ?thesis using al r(1-3) unfolding one_block_ok(2)
    by (intro exI [of _ ?h'] exI [of _ "0x401028"] exI [of _ bs'] exI [of _ fs'] exI [of _ n]) simp
qed

text \<open>C21. Every step on a heap that is in order leaves it in order: starting it, expanding it, looking for a block,
  which merges free ones, and giving a block in use back, which takes just that block out of use.\<close>

theorem user_heap_well_formed:
  assumes "uheap_ok h bs fs"
  shows "(p \<noteq> 0 \<and> unat p + unat n < 4294967296 \<longrightarrow> uheap_ok (heap_new m p n) [] []) \<and>
    (unat (root h) + unat (total h) + unat n < 4294967296 \<longrightarrow> uheap_ok (heap_expand h n) bs fs) \<and>
    (unat n mod 4 = 0 \<longrightarrow> (\<exists>h' b bs' fs'. heap_find_block h n = Some (h', b) \<and> uheap_ok h' bs' fs' \<and> live (umem h') bs' = live (umem h) bs)) \<and>
    ((b, k) \<in> live (umem h) bs \<longrightarrow> (\<exists>fs'. uheap_ok (heap_dealloc h (b + 16)) bs fs' \<and>
      live (umem (heap_dealloc h (b + 16))) bs = live (umem h) bs - {(b, k)}))"
proof (intro conjI impI)
  show "uheap_ok (heap_new m p n) [] []" if "p \<noteq> 0 \<and> unat p + unat n < 4294967296" using that heap_new_ok by blast
  show "uheap_ok (heap_expand h n) bs fs" if "unat (root h) + unat (total h) + unat n < 4294967296"
  proof -
    have "unat (total h + n) = unat (total h) + unat n" using that by (simp add: unat_add_nowrap)
    then show ?thesis using assms that by (simp add: uheap_ok_def heap_expand_def)
  qed
  show "\<exists>h' b bs' fs'. heap_find_block h n = Some (h', b) \<and> uheap_ok h' bs' fs' \<and> live (umem h') bs' = live (umem h) bs" if "unat n mod 4 = 0"
    using best_fit_returns [of h bs "[]" fs n 0] assms that dlist_head [OF uheap_okD(2) [OF assms]]
    unfolding heap_find_block_def heap_find_best_fit_def by auto
  show "\<exists>fs'. uheap_ok (heap_dealloc h (b + 16)) bs fs' \<and> live (umem (heap_dealloc h (b + 16))) bs = live (umem h) bs - {(b, k)}"
    if "(b, k) \<in> live (umem h) bs"
  proof -
    have b: "b \<in> set bs" "uused (umem h) b \<noteq> 0" using that by (auto simp: live_def)
    have "{(c, n) \<in> live (umem h) bs. c \<noteq> b} = live (umem h) bs - {(b, k)}" using that by (auto simp: live_def)
    then show ?thesis using dealloc_block [OF assms b] by auto
  qed
qed

theorem user_heap_well_formed_witness:
  "\<exists>fs'. uheap_ok (heap_dealloc (one_block (\<lambda>_. 0)) 0x401010) [0x401000] fs' \<and>
    live (umem (heap_dealloc (one_block (\<lambda>_. 0)) 0x401010)) [0x401000] = {}"
  using user_heap_well_formed [OF one_block_ok(1), where b = "0x401000" and k = 8 and p = 0 and n = 0] one_block_ok(2) [of "\<lambda>_. 0"] by simp

subsection \<open>Where neighbours are free\<close>

lemma load_other:
  assumes "4 \<le> unat (b - a)" and "4 \<le> unat (a - b)"
  shows "load_u32 (store_u32 m a v) b = load_u32 m b"
proof (rule load_u32_cong)
  fix i :: u32 assume i: "i < 4"
  have "\<not> unat (b + i - a) < 4"
  proof
    assume "unat (b + i - a) < 4"
    then obtain j :: u32 where j: "b + i - a = j" "unat j < 4" by blast
    then have d: "b - a = j - i" "a - b = i - j" by (simp_all add: algebra_simps)
    have "unat (j - i) = unat j - unat i \<or> unat (i - j) = unat i - unat j" by (meson nat_le_linear unat_diff_nowrap)
    then show False using assms i j(2) unfolding d by (auto simp: word_less_nat_alt)
  qed
  then show "store_u32 m a v (b + i) = m (b + i)" by (simp add: store_u32_def)
qed

lemma load_byte_other:
  assumes "4 \<le> unat (a - b)"
  shows "load_u32 (m(a := c)) b = load_u32 m b"
proof (rule load_u32_cong)
  fix i :: u32 assume "i < 4"
  then have "b + i \<noteq> a" using assms by (auto simp: word_less_nat_alt)
  then show "(m(a := c)) (b + i) = m (b + i)" by simp
qed

lemma byte_store_other: "4 \<le> unat (a - b) \<Longrightarrow> store_u32 m b v a = m a"
  by (simp add: store_u32_def)

lemmas run_simps = object_header_get_size_def object_header_set_size_def object_header_get_used_def object_header_set_used_def
  next_free_def set_next_free_def prev_free_def set_prev_free_def object_header_new_def object_header_next_def
  object_header_from_pointer_def object_header_get_pointer_def object_header_merge_def word_size_def header_size_def
  heap_new_def alignment_def heap_untouched_memory_def heap_touched_memory_def heap_total_memory_def heap_end_def
  object_header_is_null_def heap_is_end_def heap_add_free_def heap_remove_free_def object_header_try_split_def
  heap_find_best_fit_def heap_find_block_def heap_alloc_def heap_dealloc_def heap_expand_def startup_def sbrk_def heap_beg_def
  malloc_def free_def best_fit_from.simps malloc_loop.simps Let_def
  load_store_same load_other load_byte_other byte_store_other

text \<open>Where two neighbours are free \<open>malloc\<close> gives the same bytes twice: from the start of a program three blocks
  are taken, of 4, 20 and 4 bytes, the first two given back in this order; then 12 bytes are asked for and
  40, and the second answer starts before the first and covers it. The search had merged the block it had
  chosen into its neighbour.\<close>

theorem malloc_overlaps:
  "do {
     (l, a) \<leftarrow> malloc (startup m 0x400000 0x400000) 4;
     (l, b) \<leftarrow> malloc l 20;
     (l, c) \<leftarrow> malloc l 4;
     (l, x) \<leftarrow> malloc (free (free l a) b) 12;
     (l, y) \<leftarrow> malloc l 40;
     Some (a, b, x, y)
   } = Some (0x400010, 0x400024, 0x400024, 0x400010)"
  by (simp add: run_simps)

lemma upt_4: "[0..<4] = [0, 1, 2, 3 :: nat]"
  by (simp add: upt_rec)

text \<open>\<open>realloc\<close> loses the bytes of the block: it copies from the new block to the old one, so the first byte of the
  old block, 7, is not the first byte of the new one.\<close>

theorem realloc_loses_contents:
  "do {
     (l, a) \<leftarrow> malloc (startup (\<lambda>_. 0) 0x400000 0x400000) 4;
     (l, b) \<leftarrow> malloc l 4;
     let h = uheap_of l;
     (l, c) \<leftarrow> realloc (l\<lparr>uheap_of := h\<lparr>umem := (umem h)(a := 7)\<rparr>\<rparr>) a 8;
     Some (a, c, umem (uheap_of l) c)
   } = Some (0x400010, 0x400038, 0)"
  by (simp add: run_simps realloc_def heap_realloc.simps realloc_grow.simps realloc_loop.simps memcpy_def copy_loop_def upt_4)

end
