(* ===== verification/Print.thy ===== *)
theory Print
  imports Util Terminal
begin

text \<open>
  Formatted printing: \<open>partial_print\<close> and \<open>sprintf\<close> of \<open>src/util.c\<close>, \<open>kprintf\<close> of \<open>src/kutil.c\<close> and \<open>printf\<close> of
  \<open>src/user/stdlib.c\<close>. Each fills a local buffer of 512 bytes and 16 to spare, hands it on, and goes on where it
  stopped. The arguments are a list of words; a \<open>va_list\<close> is passed by value, so a second round starts with
  the first argument again.
\<close>

definition PARTIAL_PRINT_BUFFER_SIZE :: nat where "PARTIAL_PRINT_BUFFER_SIZE = 512"

text \<open>The C string at an address.\<close>

partial_function (option) c_string :: "mem \<Rightarrow> u32 \<Rightarrow> cstr option" where
  "c_string m p = (if m p = 0 then Some [] else do { s \<leftarrow> c_string m (p + 1); Some (m p # s) })"

declare c_string.simps [code]

text \<open>A number, written to \<open>numbuf\<close>, a memory of its own.\<close>

definition number_u :: "u32 \<Rightarrow> cstr option" where
  "number_u num = c_string (tostr_u (\<lambda>_. 0) 0 num) 0"

definition number_x :: "u32 \<Rightarrow> cstr option" where
  "number_x num = c_string (tostr_x (\<lambda>_. 0) 0 num) 0"

text \<open>The next argument; one that was not given is a read behind the last.\<close>

definition va_arg :: "u32 list \<Rightarrow> (u32 \<times> u32 list) option" where
  "va_arg args = (case args of [] \<Rightarrow> None | a # args \<Rightarrow> Some (a, args))"

text \<open>The loop of \<open>partial_print\<close>; \<open>out\<close> is what the buffer holds up to the pointer. A conversion writes past the
  space to spare when it is longer.\<close>

definition put_local :: "u8 list \<Rightarrow> cstr \<Rightarrow> u8 list option" where
  "put_local out s = (if length (out @ s) < PARTIAL_PRINT_BUFFER_SIZE + 16 then Some (out @ s) else None)"

partial_function (option) partial_print_from :: "mem \<Rightarrow> u32 \<Rightarrow> nat \<Rightarrow> u8 list \<Rightarrow> u32 list \<Rightarrow> (u8 list \<times> int) option" where
  "partial_print_from m message i out args = do {
     n \<leftarrow> strlen m message;
     if i < unat n \<and> length out < PARTIAL_PRINT_BUFFER_SIZE then
       let c = m (message + of_nat i)
       in if c = 37 then
            let i = i + 1;
                ty = m (message + of_nat i)
            in if ty = 37 then do { out \<leftarrow> put_local out [37]; partial_print_from m message (i + 1) out args }
               else if ty = 117 then do {
                 (num, args) \<leftarrow> va_arg args;
                 s \<leftarrow> number_u num;
                 out \<leftarrow> put_local out s;
                 partial_print_from m message (i + 1) out args }
               else if ty = 120 then do {
                 (num, args) \<leftarrow> va_arg args;
                 s \<leftarrow> number_x num;
                 out \<leftarrow> put_local out s;
                 partial_print_from m message (i + 1) out args }
               else if ty = 115 then do {
                 (str, args) \<leftarrow> va_arg args;
                 s \<leftarrow> (if str \<noteq> 0 then c_string m str else Some []);
                 out \<leftarrow> put_local out s;
                 partial_print_from m message (i + 1) out args }
               else Some (out, - 1)
          else do { out \<leftarrow> put_local out [c]; partial_print_from m message (i + 1) out args }
     else Some (out, int i)
   }"

declare partial_print_from.simps [code]

definition partial_print :: "mem \<Rightarrow> nat \<Rightarrow> u32 \<Rightarrow> u32 list \<Rightarrow> (u8 list \<times> int) option" where
  "partial_print m index message args = partial_print_from m message index [] args"

text \<open>The string in the local buffer, which was cleared: without a zero byte in it the read goes past its end.\<close>

definition local_string :: "u8 list \<Rightarrow> cstr option" where
  "local_string out = (if length out < PARTIAL_PRINT_BUFFER_SIZE + 16 \<or> 0 \<in> set out then Some (takeWhile (\<lambda>c. c \<noteq> 0) out) else None)"

text \<open>The loop that \<open>sprintf\<close>, \<open>_kprintf\<close> and \<open>_printf\<close> have in common: \<open>put\<close> is what each does with a full buffer, on a
  state from which the memory is read.\<close>

partial_function (option) print_loop ::
    "('s \<Rightarrow> mem) \<Rightarrow> (cstr \<Rightarrow> 's \<Rightarrow> 's option) \<Rightarrow> u32 \<Rightarrow> u32 list \<Rightarrow> nat \<Rightarrow> int \<Rightarrow> 's \<Rightarrow> ('s \<times> int) option" where
  "print_loop memory put message args index count s = do {
     n \<leftarrow> strlen (memory s) message;
     if index < unat n then do {
       (buf, i) \<leftarrow> partial_print (memory s) index message args;
       if i = - 1 then Some (s, - 1)
       else do {
         str \<leftarrow> local_string buf;
         s \<leftarrow> put str s;
         print_loop memory put message args (nat i) (count + int (length str)) s
       }
     } else Some (s, count)
   }"

declare print_loop.simps [code]

text \<open>\<open>sprintf\<close> copies to its buffer, without a terminator; the state is the memory and the pointer.\<close>

definition sprintf :: "mem \<Rightarrow> u32 \<Rightarrow> u32 \<Rightarrow> u32 list \<Rightarrow> (mem \<times> int) option" where
  "sprintf m buffer message args = do {
     ((m, b), n) \<leftarrow> print_loop fst (\<lambda>str (m, b). Some (poke m b str, b + of_nat (length str))) message args 0 0 (m, buffer);
     Some (m, n)
   }"

definition kprintf :: "mem \<Rightarrow> u32 \<Rightarrow> u32 list \<Rightarrow> tty \<Rightarrow> (tty \<times> int) option" where
  "kprintf m message args t = print_loop (\<lambda>_. m) (\<lambda>str t. term_print t str) message args 0 0 t"

text \<open>The strings that \<open>printf\<close> writes to the standard output, one call after the other.\<close>

definition printf :: "mem \<Rightarrow> u32 \<Rightarrow> u32 list \<Rightarrow> (cstr list \<times> int) option" where
  "printf m message args = print_loop (\<lambda>_. m) (\<lambda>str ws. Some (ws @ [str])) message args 0 0 []"

subsection \<open>What a format means\<close>

definition conversion :: "mem \<Rightarrow> u8 \<Rightarrow> u32 \<Rightarrow> cstr option" where
  "conversion m ty a =
     (if ty = 117 then Some (decimal (unat a))
      else if ty = 120 then Some ([48, 120] @ map (hex_char_at a) [7, 6, 5, 4, 3, 2, 1, 0])
      else if ty = 115 then (if a \<noteq> 0 then c_string m a else Some [])
      else None)"

fun formatted :: "mem \<Rightarrow> cstr \<Rightarrow> u32 list \<Rightarrow> cstr option" where
  "formatted m [] args = Some []"
| "formatted m (c # cs) args =
     (if c \<noteq> 37 then do { r \<leftarrow> formatted m cs args; Some (c # r) }
      else case cs of
        [] \<Rightarrow> None
      | ty # cs \<Rightarrow>
          if ty = 37 then do { r \<leftarrow> formatted m cs args; Some (37 # r) }
          else do {
            (a, args) \<leftarrow> va_arg args;
            s \<leftarrow> conversion m ty a;
            r \<leftarrow> formatted m cs args;
            Some (s @ r)
          })"

lemma c_string_at: "cstr_at m p s \<Longrightarrow> c_string m p = Some s"
proof (induction s arbitrary: p)
  case Nil
  then show ?case by (subst c_string.simps) simp
next
  case (Cons c s)
  then show ?case by (subst c_string.simps) simp
qed

lemma c_string_ok: "c_string m p = Some s \<Longrightarrow> 0 \<notin> set s"
proof (induction s arbitrary: p)
  case (Cons c s)
  then show ?case by (subst (asm) c_string.simps) (auto split: if_splits Option.bind_splits)
qed simp

lemma number_strings:
  "number_u a = Some (decimal (unat a))" "number_x a = Some ([48, 120] @ map (hex_char_at a) [7, 6, 5, 4, 3, 2, 1, 0])"
proof -
  show "number_u a = Some (decimal (unat a))"
    unfolding number_u_def using tostr_u_is_decimal [of 0 "\<lambda>_. 0" a] by (intro c_string_at) simp
  show "number_x a = Some ([48, 120] @ map (hex_char_at a) [7, 6, 5, 4, 3, 2, 1, 0])"
    unfolding number_x_def by (intro c_string_at) (use tostr_x_cells [of "\<lambda>_. 0" 0 a] hex_char_nonzero in simp)
qed

lemma conversion_nonzero: "conversion m ty a = Some s \<Longrightarrow> 0 \<notin> set s"
  using decimal_nonzero [of "unat a"] hex_char_nonzero c_string_ok
  by (auto simp: conversion_def simp del: list.map split: if_splits)

lemma formatted_nonzero: "formatted m cs args = Some r \<Longrightarrow> 0 \<notin> set cs \<Longrightarrow> 0 \<notin> set r"
proof (induction m cs args arbitrary: r rule: formatted.induct)
  case (2 m c cs args)
  show ?case
  proof (cases "c = 37")
    case False
    then obtain q where q: "formatted m cs args = Some q" "r = c # q" using 2(4) by (auto simp: Option.bind_eq_Some_conv)
    then show ?thesis using 2(1) [OF False q(1)] 2(5) by simp
  next
    case c: True
    then obtain ty cs' where cs: "cs = ty # cs'" using 2 by (cases cs) auto
    show ?thesis
    proof (cases "ty = 37")
      case True
      then obtain q where q: "formatted m cs' args = Some q" "r = 37 # q" using 2(4) unfolding cs c by (auto simp: Option.bind_eq_Some_conv)
      have "0 \<notin> set q" using 2(2) [of ty cs' q] q(1) cs c True 2(5) by simp
      then show ?thesis using q(2) by simp
    next
      case False
      then obtain a as t q where st: "va_arg args = Some (a, as)" "conversion m ty a = Some t" "formatted m cs' as = Some q" "r = t @ q"
        using 2(4) False unfolding cs c by (auto simp: Option.bind_eq_Some_conv)
      have "0 \<notin> set q" using 2(3) [of ty cs' "(a, as)" a as t q] st cs c False 2(5) by simp
      then show ?thesis using st(4) conversion_nonzero [OF st(2)] by simp
    qed
  qed
qed simp

text \<open>The rest of the message is printed into the buffer when it fits.\<close>

lemma message_char:
  assumes "cstr_at m message (pre @ c # cs)"
  shows "m (message + of_nat (length pre)) = c" and "c \<noteq> 0"
  using cstr_at_nth [OF assms, of "length pre"] by simp_all

lemma strlen_message:
  assumes "cstr_at m message msg" and "length msg < 4294967296"
  shows "strlen m message = Some (of_nat (length msg))" and "unat (of_nat (length msg) :: u32) = length msg"
  using strlen_cstr [OF assms(1)] unat_of_nat32 [OF assms(2)] by simp_all

lemma partial_print_rest:
  assumes "cstr_at m message (pre @ cs)" and "length (pre @ cs) < 4294967296" and "formatted m cs args = Some rest"
    and "length out + length rest < 512"
  shows "partial_print_from m message (length pre) out args = Some (out @ rest, int (length (pre @ cs)))"
  using assms
proof (induction m cs args arbitrary: pre out rest rule: formatted.induct)
  case (1 m args)
  then show ?case using strlen_message [OF 1(1)] by (subst partial_print_from.simps) simp
next
  case (2 m c cs args)
  note n = strlen_message [OF 2(4,5)]
  note ch = message_char [OF 2(4)]
  have small: "length out < PARTIAL_PRINT_BUFFER_SIZE" using 2(7) by (simp add: PARTIAL_PRINT_BUFFER_SIZE_def)
  have fits: "put_local out s = Some (out @ s)" if "length s \<le> length rest" for s
    using that 2(7) by (simp add: put_local_def PARTIAL_PRINT_BUFFER_SIZE_def)
  show ?case
  proof (cases "c = 37")
    case False
    then obtain q where q: "formatted m cs args = Some q" "rest = c # q" using 2(6) by (auto simp: Option.bind_eq_Some_conv)
    have "partial_print_from m message (length pre) out args = partial_print_from m message (length (pre @ [c])) (out @ [c]) args"
      using False n small ch fits [of "[c]"] q(2) by (subst partial_print_from.simps) simp
    then show ?thesis using 2(1) [OF False, of "pre @ [c]" q "out @ [c]"] 2(4-7) q by simp
  next
    case c: True
    then obtain ty cs' where cs: "cs = ty # cs'" using 2(6) by (cases cs) auto
    have ty: "m (message + of_nat (Suc (length pre))) = ty" using message_char(1) [of m message "pre @ [c]" ty cs'] 2(4) cs by simp
    show ?thesis
    proof (cases "ty = 37")
      case True
      then obtain q where q: "formatted m cs' args = Some q" "rest = 37 # q" using 2(6) unfolding cs c by (auto simp: Option.bind_eq_Some_conv)
      have "partial_print_from m message (length pre) out args = partial_print_from m message (length (pre @ [c, ty])) (out @ [37]) args"
        using True n small ch ty c fits [of "[37]"] q(2) by (subst partial_print_from.simps) simp
      then show ?thesis using 2(2) [of ty cs' "pre @ [c, ty]" q "out @ [37]"] c cs True 2(4-7) q by simp
    next
      case False
      then obtain a as t q where st: "va_arg args = Some (a, as)" "conversion m ty a = Some t" "formatted m cs' as = Some q" "rest = t @ q"
        using 2(6) False unfolding cs c by (auto simp: Option.bind_eq_Some_conv)
      have "partial_print_from m message (length pre) out args = partial_print_from m message (length (pre @ [c, ty])) (out @ t) as"
        using False n small ch ty c fits [of t] st number_strings [of a]
        by (subst partial_print_from.simps) (auto simp: conversion_def split: if_splits)
      then show ?thesis using 2(3) [of ty cs' "(a, as)" a as t "pre @ [c, ty]" q "out @ t"] c cs False 2(4-7) st by simp
    qed
  qed
qed

text \<open>A part of a message without arguments, up to a full buffer.\<close>

lemma partial_print_plain:
  assumes "cstr_at m message (pre @ cs)" and "length (pre @ cs) < 4294967296" and "formatted m cs [] = Some rest" and "length out \<le> 512"
  shows "\<exists>a b mid cs'. partial_print_from m message (length pre) out args = Some (out @ a, int (length (pre @ mid))) \<and> cs = mid @ cs' \<and>
    rest = a @ b \<and> formatted m cs' [] = Some b \<and> length (out @ a) \<le> 512 \<and> (cs' = [] \<or> length (out @ a) = 512)"
  using assms
proof (induction m cs "[] :: u32 list" arbitrary: pre out rest rule: formatted.induct)
  case (1 m)
  then show ?case using strlen_message [OF 1(1)]
    by (intro exI [of _ "[]"]) (subst partial_print_from.simps, simp)
next
  case (2 m c cs)
  note n = strlen_message [OF 2(4,5)]
  note ch = message_char [OF 2(4)]
  show ?case
  proof (cases "length out < 512")
    case False
    then have "partial_print_from m message (length pre) out args = Some (out, int (length pre))"
      using n by (subst partial_print_from.simps) (simp add: PARTIAL_PRINT_BUFFER_SIZE_def)
    then show ?thesis using False 2(6,7) by (intro exI [of _ "[]"] exI [of _ rest] exI [of _ "c # cs"]) simp
  next
    case small: True
    have fits: "put_local out [d] = Some (out @ [d])" for d using small by (simp add: put_local_def PARTIAL_PRINT_BUFFER_SIZE_def)
    show ?thesis
    proof (cases "c = 37")
      case False
      then obtain q where q: "formatted m cs [] = Some q" "rest = c # q" using 2(6) by (auto simp: Option.bind_eq_Some_conv)
      have "partial_print_from m message (length pre) out args = partial_print_from m message (length (pre @ [c])) (out @ [c]) args"
        using False n small ch fits by (subst partial_print_from.simps) (simp add: PARTIAL_PRINT_BUFFER_SIZE_def)
      moreover obtain a b mid cs' where r: "partial_print_from m message (length (pre @ [c])) (out @ [c]) args = Some ((out @ [c]) @ a, int (length ((pre @ [c]) @ mid)))"
        "cs = mid @ cs'" "q = a @ b" "formatted m cs' [] = Some b" "length ((out @ [c]) @ a) \<le> 512" "cs' = [] \<or> length ((out @ [c]) @ a) = 512"
        using 2(1) [OF False, of "pre @ [c]" q "out @ [c]"] 2(4,5) q small by auto
      ultimately show ?thesis using q(2)
        by (intro exI [of _ "c # a"] exI [of _ b] exI [of _ "c # mid"] exI [of _ cs']) simp
    next
      case c: True
      then obtain ty cs2 where cs: "cs = ty # cs2" using 2(6) by (cases cs) auto
      have ty: "m (message + of_nat (Suc (length pre))) = ty" using message_char(1) [of m message "pre @ [c]" ty cs2] 2(4) cs by simp
      have t37: "ty = 37" using 2(6) unfolding cs c by (auto simp: va_arg_def split: if_splits)
      then obtain q where q: "formatted m cs2 [] = Some q" "rest = 37 # q" using 2(6) unfolding cs c by (auto simp: Option.bind_eq_Some_conv)
      have "partial_print_from m message (length pre) out args = partial_print_from m message (length (pre @ [c, ty])) (out @ [37]) args"
        using t37 n small ch ty c fits by (subst partial_print_from.simps) (simp add: PARTIAL_PRINT_BUFFER_SIZE_def)
      moreover obtain a b mid cs' where r: "partial_print_from m message (length (pre @ [c, ty])) (out @ [37]) args = Some ((out @ [37]) @ a, int (length ((pre @ [c, ty]) @ mid)))"
        "cs2 = mid @ cs'" "q = a @ b" "formatted m cs' [] = Some b" "length ((out @ [37]) @ a) \<le> 512" "cs' = [] \<or> length ((out @ [37]) @ a) = 512"
        using 2(2) [of ty cs2 "pre @ [c, ty]" q "out @ [37]"] 2(4,5) c cs t37 q small by auto
      ultimately show ?thesis using q(2) cs
        by (intro exI [of _ "37 # a"] exI [of _ b] exI [of _ "c # ty # mid"] exI [of _ cs']) simp
    qed
  qed
qed

lemma local_string_whole: "0 \<notin> set out \<Longrightarrow> length out \<le> 512 \<Longrightarrow> local_string out = Some out"
  by (simp add: local_string_def PARTIAL_PRINT_BUFFER_SIZE_def takeWhile_eq_all_conv) metis

text \<open>One round is enough for a short text.\<close>

lemma print_loop_once:
  assumes "cstr_at (memory s) message msg" and "length msg < 4294967296" and "formatted (memory s) msg args = Some out" and "length out < 512"
    and "put out s = Some s'" and "cstr_at (memory s') message msg"
  shows "print_loop memory put message args 0 0 s = Some (if msg = [] then s else s', int (length out))"
proof -
  note n = strlen_message [OF assms(1,2)] and n' = strlen_message [OF assms(6,2)]
  have fin: "print_loop memory put message args (length msg) k s' = Some (s', k)" for k
    using n' by (subst print_loop.simps) simp
  show ?thesis
  proof (cases "msg = []")
    case True
    then show ?thesis using n assms(3) by (subst print_loop.simps) simp
  next
    case False
    have "partial_print (memory s) 0 message args = Some (out, int (length msg))"
      using partial_print_rest [of "memory s" message "[]" msg args out "[]"] assms(1-4) by (simp add: partial_print_def)
    moreover have "0 \<notin> set msg" using assms(1) by (simp add: cstr_at_def)
    then have "local_string out = Some out" using formatted_nonzero [OF assms(3)] assms(4) by (intro local_string_whole) simp_all
    ultimately show ?thesis using False n assms(5) fin by (subst print_loop.simps) simp
  qed
qed

text \<open>A plain text of any length is printed in parts.\<close>

lemma print_loop_plain:
  assumes "cstr_at m message (pre @ cs)" and "length (pre @ cs) < 4294967296" and "formatted m cs [] = Some rest"
    and "\<And>a b s. put (a @ b) s = do { s \<leftarrow> put a s; put b s }" and "put rest s = Some s'" and "\<And>s. put [] s = Some s"
  shows "print_loop (\<lambda>_. m) put message args (length pre) k s = Some (s', k + int (length rest))"
  using assms(1-3,5)
proof (induction "length cs" arbitrary: pre cs rest s k rule: less_induct)
  case less
  note n = strlen_message [OF less.prems(1,2)]
  show ?case
  proof (cases "cs = []")
    case True
    then show ?thesis using n less.prems(3,4) assms(6) by (subst print_loop.simps) simp
  next
    case False
    obtain a b mid cs' where p: "partial_print_from m message (length pre) [] args = Some (a, int (length (pre @ mid)))" "cs = mid @ cs'"
      "rest = a @ b" "formatted m cs' [] = Some b" "length a \<le> 512" "cs' = [] \<or> length a = 512"
      using partial_print_plain [OF less.prems(1-3), of "[]" args] by auto
    have "0 \<notin> set cs" using less.prems(1) by (simp add: cstr_at_def)
    then have "0 \<notin> set a" using formatted_nonzero [OF less.prems(3)] p(3) by simp
    then have l: "local_string a = Some a" using p(5) by (rule local_string_whole)
    obtain s1 where s1: "put a s = Some s1" "put b s1 = Some s'"
      using less.prems(4) unfolding p(3) assms(4) by (auto simp: Option.bind_eq_Some_conv)
    have step: "print_loop (\<lambda>_. m) put message args (length pre) k s = print_loop (\<lambda>_. m) put message args (length (pre @ mid)) (k + int (length a)) s1"
      using n False p(1) l s1(1) by (subst print_loop.simps) (simp add: partial_print_def nat_add_distrib)
    have "mid \<noteq> []"
    proof
      assume "mid = []"
      then have "cs' = cs" "rest = b" using p(2,4) less.prems(3) by simp_all
      then show False using p(3,6) False by auto
    qed
    then have "length cs' < length cs" using p(2) by simp
    then have "print_loop (\<lambda>_. m) put message args (length (pre @ mid)) (k + int (length a)) s1 = Some (s', k + int (length a) + int (length b))"
      using less.hyps [of cs' "pre @ mid" b s1 "k + int (length a)"] less.prems(1,2) p(2,4) s1(2) by simp
    then show ?thesis using step p(3) by simp
  qed
qed

lemma term_print_append: "term_print t (a @ b) = do { t \<leftarrow> term_print t a; term_print t b }"
  unfolding term_print_def by (induction a arbitrary: t) (auto simp: bind_assoc)

text \<open>C23. The printing in parts is the printing of the whole text that the format stands for, which is shorter than
  512 bytes: \<open>printf\<close> writes it to the standard output, \<open>kprintf\<close> shows it on the terminal and \<open>sprintf\<close> copies it to a
  buffer that does not overlap the format, and each returns its length; \<open>kprintf\<close> does so for a text of any length
  when the format takes no arguments.\<close>

theorem print_is_formatted:
  assumes "cstr_at m message msg" and "length msg < 2147483648" and "formatted m msg args = Some out"
  shows "(length out < 512 \<longrightarrow> (\<exists>ws. printf m message args = Some (ws, int (length out)) \<and> concat ws = out)) \<and>
    (length out < 512 \<or> formatted m msg [] = Some out \<longrightarrow> term_print t out = Some t' \<longrightarrow> kprintf m message args t = Some (t', int (length out))) \<and>
    (length out < 512 \<longrightarrow> (\<forall>i \<le> length msg. \<forall>j < length out. message + of_nat i \<noteq> buffer + of_nat j) \<longrightarrow>
      sprintf m buffer message args = Some (poke m buffer out, int (length out)))"
proof (intro conjI impI)
  have len: "length msg < 4294967296" using assms(2) by simp
  have nil: "out = []" if "msg = []" using assms(3) that by simp
  show "\<exists>ws. printf m message args = Some (ws, int (length out)) \<and> concat ws = out" if s: "length out < 512"
    using print_loop_once [of "\<lambda>_. m" "[]" message msg args out "\<lambda>str ws. Some (ws @ [str])" "[out]", OF assms(1) len assms(3) s] assms(1) nil
    by (auto simp: printf_def)
  show "kprintf m message args t = Some (t', int (length out))"
    if c: "length out < 512 \<or> formatted m msg [] = Some out" and t: "term_print t out = Some t'"
  proof (cases "length out < 512")
    case True
    have "msg = [] \<Longrightarrow> t' = t" using nil t by (simp add: term_print_def)
    then show ?thesis
      using print_loop_once [of "\<lambda>_. m" t message msg args out "\<lambda>str t. term_print t str" t', OF assms(1) len assms(3) True t assms(1)]
      by (auto simp: kprintf_def)
  next
    case False
    then have "print_loop (\<lambda>_. m) (\<lambda>str t. term_print t str) message args (length ([] :: cstr)) 0 t = Some (t', 0 + int (length out))"
      using c t assms(1) len by (intro print_loop_plain [of m message "[]" msg]) (simp_all add: term_print_append, simp_all add: term_print_def)
    then show ?thesis by (simp add: kprintf_def)
  qed
  show "sprintf m buffer message args = Some (poke m buffer out, int (length out))"
    if s: "length out < 512" and ap: "\<forall>i \<le> length msg. \<forall>j < length out. message + of_nat i \<noteq> buffer + of_nat j"
  proof -
    have same: "poke m buffer out (message + of_nat i) = m (message + of_nat i)" if "i \<le> length msg" for i
      by (rule poke_outside) (use ap that in blast)
    have "mem_bytes (poke m buffer out) message (length msg) = mem_bytes m message (length msg)"
      by (rule mem_bytes_cong) (use same in simp)
    then have at: "cstr_at (poke m buffer out) message msg" using assms(1) same [OF order_refl] by (simp add: cstr_at_def)
    then show ?thesis
      using print_loop_once [of fst "(m, buffer)" message msg args out "\<lambda>str (m, b). Some (poke m b str, b + of_nat (length str))"
          "(poke m buffer out, buffer + of_nat (length out))"] assms(1,3) len s nil
      by (auto simp: sprintf_def)
  qed
qed

theorem print_is_formatted_witness:
  "printf ((\<lambda>_. 0)(100 := 110, 101 := 61, 102 := 37, 103 := 117)) 100 [42] \<noteq> None \<and>
   sprintf ((\<lambda>_. 0)(100 := 110, 101 := 61, 102 := 37, 103 := 117)) 200 100 [42] =
     Some (poke ((\<lambda>_. 0)(100 := 110, 101 := 61, 102 := 37, 103 := 117)) 200 [110, 61, 0x34, 0x32], 4)"
proof -
  let ?m = "(\<lambda>_. 0)(100 := 110, 101 := 61, 102 := 37, 103 := 117) :: mem"
  have at: "cstr_at ?m 100 [110, 61, 37, 117]" by simp
  have f: "formatted ?m [110, 61, 37, 117] [42] = Some [110, 61, 0x34, 0x32]"
    by (simp add: va_arg_def conversion_def decimal_def digits_rev.simps)
  have ap: "\<forall>i \<le> length [110, 61, 37, 117 :: u8]. \<forall>j < length [110, 61, 0x34, 0x32 :: u8]. (100 :: u32) + of_nat i \<noteq> 200 + of_nat j"
    by (simp add: word_eq_by_unat unat_add_of_nat)
  show ?thesis using print_is_formatted [OF at _ f, of undefined undefined 200] ap by auto
qed

end
