(* ===== verification/Ulist.thy ===== *)
theory Ulist
  imports Kqueue
begin

text \<open>
  \<open>src/user/llist.c\<close>: the list of integers of the user programs, with nodes linked in both directions. From the
  head \<open>prev\<close> leads to the tail. The address of a new node is an argument; giving it back removes it from
  the store.
\<close>

record llist_ele =
  lvalue :: u32
  lnext :: u32
  lprev :: u32

record llist =
  lsize :: u32
  lhead :: u32
  ltail :: u32

type_synonym lstore = "u32 \<rightharpoonup> llist_ele"

definition llist_create :: llist where
  "llist_create = \<lparr>lsize = 0, lhead = 0, ltail = 0\<rparr>"

definition llist_size :: "llist \<Rightarrow> u32" where
  "llist_size l = lsize l"

definition llist_fpop :: "lstore \<times> llist \<Rightarrow> ((lstore \<times> llist) \<times> u32) option" where
  "llist_fpop = (\<lambda>(st, l). do {
     head \<leftarrow> st (lhead l);
     let value = lvalue head;
     let old = lhead l;
     let l = l\<lparr>lhead := lprev head\<rparr>;
     (st, l) \<leftarrow> (if lhead l \<noteq> 0 then do { e \<leftarrow> st (lhead l); Some (st(lhead l \<mapsto> e\<lparr>lnext := 0\<rparr>), l) }
                else Some (st, l\<lparr>ltail := 0\<rparr>));
     Some ((st(old := None), l\<lparr>lsize := lsize l - 1\<rparr>), value)
   })"

definition llist_bpop :: "lstore \<times> llist \<Rightarrow> ((lstore \<times> llist) \<times> u32) option" where
  "llist_bpop = (\<lambda>(st, l). do {
     tail \<leftarrow> st (ltail l);
     let value = lvalue tail;
     let old = ltail l;
     let l = l\<lparr>ltail := lnext tail\<rparr>;
     (st, l) \<leftarrow> (if ltail l \<noteq> 0 then do { e \<leftarrow> st (ltail l); Some (st(ltail l \<mapsto> e\<lparr>lprev := 0\<rparr>), l) }
                else Some (st, l\<lparr>lhead := 0\<rparr>));
     Some ((st(old := None), l\<lparr>lsize := lsize l - 1\<rparr>), value)
   })"

definition llist_fpush :: "lstore \<times> llist \<Rightarrow> u32 \<Rightarrow> u32 \<Rightarrow> (lstore \<times> llist) option" where
  "llist_fpush = (\<lambda>(st, l) p value. do {
     let ele = \<lparr>lvalue = value, lnext = 0, lprev = lhead l\<rparr>;
     let st = st(p \<mapsto> ele);
     let l = l\<lparr>lhead := p\<rparr>;
     (st, l) \<leftarrow> (if lprev ele \<noteq> 0 then do { e \<leftarrow> st (lprev ele); Some (st(lprev ele \<mapsto> e\<lparr>lnext := p\<rparr>), l) }
                else Some (st, l\<lparr>ltail := p\<rparr>));
     Some (st, l\<lparr>lsize := lsize l + 1\<rparr>)
   })"

definition llist_bpush :: "lstore \<times> llist \<Rightarrow> u32 \<Rightarrow> u32 \<Rightarrow> (lstore \<times> llist) option" where
  "llist_bpush = (\<lambda>(st, l) p value. do {
     let ele = \<lparr>lvalue = value, lnext = ltail l, lprev = 0\<rparr>;
     let st = st(p \<mapsto> ele);
     let l = l\<lparr>ltail := p\<rparr>;
     (st, l) \<leftarrow> (if lnext ele \<noteq> 0 then do { e \<leftarrow> st (lnext ele); Some (st(lnext ele \<mapsto> e\<lparr>lprev := p\<rparr>), l) }
                else Some (st, l\<lparr>lhead := p\<rparr>));
     Some (st, l\<lparr>lsize := lsize l + 1\<rparr>)
   })"

definition llist_fpeek :: "lstore \<times> llist \<Rightarrow> u32 option" where
  "llist_fpeek = (\<lambda>(st, l). map_option lvalue (st (lhead l)))"

definition llist_bpeek :: "lstore \<times> llist \<Rightarrow> u32 option" where
  "llist_bpeek = (\<lambda>(st, l). map_option lvalue (st (ltail l)))"

partial_function (option) llist_clear :: "lstore \<times> llist \<Rightarrow> (lstore \<times> llist) option" where
  "llist_clear x = (if lsize (snd x) \<noteq> 0 then do { (x, _) \<leftarrow> llist_fpop x; llist_clear x } else Some x)"

declare llist_clear.simps [code]

subsection \<open>The list it holds\<close>

text \<open>The addresses of the nodes from the head on.\<close>

fun lchain :: "lstore \<Rightarrow> u32 \<Rightarrow> u32 \<Rightarrow> u32 list \<Rightarrow> u32 list \<Rightarrow> bool" where
  "lchain st nx p [] xs \<longleftrightarrow> p = 0 \<and> xs = []"
| "lchain st nx p (a # as) xs \<longleftrightarrow> a = p \<and> p \<noteq> 0 \<and>
     (case (st p, xs) of (Some e, x # xs) \<Rightarrow> lnext e = nx \<and> lvalue e = x \<and> lchain st p (lprev e) as xs | _ \<Rightarrow> False)"

definition last_or :: "u32 \<Rightarrow> u32 list \<Rightarrow> u32" where
  "last_or p as = (if as = [] then p else last as)"

lemma last_or_simps [simp]: "last_or p [] = p" "last_or p (a # as) = last_or a as" "last_or p (as @ [a]) = a"
  by (simp_all add: last_or_def)

definition llist_is :: "lstore \<times> llist \<Rightarrow> u32 list \<Rightarrow> bool" where
  "llist_is = (\<lambda>(st, l) xs. \<exists>as. lchain st 0 (lhead l) as xs \<and> distinct as \<and> ltail l = last_or 0 as \<and>
     dom st = set as \<and> lsize l = of_nat (length xs))"

lemma lchain_length: "lchain st nx p as xs \<Longrightarrow> length as = length xs"
  by (induction as arbitrary: nx p xs) (auto split: option.splits list.splits)

lemma lchain_zero: "lchain st nx p as xs \<Longrightarrow> 0 \<notin> set as"
  by (induction as arbitrary: nx p xs) (auto split: option.splits list.splits)

lemma lchain_cong: "(\<And>a. a \<in> set as \<Longrightarrow> st' a = st a) \<Longrightarrow> lchain st' nx p as xs = lchain st nx p as xs"
proof (induction as arbitrary: nx p xs)
  case (Cons a as)
  show ?case
  proof (cases "a = p")
    case True
    then have "st' p = st p" using Cons.prems by simp
    then show ?thesis using Cons True by (auto split: option.splits list.splits)
  qed simp
qed simp

text \<open>The first node gets another successor; a node is added behind the last, or taken away there.\<close>

lemma lchain_relink:
  assumes "lchain st nx p (a # as) xs" and "a \<notin> set as"
  shows "\<exists>e. st p = Some e \<and> lchain (st(p \<mapsto> e\<lparr>lnext := nx'\<rparr>)) nx' p (a # as) xs"
proof -
  obtain e x ys where e: "a = p" "p \<noteq> 0" "st p = Some e" "xs = x # ys" "lvalue e = x" "lchain st p (lprev e) as ys"
    using assms(1) by (auto split: option.splits list.splits)
  have "lchain (st(p \<mapsto> e\<lparr>lnext := nx'\<rparr>)) p (lprev e) as ys" using e(6) assms(2) e(1) by (subst lchain_cong [of as _ st]) auto
  then show ?thesis using e by simp
qed

lemma lchain_append:
  assumes "lchain st nx p as xs" and "distinct as" and "n \<noteq> 0" and "n \<notin> set as" and "as \<noteq> []"
    and "st n = Some \<lparr>lvalue = v, lnext = last as, lprev = 0\<rparr>"
  shows "\<exists>e. st (last as) = Some e \<and> lchain (st(last as \<mapsto> e\<lparr>lprev := n\<rparr>)) nx p (as @ [n]) (xs @ [v])"
  using assms
proof (induction as arbitrary: nx p xs)
  case (Cons a as)
  then obtain e x ys where e: "a = p" "p \<noteq> 0" "st p = Some e" "xs = x # ys" "lvalue e = x" "lnext e = nx" "lchain st p (lprev e) as ys"
    by (auto split: option.splits list.splits)
  show ?case
  proof (cases "as = []")
    case True
    then have "lprev e = 0" "ys = []" using e(7) by simp_all
    then show ?thesis using e True Cons.prems by simp
  next
    case False
    have "\<exists>f. st (last as) = Some f \<and> lchain (st(last as \<mapsto> f\<lparr>lprev := n\<rparr>)) p (lprev e) (as @ [n]) (ys @ [v])"
      by (rule Cons.IH [OF e(7)]) (use Cons.prems(2-) False in simp_all)
    then obtain f where f: "st (last as) = Some f" "lchain (st(last as \<mapsto> f\<lparr>lprev := n\<rparr>)) p (lprev e) (as @ [n]) (ys @ [v])" by blast
    have "last as \<noteq> p" using False Cons.prems(2) e(1) last_in_set by fastforce
    then show ?thesis using f e False by (simp add: fun_upd_def)
  qed
qed simp

lemma lchain_butlast:
  assumes "lchain st nx p (as @ [n]) xs" and "distinct (as @ [n])" and "as \<noteq> []"
  shows "\<exists>e f. st n = Some f \<and> lnext f = last as \<and> st (last as) = Some e \<and> xs = butlast xs @ [lvalue f] \<and>
    lchain (st(last as \<mapsto> e\<lparr>lprev := 0\<rparr>)) nx p as (butlast xs)"
  using assms
proof (induction as arbitrary: nx p xs)
  case (Cons a as)
  then obtain e x ys where e: "a = p" "p \<noteq> 0" "st p = Some e" "xs = x # ys" "lvalue e = x" "lnext e = nx" "lchain st p (lprev e) (as @ [n]) ys"
    by (auto split: option.splits list.splits)
  show ?case
  proof (cases "as = []")
    case True
    then obtain f y where "lprev e = n" "st n = Some f" "lnext f = p" "ys = [y]" "lvalue f = y"
      using e(7) by (auto split: option.splits list.splits)
    then show ?thesis using e True by simp
  next
    case False
    have "\<exists>g f. st n = Some f \<and> lnext f = last as \<and> st (last as) = Some g \<and> ys = butlast ys @ [lvalue f] \<and>
        lchain (st(last as \<mapsto> g\<lparr>lprev := 0\<rparr>)) p (lprev e) as (butlast ys)"
      by (rule Cons.IH [OF e(7)]) (use Cons.prems(2) False in simp_all)
    then obtain g f where f: "st n = Some f" "lnext f = last as" "st (last as) = Some g" "ys = butlast ys @ [lvalue f]"
      "lchain (st(last as \<mapsto> g\<lparr>lprev := 0\<rparr>)) p (lprev e) as (butlast ys)" by blast
    have "last as \<noteq> p" using False Cons.prems(2) e(1) last_in_set by fastforce
    moreover have "ys \<noteq> []" using f(4) by auto
    ultimately show ?thesis using f e False by (simp add: fun_upd_def)
  qed
qed simp

subsection \<open>The operations\<close>

lemma llist_create_is: "llist_is (Map.empty, llist_create) []"
  by (auto simp: llist_is_def llist_create_def)

lemma llist_bpush_is:
  assumes "llist_is (st, l) xs" and "p \<noteq> 0" and "p \<notin> dom st"
  shows "\<exists>st' l'. llist_bpush (st, l) p v = Some (st', l') \<and> llist_is (st', l') (xs @ [v]) \<and> dom st' = insert p (dom st)"
proof -
  obtain as where as: "lchain st 0 (lhead l) as xs" "distinct as" "ltail l = last_or 0 as" "dom st = set as" "lsize l = of_nat (length xs)"
    using assms(1) by (auto simp: llist_is_def)
  have p: "p \<notin> set as" using assms(3) as(4) by simp
  show ?thesis
  proof (cases "as = []")
    case True
    then have "st = Map.empty" "xs = []" "lhead l = 0" "ltail l = 0" using as by auto
    then show ?thesis using assms(2) True as(5)
      by (auto simp: llist_bpush_def llist_is_def intro!: exI [of _ "[p]"])
  next
    case False
    let ?n = "\<lparr>lvalue = v, lnext = last as, lprev = 0\<rparr>"
    have c: "lchain (st(p \<mapsto> ?n)) 0 (lhead l) as xs" using as(1) p by (subst lchain_cong [of as _ st]) auto
    obtain e where e: "(st(p \<mapsto> ?n)) (last as) = Some e" "lchain ((st(p \<mapsto> ?n))(last as \<mapsto> e\<lparr>lprev := p\<rparr>)) 0 (lhead l) (as @ [p]) (xs @ [v])"
      using lchain_append [OF c as(2) assms(2) p False] by auto
    have "last as \<noteq> 0" using lchain_zero [OF as(1)] last_in_set [OF False] by metis
    then have t: "ltail l = last as" "ltail l \<noteq> 0" using as(3) False by (simp_all add: last_or_def)
    have "llist_bpush (st, l) p v = Some ((st(p \<mapsto> ?n))(last as \<mapsto> e\<lparr>lprev := p\<rparr>), l\<lparr>ltail := p, lsize := lsize l + 1\<rparr>)"
      using t e(1) by (auto simp: llist_bpush_def Let_def)
    moreover have "dom ((st(p \<mapsto> ?n))(last as \<mapsto> e\<lparr>lprev := p\<rparr>)) = set (as @ [p])" using as(4) False by auto
    ultimately show ?thesis using e(2) as(2,4,5) p
      by (intro exI [of _ "(st(p \<mapsto> ?n))(last as \<mapsto> e\<lparr>lprev := p\<rparr>)"] exI [of _ "l\<lparr>ltail := p, lsize := lsize l + 1\<rparr>"] conjI)
        (auto simp: llist_is_def intro!: exI [of _ "as @ [p]"])
  qed
qed

lemma llist_fpop_is:
  assumes "llist_is (st, l) (x # xs)"
  shows "\<exists>st' l'. llist_fpop (st, l) = Some ((st', l'), x) \<and> llist_is (st', l') xs"
proof -
  obtain as where as: "lchain st 0 (lhead l) as (x # xs)" "distinct as" "ltail l = last_or 0 as" "dom st = set as" "lsize l = of_nat (length (x # xs))"
    using assms by (auto simp: llist_is_def)
  then obtain h bs e where h: "as = h # bs" "h = lhead l" "h \<noteq> 0" "st h = Some e" "lvalue e = x" "lchain st h (lprev e) bs xs"
    by (cases as) (auto split: option.splits)
  show ?thesis
  proof (cases bs)
    case Nil
    then have "xs = []" "lprev e = 0" "dom st = {h}" using h as(4) by auto
    then show ?thesis using h as(5) Nil by (auto simp: llist_fpop_def llist_is_def intro!: exI [of _ "[]"])
  next
    case (Cons b cs)
    have d: "b \<notin> set cs" "h \<notin> set bs" using as(2) h(1) Cons by auto
    obtain f where f: "st (lprev e) = Some f" "lchain (st(lprev e \<mapsto> f\<lparr>lnext := 0\<rparr>)) 0 (lprev e) (b # cs) xs"
      using lchain_relink [of st h "lprev e" b cs xs 0] h(6) Cons d(1) by auto
    have b: "lprev e = b" "b \<noteq> 0" using h(6) Cons by auto
    let ?st = "(st(b \<mapsto> f\<lparr>lnext := 0\<rparr>))(h := None)"
    have "llist_fpop (st, l) = Some ((?st, l\<lparr>lhead := b, lsize := lsize l - 1\<rparr>), x)"
      using h b f(1) by (simp add: llist_fpop_def)
    moreover have "lchain ?st 0 b bs xs" using f(2) d(2) Cons b by (subst lchain_cong [of bs _ "st(b \<mapsto> f\<lparr>lnext := 0\<rparr>)"]) auto
    moreover have "dom ?st = set bs" using as(4) h(1) d(2) Cons by auto
    moreover have "distinct bs" "ltail l = last_or 0 bs" "lsize l - 1 = of_nat (length xs)" using as(2,3,5) h(1) Cons by simp_all
    ultimately have "llist_fpop (st, l) = Some ((?st, l\<lparr>lhead := b, lsize := lsize l - 1\<rparr>), x)"
      "llist_is (?st, l\<lparr>lhead := b, lsize := lsize l - 1\<rparr>) xs"
      unfolding llist_is_def by (auto intro!: exI [of _ bs] simp del: lchain.simps last_or_simps)
    then show ?thesis by blast
  qed
qed

lemma llist_fpush_is:
  assumes "llist_is (st, l) xs" and "p \<noteq> 0" and "p \<notin> dom st"
  shows "\<exists>st' l'. llist_fpush (st, l) p v = Some (st', l') \<and> llist_is (st', l') (v # xs) \<and> dom st' = insert p (dom st)"
proof -
  obtain as where as: "lchain st 0 (lhead l) as xs" "distinct as" "ltail l = last_or 0 as" "dom st = set as" "lsize l = of_nat (length xs)"
    using assms(1) by (auto simp: llist_is_def)
  have p: "p \<notin> set as" using assms(3) as(4) by simp
  show ?thesis
  proof (cases as)
    case Nil
    then have "st = Map.empty" "xs = []" "lhead l = 0" "ltail l = 0" using as by auto
    then show ?thesis using assms(2) as(5) by (auto simp: llist_fpush_def llist_is_def Let_def intro!: exI [of _ "[p]"])
  next
    case (Cons a cs)
    let ?n = "\<lparr>lvalue = v, lnext = 0, lprev = lhead l\<rparr>"
    let ?s = "st(p \<mapsto> ?n)"
    have c: "lchain ?s 0 (lhead l) as xs" using as(1) p by (subst lchain_cong [of as _ st]) auto
    have h: "lhead l = a" "a \<noteq> 0" "a \<noteq> p" using as(1) p Cons by auto
    have "a \<notin> set cs" using as(2) Cons by simp
    then obtain e where e: "?s a = Some e" "lchain (?s(a \<mapsto> e\<lparr>lnext := p\<rparr>)) p a as xs"
      using lchain_relink [of ?s 0 "lhead l" a cs xs p] c Cons h(1) by auto
    let ?st = "?s(a \<mapsto> e\<lparr>lnext := p\<rparr>)" and ?l = "l\<lparr>lhead := p, lsize := lsize l + 1\<rparr>"
    have "llist_fpush (st, l) p v = Some (?st, ?l)" using h e(1) by (simp add: llist_fpush_def Let_def)
    moreover have "lchain ?st 0 p (p # as) (v # xs)" using e(2) h assms(2) by simp
    moreover have "dom ?st = set (p # as)" "distinct (p # as)" "ltail l = last_or 0 (p # as)" "lsize l + 1 = of_nat (length (v # xs))"
      using as(2-5) p Cons by auto
    ultimately have "llist_fpush (st, l) p v = Some (?st, ?l)" "llist_is (?st, ?l) (v # xs)" "dom ?st = insert p (dom st)"
      unfolding llist_is_def using as(4) by (auto intro!: exI [of _ "p # as"] simp del: lchain.simps last_or_simps)
    then show ?thesis by blast
  qed
qed

lemma llist_bpop_is:
  assumes "llist_is (st, l) (xs @ [x])"
  shows "\<exists>st' l'. llist_bpop (st, l) = Some ((st', l'), x) \<and> llist_is (st', l') xs"
proof -
  obtain bs where bs: "lchain st 0 (lhead l) bs (xs @ [x])" "distinct bs" "ltail l = last_or 0 bs" "dom st = set bs" "lsize l = of_nat (length (xs @ [x]))"
    using assms by (auto simp: llist_is_def)
  then obtain as n where as: "bs = as @ [n]" using lchain_length [OF bs(1)] by (cases bs rule: rev_cases) auto
  show ?thesis
  proof (cases "as = []")
    case True
    then obtain e where "lhead l = n" "n \<noteq> 0" "st n = Some e" "lprev e = 0" "lnext e = 0" "xs @ [x] = [lvalue e]"
      using bs(1) as by (auto split: option.splits list.splits)
    then have n: "ltail l = n" "st n = Some e" "lnext e = 0" "xs = []" "lvalue e = x" using bs(3) as True by auto
    have "dom (st(n := None)) = {}" using bs(4) as True by auto
    then show ?thesis using n bs(5) by (auto simp: llist_bpop_def llist_is_def Let_def intro!: exI [of _ "[]"])
  next
    case False
    obtain e f where f: "st n = Some f" "lnext f = last as" "st (last as) = Some e" "lvalue f = x"
      "lchain (st(last as \<mapsto> e\<lparr>lprev := 0\<rparr>)) 0 (lhead l) as xs"
      using lchain_butlast [OF bs(1) [unfolded as] bs(2) [unfolded as] False] by auto
    have t: "ltail l = n" "last as \<noteq> 0" "last as \<noteq> n" "n \<notin> set as"
      using bs(2,3) as lchain_zero [OF bs(1)] last_in_set [OF False] by auto
    let ?st = "(st(last as \<mapsto> e\<lparr>lprev := 0\<rparr>))(n := None)" and ?l = "l\<lparr>ltail := last as, lsize := lsize l - 1\<rparr>"
    have "llist_bpop (st, l) = Some ((?st, ?l), x)" using t f by (simp add: llist_bpop_def Let_def)
    moreover have "lchain ?st 0 (lhead l) as xs" using f(5) t(4) by (subst lchain_cong [of as _ "st(last as \<mapsto> e\<lparr>lprev := 0\<rparr>)"]) auto
    moreover have "dom ?st = set as" "distinct as" "last as = last_or 0 as" "lsize l - 1 = of_nat (length xs)"
      using bs(2,4,5) as t False by (auto simp: last_or_def)
    ultimately have "llist_bpop (st, l) = Some ((?st, ?l), x)" "llist_is (?st, ?l) xs"
      unfolding llist_is_def by (auto intro!: exI [of _ as] simp del: lchain.simps last_or_simps)
    then show ?thesis by blast
  qed
qed

lemma llist_peek_is:
  "llist_is (st, l) (x # xs) \<Longrightarrow> llist_fpeek (st, l) = Some x"
  "llist_is (st, l) (xs @ [x]) \<Longrightarrow> llist_bpeek (st, l) = Some x"
proof -
  show "llist_is (st, l) (x # xs) \<Longrightarrow> llist_fpeek (st, l) = Some x"
    using llist_fpop_is [of st l x xs] by (auto simp: llist_fpop_def llist_fpeek_def Let_def Option.bind_eq_Some_conv)
  show "llist_is (st, l) (xs @ [x]) \<Longrightarrow> llist_bpeek (st, l) = Some x"
    using llist_bpop_is [of st l xs x] by (auto simp: llist_bpop_def llist_bpeek_def Let_def Option.bind_eq_Some_conv)
qed

lemma llist_is_size: "llist_is (st, l) xs \<Longrightarrow> length xs < 4294967296 \<Longrightarrow> lsize l = 0 \<longleftrightarrow> xs = []"
  by (auto simp: llist_is_def word_eq_by_unat unat_of_nat32)

lemma llist_clear_is:
  "llist_is (st, l) xs \<Longrightarrow> length xs < 4294967296 \<Longrightarrow> \<exists>l'. llist_clear (st, l) = Some (Map.empty, l') \<and> llist_is (Map.empty, l') []"
proof (induction xs arbitrary: st l)
  case Nil
  then have "st = Map.empty" by (auto simp: llist_is_def dest: lchain_length)
  then show ?case using Nil llist_is_size [OF Nil] by (subst llist_clear.simps) auto
next
  case (Cons x xs)
  obtain st' l' where r: "llist_fpop (st, l) = Some ((st', l'), x)" "llist_is (st', l') xs" using llist_fpop_is [OF Cons.prems(1)] by blast
  then have "llist_clear (st, l) = llist_clear (st', l')" using llist_is_size [OF Cons.prems] by (subst llist_clear.simps) simp
  then show ?case using Cons.IH [OF r(2)] Cons.prems(2) by simp
qed

subsection \<open>The list as a queue\<close>

text \<open>What the shell relies on: \<open>llist_bpush\<close> and \<open>llist_fpop\<close> are a queue.\<close>

fun ll_avail :: "lstore \<times> llist \<Rightarrow> u32 \<Rightarrow> bool" where
  "ll_avail (st, l) p \<longleftrightarrow> p \<noteq> 0 \<and> p \<notin> dom st"

interpretation ll: fifo llist_is ll_avail llist_bpush llist_fpop
proof
  fix s :: "lstore \<times> llist" and xs p x
  assume s: "llist_is s xs" "ll_avail s p" "length xs < 4294967295"
  obtain st l where sl: "s = (st, l)" by (cases s)
  obtain st' l' where r: "llist_bpush (st, l) p x = Some (st', l')" "llist_is (st', l') (xs @ [x])" "dom st' = insert p (dom st)"
    using llist_bpush_is [of st l xs p x] s sl by auto
  have "ll_avail (st', l') p'" if "ll_avail s p'" "p' \<noteq> p" for p' using that r(3) sl by auto
  then show "\<exists>s'. llist_bpush s p x = Some s' \<and> llist_is s' (xs @ [x]) \<and> (\<forall>p'. ll_avail s p' \<longrightarrow> p' \<noteq> p \<longrightarrow> ll_avail s' p')"
    using r sl by (intro exI [of _ "(st', l')"]) simp
next
  fix s :: "lstore \<times> llist" and x xs
  assume s: "llist_is s (x # xs)"
  obtain st l where "s = (st, l)" by (cases s)
  then show "\<exists>s'. llist_fpop s = Some (s', x) \<and> llist_is s' xs" using llist_fpop_is [of st l x xs] s by fastforce
qed

text \<open>C24. The linked list of the user programs is a sequence with two ends: pushing and popping at the front and at
  the back, and looking at both ends, do what they do on the sequence the nodes hold, for every sequence.\<close>

theorem llist_is_sequence:
  assumes "llist_is (st, l) xs"
  shows "(\<forall>p v. p \<noteq> 0 \<longrightarrow> p \<notin> dom st \<longrightarrow> (\<exists>s. llist_fpush (st, l) p v = Some s \<and> llist_is s (v # xs)) \<and>
      (\<exists>s. llist_bpush (st, l) p v = Some s \<and> llist_is s (xs @ [v]))) \<and>
    (\<forall>x ys. xs = x # ys \<longrightarrow> llist_fpeek (st, l) = Some x \<and> (\<exists>s. llist_fpop (st, l) = Some (s, x) \<and> llist_is s ys)) \<and>
    (\<forall>x ys. xs = ys @ [x] \<longrightarrow> llist_bpeek (st, l) = Some x \<and> (\<exists>s. llist_bpop (st, l) = Some (s, x) \<and> llist_is s ys)) \<and>
    llist_size l = of_nat (length xs)"
proof (intro conjI allI impI)
  fix p v assume "p \<noteq> 0" "p \<notin> dom st"
  then show "\<exists>s. llist_fpush (st, l) p v = Some s \<and> llist_is s (v # xs)" "\<exists>s. llist_bpush (st, l) p v = Some s \<and> llist_is s (xs @ [v])"
    using llist_fpush_is [OF assms] llist_bpush_is [OF assms] by blast+
next
  fix x ys assume "xs = x # ys"
  then show "llist_fpeek (st, l) = Some x" "\<exists>s. llist_fpop (st, l) = Some (s, x) \<and> llist_is s ys"
    using llist_peek_is(1) llist_fpop_is assms by blast+
next
  fix x ys assume "xs = ys @ [x]"
  then show "llist_bpeek (st, l) = Some x" "\<exists>s. llist_bpop (st, l) = Some (s, x) \<and> llist_is s ys"
    using llist_peek_is(2) llist_bpop_is assms by blast+
next
  show "llist_size l = of_nat (length xs)" using assms by (auto simp: llist_is_def llist_size_def)
qed

theorem llist_is_sequence_witness:
  "\<exists>s. llist_bpush (Map.empty, llist_create) 16 7 = Some s \<and> llist_is s [7]"
  using llist_is_sequence [OF llist_create_is] by force

end
