(* ===== verification/Progs.thy ===== *)
theory Progs
  imports Syscallthms Fsthms
begin

text \<open>
  The small programs of \<open>src/user/\<close>: \<open>cat.c\<close>, \<open>cp.c\<close>, \<open>tee.c\<close>, \<open>wc.c\<close>, \<open>ls.c\<close>, \<open>mkdir.c\<close> and \<open>echo.c\<close>. What a program asks the
  kernel for are calls on a state: \<open>read\<close> gives the bytes that were put into the buf and the result of the call;
  \<open>write\<close> gets the buf and the count. \<open>printf\<close> gets the formatted text. At the end two models of the kernel's
  side, the open file and the keyboard, are shown to be what the programs take their input to be.
\<close>

definition STDIN :: u32 where "STDIN = 0"
definition STDOUT :: u32 where "STDOUT = 1"

record stat_t =
  st_index :: u32
  st_isdir :: u8
  st_size :: u32
  st_blocks :: u32

record 's calls =
  c_read :: "'s \<Rightarrow> u32 \<Rightarrow> u32 \<Rightarrow> ('s \<times> u8 list \<times> u32) option"
  c_write :: "'s \<Rightarrow> u32 \<Rightarrow> u8 cells \<Rightarrow> u32 \<Rightarrow> 's option"
  c_open :: "'s \<Rightarrow> cstr \<Rightarrow> u32 \<Rightarrow> ('s \<times> u32) option"
  c_close :: "'s \<Rightarrow> u32 \<Rightarrow> 's option"
  c_opendir :: "'s \<Rightarrow> cstr \<Rightarrow> ('s \<times> u32) option"
  c_readdir :: "'s \<Rightarrow> u32 \<Rightarrow> ('s \<times> cstr \<times> u32) option"
  c_mkdir :: "'s \<Rightarrow> cstr \<Rightarrow> ('s \<times> u32) option"
  c_stat :: "'s \<Rightarrow> cstr \<Rightarrow> ('s \<times> stat_t \<times> u32) option"
  c_getcwd :: "'s \<Rightarrow> ('s \<times> cstr) option"
  c_printf :: "'s \<Rightarrow> cstr \<Rightarrow> 's option"

definition BUFFER_SIZE :: nat where "BUFFER_SIZE = 1024"

text \<open>The loop that \<open>cat\<close>, \<open>copy\<close> and \<open>tee\<close> have in common. The buf keeps what an earlier round put there; the result of
  \<open>read\<close> goes to \<open>write\<close> also when it is an error.\<close>

partial_function (option) pump :: "'s calls \<Rightarrow> u32 \<Rightarrow> u32 \<Rightarrow> u8 cells \<Rightarrow> 's \<Rightarrow> 's option" where
  "pump c srcfd destfd buf s = do {
     (s, bs, rsl) \<leftarrow> c_read c s srcfd (of_nat BUFFER_SIZE);
     buf \<leftarrow> copy_cells buf (List.map Some bs) 0 (length bs);
     if rsl = 0 then Some s
     else do {
       s \<leftarrow> c_write c s destfd buf rsl;
       pump c srcfd destfd buf s
     }
   }"

declare pump.simps [code]

text \<open>\<open>n\<close> rounds of the loop: the buf and the state after them where the loop still goes on, or the state
  where it has ended before; \<open>None\<close> is a call that does not return or a copy outside the buf.\<close>

primrec pump_rounds :: "'s calls \<Rightarrow> u32 \<Rightarrow> u32 \<Rightarrow> nat \<Rightarrow> u8 cells \<Rightarrow> 's \<Rightarrow> (u8 cells \<times> 's + 's) option" where
  "pump_rounds c srcfd destfd 0 buf s = Some (Inl (buf, s))"
| "pump_rounds c srcfd destfd (Suc n) buf s = do {
     (s, bs, rsl) \<leftarrow> c_read c s srcfd (of_nat BUFFER_SIZE);
     buf \<leftarrow> copy_cells buf (List.map Some bs) 0 (length bs);
     if rsl = 0 then Some (Inr s)
     else do {
       s \<leftarrow> c_write c s destfd buf rsl;
       pump_rounds c srcfd destfd n buf s
     }
   }"

lemma pump_after_rounds:
  "pump c fd d buf s = do {
     r \<leftarrow> pump_rounds c fd d n buf s;
     case r of Inl (buf, s) \<Rightarrow> pump c fd d buf s | Inr s \<Rightarrow> Some s
   }"
proof (induction n arbitrary: buf s)
  case (Suc n)
  show ?case by (subst pump.simps) (auto simp: Suc.IH [symmetric] intro!: Option.bind_cong)
qed simp

definition cat :: "'s calls \<Rightarrow> u32 \<Rightarrow> 's \<Rightarrow> 's option" where
  "cat c fd s = pump c fd STDOUT (fresh BUFFER_SIZE) s"

fun cat_files :: "'s calls \<Rightarrow> u32 \<Rightarrow> cstr list \<Rightarrow> 's \<Rightarrow> ('s \<times> u32) option" where
  "cat_files c status [] s = Some (s, status)"
| "cat_files c status (a # argv) s = do {
     (s, fd) \<leftarrow> c_open c s a 0;
     if fd <s 0 then do {
       s \<leftarrow> c_printf c s (bytes_of ''cat: error opening '' @ a @ [10]);
       cat_files c 1 argv s }
     else do {
       s \<leftarrow> cat c fd s;
       s \<leftarrow> c_close c s fd;
       cat_files c status argv s }
   }"

definition cat_main :: "'s calls \<Rightarrow> cstr list \<Rightarrow> 's \<Rightarrow> ('s \<times> u32) option" where
  "cat_main c argv s =
     (if length argv > 1 then cat_files c 0 (tl argv) s
      else do { s \<leftarrow> cat c STDIN s; Some (s, 0) })"

definition copy_fd :: "'s calls \<Rightarrow> u32 \<Rightarrow> u32 \<Rightarrow> 's \<Rightarrow> 's option" where
  "copy_fd c srcfd destfd s = pump c srcfd destfd (fresh BUFFER_SIZE) s"

definition cp_main :: "'s calls \<Rightarrow> cstr list \<Rightarrow> 's \<Rightarrow> ('s \<times> u32) option" where
  "cp_main c argv s =
     (if length argv \<ge> 3 then do {
        let src = argv ! 1;
        let dest = argv ! 2;
        (s, srcfd) \<leftarrow> c_open c s src 0;
        (s, destfd) \<leftarrow> c_open c s dest 3;
        if srcfd <s 0 \<or> destfd <s 0 then do {
          s \<leftarrow> c_printf c s (bytes_of ''cp: failed to copy file '' @ [39] @ src @ [39] @ bytes_of '' to destination '' @ [39] @ dest @ [39, 10]);
          Some (s, 2) }
        else do {
          s \<leftarrow> copy_fd c srcfd destfd s;
          s \<leftarrow> c_close c s srcfd;
          s \<leftarrow> c_close c s destfd;
          Some (s, 0) }
      } else do { s \<leftarrow> c_printf c s (bytes_of ''usage: cp [src] [dest]'' @ [10]); Some (s, 1) })"

text \<open>\<open>exit(1)\<close> with more than one argument; an \<open>open\<close> that failed is not noticed.\<close>

definition tee_main :: "'s calls \<Rightarrow> cstr list \<Rightarrow> 's \<Rightarrow> ('s \<times> u32) option" where
  "tee_main c argv s =
     (if length argv > 2 then Some (s, 1)
      else do {
        (s, fd) \<leftarrow> (if length argv = 2 then c_open c s (argv ! 1) 3 else Some (s, STDOUT));
        s \<leftarrow> pump c STDIN fd (fresh BUFFER_SIZE) s;
        s \<leftarrow> c_close c s fd;
        Some (s, 0) })"

partial_function (option) wc_loop :: "'s calls \<Rightarrow> u32 \<Rightarrow> u32 \<Rightarrow> 's \<Rightarrow> ('s \<times> u32) option" where
  "wc_loop c fd count s = do {
     (s, bs, rsl) \<leftarrow> c_read c s fd (of_nat BUFFER_SIZE);
     if rsl = 0 then Some (s, count) else wc_loop c fd (count + rsl) s
   }"

declare wc_loop.simps [code]

primrec wc_rounds :: "'s calls \<Rightarrow> u32 \<Rightarrow> nat \<Rightarrow> u32 \<Rightarrow> 's \<Rightarrow> (u32 \<times> 's + 's \<times> u32) option" where
  "wc_rounds c fd 0 count s = Some (Inl (count, s))"
| "wc_rounds c fd (Suc n) count s = do {
     (s, bs, rsl) \<leftarrow> c_read c s fd (of_nat BUFFER_SIZE);
     if rsl = 0 then Some (Inr (s, count)) else wc_rounds c fd n (count + rsl) s
   }"

lemma wc_after_rounds:
  "wc_loop c fd k s = do {
     r \<leftarrow> wc_rounds c fd n k s;
     case r of Inl (k, s) \<Rightarrow> wc_loop c fd k s | Inr x \<Rightarrow> Some x
   }"
proof (induction n arbitrary: k s)
  case (Suc n)
  show ?case by (subst wc_loop.simps) (auto simp: Suc.IH [symmetric] intro!: Option.bind_cong)
qed simp

definition wc :: "'s calls \<Rightarrow> u32 \<Rightarrow> 's \<Rightarrow> ('s \<times> u32) option" where
  "wc c fd s = wc_loop c fd 0 s"

fun wc_files :: "'s calls \<Rightarrow> u32 \<Rightarrow> cstr list \<Rightarrow> 's \<Rightarrow> ('s \<times> u32) option" where
  "wc_files c status [] s = Some (s, status)"
| "wc_files c status (a # argv) s = do {
     (s, fd) \<leftarrow> c_open c s a 0;
     if fd <s 0 then do {
       s \<leftarrow> c_printf c s (bytes_of ''wc: failed to open file '' @ [39] @ a @ [39, 10]);
       wc_files c 1 argv s }
     else do {
       (s, n) \<leftarrow> wc c fd s;
       s \<leftarrow> c_printf c s (a @ bytes_of '' : '' @ decimal (unat n) @ [10]);
       wc_files c status argv s }
   }"

definition wc_main :: "'s calls \<Rightarrow> cstr list \<Rightarrow> 's \<Rightarrow> ('s \<times> u32) option" where
  "wc_main c argv s =
     (if length argv = 1 then do {
        (s, n) \<leftarrow> wc c STDIN s;
        s \<leftarrow> c_printf c s (decimal (unat n) @ [10]);
        Some (s, 0) }
      else wc_files c 0 (tl argv) s)"

partial_function (option) ls_loop :: "'s calls \<Rightarrow> u32 \<Rightarrow> 's \<Rightarrow> 's option" where
  "ls_loop c fd s = do {
     (s, name, rsl) \<leftarrow> c_readdir c s fd;
     if rsl = 0 then Some s else do { s \<leftarrow> c_printf c s (name @ [10]); ls_loop c fd s }
   }"

declare ls_loop.simps [code]

definition ls :: "'s calls \<Rightarrow> cstr \<Rightarrow> 's \<Rightarrow> ('s \<times> u32) option" where
  "ls c address s = do {
     (s, fd) \<leftarrow> c_opendir c s address;
     if fd <s 0 then Some (s, 1)
     else do { s \<leftarrow> ls_loop c fd s; s \<leftarrow> c_close c s fd; Some (s, 0) }
   }"

fun ls_files :: "'s calls \<Rightarrow> u32 \<Rightarrow> cstr list \<Rightarrow> 's \<Rightarrow> ('s \<times> u32) option" where
  "ls_files c status [] s = Some (s, status)"
| "ls_files c status (a # argv) s = do { (s, r) \<leftarrow> ls c a s; ls_files c (status OR r) argv s }"

definition ls_main :: "'s calls \<Rightarrow> cstr list \<Rightarrow> 's \<Rightarrow> ('s \<times> u32) option" where
  "ls_main c argv s =
     (if length argv = 1 then do { (s, cwd) \<leftarrow> c_getcwd c s; (s, r) \<leftarrow> ls c cwd s; Some (s, 0 OR r) }
      else ls_files c 0 (tl argv) s)"

text \<open>A directory that is there is opened to find that out; the number 0, were it given, counts as not there.\<close>

fun mkdir_files :: "'s calls \<Rightarrow> u32 \<Rightarrow> cstr list \<Rightarrow> 's \<Rightarrow> ('s \<times> u32) option" where
  "mkdir_files c status [] s = Some (s, status)"
| "mkdir_files c status (a # argv) s = do {
     let error_message = bytes_of ''mkdir: failed to create directory '' @ [39] @ a @ [39, 10];
     (s, rsl) \<leftarrow> c_opendir c s a;
     if 0 <s rsl then do {
       s \<leftarrow> c_close c s rsl;
       s \<leftarrow> c_printf c s error_message;
       mkdir_files c 1 argv s }
     else do {
       (s, rsl) \<leftarrow> c_mkdir c s a;
       if rsl \<noteq> 0 then do { s \<leftarrow> c_printf c s error_message; mkdir_files c 1 argv s }
       else mkdir_files c status argv s }
   }"

definition mkdir_main :: "'s calls \<Rightarrow> cstr list \<Rightarrow> 's \<Rightarrow> ('s \<times> u32) option" where
  "mkdir_main c argv s =
     (if length argv = 1 then do { s \<leftarrow> c_printf c s (bytes_of ''mkdir: missing directory name'' @ [10]); Some (s, 1) }
      else mkdir_files c 0 (tl argv) s)"

fun stat_files :: "'s calls \<Rightarrow> u32 \<Rightarrow> cstr list \<Rightarrow> 's \<Rightarrow> ('s \<times> u32) option" where
  "stat_files c status [] s = Some (s, status)"
| "stat_files c status (a # argv) s = do {
     (s, st, rsl) \<leftarrow> c_stat c s a;
     if rsl = 0 then do {
       s \<leftarrow> c_printf c s ((if st_isdir st \<noteq> 0 then bytes_of ''dir'' else bytes_of ''file'') @ bytes_of '':'' @ a @
         bytes_of '' size='' @ decimal (unat (st_size st)) @ bytes_of '' blocks='' @ decimal (unat (st_blocks st)) @ [10]);
       stat_files c status argv s }
     else do {
       s \<leftarrow> c_printf c s (bytes_of ''invalid path: '' @ [39] @ a @ [39]);
       stat_files c 1 argv s }
   }"

definition stat_main :: "'s calls \<Rightarrow> cstr list \<Rightarrow> 's \<Rightarrow> ('s \<times> u32) option" where
  "stat_main c argv s =
     (if length argv = 1 then do { s \<leftarrow> c_printf c s (bytes_of ''usage: state [FILES...]'' @ [10]); Some (s, 0) }
      else stat_files c 0 (tl argv) s)"

fun echo_words :: "'s calls \<Rightarrow> cstr list \<Rightarrow> 's \<Rightarrow> 's option" where
  "echo_words c [] s = Some s"
| "echo_words c (a # argv) s = do { s \<leftarrow> c_printf c s (a @ [32]); echo_words c argv s }"

definition echo_main :: "'s calls \<Rightarrow> cstr list \<Rightarrow> 's \<Rightarrow> ('s \<times> u32) option" where
  "echo_main c argv s = do { s \<leftarrow> echo_words c (tl argv) s; s \<leftarrow> c_printf c s [10]; Some (s, 0) }"

subsection \<open>Input as a sequence of bytes\<close>

text \<open>What the programs take a number to be. \<open>ready s fd xs\<close>: the bytes \<open>xs\<close> can be read; a call may give fewer bytes than it
  was asked for, but gives some. \<open>left s fd xs\<close>: nothing comes after them. \<open>sunk s fd ys\<close>: the bytes \<open>ys\<close> were written.\<close>

locale byte_stream =
  fixes c :: "'s calls" and ready :: "'s \<Rightarrow> u32 \<Rightarrow> u8 list \<Rightarrow> bool"
  assumes next_law: "ready s fd xs \<Longrightarrow> xs \<noteq> [] \<Longrightarrow> 0 < n \<Longrightarrow> n \<le> 1024 \<Longrightarrow>
      \<exists>s' bs ys. c_read c s fd (of_nat n) = Some (s', bs, of_nat (length bs)) \<and> xs = bs @ ys \<and> bs \<noteq> [] \<and> length bs \<le> n \<and> ready s' fd ys"

locale byte_source = byte_stream c left for c :: "'s calls" and left :: "'s \<Rightarrow> u32 \<Rightarrow> u8 list \<Rightarrow> bool" +
  assumes end_law: "left s fd [] \<Longrightarrow> 0 < n \<Longrightarrow> n \<le> 1024 \<Longrightarrow> \<exists>s'. c_read c s fd (of_nat n) = Some (s', [], 0)"

locale byte_copy = byte_source c left for c :: "'s calls" and left :: "'s \<Rightarrow> u32 \<Rightarrow> u8 list \<Rightarrow> bool" +
  fixes sunk :: "'s \<Rightarrow> u32 \<Rightarrow> u8 list \<Rightarrow> bool"
  assumes sunk_read: "sunk s d ys \<Longrightarrow> c_read c s fd n = Some (s', bs, r) \<Longrightarrow> sunk s' d ys"
    and write_law: "left s fd xs \<Longrightarrow> sunk s d ys \<Longrightarrow> holds b bs \<Longrightarrow> 0 < length bs \<Longrightarrow> length bs \<le> 1024 \<Longrightarrow>
      \<exists>s'. c_write c s d b (of_nat (length bs)) = Some s' \<and> left s' fd xs \<and> sunk s' d (ys @ bs)"

context byte_source begin

lemma read_law:
  assumes "left s fd xs" and "0 < n" and "n \<le> 1024"
  shows "\<exists>s' bs ys. c_read c s fd (of_nat n) = Some (s', bs, of_nat (length bs)) \<and> xs = bs @ ys \<and> length bs \<le> n \<and>
    (bs = [] \<longleftrightarrow> xs = []) \<and> (xs \<noteq> [] \<longrightarrow> left s' fd ys)"
proof (cases "xs = []")
  case True
  then show ?thesis using end_law [of s fd n] assms by auto
next
  case False
  then show ?thesis using next_law [OF assms(1) False assms(2,3)] by metis
qed

lemma wc_counts:
  assumes "left s fd xs"
  shows "\<exists>s'. wc_loop c fd k s = Some (s', k + of_nat (length xs))"
  using assms
proof (induction "length xs" arbitrary: s xs k rule: less_induct)
  case less
  obtain s' bs ys where r: "c_read c s fd (of_nat 1024) = Some (s', bs, of_nat (length bs))" "xs = bs @ ys" "length bs \<le> 1024"
    "bs = [] \<longleftrightarrow> xs = []" "xs \<noteq> [] \<Longrightarrow> left s' fd ys"
    using read_law [OF less.prems, of 1024] by auto
  define r0 :: u32 where "r0 = of_nat (length bs)"
  have z: "r0 = 0 \<longleftrightarrow> xs = []" using r(3,4) of_nat32_inj [of "length bs" 0] by (auto simp: r0_def)
  have rd: "c_read c s fd (of_nat BUFFER_SIZE) = Some (s', bs, r0)" using r(1) unfolding r0_def BUFFER_SIZE_def .
  show ?case
  proof (cases "xs = []")
    case True
    then show ?thesis using z by (subst wc_loop.simps) (simp add: rd)
  next
    case False
    then have "r0 \<noteq> 0" using z by blast
    then have "wc_loop c fd k s = wc_loop c fd (k + r0) s'" unfolding wc_loop.simps [of c fd k s] rd by simp
    moreover have "k + r0 + of_nat (length ys) = k + of_nat (length xs)" using r(2) by (simp add: r0_def)
    moreover have "length ys < length xs" using r(2,4) False by (cases bs) simp_all
    ultimately show ?thesis using less.hyps [OF _ r(5) [OF False], of "k + r0"] by (simp add: add.assoc)
  qed
qed

end

context byte_copy begin

lemma pump_copies:
  assumes "left s fd xs" and "sunk s d ys" and "length buf = 1024"
  shows "\<exists>s'. pump c fd d buf s = Some s' \<and> sunk s' d (ys @ xs)"
  using assms
proof (induction "length xs" arbitrary: s xs ys buf rule: less_induct)
  case less
  obtain s' bs zs where r: "c_read c s fd (of_nat 1024) = Some (s', bs, of_nat (length bs))" "xs = bs @ zs" "length bs \<le> 1024"
    "bs = [] \<longleftrightarrow> xs = []" "xs \<noteq> [] \<Longrightarrow> left s' fd zs"
    using read_law [OF less.prems(1), of 1024] by auto
  define r0 :: u32 where "r0 = of_nat (length bs)"
  have z: "r0 = 0 \<longleftrightarrow> xs = []" using r(3,4) of_nat32_inj [of "length bs" 0] by (auto simp: r0_def)
  have rd: "c_read c s fd (of_nat BUFFER_SIZE) = Some (s', bs, r0)" using r(1) unfolding r0_def BUFFER_SIZE_def .
  have sunk': "sunk s' d ys" by (rule sunk_read [OF less.prems(2) r(1)])
  let ?b = "List.map Some bs @ drop (length bs) buf"
  have b: "copy_cells buf (List.map Some bs) 0 (length bs) = Some ?b" "length ?b = 1024" "holds ?b bs"
    using r(3) less.prems(3) by (simp_all add: copy_cells_def holds_def)
  show ?case
  proof (cases "xs = []")
    case True
    then show ?thesis using z sunk' by (subst pump.simps) (simp add: rd b(1))
  next
    case False
    then obtain s2 where w: "c_write c s' d ?b (of_nat (length bs)) = Some s2" "left s2 fd zs" "sunk s2 d (ys @ bs)"
      using write_law [OF r(5) sunk' b(3) _ r(3)] r(4) by auto
    have nz: "r0 \<noteq> 0" using z False by blast
    have "pump c fd d buf s = pump c fd d ?b s2"
      using nz unfolding pump.simps [of c fd d buf s] rd by (simp add: b(1) w(1) [folded r0_def])
    moreover have "length zs < length xs" using r(2,4) False by (cases bs) simp_all
    ultimately show ?thesis using less.hyps [OF _ w(2,3) b(2)] by (simp add: r(2))
  qed
qed

end

subsection \<open>An open file\<close>

text \<open>What \<open>syscall_read_disk\<close> does for a descriptor of a node, apart from the memory of the program and the table of
  descriptors, which \<open>syscall_read_disk_file\<close> below adds: the position moves on with what was read. What goes to the
  standard output is kept; \<open>write\<close> with a count that is not positive is refused.\<close>

record open_file =
  of_fs :: fs
  of_node :: nat
  of_pos :: u32
  of_fd :: u32
  of_out :: "u8 list"

lemma those_Some: "those (List.map Some xs) = Some xs"
  by (induction xs) simp_all

definition read_file :: "open_file \<Rightarrow> u32 \<Rightarrow> u32 \<Rightarrow> (open_file \<times> u8 list \<times> u32) option" where
  "read_file st fd len =
     (if fd = of_fd st then do {
        (w, str, ret) \<leftarrow> fs_read (of_fs st) (of_node st) (of_pos st) len;
        bytes \<leftarrow> those str;
        if ret = FS_ERR_DELETED then Some (st\<lparr>of_fs := w\<rparr>, bytes, SYSCALL_ERR_UNLINKED_FILE)
        else Some (st\<lparr>of_fs := w, of_pos := of_pos st + word_of_int ret\<rparr>, bytes, word_of_int ret)
      } else None)"

definition write_out :: "open_file \<Rightarrow> u32 \<Rightarrow> u8 cells \<Rightarrow> u32 \<Rightarrow> open_file option" where
  "write_out st fd buf len =
     (if fd \<noteq> STDOUT then None
      else if len \<le>s 0 then Some st
      else do { bytes \<leftarrow> those (take (unat len) buf); Some (st\<lparr>of_out := of_out st @ bytes\<rparr>) })"

text \<open>\<open>syscall_read_disk\<close> is that read, with the bytes put into the memory of the program and the new position into
  the descriptor; and what \<open>syscall_write\<close> sends to the terminal for the standard output, where it prints the bytes
  and resets the input of the keyboard, is what \<open>write_out\<close> keeps.\<close>

definition file_of :: "sys \<Rightarrow> nat \<Rightarrow> u32 \<Rightarrow> fd \<Rightarrow> nat \<Rightarrow> open_file" where
  "file_of s a i f node = \<lparr>of_fs = fs_for s a, of_node = node, of_pos = fd_pos f, of_fd = i, of_out = []\<rparr>"

definition set_pos :: "sys \<Rightarrow> nat \<Rightarrow> u32 \<Rightarrow> u32 \<Rightarrow> sys option" where
  "set_pos s a i pos = do {
     t \<leftarrow> tasks (kern s) a;
     f \<leftarrow> rd (records (table t)) (unat i);
     b \<leftarrow> wr (records (table t)) (unat i) (f\<lparr>fd_pos := pos\<rparr>);
     Some (set_task s a (t\<lparr>table := (table t)\<lparr>records := b\<rparr>\<rparr>))
   }"

lemma put_user_kern: "put_user s p bs = Some s' \<Longrightarrow> kern s' = kern s"
  by (auto simp: put_user_def Option.bind_eq_Some_conv)

lemma set_files_tasks: "tasks (kern (set_files s w)) = tasks (kern s)"
  by (simp add: set_files_def set_objs_def)

lemma set_pos_same:
  assumes "tasks (kern s) a = Some t" and "rd (records (table t)) (unat i) = Some f"
  shows "set_pos s a i (fd_pos f) = Some s"
proof -
  have "unat i < length (records (table t))" "records (table t) ! unat i = Some f"
    using assms(2) by (auto simp: rd_def split: if_splits)
  then have "wr (records (table t)) (unat i) f = Some (records (table t))" by (auto simp: wr_def list_update_same_conv)
  moreover have "(tasks (kern s))(a := Some t) = tasks (kern s)" using assms(1) by (simp add: fun_upd_idem)
  ultimately show ?thesis using assms by (simp add: set_pos_def set_task_def put_task_def)
qed

lemma syscall_read_disk_file:
  assumes "tasks (kern s) a = Some t" and "rd (records (table t)) (unat i) = Some f" and "fd_ptr f = Some node"
  shows "syscall_read_disk s a i f ptr len = do {
     (st, bytes, r) \<leftarrow> read_file (file_of s a i f node) i len;
     s \<leftarrow> put_user (set_files s (of_fs st)) ptr bytes;
     s \<leftarrow> set_pos s a i (of_pos st);
     Some (s, Ret r)
   }"
proof -
  have same: "set_pos s' a i (fd_pos f) = Some s'" and move: "set_pos s' a i (fd_pos f + word_of_int k) = move_fd s' a i k"
    if "put_user (set_files s w) ptr bytes = Some s'" for w bytes s' k
  proof -
    have t: "tasks (kern s') a = Some t" using put_user_kern [OF that] assms(1) by (simp add: set_files_tasks)
    show "set_pos s' a i (fd_pos f) = Some s'" using t assms(2) by (rule set_pos_same)
    show "set_pos s' a i (fd_pos f + word_of_int k) = move_fd s' a i k" using t assms(2) by (simp add: set_pos_def move_fd_def)
  qed
  show ?thesis
    using assms(3) same move
    by (auto simp: syscall_read_disk_def read_file_def file_of_def bind_assoc intro!: Option.bind_cong)
qed

lemma syscall_write_out:
  assumes "0 < sint len"
  shows "syscall_write_stdout s ptr len = do {
     bytes \<leftarrow> load_bytes (pages s) (cur_dir s) ptr (unat len);
     st \<leftarrow> write_out (st\<lparr>of_out := []\<rparr>) STDOUT (List.map Some bytes) len;
     x \<leftarrow> term_print_buffer (glb_term s) (of_out st);
     Some (s\<lparr>glb_term := x, kbd := (kbd s)\<lparr>keyboard_input_size := 0\<rparr>\<rparr>, Ret len)
   }"
proof -
  have "write_out (st\<lparr>of_out := []\<rparr>) STDOUT (List.map Some bytes) len = Some (st\<lparr>of_out := bytes\<rparr>)"
    if "load_bytes (pages s) (cur_dir s) ptr (unat len) = Some bytes" for bytes
    using assms load_bytes_length [OF that] by (simp add: write_out_def word_sle_eq those_Some)
  then show ?thesis by (auto simp: syscall_write_stdout_def intro!: Option.bind_cong)
qed

definition file_calls :: "open_file calls" where
  "file_calls = \<lparr>c_read = read_file, c_write = write_out, c_open = \<lambda>_ _ _. None, c_close = \<lambda>_ _. None, c_opendir = \<lambda>_ _. None,
     c_readdir = \<lambda>_ _. None, c_mkdir = \<lambda>_ _. None, c_stat = \<lambda>_ _. None, c_getcwd = \<lambda>_. None, c_printf = \<lambda>_ _. None\<rparr>"

definition file_left :: "open_file \<Rightarrow> u32 \<Rightarrow> u8 list \<Rightarrow> bool" where
  "file_left st fd xs \<longleftrightarrow> fd = of_fd st \<and> (\<exists>nd ys. inodes (of_fs st) (of_node st) = Some nd \<and> ilock nd = krwlock_init \<and>
     isvalid nd \<noteq> 0 \<and> file_is (vol (of_fs st)) nd ys \<and> length ys + 1024 \<le> 2147483648 \<and> unat (of_pos st) \<le> length ys \<and>
     xs = drop (unat (of_pos st)) ys)"

definition file_sunk :: "open_file \<Rightarrow> u32 \<Rightarrow> u8 list \<Rightarrow> bool" where
  "file_sunk st fd ys \<longleftrightarrow> fd = STDOUT \<and> of_out st = ys"

lemma fs_read_file:
  assumes "inodes s a = Some nd" and "ilock nd = krwlock_init" and "isvalid nd \<noteq> 0" and "file_is (vol s) nd ys"
    and "unat pos \<le> length ys" and "0 < n" and "n \<le> 1024" and "length ys + 1024 \<le> 2147483648"
  shows "\<exists>s'. fs_read s a pos (of_nat n) = Some (s', List.map Some (take n (drop (unat pos) ys)), int (length (take n (drop (unat pos) ys)))) \<and>
    vol s' = vol s \<and> inodes s' a = Some nd"
proof -
  let ?m = "nd\<lparr>ilock := fst (krwlock_read_in krwlock_init)\<rparr>"
  have u: "unat (of_nat n :: u32) = n" using assms(7) by (intro unat_of_nat32) simp
  have lr: "fs_node_rdlock s (Some a) = Some (put_node s a ?m)" using assms(1,2) by (rule node_locks(2))
  have ur: "fs_node_unlock (put_node s a ?m) (Some a) = Some (put_node (put_node s a ?m) a (nd\<lparr>ilock := krwlock_init\<rparr>))"
    by (subst node_unlock [of _ a ?m]) simp_all
  have fm: "file_is (vol s) ?m ys" using assms(4) by simp
  have "min n (length ys - unat pos) < 2147483648" using assms(7) by simp
  then have si: "sint (of_nat (min n (length ys - unat pos)) :: u32) = int (min n (length ys - unat pos))" by (rule sint_of_nat32)
  have "inode_read (vol s) ?m pos (of_nat n) = Some (List.map Some (take n (drop (unat pos) ys)), of_nat (min n (length ys - unat pos)))"
    using inode_read_file [OF fm assms(5), of "of_nat n", unfolded u] assms(5,7,8) by simp
  then have "fs_read s a pos (of_nat n) = Some (put_node (put_node s a ?m) a (nd\<lparr>ilock := krwlock_init\<rparr>),
      List.map Some (take n (drop (unat pos) ys)), int (length (take n (drop (unat pos) ys))))"
    using assms(3) by (simp add: fs_read_def lr ur si min.commute)
  moreover have "nd\<lparr>ilock := krwlock_init\<rparr> = nd" using assms(2) by simp
  ultimately show ?thesis by simp
qed

lemma read_file_left:
  assumes l: "file_left st fd xs" and n: "0 < n" "n \<le> 1024"
  shows "\<exists>st'. read_file st fd (of_nat n) = Some (st', take n xs, of_nat (length (take n xs))) \<and> file_left st' fd (drop n xs)"
proof -
  obtain nd ys where nd: "fd = of_fd st" "inodes (of_fs st) (of_node st) = Some nd" "ilock nd = krwlock_init"
    "isvalid nd \<noteq> 0" "file_is (vol (of_fs st)) nd ys" "length ys + 1024 \<le> 2147483648" "unat (of_pos st) \<le> length ys"
    "xs = drop (unat (of_pos st)) ys" using l by (auto simp: file_left_def)
  obtain w where w: "fs_read (of_fs st) (of_node st) (of_pos st) (of_nat n) = Some (w, List.map Some (take n xs), int (length (take n xs)))"
    "vol w = vol (of_fs st)" "inodes w (of_node st) = Some nd"
    using fs_read_file [OF nd(2-5,7) n nd(6)] nd(8) by auto
  let ?st = "st\<lparr>of_fs := w, of_pos := of_pos st + of_nat (length (take n xs))\<rparr>"
  have "int (length (take n xs)) \<noteq> FS_ERR_DELETED" by (simp add: FS_ERR_DELETED_def)
  then have "read_file st fd (of_nat n) = Some (?st, take n xs, of_nat (length (take n xs)))"
    using w(1) nd(1) by (simp add: read_file_def those_Some del: length_take)
  moreover have "file_left ?st fd (drop n xs)"
  proof -
    have le: "unat (of_pos st) + length (take n xs) \<le> length ys" using nd(7,8) by simp
    then have u: "unat (of_pos st + of_nat (length (take n xs))) = unat (of_pos st) + length (take n xs)"
      using nd(6) by (intro unat_add_of_nat) simp
    have "drop n xs = drop (unat (of_pos st) + length (take n xs)) ys" using nd(8) by (simp add: min_def add.commute)
    then show ?thesis unfolding file_left_def using nd(1,3-6) w(2,3) le u by (intro conjI exI [of _ nd] exI [of _ ys]) (simp_all del: length_take)
  qed
  ultimately show ?thesis by blast
qed

interpretation disk: byte_copy file_calls file_left file_sunk
proof
  fix st :: open_file and fd xs and n :: nat
  assume l: "file_left st fd xs" and xs: "xs \<noteq> []" and n: "0 < n" "n \<le> 1024"
  obtain st' where "read_file st fd (of_nat n) = Some (st', take n xs, of_nat (length (take n xs)))" "file_left st' fd (drop n xs)"
    using read_file_left [OF l n] by blast
  moreover have "xs = take n xs @ drop n xs" "take n xs \<noteq> []" "length (take n xs) \<le> n" using n xs by simp_all
  ultimately show "\<exists>s' bs ys. c_read file_calls st fd (of_nat n) = Some (s', bs, of_nat (length bs)) \<and> xs = bs @ ys \<and> bs \<noteq> [] \<and>
      length bs \<le> n \<and> file_left s' fd ys"
    unfolding file_calls_def calls.select_convs by blast
next
  fix st :: open_file and fd and n :: nat
  assume "file_left st fd []" "0 < n" "n \<le> 1024"
  then show "\<exists>s'. c_read file_calls st fd (of_nat n) = Some (s', [], 0)"
    using read_file_left [of st fd "[]" n] by (auto simp: file_calls_def)
next
  fix st :: open_file and d ys fd n st' bs r
  assume "file_sunk st d ys" "c_read file_calls st fd n = Some (st', bs, r)"
  then show "file_sunk st' d ys"
    by (auto simp: file_sunk_def file_calls_def read_file_def Option.bind_eq_Some_conv split: if_splits)
next
  fix st :: open_file and fd xs d ys bs and b :: "u8 cells"
  assume w: "file_left st fd xs" "file_sunk st d ys" "holds b bs" "0 < length bs" "length bs \<le> 1024"
  have si: "sint (of_nat (length bs) :: u32) = int (length bs)" "unat (of_nat (length bs) :: u32) = length bs"
    using w(5) by (auto intro!: sint_of_nat32 unat_of_nat32)
  then have "\<not> (of_nat (length bs) :: u32) \<le>s 0" using w(4) by (simp add: word_sle_eq)
  then have "c_write file_calls st d b (of_nat (length bs)) = Some (st\<lparr>of_out := of_out st @ bs\<rparr>)"
    using w(2,3) si by (simp add: file_calls_def write_out_def file_sunk_def holds_def those_Some)
  then show "\<exists>s'. c_write file_calls st d b (of_nat (length bs)) = Some s' \<and> file_left s' fd xs \<and> file_sunk s' d (ys @ bs)"
    using w(1,2) by (auto simp: file_left_def file_sunk_def)
qed

text \<open>C27. \<open>cat\<close> of an open file ends, and what it has written to the standard output is the file from its position on, byte
  for byte; \<open>wc\<close> ends with their number.\<close>

theorem cat_prints_file:
  assumes "inodes s a = Some nd" and "ilock nd = krwlock_init" and "isvalid nd \<noteq> 0" and "file_is (vol s) nd xs"
    and "length xs + 1024 \<le> 2147483648" and "unat pos \<le> length xs"
  shows "(\<exists>st. cat file_calls fd \<lparr>of_fs = s, of_node = a, of_pos = pos, of_fd = fd, of_out = out\<rparr> = Some st \<and>
      of_out st = out @ drop (unat pos) xs) \<and>
    (\<exists>st. wc file_calls fd \<lparr>of_fs = s, of_node = a, of_pos = pos, of_fd = fd, of_out = out\<rparr> =
      Some (st, of_nat (length xs - unat pos)))"
proof -
  let ?st = "\<lparr>of_fs = s, of_node = a, of_pos = pos, of_fd = fd, of_out = out\<rparr>"
  have l: "file_left ?st fd (drop (unat pos) xs)" using assms by (auto simp: file_left_def)
  have o: "file_sunk ?st STDOUT out" by (simp add: file_sunk_def)
  show ?thesis
    using disk.pump_copies [OF l o, of "fresh 1024"] disk.wc_counts [OF l, of 0]
    by (auto simp: cat_def wc_def BUFFER_SIZE_def file_sunk_def)
qed

theorem cat_prints_file_witness:
  "\<exists>s st. cat file_calls 3 \<lparr>of_fs = s, of_node = 1, of_pos = 0, of_fd = 3, of_out = []\<rparr> = Some st \<and> of_out st = [104, 105]"
proof -
  obtain v nd p where c: "inode_create 0 vol0 file0 (Some root0) None [97] = Some (v, nd, Some p, None)"
    "file_is v nd []" "stored v nd" "dir_is v p [([97], index nd)]" "stored v p" "pathbuf_name (ipath nd) = Some (Some [97])"
    "node_sectors nd \<inter> node_sectors p = {}" "unat (balloc_ptr v) \<le> 100"
    "ilock nd = krwlock_init" "isvalid nd = 1" "ilock p = krwlock_init" by (rule vol0_create_full)
  have f: "below v nd (Some p)" using c by (auto simp: below_def)
  obtain v' nd' where w: "file_is v' nd' (splice [] 0 [104, 105])" "same_node nd nd'"
    using inode_write_any [OF c(2) f, of "[Some 104, Some 105]" "[104, 105]" 2 0] c(8) by (auto simp: holds_def sectors_to_def)
  let ?s = "\<lparr>vol = v', inodes = (\<lambda>_. None)(1 := Some nd'), inodelist = \<lparr>buffer = [], size_v = 0, cap = 0\<rparr>, next_node = 2, raw_node = root0\<rparr> :: fs"
  have "ilock nd' = krwlock_init" "isvalid nd' = 1" using same_node_fields [OF w(2)] c(9,10) by simp_all
  then show ?thesis
    using cat_prints_file [of ?s 1 nd' "[104, 105]" 0 3 "[]"] w(1) by (auto simp: splice_def)
qed

subsection \<open>When reading fails\<close>

text \<open>A loop that asks only whether the result is zero goes round again on an error.\<close>

lemma wc_loop_never:
  assumes ev: "\<And>s. P s \<Longrightarrow> \<exists>s' bs e. c_read c s fd (of_nat BUFFER_SIZE) = Some (s', bs, e) \<and> e \<noteq> 0 \<and> P s'" and "P s"
  shows "wc_loop c fd k s = None"
proof -
  have "\<forall>x d k s y. wc_loop x d k s = Some y \<longrightarrow> x = c \<and> d = fd \<longrightarrow> \<not> P s"
  proof (rule wc_loop.fixp_induct)
    have ad: "(\<lambda>f. \<forall>x d k s y. curry (curry (curry f)) x d k s = Some y \<longrightarrow> x = c \<and> d = fd \<longrightarrow> \<not> P s) =
      (\<lambda>f. \<forall>z y. f z = Some y \<longrightarrow> (case z of (((x, d), k), s) \<Rightarrow> x = c \<and> d = fd \<longrightarrow> \<not> P s))" by (auto simp: curry_def)
    show "option.admissible (\<lambda>f. \<forall>x d k s y. curry (curry (curry f)) x d k s = Some y \<longrightarrow> x = c \<and> d = fd \<longrightarrow> \<not> P s)"
      unfolding ad by (rule option_admissible)
  next
    fix f :: "'a calls \<Rightarrow> u32 \<Rightarrow> u32 \<Rightarrow> 'a \<Rightarrow> ('a \<times> u32) option"
    assume IH: "\<forall>x d k s y. f x d k s = Some y \<longrightarrow> x = c \<and> d = fd \<longrightarrow> \<not> P s"
    have "\<not> P s" if r: "do { (s, bs, rsl) \<leftarrow> c_read c s fd (of_nat BUFFER_SIZE); if rsl = 0 then Some (s, k) else f c fd (k + rsl) s } = Some y" for k s y
    proof
      assume "P s"
      then obtain s' bs e where e: "c_read c s fd (of_nat BUFFER_SIZE) = Some (s', bs, e)" "e \<noteq> 0" "P s'" using ev by blast
      then have "f c fd (k + e) s' = Some y" using r by simp
      then show False using IH e(3) by blast
    qed
    then show "\<forall>x d k s y. do { (s, bs, rsl) \<leftarrow> c_read x s d (of_nat BUFFER_SIZE); if rsl = 0 then Some (s, k) else f x d (k + rsl) s } = Some y \<longrightarrow>
      x = c \<and> d = fd \<longrightarrow> \<not> P s" by blast
  qed simp
  then show ?thesis using assms(2) by (cases "wc_loop c fd k s") auto
qed

lemma pump_never:
  assumes ev: "\<And>s. P s \<Longrightarrow> \<exists>s' e. c_read c s fd (of_nat BUFFER_SIZE) = Some (s', [], e) \<and> e \<noteq> 0 \<and> (\<forall>b s''. c_write c s' d b e = Some s'' \<longrightarrow> P s'')"
    and "P s"
  shows "pump c fd d buf s = None"
proof -
  have "\<forall>x a b buf s y. pump x a b buf s = Some y \<longrightarrow> x = c \<and> a = fd \<and> b = d \<longrightarrow> \<not> P s"
  proof (rule pump.fixp_induct)
    have ad: "(\<lambda>f. \<forall>x a b buf s y. curry (curry (curry (curry f))) x a b buf s = Some y \<longrightarrow> x = c \<and> a = fd \<and> b = d \<longrightarrow> \<not> P s) =
      (\<lambda>f. \<forall>z y. f z = Some y \<longrightarrow> (case z of ((((x, a), b), buf), s) \<Rightarrow> x = c \<and> a = fd \<and> b = d \<longrightarrow> \<not> P s))" by (auto simp: curry_def)
    show "option.admissible (\<lambda>f. \<forall>x a b buf s y. curry (curry (curry (curry f))) x a b buf s = Some y \<longrightarrow> x = c \<and> a = fd \<and> b = d \<longrightarrow> \<not> P s)"
      unfolding ad by (rule option_admissible)
  next
    fix f :: "'a calls \<Rightarrow> u32 \<Rightarrow> u32 \<Rightarrow> u8 cells \<Rightarrow> 'a \<Rightarrow> 'a option"
    assume IH: "\<forall>x a b buf s y. f x a b buf s = Some y \<longrightarrow> x = c \<and> a = fd \<and> b = d \<longrightarrow> \<not> P s"
    have "\<not> P s" if r: "do { (s, bs, rsl) \<leftarrow> c_read c s fd (of_nat BUFFER_SIZE); buf \<leftarrow> copy_cells buf (List.map Some bs) 0 (length bs);
        if rsl = 0 then Some s else do { s \<leftarrow> c_write c s d buf rsl; f c fd d buf s } } = Some y" for buf s y
    proof
      assume "P s"
      then obtain s' e where e: "c_read c s fd (of_nat BUFFER_SIZE) = Some (s', [], e)" "e \<noteq> 0" "\<forall>b s''. c_write c s' d b e = Some s'' \<longrightarrow> P s''"
        using ev by blast
      then obtain s'' where w: "c_write c s' d buf e = Some s''" "f c fd d buf s'' = Some y"
        using r by (auto simp: copy_cells_def Option.bind_eq_Some_conv)
      then show False using IH e(3) by blast
    qed
    then show "\<forall>x a b buf s y. do { (s, bs, rsl) \<leftarrow> c_read x s a (of_nat BUFFER_SIZE); buf \<leftarrow> copy_cells buf (List.map Some bs) 0 (length bs);
        if rsl = 0 then Some s else do { s \<leftarrow> c_write x s b buf rsl; f x a b buf s } } = Some y \<longrightarrow> x = c \<and> a = fd \<and> b = d \<longrightarrow> \<not> P s" by blast
  qed simp
  then show ?thesis using assms(2) by (cases "pump c fd d buf s") auto
qed

lemma fs_read_deleted:
  assumes "inodes s a = Some nd" and "ilock nd = krwlock_init" and "isvalid nd = 0"
  shows "\<exists>s'. fs_read s a pos n = Some (s', [], FS_ERR_DELETED) \<and> inodes s' a = Some nd"
proof -
  let ?m = "nd\<lparr>ilock := fst (krwlock_read_in krwlock_init)\<rparr>"
  have lr: "fs_node_rdlock s (Some a) = Some (put_node s a ?m)" using assms(1,2) by (rule node_locks(2))
  have ur: "fs_node_unlock (put_node s a ?m) (Some a) = Some (put_node (put_node s a ?m) a (nd\<lparr>ilock := krwlock_init\<rparr>))"
    by (subst node_unlock [of _ a ?m]) simp_all
  have "nd\<lparr>ilock := krwlock_init\<rparr> = nd" using assms(2) by simp
  then show ?thesis using assms(3) by (simp add: fs_read_def lr ur)
qed

text \<open>A file that is open and was deleted: its node is there and is marked as not valid.\<close>

definition deleted_open :: "inode \<Rightarrow> open_file \<Rightarrow> bool" where
  "deleted_open nd st \<longleftrightarrow> inodes (of_fs st) (of_node st) = Some nd \<and> ilock nd = krwlock_init \<and> isvalid nd = 0"

lemma read_deleted:
  assumes "deleted_open nd st"
  shows "\<exists>w. c_read file_calls st (of_fd st) n = Some (st\<lparr>of_fs := w\<rparr>, [], SYSCALL_ERR_UNLINKED_FILE) \<and>
    deleted_open nd (st\<lparr>of_fs := w\<rparr>)"
  using fs_read_deleted [of "of_fs st" "of_node st" nd "of_pos st" n] assms
  by (auto simp: deleted_open_def read_file_def file_calls_def)

lemma error_result: "SYSCALL_ERR_UNLINKED_FILE \<noteq> 0" "SYSCALL_ERR_UNLINKED_FILE <=s 0"
  by (simp_all add: SYSCALL_ERR_UNLINKED_FILE_def word_sle_eq)

lemma pump_rounds_deleted:
  "deleted_open nd st \<Longrightarrow> \<exists>w. pump_rounds file_calls (of_fd st) STDOUT n buf st = Some (Inl (buf, st\<lparr>of_fs := w\<rparr>)) \<and>
    deleted_open nd (st\<lparr>of_fs := w\<rparr>)"
proof (induction n arbitrary: st)
  case 0
  then show ?case by (intro exI [of _ "of_fs st"]) simp
next
  case (Suc n)
  obtain w where w: "c_read file_calls st (of_fd st) (of_nat BUFFER_SIZE) = Some (st\<lparr>of_fs := w\<rparr>, [], SYSCALL_ERR_UNLINKED_FILE)"
    "deleted_open nd (st\<lparr>of_fs := w\<rparr>)" using read_deleted [OF Suc.prems] by blast
  have o: "c_write file_calls (st\<lparr>of_fs := w\<rparr>) STDOUT buf SYSCALL_ERR_UNLINKED_FILE = Some (st\<lparr>of_fs := w\<rparr>)"
    using error_result(2) by (simp add: file_calls_def write_out_def)
  show ?case using Suc.IH [OF w(2)] error_result(1) by (simp add: w(1) o copy_cells_def)
qed

lemma wc_rounds_deleted:
  "deleted_open nd st \<Longrightarrow> \<exists>w. wc_rounds file_calls (of_fd st) n k st =
    Some (Inl (k + of_nat n * SYSCALL_ERR_UNLINKED_FILE, st\<lparr>of_fs := w\<rparr>)) \<and> deleted_open nd (st\<lparr>of_fs := w\<rparr>)"
proof (induction n arbitrary: st k)
  case 0
  then show ?case by (intro exI [of _ "of_fs st"]) simp
next
  case (Suc n)
  obtain w where w: "c_read file_calls st (of_fd st) (of_nat BUFFER_SIZE) = Some (st\<lparr>of_fs := w\<rparr>, [], SYSCALL_ERR_UNLINKED_FILE)"
    "deleted_open nd (st\<lparr>of_fs := w\<rparr>)" using read_deleted [OF Suc.prems] by blast
  show ?case using Suc.IH [OF w(2), of "k + SYSCALL_ERR_UNLINKED_FILE"] error_result(1)
    by (simp add: w(1) algebra_simps)
qed

text \<open>C28. \<open>cat\<close> and \<open>wc\<close> of a file that was deleted after it was opened run forever. However many rounds their loops have
  made, no call has failed to return and they go on: every \<open>read\<close> has given no byte and the error, which is not the
  zero that ends a loop. \<open>cat\<close> has printed nothing, \<open>wc\<close> has added up the error numbers, and neither has a result.\<close>

theorem cat_deleted_never_returns:
  assumes "inodes (of_fs st) (of_node st) = Some nd" and "ilock nd = krwlock_init" and "isvalid nd = 0"
  shows "(\<exists>w. pump_rounds file_calls (of_fd st) STDOUT n (fresh BUFFER_SIZE) st = Some (Inl (fresh BUFFER_SIZE, st\<lparr>of_fs := w\<rparr>)) \<and>
      (\<exists>w'. c_read file_calls (st\<lparr>of_fs := w\<rparr>) (of_fd st) (of_nat BUFFER_SIZE) =
        Some (st\<lparr>of_fs := w'\<rparr>, [], SYSCALL_ERR_UNLINKED_FILE))) \<and>
    (\<exists>w. wc_rounds file_calls (of_fd st) n 0 st = Some (Inl (of_nat n * SYSCALL_ERR_UNLINKED_FILE, st\<lparr>of_fs := w\<rparr>))) \<and>
    cat file_calls (of_fd st) st = None \<and> wc file_calls (of_fd st) st = None"
proof -
  have d: "deleted_open nd st" using assms by (simp add: deleted_open_def)
  let ?P = "\<lambda>st'. deleted_open nd st' \<and> of_fd st' = of_fd st"
  have read: "\<exists>w. c_read file_calls st' (of_fd st) k = Some (st'\<lparr>of_fs := w\<rparr>, [], SYSCALL_ERR_UNLINKED_FILE) \<and> ?P (st'\<lparr>of_fs := w\<rparr>)"
    if "?P st'" for st' :: open_file and k using read_deleted [of nd st' k] that by auto
  have "wc_loop file_calls (of_fd st) 0 st = None"
    using d by (intro wc_loop_never [of ?P]) (use read error_result(1) in fastforce)+
  moreover have "pump file_calls (of_fd st) STDOUT (fresh BUFFER_SIZE) st = None"
  proof (intro pump_never [of ?P])
    fix st' :: open_file assume "?P st'"
    then obtain w where w: "c_read file_calls st' (of_fd st) (of_nat BUFFER_SIZE) = Some (st'\<lparr>of_fs := w\<rparr>, [], SYSCALL_ERR_UNLINKED_FILE)"
      "?P (st'\<lparr>of_fs := w\<rparr>)" using read [of st' "of_nat BUFFER_SIZE"] by blast
    have "?P s''" if "c_write file_calls (st'\<lparr>of_fs := w\<rparr>) STDOUT b SYSCALL_ERR_UNLINKED_FILE = Some s''" for b s''
      using that w(2) error_result(2) by (simp add: file_calls_def write_out_def)
    then show "\<exists>s' e. c_read file_calls st' (of_fd st) (of_nat BUFFER_SIZE) = Some (s', [], e) \<and> e \<noteq> 0 \<and>
        (\<forall>b s''. c_write file_calls s' STDOUT b e = Some s'' \<longrightarrow> ?P s'')"
      using w(1) error_result(1) by blast
  qed (use d in simp)
  moreover obtain w where w: "pump_rounds file_calls (of_fd st) STDOUT n (fresh BUFFER_SIZE) st =
      Some (Inl (fresh BUFFER_SIZE, st\<lparr>of_fs := w\<rparr>))" "deleted_open nd (st\<lparr>of_fs := w\<rparr>)"
    using pump_rounds_deleted [OF d] by blast
  moreover have "\<exists>w'. c_read file_calls (st\<lparr>of_fs := w\<rparr>) (of_fd st) (of_nat BUFFER_SIZE) =
      Some (st\<lparr>of_fs := w'\<rparr>, [], SYSCALL_ERR_UNLINKED_FILE)"
    using read_deleted [OF w(2), of "of_nat BUFFER_SIZE"] by auto
  ultimately show ?thesis using wc_rounds_deleted [OF d, of n 0] by (auto simp: cat_def wc_def)
qed

text \<open>A file with its node still there, after three rounds of each.\<close>

definition deleted_file :: open_file where
  "deleted_file = \<lparr>of_fs = \<lparr>vol = vol0, inodes = (\<lambda>_. None)(1 := Some (file0\<lparr>ilock := krwlock_init, isvalid := 0\<rparr>)),
      inodelist = \<lparr>buffer = [], size_v = 0, cap = 0\<rparr>, next_node = 2, raw_node = root0\<rparr>, of_node = 1, of_pos = 0, of_fd = 3,
    of_out = [33]\<rparr>"

theorem cat_deleted_never_returns_witness:
  "(\<exists>st. pump_rounds file_calls 3 STDOUT 3 (fresh 1024) deleted_file = Some (Inl (fresh 1024, st)) \<and> of_out st = [33]) \<and>
    (\<exists>st. wc_rounds file_calls 3 3 0 deleted_file = Some (Inl (- 15, st))) \<and> cat file_calls 3 deleted_file = None"
  using cat_deleted_never_returns [of deleted_file "file0\<lparr>ilock := krwlock_init, isvalid := 0\<rparr>" 3]
  by (auto simp: deleted_file_def BUFFER_SIZE_def SYSCALL_ERR_UNLINKED_FILE_def)

subsection \<open>The keyboard\<close>

text \<open>What \<open>syscall_read_stdin\<close> does to the lines that the keyboard driver has ready. A read gives bytes of the first line
  only; an empty line, made by Ctrl-D, is the end of the input.\<close>

definition keyboard_take :: "keyboard \<Rightarrow> u32 \<Rightarrow> (keyboard \<times> u8 list \<times> u32) option" where
  "keyboard_take k len = do {
     input \<leftarrow> queue_peek (input_list k);
     let input_len = of_nat (length input);
     let count = min_u32 len input_len;
     let rest = tl (input_list k);
     Some (k\<lparr>input_list := (if sint len < sint input_len then drop (unat len) input # rest else rest)\<rparr>, take (unat count) input, count)
   }"

lemma stdin_take_keyboard:
  "stdin_take ptr len s = do {
     (k, bs, n) \<leftarrow> keyboard_take (kbd s) len;
     s \<leftarrow> put_user s ptr bs;
     let (sem, woken) = ksemaphore_signal (stdin_lock s);
     Some (wake (s\<lparr>kbd := k, stdin_lock := sem\<rparr>) woken, Ret n)
   }"
  by (auto simp: stdin_take_def keyboard_take_def put_user_def bind_assoc Let_def intro!: Option.bind_cong)

definition keys_calls :: "keyboard calls" where
  "keys_calls = \<lparr>c_read = \<lambda>k fd len. if fd = STDIN then keyboard_take k len else None, c_write = \<lambda>_ _ _ _. None, c_open = \<lambda>_ _ _. None,
     c_close = \<lambda>_ _. None, c_opendir = \<lambda>_ _. None, c_readdir = \<lambda>_ _. None, c_mkdir = \<lambda>_ _. None, c_stat = \<lambda>_ _. None,
     c_getcwd = \<lambda>_. None, c_printf = \<lambda>_ _. None\<rparr>"

text \<open>The lines that are ready up to \<open>rest\<close>; the input ends where an empty line follows.\<close>

definition keys_upto :: "cstr list \<Rightarrow> keyboard \<Rightarrow> u32 \<Rightarrow> u8 list \<Rightarrow> bool" where
  "keys_upto rest k fd xs \<longleftrightarrow> fd = STDIN \<and> (\<exists>ls. input_list k = ls @ rest \<and> (\<forall>l \<in> set ls. l \<noteq> [] \<and> length l < 2147483648) \<and> xs = concat ls)"

definition keys_left :: "keyboard \<Rightarrow> u32 \<Rightarrow> u8 list \<Rightarrow> bool" where
  "keys_left k fd xs \<longleftrightarrow> (\<exists>rest. keys_upto ([] # rest) k fd xs)"

lemma keyboard_take_upto:
  assumes l: "keys_upto rest k fd xs" and xs: "xs \<noteq> []" and n: "0 < n" "n \<le> 1024"
  shows "\<exists>k' bs ys. c_read keys_calls k fd (of_nat n) = Some (k', bs, of_nat (length bs)) \<and> xs = bs @ ys \<and> bs \<noteq> [] \<and>
    length bs \<le> n \<and> keys_upto rest k' fd ys"
proof -
  obtain ls where ls: "fd = STDIN" "input_list k = ls @ rest" "\<forall>l \<in> set ls. l \<noteq> [] \<and> length l < 2147483648" "xs = concat ls"
    using l by (auto simp: keys_upto_def)
  then obtain a as where Cons: "ls = a # as" using xs by (cases ls) auto
  have a: "a \<noteq> []" "length a < 2147483648" using ls(3) Cons by auto
  have un: "unat (of_nat n :: u32) = n" "sint (of_nat n :: u32) = int n" using n by (auto intro!: unat_of_nat32 sint_of_nat32)
  have ua: "unat (of_nat (length a) :: u32) = length a" "sint (of_nat (length a) :: u32) = int (length a)"
    using a(2) by (auto intro!: unat_of_nat32 sint_of_nat32)
  let ?k = "k\<lparr>input_list := (if n < length a then drop n a # as @ rest else as @ rest)\<rparr>"
  have "min_u32 (of_nat n) (of_nat (length a)) = of_nat (min n (length a))" using un ua by (auto simp: min_u32_def word_less_nat_alt)
  moreover have "unat (of_nat (min n (length a)) :: u32) = min n (length a)" using n by (intro unat_of_nat32) simp
  ultimately have "c_read keys_calls k fd (of_nat n) = Some (?k, take n a, of_nat (length (take n a)))"
    using ls(1,2) Cons un ua by (simp add: keys_calls_def keyboard_take_def queue_peek_def min.commute)
  moreover have "xs = take n a @ (drop n a @ concat as)" using ls(4) Cons by simp
  moreover have "keys_upto rest ?k fd (drop n a @ concat as)"
  proof (cases "n < length a")
    case True
    then show ?thesis using ls(1,3) Cons unfolding keys_upto_def by (intro conjI exI [of _ "drop n a # as"]) auto
  next
    case False
    then show ?thesis using ls(1,3) Cons unfolding keys_upto_def by (intro conjI exI [of _ as]) auto
  qed
  moreover have "length (take n a) \<le> n" "take n a \<noteq> []" using n a(1) by auto
  ultimately show ?thesis by blast
qed

interpretation typed: byte_stream keys_calls "keys_upto rest" for rest
  by unfold_locales (rule keyboard_take_upto)

interpretation keys: byte_source keys_calls keys_left
proof
  fix k :: keyboard and fd xs and n :: nat
  assume "keys_left k fd xs" "xs \<noteq> []" "0 < n" "n \<le> 1024"
  then show "\<exists>s' bs ys. c_read keys_calls k fd (of_nat n) = Some (s', bs, of_nat (length bs)) \<and> xs = bs @ ys \<and> bs \<noteq> [] \<and>
      length bs \<le> n \<and> keys_left s' fd ys"
    unfolding keys_left_def by (meson keyboard_take_upto)
next
  fix k :: keyboard and fd and n :: nat
  assume l: "keys_left k fd []" "0 < n" "n \<le> 1024"
  obtain ls rest where ls: "fd = STDIN" "input_list k = ls @ [] # rest" "\<forall>l \<in> set ls. l \<noteq> [] \<and> length l < 2147483648" "concat ls = []"
    using l(1) by (auto simp: keys_left_def keys_upto_def)
  have "unat (of_nat n :: u32) = n" using l(3) by (intro unat_of_nat32) simp
  then have min0: "min_u32 (of_nat n) 0 = 0" using l(2) by (auto simp: min_u32_def word_less_nat_alt)
  have "ls = []" using ls by (cases ls) auto
  then show "\<exists>s'. c_read keys_calls k fd (of_nat n) = Some (s', [], 0)"
    using ls min0 by (auto simp: keys_calls_def keyboard_take_def queue_peek_def)
qed

end
