(* ===== verification/Shell.thy ===== *)
theory Shell
  imports Progs Ulist Heapmem
begin

text \<open>
  \<open>src/user/sh.c\<close> and \<open>src/user/init.c\<close>: how the shell reads a line, cuts it into words, makes the argument vector and
  decides what to do, and how the first program starts the services it finds in a file. The addresses that
  \<open>malloc\<close> gives are arguments: a list for the nodes of a linked list, one for the line and one for the vector.
  Starting a program and waiting for it are the results.
\<close>

type_synonym lists = "lstore \<times> llist"

subsection \<open>Reading a line\<close>

partial_function (option) readline_loop :: "'s calls \<Rightarrow> u32 list \<Rightarrow> nat \<Rightarrow> lists \<Rightarrow> 's \<Rightarrow> ('s \<times> lists \<times> nat) option" where
  "readline_loop c adrs n chlist s = do {
     (s, bs, rsl) \<leftarrow> c_read c s STDIN (of_nat 1);
     if rsl = 0 then Some (s, chlist, n)
     else case (bs, adrs) of
       ([ch], p # adrs) \<Rightarrow> do {
         chlist \<leftarrow> llist_bpush chlist p (scast ch);
         if ch = 10 then Some (s, chlist, n + 1) else readline_loop c adrs (n + 1) chlist s
       }
     | _ \<Rightarrow> None
   }"

declare readline_loop.simps [code]

primrec fill_line :: "u32 \<Rightarrow> nat \<Rightarrow> nat \<Rightarrow> mem \<Rightarrow> lists \<Rightarrow> (mem \<times> lists) option" where
  "fill_line lin i 0 m chlist = Some (m, chlist)"
| "fill_line lin i (Suc n) m chlist = do {
     (chlist, v) \<leftarrow> llist_fpop chlist;
     fill_line lin (i + 1) n (m(lin + of_nat i := ucast v)) chlist
   }"

definition readline :: "'s calls \<Rightarrow> u32 list \<Rightarrow> u32 \<Rightarrow> mem \<Rightarrow> 's \<Rightarrow> ('s \<times> mem) option" where
  "readline c adrs lin m s = do {
     (s, chlist, n) \<leftarrow> readline_loop c adrs 0 (Map.empty, llist_create) s;
     (m, chlist) \<leftarrow> fill_line lin 0 n (m(lin + of_nat n := 0)) chlist;
     Some (s, m)
   }"

subsection \<open>Cutting it into words\<close>

partial_function (option) parse_loop :: "u32 \<Rightarrow> u32 list \<Rightarrow> nat \<Rightarrow> u32 \<Rightarrow> mem \<Rightarrow> lists \<Rightarrow> (mem \<times> lists) option" where
  "parse_loop lin adrs i arg_ptr m tokens =
     (let c = m (lin + of_nat i) in
      if c = 32 \<or> c = 10 \<or> c = 0 then do {
        let flag = (c = 0);
        (m, tokens, adrs, arg_ptr) \<leftarrow>
          (if arg_ptr \<noteq> 0 then case adrs of
             [] \<Rightarrow> None
           | p # adrs \<Rightarrow> do {
               tokens \<leftarrow> llist_bpush tokens p arg_ptr;
               Some (m(lin + of_nat i := 0), tokens, adrs, 0) }
           else Some (m, tokens, adrs, arg_ptr));
        if flag then Some (m, tokens) else parse_loop lin adrs (i + 1) arg_ptr m tokens
      } else parse_loop lin adrs (i + 1) (if arg_ptr = 0 then lin + of_nat i else arg_ptr) m tokens)"

declare parse_loop.simps [code]

definition parse_input :: "u32 list \<Rightarrow> u32 \<Rightarrow> mem \<Rightarrow> (mem \<times> lists) option" where
  "parse_input adrs lin m = parse_loop lin adrs 0 0 m (Map.empty, llist_create)"

text \<open>The loop of \<open>fmain\<close> that makes the vector of arguments, and its end.\<close>

primrec fill_args :: "u32 \<Rightarrow> nat \<Rightarrow> nat \<Rightarrow> mem \<Rightarrow> lists \<Rightarrow> (mem \<times> lists) option" where
  "fill_args arglist i 0 m tokens = Some (m, tokens)"
| "fill_args arglist i (Suc n) m tokens = do {
     (tokens, v) \<leftarrow> llist_fpop tokens;
     fill_args arglist (i + 1) n (Heapmem.store_u32 m (arglist + 4 * of_nat i) v) tokens
   }"

definition make_arglist :: "u32 list \<Rightarrow> u32 \<Rightarrow> u32 \<Rightarrow> mem \<Rightarrow> (mem \<times> u32) option" where
  "make_arglist adrs lin arglist m = do {
     (m, tokens) \<leftarrow> parse_input adrs lin m;
     let argslen = llist_size (snd tokens);
     (m, tokens) \<leftarrow> fill_args arglist 0 (unat argslen) m tokens;
     Some (Heapmem.store_u32 m (arglist + 4 * argslen) 0, argslen)
   }"

subsection \<open>What it does\<close>

text \<open>Nothing; leave the shell; change the directory to the path at an address; start the program with the arguments at
  an address and wait for it.\<close>

datatype command = Cmd_none | Cmd_exit | Cmd_cd u32 | Cmd_run u32

text \<open>The addresses of the literals are arguments. A call that returns 0 is \<open>Some None\<close>.\<close>

definition builtins :: "mem \<Rightarrow> u32 \<Rightarrow> u32 \<Rightarrow> u32 \<Rightarrow> u32 \<Rightarrow> command option option" where
  "builtins m exit_str cd_str arglist argslen = do {
     let cmd = Heapmem.load_u32 m arglist;
     r \<leftarrow> strcmp m cmd exit_str;
     if r = 0 then Some (Some Cmd_exit)
     else do {
       r \<leftarrow> strcmp m cmd cd_str;
       if r = 0 then Some (Some (if 2 \<le>s argslen then Cmd_cd (Heapmem.load_u32 m (arglist + 4)) else Cmd_none))
       else Some None
     }
   }"

definition execute_command :: "mem \<Rightarrow> u32 \<Rightarrow> u32 \<Rightarrow> u32 \<Rightarrow> u32 \<Rightarrow> command option" where
  "execute_command m exit_str cd_str arglist argslen =
     (if argslen = 0 then Some Cmd_none
      else do {
        b \<leftarrow> builtins m exit_str cd_str arglist argslen;
        Some (case b of Some cmd \<Rightarrow> cmd | None \<Rightarrow> Cmd_run arglist)
      })"

text \<open>One round of \<open>fmain\<close>: the line and the vector are at the addresses \<open>lin\<close> and \<open>arglist\<close>; an empty line is the end of the
  input.\<close>

definition shell_round :: "'s calls \<Rightarrow> u32 list \<Rightarrow> u32 \<Rightarrow> u32 list \<Rightarrow> u32 \<Rightarrow> u32 \<Rightarrow> u32 \<Rightarrow> mem \<Rightarrow> 's \<Rightarrow> ('s \<times> mem \<times> command) option" where
  "shell_round c adrs lin adrs2 arglist exit_str cd_str m s = do {
     (s, m) \<leftarrow> readline c adrs lin m s;
     n \<leftarrow> strlen m lin;
     if n = 0 then Some (s, m, Cmd_exit)
     else do {
       (m, argslen) \<leftarrow> make_arglist adrs2 lin arglist m;
       cmd \<leftarrow> execute_command m exit_str cd_str arglist argslen;
       Some (s, m, cmd)
     }
   }"

text \<open>What the child prints when \<open>exec\<close> comes back, and what the parent prints about the status.\<close>

definition exec_failed :: "u32 \<Rightarrow> cstr \<Rightarrow> cstr option" where
  "exec_failed rsl cmd =
     (if rsl <s 0 then
        Some (if rsl = - 9 then bytes_of ''sh: file '' @ [39] @ cmd @ [39] @ bytes_of '' not executable!'' @ [10]
              else bytes_of ''sh: executable not found!'' @ [10])
      else None)"

definition command_ended :: "u16 \<Rightarrow> cstr option" where
  "command_ended status = (if status \<noteq> 0 then Some (bytes_of ''sh: command ended with error!'' @ [10]) else None)"

subsection \<open>Words\<close>

definition sep :: "u8 \<Rightarrow> bool" where
  "sep c \<longleftrightarrow> c = 32 \<or> c = 10"

fun words_of :: "cstr \<Rightarrow> cstr \<Rightarrow> cstr list" where
  "words_of w [] = (if w = [] then [] else [w])"
| "words_of w (c # cs) = (if sep c then (if w = [] then [] else [w]) @ words_of [] cs else words_of (w @ [c]) cs)"

lemma words_of_length: "length (words_of w cs) \<le> length w + length cs"
  by (induction w cs rule: words_of.induct) (auto simp: Suc_le_eq)

lemma words_of_word: "\<forall>c \<in> set w. \<not> sep c \<Longrightarrow> \<forall>c \<in> set u. \<not> sep c \<Longrightarrow> words_of u (w @ cs) = words_of (u @ w) cs"
  by (induction w arbitrary: u) simp_all

lemma cstr_at_append: "cstr_at m p (s @ t) \<longleftrightarrow> 0 \<notin> set s \<and> mem_bytes m p (length s) = s \<and> cstr_at m (p + of_nat (length s)) t"
proof (induction s arbitrary: p)
  case (Cons c s)
  then show ?case by (auto simp: mem_bytes_Suc add.assoc)
qed simp

lemma cstr_at_cong:
  assumes "cstr_at m p s" and "\<And>i. i \<le> length s \<Longrightarrow> m' (p + of_nat i) = m (p + of_nat i)"
  shows "cstr_at m' p s"
proof -
  have "mem_bytes m' p (length s) = mem_bytes m p (length s)" by (rule mem_bytes_cong) (use assms(2) in simp)
  then show ?thesis using assms by (simp add: cstr_at_def)
qed

text \<open>The addresses from \<open>p\<close> on, \<open>n\<close> of them.\<close>

definition stretch :: "u32 \<Rightarrow> nat \<Rightarrow> u32 set" where
  "stretch p n = {p + of_nat i | i. i < n}"

lemma in_stretch: "i < n \<Longrightarrow> p + of_nat i \<in> stretch p n"
  by (auto simp: stretch_def)

lemma stretch_shift: "k + n' \<le> n \<Longrightarrow> stretch (p + of_nat k) n' \<subseteq> stretch p n"
proof
  fix a assume "k + n' \<le> n" "a \<in> stretch (p + of_nat k) n'"
  then obtain i where "a = p + of_nat k + of_nat i" "i < n'" by (auto simp: stretch_def)
  then have "a = p + of_nat (k + i)" "k + i < n" using \<open>k + n' \<le> n\<close> by (simp_all add: add.assoc)
  then show "a \<in> stretch p n" using in_stretch by blast
qed

lemma stretch_far:
  assumes "unat p + n \<le> unat q" and "unat q + k \<le> 4294967296"
  shows "stretch p n \<inter> stretch q k = {}"
proof (rule ccontr)
  assume "stretch p n \<inter> stretch q k \<noteq> {}"
  then obtain i j where ij: "p + of_nat i = q + of_nat j" "i < n" "j < k" by (auto simp: stretch_def)
  have "unat (p + of_nat i) = unat p + i" "unat (q + of_nat j) = unat q + j" using ij(2,3) assms by (auto intro!: unat_add_of_nat)
  then show False using ij assms(1) by simp
qed

lemma stretch_before:
  assumes "n' \<le> k" and "k + n < 4294967296"
  shows "i < n' \<Longrightarrow> p + of_nat i \<notin> stretch (p + of_nat k) n"
proof
  assume i: "i < n'" and "p + of_nat i \<in> stretch (p + of_nat k) n"
  then obtain j where "p + of_nat i = p + of_nat k + of_nat j" "j < n" by (auto simp: stretch_def)
  then have "(of_nat i :: u32) = of_nat (k + j)" by (simp add: add.assoc)
  then have "i = k + j" using i assms \<open>j < n\<close> of_nat32_inj [of i "k + j"] by simp
  then show False using i assms by simp
qed

text \<open>A word in a stretch of memory.\<close>

definition word_in :: "mem \<Rightarrow> u32 \<Rightarrow> nat \<Rightarrow> u32 \<Rightarrow> cstr \<Rightarrow> bool" where
  "word_in m p n r w \<longleftrightarrow> cstr_at m r w \<and> stretch r (length w + 1) \<subseteq> stretch p n"

lemma word_in_mono: "list_all2 (word_in m p n) rs ws \<Longrightarrow> stretch p n \<subseteq> stretch q k \<Longrightarrow> list_all2 (word_in m q k) rs ws"
  by (erule list_all2_mono) (auto simp: word_in_def)

text \<open>The loop, from where it has read the word \<open>w\<close> at \<open>p\<close>: what it adds to the list points to the words.\<close>

lemma parse_loop_words:
  assumes "cstr_at m p (w @ cs)" and "\<forall>c \<in> set w. \<not> sep c" and "lin + of_nat i = p + of_nat (length w)"
    and "unat p + length (w @ cs) < 4294967296" and "p \<noteq> 0" and "arg_ptr = (if w = [] then 0 else p)"
    and "llist_is tokens qs" and "distinct adrs" and "\<forall>a \<in> set adrs. ll_avail tokens a"
    and "length (w @ cs) \<le> length adrs" and "length qs + length (w @ cs) < 4294967295"
  shows "\<exists>m' tokens' rs. parse_loop lin adrs i arg_ptr m tokens = Some (m', tokens') \<and> llist_is tokens' (qs @ rs) \<and>
    list_all2 (word_in m' p (length (w @ cs) + 1)) rs (words_of w cs) \<and> (\<forall>a. a \<notin> stretch p (length (w @ cs)) \<longrightarrow> m' a = m a)"
  using assms
proof (induction cs arbitrary: m p w i arg_ptr tokens qs adrs)
  case Nil
  have z: "m (lin + of_nat i) = 0" using Nil.prems(1,3) by (simp add: cstr_at_def)
  show ?case
  proof (cases "w = []")
    case True
    then show ?thesis using z Nil.prems(6,7) by (subst parse_loop.simps) (auto intro!: exI [of _ "[]"])
  next
    case False
    then obtain a as where a: "adrs = a # as" using Nil.prems(10) by (cases adrs) auto
    obtain tokens' where t: "llist_bpush tokens a p = Some tokens'" "llist_is tokens' (qs @ [p])"
      using ll.enq_law [OF Nil.prems(7), of a p] Nil.prems(9,11) a by auto
    have same: "m(lin + of_nat i := 0) = m" using z by auto
    have "parse_loop lin adrs i arg_ptr m tokens = Some (m, tokens')"
      using z False a t(1) Nil.prems(5,6) same by (subst parse_loop.simps) (simp add: Let_def)
    then show ?thesis using t(2) False Nil.prems(1) by (intro exI [of _ m] exI [of _ tokens'] exI [of _ "[p]"]) (simp add: word_in_def)
  qed
next
  case (Cons c cs)
  have c: "m (lin + of_nat i) = c" "c \<noteq> 0" using Cons.prems(1,3) by (simp_all add: cstr_at_append)
  have nxt: "lin + of_nat (i + 1) = p + of_nat (length w + 1)" using Cons.prems(3) by (simp add: add.assoc [symmetric])
  let ?p' = "p + of_nat (length w + 1)"
  have up: "unat ?p' = unat p + (length w + 1)" using Cons.prems(4) by (intro unat_add_of_nat) simp
  then have p': "?p' \<noteq> 0" by (metis add_eq_0_iff_both_eq_0 add_is_0 one_neq_zero unat_0)
  show ?case
  proof (cases "sep c")
    case False
    then have ns: "\<not> (c = 32 \<or> c = 10 \<or> c = 0)" using c(2) by (simp add: sep_def)
    let ?arg = "if arg_ptr = 0 then lin + of_nat i else arg_ptr"
    have step: "parse_loop lin adrs i arg_ptr m tokens = parse_loop lin adrs (i + 1) ?arg m tokens"
      using c(1) ns by (subst parse_loop.simps) (simp add: Let_def)
    have "?arg = (if w @ [c] = [] then 0 else p)" using Cons.prems(3,5,6) by (cases w) auto
    then have "\<exists>m' tokens' rs. parse_loop lin adrs (i + 1) ?arg m tokens = Some (m', tokens') \<and> llist_is tokens' (qs @ rs) \<and>
        list_all2 (word_in m' p (length ((w @ [c]) @ cs) + 1)) rs (words_of (w @ [c]) cs) \<and> (\<forall>a. a \<notin> stretch p (length ((w @ [c]) @ cs)) \<longrightarrow> m' a = m a)"
      using Cons.prems False nxt by (intro Cons.IH) (simp_all del: of_nat_add of_nat_Suc)
    then show ?thesis unfolding step using False by simp
  next
    case True
    then have s: "c = 32 \<or> c = 10 \<or> c = 0" by (auto simp: sep_def)
    show ?thesis
    proof (cases "w = []")
      case w: True
      have step: "parse_loop lin adrs i arg_ptr m tokens = parse_loop lin adrs (i + 1) 0 m tokens"
        using c s w Cons.prems(6) by (subst parse_loop.simps) (simp add: Let_def)
      have "\<exists>m' tokens' rs. parse_loop lin adrs (i + 1) 0 m tokens = Some (m', tokens') \<and> llist_is tokens' (qs @ rs) \<and>
          list_all2 (word_in m' ?p' (length ([] @ cs) + 1)) rs (words_of [] cs) \<and> (\<forall>a. a \<notin> stretch ?p' (length ([] @ cs)) \<longrightarrow> m' a = m a)"
        using Cons.prems nxt p' up w by (intro Cons.IH) (simp_all add: cstr_at_append)
      then obtain m' tokens' rs where r: "parse_loop lin adrs (i + 1) 0 m tokens = Some (m', tokens')" "llist_is tokens' (qs @ rs)"
        "list_all2 (word_in m' ?p' (length cs + 1)) rs (words_of [] cs)" "\<forall>a. a \<notin> stretch ?p' (length cs) \<longrightarrow> m' a = m a" by auto
      have "stretch ?p' (length cs) \<subseteq> stretch p (length (w @ c # cs))" by (rule stretch_shift) simp
      moreover have "list_all2 (word_in m' p (length (w @ c # cs) + 1)) rs (words_of [] cs)"
        by (rule word_in_mono [OF r(3)], rule stretch_shift) simp
      ultimately show ?thesis unfolding step using r(1,2,4) True w by (intro exI [of _ m'] exI [of _ tokens'] exI [of _ rs]) auto
    next
      case w: False
      then obtain a as where a: "adrs = a # as" using Cons.prems(10) by (cases adrs) auto
      obtain t1 where t: "llist_bpush tokens a p = Some t1" "llist_is t1 (qs @ [p])" "\<forall>b. ll_avail tokens b \<longrightarrow> b \<noteq> a \<longrightarrow> ll_avail t1 b"
        using ll.enq_law [OF Cons.prems(7), of a p] Cons.prems(9,11) a by auto
      let ?m1 = "m(lin + of_nat i := 0)"
      have step: "parse_loop lin adrs i arg_ptr m tokens = parse_loop lin as (i + 1) 0 ?m1 t1"
        using c s w a t(1) Cons.prems(5,6) by (subst parse_loop.simps) (simp add: Let_def)
      have cs: "cstr_at ?m1 ?p' cs"
      proof (rule cstr_at_cong)
        show "cstr_at m ?p' cs" using Cons.prems(1) by (simp add: cstr_at_append add_ac)
        show "?m1 (?p' + of_nat j) = m (?p' + of_nat j)" if "j \<le> length cs" for j
        proof -
          have "(of_nat (length w + 1 + j) :: u32) \<noteq> of_nat (length w)"
            using that Cons.prems(4) by (subst of_nat32_inj) simp_all
          then have "p + of_nat (length w + 1 + j) \<noteq> lin + of_nat i" unfolding Cons.prems(3) by (simp only: add_left_cancel not_False_eq_True)
          then show ?thesis by (simp add: add_ac)
        qed
      qed
      have "\<exists>m' tokens' rs. parse_loop lin as (i + 1) 0 ?m1 t1 = Some (m', tokens') \<and> llist_is tokens' ((qs @ [p]) @ rs) \<and>
          list_all2 (word_in m' ?p' (length ([] @ cs) + 1)) rs (words_of [] cs) \<and> (\<forall>a. a \<notin> stretch ?p' (length ([] @ cs)) \<longrightarrow> m' a = ?m1 a)"
      proof (intro Cons.IH)
        show "cstr_at ?m1 ?p' ([] @ cs)" using cs by simp
      qed (use Cons.prems nxt p' up a t in auto)
      then obtain m' tokens' rs where r: "parse_loop lin as (i + 1) 0 ?m1 t1 = Some (m', tokens')" "llist_is tokens' (qs @ p # rs)"
        "list_all2 (word_in m' ?p' (length cs + 1)) rs (words_of [] cs)" "\<forall>a. a \<notin> stretch ?p' (length cs) \<longrightarrow> m' a = ?m1 a" by auto
      have keep: "m' (p + of_nat j) = ?m1 (p + of_nat j)" if "j \<le> length w" for j
        using r(4) stretch_before [of "length w + 1" "length w + 1" "length cs" j p] that Cons.prems(4) by auto
      have at: "m' (p + of_nat j) = (if j = length w then 0 else m (p + of_nat j))" if "j \<le> length w" for j
        using keep [OF that] Cons.prems(3,4) that of_nat32_inj [of j "length w"] by auto
      have "mem_bytes m' p (length w) = mem_bytes m p (length w)" by (rule mem_bytes_cong) (use at in auto)
      then have "cstr_at m' p w" using Cons.prems(1) at [of "length w"] by (simp add: cstr_at_append) (simp add: cstr_at_def)
      moreover have "m' b = m b" if "b \<notin> stretch p (length (w @ c # cs))" for b
      proof -
        have "stretch ?p' (length cs) \<subseteq> stretch p (length (w @ c # cs))" by (rule stretch_shift) simp
        moreover have "lin + of_nat i \<in> stretch p (length (w @ c # cs))" unfolding Cons.prems(3) by (rule in_stretch) simp
        ultimately show ?thesis using r(4) that by auto
      qed
      moreover have "list_all2 (word_in m' p (length (w @ c # cs) + 1)) rs (words_of [] cs)"
        by (rule word_in_mono [OF r(3)], rule stretch_shift) simp
      moreover have "stretch p (length w + 1) \<subseteq> stretch p (length (w @ c # cs) + 1)"
        using stretch_shift [of 0 "length w + 1" "length (w @ c # cs) + 1" p] by simp
      then have "word_in m' p (length (w @ c # cs) + 1) p w" using \<open>cstr_at m' p w\<close> by (simp add: word_in_def)
      ultimately show ?thesis unfolding step using r(1,2) True w by (intro exI [of _ m'] exI [of _ tokens'] exI [of _ "p # rs"]) simp
    qed
  qed
qed

subsection \<open>The vector of arguments\<close>

lemma store_stretch: "x \<notin> stretch a 4 \<Longrightarrow> Heapmem.store_u32 m a v x = m x"
proof -
  assume x: "x \<notin> stretch a 4"
  have "x = a + of_nat (unat (x - a))" by simp
  then have "\<not> unat (x - a) < 4" using x in_stretch by metis
  then show ?thesis by (simp add: Heapmem.store_u32_def)
qed

lemma fill_args_vector:
  assumes "llist_is tokens rs" and "4 * length rs < 4294967296"
  shows "\<exists>m' tokens'. fill_args arglist i (length rs) m tokens = Some (m', tokens') \<and>
    (\<forall>j < length rs. Heapmem.load_u32 m' (arglist + of_nat (4 * (i + j))) = rs ! j) \<and>
    (\<forall>a. a \<notin> stretch (arglist + of_nat (4 * i)) (4 * length rs) \<longrightarrow> m' a = m a)"
  using assms
proof (induction rs arbitrary: i m tokens)
  case (Cons r rs)
  let ?p = "arglist + of_nat (4 * i)" and ?p' = "arglist + of_nat (4 * (i + 1))"
  have p': "?p' = ?p + of_nat 4" by (simp add: algebra_simps)
  obtain t1 where t: "llist_fpop tokens = Some (t1, r)" "llist_is t1 rs" using ll.deq_law [OF Cons.prems(1)] by blast
  let ?m = "Heapmem.store_u32 m ?p r"
  obtain m' t' where r: "fill_args arglist (i + 1) (length rs) ?m t1 = Some (m', t')"
    "\<forall>j < length rs. Heapmem.load_u32 m' (arglist + of_nat (4 * (i + 1 + j))) = rs ! j"
    "\<forall>a. a \<notin> stretch ?p' (4 * length rs) \<longrightarrow> m' a = ?m a"
    using Cons.IH [OF t(2), of "i + 1" ?m] Cons.prems(2) by auto
  have keep: "m' (?p + of_nat j) = ?m (?p + of_nat j)" if "j < 4" for j
    using r(3) stretch_before [of 4 4 "4 * length rs" j ?p] that Cons.prems(2) unfolding p' by simp
  have "Heapmem.load_u32 m' ?p = Heapmem.load_u32 ?m ?p"
  proof (rule Heapmem.load_u32_cong)
    fix k :: u32 assume "k < 4"
    then have "unat k < 4" by (simp add: word_less_nat_alt)
    moreover have "(of_nat (unat k) :: u32) = k" by simp
    ultimately show "m' (?p + k) = ?m (?p + k)" using keep by metis
  qed
  then have ld: "Heapmem.load_u32 m' ?p = r" by (simp only: Heapmem.load_store_same)
  have all: "Heapmem.load_u32 m' (arglist + of_nat (4 * (i + j))) = (r # rs) ! j" if "j < length (r # rs)" for j
  proof (cases j)
    case 0
    then show ?thesis using ld by simp
  next
    case (Suc k)
    then show ?thesis using r(2) that by auto
  qed
  have out: "m' a = m a" if a: "a \<notin> stretch ?p (4 * length (r # rs))" for a
  proof -
    have "stretch ?p' (4 * length rs) \<subseteq> stretch ?p (4 * length (r # rs))" unfolding p' by (rule stretch_shift) simp
    moreover have "stretch ?p 4 \<subseteq> stretch ?p (4 * length (r # rs))" using stretch_shift [of 0 4 "4 * length (r # rs)" ?p] by simp
    ultimately have "a \<notin> stretch ?p' (4 * length rs)" "a \<notin> stretch ?p 4" using a by blast+
    then show ?thesis using r(3) store_stretch [of a ?p m r] by metis
  qed
  have "4 * (of_nat i :: u32) = of_nat (4 * i)" by simp
  then have "fill_args arglist i (length (r # rs)) m tokens = Some (m', t')" using t(1) r(1) by (simp only: list.size add_Suc_right add_0_right fill_args.simps bind.bind_lunit case_prod_conv)
  then show ?case using all out by blast
qed simp

text \<open>What the shell does with a list of words.\<close>

fun command_of :: "mem \<Rightarrow> u32 \<Rightarrow> cstr list \<Rightarrow> command" where
  "command_of m arglist [] = Cmd_none"
| "command_of m arglist (w # ws) =
     (if w = bytes_of ''exit'' then Cmd_exit
      else if w = bytes_of ''cd'' then (if ws = [] then Cmd_none else Cmd_cd (Heapmem.load_u32 m (arglist + 4)))
      else Cmd_run arglist)"

text \<open>A vector of arguments as \<open>exec\<close> wants it.\<close>

definition args_vector :: "mem \<Rightarrow> u32 \<Rightarrow> cstr list \<Rightarrow> bool" where
  "args_vector m arglist ws \<longleftrightarrow> (\<forall>j < length ws. cstr_at m (Heapmem.load_u32 m (arglist + of_nat (4 * j))) (ws ! j)) \<and>
     Heapmem.load_u32 m (arglist + of_nat (4 * length ws)) = 0"

lemma cstr_at_inside:
  assumes "cstr_at m p s" and "\<And>a. a \<in> stretch p (length s + 1) \<Longrightarrow> m' a = m a"
  shows "cstr_at m' p s"
  by (rule cstr_at_cong [OF assms(1)]) (use assms(2) in_stretch in simp)

text \<open>A line becomes a command: the words of the line, which blanks and newlines separate, are the strings of the argument
  vector, in order and ended by the null pointer, for a line of any length; the first word decides between leaving the
  shell, changing the directory, doing nothing and running a program with that vector.\<close>

lemma shell_makes_command:
  assumes "cstr_at m lin l" and "unat lin + length l < 4294967296" and "lin \<noteq> 0" and "length l < 536870911"
    and "distinct adrs" and "0 \<notin> set adrs" and "length l \<le> length adrs"
    and "stretch arglist (4 * (length (words_of [] l) + 1)) \<inter> stretch lin (length l + 1) = {}"
    and "cstr_at m exit_str (bytes_of ''exit'')" and "cstr_at m cd_str (bytes_of ''cd'')"
    and "(stretch exit_str 5 \<union> stretch cd_str 3) \<inter> (stretch lin (length l + 1) \<union> stretch arglist (4 * (length (words_of [] l) + 1))) = {}"
  shows "\<exists>m'. make_arglist adrs lin arglist m = Some (m', of_nat (length (words_of [] l))) \<and> args_vector m' arglist (words_of [] l) \<and>
    execute_command m' exit_str cd_str arglist (of_nat (length (words_of [] l))) = Some (command_of m' arglist (words_of [] l))"
proof -
  let ?ws = "words_of [] l" and ?A = "stretch arglist (4 * (length (words_of [] l) + 1))" and ?L = "stretch lin (length l + 1)"
  have n: "length ?ws \<le> length l" using words_of_length [of "[]" l] by simp
  have avail: "\<forall>a \<in> set adrs. ll_avail (Map.empty, llist_create) a" using assms(6) by (metis domIff empty_iff dom_empty ll_avail.simps)
  obtain m1 t1 rs where p: "parse_loop lin adrs 0 0 m (Map.empty, llist_create) = Some (m1, t1)" "llist_is t1 ([] @ rs)"
    "list_all2 (word_in m1 lin (length ([] @ l) + 1)) rs ?ws" "\<forall>a. a \<notin> stretch lin (length ([] @ l)) \<longrightarrow> m1 a = m a"
    using parse_loop_words [of m lin "[]" l lin 0 0 "(Map.empty, llist_create)" "[]" adrs] assms(1-7) avail llist_create_is by auto
  have len: "length rs = length ?ws" by (rule list_all2_lengthD [OF p(3)])
  have size: "llist_size (snd t1) = of_nat (length ?ws)" using p(2) len by (cases t1) (auto simp: llist_is_def llist_size_def)
  have un: "unat (of_nat (length ?ws) :: u32) = length rs" using n assms(4) len by (simp add: unat_of_nat32)
  obtain m2 t2 where f: "fill_args arglist 0 (length rs) m1 t1 = Some (m2, t2)"
    "\<forall>j < length rs. Heapmem.load_u32 m2 (arglist + of_nat (4 * (0 + j))) = rs ! j"
    "\<forall>a. a \<notin> stretch (arglist + of_nat (4 * 0)) (4 * length rs) \<longrightarrow> m2 a = m1 a"
    using fill_args_vector [of t1 rs arglist 0 m1] p(2) n len assms(4) by auto
  let ?q = "arglist + of_nat (4 * length rs)"
  define m' where "m' = Heapmem.store_u32 m2 ?q 0"
  have mk: "make_arglist adrs lin arglist m = Some (m', of_nat (length ?ws))"
    using p(1) size un f(1) len by (simp add: make_arglist_def parse_input_def m'_def Let_def)
  have q: "stretch ?q 4 \<subseteq> ?A" by (rule stretch_shift) (simp add: len)
  have vec: "stretch arglist (4 * length rs) \<subseteq> ?A" using stretch_shift [of 0 "4 * length rs" "4 * (length ?ws + 1)" arglist] len by simp
  have out: "m' a = m1 a" if "a \<notin> ?A" for a
  proof -
    have "a \<notin> stretch ?q 4" "a \<notin> stretch arglist (4 * length rs)" using that q vec by blast+
    then show ?thesis using f(3) store_stretch [of a ?q m2 0] by (simp add: m'_def)
  qed
  have ld: "Heapmem.load_u32 m' (arglist + of_nat (4 * j)) = rs ! j" if j: "j < length rs" for j
  proof -
    have "Heapmem.load_u32 m' (arglist + of_nat (4 * j)) = Heapmem.load_u32 m2 (arglist + of_nat (4 * j))"
    proof (rule Heapmem.load_u32_cong)
      fix k :: u32 assume "k < 4"
      then have k: "unat k < 4" "k = of_nat (unat k)" by (simp_all add: word_less_nat_alt)
      have "arglist + of_nat (4 * j + unat k) \<notin> stretch ?q 4"
        using j k(1) n len assms(4) by (intro stretch_before [of "4 * length rs"]) simp_all
      then have "arglist + of_nat (4 * j) + k \<notin> stretch ?q 4" using k(2) by (metis add.assoc of_nat_add)
      then show "m' (arglist + of_nat (4 * j) + k) = m2 (arglist + of_nat (4 * j) + k)" unfolding m'_def by (rule store_stretch)
    qed
    then show ?thesis using f(2) j by simp
  qed
  have words: "cstr_at m' (rs ! j) (?ws ! j)" if "j < length rs" for j
  proof -
    have w: "cstr_at m1 (rs ! j) (?ws ! j)" "stretch (rs ! j) (length (?ws ! j) + 1) \<subseteq> ?L"
      using list_all2_nthD [OF p(3) that] by (simp_all add: word_in_def)
    show ?thesis by (rule cstr_at_inside [OF w(1)]) (use w(2) assms(8) out in blast)
  qed
  have "Heapmem.load_u32 m' ?q = 0" by (simp only: m'_def Heapmem.load_store_same)
  then have av: "args_vector m' arglist ?ws" using ld words len by (simp add: args_vector_def)
  have sub: "stretch lin (length l) \<subseteq> ?L" using stretch_shift [of 0 "length l" "length l + 1" lin] by simp
  have lit: "cstr_at m' s t" if "cstr_at m s t" "stretch s (length t + 1) \<inter> (?L \<union> ?A) = {}" for s t
  proof (rule cstr_at_inside [OF that(1)])
    fix a assume "a \<in> stretch s (length t + 1)"
    then have "a \<notin> ?A" "a \<notin> stretch lin (length l)" using that(2) sub by blast+
    then show "m' a = m a" using out p(4) by simp
  qed
  have five: "length (bytes_of ''exit'') + 1 = 5" "length (bytes_of ''cd'') + 1 = 3" by (simp_all add: bytes_of_def)
  have e: "cstr_at m' exit_str (bytes_of ''exit'')" by (rule lit [OF assms(9)]) (use assms(11) in \<open>unfold five, blast\<close>)
  have c: "cstr_at m' cd_str (bytes_of ''cd'')" by (rule lit [OF assms(10)]) (use assms(11) in \<open>unfold five, blast\<close>)
  have ex: "execute_command m' exit_str cd_str arglist (of_nat (length ?ws)) = Some (command_of m' arglist ?ws)"
  proof (cases ?ws)
    case (Cons w ws)
    have w: "cstr_at m' (Heapmem.load_u32 m' arglist) w" using words [of 0] ld [of 0] len Cons by simp
    have nz: "(of_nat (length ?ws) :: u32) \<noteq> 0" using un len Cons by (metis length_0_conv list.distinct(1) unat_0)
    have "sint (of_nat (length ?ws) :: u32) = int (length ?ws)" using n assms(4) by (intro sint_of_nat32) simp
    then have two: "2 \<le>s (of_nat (length ?ws) :: u32) \<longleftrightarrow> ws \<noteq> []" using Cons by (cases ws) (simp_all add: word_sle_eq)
    show ?thesis
      using strcmp_loop_cstr [of m' "Heapmem.load_u32 m' arglist" 0 w exit_str] strcmp_loop_cstr [of m' "Heapmem.load_u32 m' arglist" 0 w cd_str]
        w e c nz two by (simp add: execute_command_def builtins_def strcmp_def Cons)
  qed (simp add: execute_command_def)
  show ?thesis using mk av ex by blast
qed

subsection \<open>A line that was typed\<close>

context byte_stream begin

lemma readline_loop_line:
  assumes "ready s STDIN (l @ 10 # rest)" and "10 \<notin> set l" and "llist_is x qs" and "distinct adrs" and "\<forall>a \<in> set adrs. ll_avail x a"
    and "length l < length adrs" and "length qs + length l < 4294967294"
  shows "\<exists>s' x'. readline_loop c adrs n x s = Some (s', x', n + length l + 1) \<and> llist_is x' (qs @ List.map scast (l @ [10])) \<and> ready s' STDIN rest"
  using assms
proof (induction l arbitrary: s x qs adrs n)
  case Nil
  then obtain a as where a: "adrs = a # as" by (cases adrs) auto
  obtain s' bs ys where r: "c_read c s STDIN (of_nat 1) = Some (s', bs, of_nat (length bs))" "[] @ 10 # rest = bs @ ys" "bs \<noteq> []"
    "length bs \<le> 1" "ready s' STDIN ys" using next_law [OF Nil.prems(1), of 1] by auto
  then have bs: "bs = [10]" "ys = rest" by (cases bs; auto)+
  obtain x' where "llist_bpush x a (scast (10 :: u8)) = Some x'" "llist_is x' (qs @ [scast (10 :: u8)])"
    using ll.enq_law [OF Nil.prems(3), of a "scast (10 :: u8)"] Nil.prems(5,7) a by auto
  then show ?case using r bs a by (subst readline_loop.simps) simp
next
  case (Cons ch l)
  then obtain a as where a: "adrs = a # as" by (cases adrs) auto
  obtain s' bs ys where r: "c_read c s STDIN (of_nat 1) = Some (s', bs, of_nat (length bs))" "(ch # l) @ 10 # rest = bs @ ys" "bs \<noteq> []"
    "length bs \<le> 1" "ready s' STDIN ys" using next_law [OF Cons.prems(1), of 1] by auto
  then have bs: "bs = [ch]" "ys = l @ 10 # rest" by (cases bs; auto)+
  obtain x1 where x1: "llist_bpush x a (scast ch) = Some x1" "llist_is x1 (qs @ [scast ch])" "\<forall>b. ll_avail x b \<longrightarrow> b \<noteq> a \<longrightarrow> ll_avail x1 b"
    using ll.enq_law [OF Cons.prems(3), of a "scast ch"] Cons.prems(5,7) a by auto
  have step: "readline_loop c adrs n x s = readline_loop c as (n + 1) x1 s'"
    using r(1) bs(1) a x1(1) Cons.prems(2) by (subst readline_loop.simps) simp
  have "\<exists>s'' x'. readline_loop c as (n + 1) x1 s' = Some (s'', x', n + 1 + length l + 1) \<and>
      llist_is x' ((qs @ [scast ch]) @ List.map scast (l @ [10])) \<and> ready s'' STDIN rest"
    using Cons.prems r(5) bs(2) a x1 by (intro Cons.IH) auto
  then show ?case unfolding step by simp
qed

end

lemma scast_char: "ucast (scast (c :: u8) :: u32) = c"
  by (rule bit_word_eqI) (auto simp: bit_simps)

lemma fill_line_poke:
  "llist_is x (List.map scast bs) \<Longrightarrow> \<exists>x'. fill_line lin i (length bs) m x = Some (poke m (lin + of_nat i) bs, x')"
proof (induction bs arbitrary: i m x)
  case (Cons b bs)
  obtain x1 where x1: "llist_fpop x = Some (x1, scast b)" "llist_is x1 (List.map scast bs)" using ll.deq_law [OF Cons.prems [unfolded list.map]] by blast
  obtain x2 where x2: "fill_line lin (i + 1) (length bs) (m(lin + of_nat i := b)) x1 = Some (poke (m(lin + of_nat i := b)) (lin + of_nat (i + 1)) bs, x2)"
    using Cons.IH [OF x1(2)] by blast
  have e: "lin + of_nat (i + 1) = lin + of_nat i + 1" by (simp add: add_ac)
  have "fill_line lin i (length (b # bs)) m x = Some (poke m (lin + of_nat i) (b # bs), x2)"
    using x1(1) x2 unfolding e by (simp add: scast_char)
  then show ?case ..
qed simp

text \<open>\<open>readline\<close> returns the next line that was typed, newline and terminator included, takes nothing else from the
  keyboard and writes nowhere else; at the end of the input it returns the empty line, at which the shell ends.\<close>

lemma readline_reads_line:
  assumes "distinct adrs" and "0 \<notin> set adrs" and "length l < length adrs" and "length l < 2147483646" and "0 \<notin> set l" and "10 \<notin> set l"
  shows "(input_list k = (l @ [10]) # rest \<longrightarrow>
      (\<exists>k' m'. readline keys_calls adrs lin m k = Some (k', m') \<and> input_list k' = rest \<and> cstr_at m' lin (l @ [10]) \<and>
        (\<forall>a. a \<notin> stretch lin (length l + 2) \<longrightarrow> m' a = m a))) \<and>
    (input_list k = [] # rest \<longrightarrow> (\<exists>k'. readline keys_calls adrs lin m k = Some (k', m(lin := 0)) \<and> input_list k' = rest))"
proof (intro conjI impI)
  assume k: "input_list k = (l @ [10]) # rest"
  have up: "keys_upto rest k STDIN (l @ 10 # [])" using k assms(4) unfolding keys_upto_def by (auto intro!: exI [of _ "[l @ [10]]"])
  have avail: "\<forall>a \<in> set adrs. ll_avail (Map.empty, llist_create) a" using assms(2) by (metis domIff ll_avail.simps)
  obtain k' x where r: "readline_loop keys_calls adrs 0 (Map.empty, llist_create) k = Some (k', x, length (l @ [10]))"
    "llist_is x (List.map scast (l @ [10]))" "keys_upto rest k' STDIN []"
    using typed.readline_loop_line [OF up assms(6) llist_create_is assms(1) avail assms(3), of 0] assms(4) by auto
  let ?m = "m(lin + of_nat (length (l @ [10])) := 0)"
  let ?m' = "poke ?m lin (l @ [10])"
  obtain x' where f: "fill_line lin 0 (length (l @ [10])) ?m x = Some (?m', x')" using fill_line_poke [OF r(2), of lin 0 ?m] by auto
  have rd: "readline keys_calls adrs lin m k = Some (k', ?m')" using r(1) f by (simp add: readline_def)
  obtain ls where "input_list k' = ls @ rest" "\<forall>l \<in> set ls. l \<noteq> []" "concat ls = []" using r(3) by (auto simp: keys_upto_def)
  then have k': "input_list k' = rest" by (cases ls) auto
  have out: "?m' a = ?m a" if "a \<notin> stretch lin (length (l @ [10]))" for a
    by (rule poke_outside) (use that in_stretch in blast)
  have "lin + of_nat (length (l @ [10])) \<notin> stretch lin (length (l @ [10]))"
  proof
    assume "lin + of_nat (length (l @ [10])) \<in> stretch lin (length (l @ [10]))"
    then obtain i where i: "(of_nat (length (l @ [10])) :: u32) = of_nat i" "i < length (l @ [10])" by (auto simp: stretch_def)
    then show False using of_nat32_inj [of "length (l @ [10])" i] assms(4) by simp
  qed
  then have "?m' (lin + of_nat (length (l @ [10]))) = 0" using out by simp
  moreover have "mem_bytes ?m' lin (length (l @ [10])) = l @ [10]" by (rule mem_bytes_poke) (use assms(4) in simp)
  ultimately have at: "cstr_at ?m' lin (l @ [10])" using assms(5) by (simp add: cstr_at_def)
  have "?m' a = m a" if a: "a \<notin> stretch lin (length l + 2)" for a
  proof -
    have "a \<notin> stretch lin (length (l @ [10]))" using a stretch_shift [of 0 "length (l @ [10])" "length l + 2" lin] by auto
    moreover have "a \<noteq> lin + of_nat (length (l @ [10]))" using a in_stretch [of "length (l @ [10])" "length l + 2" lin] by auto
    ultimately show ?thesis using out by simp
  qed
  then show "\<exists>k' m'. readline keys_calls adrs lin m k = Some (k', m') \<and> input_list k' = rest \<and> cstr_at m' lin (l @ [10]) \<and>
      (\<forall>a. a \<notin> stretch lin (length l + 2) \<longrightarrow> m' a = m a)"
    using rd k' at by blast
next
  assume "input_list k = [] # rest"
  then have "keyboard_take k (of_nat 1) = Some (k\<lparr>input_list := rest\<rparr>, [], 0)"
    by (simp add: keyboard_take_def queue_peek_def min_u32_def)
  then have "readline keys_calls adrs lin m k = Some (k\<lparr>input_list := rest\<rparr>, m(lin := 0))"
    by (simp add: readline_def readline_loop.simps keys_calls_def)
  then show "\<exists>k'. readline keys_calls adrs lin m k = Some (k', m(lin := 0)) \<and> input_list k' = rest" by simp
qed

lemma words_of_newline: "words_of w (l @ [10]) = words_of w l"
  by (induction w l rule: words_of.induct) (auto simp: sep_def)

text \<open>C25. The shell does what was typed: from the next line of the keyboard one round makes the argument vector of its words,
  which blanks separate, in order and ended by the null pointer, and decides by the first word between leaving the shell,
  changing the directory, doing nothing and running a program with that vector, for a line of any length.\<close>

theorem shell_runs_line:
  assumes "input_list k = (l @ [10]) # rest" and "0 \<notin> set l" and "10 \<notin> set l" and "length l < 536870909"
    and "distinct adrs" and "0 \<notin> set adrs" and "length l < length adrs"
    and "distinct adrs2" and "0 \<notin> set adrs2" and "length l < length adrs2"
    and "lin \<noteq> 0" and "unat lin + length l + 1 < 4294967296"
    and "stretch arglist (4 * (length (words_of [] l) + 1)) \<inter> stretch lin (length l + 2) = {}"
    and "cstr_at m exit_str (bytes_of ''exit'')" and "cstr_at m cd_str (bytes_of ''cd'')"
    and "(stretch exit_str 5 \<union> stretch cd_str 3) \<inter> (stretch lin (length l + 2) \<union> stretch arglist (4 * (length (words_of [] l) + 1))) = {}"
  shows "\<exists>k' m'. shell_round keys_calls adrs lin adrs2 arglist exit_str cd_str m k = Some (k', m', command_of m' arglist (words_of [] l)) \<and>
    args_vector m' arglist (words_of [] l) \<and> input_list k' = rest"
proof -
  obtain k' m1 where r: "readline keys_calls adrs lin m k = Some (k', m1)" "input_list k' = rest" "cstr_at m1 lin (l @ [10])"
    "\<forall>a. a \<notin> stretch lin (length l + 2) \<longrightarrow> m1 a = m a"
    using readline_reads_line [of adrs l k rest lin m] assms(1-7) by auto
  have n: "strlen m1 lin = Some (of_nat (length (l @ [10])))" by (rule strlen_cstr [OF r(3)])
  have nz: "(of_nat (length (l @ [10])) :: u32) \<noteq> 0" using of_nat32_inj [of "length (l @ [10])" 0] assms(4) by simp
  have five: "length (bytes_of ''exit'') + 1 = 5" "length (bytes_of ''cd'') + 1 = 3" by (simp_all add: bytes_of_def)
  have lit: "cstr_at m1 s t" if "cstr_at m s t" "stretch s (length t + 1) \<inter> stretch lin (length l + 2) = {}" for s t
    by (rule cstr_at_inside [OF that(1)]) (use that(2) r(4) in blast)
  have e: "cstr_at m1 exit_str (bytes_of ''exit'')" by (rule lit [OF assms(14)]) (use assms(16) in \<open>unfold five, blast\<close>)
  have c: "cstr_at m1 cd_str (bytes_of ''cd'')" by (rule lit [OF assms(15)]) (use assms(16) in \<open>unfold five, blast\<close>)
  obtain m' where m': "make_arglist adrs2 lin arglist m1 = Some (m', of_nat (length (words_of [] l)))" "args_vector m' arglist (words_of [] l)"
    "execute_command m' exit_str cd_str arglist (of_nat (length (words_of [] l))) = Some (command_of m' arglist (words_of [] l))"
    using shell_makes_command [OF r(3) _ assms(11) _ assms(8,9), of arglist exit_str cd_str] assms(4,10,12,13,16) e c
    by (auto simp: words_of_newline)
  have "shell_round keys_calls adrs lin adrs2 arglist exit_str cd_str m k = Some (k', m', command_of m' arglist (words_of [] l))"
    unfolding shell_round_def r(1) using n nz m'(1,3) by simp
  then show ?thesis using m'(2) r(2) by blast
qed

theorem shell_runs_line_witness:
  "\<exists>k' m'. shell_round keys_calls [16, 32] 0x1000 [16, 32] 0x2000 0x3000 0x4000
      ((\<lambda>_. 0)(0x3000 := 101, 0x3001 := 120, 0x3002 := 105, 0x3003 := 116, 0x4000 := 99, 0x4001 := 100))
      \<lparr>terminal_buffer = \<lparr>kbuf = [], kcap = 0, ksize = 0\<rparr>, input_list = [[108, 10]], reader_task = None, keyboard_input_size = 0, key_shift = 0, key_ctrl = 0, key_alt = 0\<rparr> =
    Some (k', m', Cmd_run 0x2000)"
proof -
  let ?m = "(\<lambda>_. 0)(0x3000 := 101, 0x3001 := 120, 0x3002 := 105, 0x3003 := 116, 0x4000 := 99, 0x4001 := 100) :: mem"
  let ?k = "\<lparr>terminal_buffer = \<lparr>kbuf = [], kcap = 0, ksize = 0\<rparr>, input_list = [[108, 10]], reader_task = None, keyboard_input_size = 0, key_shift = 0, key_ctrl = 0, key_alt = 0\<rparr>"
  have w: "words_of [] [108] = [[108]]" by (simp add: sep_def)
  have n: "length [108 :: u8] + 2 = 3" "4 * (length [[108 :: u8]] + 1) = 8" by simp_all
  have far: "stretch 0x2000 8 \<inter> stretch 0x1000 3 = {}" "stretch 0x3000 5 \<inter> stretch 0x1000 3 = {}" "stretch 0x3000 5 \<inter> stretch 0x2000 8 = {}"
    "stretch 0x4000 3 \<inter> stretch 0x1000 3 = {}" "stretch 0x4000 3 \<inter> stretch 0x2000 8 = {}"
    by (subst Int_commute, rule stretch_far, simp, simp)+
  have str: "cstr_at ?m 0x3000 (bytes_of ''exit'')" "cstr_at ?m 0x4000 (bytes_of ''cd'')" by (simp_all add: bytes_of_def)
  have "\<exists>k' m'. shell_round keys_calls [16, 32] 0x1000 [16, 32] 0x2000 0x3000 0x4000 ?m ?k = Some (k', m', command_of m' 0x2000 (words_of [] [108])) \<and>
    args_vector m' 0x2000 (words_of [] [108]) \<and> input_list k' = []"
    by (rule shell_runs_line [OF _ _ _ _ _ _ _ _ _ _ _ _ _ str])
      (use far in \<open>simp_all only: w n Int_Un_distrib Int_Un_distrib2 Un_empty, simp_all\<close>)
  then show ?thesis unfolding w by (auto simp: bytes_of_def)
qed

subsection \<open>The services\<close>

text \<open>\<open>run_services\<close> on what \<open>read\<close> put into the buffer of 512 bytes and its result; the names of the programs that are
  started, in order. The terminator goes to the place of the result: an error or a full buffer writes outside.\<close>

function service_loop :: "nat \<Rightarrow> nat \<Rightarrow> u8 cells \<Rightarrow> nat option \<Rightarrow> cstr list \<Rightarrow> cstr list option" where
  "service_loop len i lst ptr started =
     (if i < len then do {
        ch \<leftarrow> rd lst i;
        if ch = 32 \<or> ch = 10 then
          (case ptr of
             Some p \<Rightarrow>
               if p < i then do {
                 lst \<leftarrow> wr lst i 0;
                 path \<leftarrow> read_str (drop p lst);
                 service_loop len (i + 1) lst None (started @ [path])
               } else service_loop len (i + 1) lst ptr started
           | None \<Rightarrow> service_loop len (i + 1) lst None started)
        else service_loop len (i + 1) lst (if ptr = None then Some i else ptr) started
      } else Some started)"
  by pat_completeness auto
termination
  by (relation "measure (\<lambda>(len, i, lst, ptr, started). len - i)") auto

definition run_services :: "u8 list \<Rightarrow> u32 \<Rightarrow> cstr list option" where
  "run_services bs list_len = do {
     lst \<leftarrow> copy_cells (fresh 512) (List.map Some bs) 0 (length bs);
     lst \<leftarrow> (if list_len <s 0 then None else wr lst (unat list_len) 0);
     service_loop (unat list_len) 0 lst None []
   }"

declare service_loop.simps [simp del]

lemma service_loop_rest:
  assumes "\<forall>c \<in> set cs. \<not> sep c" and "lst = A @ List.map Some cs @ B" and "i = length A" and "len = i + length cs"
  shows "service_loop len i lst ptr started = Some started"
  using assms
proof (induction cs arbitrary: A i ptr)
  case Nil
  then show ?case by (subst service_loop.simps) simp
next
  case (Cons c cs)
  have r: "rd lst i = Some c" using Cons.prems(2,3) by (simp add: rd_def nth_append)
  have "service_loop len i lst ptr started = service_loop len (i + 1) lst (if ptr = None then Some i else ptr) started"
    using Cons.prems(1,4) r by (subst service_loop.simps) (auto simp: sep_def)
  also have "\<dots> = Some started"
    using Cons.prems by (intro Cons.IH [of "A @ [Some c]"]) auto
  finally show ?case .
qed

lemma service_loop_words:
  assumes "lst = A @ List.map Some (w @ cs @ rest) @ B" and "i = length A + length w" and "len = i + length (cs @ rest)"
    and "\<forall>c \<in> set w. \<not> sep c" and "0 \<notin> set (w @ cs)" and "\<forall>c \<in> set rest. \<not> sep c"
    and "(if cs = [] then w = [] else sep (last cs))" and "ptr = (if w = [] then None else Some (length A))"
  shows "service_loop len i lst ptr started = Some (started @ words_of w cs)"
  using assms
proof (induction cs arbitrary: lst A w i ptr started)
  case Nil
  then show ?case using service_loop_rest [of rest lst A B i len ptr started] by simp
next
  case (Cons c cs)
  have r: "rd lst i = Some c" "i < len" using Cons.prems(1-3) by (simp_all add: rd_def nth_append)
  show ?case
  proof (cases "sep c")
    case False
    have "service_loop len i lst ptr started = service_loop len (i + 1) lst (if ptr = None then Some i else ptr) started"
      using r False by (subst service_loop.simps) (auto simp: sep_def)
    also have "\<dots> = Some (started @ words_of (w @ [c]) cs)"
      using Cons.prems False by (intro Cons.IH [of _ A "w @ [c]"]) (auto split: if_splits)
    finally show ?thesis using False by simp
  next
    case True
    show ?thesis
    proof (cases "w = []")
      case w: True
      have "service_loop len i lst ptr started = service_loop len (i + 1) lst None started"
        using r True w Cons.prems(8) by (subst service_loop.simps) (auto simp: sep_def)
      also have "\<dots> = Some (started @ words_of [] cs)"
        using Cons.prems w by (intro Cons.IH [of _ "A @ [Some c]" "[]"]) (auto split: if_splits)
      finally show ?thesis using True w by simp
    next
      case w: False
      let ?lst = "A @ List.map Some w @ Some 0 # List.map Some (cs @ rest) @ B"
      have wr: "wr lst i 0 = Some ?lst" using Cons.prems(1,2) by (simp add: wr_def list_update_append)
      have "holds (drop (length A) ?lst) (w @ [0])" by (simp add: holds_def)
      then have path: "read_str (drop (length A) ?lst) = Some w" using Cons.prems(5) by (intro read_str_holds) auto
      have "service_loop len i lst ptr started = service_loop len (i + 1) ?lst None (started @ [w])"
        using r True w wr path Cons.prems(2,8) by (subst service_loop.simps) (auto simp: sep_def)
      also have "\<dots> = Some ((started @ [w]) @ words_of [] cs)"
        using Cons.prems by (intro Cons.IH [of _ "A @ List.map Some w @ [Some 0]" "[]"]) (auto split: if_splits)
      finally show ?thesis using True w by simp
    qed
  qed
qed

text \<open>C26. Of the file with the services, shorter than the buffer, the first program starts the words up to the last blank or
  newline, in order; a last word that no separator follows is not started. A file that fills the buffer, or that cannot be
  read, makes it write outside the buffer.\<close>

theorem services_are_started:
  assumes "0 \<notin> set ws" and "ws = [] \<or> sep (last ws)" and "\<forall>c \<in> set rest. \<not> sep c" and "length (ws @ rest) < 512"
  shows "run_services (ws @ rest) (of_nat (length (ws @ rest))) = Some (words_of [] ws) \<and>
    (length bs = 512 \<longrightarrow> run_services bs 512 = None) \<and> (e <s 0 \<longrightarrow> run_services [] e = None)"
proof (intro conjI impI)
  let ?n = "length (ws @ rest)"
  have si: "sint (of_nat ?n :: u32) = int ?n" "unat (of_nat ?n :: u32) = ?n" using assms(4) by (auto intro!: sint_of_nat32 unat_of_nat32 simp del: of_nat_add)
  then have pos: "\<not> (of_nat ?n :: u32) <s 0" by (simp add: word_sless_alt)
  let ?lst = "List.map Some (ws @ rest) @ Some 0 # replicate (511 - ?n) None"
  have "drop ?n (fresh 512 :: u8 cells) = None # replicate (511 - ?n) None"
    using assms(4) by (simp add: fresh_def replicate_Suc [symmetric] Suc_diff_le del: replicate_Suc)
  then have cp: "copy_cells (fresh 512) (List.map Some (ws @ rest)) 0 ?n = Some (List.map Some (ws @ rest) @ None # replicate (511 - ?n) None)"
    using assms(4) by (simp add: copy_cells_def)
  have "wr (List.map Some (ws @ rest) @ None # replicate (511 - ?n) None) ?n 0 = Some ?lst" by (simp add: wr_def list_update_append)
  then have "run_services (ws @ rest) (of_nat ?n) = service_loop ?n 0 ?lst None []"
    unfolding run_services_def cp by (simp only: bind.bind_lunit pos if_False si(2))
  also have "\<dots> = Some ([] @ words_of [] ws)"
    using assms by (intro service_loop_words [of _ "[]" _ _ rest "Some 0 # replicate (511 - ?n) None"]) auto
  finally show "run_services (ws @ rest) (of_nat ?n) = Some (words_of [] ws)" by simp
  show "run_services bs 512 = None" if "length bs = 512" using that by (simp add: run_services_def copy_cells_def wr_def)
  show "run_services [] e = None" if "e <s 0" using that by (simp add: run_services_def copy_cells_def)
qed

theorem services_are_started_witness:
  "run_services [97, 98, 10, 99, 32, 100] 6 = Some [[97, 98], [99]]"
  using conjunct1 [OF services_are_started [of "[97, 98, 10, 99, 32]" "[100]"]] by (simp add: sep_def)

end
