(* ===== verification/Trace.thy ===== *)
theory Trace
  imports Heapmem
begin

text \<open>
  \<open>src/trace.c\<close>: finding the function an address belongs to, and walking the frames of the stack up to the interrupt
  handlers. The symbol table is a list; what is printed for a frame is its record.
\<close>

record fnrec =
  fn_ptr :: u32
  fn_name :: u32
  fn_address :: u32

function fnrec_find_from :: "fnrec list \<Rightarrow> u32 \<Rightarrow> nat \<Rightarrow> nat" where
  "fnrec_find_from symtable eip idx =
     (if idx + 1 < length symtable \<and> eip \<ge> fn_ptr (symtable ! (idx + 1)) then fnrec_find_from symtable eip (idx + 1) else idx)"
  by pat_completeness auto
termination
  by (relation "measure (\<lambda>(symtable, eip, idx). length symtable - idx)") auto

declare fnrec_find_from.simps [simp del]

definition fnrec_find :: "fnrec list \<Rightarrow> u32 \<Rightarrow> nat" where
  "fnrec_find symtable eip = fnrec_find_from symtable eip 0"

text \<open>The offsets in the table are counted from the place of its length.\<close>

definition trace_init :: "u32 \<Rightarrow> fnrec list \<Rightarrow> fnrec list" where
  "trace_init base symtable = List.map (\<lambda>r. r\<lparr>fn_name := fn_name r + base, fn_address := fn_address r + base\<rparr>) symtable"

text \<open>What the processor holds stands in for a zero, also for a zero that is read from the stack. The walk ends in the code
  from \<open>lo\<close> to \<open>hi\<close>, the interrupt entries.\<close>

partial_function (option) trace :: "fnrec list \<Rightarrow> u32 \<Rightarrow> u32 \<Rightarrow> u32 \<Rightarrow> u32 \<Rightarrow> mem \<Rightarrow> u32 \<Rightarrow> u32 \<Rightarrow> fnrec list option" where
  "trace symtable lo hi cpu_eip cpu_ebp m eip ebp = (
     let eip = (if eip = 0 then cpu_eip else eip);
         ebp = (if ebp = 0 then cpu_ebp else ebp);
         i = fnrec_find symtable eip
     in if i < length symtable then do {
          prevs \<leftarrow> (if \<not> (eip \<ge> lo \<and> eip < hi)
            then trace symtable lo hi cpu_eip cpu_ebp m (load_u32 m (ebp + 4)) (load_u32 m ebp)
            else Some []);
          Some (symtable ! i # prevs)
        } else None)"

declare trace.simps [code]

definition table_sorted :: "fnrec list \<Rightarrow> bool" where
  "table_sorted symtable \<longleftrightarrow> (\<forall>i j. i < j \<longrightarrow> j < length symtable \<longrightarrow> fn_ptr (symtable ! i) \<le> fn_ptr (symtable ! j))"

lemma fnrec_find_from_last:
  assumes "table_sorted symtable" and "idx < length symtable" and "fn_ptr (symtable ! idx) \<le> eip"
  defines "r \<equiv> fnrec_find_from symtable eip idx"
  shows "idx \<le> r \<and> r < length symtable \<and> fn_ptr (symtable ! r) \<le> eip \<and> (\<forall>j. r < j \<longrightarrow> j < length symtable \<longrightarrow> eip < fn_ptr (symtable ! j))"
  unfolding r_def using assms(1-3)
proof (induction symtable eip idx rule: fnrec_find_from.induct)
  case (1 symtable eip idx)
  show ?case
  proof (cases "idx + 1 < length symtable \<and> eip \<ge> fn_ptr (symtable ! (idx + 1))")
    case True
    then show ?thesis using 1 by (subst (1 2 3 4) fnrec_find_from.simps) (auto simp: Suc_le_eq)
  next
    case False
    have "eip < fn_ptr (symtable ! j)" if "idx < j" "j < length symtable" for j
    proof (cases "j = idx + 1")
      case True
      then show ?thesis using False that by auto
    next
      case ne: False
      then have "idx + 1 < j" using that(1) by simp
      then have "fn_ptr (symtable ! (idx + 1)) \<le> fn_ptr (symtable ! j)" using 1(2) that(2) by (simp add: table_sorted_def)
      moreover have "eip < fn_ptr (symtable ! (idx + 1))" using False that ne by auto
      ultimately show ?thesis by (rule order.strict_trans2 [rotated])
    qed
    then show ?thesis using 1(3,4) False by (subst (1 2 3 4) fnrec_find_from.simps) auto
  qed
qed

text \<open>In a table sorted by address, \<open>fnrec_find\<close> finds the last function that starts at or before an address, for
  every address that is not before the first one; that is the function the address is in.\<close>

theorem fnrec_find_last:
  assumes "table_sorted symtable" and "symtable \<noteq> []" and "fn_ptr (symtable ! 0) \<le> eip"
  shows "fnrec_find symtable eip < length symtable \<and> fn_ptr (symtable ! fnrec_find symtable eip) \<le> eip \<and>
    (\<forall>j. fnrec_find symtable eip < j \<longrightarrow> j < length symtable \<longrightarrow> eip < fn_ptr (symtable ! j))"
  using fnrec_find_from_last [OF assms(1) _ assms(3)] assms(2) by (auto simp: fnrec_find_def)

theorem fnrec_find_last_witness:
  "fnrec_find [\<lparr>fn_ptr = 16, fn_name = 0, fn_address = 0\<rparr>, \<lparr>fn_ptr = 32, fn_name = 8, fn_address = 0\<rparr>] 40 = 1"
  using fnrec_find_last [of "[\<lparr>fn_ptr = 16, fn_name = 0, fn_address = 0\<rparr>, \<lparr>fn_ptr = 32, fn_name = 8, fn_address = 0\<rparr>]" 40]
  by (force simp: table_sorted_def less_Suc_eq)

end
