(* ===== verification/Start.thy ===== *)
theory Start
  imports Kheapthms Paging Gdt Idt Terminal Prog
begin

text \<open>
  \<open>src/main.c\<close>: \<open>kinit\<close>, which brings up the terminal, the tables of the processor, the kernel heap and paging in this
  order, and what \<open>kmain\<close> sets up by itself. The addresses of the linker and of the assembly entries are arguments.
\<close>

definition timer_init :: "u32 \<Rightarrow> port_writes" where
  "timer_init frequency =
     (let divisor = ucast ((1193180 :: u32) div frequency) :: u16;
          l = ucast (divisor mod 256) :: u8;
          h = ucast (divisor div 256) :: u8
      in [(0x43, 0x36), (0x40, l), (0x40, h)])"

definition KERNEL_STACK_SIZE :: u32 where "KERNEL_STACK_SIZE = 0x2000"

partial_function (option) stack_pages :: "u32 \<Rightarrow> u32 \<Rightarrow> u32 \<Rightarrow> u32 \<Rightarrow> paging \<Rightarrow> paging option" where
  "stack_pages cur base i sz s =
     (if i < sz then do {
        (s, l) \<leftarrow> get_page cur s (base + i) False cur;
        s \<leftarrow> alloc_frame s l True False;
        stack_pages cur base (i + 0x1000) sz s
      } else Some s)"

declare stack_pages.simps [code]

text \<open>The result has the two stack pointers.\<close>

definition stack_init :: "u32 \<Rightarrow> paging \<Rightarrow> (paging \<times> u32 \<times> u32) option" where
  "stack_init cur s = do {
     let kernel_stack_ptr = 0xC0000000;
     let user_stack_ptr = kernel_stack_ptr + KERNEL_STACK_SIZE;
     s \<leftarrow> stack_pages cur kernel_stack_ptr 0 KERNEL_STACK_SIZE s;
     s \<leftarrow> stack_pages cur user_stack_ptr 0 0x2000 s;
     Some (s, kernel_stack_ptr, user_stack_ptr)
   }"

text \<open>The first code of the user side, \<open>inldr\<close>, is copied to a page of its own.\<close>

definition load_indlr :: "u8 list \<Rightarrow> u32 \<Rightarrow> u32 \<Rightarrow> paging \<Rightarrow> (paging \<times> u32) option" where
  "load_indlr inldr kernel_memory_end cur s = do {
     (s, l) \<leftarrow> get_page cur s kernel_memory_end False cur;
     s \<leftarrow> alloc_frame s l True False;
     s \<leftarrow> store_bytes s cur kernel_memory_end inldr;
     Some (s, kernel_memory_end)
   }"

text \<open>The handler of the numbers that have no other prints them, but not the clock.\<close>

definition common_int_handler :: "registers \<Rightarrow> tty \<Rightarrow> tty option" where
  "common_int_handler regs t =
     (if r_int_no regs \<noteq> ucast INTCODE_PIC then term_print t (bytes_of ''interrupt '' @ decimal (unat (r_int_no regs)) @ [10]) else Some t)"

text \<open>A general protection fault is a panic.\<close>

definition GPF_handler :: "registers \<Rightarrow> 's option" where
  "GPF_handler regs = None"

subsection \<open>\<open>kinit\<close>\<close>

record 'h boot =
  b_term :: tty
  b_gdt :: "gdtrec list \<times> tss_rec \<times> u16 \<times> u32"
  b_idt :: "'h idt"
  b_ports :: port_writes
  b_heap :: heap_st
  b_end :: u32
  b_paging :: paging
  b_cur :: u32

text \<open>The end of the heap, rounded up to the memory of a whole page table.\<close>

definition table_end :: "u32 \<Rightarrow> u32" where
  "table_end e =
     (let table_space = 0x400000
      in if e mod table_space \<noteq> 0 then e div table_space * table_space + table_space else e)"

text \<open>\<open>kinit\<close> up to and with \<open>paging_init\<close>. \<open>end_addr\<close>: where the kernel ends; \<open>array\<close>: what memory holds there, where the index
  of the heap goes. \<open>paging_init\<close> takes the place for the bits of the frames from the heap with \<open>kmalloc\<close>, and
  maps the addresses up to \<open>start + size\<close> of the heap, not up to \<open>kernel_memory_end\<close>. Its aligned requests, \<open>kmalloc_a\<close>
  for directories and tables, are answered from \<open>pages_left\<close>, as everywhere in \<open>Paging\<close>; so \<open>b_heap\<close> is the heap as
  it is at the first of them.\<close>

definition kinit_memory :: "(nat \<Rightarrow> u32) \<Rightarrow> (nat \<Rightarrow> u32) \<Rightarrow> u32 \<Rightarrow> u32 \<Rightarrow> u32 \<Rightarrow> (u32 \<Rightarrow> u32) \<Rightarrow> 'h \<Rightarrow> 'h boot \<Rightarrow> 'h boot option" where
  "kinit_memory ih irqh gdt_addr tss_addr end_addr array common b = do {
     let b = b\<lparr>b_term := (term_init (fst (b_term b)), snd (b_term b))\<rparr>;
     let b = b\<lparr>b_term := term_fg (b_term b)\<rparr>;
     let b = b\<lparr>b_gdt := load_gdt_recs gdt_addr tss_addr\<rparr>;
     let (d, w) = load_idt_recs ih irqh (b_idt b) common;
     let b = b\<lparr>b_idt := d, b_ports := w\<rparr>;
     let heap_effective_size = 0x1000000;
     let heap_index_size = 0x4000;
     let heap_total_size = heap_effective_size + heap_index_size;
     let b = b\<lparr>b_heap := heap_init (hmem (b_heap b)) (watcher (b_heap b)) array end_addr heap_total_size heap_index_size 1 1\<rparr>;
     let b = b\<lparr>b_end := table_end (start (heap (b_heap b)) + heap_total_size)\<rparr>;
     let total_frames = 0x100000;
     (h, bits) \<leftarrow> kmalloc (b_heap b) (total_frames div 8);
     let b = b\<lparr>b_heap := h\<rparr>;
     (p, cur) \<leftarrow> paging_init (b_paging b) bits (start (heap (b_heap b)) + hp_size (heap (b_heap b)));
     Some (b\<lparr>b_paging := p, b_cur := cur\<rparr>)
   }"

definition kinit :: "(nat \<Rightarrow> u32) \<Rightarrow> (nat \<Rightarrow> u32) \<Rightarrow> u32 \<Rightarrow> u32 \<Rightarrow> u32 \<Rightarrow> (u32 \<Rightarrow> u32) \<Rightarrow> 'h \<Rightarrow> 'h boot \<Rightarrow> ('h boot \<times> u32 \<times> u32) option" where
  "kinit ih irqh gdt_addr tss_addr end_addr array common b = do {
     b \<leftarrow> kinit_memory ih irqh gdt_addr tss_addr end_addr array common b;
     (p, ks, us) \<leftarrow> stack_init (b_cur b) (b_paging b);
     Some (b\<lparr>b_paging := p\<rparr>, ks, us)
   }"

lemma table_end_bounds:
  assumes "unat e \<le> 0xFFC00000"
  shows "unat e \<le> unat (table_end e) \<and> unat (table_end e) < unat e + 0x400000 \<and> unat (table_end e) mod 0x400000 = 0 \<and>
    unat (table_end e) \<le> 0xFFC00000"
proof -
  have m: "unat (e mod 0x400000) = unat e mod 0x400000" by (simp add: unat_mod)
  show ?thesis
  proof (cases "e mod 0x400000 = 0")
    case True
    then show ?thesis using m assms by (simp add: table_end_def)
  next
    case False
    then have z: "unat e mod 0x400000 \<noteq> 0" using m by (metis unat_eq_0)
    define q where "q = unat e div 0x400000"
    have q: "0x400000 * q + unat e mod 0x400000 = unat e" by (simp add: q_def)
    define r where "r = unat e mod 0x400000"
    have lt: "r < 0x400000" by (simp add: r_def)
    note z = z [folded r_def] and q = q [folded r_def]
    have top: "q + 1 \<le> 1023"
    proof (rule ccontr)
      assume "\<not> q + 1 \<le> 1023"
      then have "0x400000 * 1023 \<le> 0x400000 * q" by simp
      then show False using q z assms by linarith
    qed
    have "unat (e div 0x400000 * 0x400000) = q * 0x400000" using top by (simp add: unat_word_ariths unat_div q_def)
    then have t: "unat (table_end e) = (q + 1) * 0x400000"
      using False top by (simp add: table_end_def unat_add_nowrap)
    have "(q + 1) * 0x400000 mod 0x400000 = 0" by (rule mod_mult_self2_is_0)
    moreover have "unat e \<le> (q + 1) * 0x400000" "(q + 1) * 0x400000 < unat e + 0x400000" "(q + 1) * 0x400000 \<le> 0xFFC00000"
    proof -
      have e: "(q + 1) * 0x400000 = 0x400000 * q + 0x400000" by simp
      have "0 < r" using z by simp
      then show "unat e \<le> (q + 1) * 0x400000" "(q + 1) * 0x400000 < unat e + 0x400000" "(q + 1) * 0x400000 \<le> 0xFFC00000"
        unfolding e using q lt top by linarith+
    qed
    ultimately show ?thesis unfolding t by blast
  qed
qed

lemma unat_page_floor: "unat (x AND 0xFFFFF000 :: u32) = unat x div 4096 * 4096"
proof -
  have m: "(0xFFFFF000 :: u32) = NOT (mask 12)" by (simp add: mask_eq_exp_minus_1)
  have "x AND 0xFFFFF000 = push_bit 12 (drop_bit 12 x)" unfolding m by (rule bit_word_eqI) (auto simp: bit_simps)
  also have "\<dots> = x div 4096 * 4096" by (simp add: push_bit_eq_mult drop_bit_eq_div)
  finally have e: "x AND 0xFFFFF000 = x div 4096 * 4096" .
  have "unat x div 4096 * 4096 \<le> unat x" by simp
  then have "unat x div 4096 * 4096 < 4294967296" using unat32_bound [of x] by linarith
  then show ?thesis unfolding e by (simp add: unat_word_ariths unat_div)
qed

lemma heap_start_bounds:
  assumes "unat e + 0x6000 < 4294967296"
  shows "unat e + 0x4000 \<le> unat (start (heap (heap_init m w array e sz 0x4000 ro su))) \<and>
    unat (start (heap (heap_init m w array e sz 0x4000 ro su))) \<le> unat e + 0x5000"
proof -
  have x: "unat (e + 0x4000) = unat e + 0x4000" using assms by (simp add: unat_add_nowrap)
  have f: "unat e + 0x4000 - 4095 \<le> (unat e + 0x4000) div 4096 * 4096" "(unat e + 0x4000) div 4096 * 4096 \<le> unat e + 0x4000" by linarith+
  have "unat ((e + 0x4000 AND 0xFFFFF000) + 0x1000) = (unat e + 0x4000) div 4096 * 4096 + 0x1000"
    using f(2) assms unat_page_floor [of "e + 0x4000"] unfolding x by (subst unat_add_nowrap) simp_all
  then show ?thesis using f x by (auto simp: heap_init_def index_insert_def Let_def)
qed

text \<open>C29. When the kernel's memory is brought up, the heap has, at the first aligned request of \<open>paging_init\<close>, exactly one
  allocation, the bits of the frames, and it lies in the heap; every address from 0 to the end of the heap, \<open>start +
  size\<close>, is mapped to itself in the directory that is then in use, so the kernel, its heap and its tables stay where they
  are when paging is switched on; and \<open>kernel_memory_end\<close> is at or behind that end and at the start of a page table, less
  than one table further, so that no table is shared between the kernel and a program.\<close>

theorem kinit_memory_ready:
  assumes "unat end_addr \<le> 0xC0000000" and "spare_ok (b_paging b)" and "pages_left (b_paging b) = k # as" and "850 \<le> length as"
  shows "\<exists>b' bits. kinit_memory ih irqh gdt_addr tss_addr end_addr array common b = Some b' \<and>
    heap_inv (b_heap b') \<and> allocations (b_heap b') = [bits \<mapsto> 0x20000] \<and>
    unat (start (heap (b_heap b'))) + 9 \<le> unat bits \<and>
    unat bits + 0x20000 \<le> unat (start (heap (b_heap b'))) + unat (hp_size (heap (b_heap b'))) + 9 \<and>
    unat end_addr + 0x4000 \<le> unat (start (heap (b_heap b'))) \<and> hp_size (heap (b_heap b')) = 0x1004000 \<and>
    (\<forall>va < start (heap (b_heap b')) + hp_size (heap (b_heap b')).
      get_physical_address (b_cur b') (b_paging b') va = Some (b_paging b', va)) \<and>
    unat (start (heap (b_heap b'))) + unat (hp_size (heap (b_heap b'))) \<le> unat (b_end b') \<and>
    unat (b_end b') < unat (start (heap (b_heap b'))) + unat (hp_size (heap (b_heap b'))) + 0x400000 \<and>
    unat (b_end b') mod 0x400000 = 0"
proof -
  define h where "h = heap_init (hmem (b_heap b)) (watcher (b_heap b)) array end_addr 0x1004000 0x4000 1 1"
  have st: "unat end_addr + 0x4000 \<le> unat (start (heap h))" "unat (start (heap h)) \<le> unat end_addr + 0x5000"
    using heap_start_bounds [of end_addr] assms(1) by (simp_all add: h_def)
  have sz: "hp_size (heap h) = 0x1004000" by (simp add: h_def heap_init_fields)
  have inv: "heap_inv h" "allocations h = Map.empty"
    using heap_init_inv [OF h_def] st assms(1) sz by (simp_all add: blocks_end_def)
  have hole: "ol_elems (index (heap h)) = [start (heap h)]" "h_size (hdr (hmem h) (start (heap h))) = 0x1004000"
    using one_hole_if_empty [OF inv] sz by simp_all
  obtain h' bits where a: "kmalloc h 0x20000 = Some (h', bits)" "heap_inv h'" "allocations h' = [bits \<mapsto> 0x20000]"
    using heap_alloc_cases [OF inv(1), of "0x20000"] inv(2) hole by (auto simp: kmalloc_def)
  have ext: "start (heap h') = start (heap h)" "hp_size (heap h') = 0x1004000" using kmalloc_extent [OF a(1)] sz by simp_all
  have within: "unat (start (heap h)) + 9 \<le> unat bits" "unat bits + 0x20000 \<le> unat (start (heap h)) + 0x1004000 + 9"
    using allocations_within [OF a(2), of bits "0x20000"] a(3) ext by (simp_all add: blocks_end_def)
  have e: "unat (start (heap h) + 0x1004000) = unat (start (heap h)) + 0x1004000" using st assms(1) by (simp add: unat_add_nowrap)
  let ?e = "table_end (start (heap h) + 0x1004000)" and ?u = "start (heap h) + 0x1004000"
  have t: "unat (start (heap h)) + 0x1004000 \<le> unat ?e" "unat ?e < unat (start (heap h)) + 0x1004000 + 0x400000"
    "unat ?e mod 0x400000 = 0"
    using table_end_bounds [of "start (heap h) + 0x1004000"] st assms(1) unfolding e by simp_all
  have u: "unat ?u \<le> 0xC2000000" using e st assms(1) by simp
  then have "unat ?u div 4096 \<le> 0xC2000000 div 4096" by (rule div_le_mono)
  then have "unat ?u div 4096 + 1025 \<le> 1024 * length as" using assms(4) by simp
  moreover have "unat ?u \<le> 0xFFFFF000" using u by simp
  ultimately obtain p cur where p: "paging_init (b_paging b) bits ?u = Some (p, cur)"
    "\<forall>va < ?u. get_physical_address cur p va = Some (p, va)"
    using paging_init_maps [OF assms(2,3), of ?u bits] by auto
  define b' where "b' = b\<lparr>b_term := term_fg (term_init (fst (b_term b)), snd (b_term b)), b_gdt := load_gdt_recs gdt_addr tss_addr,
    b_idt := fst (load_idt_recs ih irqh (b_idt b) common), b_ports := snd (load_idt_recs ih irqh (b_idt b) common),
    b_heap := h', b_end := ?e, b_paging := p, b_cur := cur\<rparr>"
  have "kinit_memory ih irqh gdt_addr tss_addr end_addr array common b = Some b'"
    by (simp add: kinit_memory_def Let_def h_def [symmetric] a(1) ext p(1) b'_def split: prod.split)
  then show ?thesis
    using a(2,3) within st(1) ext p(2) t by (intro exI [of _ b'] exI [of _ bits]) (simp add: b'_def)
qed

definition demo_pages :: "u32 list" where
  "demo_pages = List.map (\<lambda>i. of_nat i * 0x1000) [1..<853]"

lemma demo_pages_spare: "spare_ok (paging0 demo_pages)"
proof -
  have u: "unat (of_nat i * 0x1000 :: u32) = i * 4096" if "i < 853" for i
    using that by (simp add: unat_word_ariths unat_of_nat32)
  have "inj_on (\<lambda>i. of_nat i * 0x1000 :: u32) {1..<853}"
    by (rule inj_onI) (metis atLeastLessThan_iff mult_cancel2 u zero_neq_numeral)
  then have "distinct demo_pages" by (simp add: demo_pages_def distinct_map)
  moreover have "a \<noteq> 0 \<and> page_aligned a" if a: "a \<in> set demo_pages" for a
  proof -
    obtain i where i: "a = of_nat i * 0x1000" "0 < i" "i < 853" using a by (auto simp: demo_pages_def)
    have ua: "unat a = i * 4096" using u [OF i(3)] i(1) by simp
    then have "unat (a AND 0xFFFFF000) = unat a" unfolding unat_page_floor by simp
    then have "a AND 0xFFFFF000 = a" by (simp add: word_eq_by_unat)
    moreover have "a \<noteq> 0" using ua i(2) by auto
    ultimately show ?thesis by (simp add: page_aligned_def)
  qed
  ultimately show ?thesis by (auto simp: spare_ok_def paging0_def)
qed

theorem kinit_memory_ready_witness:
  "\<forall>b. \<exists>b' bits. kinit_memory (\<lambda>_. 0) (\<lambda>_. 0) 0 0 0x100000 (\<lambda>_. 0) () (b\<lparr>b_paging := paging0 demo_pages\<rparr>) = Some b' \<and>
    allocations (b_heap b') = [bits \<mapsto> 0x20000] \<and> unat (b_end b') mod 0x400000 = 0 \<and>
    get_physical_address (b_cur b') (b_paging b') 0x100000 = Some (b_paging b', 0x100000)"
proof
  fix b :: "unit boot"
  let ?b = "b\<lparr>b_paging := paging0 demo_pages\<rparr>"
  have pages: "pages_left (b_paging ?b) = hd demo_pages # tl demo_pages" by (simp add: paging0_def demo_pages_def upt_rec [of 1])
  have spare: "spare_ok (b_paging ?b)" using demo_pages_spare by simp
  have len: "850 \<le> length (tl demo_pages)" by (simp add: demo_pages_def)
  have e: "unat (0x100000 :: u32) \<le> 0xC0000000" by simp
  obtain b' bits where r: "kinit_memory (\<lambda>_. 0) (\<lambda>_. 0) 0 0 0x100000 (\<lambda>_. 0) () ?b = Some b'"
    "allocations (b_heap b') = [bits \<mapsto> 0x20000]" "unat (b_end b') mod 0x400000 = 0"
    "unat (0x100000 :: u32) + 0x4000 \<le> unat (start (heap (b_heap b')))" "hp_size (heap (b_heap b')) = 0x1004000"
    "\<forall>va < start (heap (b_heap b')) + hp_size (heap (b_heap b')).
      get_physical_address (b_cur b') (b_paging b') va = Some (b_paging b', va)"
    "unat (start (heap (b_heap b'))) + unat (hp_size (heap (b_heap b'))) \<le> unat (b_end b')"
    using kinit_memory_ready [OF e spare pages len, of "\<lambda>_. 0" "\<lambda>_. 0" 0 0 "\<lambda>_. 0" "()"] by (elim exE conjE) (rule that)
  have "unat (start (heap (b_heap b')) + 0x1004000) = unat (start (heap (b_heap b'))) + 0x1004000"
    using r(5,7) unat32_bound [of "b_end b'"] by (subst unat_add_nowrap) simp_all
  then have "0x100000 < start (heap (b_heap b')) + hp_size (heap (b_heap b'))" using r(4,5) by (simp add: word_less_nat_alt)
  then have "get_physical_address (b_cur b') (b_paging b') 0x100000 = Some (b_paging b', 0x100000)" by (rule r(6) [rule_format])
  then show "\<exists>b' bits. kinit_memory (\<lambda>_. 0) (\<lambda>_. 0) 0 0 0x100000 (\<lambda>_. 0) () ?b = Some b' \<and>
    allocations (b_heap b') = [bits \<mapsto> 0x20000] \<and> unat (b_end b') mod 0x400000 = 0 \<and>
    get_physical_address (b_cur b') (b_paging b') 0x100000 = Some (b_paging b', 0x100000)"
    using r(1-3) by (intro exI [of _ b'] exI [of _ bits] conjI)
qed

end
