(* ===== verification/Spec2Isabelle.thy ===== *)
theory Spec2Isabelle
  imports Util Bitset Kheapthms Kqueue Pathbuf Fsthms Inodethms Ata Task Paging Kb Gdt Procthms Execthms Uheapthms Print Ulist Shell Trace Start
begin

text \<open>
  A verification library for the eedox kernel, a 32-bit x86 kernel in C with a heap, paging, tasks,
  a file system on an ATA disk, pipes, message queues and Unix-like system calls.

  \<^bold>\<open>The parts of the kernel and the theories that model them.\<close> File names are those of \<open>src/src/\<close>; a
  definition has the name of the C function or type it translates.

  \<^item> \<open>Prelude\<close>: words of 8, 16 and 32 bits, memory as a function from addresses to bytes, arithmetic that
    does not wrap, little-endian words. \<open>Cells\<close>: a C buffer as a list of cells, \<open>None\<close> where nothing was
    written; reading such a cell or one behind the end has no result.
  \<^item> \<open>Util\<close> (\<open>util.c\<close>): \<open>memcpy\<close>, \<open>memset\<close>, string functions, number printing and binary search on the byte
    memory. \<open>Bitset\<close> (\<open>bitset.c\<close>): the bit array of the physical frames.
  \<^item> \<open>Ordlist\<close>, \<open>Heapwatch\<close>, \<open>Heapmem\<close>, \<open>Kheap\<close> (\<open>ordlist.c\<close>, \<open>heapwatch.c\<close>, \<open>kheap.c\<close>, the allocation calls of
    \<open>kutil.c\<close>): the kernel heap with its headers as bytes in memory, its index of holes and its log
    of allocations. \<open>Kheapinv\<close> has the invariant of the chain of blocks and that every operation
    keeps it; \<open>Kheapthms\<close> what the clients get, for every sequence of calls from the heap that \<open>heap_init\<close> leaves.
    The blocks end nine bytes behind \<open>start + size\<close>, which the code takes for the end: \<open>heap_init\<close> does not
    subtract the first header (\<open>heap_block_past_end\<close>).
  \<^item> \<open>Vec\<close>, \<open>Kstring\<close>, \<open>Kqueue\<close>, \<open>Pathbuf\<close> (\<open>vec.c\<close>, \<open>kstring.c\<close>, \<open>kqueue.c\<close>, \<open>pathbuf.c\<close>): the containers,
    each refined to a list, a byte string, a queue, and a path as a sequence of names.
  \<^item> \<open>Lock\<close>, \<open>Pipe\<close> (\<open>lock.c\<close>, \<open>pipe.c\<close>, \<open>mq.c\<close>): semaphores, reader-writer locks, pipes and named pipes, with
    step relations for the tasks that use them. The value of a semaphore is a 32-bit word read as a signed number.
  \<^item> \<open>Ata\<close> (\<open>ata.c\<close>): the disk driver, its interrupt handler and the registers of the device, with the number of
    sectors of a command; a write of more than one overwrites the sectors behind.
  \<^item> \<open>Childtable\<close>, \<open>Inode\<close>, \<open>Fs\<close> (\<open>fs.c\<close>): the table of names of a directory, the block allocator and
    the nodes on the disk, and the nodes in memory with opening, reading and writing.
    \<open>Inodedata\<close>, \<open>Inodewrite\<close>, \<open>Inodedir\<close>, \<open>Inodeops\<close>, \<open>Inodethms\<close> and \<open>Fsthms\<close> hold what a file and a directory
    mean, in layers, and that the operations implement it.
  \<^item> \<open>Descriptor\<close>, \<open>Task\<close> (\<open>descriptor.c\<close>, \<open>task.c\<close>): the table of open files of a task, and the tasks, their
    queue and switching between them.
  \<^item> \<open>Paging\<close> (\<open>paging.c\<close>): page tables, the frames, and copying an address space for a fork.
  \<^item> \<open>Terminal\<close>, \<open>Kb\<close> (\<open>terminal.c\<close>, \<open>kb.c\<close>): the text terminal with the screen it is shown on, and the
    keyboard driver, a line editor that hands finished lines to the readers.
  \<^item> \<open>Idt\<close>, \<open>Gdt\<close> (\<open>idt.c\<close>, \<open>gdt.c\<close>): the interrupt and segment tables and the way from an interrupt to the
    handler that was registered. \<open>Uvm\<close>: the memory of a program, read and written through the page
    tables. \<open>Prog\<close> (\<open>prog.c\<close>): loading an ELF file.
  \<^item> \<open>Syscall\<close> (\<open>syscall.c\<close>): the table of system calls, each call on the state of the whole kernel (tasks,
    files, pipes, page tables, keyboard and terminal), and going on with a call that slept.
    \<open>Syscallthms\<close>: calls that fail and pipes. \<open>Procthms\<close>: fork, exit and wait. \<open>Execthms\<close>: the stack of a
    new program.
  \<^item> \<open>Print\<close> (\<open>partial_print\<close> and \<open>sprintf\<close> of \<open>util.c\<close>, \<open>_kprintf\<close> of \<open>kutil.c\<close>, \<open>_printf\<close> of \<open>stdlib.c\<close>): printing in parts, and
    that it is printing the text a format stands for.
  \<^item> \<open>Trace\<close> (\<open>trace.c\<close>): the function an address is in, and the walk up the stack. \<open>Start\<close> (\<open>main.c\<close>): \<open>kinit\<close> and what
    the kernel sets up before the first task; its theorem puts the heap and paging together, up to the aligned requests
    of \<open>paging_init\<close>, which take addresses from a list of pages.

  \<^bold>\<open>The user side.\<close> File names are those of \<open>src/user/\<close>.

  \<^item> \<open>Uheap\<close> (\<open>alloc.c\<close>, \<open>alloc.h\<close>, \<open>alloc-internal.h\<close>, \<open>malloc\<close>, \<open>free\<close> and \<open>realloc\<close> of \<open>stdlib.c\<close>): the heap of a program,
    headers as bytes in its memory, free blocks in a doubly linked list. \<open>Uheapinv\<close> has the invariant (the blocks tile
    the heap up to the break, the list holds the free ones); \<open>Uheapthms\<close> that \<open>malloc\<close> returns, that allocations are
    disjoint as long as no two free blocks touch, and what goes wrong when they do.
  \<^item> \<open>Ulist\<close> (\<open>llist.c\<close>): the linked list of the programs, refined to a sequence and shown to be a queue, which the
    shell relies on.
  \<^item> \<open>Progs\<close> (\<open>cat.c\<close>, \<open>cp.c\<close>, \<open>tee.c\<close>, \<open>wc.c\<close>, \<open>ls.c\<close>, \<open>mkdir.c\<close>, \<open>stat.c\<close>, \<open>echo.c\<close>): the programs over the calls they make.
    Locales say what they take a descriptor to be, a sequence of bytes to read or to write; an open file of the model of
    the file system and the lines of the keyboard driver are instances, each tied by a lemma to the system call of
    \<open>Syscall\<close> it stands for. The rounds of a loop are also counted (\<open>pump_rounds\<close>, \<open>wc_rounds\<close>), which tells a loop that
    runs forever from one that fails.
  \<^item> \<open>Shell\<close> (\<open>sh.c\<close>, \<open>init.c\<close>): reading a line from the keyboard, cutting it into words in memory, the argument vector
    and the decision what to run; the services the first program starts.

  \<^bold>\<open>How the parts interact.\<close> A buffer comes from the kernel heap; the containers abstract from the
  address it has, which the theorems on the heap justify: an allocation is disjoint from all that are
  live. The file system reads and writes sectors through the driver, whose operations the theorem on
  \<open>Ata\<close> reduces to reading and updating a disk. A call that can sleep is split where it sleeps; between
  the parts any other task that is ready may run.

  \<^bold>\<open>Conventions.\<close> An operation that ends in \<open>kpanic\<close>, reads memory that was never written, goes through
  the null pointer or leaves its object has the result \<open>None\<close>; an error the code returns is a value.
  A loop that need not end is a \<open>partial_function\<close> and \<open>None\<close> is then also running forever, so a theorem
  that gives \<open>Some\<close> also says that the code returns, and a theorem that a loop never ends is about its rounds.

  \<^bold>\<open>Bounds.\<close> Loops whose end is known by a measure are functions with that measure. A bound in a theorem (a file below
  2 GB, a line below 512 MB, fewer than \<open>2 ^ 32\<close> elements, at most \<open>2 ^ 31\<close> tasks at a
  semaphore) is where the 32-bit arithmetic of the code would wrap.

  \<^bold>\<open>Not modelled.\<close> The assembly of the entries, of the switch of the processor and of the stubs that make a system call;
  the device polling of the disk; the aligned blocks of the kernel heap as blocks of its chain (\<open>heap_alloc\<close> with
  alignment is modelled, the theorems on the heap are on \<open>kmalloc\<close> and \<open>kfree\<close>, and \<open>Paging\<close> has its pages from a list); \<open>kmain\<close>, which only calls the initialisers above, forks and enters the user side, and the
  loop in which the first program waits for the shell; the demonstration programs \<open>upcd.c\<close>, \<open>upclnt.c\<close> and \<open>sample.c\<close>;
  the scripts that build the disk image.
\<close>

end
